(* ===== verification/Prelude.thy ===== *)
theory Prelude
  imports Main "HOL-Library.Word" "HOL-Library.Multiset"
begin

text \<open>
  The types, the result type and the generic lemmas the component theories share.

  \<^item> Machine integers: \<open>uint64_t\<close>, \<open>uint32_t\<close> and \<open>uint8_t\<close> are words of that width,
    so every \<open>+\<close> wraps exactly where the C++ wraps; the enums of
    \<open>common/global_common.h\<close> are datatypes with the source's constructors.
  \<^item> Results: a function of the source that can fail an \<open>assert\<close>, read through a null
    pointer, index out of range, or block on a latch that is never released in the state it
    runs in, returns a value of \<open>'a res\<close>; \<open>bind_res\<close> sequences such calls.
  \<^item> The bubble sort that \<open>occ.cpp\<close>, \<open>silo.cpp\<close> and \<open>tictoc.cpp\<close> each spell out
    over their access arrays, with its contract in the locale \<open>swap_order\<close>.
\<close>

unbundle bit_operations_syntax

section \<open>Types of the program\<close>

type_synonym u8 = "8 word"
type_synonym u32 = "32 word"
type_synonym u64 = "64 word"
type_synonym ts_t = u64
type_synonym txnid_t = u64
type_synonym idx_key_t = u64
type_synonym bytes = "u8 list"

abbreviation UINT64_MAX :: u64 where
  "UINT64_MAX \<equiv> - 1"

datatype RC = RCOK | Commit | Abort | WAIT | ERROR | FINISH

datatype latch_t = LATCH_EX | LATCH_SH | LATCH_NONE

datatype idx_acc_t = INDEX_INSERT | INDEX_READ | INDEX_NONE | INDEX_EX

datatype access_t = RD | WR | XP | SCAN

datatype lock_t = LOCK_EX | LOCK_SH | LOCK_NONE

datatype TsType = R_REQ | W_REQ | P_REQ | XP_REQ

text \<open>The lock-based values of the compile-time switch \<open>CC_ALG\<close>.\<close>

datatype lock_alg = NO_WAIT | WAIT_DIE | DL_DETECT

section \<open>Results\<close>

datatype fault =
    Assert_Fail  \<comment> \<open>an \<open>assert\<close>, \<open>ASSERT\<close> or \<open>M_ASSERT\<close> of the source fails\<close>
  | Null_Deref   \<comment> \<open>a null pointer is read or written\<close>
  | Bounds       \<comment> \<open>an array is accessed outside its allocation\<close>
  | Freed        \<comment> \<open>memory is used after it was given back\<close>
  | Blocked      \<comment> \<open>a latch or spin loop waits for another thread\<close>
  | Diverges     \<comment> \<open>a recursion or loop of the source never ends\<close>

type_synonym 'a res = "fault + 'a"

definition bind_res :: "'a res \<Rightarrow> ('a \<Rightarrow> 'b res) \<Rightarrow> 'b res" where
  "bind_res r f = (case r of Inl e \<Rightarrow> Inl e | Inr x \<Rightarrow> f x)"

definition assert_res :: "bool \<Rightarrow> 'a res \<Rightarrow> 'a res" where
  "assert_res b r = (if b then r else Inl Assert_Fail)"

named_theorems res_simps \<open>unfolding of results\<close>
named_theorems rowlock_simps \<open>unfolding of the lock table operations\<close>
named_theorems occ_simps \<open>unfolding of the OCC operations\<close>

lemma bind_res_Inl [simp]: "bind_res (Inl e) f = Inl e"
  by (simp add: bind_res_def)

lemma bind_res_Inr [simp]: "bind_res (Inr x) f = f x"
  by (simp add: bind_res_def)

lemma bind_res_eq_Inr [res_simps]:
  "bind_res r f = Inr y \<longleftrightarrow> (\<exists>x. r = Inr x \<and> f x = Inr y)"
  by (cases r) auto

lemma bind_res_eq_Inl [res_simps]:
  "bind_res r f = Inl e \<longleftrightarrow> r = Inl e \<or> (\<exists>x. r = Inr x \<and> f x = Inl e)"
  by (cases r) auto

lemma bind_res_cong [fundef_cong]:
  "r = r' \<Longrightarrow> (\<And>x. r' = Inr x \<Longrightarrow> f x = f' x) \<Longrightarrow> bind_res r f = bind_res r' f'"
  by (cases r') auto

lemma assert_res_True [simp]: "assert_res True r = r"
  by (simp add: assert_res_def)

lemma assert_res_False [simp]: "assert_res False r = Inl Assert_Fail"
  by (simp add: assert_res_def)

lemma assert_res_eq_Inr [res_simps]: "assert_res b r = Inr x \<longleftrightarrow> b \<and> r = Inr x"
  by (simp add: assert_res_def)

section \<open>Words\<close>

lemma xor_cancel [simp]: "(a XOR b) XOR b = (a :: 'a::len word)"
  by (simp add: xor.assoc)

lemma xor_cancel_left [simp]: "b XOR (b XOR a) = (a :: 'a::len word)"
  by (simp flip: xor.assoc)

lemma xor_left_inject [simp]: "a XOR b = a XOR c \<longleftrightarrow> b = (c :: 'a::len word)"
  by (metis xor_cancel_left)

lemma xor_right_inject [simp]: "b XOR a = c XOR a \<longleftrightarrow> b = (c :: 'a::len word)"
  by (metis xor_cancel)

lemma unat_of_nat_lt:
  "n < 2 ^ LENGTH('a) \<Longrightarrow> unat (of_nat n :: 'a::len word) = n"
  by (simp add: unat_of_nat)

lemma of_nat_word_zero:
  "n < 2 ^ LENGTH('a) \<Longrightarrow> (of_nat n :: 'a::len word) = 0 \<longleftrightarrow> n = 0"
  by (metis unat_of_nat_lt unat_0 unat_eq_zero of_nat_0)

lemma unat_suc_less:
  fixes x :: "'a::len word"
  assumes "Suc (unat x) < 2 ^ LENGTH('a)"
  shows "unat (x + 1) = Suc (unat x)"
  using assms by (simp add: unat_word_ariths)

lemma word_less_suc:
  fixes x :: "'a::len word"
  assumes "x \<noteq> - 1"
  shows "x < x + 1"
proof -
  have "x + 1 \<noteq> 0"
    using assms by (metis add_eq_0_iff2)
  then have "unat (x + 1) = Suc (unat x)"
    by (metis Suc_eq_plus1 add.commute unatSuc)
  then show ?thesis
    by (simp add: word_less_nat_alt)
qed

lemma bit_63_less: "bit (x :: u64) 63 \<longleftrightarrow> \<not> x < 2 ^ 63"
proof -
  have "bit x 63 \<longleftrightarrow> bit (unat x) 63"
    by (simp add: bit_unsigned_iff)
  also have "\<dots> \<longleftrightarrow> odd (unat x div 2 ^ 63)"
    by (rule bit_iff_odd)
  also have "\<dots> \<longleftrightarrow> \<not> unat x < 2 ^ 63"
  proof (cases "unat x < 2 ^ 63")
    case False
    then have "unat x div 2 ^ 63 = 1"
      using unsigned_less[of x] by (intro div_nat_eqI) auto
    with False show ?thesis by simp
  qed simp
  also have "\<dots> \<longleftrightarrow> \<not> x < 2 ^ 63"
    by (simp add: word_less_nat_alt)
  finally show ?thesis .
qed

lemma unat_pow2: "k < 64 \<Longrightarrow> unat (2 ^ k :: u64) = 2 ^ k"
proof -
  assume "k < 64"
  then have "(2 :: nat) ^ k < 2 ^ LENGTH(64)"
    by (intro power_strict_increasing) auto
  from unat_of_nat_lt[OF this] show ?thesis by simp
qed

lemma small_bit:
  fixes x :: u64
  assumes "x < 2 ^ k" "bit x n"
  shows "n < k"
proof (rule ccontr)
  assume "\<not> n < k"
  have "unat x < 2 ^ k"
  proof (cases "k < 64")
    case True
    then show ?thesis
      using assms(1) by (simp add: word_less_nat_alt unat_pow2)
  next
    case False
    have "unat x < 2 ^ 64"
      using unsigned_less[of x] by simp
    also have "(2 :: nat) ^ 64 \<le> 2 ^ k"
      using False by (intro power_increasing) auto
    finally show ?thesis .
  qed
  then have "unat x < 2 ^ n"
    using \<open>\<not> n < k\<close> by (metis not_less order.strict_trans2 one_le_numeral power_increasing)
  then have "\<not> bit (unat x) n"
    by (simp add: bit_iff_odd)
  then show False
    using assms(2) by (simp add: bit_unsigned_iff)
qed

lemma take_bit_word_less: "k < 64 \<Longrightarrow> take_bit k (v :: u64) < 2 ^ k"
  by (simp add: word_less_nat_alt unsigned_take_bit_eq unat_pow2)

lemma map_of_mset_eq:
  assumes "mset xs = mset ys" "distinct (map fst ys)"
  shows "map_of xs = map_of ys"
proof -
  have "distinct (map fst xs)"
    using assms by (metis mset_map mset_eq_imp_distinct_iff)
  then show ?thesis
    using assms by (intro map_of_inject_set[THEN iffD2]) (auto dest: mset_eq_setD)
qed

section \<open>Circular arrays\<close>

text \<open>Positions of a window of a circular array's size do not collide.\<close>

lemma window_inj:
  fixes i j p n :: nat
  assumes "p \<le> i" "i < p + n" "p \<le> j" "j < p + n" "i mod n = j mod n"
  shows "i = j"
proof -
  have le: "i = j" if "i \<le> j" "j < i + n" "i mod n = j mod n" for i j :: nat
  proof (rule ccontr)
    assume "i \<noteq> j"
    moreover have "n dvd j - i" using that mod_eq_dvd_iff_nat[of i j n] by simp
    ultimately show False using that dvd_imp_le[of n "j - i"] by simp
  qed
  show ?thesis using le[of i j] le[of j i] assms by (cases "i \<le> j") auto
qed

lemma mod_wrap: "x < 2 * n \<Longrightarrow> x mod n = (if x < n then x else x - n)" for n :: nat
  by (simp add: le_mod_geq)

lemma mod_add_wrap:
  fixes n j x :: nat
  assumes "j < n"
  shows "(x + j) mod n = (if x mod n + j < n then x mod n + j else x mod n + j - n)"
proof -
  have "x mod n < n" using assms by (intro mod_less_divisor) simp
  then have "x mod n + j < 2 * n" using assms by linarith
  from mod_wrap[OF this] show ?thesis using mod_add_left_eq[of x n j] by simp
qed

section \<open>The minimum timestamp\<close>

text \<open>
  \<open>ManagerEnc::get_min_ts\<close>, which the version stores ask before they recycle versions: its body is
  \<open>assert(false)\<close>, followed by a computation that is commented out.
\<close>

definition ManagerEnc_get_min_ts :: "ts_t res" where
  "ManagerEnc_get_min_ts = Inl Assert_Fail"

end
