(* ===== verification/Bubble_Sort.thy ===== *)
theory Bubble_Sort
  imports Prelude
begin

text \<open>
  The in-place bubble sort that the validation phases spell out over their arrays of accesses
  (\<open>OptCC::per_row_validate\<close> in \<open>occ.cpp\<close>, \<open>validate_silo\<close> in \<open>silo.cpp\<close>,
  \<open>validate_tictoc\<close> in \<open>tictoc.cpp\<close>): the outer loop runs \<open>i\<close> from \<open>n - 1\<close> down
  to \<open>1\<close>, the inner loop swaps neighbours \<open>j\<close>, \<open>j + 1\<close> for \<open>j < i\<close> when the
  comparison of the source says so. The comparison is a parameter; what it has to satisfy for
  the result to be sorted is the locale \<open>swap_order\<close>, which each client interprets.
\<close>

section \<open>The two loops\<close>

fun bubble_pass :: "('a \<Rightarrow> 'a \<Rightarrow> bool) \<Rightarrow> nat \<Rightarrow> 'a list \<Rightarrow> 'a list" where
  "bubble_pass gt (Suc k) (x # y # zs) =
     (if gt x y then y # bubble_pass gt k (x # zs) else x # bubble_pass gt k (y # zs))"
| "bubble_pass gt k xs = xs"

fun bubble_passes :: "('a \<Rightarrow> 'a \<Rightarrow> bool) \<Rightarrow> nat \<Rightarrow> 'a list \<Rightarrow> 'a list" where
  "bubble_passes gt 0 xs = xs"
| "bubble_passes gt (Suc k) xs = bubble_passes gt k (bubble_pass gt (Suc k) xs)"

definition bubble_sort :: "('a \<Rightarrow> 'a \<Rightarrow> bool) \<Rightarrow> 'a list \<Rightarrow> 'a list" where
  "bubble_sort gt xs = bubble_passes gt (length xs - 1) xs"

section \<open>The result is a permutation\<close>

lemma mset_bubble_pass [simp]: "mset (bubble_pass gt k xs) = mset xs"
  by (induction gt k xs rule: bubble_pass.induct) auto

lemma mset_bubble_passes [simp]: "mset (bubble_passes gt k xs) = mset xs"
  by (induction gt k xs rule: bubble_passes.induct) auto

lemma mset_bubble_sort [simp]: "mset (bubble_sort gt xs) = mset xs"
  by (simp add: bubble_sort_def)

lemma set_bubble_sort [simp]: "set (bubble_sort gt xs) = set xs"
  by (metis mset_bubble_sort set_mset_mset)

lemma length_bubble_sort [simp]: "length (bubble_sort gt xs) = length xs"
  by (metis mset_bubble_sort size_mset)

lemma distinct_bubble_sort [simp]:
  "distinct (map f (bubble_sort gt xs)) \<longleftrightarrow> distinct (map f xs)"
  by (metis mset_bubble_sort mset_map mset_eq_imp_distinct_iff)

lemma bubble_sort_Nil [simp]: "bubble_sort gt [] = []"
  by (simp add: bubble_sort_def)

section \<open>The result is sorted\<close>

locale swap_order =
  fixes gt :: "'a \<Rightarrow> 'a \<Rightarrow> bool"
  assumes gt_asym: "gt x y \<Longrightarrow> \<not> gt y x"
    and gt_negtrans: "\<not> gt x y \<Longrightarrow> \<not> gt y z \<Longrightarrow> \<not> gt x z"
begin

lemma not_gt_refl: "\<not> gt x x"
  using gt_asym by blast

lemma bubble_pass_max:
  assumes "k < length xs"
  shows "\<exists>ys m. bubble_pass gt k xs = ys @ m # drop (Suc k) xs \<and> length ys = k \<and>
           mset (ys @ [m]) = mset (take (Suc k) xs) \<and> (\<forall>y\<in>set ys. \<not> gt y m)"
  using assms
proof (induction k arbitrary: xs)
  case 0
  then show ?case by (intro exI[of _ "[]"] exI[of _ "hd xs"]) (cases xs, auto)
next
  case (Suc k)
  from Suc.prems obtain x y zs where xs: "xs = x # y # zs"
    by (metis Suc_less_eq length_Suc_conv less_imp_Suc_add)
  define hi lo where "hi = (if gt x y then x else y)" and "lo = (if gt x y then y else x)"
  have pass: "bubble_pass gt (Suc k) xs = lo # bubble_pass gt k (hi # zs)"
    by (simp add: xs hi_def lo_def)
  have lo_hi: "\<not> gt lo hi"
    using gt_asym by (auto simp: hi_def lo_def)
  from Suc.IH[of "hi # zs"] Suc.prems obtain ys m where
    IH: "bubble_pass gt k (hi # zs) = ys @ m # drop (Suc k) (hi # zs)" "length ys = k"
      "mset (ys @ [m]) = mset (take (Suc k) (hi # zs))" "\<forall>y\<in>set ys. \<not> gt y m"
    by (auto simp: xs)
  have "hi \<in> set (ys @ [m])"
    using IH(3) by (metis mset_eq_setD list.set_intros(1) take_Suc_Cons)
  then have "\<not> gt hi m"
    using IH(4) not_gt_refl by auto
  then have "\<not> gt lo m"
    using gt_negtrans lo_hi by blast
  moreover have "mset (lo # ys @ [m]) = mset (take (Suc (Suc k)) xs)"
    using IH(3) by (simp add: xs hi_def lo_def)
  ultimately show ?case
    using IH pass by (intro exI[of _ "lo # ys"] exI[of _ m]) (auto simp: xs)
qed

lemma bubble_passes_sorted:
  assumes "k < length xs" "sorted_wrt (\<lambda>x y. \<not> gt x y) (drop (Suc k) xs)"
    and "\<forall>x\<in>set (take (Suc k) xs). \<forall>y\<in>set (drop (Suc k) xs). \<not> gt x y"
  shows "sorted_wrt (\<lambda>x y. \<not> gt x y) (bubble_passes gt k xs)"
  using assms
proof (induction k arbitrary: xs)
  case 0
  then show ?case by (cases xs) auto
next
  case (Suc k)
  obtain ys m where P: "bubble_pass gt (Suc k) xs = ys @ m # drop (Suc (Suc k)) xs"
      "length ys = Suc k" "mset (ys @ [m]) = mset (take (Suc (Suc k)) xs)"
      "\<forall>y\<in>set ys. \<not> gt y m"
    using bubble_pass_max[OF Suc.prems(1)] by blast
  have set_eq: "set (ys @ [m]) = set (take (Suc (Suc k)) xs)"
    using P(3) by (rule mset_eq_setD)
  have "sorted_wrt (\<lambda>x y. \<not> gt x y) (bubble_passes gt k (bubble_pass gt (Suc k) xs))"
  proof (rule Suc.IH)
    show "k < length (bubble_pass gt (Suc k) xs)"
      using P by simp
    show "sorted_wrt (\<lambda>x y. \<not> gt x y) (drop (Suc k) (bubble_pass gt (Suc k) xs))"
      using P Suc.prems(2,3) set_eq by auto
    show "\<forall>x\<in>set (take (Suc k) (bubble_pass gt (Suc k) xs)).
            \<forall>y\<in>set (drop (Suc k) (bubble_pass gt (Suc k) xs)). \<not> gt x y"
      using P Suc.prems(3) set_eq by auto
  qed
  then show ?case by simp
qed

lemma bubble_sort_sorted: "sorted_wrt (\<lambda>x y. \<not> gt x y) (bubble_sort gt xs)"
proof (cases xs)
  case Nil
  then show ?thesis by simp
next
  case Cons
  then show ?thesis
    unfolding bubble_sort_def by (intro bubble_passes_sorted) auto
qed

end

end
