(* ===== verification/Wait_Order.thy ===== *)
theory Wait_Order
  imports Prelude
begin

text \<open>
  The argument behind every deadlock-freedom theorem of the development: whoever waits only for
  somebody above it in a strict order cannot be part of a cycle of waits, however many rows,
  latches or transactions are involved. The row lock interprets it with transaction timestamps
  (\<open>Row_Lock\<close>), optimistic validation with the primary-key order of its latches (\<open>Occ\<close>).
\<close>

locale wait_order =
  fixes inv :: "'s \<Rightarrow> bool"
    and waits :: "'s \<Rightarrow> ('t \<times> 't) set"
    and below :: "'t \<Rightarrow> 't \<Rightarrow> bool"
  assumes below_irrefl: "\<not> below a a"
    and below_trans: "below a b \<Longrightarrow> below b c \<Longrightarrow> below a c"
    and waits_up: "inv s \<Longrightarrow> (a, b) \<in> waits s \<Longrightarrow> below a b"
begin

lemma no_cycle:
  assumes "\<forall>s\<in>S. inv s"
  shows "acyclic (\<Union>s\<in>S. waits s)"
proof -
  have "below a b" if "(a, b) \<in> (\<Union>s\<in>S. waits s)\<^sup>+" for a b
    using that
  proof (induction rule: trancl_induct)
    case (base b)
    then show ?case using assms waits_up by blast
  next
    case (step b c)
    then have "below b c" using assms waits_up by blast
    with step.IH show ?case by (rule below_trans)
  qed
  then show ?thesis
    using below_irrefl by (auto simp: acyclic_def)
qed

end

end
