(* ===== verification/Hash_Chain.thy ===== *)
theory Hash_Chain
  imports Prelude
begin

text \<open>
  The per-page version chain of \<open>trusted/system/hash_chain.h\<close>: the enclave keeps, for every
  page outside it, the hashes the page had at its commit timestamps, oldest first. The linked
  list from \<open>head\<close> to \<open>tail\<close> is the list \<open>hc_items\<close>; \<open>hc_size\<close> is the
  \<open>uint32_t\<close> counter the source keeps beside it; \<open>hc_latch\<close> is the spin latch, so an
  operation started while it is held is \<open>Blocked\<close>. A chain is used through the interface
  \<open>version_store\<close> below, whose laws the chain satisfies under its invariant \<open>hc_inv\<close>.
\<close>

section \<open>Data\<close>

record hash_item =
  hi_value :: u64
  hi_ts :: ts_t

record hash_chain =
  hc_items :: "hash_item list"
  hc_size :: u32
  hc_batch_cnt :: u64
  hc_latch :: bool

definition new_item :: "ts_t \<Rightarrow> u64 \<Rightarrow> hash_item" where
  "new_item ts val = \<lparr>hi_value = val, hi_ts = ts\<rparr>"

definition hc_new :: hash_chain where
  "hc_new = \<lparr>hc_items = [], hc_size = 0, hc_batch_cnt = 0, hc_latch = False\<rparr>"

section \<open>Operations\<close>

text \<open>Every method opens with \<open>lock()\<close> and leaves through \<open>unlock()\<close>.\<close>

definition hc_locked :: "hash_chain \<Rightarrow> 'a res \<Rightarrow> 'a res" where
  "hc_locked c body = (if hc_latch c then Inl Blocked else body)"

definition hc_empty :: "hash_chain \<Rightarrow> bool res" where
  "hc_empty c = hc_locked c (Inr (hc_size c = 0))"

text \<open>
  \<open>vaccum\<close>: the loop drops the head while the next version is already valid at
  \<open>valid_ts\<close>, counting \<open>size\<close> down with it.
\<close>

fun hc_vaccum_loop :: "hash_item list \<Rightarrow> u32 \<Rightarrow> ts_t \<Rightarrow> hash_item list \<times> u32" where
  "hc_vaccum_loop (h # n # is) sz valid_ts =
     (if 1 < sz \<and> hi_ts n \<le> valid_ts then hc_vaccum_loop (n # is) (sz - 1) valid_ts
      else (h # n # is, sz))"
| "hc_vaccum_loop is sz valid_ts = (is, sz)"

definition hc_vaccum :: "hash_chain \<Rightarrow> ts_t \<Rightarrow> hash_chain res" where
  "hc_vaccum c valid_ts = hc_locked c
     (case hc_vaccum_loop (hc_items c) (hc_size c) valid_ts of
        (is, sz) \<Rightarrow> Inr (c\<lparr>hc_items := is, hc_size := sz\<rparr>))"

text \<open>
  The scan of \<open>insert\<close>, reached only when \<open>ts\<close> lies between the head's and the tail's
  timestamps. \<open>True\<close> says that a node was added; \<open>False\<close> that the version was there
  already with the same value, where the source takes the counter back.
\<close>

fun hc_scan :: "hash_item list \<Rightarrow> ts_t \<Rightarrow> u64 \<Rightarrow> (bool \<times> hash_item list) res" where
  "hc_scan [] ts val = Inl Assert_Fail"
| "hc_scan (i # is) ts val =
     (if ts = hi_ts i then assert_res (val = hi_value i) (Inr (False, i # is))
      else if ts < hi_ts i then Inr (True, new_item ts val # i # is)
      else bind_res (hc_scan is ts val) (\<lambda>(b, js). Inr (b, i # js)))"

definition hc_insert :: "hash_chain \<Rightarrow> ts_t \<Rightarrow> u64 \<Rightarrow> hash_chain res" where
  "hc_insert c ts val = hc_locked c
     (let sz = hc_size c + 1 in
      case hc_items c of
        [] \<Rightarrow> Inr (c\<lparr>hc_items := [new_item ts val], hc_size := sz\<rparr>)
      | h # is \<Rightarrow>
          if hi_ts (last (h # is)) < ts
          then Inr (c\<lparr>hc_items := h # is @ [new_item ts val], hc_size := sz\<rparr>)
          else if ts < hi_ts h
          then Inr (c\<lparr>hc_items := new_item ts val # h # is, hc_size := sz\<rparr>)
          else bind_res (hc_scan (h # is) ts val) (\<lambda>(b, js).
                 Inr (c\<lparr>hc_items := js, hc_size := (if b then sz else sz - 1)\<rparr>)))"

definition hc_get_max_ts :: "hash_chain \<Rightarrow> ts_t res" where
  "hc_get_max_ts c = hc_locked c
     (if hc_size c = 0 then Inr 0
      else case hc_items c of [] \<Rightarrow> Inl Null_Deref | is \<Rightarrow> Inr (hi_ts (last is)))"

text \<open>
  \<open>get\<close> returns the value and sets the reference parameters \<open>length\<close> and \<open>rts\<close>;
  \<open>None\<close> for a parameter the call leaves alone. \<open>hc_find\<close> is the loop with \<open>last\<close>.
\<close>

fun hc_find :: "hash_item \<Rightarrow> hash_item list \<Rightarrow> ts_t \<Rightarrow> hash_item" where
  "hc_find l [] ts = l"
| "hc_find l (i # is) ts = (if ts < hi_ts i then l else hc_find i is ts)"

definition hc_get :: "hash_chain \<Rightarrow> ts_t \<Rightarrow> (u64 \<times> u64 option \<times> u64 option) res" where
  "hc_get c ts = hc_locked c
     (if hc_size c = 0 then Inr (- 1, None, None)
      else case hc_items c of
        [] \<Rightarrow> Inl Null_Deref
      | h # is \<Rightarrow>
          let len = Some (ucast (hc_size c)) in
          if hi_ts (last (h # is)) \<le> ts
          then Inr (hi_value (last (h # is)), len, Some (hi_ts (last (h # is))))
          else if ts < hi_ts h then Inr (- 1, len, None)
          else let i = hc_find h (h # is) ts in Inr (hi_value i, len, Some (hi_ts i)))"

text \<open>
  The two writes that \<open>IndexEnc::load_bucket\<close> and \<open>sync_version\<close> make to the newest
  version: the deferred hash and commit timestamp of a page leaving the verified cache.
\<close>

definition hc_set_tail_value :: "hash_chain \<Rightarrow> u64 \<Rightarrow> hash_chain res" where
  "hc_set_tail_value c val =
     (case hc_items c of [] \<Rightarrow> Inl Null_Deref
      | is \<Rightarrow> Inr (c\<lparr>hc_items := butlast is @ [(last is)\<lparr>hi_value := val\<rparr>]\<rparr>))"

definition hc_set_tail_ts :: "hash_chain \<Rightarrow> ts_t \<Rightarrow> hash_chain res" where
  "hc_set_tail_ts c ts =
     (case hc_items c of [] \<Rightarrow> Inl Null_Deref
      | is \<Rightarrow> Inr (c\<lparr>hc_items := butlast is @ [(last is)\<lparr>hi_ts := ts\<rparr>]\<rparr>))"

section \<open>The chain as a map from commit timestamps to hashes\<close>

abbreviation sorted_ts :: "hash_item list \<Rightarrow> bool" where
  "sorted_ts is \<equiv> sorted_wrt (\<lambda>i j. hi_ts i < hi_ts j) is"

definition hc_inv :: "hash_chain \<Rightarrow> bool" where
  "hc_inv c \<longleftrightarrow> sorted_ts (hc_items c) \<and> hc_size c = of_nat (length (hc_items c)) \<and>
     length (hc_items c) < 2 ^ 32 \<and> \<not> hc_latch c"

definition items_map :: "hash_item list \<Rightarrow> ts_t \<rightharpoonup> u64" where
  "items_map is = map_of (map (\<lambda>i. (hi_ts i, hi_value i)) is)"

abbreviation hc_map :: "hash_chain \<Rightarrow> ts_t \<rightharpoonup> u64" where
  "hc_map c \<equiv> items_map (hc_items c)"

text \<open>
  What a reader at \<open>ts\<close> should see of a version map: the value of the greatest commit
  timestamp not after \<open>ts\<close>.
\<close>

definition latest_version :: "(ts_t \<rightharpoonup> u64) \<Rightarrow> ts_t \<Rightarrow> ts_t \<Rightarrow> u64 \<Rightarrow> bool" where
  "latest_version m ts rts val \<longleftrightarrow>
     m rts = Some val \<and> rts \<le> ts \<and> (\<forall>t\<in>dom m. t \<le> ts \<longrightarrow> t \<le> rts)"

lemma items_map_Nil [simp]: "items_map [] = Map.empty"
  by (simp add: items_map_def)

lemma items_map_Cons [simp]:
  "items_map (i # is) = (items_map is)(hi_ts i \<mapsto> hi_value i)"
  by (simp add: items_map_def)

lemma dom_items_map [simp]: "dom (items_map is) = hi_ts ` set is"
  by (simp add: items_map_def dom_map_of_conv_image_fst image_image)

lemma items_map_append: "items_map (is @ js) = items_map js ++ items_map is"
  by (simp add: items_map_def)

lemma new_item_sel [simp]: "hi_ts (new_item ts v) = ts" "hi_value (new_item ts v) = v"
  by (simp_all add: new_item_def)

lemma items_map_mem:
  assumes "sorted_ts is" "i \<in> set is"
  shows "items_map is (hi_ts i) = Some (hi_value i)"
  using assms by (induction "is") auto

lemma items_map_SomeD: "items_map is t = Some v \<Longrightarrow> \<exists>i\<in>set is. hi_ts i = t \<and> hi_value i = v"
  by (induction "is") (auto split: if_splits)

lemma latest_version_unique:
  "latest_version m ts r v \<Longrightarrow> latest_version m ts r' v' \<Longrightarrow> r = r' \<and> v = v'"
  unfolding latest_version_def by (metis domI option.inject order.antisym)

section \<open>Each operation against the map\<close>

lemma hc_size_zero: "hc_inv c \<Longrightarrow> hc_size c = 0 \<longleftrightarrow> hc_items c = []"
  by (auto simp: hc_inv_def word_unat_eq_iff unat_of_nat_lt)

lemma hc_size_gt_one:
  "n < 2 ^ 32 \<Longrightarrow> (1 < (of_nat n :: u32)) \<longleftrightarrow> 1 < n"
  by (simp add: word_less_nat_alt unat_of_nat_lt)

lemma hc_inv_new: "hc_inv hc_new"
  by (simp add: hc_inv_def hc_new_def)

lemma hc_card_dom: "hc_inv c \<Longrightarrow> card (dom (hc_map c)) = length (hc_items c)"
proof -
  have "distinct (map hi_ts is)" if "sorted_ts is" for "is" :: "hash_item list"
    using that by (induction "is") auto
  then show "hc_inv c \<Longrightarrow> card (dom (hc_map c)) = length (hc_items c)"
    by (simp add: hc_inv_def card_image distinct_map distinct_card)
qed

lemma sorted_ts_last: "sorted_ts is \<Longrightarrow> i \<in> set is \<Longrightarrow> hi_ts i \<le> hi_ts (last is)"
  by (induction "is") (auto simp: less_imp_le)

text \<open>The scan succeeds or meets a version of the same timestamp and another value.\<close>

lemma hc_scan_cases:
  assumes "sorted_ts is" "is \<noteq> []" "ts \<le> hi_ts (last is)"
  shows "case items_map is ts of
       Some w \<Rightarrow> hc_scan is ts v = (if w = v then Inr (False, is) else Inl Assert_Fail)
     | None \<Rightarrow> \<exists>js. hc_scan is ts v = Inr (True, js) \<and> sorted_ts js \<and>
         length js = Suc (length is) \<and> set js = insert (new_item ts v) (set is) \<and>
         items_map js = (items_map is)(ts \<mapsto> v)"
  using assms
proof (induction "is")
  case Nil
  then show ?case by simp
next
  case (Cons i "is")
  consider "ts = hi_ts i" | "ts < hi_ts i" | "hi_ts i < ts" by fastforce
  then show ?case
  proof cases
    case 1
    then show ?thesis by (simp add: assert_res_def)
  next
    case 2
    then have "ts \<notin> hi_ts ` set (i # is)"
      using Cons.prems(1) by (auto dest: less_trans)
    then have "items_map (i # is) ts = None"
      by (metis dom_items_map domIff)
    then show ?thesis
      using 2 Cons.prems(1) by (auto simp: fun_upd_twist dest: less_trans)
  next
    case 3
    then have "is \<noteq> []" "ts \<le> hi_ts (last is)" "sorted_ts is"
      using Cons.prems by (auto split: if_splits)
    with Cons.IH have IH: "case items_map is ts of
       Some w \<Rightarrow> hc_scan is ts v = (if w = v then Inr (False, is) else Inl Assert_Fail)
     | None \<Rightarrow> \<exists>js. hc_scan is ts v = Inr (True, js) \<and> sorted_ts js \<and>
         length js = Suc (length is) \<and> set js = insert (new_item ts v) (set is) \<and>
         items_map js = (items_map is)(ts \<mapsto> v)" by blast
    show ?thesis
    proof (cases "items_map is ts")
      case None
      with IH obtain js where js: "hc_scan is ts v = Inr (True, js)" "sorted_ts js"
        "length js = Suc (length is)" "set js = insert (new_item ts v) (set is)"
        "items_map js = (items_map is)(ts \<mapsto> v)" by auto
      with 3 Cons.prems(1) None show ?thesis
        by (auto simp: fun_upd_twist)
    next
      case (Some w)
      with 3 IH show ?thesis by auto
    qed
  qed
qed

lemma hc_vaccum_loop_suffix:
  assumes "sorted_ts is" "sz = of_nat (length is)" "length is < 2 ^ 32"
    and "hc_vaccum_loop is sz valid_ts = (js, sz')"
  shows "\<exists>pre. is = pre @ js \<and> sz' = of_nat (length js) \<and>
           (pre \<noteq> [] \<longrightarrow> js \<noteq> [] \<and> hi_ts (hd js) \<le> valid_ts) \<and>
           (\<forall>h n js'. js = h # n # js' \<longrightarrow> valid_ts < hi_ts n)"
  using assms
proof (induction "is" sz valid_ts rule: hc_vaccum_loop.induct)
  case (1 h n "is" sz valid_ts)
  have len: "length (h # n # is) < 2 ^ 32"
    by (rule "1.prems"(3))
  have big: "1 < sz"
    unfolding "1.prems"(2) by (subst hc_size_gt_one[OF len]) simp
  show ?case
  proof (cases "hi_ts n \<le> valid_ts")
    case True
    have step: "hc_vaccum_loop (n # is) (sz - 1) valid_ts = (js, sz')"
      using "1.prems"(4) True big by simp
    have "\<exists>pre. n # is = pre @ js \<and> sz' = of_nat (length js) \<and>
           (pre \<noteq> [] \<longrightarrow> js \<noteq> [] \<and> hi_ts (hd js) \<le> valid_ts) \<and>
           (\<forall>h n js'. js = h # n # js' \<longrightarrow> valid_ts < hi_ts n)"
      using "1.IH"[OF conjI[OF big True] _ _ _ step] "1.prems"(1,2,3) by simp
    then obtain pre where pre: "n # is = pre @ js" "sz' = of_nat (length js)"
        "pre \<noteq> [] \<longrightarrow> js \<noteq> [] \<and> hi_ts (hd js) \<le> valid_ts"
        "\<forall>h n js'. js = h # n # js' \<longrightarrow> valid_ts < hi_ts n"
      by blast
    then show ?thesis
      using True by (intro exI[of _ "h # pre"]) (cases pre; auto)
  next
    case False
    then show ?thesis
      using "1.prems" by auto
  qed
qed auto

lemma hc_find_latest:
  assumes "sorted_ts (l # is)" "hi_ts l \<le> ts"
  shows "hc_find l is ts \<in> set (l # is) \<and> hi_ts (hc_find l is ts) \<le> ts \<and>
     (\<forall>j\<in>set (l # is). hi_ts j \<le> ts \<longrightarrow> hi_ts j \<le> hi_ts (hc_find l is ts))"
  using assms
proof (induction l "is" ts rule: hc_find.induct)
  case (2 l i "is" ts)
  show ?case
  proof (cases "ts < hi_ts i")
    case True
    then have "\<not> hi_ts j \<le> ts" if "j \<in> set (i # is)" for j
      using "2.prems"(1) that by (auto dest: less_trans)
    then show ?thesis
      using True "2.prems" by auto
  next
    case False
    with 2 have "hc_find i is ts \<in> set (i # is) \<and> hi_ts (hc_find i is ts) \<le> ts \<and>
      (\<forall>j\<in>set (i # is). hi_ts j \<le> ts \<longrightarrow> hi_ts j \<le> hi_ts (hc_find i is ts))" by auto
    then show ?thesis
      using False "2.prems"(1) by (auto intro: less_imp_le order.trans)
  qed
qed auto

lemma hc_insert_None:
  assumes "hc_inv c" "length (hc_items c) + 1 < 2 ^ 32" "hc_map c ts = None"
  shows "\<exists>c'. hc_insert c ts v = Inr c' \<and> hc_inv c' \<and> hc_map c' = (hc_map c)(ts \<mapsto> v)"
proof (cases "hc_items c")
  case Nil
  then show ?thesis
    using assms by (auto simp: hc_insert_def hc_locked_def hc_inv_def Let_def)
next
  case (Cons h "is")
  have inv: "sorted_ts (h # is)" "hc_size c = of_nat (length (h # is))" "\<not> hc_latch c"
    using assms(1) Cons by (auto simp: hc_inv_def)
  have fresh: "ts \<notin> hi_ts ` set (h # is)"
    using assms(3) Cons by (metis domIff dom_items_map)
  consider (tail) "hi_ts (last (h # is)) < ts"
    | (head) "\<not> hi_ts (last (h # is)) < ts" "ts < hi_ts h"
    | (mid) "\<not> hi_ts (last (h # is)) < ts" "\<not> ts < hi_ts h" by blast
  then show ?thesis
  proof cases
    case tail
    have below: "hi_ts j < ts" if "j \<in> set (h # is)" for j
      using sorted_ts_last[OF inv(1) that] tail by (rule le_less_trans)
    then have "sorted_ts ((h # is) @ [new_item ts v])"
      using inv(1) by (auto simp: sorted_wrt_append)
    moreover have "items_map ((h # is) @ [new_item ts v]) = (items_map (h # is))(ts \<mapsto> v)"
      using fresh below
      by (auto simp: items_map_append fun_eq_iff map_add_def split: option.split
          dest!: items_map_SomeD)
    ultimately show ?thesis
      using tail inv assms(2) Cons
      by (auto simp: hc_insert_def hc_locked_def hc_inv_def Let_def)
  next
    case head
    have "sorted_ts (new_item ts v # h # is)"
      using inv(1) head by (auto dest: less_trans)
    then show ?thesis
      using head inv assms(2) Cons
      by (auto simp: hc_insert_def hc_locked_def hc_inv_def Let_def)
  next
    case mid
    then have le: "ts \<le> hi_ts (last (h # is))" by simp
    obtain js where "hc_scan (h # is) ts v = Inr (True, js)" "sorted_ts js"
        "length js = Suc (length (h # is))" "items_map js = (items_map (h # is))(ts \<mapsto> v)"
      using hc_scan_cases[OF inv(1) _ le, of v] assms(3) Cons
      by (auto simp del: hc_scan.simps items_map_Cons)
    then show ?thesis
      using mid inv assms(2) Cons
      by (auto simp: hc_insert_def hc_locked_def hc_inv_def Let_def simp del: hc_scan.simps)
  qed
qed

lemma hc_insert_Some:
  assumes "hc_inv c" "hc_map c ts = Some w"
  shows "hc_insert c ts v = (if w = v then Inr c else Inl Assert_Fail)"
proof -
  obtain i where i: "i \<in> set (hc_items c)" "hi_ts i = ts"
    using items_map_SomeD[OF assms(2)] by blast
  then obtain h "is" where Cons: "hc_items c = h # is"
    by (cases "hc_items c") auto
  have inv: "sorted_ts (h # is)" "\<not> hc_latch c"
    using assms(1) Cons by (auto simp: hc_inv_def)
  have "ts \<le> hi_ts (last (h # is))" "hi_ts h \<le> ts"
    using sorted_ts_last[OF inv(1)] i Cons inv(1) by (auto simp: less_imp_le)
  moreover have "hc_scan (h # is) ts v = (if w = v then Inr (False, h # is) else Inl Assert_Fail)"
    using hc_scan_cases[OF inv(1) _ calculation(1), of v] assms(2) Cons by (auto split: if_splits)
  ultimately show ?thesis
    using inv(2) Cons
    by (auto simp: hc_insert_def hc_locked_def Let_def simp del: hc_scan.simps)
qed

lemma hc_get_latest:
  assumes "hc_inv c" "latest_version (hc_map c) ts r v"
  shows "hc_get c ts = Inr (v, Some (ucast (hc_size c)), Some r)"
proof -
  obtain i where i: "i \<in> set (hc_items c)" "hi_ts i = r" "hi_value i = v" "r \<le> ts"
    using assms(2) items_map_SomeD unfolding latest_version_def by blast
  then obtain h "is" where Cons: "hc_items c = h # is"
    by (cases "hc_items c") auto
  have inv: "sorted_ts (h # is)" "\<not> hc_latch c" "hc_size c \<noteq> 0"
    using assms(1) Cons hc_size_zero[OF assms(1)] by (auto simp: hc_inv_def)
  have "hi_ts h \<le> ts"
    using inv(1) i Cons by (auto simp: less_imp_le intro: order.trans)
  have pick: "hi_value j = v \<and> hi_ts j = r" if "j \<in> set (h # is)" "hi_ts j \<le> ts"
    "\<forall>k\<in>set (h # is). hi_ts k \<le> ts \<longrightarrow> hi_ts k \<le> hi_ts j" for j
  proof -
    have "latest_version (hc_map c) ts (hi_ts j) (hi_value j)"
      using that items_map_mem[OF inv(1) that(1)] Cons
      by (auto simp: latest_version_def simp del: items_map_Cons)
    then show ?thesis
      using latest_version_unique[OF _ assms(2)] by blast
  qed
  show ?thesis
  proof (cases "hi_ts (last (h # is)) \<le> ts")
    case True
    then have "hi_value (last (h # is)) = v \<and> hi_ts (last (h # is)) = r"
      using sorted_ts_last[OF inv(1)] by (intro pick) auto
    then show ?thesis
      using True inv Cons by (auto simp: hc_get_def hc_locked_def Let_def)
  next
    case False
    have "hi_value (hc_find h is ts) = v \<and> hi_ts (hc_find h is ts) = r"
      using hc_find_latest[OF inv(1) \<open>hi_ts h \<le> ts\<close>] by (intro pick) blast+
    then show ?thesis
      using False \<open>hi_ts h \<le> ts\<close> inv Cons
      by (auto simp: hc_get_def hc_locked_def Let_def not_less)
  qed
qed

lemma hc_get_missing:
  assumes "hc_inv c" "\<forall>t\<in>dom (hc_map c). ts < t"
  shows "\<exists>len. hc_get c ts = Inr (- 1, len, None)"
proof (cases "hc_items c")
  case Nil
  then show ?thesis
    using assms(1) by (auto simp: hc_get_def hc_locked_def hc_inv_def)
next
  case (Cons h "is")
  then have "ts < hi_ts h" "ts < hi_ts (last (h # is))"
    using assms(2) by auto
  then show ?thesis
    using assms(1) Cons hc_size_zero[OF assms(1)]
    by (auto simp: hc_get_def hc_locked_def hc_inv_def Let_def not_le)
qed

lemma hc_vaccum_keeps:
  assumes "hc_inv c" "valid_ts \<le> t" "latest_version (hc_map c) t r v"
  shows "\<exists>c'. hc_vaccum c valid_ts = Inr c' \<and> hc_inv c' \<and> latest_version (hc_map c') t r v"
proof -
  obtain js sz' where run: "hc_vaccum_loop (hc_items c) (hc_size c) valid_ts = (js, sz')"
    by fastforce
  from hc_vaccum_loop_suffix[OF _ _ _ run] assms(1) obtain pre where
    pre: "hc_items c = pre @ js" "sz' = of_nat (length js)"
      "pre \<noteq> [] \<longrightarrow> js \<noteq> [] \<and> hi_ts (hd js) \<le> valid_ts"
    by (auto simp: hc_inv_def)
  have sorted: "sorted_ts (pre @ js)"
    using assms(1) pre(1) by (simp add: hc_inv_def)
  have "items_map js r = Some v"
  proof -
    have "items_map pre r = None"
    proof (rule ccontr)
      assume "items_map pre r \<noteq> None"
      then obtain i where i: "i \<in> set pre" "hi_ts i = r"
        using items_map_SomeD by fastforce
      with pre(3) have ne: "js \<noteq> []" "hi_ts (hd js) \<le> valid_ts"
        by auto
      then have "hd js \<in> set js" by simp
      then have "r < hi_ts (hd js)"
        using sorted i by (auto simp: sorted_wrt_append)
      moreover have "hi_ts (hd js) \<le> r"
        using assms(2,3) ne \<open>hd js \<in> set js\<close> pre(1) by (auto simp: latest_version_def)
      ultimately show False by simp
    qed
    then show ?thesis
      using assms(3) pre(1) by (auto simp: latest_version_def items_map_append)
  qed
  then have "latest_version (items_map js) t r v"
    using assms(3) pre(1) by (auto simp: latest_version_def)
  moreover have "hc_inv (c\<lparr>hc_items := js, hc_size := sz'\<rparr>)"
    using assms(1) pre(1,2) sorted by (auto simp: hc_inv_def sorted_wrt_append)
  ultimately show ?thesis
    using run assms(1) by (auto simp: hc_vaccum_def hc_locked_def hc_inv_def)
qed

section \<open>The interface of the version chain\<close>

text \<open>
  What the verified index relies on: an insert that does not contradict a recorded version adds
  exactly that version, a contradicting one stops at the source's assertion, and a read returns
  the newest version not after its timestamp.
\<close>

locale version_store =
  fixes inv :: "'c \<Rightarrow> bool"
    and vmap :: "'c \<Rightarrow> ts_t \<rightharpoonup> u64"
    and ins :: "'c \<Rightarrow> ts_t \<Rightarrow> u64 \<Rightarrow> 'c res"
    and get :: "'c \<Rightarrow> ts_t \<Rightarrow> (u64 \<times> u64 option \<times> u64 option) res"
  assumes ins_fresh: "inv c \<Longrightarrow> card (dom (vmap c)) + 1 < 2 ^ 32 \<Longrightarrow> vmap c ts = None \<Longrightarrow>
      \<exists>c'. ins c ts v = Inr c' \<and> inv c' \<and> vmap c' = (vmap c)(ts \<mapsto> v)"
    and ins_again: "inv c \<Longrightarrow> vmap c ts = Some v \<Longrightarrow> ins c ts v = Inr c"
    and ins_clash: "inv c \<Longrightarrow> vmap c ts = Some w \<Longrightarrow> w \<noteq> v \<Longrightarrow> ins c ts v = Inl Assert_Fail"
    and get_latest: "inv c \<Longrightarrow> latest_version (vmap c) ts r v \<Longrightarrow>
      \<exists>len. get c ts = Inr (v, len, Some r)"
begin

lemma ins_adds:
  assumes "inv c" "card (dom (vmap c)) + 1 < 2 ^ 32" "ins c ts v = Inr c'"
  shows "inv c' \<and> vmap c' = (vmap c)(ts \<mapsto> v)"
proof (cases "vmap c ts")
  case None
  from ins_fresh[OF assms(1,2) None, of v] assms(3) show ?thesis by auto
next
  case (Some w)
  show ?thesis
  proof (cases "w = v")
    case True
    then have "c' = c"
      using ins_again assms(1,3) Some by fastforce
    then show ?thesis
      using assms(1) Some True by (auto simp: fun_upd_idem)
  next
    case False
    then show ?thesis
      using ins_clash[OF assms(1) Some] assms(3) by simp
  qed
qed

lemma get_after_ins:
  assumes "inv c" "card (dom (vmap c)) + 1 < 2 ^ 32" "ins c ts v = Inr c'"
    and "ts \<le> t" "\<forall>u\<in>dom (vmap c). u \<le> t \<longrightarrow> u \<le> ts"
  shows "\<exists>len. get c' t = Inr (v, len, Some ts)"
  using ins_adds[OF assms(1-3)] assms(4,5)
  by (intro get_latest) (auto simp: latest_version_def)

lemma get_unaffected:
  assumes "inv c" "card (dom (vmap c)) + 1 < 2 ^ 32" "ins c ts v = Inr c'"
    and "latest_version (vmap c) t r w" "t < ts \<or> ts < r"
  shows "\<exists>len. get c' t = Inr (w, len, Some r)"
  using ins_adds[OF assms(1-3)] assms(4,5)
  by (intro get_latest) (auto simp: latest_version_def)

end

interpretation hcs: version_store hc_inv hc_map hc_insert hc_get
proof unfold_locales
  show "\<exists>c'. hc_insert c ts v = Inr c' \<and> hc_inv c' \<and> hc_map c' = (hc_map c)(ts \<mapsto> v)"
    if "hc_inv c" "card (dom (hc_map c)) + 1 < 2 ^ 32" "hc_map c ts = None" for c ts v
    using hc_insert_None[OF that(1) _ that(3)] that(2) hc_card_dom[OF that(1)] by metis
  show "hc_insert c ts v = Inr c" if "hc_inv c" "hc_map c ts = Some v" for c ts v
    using hc_insert_Some[OF that] by simp
  show "hc_insert c ts v = Inl Assert_Fail"
    if "hc_inv c" "hc_map c ts = Some w" "w \<noteq> v" for c ts v w
    using hc_insert_Some[OF that(1,2)] that(3) by simp
  show "\<exists>len. hc_get c ts = Inr (v, len, Some r)"
    if "hc_inv c" "latest_version (hc_map c) ts r v" for c ts r v
    using hc_get_latest[OF that] by blast
qed

section \<open>Properties\<close>

text \<open>
  C5: Recording a page hash in the version chain. When \<open>insert(ts, value)\<close> returns, the chain
  is still ordered with its counter right, a read at any time from \<open>ts\<close> up to the next later
  version returns the new hash with \<open>rts = ts\<close>, and every read that does not lie in that
  interval returns what it returned before.
\<close>

theorem chain_insert_get:
  assumes "hc_inv c" and "length (hc_items c) + 1 < 2 ^ 32" and "hc_insert c ts v = Inr c'"
  shows "hc_inv c' \<and>
    (\<forall>t. ts \<le> t \<and> (\<forall>u\<in>dom (hc_map c). u \<le> t \<longrightarrow> u \<le> ts) \<longrightarrow>
         (\<exists>len. hc_get c' t = Inr (v, len, Some ts))) \<and>
    (\<forall>t r w. latest_version (hc_map c) t r w \<and> (t < ts \<or> ts < r) \<longrightarrow>
         (\<exists>len. hc_get c' t = Inr (w, len, Some r)))"
proof -
  have room: "card (dom (hc_map c)) + 1 < 2 ^ 32"
    using assms(2) by (simp only: hc_card_dom[OF assms(1)])
  show ?thesis
    using hcs.ins_adds[OF assms(1) room assms(3)] hcs.get_after_ins[OF assms(1) room assms(3)]
      hcs.get_unaffected[OF assms(1) room assms(3)]
    by blast
qed

definition chain_ex :: hash_chain where
  "chain_ex = \<lparr>hc_items = [new_item 10 7, new_item 20 8, new_item 30 9],
     hc_size = 3, hc_batch_cnt = 0, hc_latch = False\<rparr>"

lemma chain_ex_inv: "hc_inv chain_ex"
  by (simp add: hc_inv_def chain_ex_def new_item_def)

theorem chain_insert_get_witness:
  "\<exists>c'. hc_insert chain_ex 25 5 = Inr c' \<and> hc_inv c' \<and>
     (\<exists>len. hc_get c' 27 = Inr (5, len, Some 25))"
proof -
  have run: "hc_insert chain_ex 25 5 = Inr (chain_ex\<lparr>hc_items := [new_item 10 7, new_item 20 8,
      new_item 25 5, new_item 30 9], hc_size := 4\<rparr>)" (is "_ = Inr ?c")
    by (simp add: hc_insert_def hc_locked_def chain_ex_def new_item_def Let_def)
  have room: "length (hc_items chain_ex) + 1 < 2 ^ 32"
    by (simp add: chain_ex_def)
  have "\<forall>u\<in>dom (hc_map chain_ex). u \<le> (27::u64) \<longrightarrow> u \<le> 25"
    by (simp add: chain_ex_def new_item_def)
  then show ?thesis
    using chain_insert_get[OF chain_ex_inv room run] run by auto
qed

text \<open>
  C11: Vacuuming the version chain. \<open>vaccum(valid_ts)\<close> keeps the chain well formed and changes
  no read at a time not before \<open>valid_ts\<close>: the newest version at such a time, with its
  timestamp, is returned as before.
\<close>

theorem chain_vaccum_reads:
  assumes "hc_inv c" and "valid_ts \<le> t" and "latest_version (hc_map c) t r v"
  shows "\<exists>c'. hc_vaccum c valid_ts = Inr c' \<and> hc_inv c' \<and>
           (\<exists>len. hc_get c' t = Inr (v, len, Some r))"
  using hc_vaccum_keeps[OF assms] hc_get_latest by blast

theorem chain_vaccum_reads_witness:
  "\<exists>c'. hc_vaccum chain_ex 22 = Inr c' \<and> hc_inv c' \<and>
     (\<exists>len. hc_get c' 24 = Inr (8, len, Some 20)) \<and> length (hc_items c') = 2"
proof -
  have "latest_version (hc_map chain_ex) 24 20 8"
    by (simp add: latest_version_def chain_ex_def new_item_def)
  from chain_vaccum_reads[OF chain_ex_inv _ this, of 22] show ?thesis
    by (auto simp: hc_vaccum_def hc_locked_def chain_ex_def new_item_def)
qed

text \<open>
   The chain is the arbiter of what a page may contain: \<open>insert\<close> of a hash for a commit
  timestamp that already has another hash stops at the source's assertion, and otherwise
  returns; it never loses or replaces a recorded version.
\<close>

theorem chain_insert_total:
  assumes "hc_inv c" and "length (hc_items c) + 1 < 2 ^ 32"
  shows "(\<exists>w. hc_map c ts = Some w \<and> w \<noteq> v \<and> hc_insert c ts v = Inl Assert_Fail) \<or>
    (\<exists>c'. hc_insert c ts v = Inr c' \<and> hc_map c' = (hc_map c)(ts \<mapsto> v) \<and>
         (\<forall>u w. hc_map c u = Some w \<longrightarrow> hc_map c' u = Some w))"
proof (cases "hc_map c ts")
  case None
  then show ?thesis
    using hc_insert_None[OF assms None, of v] by auto
next
  case (Some w)
  then show ?thesis
    using hc_insert_Some[OF assms(1) Some, of v] by (cases "w = v") (auto simp: fun_upd_idem)
qed

theorem chain_insert_total_witness:
  "hc_insert chain_ex 20 5 = Inl Assert_Fail"
  using chain_insert_total[OF chain_ex_inv, of 20 5]
  by (auto simp: chain_ex_def new_item_def hc_insert_def hc_locked_def Let_def)

end
