(* ===== verification/Lru_Cache.thy ===== *)
theory Lru_Cache
  imports Prelude
begin

text \<open>
  The page cache inside the enclave, \<open>common/lru_cache.h\<close> and \<open>common/lru_cache.cpp\<close>
  (with \<open>LAZY_OFFLOADING\<close> as configured). The two-dimensional array \<open>_cache\<close> is a map
  from (partition, page) to nodes, defined inside \<open>lc_n\<close> partitions of \<open>lc_m\<close> pages;
  \<open>lc_free_pool\<close> is the \<open>std::queue\<close> of released pages, oldest first. Reference counts,
  timestamps and byte counters are 64-bit words and wrap as in the source. The compile-time
  constant \<open>enable_lease\<close> (true on a read-only node) is the argument \<open>el\<close> of the
  operations that test it.

  \<open>release\<close>, \<open>load_and_swap\<close> and the lease operations hold the cache's latch. \<open>try_load\<close> does not:
  it raises the reference count of the page it found (\<open>lru_try_count\<close>) and then writes its timestamp
  (\<open>lru_try_stamp\<close>), and another thread can run in between; \<open>lru_try_load\<close> is a call that nobody
  interrupts, which is what \<open>lru_try_load_parts\<close> states.

  \<open>lru_reach\<close> gives the states that callers can produce one call after the other when they release
  only pages they hold. The eviction theorems are about those states, and about a load that is
  under way in them.
\<close>

section \<open>Data\<close>

record 'v cache_node =
  cn_ts :: u64
  cn_read_cnt :: u64
  cn_value :: 'v
  cn_size :: u32

record cache_visit =
  cv_bkt :: u64
  cv_part :: nat
  cv_ts :: u64
  cv_size :: u32

record 'v lru_cache =
  lc_cache :: "nat \<times> u64 \<rightharpoonup> 'v cache_node"
  lc_lease :: "nat \<times> u64 \<Rightarrow> u64"
  lc_n :: nat
  lc_m :: u64
  lc_free_pool :: "cache_visit list"
  lc_cached_bytes :: u64
  lc_timestamp :: u64
  lc_limit :: u64
  lc_locked :: bool

abbreviation BASE_LEASE :: u64 where
  "BASE_LEASE \<equiv> 100"

definition cache_node_new :: "u64 \<Rightarrow> 'v \<Rightarrow> u32 \<Rightarrow> 'v cache_node" where
  "cache_node_new ts v sz = \<lparr>cn_ts = ts, cn_read_cnt = 1, cn_value = v, cn_size = sz\<rparr>"

section \<open>Operations\<close>

definition lru_init :: "u64 \<Rightarrow> nat \<Rightarrow> u64 \<Rightarrow> 'v lru_cache" where
  "lru_init bucket_cnt part_cnt siz =
     \<lparr>lc_cache = Map.empty, lc_lease = (\<lambda>_. BASE_LEASE), lc_n = part_cnt,
      lc_m = bucket_cnt div of_nat part_cnt, lc_free_pool = [], lc_cached_bytes = 0,
      lc_timestamp = 0, lc_limit = siz, lc_locked = False\<rparr>"

definition lru_in :: "'v lru_cache \<Rightarrow> nat \<Rightarrow> u64 \<Rightarrow> bool" where
  "lru_in c part bkt \<longleftrightarrow> part < lc_n c \<and> bkt < lc_m c"

text \<open>
  \<open>release\<close>: the count goes down by \<open>std::max(cnt - 1, 0)\<close> in unsigned arithmetic, and a
  page whose count reaches zero is queued for reuse with its current timestamp. The method
  returns \<open>nullptr\<close> in this configuration.
\<close>

definition lru_release :: "'v lru_cache \<Rightarrow> nat \<Rightarrow> u64 \<Rightarrow> 'v lru_cache res" where
  "lru_release c part bkt =
     (if lc_locked c then Inl Blocked
      else if \<not> lru_in c part bkt then Inl Bounds
      else case lc_cache c (part, bkt) of
        None \<Rightarrow> Inr c
      | Some nd \<Rightarrow>
          let nd' = nd\<lparr>cn_read_cnt := max (cn_read_cnt nd - 1) 0\<rparr>;
              c' = c\<lparr>lc_cache := (lc_cache c)((part, bkt) \<mapsto> nd')\<rparr>
          in Inr (if cn_read_cnt nd' = 0
             then c'\<lparr>lc_free_pool := lc_free_pool c' @
                    [\<lparr>cv_bkt = bkt, cv_part = part, cv_ts = cn_ts nd', cv_size = cn_size nd'\<rparr>]\<rparr>
             else c'))"

definition lru_try_load ::
  "bool \<Rightarrow> 'v lru_cache \<Rightarrow> nat \<Rightarrow> u64 \<Rightarrow> ('v option \<times> 'v lru_cache) res" where
  "lru_try_load el c part bkt = assert_res (lru_in c part bkt)
     (case lc_cache c (part, bkt) of
        None \<Rightarrow> Inr (None, c)
      | Some nd \<Rightarrow>
          if lc_timestamp c < cn_ts nd + lc_lease c (part, bkt) \<and> el then Inr (None, c)
          else
            let t = lc_timestamp c + 1;
                nd' = nd\<lparr>cn_read_cnt := cn_read_cnt nd + 1, cn_ts := max (cn_ts nd) t\<rparr>
            in Inr (Some (cn_value nd),
                 c\<lparr>lc_timestamp := t, lc_cache := (lc_cache c)((part, bkt) \<mapsto> nd')\<rparr>))"

text \<open>
  The two halves of \<open>try_load\<close>: the search with the increment of the count, and the rest, which works
  on the node found before. The node is looked up again here; if it has been evicted, it was deleted.
\<close>

definition lru_try_count :: "bool \<Rightarrow> 'v lru_cache \<Rightarrow> nat \<Rightarrow> u64 \<Rightarrow> (bool \<times> 'v lru_cache) res" where
  "lru_try_count el c part bkt = assert_res (lru_in c part bkt)
     (case lc_cache c (part, bkt) of
        None \<Rightarrow> Inr (False, c)
      | Some nd \<Rightarrow>
          if lc_timestamp c < cn_ts nd + lc_lease c (part, bkt) \<and> el then Inr (False, c)
          else Inr (True, c\<lparr>lc_cache := (lc_cache c)((part, bkt) \<mapsto> nd\<lparr>cn_read_cnt := cn_read_cnt nd + 1\<rparr>)\<rparr>))"

definition lru_try_stamp :: "'v lru_cache \<Rightarrow> nat \<Rightarrow> u64 \<Rightarrow> ('v \<times> 'v lru_cache) res" where
  "lru_try_stamp c part bkt =
     (case lc_cache c (part, bkt) of
        None \<Rightarrow> Inl Freed
      | Some nd \<Rightarrow>
          let t = lc_timestamp c + 1 in
          Inr (cn_value nd, c\<lparr>lc_timestamp := t, lc_cache := (lc_cache c)((part, bkt) \<mapsto> nd\<lparr>cn_ts := max (cn_ts nd) t\<rparr>)\<rparr>))"

lemma lru_try_load_parts:
  "lru_try_load el c part bkt = bind_res (lru_try_count el c part bkt) (\<lambda>(hit, c1).
     if hit then bind_res (lru_try_stamp c1 part bkt) (\<lambda>(v, c2). Inr (Some v, c2)) else Inr (None, c1))"
  by (auto simp: lru_try_load_def lru_try_count_def lru_try_stamp_def Let_def assert_res_def split: option.split)

text \<open>
  \<open>cache_free\<close>: pops queue entries until one still names the version of the page it was
  queued for; that page leaves the cache. \<open>None\<close> is the return value \<open>Abort\<close>.
\<close>

fun cache_free_loop ::
  "cache_visit list \<Rightarrow> 'v lru_cache \<Rightarrow> ('v \<times> nat \<times> u64) option \<times> 'v lru_cache" where
  "cache_free_loop [] c = (None, c\<lparr>lc_free_pool := []\<rparr>)"
| "cache_free_loop (it # pool) c =
     (case lc_cache c (cv_part it, cv_bkt it) of
        None \<Rightarrow> cache_free_loop pool c
      | Some nd \<Rightarrow>
          if cn_ts nd \<noteq> cv_ts it then cache_free_loop pool c
          else (Some (cn_value nd, cv_part it, cv_bkt it),
                c\<lparr>lc_cache := (lc_cache c)((cv_part it, cv_bkt it) := None),
                  lc_cached_bytes := lc_cached_bytes c - ucast (cv_size it),
                  lc_free_pool := pool\<rparr>))"

definition cache_free :: "'v lru_cache \<Rightarrow> ('v \<times> nat \<times> u64) option \<times> 'v lru_cache" where
  "cache_free c = cache_free_loop (lc_free_pool c) c"

definition lru_reset_lease :: "bool \<Rightarrow> 'v lru_cache \<Rightarrow> nat \<Rightarrow> u64 \<Rightarrow> 'v lru_cache res" where
  "lru_reset_lease el c part bkt =
     (if \<not> el then Inr c
      else if lc_locked c then Inl Blocked
      else if \<not> lru_in c part bkt then Inl Bounds
      else Inr (c\<lparr>lc_lease := (lc_lease c)((part, bkt) := BASE_LEASE)\<rparr>))"

definition lru_inc_lease :: "bool \<Rightarrow> 'v lru_cache \<Rightarrow> nat \<Rightarrow> u64 \<Rightarrow> 'v lru_cache res" where
  "lru_inc_lease el c part bkt =
     (if \<not> el then Inr c
      else if lc_locked c then Inl Blocked
      else if \<not> lru_in c part bkt then Inl Bounds
      else Inr (c\<lparr>lc_lease := (lc_lease c)((part, bkt) := lc_lease c (part, bkt) * 2)\<rparr>))"

text \<open>
  \<open>load_and_swap\<close>: the return code, what was swapped out (with its partition and page) and
  the page the caller goes on with. In the first test the source's \<open>!\<close> applies to the
  timestamp alone, so the sum is the lease plus one or zero.
\<close>

definition lru_load_and_swap ::
  "bool \<Rightarrow> 'v lru_cache \<Rightarrow> nat \<Rightarrow> u64 \<Rightarrow> u32 \<Rightarrow> 'v \<Rightarrow>
     (RC \<times> ('v \<times> nat \<times> u64) option \<times> 'v \<times> 'v lru_cache) res" where
  "lru_load_and_swap el c part bkt bytes_size inserted = assert_res (lru_in c part bkt)
     (if lc_locked c then Inl Blocked
      else
        let t = lc_timestamp c + 1; place = cache_node_new t inserted bytes_size in
        case lc_cache c (part, bkt) of
          Some nd \<Rightarrow>
            if lc_timestamp c < (if cn_ts nd = 0 then 1 else 0) + lc_lease c (part, bkt) \<or> \<not> el
            then Inr (RCOK, None, cn_value nd,
              c\<lparr>lc_timestamp := t, lc_cache := (lc_cache c)((part, bkt) \<mapsto>
                  nd\<lparr>cn_read_cnt := cn_read_cnt nd + 1, cn_ts := t\<rparr>)\<rparr>)
            else Inr (RCOK, Some (cn_value nd, part, bkt), inserted,
              c\<lparr>lc_timestamp := t, lc_cache := (lc_cache c)((part, bkt) \<mapsto> place)\<rparr>)
        | None \<Rightarrow>
            if lc_limit c < lc_cached_bytes c + ucast bytes_size
            then (case cache_free c of
                (None, c') \<Rightarrow> Inr (Abort, None, inserted, c')
              | (Some sw, c') \<Rightarrow> Inr (RCOK, Some sw, inserted,
                  c'\<lparr>lc_timestamp := t, lc_cache := (lc_cache c')((part, bkt) \<mapsto> place)\<rparr>))
            else Inr (RCOK, None, inserted,
              c\<lparr>lc_cached_bytes := lc_cached_bytes c + ucast bytes_size, lc_timestamp := t,
                lc_cache := (lc_cache c)((part, bkt) \<mapsto> place)\<rparr>))"

definition lru_can_force_load :: "'v lru_cache \<Rightarrow> bool" where
  "lru_can_force_load c \<longleftrightarrow> lc_cached_bytes c * 2 \<le> lc_limit c"

section \<open>Reachable caches\<close>

text \<open>
  One rule per call. A page is released only while it is held (its count is positive); the
  64-bit clock has not wrapped.
\<close>

inductive lru_step :: "bool \<Rightarrow> 'v lru_cache \<Rightarrow> 'v lru_cache \<Rightarrow> bool" for el :: bool where
  load: "lru_try_load el c part bkt = Inr (r, c') \<Longrightarrow> lc_timestamp c < UINT64_MAX \<Longrightarrow>
    lru_step el c c'"
| swap: "lru_load_and_swap el c part bkt sz v = Inr (rc, sw, r, c') \<Longrightarrow>
    lc_timestamp c < UINT64_MAX \<Longrightarrow> lru_step el c c'"
| release: "lru_release c part bkt = Inr c' \<Longrightarrow>
    (\<forall>nd. lc_cache c (part, bkt) = Some nd \<longrightarrow> 0 < cn_read_cnt nd) \<Longrightarrow> lru_step el c c'"
| lease: "lru_inc_lease el c part bkt = Inr c' \<Longrightarrow> lru_step el c c'"
| lease_reset: "lru_reset_lease el c part bkt = Inr c' \<Longrightarrow> lru_step el c c'"

inductive lru_reach :: "bool \<Rightarrow> 'v lru_cache \<Rightarrow> bool" for el :: bool where
  start: "lru_reach el (lru_init bucket_cnt part_cnt siz)"
| step: "lru_reach el c \<Longrightarrow> lru_step el c c' \<Longrightarrow> lru_reach el c'"

definition lru_inv :: "'v lru_cache \<Rightarrow> bool" where
  "lru_inv c \<longleftrightarrow> finite (dom (lc_cache c)) \<and>
     (\<forall>k nd. lc_cache c k = Some nd \<longrightarrow> cn_ts nd \<le> lc_timestamp c) \<and>
     (\<forall>v\<in>set (lc_free_pool c). cv_ts v \<le> lc_timestamp c) \<and>
     (\<forall>v\<in>set (lc_free_pool c). \<forall>nd. lc_cache c (cv_part v, cv_bkt v) = Some nd \<longrightarrow>
        cn_ts nd = cv_ts v \<longrightarrow> cn_read_cnt nd = 0 \<and> cn_size nd = cv_size v)"

text \<open>The bytes really resident, which \<open>_cached_bytes\<close> is meant to count.\<close>

definition lru_resident :: "'v lru_cache \<Rightarrow> nat" where
  "lru_resident c = (\<Sum>k\<in>dom (lc_cache c). unat (cn_size (the (lc_cache c k))))"

section \<open>Invariant\<close>

lemma lru_inv_init: "lru_inv (lru_init b p s)"
  by (simp add: lru_inv_def lru_init_def)

lemma cache_free_loop_cases:
  assumes "cache_free_loop pool c = (sw, c')" "set pool \<subseteq> S"
  shows "(sw = None \<and> c' = c\<lparr>lc_free_pool := []\<rparr>) \<or>
     (\<exists>it pool' nd. it \<in> S \<and> set pool' \<subseteq> S \<and>
        lc_cache c (cv_part it, cv_bkt it) = Some nd \<and> cn_ts nd = cv_ts it \<and>
        sw = Some (cn_value nd, cv_part it, cv_bkt it) \<and>
        c' = c\<lparr>lc_cache := (lc_cache c)((cv_part it, cv_bkt it) := None),
               lc_cached_bytes := lc_cached_bytes c - ucast (cv_size it),
               lc_free_pool := pool'\<rparr>)"
  using assms
proof (induction pool c rule: cache_free_loop.induct)
  case (2 it pool c)
  have sub: "it \<in> S" "set pool \<subseteq> S"
    using "2.prems"(2) by auto
  show ?case
  proof (cases "\<exists>nd. lc_cache c (cv_part it, cv_bkt it) = Some nd \<and> cn_ts nd = cv_ts it")
    case True
    then obtain nd where "lc_cache c (cv_part it, cv_bkt it) = Some nd" "cn_ts nd = cv_ts it"
      by blast
    then show ?thesis
      using "2.prems"(1) sub
      by (intro disjI2 exI[of _ it] exI[of _ pool] exI[of _ nd]) (auto simp del: fun_upd_apply)
  next
    case False
    then have "cache_free_loop pool c = (sw, c')"
      using "2.prems"(1) by (auto split: option.splits if_splits)
    then show ?thesis
      using 2(1)[OF _ _ sub(2)] 2(2)[OF _ _ _ sub(2)] False
      by (cases "lc_cache c (cv_part it, cv_bkt it)") blast+
  qed
qed simp

lemma lru_clock_step: "lc_timestamp c < UINT64_MAX \<Longrightarrow> lc_timestamp c < lc_timestamp c + 1"
  by (rule word_less_suc) auto

lemma lru_inv_bytes [simp]: "lru_inv (c\<lparr>lc_cached_bytes := b\<rparr>) \<longleftrightarrow> lru_inv c"
  by (simp add: lru_inv_def)

lemma lru_inv_lease_upd [simp]: "lru_inv (c\<lparr>lc_lease := l\<rparr>) \<longleftrightarrow> lru_inv c"
  by (simp add: lru_inv_def)

lemma lru_inv_place:
  assumes "lru_inv c" "lc_timestamp c < t" "cn_ts nd = t"
  shows "lru_inv (c\<lparr>lc_timestamp := t, lc_cache := (lc_cache c)(k \<mapsto> nd)\<rparr>)"
proof -
  have old: "x \<le> lc_timestamp c \<Longrightarrow> x \<le> t \<and> x \<noteq> t" for x
    using assms(2) by auto
  show ?thesis
    using assms(1) unfolding lru_inv_def
    by (auto simp: assms(3) split: if_splits dest: old)
qed

lemma lru_inv_remove:
  assumes "lru_inv c" "set pool \<subseteq> set (lc_free_pool c)"
  shows "lru_inv (c\<lparr>lc_cache := (lc_cache c)(k := None), lc_cached_bytes := b, lc_free_pool := pool\<rparr>)"
  using assms unfolding lru_inv_def by (auto split: if_splits)

lemma lru_inv_free:
  assumes "lru_inv c" "cache_free c = (sw, c')"
  shows "lru_inv c'" "lc_timestamp c' = lc_timestamp c"
proof -
  have "lru_inv (c\<lparr>lc_free_pool := []\<rparr>)"
    using assms(1) by (simp add: lru_inv_def)
  then show "lru_inv c'" "lc_timestamp c' = lc_timestamp c"
    using cache_free_loop_cases[OF assms(2)[unfolded cache_free_def] subset_refl] lru_inv_remove[OF assms(1)]
    by (auto simp del: fun_upd_apply)
qed

lemma lru_inv_try_load:
  assumes "lru_inv c" "lc_timestamp c < UINT64_MAX" "lru_try_load el c part bkt = Inr (r, c')"
  shows "lru_inv c'"
proof -
  note clk = lru_clock_step[OF assms(2)]
  consider "c' = c" | nd where "lc_cache c (part, bkt) = Some nd"
    "c' = c\<lparr>lc_timestamp := lc_timestamp c + 1, lc_cache := (lc_cache c)((part, bkt) \<mapsto>
       nd\<lparr>cn_read_cnt := cn_read_cnt nd + 1, cn_ts := max (cn_ts nd) (lc_timestamp c + 1)\<rparr>)\<rparr>"
    using assms(3)
    by (simp add: lru_try_load_def res_simps Let_def split: if_splits option.splits)
  then show ?thesis
  proof cases
    case 1
    with assms(1) show ?thesis by simp
  next
    case (2 nd)
    have "cn_ts nd \<le> lc_timestamp c"
      using assms(1) 2(1) unfolding lru_inv_def by blast
    then have "cn_ts nd \<le> lc_timestamp c + 1"
      using clk by order
    then have "max (cn_ts nd) (lc_timestamp c + 1) = lc_timestamp c + 1"
      by (rule max_absorb2)
    then show ?thesis
      unfolding 2(2) by (intro lru_inv_place[OF assms(1) clk]) simp
  qed
qed

lemma lru_inv_load_and_swap:
  assumes "lru_inv c" "lc_timestamp c < UINT64_MAX"
    and "lru_load_and_swap el c part bkt sz v = Inr (rc, sw, r, c')"
  shows "lru_inv c'"
proof -
  note clk = lru_clock_step[OF assms(2)]
  let ?t = "lc_timestamp c + 1"
  have node: "cn_ts (cache_node_new t v sz) = t" for t :: u64 and v :: 'a and sz
    by (simp add: cache_node_new_def)
  show ?thesis
  proof (cases "lc_cache c (part, bkt)")
    case (Some nd)
    have "lru_inv (c\<lparr>lc_timestamp := ?t, lc_cache := (lc_cache c)((part, bkt) \<mapsto>
        nd\<lparr>cn_read_cnt := cn_read_cnt nd + 1, cn_ts := ?t\<rparr>)\<rparr>)"
      "lru_inv (c\<lparr>lc_timestamp := ?t, lc_cache := (lc_cache c)((part, bkt) \<mapsto>
        cache_node_new ?t v sz)\<rparr>)"
      by (intro lru_inv_place[OF assms(1) clk]; simp add: node)+
    then show ?thesis
      using assms(3) Some
      by (auto simp: lru_load_and_swap_def res_simps Let_def simp del: fun_upd_apply
          split: if_splits)
  next
    case None
    obtain sw0 c0 where free: "cache_free c = (sw0, c0)" by fastforce
    note inv0 = lru_inv_free[OF assms(1) free]
    have "lru_inv (c0\<lparr>lc_timestamp := ?t,
        lc_cache := (lc_cache c0)((part, bkt) \<mapsto> cache_node_new ?t v sz)\<rparr>)"
      using inv0 clk by (intro lru_inv_place) (auto simp: node)
    moreover have "lru_inv (c\<lparr>lc_cached_bytes := lc_cached_bytes c + ucast sz, lc_timestamp := ?t,
        lc_cache := (lc_cache c)((part, bkt) \<mapsto> cache_node_new ?t v sz)\<rparr>)"
      using lru_inv_place[of "c\<lparr>lc_cached_bytes := lc_cached_bytes c + ucast sz\<rparr>" ?t]
        assms(1) clk by (simp add: node)
    ultimately show ?thesis
      using assms(3) None free inv0(1)
      by (auto simp: lru_load_and_swap_def res_simps Let_def simp del: fun_upd_apply lru_inv_bytes
          split: if_splits option.splits)
  qed
qed

lemma lru_inv_release:
  assumes "lru_inv c" "lru_release c part bkt = Inr c'"
    and "\<forall>nd. lc_cache c (part, bkt) = Some nd \<longrightarrow> 0 < cn_read_cnt nd"
  shows "lru_inv c'"
proof (cases "lc_cache c (part, bkt)")
  case None
  then show ?thesis
    using assms(1,2) by (auto simp: lru_release_def split: if_splits)
next
  case (Some nd)
  let ?nd = "nd\<lparr>cn_read_cnt := cn_read_cnt nd - 1\<rparr>"
  let ?c = "c\<lparr>lc_cache := (lc_cache c)((part, bkt) \<mapsto> ?nd)\<rparr>"
  let ?v = "\<lparr>cv_bkt = bkt, cv_part = part, cv_ts = cn_ts nd, cv_size = cn_size nd\<rparr>"
  have held: "cn_read_cnt nd \<noteq> 0"
    using assms(3) Some by auto
  have inv: "finite (dom (lc_cache c))"
    "\<forall>k nd. lc_cache c k = Some nd \<longrightarrow> cn_ts nd \<le> lc_timestamp c"
    "\<forall>v\<in>set (lc_free_pool c). cv_ts v \<le> lc_timestamp c"
    "\<forall>v\<in>set (lc_free_pool c). \<forall>nd. lc_cache c (cv_part v, cv_bkt v) = Some nd \<longrightarrow>
        cn_ts nd = cv_ts v \<longrightarrow> cn_read_cnt nd = 0 \<and> cn_size nd = cv_size v"
    using assms(1) unfolding lru_inv_def by blast+
  have keep: "lru_inv ?c"
    unfolding lru_inv_def using inv Some held by (auto split: if_splits)
  have queue: "lru_inv (?c\<lparr>lc_free_pool := lc_free_pool ?c @ [?v]\<rparr>)" if "cn_read_cnt nd - 1 = 0"
    using keep inv(2) Some that unfolding lru_inv_def by (auto split: if_splits)
  have "c' = ?c \<or> (cn_read_cnt nd - 1 = 0 \<and> c' = ?c\<lparr>lc_free_pool := lc_free_pool ?c @ [?v]\<rparr>)"
    using assms(2) Some
    by (simp add: lru_release_def Let_def max_def del: fun_upd_apply split: if_splits)
  with keep queue show ?thesis by blast
qed

lemma lru_inv_lease:
  "lru_inv c \<Longrightarrow> lru_inc_lease el c part bkt = Inr c' \<Longrightarrow> lru_inv c'"
  "lru_inv c \<Longrightarrow> lru_reset_lease el c part bkt = Inr c' \<Longrightarrow> lru_inv c'"
  by (auto simp: lru_inc_lease_def lru_reset_lease_def split: if_splits)

lemma lru_reach_inv: "lru_reach el c \<Longrightarrow> lru_inv c"
proof (induction rule: lru_reach.induct)
  case (start b p s)
  show ?case by (rule lru_inv_init)
next
  case (step c c')
  from step(2,3) show ?case
    by (induction rule: lru_step.induct)
       (blast intro: lru_inv_try_load lru_inv_load_and_swap lru_inv_release lru_inv_lease)+
qed

section \<open>What a load does to the pages in use\<close>

lemma cache_free_evicts:
  assumes "lru_inv c" "cache_free c = (Some (val, p, b), c')"
  shows "\<exists>nd pool. lc_cache c (p, b) = Some nd \<and> cn_value nd = val \<and> cn_read_cnt nd = 0 \<and>
     c' = c\<lparr>lc_cache := (lc_cache c)((p, b) := None),
            lc_cached_bytes := lc_cached_bytes c - ucast (cn_size nd), lc_free_pool := pool\<rparr>"
proof -
  from cache_free_loop_cases[OF assms(2)[unfolded cache_free_def] subset_refl]
  obtain it pool nd where it: "it \<in> set (lc_free_pool c)" "lc_cache c (p, b) = Some nd"
      "cn_ts nd = cv_ts it" "val = cn_value nd" "p = cv_part it" "b = cv_bkt it"
      "c' = c\<lparr>lc_cache := (lc_cache c)((p, b) := None),
             lc_cached_bytes := lc_cached_bytes c - ucast (cv_size it), lc_free_pool := pool\<rparr>"
    by (auto simp del: fun_upd_apply)
  moreover have "cn_read_cnt nd = 0 \<and> cn_size nd = cv_size it"
    using assms(1) it(1,2,3,5,6) unfolding lru_inv_def by blast
  ultimately show ?thesis by auto
qed

lemma cache_free_None:
  assumes "cache_free c = (None, c')"
  shows "c' = c\<lparr>lc_free_pool := []\<rparr>"
  using cache_free_loop_cases[OF assms[unfolded cache_free_def] subset_refl] by simp

lemma lru_resident_swap:
  assumes "finite (dom (lc_cache c))" "lc_cache c old = Some nd" "lc_cache c k = None"
    and "lc_cache c' = ((lc_cache c)(old := None))(k \<mapsto> nd')"
  shows "lru_resident c' + unat (cn_size nd) = lru_resident c + unat (cn_size nd')"
proof -
  let ?D = "dom (lc_cache c) - {old}"
  let ?f = "\<lambda>k. unat (cn_size (the (lc_cache c k)))"
  have ne: "k \<noteq> old" "k \<notin> ?D" "dom (lc_cache c') = insert k ?D"
    using assms by auto
  have "lru_resident c' = unat (cn_size nd') +
      (\<Sum>x\<in>?D. unat (cn_size (the (lc_cache c' x))))"
    unfolding lru_resident_def ne(3) using assms(1,4) ne(2) by (subst sum.insert) auto
  also have "(\<Sum>x\<in>?D. unat (cn_size (the (lc_cache c' x)))) = sum ?f ?D"
    using assms(4) ne(2) by (intro sum.cong) auto
  finally have "lru_resident c' = unat (cn_size nd') + sum ?f ?D" .
  moreover have "lru_resident c = ?f old + sum ?f ?D"
    unfolding lru_resident_def using assms(1,2) by (intro sum.remove) auto
  ultimately show ?thesis
    using assms(2) by simp
qed

lemma lru_swap_cases:
  assumes "lru_load_and_swap False c part bkt sz v = Inr (rc, sw, r, c')"
  shows "(\<exists>nd. lc_cache c (part, bkt) = Some nd \<and> rc = RCOK \<and> sw = None \<and> r = cn_value nd \<and>
            lc_cache c' = (lc_cache c)((part, bkt) \<mapsto>
              nd\<lparr>cn_read_cnt := cn_read_cnt nd + 1, cn_ts := lc_timestamp c + 1\<rparr>)) \<or>
         (lc_cache c (part, bkt) = None \<and> rc = Abort \<and> sw = None \<and>
            c' = c\<lparr>lc_free_pool := []\<rparr>) \<or>
         (\<exists>out c0. lc_cache c (part, bkt) = None \<and> cache_free c = (Some out, c0) \<and> rc = RCOK \<and>
            sw = Some out \<and> r = v \<and> lc_limit c < lc_cached_bytes c + ucast sz \<and>
            lc_cached_bytes c' = lc_cached_bytes c0 \<and> lc_cache c' =
              (lc_cache c0)((part, bkt) \<mapsto> cache_node_new (lc_timestamp c + 1) v sz)) \<or>
         (lc_cache c (part, bkt) = None \<and> rc = RCOK \<and> sw = None \<and> r = v \<and> lc_cache c' =
              (lc_cache c)((part, bkt) \<mapsto> cache_node_new (lc_timestamp c + 1) v sz))"
  using assms cache_free_None
  by (auto simp: lru_load_and_swap_def res_simps Let_def simp del: fun_upd_apply
      split: if_splits option.splits prod.splits)

text \<open>
  An eviction looks at timestamps only: a load that has raised the count of the page, but not yet
  written its timestamp, changes nothing.
\<close>

lemma cache_free_loop_counted:
  assumes "lc_cache c (p, b) = Some nd" "cache_free_loop pool c = (Some (val, p, b), c0)"
  shows "cache_free_loop pool (c\<lparr>lc_cache := (lc_cache c)((p, b) \<mapsto> nd\<lparr>cn_read_cnt := n\<rparr>)\<rparr>) = (Some (val, p, b), c0)"
  using assms(2)
proof (induction pool)
  case (Cons it pool)
  show ?case
  proof (cases "(cv_part it, cv_bkt it) = (p, b)")
    case True
    then show ?thesis using Cons assms(1) by (auto simp: fun_upd_same simp del: fun_upd_apply split: if_splits)
  next
    case False
    then show ?thesis using Cons by (auto split: option.splits if_splits)
  qed
qed simp

lemma lru_swap_counted:
  assumes "lru_load_and_swap False c part bkt sz v = Inr (rc, Some (val, p, b), r, c')" "lru_try_count False c p b = Inr (True, c1)"
  shows "lru_load_and_swap False c1 part bkt sz v = Inr (rc, Some (val, p, b), r, c')"
proof -
  obtain nd where nd: "lc_cache c (p, b) = Some nd" "c1 = c\<lparr>lc_cache := (lc_cache c)((p, b) \<mapsto> nd\<lparr>cn_read_cnt := cn_read_cnt nd + 1\<rparr>)\<rparr>"
    using assms(2) by (auto simp: lru_try_count_def assert_res_def split: if_splits option.splits)
  have none: "lc_cache c (part, bkt) = None" using lru_swap_cases[OF assms(1)] by auto
  then have free: "cache_free c = (Some (val, p, b), c0) \<Longrightarrow> cache_free c1 = (Some (val, p, b), c0)" for c0
    using cache_free_loop_counted[OF nd(1)] by (simp add: cache_free_def nd(2))
  show ?thesis
    using assms(1) none free nd
    by (auto simp: lru_load_and_swap_def assert_res_def lru_in_def Let_def split: if_splits prod.splits option.splits)
qed

text \<open>
  A cache with room for ten bytes: page 0 (six bytes) is loaded and released, so that loading
  page 1 (six bytes) evicts it, and page 2 (six bytes) is loaded after that.
\<close>

definition lru_ex_loaded :: "nat lru_cache" where
  "lru_ex_loaded = (lru_init 4 1 10)\<lparr>lc_cached_bytes := 6, lc_timestamp := 1,
     lc_cache := [(0, 0) \<mapsto> cache_node_new 1 7 6]\<rparr>"

definition lru_ex_free :: "nat lru_cache" where
  "lru_ex_free = lru_ex_loaded\<lparr>
     lc_cache := [(0, 0) \<mapsto> (cache_node_new 1 7 6)\<lparr>cn_read_cnt := 0\<rparr>],
     lc_free_pool := [\<lparr>cv_bkt = 0, cv_part = 0, cv_ts = 1, cv_size = 6\<rparr>]\<rparr>"

definition lru_ex_swapped :: "nat lru_cache" where
  "lru_ex_swapped = (lru_init 4 1 10)\<lparr>lc_timestamp := 2,
     lc_cache := [(0, 1) \<mapsto> cache_node_new 2 8 6]\<rparr>"

definition lru_ex_over :: "nat lru_cache" where
  "lru_ex_over = (lru_init 4 1 10)\<lparr>lc_cached_bytes := 6, lc_timestamp := 3,
     lc_cache := [(0, 1) \<mapsto> cache_node_new 2 8 6, (0, 2) \<mapsto> cache_node_new 3 9 6]\<rparr>"

lemmas lru_ex_defs = lru_ex_loaded_def lru_ex_free_def lru_ex_swapped_def lru_ex_over_def
  lru_init_def cache_node_new_def lru_in_def

lemma lru_ex_load: "lru_load_and_swap False (lru_init 4 1 10) 0 0 6 7 =
    Inr (RCOK, None, 7, lru_ex_loaded)"
  by (simp add: lru_load_and_swap_def lru_ex_defs)

lemma lru_ex_release: "lru_release lru_ex_loaded 0 0 = Inr lru_ex_free"
  by (simp add: lru_release_def lru_ex_defs)

lemma lru_ex_evict: "lru_load_and_swap False lru_ex_free 0 1 6 8 =
    Inr (RCOK, Some (7, 0, 0), 8, lru_ex_swapped)"
  by (simp add: lru_load_and_swap_def cache_free_def lru_ex_defs fun_eq_iff)

lemma lru_ex_third: "lru_load_and_swap False lru_ex_swapped 0 2 6 9 =
    Inr (RCOK, None, 9, lru_ex_over)"
  by (simp add: lru_load_and_swap_def lru_ex_defs)

lemma lru_ex_clock: "lc_timestamp (lru_init 4 1 10 :: nat lru_cache) < UINT64_MAX"
    "lc_timestamp lru_ex_free < UINT64_MAX" "lc_timestamp lru_ex_swapped < UINT64_MAX"
  by (simp_all add: lru_ex_defs word_less_nat_alt unsigned_minus_1_eq_mask mask_eq_exp_minus_1)

lemma lru_ex_reach: "lru_reach False lru_ex_free" "lru_reach False lru_ex_over"
proof -
  have "lru_reach False lru_ex_loaded"
    by (rule lru_reach.step[OF lru_reach.start lru_step.swap[OF lru_ex_load lru_ex_clock(1)]])
  moreover have "\<forall>nd. lc_cache lru_ex_loaded (0, 0) = Some nd \<longrightarrow> 0 < cn_read_cnt nd"
    by (simp add: lru_ex_defs)
  ultimately show free: "lru_reach False lru_ex_free"
    using lru_reach.step lru_step.release[OF lru_ex_release] by blast
  have "lru_reach False lru_ex_swapped"
    by (rule lru_reach.step[OF free lru_step.swap[OF lru_ex_evict lru_ex_clock(2)]])
  then show "lru_reach False lru_ex_over"
    by (rule lru_reach.step[OF _ lru_step.swap[OF lru_ex_third lru_ex_clock(3)]])
qed

section \<open>Properties\<close>

text \<open>
  C8: Called by one thread at a time, the page cache of a read-write node never takes away a page in
  use, and what happens when a lock-free load overlaps. In every cache that loads, swaps and matched
  releases can produce, one call after the other, \<open>load_and_swap\<close> keeps each page whose reference
  count is positive with its contents; what it swaps out has count zero, was cached with exactly the
  returned contents and is cached no more; and on \<open>RCOK\<close> the requested page is cached with the
  contents the caller is handed. But if a \<open>try_load\<close> of the page that is swapped out has already
  raised its count, the call swaps the page out all the same, and the load goes on with a node that
  has been deleted.
\<close>

theorem lru_pinned_pages_stay:
  assumes "lru_reach False c" and "lru_load_and_swap False c part bkt sz v = Inr (rc, sw, r, c')"
  shows "(\<forall>k nd. lc_cache c k = Some nd \<and> 0 < cn_read_cnt nd \<longrightarrow>
            (\<exists>nd'. lc_cache c' k = Some nd' \<and> cn_value nd' = cn_value nd)) \<and>
         (\<forall>val p b. sw = Some (val, p, b) \<longrightarrow> (p, b) \<notin> dom (lc_cache c') \<and>
            (\<exists>nd. lc_cache c (p, b) = Some nd \<and> cn_read_cnt nd = 0 \<and> cn_value nd = val)) \<and>
         (rc = RCOK \<longrightarrow> (\<exists>nd'. lc_cache c' (part, bkt) = Some nd' \<and> cn_value nd' = r)) \<and>
         (\<forall>val p b c1. sw = Some (val, p, b) \<and> lru_try_count False c p b = Inr (True, c1) \<longrightarrow>
            (\<exists>nd. lc_cache c1 (p, b) = Some nd \<and> cn_read_cnt nd = 1) \<and>
            lru_load_and_swap False c1 part bkt sz v = Inr (rc, sw, r, c') \<and> lru_try_stamp c' p b = Inl Freed)"
  (is "?keep \<and> ?out \<and> ?in \<and> ?race")
proof -
  note evicts = cache_free_evicts[OF lru_reach_inv[OF assms(1)]]
  from lru_swap_cases[OF assms(2)]
  consider (hit) nd where "lc_cache c (part, bkt) = Some nd" "sw = None" "r = cn_value nd"
      "lc_cache c' = (lc_cache c)((part, bkt) \<mapsto>
          nd\<lparr>cn_read_cnt := cn_read_cnt nd + 1, cn_ts := lc_timestamp c + 1\<rparr>)"
    | (full) "rc = Abort" "sw = None" "lc_cache c' = lc_cache c"
    | (evict) val p b c0 where "lc_cache c (part, bkt) = None" "sw = Some (val, p, b)" "r = v"
      "cache_free c = (Some (val, p, b), c0)"
      "lc_cache c' = (lc_cache c0)((part, bkt) \<mapsto> cache_node_new (lc_timestamp c + 1) v sz)"
    | (room) "lc_cache c (part, bkt) = None" "sw = None" "r = v"
      "lc_cache c' = (lc_cache c)((part, bkt) \<mapsto> cache_node_new (lc_timestamp c + 1) v sz)"
    by (elim disjE exE conjE) (simp_all add: split_paired_all del: fun_upd_apply split_paired_All)
  then have seq: "?keep \<and> ?out \<and> ?in"
  proof cases
    case evict
    then show ?thesis
      using evicts[OF evict(4)] by (auto simp: cache_node_new_def)
  qed (auto simp: cache_node_new_def)
  moreover have ?race
  proof (intro allI impI)
    fix val p b c1 assume *: "sw = Some (val, p, b) \<and> lru_try_count False c p b = Inr (True, c1)"
    with seq obtain nd where "lc_cache c (p, b) = Some nd" "cn_read_cnt nd = 0" "lc_cache c' (p, b) = None" by blast
    moreover have "lru_load_and_swap False c1 part bkt sz v = Inr (rc, sw, r, c')"
      using lru_swap_counted[of c part bkt sz v rc val p b r c' c1] assms(2) * by blast
    ultimately show "(\<exists>nd. lc_cache c1 (p, b) = Some nd \<and> cn_read_cnt nd = 1) \<and>
        lru_load_and_swap False c1 part bkt sz v = Inr (rc, sw, r, c') \<and> lru_try_stamp c' p b = Inl Freed"
      using * by (auto simp: lru_try_count_def lru_try_stamp_def assert_res_def split: if_splits)
  qed
  ultimately show ?thesis by blast
qed

theorem lru_pinned_pages_stay_witness:
  "(\<exists>nd. lc_cache lru_ex_free (0, 0) = Some nd \<and> cn_read_cnt nd = 0 \<and> cn_value nd = 7) \<and>
   (\<exists>c1. lru_try_count False lru_ex_free 0 0 = Inr (True, c1) \<and>
      lru_load_and_swap False c1 0 1 6 8 = Inr (RCOK, Some (7, 0, 0), 8, lru_ex_swapped) \<and> lru_try_stamp lru_ex_swapped 0 0 = Inl Freed)"
proof -
  obtain c1 where "lru_try_count False lru_ex_free 0 0 = Inr (True, c1)" by (simp add: lru_try_count_def lru_ex_defs)
  then show ?thesis using lru_pinned_pages_stay[OF lru_ex_reach(1) lru_ex_evict] by auto
qed

text \<open>
   The byte accounting of an evicting load. When \<open>load_and_swap\<close> makes room by evicting a page,
  \<open>_cached_bytes\<close> goes down by the size of the evicted page and the size of the loaded page is
  never added, while the bytes really resident change by the difference of the two.
\<close>

theorem lru_eviction_accounting:
  assumes "lru_reach False c"
    and "lru_load_and_swap False c part bkt sz v = Inr (rc, Some (val, p, b), r, c')"
  shows "\<exists>nd. lc_cache c (p, b) = Some nd \<and>
     lc_cached_bytes c' = lc_cached_bytes c - ucast (cn_size nd) \<and>
     lru_resident c' + unat (cn_size nd) = lru_resident c + unat sz"
proof -
  have inv: "lru_inv c"
    by (rule lru_reach_inv[OF assms(1)])
  obtain c0 where c0: "lc_cache c (part, bkt) = None" "cache_free c = (Some (val, p, b), c0)"
      "lc_cached_bytes c' = lc_cached_bytes c0"
      "lc_cache c' = (lc_cache c0)((part, bkt) \<mapsto> cache_node_new (lc_timestamp c + 1) v sz)"
    using lru_swap_cases[OF assms(2)] by (auto simp del: fun_upd_apply)
  obtain nd pool where nd: "lc_cache c (p, b) = Some nd"
      "c0 = c\<lparr>lc_cache := (lc_cache c)((p, b) := None),
            lc_cached_bytes := lc_cached_bytes c - ucast (cn_size nd), lc_free_pool := pool\<rparr>"
    using cache_free_evicts[OF inv c0(2)] by blast
  have "lru_resident c' + unat (cn_size nd) = lru_resident c + unat sz"
    using lru_resident_swap[of c "(p, b)" nd "(part, bkt)" c' "cache_node_new (lc_timestamp c + 1) v sz"]
      inv c0(1,4) nd by (simp add: lru_inv_def cache_node_new_def)
  then show ?thesis
    using nd c0(3) by auto
qed

theorem lru_eviction_accounting_witness:
  "lc_cached_bytes lru_ex_swapped = 0 \<and> lru_resident lru_ex_swapped = lru_resident lru_ex_free"
  using lru_eviction_accounting[OF lru_ex_reach(1) lru_ex_evict] by (auto simp: lru_ex_defs)

text \<open>
   The limit of the page cache is not enforced. A run of four correct calls ends in a cache
  of limit ten that holds twelve bytes, because an evicting load does not count the page it
  brings in.
\<close>

theorem lru_limit_exceeded:
  "\<exists>c :: nat lru_cache. lru_reach False c \<and> unat (lc_limit c) < lru_resident c"
proof (intro exI conjI)
  show "lru_reach False lru_ex_over"
    by (rule lru_ex_reach(2))
  have "dom (lc_cache lru_ex_over) = {(0, 1), (0, 2)}"
    by (auto simp: lru_ex_defs)
  then show "unat (lc_limit lru_ex_over) < lru_resident lru_ex_over"
    by (simp add: lru_resident_def) (simp add: lru_ex_defs)
qed

end
