(* ===== verification/Row_Lock.thy ===== *)
theory Row_Lock
  imports Wait_Order
begin

text \<open>
  The lock of a row under two-phase locking, \<open>trusted/concurrency_control/row_lock.cpp\<close>,
  for the three values \<open>NO_WAIT\<close>, \<open>WAIT_DIE\<close> and \<open>DL_DETECT\<close> of \<open>CC_ALG\<close>. A
  transaction manager is a pointer; the fields of it that the lock reads and writes are in the
  store \<open>txns\<close>. \<open>rl_owners\<close> is the stack of owners, top first, \<open>rl_waiters\<close> the doubly
  linked queue from \<open>waiters_head\<close> to \<open>waiters_tail\<close>; the two \<open>UInt32\<close> counters are
  kept as words beside them, as in the source. \<open>rl_latched\<close> is the latch (the row's mutex,
  or its bucket in the central manager).

  Shown: the invariant \<open>rl_inv\<close> (counters, compatible owners, the head waiter really
  conflicts, waiting transactions are not marked ready) is kept by both operations, none of the
  source's assertions fails under it, and under \<open>WAIT_DIE\<close> waiting goes from older to younger
  transactions only, so that no set of rows can deadlock.
\<close>

section \<open>Data\<close>

type_synonym txn_ptr = nat

record txn_info =
  ti_txn_id :: txnid_t
  ti_ts :: ts_t
  ti_lock_ready :: bool

type_synonym txns = "txn_ptr \<Rightarrow> txn_info"

record lock_entry =
  le_type :: lock_t
  le_txn :: txn_ptr

record row_lock =
  rl_lock_type :: lock_t
  rl_owner_cnt :: u32
  rl_waiter_cnt :: u32
  rl_owners :: "lock_entry list"
  rl_waiters :: "lock_entry list"
  rl_latched :: bool

abbreviation ts_of :: "txns \<Rightarrow> lock_entry \<Rightarrow> ts_t" where
  "ts_of tx e \<equiv> ti_ts (tx (le_txn e))"

section \<open>Operations\<close>

definition rl_init :: row_lock where
  "rl_init = \<lparr>rl_lock_type = LOCK_NONE, rl_owner_cnt = 0, rl_waiter_cnt = 0,
     rl_owners = [], rl_waiters = [], rl_latched = False\<rparr>"

definition conflict_lock :: "lock_t \<Rightarrow> lock_t \<Rightarrow> bool" where
  "conflict_lock l1 l2 =
     (if l1 = LOCK_NONE \<or> l2 = LOCK_NONE then False
      else if l1 = LOCK_EX \<or> l2 = LOCK_EX then True
      else False)"

definition rl_conflict :: "lock_alg \<Rightarrow> txns \<Rightarrow> row_lock \<Rightarrow> lock_t \<Rightarrow> txn_ptr \<Rightarrow> bool" where
  "rl_conflict alg tx rl type txn =
     (let c0 = conflict_lock (rl_lock_type rl) type;
          c1 = (if alg = WAIT_DIE \<and> \<not> c0
                then (case rl_waiters rl of [] \<Rightarrow> c0
                      | w # _ \<Rightarrow> if ti_ts (tx txn) < ts_of tx w then True else c0)
                else c0)
      in if alg = DL_DETECT \<and> rl_waiters rl \<noteq> [] then True else c1)"

text \<open>The walk of \<open>canwait\<close> over the owners.\<close>

fun rl_canwait :: "txns \<Rightarrow> txn_ptr \<Rightarrow> lock_entry list \<Rightarrow> bool" where
  "rl_canwait tx txn [] = True"
| "rl_canwait tx txn (e # es) =
     (if ts_of tx e < ti_ts (tx txn) then False else rl_canwait tx txn es)"

text \<open>Insertion of a waiter before the first one that is not younger, or at the tail.\<close>

fun rl_insert_waiter :: "txns \<Rightarrow> lock_entry \<Rightarrow> lock_entry list \<Rightarrow> lock_entry list" where
  "rl_insert_waiter tx entry [] = [entry]"
| "rl_insert_waiter tx entry (en # es) =
     (if ts_of tx entry < ts_of tx en then en # rl_insert_waiter tx entry es
      else entry # en # es)"

definition rl_wait :: "txns \<Rightarrow> txn_ptr \<Rightarrow> txns" where
  "rl_wait tx txn = tx(txn := (tx txn)\<lparr>ti_lock_ready := False\<rparr>)"

text \<open>
  The transactions a new \<open>DL_DETECT\<close> waiter waits for: the conflicting waiters in front of it,
  from the nearest back to the head, then the owners when the lock itself conflicts.
\<close>

definition rl_txnids :: "txns \<Rightarrow> row_lock \<Rightarrow> lock_t \<Rightarrow> txnid_t list" where
  "rl_txnids tx rl type =
     map (\<lambda>e. ti_txn_id (tx (le_txn e)))
       (filter (\<lambda>e. conflict_lock type (le_type e)) (rev (butlast (rl_waiters rl))) @
        (if conflict_lock type (rl_lock_type rl) then rl_owners rl else []))"

definition lock_get ::
  "lock_alg \<Rightarrow> u32 \<Rightarrow> txns \<Rightarrow> row_lock \<Rightarrow> lock_t \<Rightarrow> txn_ptr \<Rightarrow>
     (RC \<times> txnid_t list \<times> row_lock \<times> txns) res" where
  "lock_get alg g_thread_cnt tx rl type txn =
     (if rl_latched rl then Inl Blocked
      else assert_res (rl_owner_cnt rl \<le> g_thread_cnt)
        (assert_res (rl_waiter_cnt rl < g_thread_cnt)
          (let entry = \<lparr>le_type = type, le_txn = txn\<rparr> in
           if rl_conflict alg tx rl type txn
           then (case alg of
               NO_WAIT \<Rightarrow> Inr (Abort, [], rl, tx)
             | DL_DETECT \<Rightarrow>
                 let rl' = rl\<lparr>rl_waiters := rl_waiters rl @ [entry],
                              rl_waiter_cnt := rl_waiter_cnt rl + 1\<rparr>;
                     ids = rl_txnids tx rl' type
                 in assert_res (ids \<noteq> []) (Inr (WAIT, ids, rl', rl_wait tx txn))
             | WAIT_DIE \<Rightarrow>
                 if rl_canwait tx txn (rl_owners rl)
                 then Inr (WAIT, [], rl\<lparr>rl_waiters := rl_insert_waiter tx entry (rl_waiters rl),
                        rl_waiter_cnt := rl_waiter_cnt rl + 1\<rparr>, rl_wait tx txn)
                 else Inr (Abort, [], rl, tx))
           else assert_res (alg = DL_DETECT \<longrightarrow> rl_waiters rl = [])
                 (Inr (RCOK, [], rl\<lparr>rl_owners := entry # rl_owners rl,
                        rl_owner_cnt := rl_owner_cnt rl + 1, rl_lock_type := type\<rparr>, tx)))))"

text \<open>Unlinking the first entry of a transaction from a list.\<close>

fun rl_unlink :: "txn_ptr \<Rightarrow> lock_entry list \<Rightarrow> lock_entry list" where
  "rl_unlink txn [] = []"
| "rl_unlink txn (e # es) = (if le_txn e = txn then es else e # rl_unlink txn es)"

abbreviation rl_member :: "txn_ptr \<Rightarrow> lock_entry list \<Rightarrow> bool" where
  "rl_member txn es \<equiv> txn \<in> le_txn ` set es"

text \<open>The loop that moves waiters to the owners while the head does not conflict.\<close>

fun rl_promote :: "lock_entry list \<Rightarrow> row_lock \<Rightarrow> txns \<Rightarrow> (row_lock \<times> txns) res" where
  "rl_promote [] rl tx = Inr (rl\<lparr>rl_waiters := []\<rparr>, tx)"
| "rl_promote (w # ws) rl tx =
     (if conflict_lock (rl_lock_type rl) (le_type w) then Inr (rl\<lparr>rl_waiters := w # ws\<rparr>, tx)
      else assert_res (\<not> ti_lock_ready (tx (le_txn w)))
        (rl_promote ws
          (rl\<lparr>rl_owners := w # rl_owners rl, rl_owner_cnt := rl_owner_cnt rl + 1,
              rl_waiter_cnt := rl_waiter_cnt rl - 1, rl_lock_type := le_type w\<rparr>)
          (tx(le_txn w := (tx (le_txn w))\<lparr>ti_lock_ready := True\<rparr>))))"

definition rl_remove :: "row_lock \<Rightarrow> txn_ptr \<Rightarrow> row_lock res" where
  "rl_remove rl txn =
     (if rl_member txn (rl_owners rl)
      then let cnt = rl_owner_cnt rl - 1 in
           Inr (rl\<lparr>rl_owners := rl_unlink txn (rl_owners rl), rl_owner_cnt := cnt,
                   rl_lock_type := (if cnt = 0 then LOCK_NONE else rl_lock_type rl)\<rparr>)
      else assert_res (rl_member txn (rl_waiters rl))
           (Inr (rl\<lparr>rl_waiters := rl_unlink txn (rl_waiters rl),
                    rl_waiter_cnt := rl_waiter_cnt rl - 1\<rparr>)))"

definition lock_release :: "txns \<Rightarrow> row_lock \<Rightarrow> txn_ptr \<Rightarrow> (RC \<times> row_lock \<times> txns) res" where
  "lock_release tx rl txn =
     (if rl_latched rl then Inl Blocked
      else bind_res (rl_remove rl txn) (\<lambda>rl1.
        assert_res (rl_owner_cnt rl1 = 0 \<longrightarrow> rl_lock_type rl1 = LOCK_NONE)
        (bind_res (rl_promote (rl_waiters rl1) rl1 tx) (\<lambda>(rl2, tx2).
          assert_res ((rl_owners rl2 = []) = (rl_owner_cnt rl2 = 0)) (Inr (RCOK, rl2, tx2))))))"

section \<open>Invariant\<close>

text \<open>
  \<open>rl_inv n\<close>: at most \<open>n\<close> transactions (the threads) own or wait for the row.
\<close>

definition rl_counts :: "nat \<Rightarrow> row_lock \<Rightarrow> bool" where
  "rl_counts n rl \<longleftrightarrow> n < 2 ^ 32 \<and> length (rl_owners rl) + length (rl_waiters rl) \<le> n \<and>
     rl_owner_cnt rl = of_nat (length (rl_owners rl)) \<and>
     rl_waiter_cnt rl = of_nat (length (rl_waiters rl)) \<and>
     distinct (map le_txn (rl_owners rl @ rl_waiters rl))"

definition rl_compat :: "row_lock \<Rightarrow> bool" where
  "rl_compat rl \<longleftrightarrow> (rl_lock_type rl = LOCK_NONE \<longleftrightarrow> rl_owners rl = []) \<and>
     (\<forall>e\<in>set (rl_owners rl). le_type e = rl_lock_type rl) \<and>
     (rl_lock_type rl = LOCK_EX \<longrightarrow> length (rl_owners rl) = 1) \<and>
     (\<forall>w\<in>set (rl_waiters rl). le_type w \<noteq> LOCK_NONE)"

definition rl_blocked :: "row_lock \<Rightarrow> bool" where
  "rl_blocked rl \<longleftrightarrow> (case rl_waiters rl of [] \<Rightarrow> True
     | w # _ \<Rightarrow> conflict_lock (rl_lock_type rl) (le_type w))"

definition rl_ordered :: "txns \<Rightarrow> row_lock \<Rightarrow> bool" where
  "rl_ordered tx rl \<longleftrightarrow> sorted_wrt (\<lambda>e f. ts_of tx f \<le> ts_of tx e) (rl_waiters rl) \<and>
     (\<forall>w\<in>set (rl_waiters rl). \<forall>e\<in>set (rl_owners rl). ts_of tx w \<le> ts_of tx e)"

definition rl_inv :: "lock_alg \<Rightarrow> nat \<Rightarrow> txns \<Rightarrow> row_lock \<Rightarrow> bool" where
  "rl_inv alg n tx rl \<longleftrightarrow> \<not> rl_latched rl \<and> rl_counts n rl \<and> rl_compat rl \<and> rl_blocked rl \<and>
     (\<forall>w\<in>set (rl_waiters rl). \<not> ti_lock_ready (tx (le_txn w))) \<and>
     (alg = WAIT_DIE \<longrightarrow> rl_ordered tx rl) \<and> (alg = NO_WAIT \<longrightarrow> rl_waiters rl = [])"

lemma conflict_lock_iff:
  "conflict_lock a b \<longleftrightarrow> a \<noteq> LOCK_NONE \<and> b \<noteq> LOCK_NONE \<and> (a = LOCK_EX \<or> b = LOCK_EX)"
  by (auto simp: conflict_lock_def)

lemma not_conflict_cases:
  "\<not> conflict_lock a b \<Longrightarrow> b \<noteq> LOCK_NONE \<Longrightarrow> a = LOCK_NONE \<or> a = LOCK_SH \<and> b = LOCK_SH"
  by (cases a; cases b) (auto simp: conflict_lock_def)

lemma rl_inv_init: "n < 2 ^ 32 \<Longrightarrow> rl_inv alg n tx rl_init"
  by (simp add: rl_inv_def rl_init_def rl_counts_def rl_compat_def rl_blocked_def rl_ordered_def)

lemma rl_ordered_ts:
  "(\<And>t. ti_ts (tx' t) = ti_ts (tx t)) \<Longrightarrow> rl_ordered tx' rl \<longleftrightarrow> rl_ordered tx rl"
  by (simp add: rl_ordered_def)

lemma rl_canwait_iff: "rl_canwait tx txn es \<longleftrightarrow> (\<forall>e\<in>set es. ti_ts (tx txn) \<le> ts_of tx e)"
  by (induction es) auto

lemma set_rl_insert_waiter [simp]: "set (rl_insert_waiter tx e es) = insert e (set es)"
  by (induction es) auto

lemma length_rl_insert_waiter [simp]: "length (rl_insert_waiter tx e es) = Suc (length es)"
  by (induction es) auto

lemma distinct_rl_insert_waiter [simp]:
  "distinct (map le_txn (rl_insert_waiter tx e es)) \<longleftrightarrow> distinct (map le_txn (e # es))"
  by (induction es) auto

lemma sorted_rl_insert_waiter:
  "sorted_wrt (\<lambda>e f. ts_of tx f \<le> ts_of tx e) es \<Longrightarrow>
   sorted_wrt (\<lambda>e f. ts_of tx f \<le> ts_of tx e) (rl_insert_waiter tx e es)"
  by (induction es) (auto simp: not_less)

lemma rl_unlink_filter:
  "distinct (map le_txn es) \<Longrightarrow> rl_unlink txn es = filter (\<lambda>e. le_txn e \<noteq> txn) es"
proof (induction es)
  case (Cons e es)
  have "filter (\<lambda>f. le_txn f \<noteq> le_txn e) es = es"
    using Cons.prems by (intro filter_True) (auto simp: image_iff)
  with Cons show ?case by auto
qed simp

lemma length_rl_unlink:
  "rl_member txn es \<Longrightarrow> length es = Suc (length (rl_unlink txn es))"
  by (induction es) auto

lemma rl_wait_sel [simp]:
  "ti_ts (rl_wait tx txn t) = ti_ts (tx t)" "ti_txn_id (rl_wait tx txn t) = ti_txn_id (tx t)"
  "ti_lock_ready (rl_wait tx txn t) \<longleftrightarrow> t \<noteq> txn \<and> ti_lock_ready (tx t)"
  by (auto simp: rl_wait_def)

section \<open>Release\<close>

lemma rl_counts_promote:
  assumes "rl_counts n (rl\<lparr>rl_waiters := w # ws\<rparr>)"
  shows "rl_counts n (rl\<lparr>rl_owners := w # rl_owners rl, rl_owner_cnt := rl_owner_cnt rl + 1,
     rl_waiter_cnt := rl_waiter_cnt rl - 1, rl_lock_type := t, rl_waiters := ws\<rparr>)"
  using assms by (auto simp: rl_counts_def)

lemma rl_compat_promote:
  assumes "rl_compat (rl\<lparr>rl_waiters := w # ws\<rparr>)"
    and "\<not> conflict_lock (rl_lock_type rl) (le_type w)"
  shows "rl_compat (rl\<lparr>rl_owners := w # rl_owners rl, rl_owner_cnt := a, rl_waiter_cnt := b,
     rl_lock_type := le_type w, rl_waiters := ws\<rparr>)"
  using assms not_conflict_cases[OF assms(2)] by (auto simp: rl_compat_def)

lemma rl_ordered_promote:
  assumes "rl_ordered tx (rl\<lparr>rl_waiters := w # ws\<rparr>)"
  shows "rl_ordered tx (rl\<lparr>rl_owners := w # rl_owners rl, rl_owner_cnt := a, rl_waiter_cnt := b,
     rl_lock_type := t, rl_waiters := ws\<rparr>)"
  using assms by (auto simp: rl_ordered_def)

lemma rl_promote_spec:
  fixes rl :: row_lock
  assumes "rl_counts n (rl\<lparr>rl_waiters := ws\<rparr>)" "rl_compat (rl\<lparr>rl_waiters := ws\<rparr>)"
    and "\<forall>w\<in>set ws. \<not> ti_lock_ready (tx (le_txn w))"
    and "P \<longrightarrow> rl_ordered tx (rl\<lparr>rl_waiters := ws\<rparr>)"
  shows "\<exists>rl' tx' pre. rl_promote ws rl tx = Inr (rl', tx') \<and> rl_latched rl' = rl_latched rl \<and>
     rl_counts n rl' \<and> rl_compat rl' \<and> rl_blocked rl' \<and> (P \<longrightarrow> rl_ordered tx' rl') \<and>
     ws = pre @ rl_waiters rl' \<and> rl_owners rl' = rev pre @ rl_owners rl \<and>
     (\<forall>t. ti_ts (tx' t) = ti_ts (tx t) \<and> ti_txn_id (tx' t) = ti_txn_id (tx t) \<and>
          ti_lock_ready (tx' t) = (ti_lock_ready (tx t) \<or> rl_member t pre))"
  using assms
proof (induction ws arbitrary: rl tx)
  case Nil
  then show ?case by (auto simp: rl_blocked_def)
next
  case (Cons w ws)
  show ?case
  proof (cases "conflict_lock (rl_lock_type rl) (le_type w)")
    case True
    with Cons.prems show ?thesis
      by (intro exI[of _ "rl\<lparr>rl_waiters := w # ws\<rparr>"] exI[of _ tx] exI[of _ "[]"])
         (simp add: rl_blocked_def)
  next
    case False
    let ?rl = "rl\<lparr>rl_owners := w # rl_owners rl, rl_owner_cnt := rl_owner_cnt rl + 1,
              rl_waiter_cnt := rl_waiter_cnt rl - 1, rl_lock_type := le_type w\<rparr>"
    let ?tx = "tx(le_txn w := (tx (le_txn w))\<lparr>ti_lock_ready := True\<rparr>)"
    have ts: "ti_ts (?tx t) = ti_ts (tx t)" for t by simp
    have fresh: "le_txn w \<notin> le_txn ` set ws"
      using Cons.prems(1) by (auto simp: rl_counts_def)
    have "\<exists>rl' tx' pre. rl_promote ws ?rl ?tx = Inr (rl', tx') \<and> rl_latched rl' = rl_latched ?rl \<and>
     rl_counts n rl' \<and> rl_compat rl' \<and> rl_blocked rl' \<and> (P \<longrightarrow> rl_ordered tx' rl') \<and>
     ws = pre @ rl_waiters rl' \<and> rl_owners rl' = rev pre @ rl_owners ?rl \<and>
     (\<forall>t. ti_ts (tx' t) = ti_ts (?tx t) \<and> ti_txn_id (tx' t) = ti_txn_id (?tx t) \<and>
          ti_lock_ready (tx' t) = (ti_lock_ready (?tx t) \<or> rl_member t pre))"
    proof (rule Cons.IH)
      show "rl_counts n (?rl\<lparr>rl_waiters := ws\<rparr>)"
        using rl_counts_promote[OF Cons.prems(1)] by simp
      show "rl_compat (?rl\<lparr>rl_waiters := ws\<rparr>)"
        using rl_compat_promote[OF Cons.prems(2) False] by simp
      show "\<forall>v\<in>set ws. \<not> ti_lock_ready (?tx (le_txn v))"
        using Cons.prems(3) fresh by (auto simp: image_iff)
      show "P \<longrightarrow> rl_ordered ?tx (?rl\<lparr>rl_waiters := ws\<rparr>)"
        using Cons.prems(4) rl_ordered_promote by (simp add: rl_ordered_ts[OF ts])
    qed
    then obtain rl' tx' pre where IH: "rl_promote ws ?rl ?tx = Inr (rl', tx')"
      "rl_latched rl' = rl_latched rl" "rl_counts n rl'" "rl_compat rl'" "rl_blocked rl'"
      "P \<longrightarrow> rl_ordered tx' rl'" "ws = pre @ rl_waiters rl'"
      "rl_owners rl' = rev pre @ rl_owners ?rl"
      "\<And>t. ti_ts (tx' t) = ti_ts (?tx t) \<and> ti_txn_id (tx' t) = ti_txn_id (?tx t) \<and>
          ti_lock_ready (tx' t) = (ti_lock_ready (?tx t) \<or> rl_member t pre)"
      by auto
    have "rl_promote (w # ws) rl tx = Inr (rl', tx')"
      using False Cons.prems(3) IH(1) by simp
    moreover have "ti_ts (tx' t) = ti_ts (tx t) \<and> ti_txn_id (tx' t) = ti_txn_id (tx t) \<and>
          ti_lock_ready (tx' t) = (ti_lock_ready (tx t) \<or> rl_member t (w # pre))" for t
      using IH(9)[of t] by (cases "t = le_txn w") auto
    ultimately show ?thesis
      using IH(2-8) by (intro exI[of _ rl'] exI[of _ tx'] exI[of _ "w # pre"]) simp
  qed
qed

lemma rl_remove_spec:
  assumes "rl_inv alg n tx rl" "rl_member txn (rl_owners rl @ rl_waiters rl)"
  shows "\<exists>rl1. rl_remove rl txn = Inr rl1 \<and> rl_latched rl1 = rl_latched rl \<and>
     rl_counts n rl1 \<and> rl_compat rl1 \<and> (rl_ordered tx rl \<longrightarrow> rl_ordered tx rl1) \<and>
     rl_owners rl1 = filter (\<lambda>e. le_txn e \<noteq> txn) (rl_owners rl) \<and>
     rl_waiters rl1 = filter (\<lambda>e. le_txn e \<noteq> txn) (rl_waiters rl) \<and>
     (rl_owner_cnt rl1 = 0 \<longrightarrow> rl_lock_type rl1 = LOCK_NONE)"
proof -
  let ?keep = "filter (\<lambda>e. le_txn e \<noteq> txn)"
  have inv: "rl_counts n rl" "rl_compat rl"
    using assms(1) by (auto simp: rl_inv_def)
  have dist: "distinct (map le_txn (rl_owners rl))" "distinct (map le_txn (rl_waiters rl))"
    and disj: "le_txn ` set (rl_owners rl) \<inter> le_txn ` set (rl_waiters rl) = {}"
    and small: "length (rl_owners rl) < 2 ^ 32" "length (rl_waiters rl) < 2 ^ 32"
    using inv(1) by (auto simp: rl_counts_def)
  show ?thesis
  proof (cases "rl_member txn (rl_owners rl)")
    case True
    have len: "length (rl_owners rl) = Suc (length (?keep (rl_owners rl)))"
      using length_rl_unlink[OF True] by (simp add: rl_unlink_filter[OF dist(1)])
    have keepw: "?keep (rl_waiters rl) = rl_waiters rl"
      using True disj by (intro filter_True) auto
    let ?cnt = "of_nat (length (?keep (rl_owners rl))) :: u32"
    have "?cnt = 0 \<longleftrightarrow> length (?keep (rl_owners rl)) = 0"
      using len small(1) by (intro of_nat_word_zero) simp
    moreover have "rl_owner_cnt rl - 1 = ?cnt"
      using inv(1) len by (simp add: rl_counts_def)
    ultimately have cnt: "rl_owner_cnt rl - 1 = ?cnt" "?cnt = 0 \<longleftrightarrow> ?keep (rl_owners rl) = []"
      by simp_all
    let ?rl1 = "rl\<lparr>rl_owners := ?keep (rl_owners rl), rl_owner_cnt := ?cnt,
         rl_lock_type := (if ?cnt = 0 then LOCK_NONE else rl_lock_type rl)\<rparr>"
    have run: "rl_remove rl txn = Inr ?rl1"
      using True cnt(1) by (simp add: rl_remove_def rl_unlink_filter[OF dist(1)] Let_def)
    have "distinct (map le_txn (?keep (rl_owners rl) @ rl_waiters rl))"
      using dist disj by (auto simp: distinct_map_filter)
    then have "rl_counts n ?rl1"
      using inv(1) len unfolding rl_counts_def by simp
    moreover have "rl_compat ?rl1"
    proof -
      have "\<forall>e\<in>set (?keep (rl_owners rl)). le_type e = rl_lock_type rl"
        using inv(2) by (auto simp: rl_compat_def)
      then show ?thesis
        using inv(2) len cnt(2) unfolding rl_compat_def
        by (cases "?keep (rl_owners rl)") auto
    qed
    moreover have "rl_ordered tx rl \<longrightarrow> rl_ordered tx ?rl1"
      by (auto simp: rl_ordered_def)
    ultimately show ?thesis
      using run keepw by (intro exI[of _ ?rl1]) (simp del: filter_empty_conv)
  next
    case False
    then have mem: "rl_member txn (rl_waiters rl)"
      using assms(2) by auto
    have len: "length (rl_waiters rl) = Suc (length (?keep (rl_waiters rl)))"
      using length_rl_unlink[OF mem] by (simp add: rl_unlink_filter[OF dist(2)])
    have keepo: "?keep (rl_owners rl) = rl_owners rl"
      using False by (intro filter_True) auto
    have cnt: "rl_waiter_cnt rl - 1 = of_nat (length (?keep (rl_waiters rl)))"
      using inv(1) len by (simp add: rl_counts_def)
    let ?rl1 = "rl\<lparr>rl_waiters := ?keep (rl_waiters rl),
        rl_waiter_cnt := of_nat (length (?keep (rl_waiters rl)))\<rparr>"
    have run: "rl_remove rl txn = Inr ?rl1"
      using False mem cnt by (simp add: rl_remove_def rl_unlink_filter[OF dist(2)])
    have "distinct (map le_txn (rl_owners rl @ ?keep (rl_waiters rl)))"
      using dist disj by (auto simp: distinct_map_filter)
    then have "rl_counts n ?rl1"
      using inv(1) len unfolding rl_counts_def by simp
    moreover have "rl_compat ?rl1"
      using inv(2) by (auto simp: rl_compat_def)
    moreover have "rl_ordered tx rl \<longrightarrow> rl_ordered tx ?rl1"
      by (auto simp: rl_ordered_def intro: sorted_wrt_filter)
    moreover have "rl_owner_cnt rl = 0 \<longrightarrow> rl_lock_type rl = LOCK_NONE"
      using inv small(1)
      by (auto simp: rl_counts_def rl_compat_def word_unat_eq_iff unat_of_nat_lt)
    ultimately show ?thesis
      using run keepo by (intro exI[of _ ?rl1]) simp
  qed
qed

text \<open>
  A release by a transaction that owns or waits for the row succeeds: it takes that transaction
  out and promotes a prefix of the remaining queue.
\<close>

lemma lock_release_spec:
  assumes "rl_inv alg n tx rl" "rl_member txn (rl_owners rl @ rl_waiters rl)"
  shows "\<exists>rl' tx' pre. lock_release tx rl txn = Inr (RCOK, rl', tx') \<and> rl_inv alg n tx' rl' \<and>
     filter (\<lambda>e. le_txn e \<noteq> txn) (rl_waiters rl) = pre @ rl_waiters rl' \<and>
     rl_owners rl' = rev pre @ filter (\<lambda>e. le_txn e \<noteq> txn) (rl_owners rl) \<and>
     (\<forall>t. ti_ts (tx' t) = ti_ts (tx t) \<and> ti_txn_id (tx' t) = ti_txn_id (tx t) \<and>
          ti_lock_ready (tx' t) = (ti_lock_ready (tx t) \<or> rl_member t pre))"
proof -
  have inv: "\<not> rl_latched rl" "\<forall>w\<in>set (rl_waiters rl). \<not> ti_lock_ready (tx (le_txn w))"
    "alg = WAIT_DIE \<longrightarrow> rl_ordered tx rl" "alg = NO_WAIT \<longrightarrow> rl_waiters rl = []"
    using assms(1) by (auto simp: rl_inv_def)
  obtain rl1 where rl1: "rl_remove rl txn = Inr rl1" "rl_latched rl1 = rl_latched rl"
     "rl_counts n rl1" "rl_compat rl1" "rl_ordered tx rl \<longrightarrow> rl_ordered tx rl1"
     "rl_owners rl1 = filter (\<lambda>e. le_txn e \<noteq> txn) (rl_owners rl)"
     "rl_waiters rl1 = filter (\<lambda>e. le_txn e \<noteq> txn) (rl_waiters rl)"
     "rl_owner_cnt rl1 = 0 \<longrightarrow> rl_lock_type rl1 = LOCK_NONE"
    using rl_remove_spec[OF assms] by blast
  have ready: "\<forall>w\<in>set (rl_waiters rl1). \<not> ti_lock_ready (tx (le_txn w))"
    using inv(2) rl1(7) by auto
  have self: "rl1\<lparr>rl_waiters := rl_waiters rl1\<rparr> = rl1" by simp
  have ord: "alg = WAIT_DIE \<longrightarrow> rl_ordered tx rl1"
    using inv(3) rl1(5) by blast
  obtain rl2 tx2 pre where rl2: "rl_promote (rl_waiters rl1) rl1 tx = Inr (rl2, tx2)"
     "rl_latched rl2 = rl_latched rl1" "rl_counts n rl2" "rl_compat rl2" "rl_blocked rl2"
     "alg = WAIT_DIE \<longrightarrow> rl_ordered tx2 rl2" "rl_waiters rl1 = pre @ rl_waiters rl2"
     "rl_owners rl2 = rev pre @ rl_owners rl1"
     "\<forall>t. ti_ts (tx2 t) = ti_ts (tx t) \<and> ti_txn_id (tx2 t) = ti_txn_id (tx t) \<and>
          ti_lock_ready (tx2 t) = (ti_lock_ready (tx t) \<or> rl_member t pre)"
    using rl_promote_spec[where rl = rl1 and ws = "rl_waiters rl1", unfolded self,
        OF rl1(3,4) ready ord] by blast
  have "(rl_owners rl2 = []) = (rl_owner_cnt rl2 = 0)"
    using rl2(3) by (auto simp: rl_counts_def word_unat_eq_iff unat_of_nat_lt)
  then have run: "lock_release tx rl txn = Inr (RCOK, rl2, tx2)"
    using inv(1) rl1(1,8) rl2(1) by (simp add: lock_release_def)
  have "distinct (map le_txn (pre @ rl_waiters rl2))"
    using rl1(3) rl2(7) by (simp add: rl_counts_def)
  then have "\<forall>w\<in>set (rl_waiters rl2). \<not> ti_lock_ready (tx2 (le_txn w))"
    using ready rl2(7,9) by auto
  then have "rl_inv alg n tx2 rl2"
    using rl2 rl1(2,7) inv(1,4) by (auto simp: rl_inv_def)
  with run rl2 rl1 show ?thesis
    by (intro exI[of _ rl2] exI[of _ tx2] exI[of _ pre]) simp
qed

section \<open>Acquisition\<close>

text \<open>A \<open>DL_DETECT\<close> waiter has somebody to wait for.\<close>

lemma rl_txnids_nonempty:
  assumes "rl_inv DL_DETECT n tx rl" "type \<noteq> LOCK_NONE"
    and "rl_conflict DL_DETECT tx rl type txn"
  shows "rl_txnids tx (rl\<lparr>rl_waiters := rl_waiters rl @ [entry], rl_waiter_cnt := k\<rparr>) type \<noteq> []"
proof (cases "conflict_lock type (rl_lock_type rl)")
  case True
  then have "rl_owners rl \<noteq> []"
    using assms(1) by (auto simp: rl_inv_def rl_compat_def conflict_lock_iff)
  with True show ?thesis
    by (simp add: rl_txnids_def)
next
  case False
  then have "\<not> conflict_lock (rl_lock_type rl) type"
    by (auto simp: conflict_lock_iff)
  then obtain w ws where w: "rl_waiters rl = w # ws"
    using assms(3) by (auto simp: rl_conflict_def neq_Nil_conv split: if_splits)
  then have "conflict_lock (rl_lock_type rl) (le_type w)"
    using assms(1) by (simp add: rl_inv_def rl_blocked_def)
  then have "conflict_lock type (le_type w)"
    using False assms(2) by (auto simp: conflict_lock_iff)
  then show ?thesis
    using w by (simp add: rl_txnids_def)
qed

lemma rl_inv_grant:
  assumes "rl_inv alg n tx rl" "type \<noteq> LOCK_NONE" "\<not> rl_conflict alg tx rl type txn"
    and "\<not> rl_member txn (rl_owners rl @ rl_waiters rl)"
    and "length (rl_owners rl) + length (rl_waiters rl) < n"
  shows "rl_inv alg n tx (rl\<lparr>rl_owners := \<lparr>le_type = type, le_txn = txn\<rparr> # rl_owners rl,
     rl_owner_cnt := rl_owner_cnt rl + 1, rl_lock_type := type\<rparr>)" (is "rl_inv _ _ _ ?rl")
proof -
  have free: "\<not> conflict_lock (rl_lock_type rl) type"
    and older: "alg = WAIT_DIE \<longrightarrow> (\<forall>w ws. rl_waiters rl = w # ws \<longrightarrow> ts_of tx w \<le> ti_ts (tx txn))"
    using assms(3) by (auto simp: rl_conflict_def Let_def split: if_splits list.splits)
  note cases = not_conflict_cases[OF free assms(2)]
  have inv: "rl_counts n rl" "rl_compat rl" "rl_blocked rl"
    using assms(1) by (auto simp: rl_inv_def)
  have "rl_counts n ?rl"
    using inv(1) assms(4,5) by (auto simp: rl_counts_def)
  moreover have "rl_compat ?rl"
    using inv(2) cases assms(2) by (auto simp: rl_compat_def)
  moreover have "rl_blocked ?rl"
    using inv(3) cases by (auto simp: rl_blocked_def conflict_lock_iff split: list.splits)
  moreover have "rl_ordered tx ?rl" if "alg = WAIT_DIE"
  proof -
    have "ts_of tx v \<le> ti_ts (tx txn)" if "v \<in> set (rl_waiters rl)" for v
      using assms(1) older \<open>alg = WAIT_DIE\<close> that
      by (cases "rl_waiters rl") (auto simp: rl_inv_def rl_ordered_def intro: order.trans)
    then show ?thesis
      using assms(1) that by (auto simp: rl_inv_def rl_ordered_def)
  qed
  ultimately show ?thesis
    using assms(1) by (simp add: rl_inv_def)
qed

lemma rl_inv_enqueue:
  assumes "rl_inv alg n tx rl" "type \<noteq> LOCK_NONE" "alg \<noteq> NO_WAIT"
    and "\<not> rl_member txn (rl_owners rl @ rl_waiters rl)"
    and "length (rl_owners rl) + length (rl_waiters rl) < n"
    and "length ws = Suc (length (rl_waiters rl))" "mset ws = add_mset entry (mset (rl_waiters rl))"
    and "entry = \<lparr>le_type = type, le_txn = txn\<rparr>"
    and "rl_blocked (rl\<lparr>rl_waiters := ws\<rparr>)" "alg = WAIT_DIE \<longrightarrow> rl_ordered tx (rl\<lparr>rl_waiters := ws\<rparr>)"
  shows "rl_inv alg n (rl_wait tx txn) (rl\<lparr>rl_waiters := ws, rl_waiter_cnt := rl_waiter_cnt rl + 1\<rparr>)"
    (is "rl_inv _ _ _ ?rl")
proof -
  have set_ws: "set ws = insert entry (set (rl_waiters rl))"
    using assms(7) by (metis set_mset_mset set_mset_add_mset_insert)
  have "distinct (map le_txn ws) \<longleftrightarrow> distinct (map le_txn (entry # rl_waiters rl))"
    using assms(7) by (intro mset_eq_imp_distinct_iff) simp
  then have "rl_counts n ?rl"
    using assms(1,4,5,6,8) set_ws by (auto simp: rl_inv_def rl_counts_def)
  moreover have "rl_compat ?rl"
    using assms(1,2,8) set_ws by (auto simp: rl_inv_def rl_compat_def)
  moreover have "rl_blocked ?rl"
    using assms(9) by (simp add: rl_blocked_def split: list.splits)
  moreover have "rl_ordered (rl_wait tx txn) ?rl" if "alg = WAIT_DIE"
    using assms(10) that by (simp add: rl_ordered_def)
  ultimately show ?thesis
    using assms(1,3,8) set_ws by (auto simp: rl_inv_def)
qed

lemma mset_rl_insert_waiter: "mset (rl_insert_waiter tx e es) = add_mset e (mset es)"
  by (induction es) auto

lemma rl_blocked_insert:
  assumes "rl_blocked rl" "rl_conflict WAIT_DIE tx rl type txn"
  shows "rl_blocked (rl\<lparr>rl_waiters := rl_insert_waiter tx \<lparr>le_type = type, le_txn = txn\<rparr> (rl_waiters rl)\<rparr>)"
  using assms
  by (auto simp: rl_blocked_def rl_conflict_def Let_def split: list.splits if_splits)

lemma rl_blocked_tail:
  assumes "rl_blocked rl" "rl_conflict DL_DETECT tx rl type txn"
  shows "rl_blocked (rl\<lparr>rl_waiters := rl_waiters rl @ [\<lparr>le_type = type, le_txn = txn\<rparr>]\<rparr>)"
  using assms
  by (auto simp: rl_blocked_def rl_conflict_def Let_def split: list.splits if_splits)

lemma lock_get_spec:
  assumes "rl_inv alg n tx rl" "type \<noteq> LOCK_NONE" "unat g = n"
    and "\<not> rl_member txn (rl_owners rl @ rl_waiters rl)"
    and "length (rl_owners rl) + length (rl_waiters rl) < n"
  shows "\<exists>rc ids rl' tx'. lock_get alg g tx rl type txn = Inr (rc, ids, rl', tx') \<and>
     rl_inv alg n tx' rl' \<and>
     (rc = RCOK \<and> rl_owners rl' = \<lparr>le_type = type, le_txn = txn\<rparr> # rl_owners rl \<and>
        rl_waiters rl' = rl_waiters rl \<and> tx' = tx \<or>
      rc = WAIT \<and> rl_owners rl' = rl_owners rl \<and> tx' = rl_wait tx txn \<and>
        mset (rl_waiters rl') = add_mset \<lparr>le_type = type, le_txn = txn\<rparr> (mset (rl_waiters rl)) \<or>
      rc = Abort \<and> rl' = rl \<and> tx' = tx \<and> rl_conflict alg tx rl type txn \<and>
        (alg = NO_WAIT \<or> (\<exists>e\<in>set (rl_owners rl). ts_of tx e < ti_ts (tx txn))))"
proof -
  let ?e = "\<lparr>le_type = type, le_txn = txn\<rparr>"
  have inv: "\<not> rl_latched rl" "rl_counts n rl" "rl_blocked rl"
    "alg = WAIT_DIE \<longrightarrow> rl_ordered tx rl"
    using assms(1) by (auto simp: rl_inv_def)
  have cnts: "rl_owner_cnt rl \<le> g" "rl_waiter_cnt rl < g"
    using inv(2) assms(3,5)
    by (auto simp: rl_counts_def word_le_nat_alt word_less_nat_alt unat_of_nat_lt)
  note enqueue = rl_inv_enqueue[OF assms(1,2) _ assms(4,5)]
  show ?thesis
  proof (cases "rl_conflict alg tx rl type txn")
    case False
    moreover from this have "alg = DL_DETECT \<longrightarrow> rl_waiters rl = []"
      by (auto simp: rl_conflict_def Let_def split: if_splits)
    ultimately show ?thesis
      using rl_inv_grant[OF assms(1,2) False assms(4,5)] inv(1) cnts
      by (simp add: lock_get_def Let_def)
  next
    case True
    show ?thesis
    proof (cases alg)
      case NO_WAIT
      then show ?thesis
        using True inv(1) cnts assms(1) by (simp add: lock_get_def)
    next
      case DL_DETECT
      have "rl_blocked (rl\<lparr>rl_waiters := rl_waiters rl @ [?e]\<rparr>)"
        using rl_blocked_tail[OF inv(3)] True DL_DETECT by simp
      then show ?thesis
        using enqueue[of "rl_waiters rl @ [?e]" ?e] rl_txnids_nonempty[of n tx rl type txn] True
          inv(1) cnts DL_DETECT assms(1,2) by (simp add: lock_get_def Let_def)
    next
      case WAIT_DIE
      show ?thesis
      proof (cases "rl_canwait tx txn (rl_owners rl)")
        case wait: True
        have "rl_ordered tx (rl\<lparr>rl_waiters := rl_insert_waiter tx ?e (rl_waiters rl)\<rparr>)"
          using inv(4) wait WAIT_DIE
          by (auto simp: rl_ordered_def rl_canwait_iff sorted_rl_insert_waiter)
        moreover have "rl_blocked (rl\<lparr>rl_waiters := rl_insert_waiter tx ?e (rl_waiters rl)\<rparr>)"
          using rl_blocked_insert[OF inv(3)] True WAIT_DIE by simp
        ultimately show ?thesis
          using enqueue[of "rl_insert_waiter tx ?e (rl_waiters rl)" ?e] wait True
            inv(1) cnts WAIT_DIE by (simp add: lock_get_def Let_def mset_rl_insert_waiter)
      next
        case False
        then have "\<exists>e\<in>set (rl_owners rl). ts_of tx e < ti_ts (tx txn)"
          by (auto simp: rl_canwait_iff not_le)
        then show ?thesis
          using False True inv(1) cnts WAIT_DIE assms(1) by (simp add: lock_get_def)
      qed
    qed
  qed
qed

section \<open>Waiting in timestamp order\<close>

text \<open>
  The row lock under \<open>WAIT_DIE\<close> keeps the discipline of the locale \<open>wait_order\<close> as long as
  live transactions have distinct timestamps.
\<close>

definition rl_waits_for :: "row_lock \<Rightarrow> (txn_ptr \<times> txn_ptr) set" where
  "rl_waits_for rl =
     {(le_txn w, le_txn e) | w e. w \<in> set (rl_waiters rl) \<and> e \<in> set (rl_owners rl)} \<union>
     {(le_txn (rl_waiters rl ! i), le_txn (rl_waiters rl ! j)) | i j.
        j < i \<and> i < length (rl_waiters rl)}"

definition rl_live :: "nat \<Rightarrow> txns \<Rightarrow> txn_ptr set \<Rightarrow> row_lock \<Rightarrow> bool" where
  "rl_live n tx T rl \<longleftrightarrow> rl_inv WAIT_DIE n tx rl \<and> inj_on (\<lambda>t. ti_ts (tx t)) T \<and>
     le_txn ` set (rl_owners rl @ rl_waiters rl) \<subseteq> T"

lemma rl_waits_up:
  assumes "rl_live n tx T rl" "(a, b) \<in> rl_waits_for rl"
  shows "ti_ts (tx a) < ti_ts (tx b)"
proof -
  have dist: "distinct (map le_txn (rl_owners rl @ rl_waiters rl))"
    and ord: "rl_ordered tx rl"
    and T: "inj_on (\<lambda>t. ti_ts (tx t)) T" "le_txn ` set (rl_owners rl @ rl_waiters rl) \<subseteq> T"
    using assms(1) by (auto simp: rl_live_def rl_inv_def rl_counts_def)
  have "a \<noteq> b \<and> a \<in> T \<and> b \<in> T \<and> ti_ts (tx a) \<le> ti_ts (tx b)"
    using assms(2) unfolding rl_waits_for_def
  proof
    assume "(a, b) \<in> {(le_txn w, le_txn e) | w e.
        w \<in> set (rl_waiters rl) \<and> e \<in> set (rl_owners rl)}"
    then show ?thesis
      using dist ord T(2) by (auto simp: rl_ordered_def)
  next
    assume "(a, b) \<in> {(le_txn (rl_waiters rl ! i), le_txn (rl_waiters rl ! j)) | i j.
        j < i \<and> i < length (rl_waiters rl)}"
    then obtain i j where ij: "a = le_txn (rl_waiters rl ! i)" "b = le_txn (rl_waiters rl ! j)"
        "j < i" "i < length (rl_waiters rl)" by blast
    then have "a \<noteq> b"
      using dist nth_eq_iff_index_eq[of "map le_txn (rl_waiters rl)" i j] by auto
    moreover have "ti_ts (tx a) \<le> ti_ts (tx b)"
      using ord ij sorted_wrt_nth_less[of "\<lambda>e f. ts_of tx f \<le> ts_of tx e" "rl_waiters rl" j i]
      by (simp add: rl_ordered_def)
    ultimately show ?thesis
      using T(2) ij by auto
  qed
  then show ?thesis
    using T(1) by (metis inj_onD order_le_imp_less_or_eq)
qed

interpretation wd: wait_order "rl_live n tx T" rl_waits_for "\<lambda>a b. ti_ts (tx a) < ti_ts (tx b)"
  for n tx T
  by unfold_locales (simp, erule (1) less_trans, erule (1) rl_waits_up)

section \<open>Runs of a row lock\<close>

text \<open>
  The states of one row's lock under any interleaving of requests and releases: a request comes
  from a transaction that neither owns nor waits for the row, with \<open>g_thread_cnt\<close> bounding the
  transactions at the row; a release comes from one that does. Between the calls the other rows
  may set the \<open>lock_ready\<close> flag of transactions that do not wait here.
\<close>

inductive rl_step :: "lock_alg \<Rightarrow> u32 \<Rightarrow> row_lock \<times> txns \<Rightarrow> row_lock \<times> txns \<Rightarrow> bool"
  for alg :: lock_alg and g :: u32 where
  get: "lock_get alg g tx rl type txn = Inr (rc, ids, rl', tx') \<Longrightarrow> type \<noteq> LOCK_NONE \<Longrightarrow>
     \<not> rl_member txn (rl_owners rl @ rl_waiters rl) \<Longrightarrow>
     length (rl_owners rl) + length (rl_waiters rl) < unat g \<Longrightarrow>
     rl_step alg g (rl, tx) (rl', tx')"
| release: "lock_release tx rl txn = Inr (rc, rl', tx') \<Longrightarrow>
     rl_member txn (rl_owners rl @ rl_waiters rl) \<Longrightarrow> rl_step alg g (rl, tx) (rl', tx')"
| elsewhere: "\<not> rl_member txn (rl_waiters rl) \<Longrightarrow>
     rl_step alg g (rl, tx) (rl, tx(txn := (tx txn)\<lparr>ti_lock_ready := b\<rparr>))"

inductive rl_reach :: "lock_alg \<Rightarrow> u32 \<Rightarrow> row_lock \<times> txns \<Rightarrow> bool"
  for alg :: lock_alg and g :: u32 where
  start: "rl_reach alg g (rl_init, tx)"
| step: "rl_reach alg g s \<Longrightarrow> rl_step alg g s s' \<Longrightarrow> rl_reach alg g s'"

lemma rl_inv_elsewhere:
  assumes "rl_inv alg n tx rl" "\<not> rl_member txn (rl_waiters rl)"
  shows "rl_inv alg n (tx(txn := (tx txn)\<lparr>ti_lock_ready := b\<rparr>)) rl"
proof -
  let ?tx = "tx(txn := (tx txn)\<lparr>ti_lock_ready := b\<rparr>)"
  have "rl_ordered ?tx rl \<longleftrightarrow> rl_ordered tx rl"
    by (rule rl_ordered_ts) simp
  moreover have "\<forall>w\<in>set (rl_waiters rl). \<not> ti_lock_ready (?tx (le_txn w))"
    using assms by (auto simp: rl_inv_def image_iff)
  ultimately show ?thesis
    using assms(1) unfolding rl_inv_def by blast
qed

lemma rl_reach_inv: "rl_reach alg g s \<Longrightarrow> rl_inv alg (unat g) (snd s) (fst s)"
proof (induction rule: rl_reach.induct)
  case (start tx)
  show ?case
    using rl_inv_init unsigned_less[of g] by simp
next
  case (step s s')
  from step(2) show ?case
  proof cases
    case (get tx rl type txn rc ids rl' tx')
    then have "rl_inv alg (unat g) tx rl"
      using step.IH by simp
    from lock_get_spec[OF this get(4) refl get(5,6)] get(2,3) show ?thesis by auto
  next
    case (release tx rl txn rc rl' tx')
    then have "rl_inv alg (unat g) tx rl"
      using step.IH by simp
    from lock_release_spec[OF this release(4)] release(2,3) show ?thesis by auto
  next
    case (elsewhere txn rl tx b)
    then have "rl_inv alg (unat g) tx rl"
      using step.IH by simp
    then show ?thesis
      unfolding elsewhere(2) fst_conv snd_conv by (rule rl_inv_elsewhere[OF _ elsewhere(3)])
  qed
qed

text \<open>Transaction 1 holds the row exclusively and the older transaction 2 waits for it.\<close>

definition tx_ex :: txns where
  "tx_ex t = \<lparr>ti_txn_id = of_nat t, ti_ts = (if t = 1 then 10 else 5), ti_lock_ready = True\<rparr>"

definition rl_ex :: row_lock where
  "rl_ex = \<lparr>rl_lock_type = LOCK_EX, rl_owner_cnt = 1, rl_waiter_cnt = 1,
     rl_owners = [\<lparr>le_type = LOCK_EX, le_txn = 1\<rparr>],
     rl_waiters = [\<lparr>le_type = LOCK_SH, le_txn = 2\<rparr>], rl_latched = False\<rparr>"

lemma rl_ex_reach: "rl_reach WAIT_DIE 4 (rl_ex, rl_wait tx_ex 2)"
proof -
  let ?rl = "rl_init\<lparr>rl_owners := [\<lparr>le_type = LOCK_EX, le_txn = 1\<rparr>], rl_owner_cnt := 1,
    rl_lock_type := LOCK_EX\<rparr>"
  have "lock_get WAIT_DIE 4 tx_ex rl_init LOCK_EX 1 = Inr (RCOK, [], ?rl, tx_ex)"
    by (simp add: lock_get_def rl_init_def rl_conflict_def conflict_lock_def)
  then have "rl_reach WAIT_DIE 4 (?rl, tx_ex)"
    using rl_reach.step[OF rl_reach.start rl_step.get] by (simp add: rl_init_def)
  moreover have "lock_get WAIT_DIE 4 tx_ex ?rl LOCK_SH 2 = Inr (WAIT, [], rl_ex, rl_wait tx_ex 2)"
    by (simp add: lock_get_def rl_init_def rl_conflict_def conflict_lock_def rl_ex_def tx_ex_def)
  then have "rl_step WAIT_DIE 4 (?rl, tx_ex) (rl_ex, rl_wait tx_ex 2)"
    by (rule rl_step.get) (simp_all add: rl_init_def)
  ultimately show ?thesis
    by (rule rl_reach.step)
qed

section \<open>Properties\<close>

text \<open>
  C4: Mutual exclusion and no lost wake-up of the row lock. In every reachable state of a row's
  lock two different owners both hold it shared; the 32-bit counters are the lengths of the
  lists; and whenever transactions wait, the row is owned and the first waiter's request really
  conflicts with the lock, so no waiter is left behind that could have been granted.
\<close>

theorem row_lock_exclusion:
  assumes "rl_reach alg g (rl, tx)"
  shows "(\<forall>e\<in>set (rl_owners rl). \<forall>f\<in>set (rl_owners rl). e \<noteq> f \<longrightarrow>
            le_type e = LOCK_SH \<and> le_type f = LOCK_SH) \<and>
     unat (rl_owner_cnt rl) = length (rl_owners rl) \<and>
     unat (rl_waiter_cnt rl) = length (rl_waiters rl) \<and>
     (\<forall>w ws. rl_waiters rl = w # ws \<longrightarrow> rl_owners rl \<noteq> [] \<and>
        (\<forall>e\<in>set (rl_owners rl). conflict_lock (le_type e) (le_type w)))"
proof -
  have inv: "rl_counts (unat g) rl" "rl_compat rl" "rl_blocked rl"
    using rl_reach_inv[OF assms] by (auto simp: rl_inv_def)
  have "le_type e = LOCK_SH \<and> le_type f = LOCK_SH"
    if "e \<in> set (rl_owners rl)" "f \<in> set (rl_owners rl)" "e \<noteq> f" for e f
  proof -
    have "le_type e = rl_lock_type rl" "le_type f = rl_lock_type rl"
      "rl_lock_type rl \<noteq> LOCK_NONE" "length (rl_owners rl) \<noteq> 1"
      using inv(2) that by (auto simp: rl_compat_def length_Suc_conv)
    then show ?thesis
      using inv(2) by (cases "rl_lock_type rl") (auto simp: rl_compat_def)
  qed
  moreover have "rl_owners rl \<noteq> [] \<and>
      (\<forall>e\<in>set (rl_owners rl). conflict_lock (le_type e) (le_type w))" if "rl_waiters rl = w # ws"
    for w ws
    using inv(2,3) that by (auto simp: rl_compat_def rl_blocked_def conflict_lock_iff)
  moreover have "unat (rl_owner_cnt rl) = length (rl_owners rl)"
    "unat (rl_waiter_cnt rl) = length (rl_waiters rl)"
    using inv(1) by (auto simp: rl_counts_def unat_of_nat_lt)
  ultimately show ?thesis by blast
qed

theorem row_lock_exclusion_witness:
  "conflict_lock LOCK_EX LOCK_SH \<and> unat (rl_waiter_cnt rl_ex) = 1"
  using row_lock_exclusion[OF rl_ex_reach] by (simp add: rl_ex_def)

text \<open>
  C9: The lock operations never stop at an assertion of the source and always answer. In every
  reachable state a request by a transaction that is not at the row yet (with fewer than
  \<open>g_thread_cnt\<close> there) is granted, queued or refused as coded; a refusal happens only on a
  conflict, and under \<open>WAIT_DIE\<close> only to a transaction younger than some owner; and a release
  by a transaction at the row succeeds and wakes exactly the waiters that become owners.
\<close>

theorem row_lock_total:
  assumes "rl_reach alg g (rl, tx)"
  shows "(type \<noteq> LOCK_NONE \<and> \<not> rl_member txn (rl_owners rl @ rl_waiters rl) \<and>
      length (rl_owners rl) + length (rl_waiters rl) < unat g \<longrightarrow>
      (\<exists>rc ids rl' tx'. lock_get alg g tx rl type txn = Inr (rc, ids, rl', tx') \<and>
        (rc = RCOK \<and> rl_member txn (rl_owners rl') \<or>
         rc = WAIT \<and> rl_member txn (rl_waiters rl') \<or>
         rc = Abort \<and> rl_conflict alg tx rl type txn \<and> rl' = rl \<and> tx' = tx \<and>
           (alg = NO_WAIT \<or> (\<exists>e\<in>set (rl_owners rl). ts_of tx e < ti_ts (tx txn)))))) \<and>
    (rl_member txn (rl_owners rl @ rl_waiters rl) \<longrightarrow>
      (\<exists>rl' tx'. lock_release tx rl txn = Inr (RCOK, rl', tx') \<and>
        \<not> rl_member txn (rl_owners rl' @ rl_waiters rl') \<and>
        (\<forall>t. t \<noteq> txn \<and> rl_member t (rl_waiters rl) \<longrightarrow>
          ti_lock_ready (tx' t) = rl_member t (rl_owners rl'))))"
proof (intro conjI impI; (elim conjE)?)
  have inv: "rl_inv alg (unat g) tx rl"
    using rl_reach_inv[OF assms] by simp
  {
    assume A: "type \<noteq> LOCK_NONE" "\<not> rl_member txn (rl_owners rl @ rl_waiters rl)"
      "length (rl_owners rl) + length (rl_waiters rl) < unat g"
    show "\<exists>rc ids rl' tx'. lock_get alg g tx rl type txn = Inr (rc, ids, rl', tx') \<and>
        (rc = RCOK \<and> rl_member txn (rl_owners rl') \<or>
         rc = WAIT \<and> rl_member txn (rl_waiters rl') \<or>
         rc = Abort \<and> rl_conflict alg tx rl type txn \<and> rl' = rl \<and> tx' = tx \<and>
           (alg = NO_WAIT \<or> (\<exists>e\<in>set (rl_owners rl). ts_of tx e < ti_ts (tx txn))))"
      using lock_get_spec[OF inv A(1) refl A(2,3)]
      by (elim exE conjE disjE; (fastforce dest: mset_eq_setD simp flip: set_mset_mset)?)
  next
    assume B: "rl_member txn (rl_owners rl @ rl_waiters rl)"
    obtain rl' tx' pre where run: "lock_release tx rl txn = Inr (RCOK, rl', tx')"
      "filter (\<lambda>e. le_txn e \<noteq> txn) (rl_waiters rl) = pre @ rl_waiters rl'"
      "rl_owners rl' = rev pre @ filter (\<lambda>e. le_txn e \<noteq> txn) (rl_owners rl)"
      "\<forall>t. ti_lock_ready (tx' t) = (ti_lock_ready (tx t) \<or> rl_member t pre)"
      using lock_release_spec[OF inv B] by blast
    have left: "set pre \<union> set (rl_waiters rl') = {e\<in>set (rl_waiters rl). le_txn e \<noteq> txn}"
      using arg_cong[OF run(2), of set] by auto
    have "ti_lock_ready (tx' t) = rl_member t (rl_owners rl')"
      if "t \<noteq> txn" "rl_member t (rl_waiters rl)" for t
      using inv run(3,4) that unfolding rl_inv_def rl_counts_def by auto
    then show "\<exists>rl' tx'. lock_release tx rl txn = Inr (RCOK, rl', tx') \<and>
        \<not> rl_member txn (rl_owners rl' @ rl_waiters rl') \<and>
        (\<forall>t. t \<noteq> txn \<and> rl_member t (rl_waiters rl) \<longrightarrow>
          ti_lock_ready (tx' t) = rl_member t (rl_owners rl'))"
      using run(1,3) left by (intro exI[of _ rl'] exI[of _ tx']) auto
  }
qed

theorem row_lock_total_witness:
  "\<exists>rl' tx'. lock_release (rl_wait tx_ex 2) rl_ex 1 = Inr (RCOK, rl', tx') \<and>
     \<not> rl_member 1 (rl_owners rl')"
  using row_lock_total[OF rl_ex_reach, of LOCK_SH 1] by (auto simp: rl_ex_def)

text \<open>
  C2: \<open>WAIT_DIE\<close> does not deadlock. For any set of rows whose locks are reachable with a common
  view of the transactions, and live transactions with distinct timestamps, the union over the
  rows of who waits for whom has no cycle.
\<close>

theorem wait_die_no_deadlock:
  assumes "\<forall>rl\<in>R. rl_reach WAIT_DIE g (rl, tx)"
    and "\<forall>rl\<in>R. le_txn ` set (rl_owners rl @ rl_waiters rl) \<subseteq> T"
    and "inj_on (\<lambda>t. ti_ts (tx t)) T"
  shows "acyclic (\<Union>rl\<in>R. rl_waits_for rl)"
proof (rule wd.no_cycle[of _ "unat g" tx T])
  show "\<forall>rl\<in>R. rl_live (unat g) tx T rl"
    using assms rl_reach_inv[of WAIT_DIE g] by (fastforce simp: rl_live_def)
qed

theorem wait_die_no_deadlock_witness:
  "(2, 1) \<in> rl_waits_for rl_ex \<and> acyclic (rl_waits_for rl_ex)"
proof
  show "(2, 1) \<in> rl_waits_for rl_ex"
    by (auto simp: rl_waits_for_def rl_ex_def)
  have "inj_on (\<lambda>t. ti_ts (rl_wait tx_ex 2 t)) {1, 2}"
    by (simp add: tx_ex_def)
  moreover have "le_txn ` set (rl_owners rl_ex @ rl_waiters rl_ex) \<subseteq> {1, 2}"
    by (simp add: rl_ex_def)
  ultimately show "acyclic (rl_waits_for rl_ex)"
    using wait_die_no_deadlock[of "{rl_ex}" 4 "rl_wait tx_ex 2" "{1, 2}"] rl_ex_reach by simp
qed

end
