(* ===== verification/Part_Lock.thy ===== *)
theory Part_Lock
  imports Wait_Order
begin

text \<open>
  Partition locks, \<open>trusted/concurrency_control/plock.h\<close> and \<open>plock.cpp\<close> (\<open>CC_ALG == HSTORE\<close>): a
  transaction locks all the partitions of its query before it runs and unlocks them afterwards
  (\<open>run_txn_ecall\<close>, \<open>trusted/system/thread_enc.cpp\<close>). \<open>PartMan\<close> keeps the owner of a partition and
  the array of its waiters in timestamp order; \<open>Plock\<close> calls the partitions' managers one after the
  other and spins until the transaction's \<open>ready_part\<close> is zero.

  A transaction is named by its thread, since every thread has one \<open>txn_man\<close>. The methods of
  \<open>PartMan\<close> run under its latch and are functions here; \<open>Plock\<close> is a transition function in which one
  step of a thread is one call of a partition's manager, so that the threads interleave between the
  calls as they do in the program.
\<close>

section \<open>The manager of a partition\<close>

record part_man =
  pm_owner :: "nat option"
  pm_waiters :: "nat list"
  pm_waiter_cnt :: nat

text \<open>\<open>malloc\<close> leaves the array of waiters with arbitrary content.\<close>

definition pm_init :: "nat list \<Rightarrow> part_man" where
  "pm_init junk = \<lparr>pm_owner = None, pm_waiters = junk, pm_waiter_cnt = 0\<rparr>"

fun shift_in :: "(nat \<Rightarrow> ts_t) \<Rightarrow> nat \<Rightarrow> nat \<Rightarrow> nat list \<Rightarrow> nat list" where
  "shift_in ts txn 0 ws = ws[0 := txn]"
| "shift_in ts txn (Suc i) ws =
    (if ts (ws ! i) < ts txn then ws[Suc i := txn] else shift_in ts txn i (ws[Suc i := ws ! i]))"

definition pm_lock :: "nat \<Rightarrow> (nat \<Rightarrow> ts_t) \<Rightarrow> nat \<Rightarrow> part_man \<Rightarrow> (nat \<Rightarrow> int) \<Rightarrow>
    (RC \<times> part_man \<times> (nat \<Rightarrow> int)) res" where
  "pm_lock g_thread_cnt ts txn m ready =
    (case pm_owner m of
       None \<Rightarrow> Inr (RCOK, m\<lparr>pm_owner := Some txn\<rparr>, ready)
     | Some owner \<Rightarrow>
         if ts owner < ts txn then
           assert_res (pm_waiter_cnt m < g_thread_cnt)
             (Inr (WAIT, m\<lparr>pm_waiters := shift_in ts txn (pm_waiter_cnt m) (pm_waiters m),
                           pm_waiter_cnt := pm_waiter_cnt m + 1\<rparr>, ready(txn := ready txn + 1)))
         else Inr (Abort, m, ready))"

text \<open>The loops of \<open>unlock\<close>, from index \<open>i\<close> on with a number of iterations left.\<close>

fun advance :: "(nat \<Rightarrow> ts_t) \<Rightarrow> nat \<Rightarrow> nat \<Rightarrow> nat list \<Rightarrow> nat list res" where
  "advance ts i 0 ws = Inr ws"
| "advance ts i (Suc k) ws =
    assert_res (ts (ws ! i) < ts (ws ! Suc i)) (advance ts (Suc i) k (ws[i := ws ! Suc i]))"

fun remove_waiter :: "nat \<Rightarrow> nat \<Rightarrow> nat \<Rightarrow> nat \<Rightarrow> bool \<Rightarrow> nat list \<Rightarrow> bool \<times> nat list" where
  "remove_waiter txn cnt i 0 found ws = (found, ws)"
| "remove_waiter txn cnt i (Suc k) found ws =
    (let found' = (found \<or> ws ! i = txn) in
     remove_waiter txn cnt (Suc i) k found' (if found' \<and> i < cnt - 1 then ws[i := ws ! Suc i] else ws))"

definition pm_unlock :: "(nat \<Rightarrow> ts_t) \<Rightarrow> nat \<Rightarrow> part_man \<Rightarrow> (nat \<Rightarrow> int) \<Rightarrow> (part_man \<times> (nat \<Rightarrow> int)) res" where
  "pm_unlock ts txn m ready =
    (if pm_owner m = Some txn then
       if pm_waiter_cnt m = 0 then Inr (m\<lparr>pm_owner := None\<rparr>, ready)
       else
         let owner = pm_waiters m ! 0 in
         bind_res (advance ts 0 (pm_waiter_cnt m - 1) (pm_waiters m)) (\<lambda>ws.
           Inr (m\<lparr>pm_owner := Some owner, pm_waiters := ws, pm_waiter_cnt := pm_waiter_cnt m - 1\<rparr>,
                ready(owner := ready owner - 1)))
     else
       let (found, ws) = remove_waiter txn (pm_waiter_cnt m) 0 (pm_waiter_cnt m) False (pm_waiters m) in
       assert_res found
         (Inr (m\<lparr>pm_waiters := ws, pm_waiter_cnt := pm_waiter_cnt m - 1\<rparr>, ready(txn := ready txn - 1))))"

section \<open>Locking all partitions of a transaction\<close>

text \<open>
  The position of a thread: outside a transaction, before the \<open>i\<close>-th call of \<open>PartMan::lock\<close>, before
  the \<open>j\<close>-th call of \<open>PartMan::unlock\<close> after the \<open>i\<close>-th lock was refused, in the spin loop, running the
  transaction, before the \<open>i\<close>-th call of \<open>PartMan::unlock\<close> of \<open>Plock::unlock\<close>.
\<close>

datatype pl_pc = Pl_Idle | Pl_Lock nat | Pl_Undo nat nat | Pl_Wait | Pl_Run | Pl_Unlock nat

record plock =
  pl_mans :: "nat \<Rightarrow> part_man"
  pl_ready :: "nat \<Rightarrow> int"
  pl_ts :: "nat \<Rightarrow> ts_t"
  pl_pc :: "nat \<Rightarrow> pl_pc"
  pl_parts :: "nat \<Rightarrow> nat list"

definition plock_init :: "(nat \<Rightarrow> nat list) \<Rightarrow> plock" where
  "plock_init junk = \<lparr>pl_mans = (\<lambda>p. pm_init (junk p)), pl_ready = (\<lambda>_. 0), pl_ts = (\<lambda>_. 0),
    pl_pc = (\<lambda>_. Pl_Idle), pl_parts = (\<lambda>_. [])\<rparr>"

definition plock_begin :: "nat \<Rightarrow> ts_t \<Rightarrow> nat list \<Rightarrow> plock \<Rightarrow> plock" where
  "plock_begin t ts parts s = s\<lparr>pl_ts := (pl_ts s)(t := ts), pl_parts := (pl_parts s)(t := parts),
    pl_pc := (pl_pc s)(t := Pl_Lock 0)\<rparr>"

definition plock_goto :: "nat \<Rightarrow> pl_pc \<Rightarrow> plock \<Rightarrow> plock" where
  "plock_goto t pc s = s\<lparr>pl_pc := (pl_pc s)(t := pc)\<rparr>"

definition plock_call :: "nat \<Rightarrow> part_man \<Rightarrow> (nat \<Rightarrow> int) \<Rightarrow> plock \<Rightarrow> plock" where
  "plock_call p m ready s = s\<lparr>pl_mans := (pl_mans s)(p := m), pl_ready := ready\<rparr>"

definition plock_unlock_part :: "nat \<Rightarrow> nat \<Rightarrow> pl_pc \<Rightarrow> plock \<Rightarrow> plock option res" where
  "plock_unlock_part t p pc s =
    bind_res (pm_unlock (pl_ts s) t (pl_mans s p) (pl_ready s)) (\<lambda>(m, ready).
      Inr (Some (plock_goto t pc (plock_call p m ready s))))"

text \<open>
  One step of thread \<open>t\<close>; \<open>None\<close> when it has nothing to do or spins.
\<close>

definition plock_move :: "nat \<Rightarrow> nat \<Rightarrow> plock \<Rightarrow> plock option res" where
  "plock_move g_thread_cnt t s =
    (let parts = pl_parts s t in
     case pl_pc s t of
       Pl_Idle \<Rightarrow> Inr None
     | Pl_Lock i \<Rightarrow>
         if i < length parts then
           bind_res (pm_lock g_thread_cnt (pl_ts s) t (pl_mans s (parts ! i)) (pl_ready s)) (\<lambda>(rc, m, ready).
             Inr (Some (plock_goto t (if rc = Abort then Pl_Undo i 0 else Pl_Lock (Suc i))
               (plock_call (parts ! i) m ready s))))
         else Inr (Some (plock_goto t Pl_Wait s))
     | Pl_Undo i j \<Rightarrow>
         if j < i then plock_unlock_part t (parts ! j) (Pl_Undo i (Suc j)) s
         else assert_res (pl_ready s t = 0) (Inr (Some (plock_goto t Pl_Idle s)))
     | Pl_Wait \<Rightarrow>
         if 0 < pl_ready s t then Inr None
         else assert_res (pl_ready s t = 0) (Inr (Some (plock_goto t Pl_Run s)))
     | Pl_Run \<Rightarrow> Inr (Some (plock_goto t (Pl_Unlock 0) s))
     | Pl_Unlock i \<Rightarrow>
         if i < length parts then plock_unlock_part t (parts ! i) (Pl_Unlock (Suc i)) s
         else Inr (Some (plock_goto t Pl_Idle s)))"

text \<open>
  The interleavings of \<open>n\<close> threads over \<open>g\<close> partitions: a query names existing partitions once each,
  and a transaction gets a timestamp that no other transaction under way has.
\<close>

inductive plock_reach :: "nat \<Rightarrow> nat \<Rightarrow> plock \<Rightarrow> bool" for n g :: nat where
  start: "\<forall>p. length (junk p) = n \<Longrightarrow> plock_reach n g (plock_init junk)"
| start_txn: "plock_reach n g s \<Longrightarrow> t < n \<Longrightarrow> pl_pc s t = Pl_Idle \<Longrightarrow> distinct parts \<Longrightarrow> set parts \<subseteq> {..<g} \<Longrightarrow>
    (\<forall>u. pl_pc s u \<noteq> Pl_Idle \<longrightarrow> pl_ts s u \<noteq> ts) \<Longrightarrow> plock_reach n g (plock_begin t ts parts s)"
| move: "plock_reach n g s \<Longrightarrow> plock_move n t s = Inr (Some s') \<Longrightarrow> plock_reach n g s'"

section \<open>The array loops\<close>

lemma shift_in_spec:
  assumes "c < length ws"
  shows "length (shift_in ts t c ws) = length ws \<and>
    (\<exists>k\<le>c. take (Suc c) (shift_in ts t c ws) = take k ws @ t # drop k (take c ws) \<and>
      (\<forall>j. k \<le> j \<and> j < c \<longrightarrow> ts t \<le> ts (ws ! j)) \<and> (0 < k \<longrightarrow> ts (ws ! (k - 1)) < ts t)) \<and>
    drop (Suc c) (shift_in ts t c ws) = drop (Suc c) ws"
  using assms
proof (induction c arbitrary: ws)
  case 0
  then show ?case by (cases ws) auto
next
  case (Suc c)
  show ?case
  proof (cases "ts (ws ! c) < ts t")
    case True
    then show ?thesis
      using Suc.prems by (auto simp: take_Suc_conv_app_nth take_update_cancel intro!: exI[of _ "Suc c"])
  next
    case False
    let ?ws = "ws[Suc c := ws ! c]"
    have "c < length ?ws" "length ?ws = length ws" using Suc.prems by simp_all
    with Suc.IH[of ?ws] obtain k where k: "k \<le> c"
        "take (Suc c) (shift_in ts t c ?ws) = take k ?ws @ t # drop k (take c ?ws)"
        "\<forall>j. k \<le> j \<and> j < c \<longrightarrow> ts t \<le> ts (?ws ! j)" "0 < k \<longrightarrow> ts (?ws ! (k - 1)) < ts t"
        "length (shift_in ts t c ?ws) = length ws" "drop (Suc c) (shift_in ts t c ?ws) = drop (Suc c) ?ws"
      by metis
    have "shift_in ts t c ?ws ! Suc c = ws ! c"
      using k(5,6) Suc.prems by (metis Cons_nth_drop_Suc length_list_update list.inject nth_list_update_eq)
    then have "take (Suc (Suc c)) (shift_in ts t c ?ws) = take k ws @ t # drop k (take (Suc c) ws)"
      using k(1,2,5) Suc.prems by (simp add: take_Suc_conv_app_nth[of "Suc c"] take_Suc_conv_app_nth[of c ws] take_update_cancel)
    moreover have "\<forall>j. k \<le> j \<and> j < Suc c \<longrightarrow> ts t \<le> ts (ws ! j)"
      using k(3) False by (auto simp: less_Suc_eq)
    moreover have "drop (Suc (Suc c)) (shift_in ts t c ?ws) = drop (Suc (Suc c)) ws"
      using arg_cong[OF k(6), of "drop 1"] by simp
    moreover have "0 < k \<longrightarrow> ts (ws ! (k - 1)) < ts t" using k(1,4) by auto
    ultimately show ?thesis using False k(1,5) by (auto intro!: exI[of _ k])
  qed
qed

lemma advance_spec:
  assumes "i + k < length ws" "sorted_wrt (\<lambda>a b. ts a < ts b) (take (Suc k) (drop i ws))"
  shows "\<exists>ws'. advance ts i k ws = Inr ws' \<and> length ws' = length ws \<and> take i ws' = take i ws \<and>
    take k (drop i ws') = take k (drop (Suc i) ws)"
  using assms
proof (induction k arbitrary: i ws)
  case (Suc k)
  let ?ws = "ws[i := ws ! Suc i]"
  have d: "take (Suc (Suc k)) (drop i ws) = ws ! i # take (Suc k) (drop (Suc i) ws)"
    "take (Suc k) (drop (Suc i) ws) = ws ! Suc i # take k (drop (Suc (Suc i)) ws)"
    using Suc.prems(1) by (simp_all flip: Cons_nth_drop_Suc)
  have less: "ts (ws ! i) < ts (ws ! Suc i)" and srt: "sorted_wrt (\<lambda>a b. ts a < ts b) (take (Suc k) (drop (Suc i) ?ws))"
    using Suc.prems(2)[unfolded d(1)] d(2) by simp_all
  obtain ws' where ws': "advance ts (Suc i) k ?ws = Inr ws'" "length ws' = length ws"
      "take (Suc i) ws' = take (Suc i) ?ws" "take k (drop (Suc i) ws') = take k (drop (Suc (Suc i)) ?ws)"
    using Suc.IH[of "Suc i" ?ws, OF _ srt] Suc.prems(1) by auto
  have "take i ws' = take i ws" "ws' ! i = ws ! Suc i"
    using arg_cong[OF ws'(3), of "take i"] arg_cong[OF ws'(3), of "\<lambda>xs. xs ! i"] Suc.prems(1) by (simp_all add: min_def)
  moreover have "take (Suc k) (drop i ws') = ws' ! i # take k (drop (Suc i) ws')"
    using Suc.prems(1) ws'(2) by (simp flip: Cons_nth_drop_Suc)
  moreover have "take (Suc k) (drop (Suc i) ws) = ws ! Suc i # take k (drop (Suc (Suc i)) ws)"
    using Suc.prems(1) by (simp flip: Cons_nth_drop_Suc)
  ultimately show ?case using ws' less Suc.prems(1) by simp
qed simp

lemma remove_found:
  assumes "i + k = cnt" "cnt \<le> length ws"
  shows "\<exists>ws'. remove_waiter t cnt i k True ws = (True, ws') \<and> length ws' = length ws \<and> take i ws' = take i ws \<and>
    take (k - 1) (drop i ws') = take (k - 1) (drop (Suc i) ws)"
  using assms
proof (induction k arbitrary: i ws)
  case (Suc k)
  let ?ws = "if i < cnt - 1 then ws[i := ws ! Suc i] else ws"
  have l: "length ?ws = length ws" by simp
  then have "Suc i + k = cnt" "cnt \<le> length ?ws" using Suc.prems by simp_all
  from Suc.IH[OF this, unfolded l] obtain ws' where ws': "remove_waiter t cnt (Suc i) k True ?ws = (True, ws')" "length ws' = length ws"
      "take (Suc i) ws' = take (Suc i) ?ws" "take (k - 1) (drop (Suc i) ws') = take (k - 1) (drop (Suc (Suc i)) ?ws)"
    by blast
  have tk: "take i ws' = take i ws"
    using arg_cong[OF ws'(3), of "take i"] Suc.prems by (simp add: min_def split: if_splits)
  have run: "remove_waiter t cnt i (Suc k) True ws = (True, ws')" using ws'(1) by (simp add: Let_def)
  have "take k (drop i ws') = take k (drop (Suc i) ws)"
  proof (cases k)
    case (Suc k')
    with Suc.prems have "i < cnt - 1" by linarith
    then have upd: "?ws = ws[i := ws ! Suc i]" by (rule if_P)
    have "ws' ! i = ws ! Suc i"
      using arg_cong[OF ws'(3), of "\<lambda>xs. xs ! i"] upd Suc.prems by simp
    moreover have "take k (drop i ws') = ws' ! i # take k' (drop (Suc i) ws')"
      using Suc Suc.prems ws'(2) by (simp flip: Cons_nth_drop_Suc)
    moreover have "take k (drop (Suc i) ws) = ws ! Suc i # take k' (drop (Suc (Suc i)) ws)"
      using Suc Suc.prems by (simp flip: Cons_nth_drop_Suc)
    moreover have "take k' (drop (Suc i) ws') = take k' (drop (Suc (Suc i)) ws)"
      using ws'(4) upd Suc by simp
    ultimately show ?thesis by simp
  qed simp
  with run ws'(2) tk show ?case by simp
qed simp

lemma remove_waiter_spec:
  assumes "i + k = cnt" "cnt \<le> length ws" "t \<in> set (take k (drop i ws))"
  shows "\<exists>ws'. remove_waiter t cnt i k False ws = (True, ws') \<and> length ws' = length ws \<and> take i ws' = take i ws \<and>
    take (k - 1) (drop i ws') = remove1 t (take k (drop i ws))"
  using assms
proof (induction k arbitrary: i ws)
  case (Suc k)
  have d: "take (Suc k) (drop i ws) = ws ! i # take k (drop (Suc i) ws)"
    using Suc.prems(1,2) by (simp flip: Cons_nth_drop_Suc)
  show ?case
  proof (cases "ws ! i = t")
    case True
    have "remove_waiter t cnt i (Suc k) False ws = remove_waiter t cnt i (Suc k) True ws"
      using True by simp
    then show ?thesis using remove_found[OF Suc.prems(1,2), of t] d True by simp
  next
    case False
    then have mem: "t \<in> set (take k (drop (Suc i) ws))" using Suc.prems(3) d by simp
    then obtain ws' where ws': "remove_waiter t cnt (Suc i) k False ws = (True, ws')" "length ws' = length ws"
        "take (Suc i) ws' = take (Suc i) ws" "take (k - 1) (drop (Suc i) ws') = remove1 t (take k (drop (Suc i) ws))"
      using Suc.IH[of "Suc i" ws] Suc.prems(1,2) by auto
    obtain k' where k': "k = Suc k'" using mem by (cases k) auto
    have "take i ws' = take i ws" "ws' ! i = ws ! i"
      using arg_cong[OF ws'(3), of "take i"] arg_cong[OF ws'(3), of "\<lambda>xs. xs ! i"] by (simp_all add: min_def)
    moreover have "take k (drop i ws') = ws' ! i # take k' (drop (Suc i) ws')"
      using k' Suc.prems(1,2) ws'(2) by (simp flip: Cons_nth_drop_Suc)
    ultimately show ?thesis using ws' False d k' by simp
  qed
qed simp

section \<open>Calls of a partition's manager\<close>

definition waiting :: "part_man \<Rightarrow> nat list" where
  "waiting m = take (pm_waiter_cnt m) (pm_waiters m)"

definition members :: "part_man \<Rightarrow> nat set" where
  "members m = set_option (pm_owner m) \<union> set (waiting m)"

text \<open>The waiters stand in timestamp order behind the owner.\<close>

definition pm_ok :: "nat \<Rightarrow> (nat \<Rightarrow> ts_t) \<Rightarrow> part_man \<Rightarrow> bool" where
  "pm_ok n ts m \<longleftrightarrow> length (pm_waiters m) = n \<and> pm_waiter_cnt m \<le> n \<and> sorted_wrt (\<lambda>a b. ts a < ts b) (waiting m) \<and>
     (case pm_owner m of None \<Rightarrow> pm_waiter_cnt m = 0 | Some u \<Rightarrow> \<forall>w\<in>set (waiting m). ts u < ts w)"

lemma pm_ok_distinct:
  assumes "pm_ok n ts m"
  shows "distinct (waiting m)" "\<And>u. pm_owner m = Some u \<Longrightarrow> u \<notin> set (waiting m)" "length (waiting m) = pm_waiter_cnt m"
proof -
  have "distinct xs" if "sorted_wrt (\<lambda>a b. ts a < ts b) xs" for xs using that by (induction xs) auto
  then show "distinct (waiting m)" using assms by (simp add: pm_ok_def)
  show "length (waiting m) = pm_waiter_cnt m" using assms by (simp add: pm_ok_def waiting_def)
  show "u \<notin> set (waiting m)" if "pm_owner m = Some u" for u using assms that by (auto simp: pm_ok_def)
qed

text \<open>What a call does to \<open>ready_part\<close>: it counts the partitions in which a transaction waits.\<close>

definition counted :: "part_man \<Rightarrow> part_man \<Rightarrow> (nat \<Rightarrow> int) \<Rightarrow> (nat \<Rightarrow> int) \<Rightarrow> bool" where
  "counted m m' ready ready' \<longleftrightarrow>
     (\<forall>u. ready' u = ready u + of_bool (u \<in> set (waiting m')) - of_bool (u \<in> set (waiting m)))"

lemma pm_lock_ok:
  assumes ok: "pm_ok n ts m" and t: "t \<notin> members m" "\<forall>u\<in>members m. ts u \<noteq> ts t" and room: "pm_owner m \<noteq> None \<Longrightarrow> pm_waiter_cnt m < n"
  shows "\<exists>rc m' ready'. pm_lock n ts t m ready = Inr (rc, m', ready') \<and> pm_ok n ts m' \<and> counted m m' ready ready' \<and>
    members m' = (if rc = Abort then members m else insert t (members m)) \<and> set (waiting m') \<subseteq> insert t (set (waiting m))"
proof (cases "pm_owner m")
  case None
  then have "waiting m = []" using ok by (simp add: pm_ok_def waiting_def)
  then show ?thesis using None ok by (auto simp: pm_lock_def pm_ok_def members_def waiting_def counted_def)
next
  case (Some u)
  show ?thesis
  proof (cases "ts u < ts t")
    case False
    then show ?thesis using Some ok by (auto simp: pm_lock_def counted_def)
  next
    case True
    let ?c = "pm_waiter_cnt m" let ?ws = "shift_in ts t ?c (pm_waiters m)"
    let ?m = "m\<lparr>pm_waiters := ?ws, pm_waiter_cnt := ?c + 1\<rparr>"
    have c: "?c < length (pm_waiters m)" "?c < n" "length (pm_waiters m) = n" using ok room Some by (auto simp: pm_ok_def)
    obtain k where k: "k \<le> ?c" "take (Suc ?c) ?ws = take k (pm_waiters m) @ t # drop k (waiting m)"
        "\<forall>j. k \<le> j \<and> j < ?c \<longrightarrow> ts t \<le> ts (pm_waiters m ! j)" "0 < k \<longrightarrow> ts (pm_waiters m ! (k - 1)) < ts t" "length ?ws = n"
      using shift_in_spec[OF c(1), of ts t] c(3) unfolding waiting_def by auto
    have w: "waiting ?m = take k (waiting m) @ t # drop k (waiting m)" using k(1,2) by (simp add: waiting_def min_def)
    then have set: "set (waiting ?m) = insert t (set (waiting m))" by (simp, metis Un_commute append_take_drop_id set_append)
    have srt: "sorted_wrt (\<lambda>a b. ts a < ts b) (take k (waiting m) @ drop k (waiting m))" "\<forall>x\<in>set (waiting m). ts u < ts x"
      using ok Some by (simp_all add: pm_ok_def)
    have lw: "length (waiting m) = ?c" using pm_ok_distinct(3)[OF ok] .
    have lo: "ts x < ts t" if x: "x \<in> set (take k (waiting m))" for x
    proof -
      obtain i where i: "i < k" "x = waiting m ! i" "i < ?c" using x lw k(1) by (auto simp: in_set_conv_nth)
      have "ts (waiting m ! (k - 1)) < ts t" using k(1,4) i by (simp add: waiting_def)
      moreover have "i = k - 1 \<or> ts (waiting m ! i) < ts (waiting m ! (k - 1))"
        using sorted_wrt_nth_less[of "\<lambda>a b. ts a < ts b" "waiting m" i "k - 1"] srt(1) i(1) lw k(1) by (cases "i = k - 1") auto
      ultimately show ?thesis using i(2) by auto
    qed
    have hi: "ts t < ts x" if x: "x \<in> set (drop k (waiting m))" for x
    proof -
      obtain i where i: "i < length (drop k (waiting m))" "x = drop k (waiting m) ! i" using x unfolding in_set_conv_nth by blast
      then have i: "k + i < ?c" "x = waiting m ! (k + i)" using lw by auto
      then have "ts t \<le> ts x" using k(3) by (simp add: waiting_def)
      moreover have "ts x \<noteq> ts t" using t(2) in_set_dropD[OF x] by (simp add: members_def)
      ultimately show ?thesis by simp
    qed
    have "sorted_wrt (\<lambda>a b. ts a < ts b) (waiting ?m)"
      using srt(1) lo hi less_trans[OF lo hi] unfolding w
      by (auto simp: sorted_wrt_append sorted_wrt_take sorted_wrt_drop)
    then have "pm_ok n ts ?m" using ok Some c(2) k(5) True srt(2) set by (simp add: pm_ok_def)
    moreover have "pm_lock n ts t m ready = Inr (WAIT, ?m, ready(t := ready t + 1))" using Some True c(2) by (simp add: pm_lock_def)
    moreover have "counted m ?m ready (ready(t := ready t + 1))" using set t(1) by (auto simp: counted_def members_def)
    moreover have "members ?m = insert t (members m)" using set by (auto simp: members_def)
    ultimately show ?thesis using set by auto
  qed
qed

lemma pm_unlock_owner:
  assumes ok: "pm_ok n ts m" and t: "pm_owner m = Some t"
  shows "\<exists>m' ready'. pm_unlock ts t m ready = Inr (m', ready') \<and> pm_ok n ts m' \<and> counted m m' ready ready' \<and>
    members m' = members m - {t} \<and> set (waiting m') \<subseteq> set (waiting m)"
proof (cases "pm_waiter_cnt m")
  case 0
  then have "waiting m = []" by (simp add: waiting_def)
  moreover have "waiting (m\<lparr>pm_owner := None\<rparr>) = []" using 0 by (simp add: waiting_def)
  ultimately show ?thesis using t ok 0 by (simp add: pm_unlock_def pm_ok_def members_def counted_def)
next
  case (Suc c)
  note d = pm_ok_distinct[OF ok]
  have l: "0 + c < length (pm_waiters m)" "length (pm_waiters m) = n" using ok Suc by (auto simp: pm_ok_def)
  have srt: "sorted_wrt (\<lambda>a b. ts a < ts b) (take (Suc c) (drop 0 (pm_waiters m)))" using ok Suc by (simp add: pm_ok_def waiting_def)
  obtain ws where ws: "advance ts 0 c (pm_waiters m) = Inr ws" "length ws = n" "take c ws = take c (drop 1 (pm_waiters m))"
    using advance_spec[OF l(1) srt] l(2) by auto
  define o1 where "o1 = pm_waiters m ! 0"
  define m' where "m' = m\<lparr>pm_owner := Some o1, pm_waiters := ws, pm_waiter_cnt := c\<rparr>"
  have w: "waiting m = o1 # waiting m'" using Suc ws(3) l unfolding o1_def m'_def by (cases "pm_waiters m") (simp_all add: waiting_def)
  have "\<forall>x\<in>set (waiting m'). ts o1 < ts x" "sorted_wrt (\<lambda>a b. ts a < ts b) (waiting m')" using ok by (simp_all add: pm_ok_def w)
  then have "pm_ok n ts m'" using ok ws(2) Suc by (simp add: pm_ok_def m'_def)
  moreover have "pm_unlock ts t m ready = Inr (m', ready(o1 := ready o1 - 1))"
    using t Suc ws(1) by (simp add: pm_unlock_def Let_def m'_def o1_def)
  moreover have "counted m m' ready (ready(o1 := ready o1 - 1))"
    using d(1) by (simp add: counted_def w)
  moreover have "members m' = members m - {t}"
  proof -
    have "t \<noteq> o1" "t \<notin> set (waiting m')" using d(2)[OF t] by (simp_all add: w)
    then show ?thesis using t by (auto simp: members_def w) (simp_all add: m'_def)
  qed
  ultimately show ?thesis using w by auto
qed

lemma pm_unlock_waiter:
  assumes ok: "pm_ok n ts m" and t: "t \<in> set (waiting m)"
  shows "\<exists>m' ready'. pm_unlock ts t m ready = Inr (m', ready') \<and> pm_ok n ts m' \<and> counted m m' ready ready' \<and>
    members m' = members m - {t} \<and> set (waiting m') \<subseteq> set (waiting m)"
proof -
  let ?c = "pm_waiter_cnt m"
  note d = pm_ok_distinct[OF ok]
  have no: "pm_owner m \<noteq> Some t" using d(2) t by blast
  have l: "0 + ?c = ?c" "?c \<le> length (pm_waiters m)" "length (pm_waiters m) = n" using ok by (auto simp: pm_ok_def)
  obtain ws where ws: "remove_waiter t ?c 0 ?c False (pm_waiters m) = (True, ws)" "length ws = n" "take (?c - 1) ws = remove1 t (waiting m)"
    using remove_waiter_spec[OF l(1,2), of t] t l(3) by (auto simp: waiting_def)
  define m' where "m' = m\<lparr>pm_waiters := ws, pm_waiter_cnt := ?c - 1\<rparr>"
  have w: "waiting m' = remove1 t (waiting m)" using ws(3) by (simp add: waiting_def m'_def)
  then have set: "set (waiting m') = set (waiting m) - {t}" using d(1) by simp
  have "remove1 t (waiting m) = filter (\<lambda>x. x \<noteq> t) (waiting m)"
    using distinct_remove1_removeAll[OF d(1), of t] by (simp add: removeAll_filter_not_eq eq_commute)
  then have "sorted_wrt (\<lambda>a b. ts a < ts b) (waiting m')" using ok by (simp add: pm_ok_def w sorted_wrt_filter)
  moreover have "pm_owner m' = pm_owner m" "length (pm_waiters m') = n" "pm_waiter_cnt m' = ?c - 1" using ws(2) by (simp_all add: m'_def)
  ultimately have "pm_ok n ts m'" using ok set by (auto simp: pm_ok_def split: option.splits)
  moreover have "pm_unlock ts t m ready = Inr (m', ready(t := ready t - 1))" using no ws(1) by (simp add: pm_unlock_def Let_def m'_def)
  moreover have "counted m m' ready (ready(t := ready t - 1))" using t by (simp add: counted_def set)
  moreover have "members m' = members m - {t}" using no by (auto simp: members_def set) (simp_all add: m'_def)
  ultimately show ?thesis using set by auto
qed

lemma pm_unlock_ok:
  assumes "pm_ok n ts m" "t \<in> members m"
  shows "\<exists>m' ready'. pm_unlock ts t m ready = Inr (m', ready') \<and> pm_ok n ts m' \<and> counted m m' ready ready' \<and>
    members m' = members m - {t} \<and> set (waiting m') \<subseteq> set (waiting m)"
proof (cases "pm_owner m = Some t")
  case False
  then show ?thesis using assms pm_unlock_waiter[OF assms(1)] by (simp add: members_def)
qed (rule pm_unlock_owner[OF assms(1)])

section \<open>The invariant\<close>

text \<open>The partitions whose managers know the transaction, by the position of its thread.\<close>

fun pl_held :: "pl_pc \<Rightarrow> nat list \<Rightarrow> nat list" where
  "pl_held Pl_Idle parts = []"
| "pl_held (Pl_Lock i) parts = take i parts"
| "pl_held (Pl_Undo i j) parts = drop j (take i parts)"
| "pl_held Pl_Wait parts = parts"
| "pl_held Pl_Run parts = parts"
| "pl_held (Pl_Unlock i) parts = drop i parts"

fun running :: "pl_pc \<Rightarrow> bool" where
  "running Pl_Run = True" | "running (Pl_Unlock i) = True" | "running _ = False"

fun pc_ok :: "pl_pc \<Rightarrow> nat \<Rightarrow> bool" where
  "pc_ok (Pl_Lock i) k = (i \<le> k)" | "pc_ok (Pl_Undo i j) k = (j \<le> i \<and> i < k)" | "pc_ok (Pl_Unlock i) k = (i \<le> k)" | "pc_ok _ k = True"

definition thread_ok :: "nat \<Rightarrow> nat \<Rightarrow> plock \<Rightarrow> nat \<Rightarrow> bool" where
  "thread_ok n g s t \<longleftrightarrow> t < n \<and> distinct (pl_parts s t) \<and> set (pl_parts s t) \<subseteq> {..<g} \<and> pc_ok (pl_pc s t) (length (pl_parts s t))"

definition pl_active :: "plock \<Rightarrow> nat set" where
  "pl_active s = {t. pl_pc s t \<noteq> Pl_Idle}"

definition plock_inv :: "nat \<Rightarrow> nat \<Rightarrow> plock \<Rightarrow> bool" where
  "plock_inv n g s \<longleftrightarrow> (\<forall>p. pm_ok n (pl_ts s) (pl_mans s p)) \<and>
     (\<forall>p t. t \<in> members (pl_mans s p) \<longleftrightarrow> p \<in> set (pl_held (pl_pc s t) (pl_parts s t))) \<and>
     (\<forall>t. pl_ready s t = (\<Sum>p<g. of_bool (t \<in> set (waiting (pl_mans s p))))) \<and>
     (\<forall>t p. running (pl_pc s t) \<longrightarrow> t \<notin> set (waiting (pl_mans s p))) \<and>
     (\<forall>t\<in>pl_active s. thread_ok n g s t) \<and> inj_on (pl_ts s) (pl_active s)"

lemma pl_held_subset: "set (pl_held pc parts) \<subseteq> set parts"
  by (cases pc) (auto dest: in_set_takeD in_set_dropD)

lemma member_active: "plock_inv n g s \<Longrightarrow> t \<in> members (pl_mans s p) \<Longrightarrow> t \<in> pl_active s"
  by (force simp: plock_inv_def pl_active_def)

lemma member_part:
  assumes "plock_inv n g s" "t \<in> members (pl_mans s p)"
  shows "p < g" "p \<in> set (pl_parts s t)"
proof -
  have "p \<in> set (pl_held (pl_pc s t) (pl_parts s t))" using assms by (simp add: plock_inv_def)
  then show part: "p \<in> set (pl_parts s t)" using pl_held_subset by blast
  have "thread_ok n g s t" using assms(1) member_active[OF assms] unfolding plock_inv_def by blast
  then show "p < g" using part by (auto simp: thread_ok_def)
qed

lemma ready_zero:
  assumes "plock_inv n g s"
  shows "0 \<le> pl_ready s t" "pl_ready s t = 0 \<longleftrightarrow> (\<forall>p. t \<notin> set (waiting (pl_mans s p)))"
proof -
  have r: "pl_ready s t = (\<Sum>p<g. of_bool (t \<in> set (waiting (pl_mans s p))))" using assms by (simp add: plock_inv_def)
  show "0 \<le> pl_ready s t" unfolding r by (rule sum_nonneg) simp
  have "pl_ready s t = 0 \<longleftrightarrow> (\<forall>p<g. t \<notin> set (waiting (pl_mans s p)))"
    unfolding r by (subst sum_nonneg_eq_0_iff) auto
  then show "pl_ready s t = 0 \<longleftrightarrow> (\<forall>p. t \<notin> set (waiting (pl_mans s p)))"
    using member_part(1)[OF assms] by (auto simp: members_def)
qed

lemma init_inv: "\<forall>p. length (junk p) = n \<Longrightarrow> plock_inv n g (plock_init junk)"
  by (simp add: plock_inv_def plock_init_def pm_init_def pm_ok_def waiting_def members_def pl_active_def)

lemma pm_ok_ts: "\<forall>u\<in>members m. ts' u = ts u \<Longrightarrow> pm_ok n ts' m = pm_ok n ts m"
  unfolding pm_ok_def members_def by (auto split: option.splits simp: sorted_wrt_iff_nth_less)

lemma begin_inv:
  assumes inv: "plock_inv n g s" and t: "t < n" "pl_pc s t = Pl_Idle" "distinct parts" "set parts \<subseteq> {..<g}"
    "\<forall>u. pl_pc s u \<noteq> Pl_Idle \<longrightarrow> pl_ts s u \<noteq> ts"
  shows "plock_inv n g (plock_begin t ts parts s)"
proof -
  let ?s = "plock_begin t ts parts s"
  have out: "t \<notin> members (pl_mans s p)" for p using member_active[OF inv, of t p] t(2) by (auto simp: pl_active_def)
  have act: "pl_active ?s = insert t (pl_active s)" by (auto simp: pl_active_def plock_begin_def)
  have "pm_ok n (pl_ts ?s) (pl_mans ?s p)" for p
    using inv out[of p] pm_ok_ts[of "pl_mans s p" "pl_ts ?s" "pl_ts s" n] by (auto simp: plock_inv_def plock_begin_def)
  moreover have "u \<in> members (pl_mans ?s p) \<longleftrightarrow> p \<in> set (pl_held (pl_pc ?s u) (pl_parts ?s u))" for p u
    using inv out[of p] by (cases "u = t") (simp_all add: plock_inv_def plock_begin_def)
  moreover have "\<forall>u p. running (pl_pc ?s u) \<longrightarrow> u \<notin> set (waiting (pl_mans ?s p))" using inv by (simp add: plock_inv_def plock_begin_def)
  moreover have "thread_ok n g ?s u" if "u \<in> pl_active ?s" for u
    using that inv t unfolding act by (cases "u = t") (auto simp: thread_ok_def plock_begin_def plock_inv_def)
  moreover have "inj_on (pl_ts ?s) (pl_active ?s)"
    using inv t(2,5) unfolding act by (auto simp: inj_on_def plock_inv_def plock_begin_def pl_active_def)
  ultimately show ?thesis using inv by (simp add: plock_inv_def) (simp add: plock_begin_def)
qed

lemma goto_inv:
  assumes inv: "plock_inv n g s" and t: "t \<in> pl_active s" "set (pl_held pc (pl_parts s t)) = set (pl_held (pl_pc s t) (pl_parts s t))"
    "pc_ok pc (length (pl_parts s t))" "running pc \<longrightarrow> pl_ready s t = 0"
  shows "plock_inv n g (plock_goto t pc s)"
proof -
  let ?s = "plock_goto t pc s"
  have eq: "pl_mans ?s = pl_mans s" "pl_ready ?s = pl_ready s" "pl_ts ?s = pl_ts s" "pl_parts ?s = pl_parts s" by (simp_all add: plock_goto_def)
  have act: "pl_active ?s \<subseteq> pl_active s" using t(1) by (auto simp: pl_active_def plock_goto_def)
  have "u \<in> members (pl_mans ?s p) \<longleftrightarrow> p \<in> set (pl_held (pl_pc ?s u) (pl_parts ?s u))" for p u
    using inv t(2) by (cases "u = t") (simp_all add: plock_inv_def plock_goto_def)
  moreover have "u \<notin> set (waiting (pl_mans ?s p))" if "running (pl_pc ?s u)" for u p
    using inv that t(4) ready_zero(2)[OF inv, of t] by (cases "u = t") (auto simp: plock_inv_def plock_goto_def)
  moreover have "thread_ok n g ?s u" if "u \<in> pl_active ?s" for u
    using act that inv t(3) by (cases "u = t") (auto simp: thread_ok_def plock_goto_def plock_inv_def)
  moreover have "inj_on (pl_ts ?s) (pl_active ?s)" using inv act eq(3) by (auto simp: plock_inv_def intro: inj_on_subset)
  ultimately show ?thesis using inv by (simp add: plock_inv_def eq)
qed

text \<open>A call of the manager of partition \<open>q\<close> that changes only the caller's membership.\<close>

lemma call_inv:
  assumes inv: "plock_inv n g s" and t: "t \<in> pl_active s" "pc_ok pc (length (pl_parts s t))" "running pc \<longrightarrow> running (pl_pc s t)" "q < g"
    and m: "pm_ok n (pl_ts s) m'" "counted (pl_mans s q) m' (pl_ready s) ready'" "members m' - {t} = members (pl_mans s q) - {t}"
      "set (waiting m') \<subseteq> insert t (set (waiting (pl_mans s q)))" "running pc \<longrightarrow> t \<notin> members m'"
    and h: "\<forall>p. p \<in> set (pl_held pc (pl_parts s t)) \<longleftrightarrow> (if p = q then t \<in> members m' else p \<in> set (pl_held (pl_pc s t) (pl_parts s t)))"
  shows "plock_inv n g (plock_goto t pc (plock_call q m' ready' s))"
proof -
  let ?s = "plock_goto t pc (plock_call q m' ready' s)"
  have eq: "pl_mans ?s = (pl_mans s)(q := m')" "pl_ready ?s = ready'" "pl_ts ?s = pl_ts s" "pl_parts ?s = pl_parts s" "pl_pc ?s = (pl_pc s)(t := pc)"
    by (simp_all add: plock_goto_def plock_call_def)
  have act: "pl_active ?s \<subseteq> pl_active s" using t(1) by (auto simp: pl_active_def eq)
  have mem: "u \<in> members (pl_mans s p) \<longleftrightarrow> p \<in> set (pl_held (pl_pc s u) (pl_parts s u))" for u p using inv by (simp add: plock_inv_def)
  have "u \<in> members (pl_mans ?s p) \<longleftrightarrow> p \<in> set (pl_held (pl_pc ?s u) (pl_parts ?s u))" for p u
    using m(3) h mem[of u p] by (cases "u = t"; cases "p = q") (auto simp: eq)
  moreover have "pl_ready ?s u = (\<Sum>p<g. of_bool (u \<in> set (waiting (pl_mans ?s p))))" for u
  proof -
    let ?f = "\<lambda>p. of_bool (u \<in> set (waiting (pl_mans s p))) :: int"
    have "(\<Sum>p<g. of_bool (u \<in> set (waiting (pl_mans ?s p)))) = of_bool (u \<in> set (waiting m')) + (\<Sum>p\<in>{..<g} - {q}. ?f p)"
      using t(4) by (subst sum.remove[of _ q]) (auto simp: eq intro!: sum.cong)
    moreover have "pl_ready s u = (\<Sum>p<g. ?f p)" using inv unfolding plock_inv_def by blast
    then have "pl_ready s u = ?f q + (\<Sum>p\<in>{..<g} - {q}. ?f p)"
      using t(4) sum.remove[of "{..<g}" q ?f] by simp
    ultimately show ?thesis using m(2) by (simp add: counted_def eq)
  qed
  moreover have "u \<notin> set (waiting (pl_mans ?s p))" if "running (pl_pc ?s u)" for u p
  proof (cases "u = t")
    case True
    then show ?thesis using that inv t(3) m(5) by (auto simp: eq plock_inv_def members_def)
  next
    case False
    then show ?thesis using that inv m(4) by (auto simp: eq plock_inv_def)
  qed
  moreover have "thread_ok n g ?s u" if "u \<in> pl_active ?s" for u
    using act that inv t(2) by (cases "u = t") (auto simp: thread_ok_def eq plock_inv_def)
  moreover have "inj_on (pl_ts ?s) (pl_active ?s)" using inv act eq(3) by (auto simp: plock_inv_def intro: inj_on_subset)
  moreover have "\<forall>p. pm_ok n (pl_ts ?s) (pl_mans ?s p)" using inv m(1) by (simp add: eq plock_inv_def)
  ultimately show ?thesis unfolding plock_inv_def by blast
qed

section \<open>Steps\<close>

lemma room_for_waiter:
  assumes inv: "plock_inv n g s" and t: "t \<in> pl_active s" "t \<notin> members (pl_mans s p)"
  shows "pm_waiter_cnt (pl_mans s p) < n"
proof -
  have ok: "pm_ok n (pl_ts s) (pl_mans s p)" using inv by (simp add: plock_inv_def)
  have "set (waiting (pl_mans s p)) \<subseteq> {..<n} - {t}"
  proof
    fix u assume "u \<in> set (waiting (pl_mans s p))"
    then have "u \<in> members (pl_mans s p)" by (simp add: members_def)
    then show "u \<in> {..<n} - {t}" using member_active[OF inv] inv t(2) by (auto simp: plock_inv_def thread_ok_def)
  qed
  then have "card (set (waiting (pl_mans s p))) \<le> card ({..<n} - {t})" by (intro card_mono) auto
  moreover have "t < n" using inv t(1) by (simp add: plock_inv_def thread_ok_def)
  ultimately show ?thesis using distinct_card[OF pm_ok_distinct(1)[OF ok]] pm_ok_distinct(3)[OF ok] by simp
qed

lemma unlock_part_ok:
  assumes inv: "plock_inv n g s" and t: "t \<in> pl_active s" "q \<in> set (pl_held (pl_pc s t) (pl_parts s t))"
    "set (pl_held pc (pl_parts s t)) = set (pl_held (pl_pc s t) (pl_parts s t)) - {q}" "pc_ok pc (length (pl_parts s t))" "running pc \<longrightarrow> running (pl_pc s t)"
  shows "\<exists>s'. plock_unlock_part t q pc s = Inr (Some s') \<and> plock_inv n g s'"
proof -
  have mem: "t \<in> members (pl_mans s q)" and ok: "pm_ok n (pl_ts s) (pl_mans s q)" using inv t(2) by (simp_all add: plock_inv_def)
  obtain m' ready' where m': "pm_unlock (pl_ts s) t (pl_mans s q) (pl_ready s) = Inr (m', ready')" "pm_ok n (pl_ts s) m'"
      "counted (pl_mans s q) m' (pl_ready s) ready'" "members m' = members (pl_mans s q) - {t}" "set (waiting m') \<subseteq> set (waiting (pl_mans s q))"
    using pm_unlock_ok[OF ok mem] by blast
  have "plock_inv n g (plock_goto t pc (plock_call q m' ready' s))"
    by (rule call_inv[OF inv t(1,4,5) member_part(1)[OF inv mem] m'(2,3)]) (use m'(4,5) t(3) in auto)
  then show ?thesis using m'(1) by (simp add: plock_unlock_part_def)
qed

lemma set_drop_Suc: "i < length xs \<Longrightarrow> distinct xs \<Longrightarrow> xs ! i \<in> set (drop i xs) \<and> set (drop (Suc i) xs) = set (drop i xs) - {xs ! i}"
  using distinct_drop[of xs i] by (subst Cons_nth_drop_Suc[symmetric]) (auto simp flip: Cons_nth_drop_Suc)

lemma move_ok:
  assumes inv: "plock_inv n g s" and t: "t \<in> pl_active s"
  shows "(pl_pc s t = Pl_Wait \<and> 0 < pl_ready s t \<and> plock_move n t s = Inr None) \<or> (\<exists>s'. plock_move n t s = Inr (Some s') \<and> plock_inv n g s')"
proof -
  let ?parts = "pl_parts s t"
  have th: "t < n" "distinct ?parts" "set ?parts \<subseteq> {..<g}" "pc_ok (pl_pc s t) (length ?parts)" using inv t by (auto simp: plock_inv_def thread_ok_def)
  show ?thesis
  proof (cases "pl_pc s t")
    case Pl_Idle
    then show ?thesis using t by (simp add: pl_active_def)
  next
    case (Pl_Lock i)
    show ?thesis
    proof (cases "i < length ?parts")
      case True
      let ?q = "?parts ! i"
      have q: "?q \<notin> set (take i ?parts)" "?q < g" "set (take (Suc i) ?parts) = insert ?q (set (take i ?parts))"
        using th(2) True subsetD[OF th(3) nth_mem[OF True]] by (auto simp: take_Suc_conv_app_nth in_set_conv_nth nth_eq_iff_index_eq)
      have ok: "pm_ok n (pl_ts s) (pl_mans s ?q)" and out: "t \<notin> members (pl_mans s ?q)" using inv q(1) Pl_Lock by (simp_all add: plock_inv_def)
      have "\<forall>u\<in>members (pl_mans s ?q). pl_ts s u \<noteq> pl_ts s t"
        using inv out member_active[OF inv] t unfolding plock_inv_def inj_on_def by metis
      from pm_lock_ok[OF ok out this room_for_waiter[OF inv t out]] obtain rc m' ready' where
        m': "pm_lock n (pl_ts s) t (pl_mans s ?q) (pl_ready s) = Inr (rc, m', ready')" "pm_ok n (pl_ts s) m'" "counted (pl_mans s ?q) m' (pl_ready s) ready'"
          "members m' = (if rc = Abort then members (pl_mans s ?q) else insert t (members (pl_mans s ?q)))"
          "set (waiting m') \<subseteq> insert t (set (waiting (pl_mans s ?q)))" by blast
      let ?pc = "if rc = Abort then Pl_Undo i 0 else Pl_Lock (Suc i)"
      have "plock_inv n g (plock_goto t ?pc (plock_call ?q m' ready' s))"
        by (rule call_inv[OF inv t _ _ q(2) m'(2,3) _ m'(5)]) (use True Pl_Lock m'(4) q(1,3) out in auto)
      then show ?thesis using m'(1) True Pl_Lock by (simp add: plock_move_def Let_def)
    next
      case False
      then have "plock_inv n g (plock_goto t Pl_Wait s)" using goto_inv[OF inv t, of Pl_Wait] Pl_Lock by simp
      then show ?thesis using Pl_Lock False by (simp add: plock_move_def Let_def)
    qed
  next
    case (Pl_Undo i j)
    then have ij: "j \<le> i" "i < length ?parts" using th(4) by simp_all
    show ?thesis
    proof (cases "j < i")
      case True
      have "?parts ! j \<in> set (drop j (take i ?parts)) \<and> set (drop (Suc j) (take i ?parts)) = set (drop j (take i ?parts)) - {?parts ! j}"
        using set_drop_Suc[of j "take i ?parts"] True ij th(2) by simp
      then have "\<exists>s'. plock_unlock_part t (?parts ! j) (Pl_Undo i (Suc j)) s = Inr (Some s') \<and> plock_inv n g s'"
        using unlock_part_ok[OF inv t, of "?parts ! j" "Pl_Undo i (Suc j)"] Pl_Undo True ij by simp
      then show ?thesis using Pl_Undo True by (simp add: plock_move_def Let_def)
    next
      case False
      then have "pl_held (pl_pc s t) ?parts = []" using Pl_Undo ij by simp
      then have "t \<notin> members (pl_mans s p)" for p using inv by (simp add: plock_inv_def)
      then have "t \<notin> set (waiting (pl_mans s p))" for p by (simp add: members_def)
      then have "pl_ready s t = 0" using ready_zero(2)[OF inv] by blast
      moreover have "plock_inv n g (plock_goto t Pl_Idle s)" using goto_inv[OF inv t, of Pl_Idle] Pl_Undo False by simp
      ultimately show ?thesis using Pl_Undo False by (simp add: plock_move_def Let_def)
    qed
  next
    case Pl_Wait
    show ?thesis
    proof (cases "0 < pl_ready s t")
      case False
      then have z: "pl_ready s t = 0" using ready_zero(1)[OF inv, of t] by simp
      then have "plock_inv n g (plock_goto t Pl_Run s)" using goto_inv[OF inv t, of Pl_Run] Pl_Wait by simp
      then show ?thesis using Pl_Wait z by (simp add: plock_move_def Let_def)
    qed (use Pl_Wait in \<open>simp add: plock_move_def Let_def\<close>)
  next
    case Pl_Run
    then have "\<forall>p. t \<notin> set (waiting (pl_mans s p))" using inv unfolding plock_inv_def by simp
    then have "pl_ready s t = 0" using ready_zero(2)[OF inv] by blast
    then have "plock_inv n g (plock_goto t (Pl_Unlock 0) s)" using goto_inv[OF inv t, of "Pl_Unlock 0"] Pl_Run by simp
    then show ?thesis using Pl_Run by (simp add: plock_move_def Let_def)
  next
    case (Pl_Unlock i)
    show ?thesis
    proof (cases "i < length ?parts")
      case True
      then have "\<exists>s'. plock_unlock_part t (?parts ! i) (Pl_Unlock (Suc i)) s = Inr (Some s') \<and> plock_inv n g s'"
        using unlock_part_ok[OF inv t, of "?parts ! i" "Pl_Unlock (Suc i)"] Pl_Unlock set_drop_Suc[OF True th(2)] by simp
      then show ?thesis using Pl_Unlock True by (simp add: plock_move_def Let_def)
    next
      case False
      then have "plock_inv n g (plock_goto t Pl_Idle s)" using goto_inv[OF inv t, of Pl_Idle] Pl_Unlock by simp
      then show ?thesis using Pl_Unlock False by (simp add: plock_move_def Let_def)
    qed
  qed
qed

lemma reach_inv: "plock_reach n g s \<Longrightarrow> plock_inv n g s"
proof (induction rule: plock_reach.induct)
  case (move s t s')
  then have "t \<in> pl_active s" by (auto simp: pl_active_def plock_move_def)
  then show ?case using move_ok[OF move.IH, of t] move.hyps(2) by auto
qed (auto intro: init_inv begin_inv)

section \<open>Deadlocks\<close>

text \<open>Whoever spins waits for the owner of a partition, who is older.\<close>

definition plock_waits :: "plock \<Rightarrow> (nat \<times> nat) set" where
  "plock_waits s = {(t, u). \<exists>p. t \<in> set (waiting (pl_mans s p)) \<and> pm_owner (pl_mans s p) = Some u}"

lemma waits_older:
  assumes "plock_inv n g s" "(t, u) \<in> plock_waits s"
  shows "pl_ts s u < pl_ts s t" "u \<in> pl_active s"
proof -
  obtain p where p: "t \<in> set (waiting (pl_mans s p))" "pm_owner (pl_mans s p) = Some u" using assms(2) by (auto simp: plock_waits_def)
  have "pm_ok n (pl_ts s) (pl_mans s p)" using assms(1) by (simp add: plock_inv_def)
  then show "pl_ts s u < pl_ts s t" using p by (simp add: pm_ok_def)
  show "u \<in> pl_active s" using member_active[OF assms(1), of u p] p(2) by (simp add: members_def)
qed

lemma oldest_moves:
  assumes inv: "plock_inv n g s" and act: "pl_active s \<noteq> {}"
  shows "\<exists>t s'. plock_move n t s = Inr (Some s')"
proof -
  have fin: "finite (pl_active s)" by (rule finite_subset[of _ "{..<n}"]) (use inv in \<open>auto simp: plock_inv_def thread_ok_def\<close>)
  obtain t where t: "t \<in> pl_active s" "\<forall>u\<in>pl_active s. pl_ts s t \<le> pl_ts s u"
    using ex_min_if_finite[of "pl_ts s ` pl_active s"] fin act by (auto simp: not_less)
  have "\<not> (pl_pc s t = Pl_Wait \<and> 0 < pl_ready s t)"
  proof
    assume w: "pl_pc s t = Pl_Wait \<and> 0 < pl_ready s t"
    then obtain p where p: "t \<in> set (waiting (pl_mans s p))" using ready_zero(2)[OF inv, of t] by auto
    have ok: "pm_ok n (pl_ts s) (pl_mans s p)" using inv by (simp add: plock_inv_def)
    have "waiting (pl_mans s p) \<noteq> []" using p by auto
    then obtain u where "pm_owner (pl_mans s p) = Some u" using ok by (cases "pm_owner (pl_mans s p)") (auto simp: pm_ok_def waiting_def)
    then have "(t, u) \<in> plock_waits s" using p by (auto simp: plock_waits_def)
    from waits_older[OF inv this] show False using t(2) by auto
  qed
  then show ?thesis using move_ok[OF inv t(1)] by blast
qed

interpretation part_lock: wait_order "\<lambda>s. plock_reach n g s \<and> pl_ts s = ts" plock_waits "\<lambda>t u. ts u < ts t" for n g ts
  using waits_older(1)[OF reach_inv] by unfold_locales auto

section \<open>Properties\<close>

text \<open>
  C10: Partition locks are safe and free of deadlocks, for any number of threads and partitions and any
  interleaving of the calls of the partitions' managers, when a query names every partition at most
  once and transactions under way have different timestamps. In every state that can be reached no
  thread's next step fails an assertion (there is room for every waiter, the waiters are in timestamp
  order, who unlocks is the owner or is found among the waiters, and \<open>ready_part\<close> is zero where the code
  says so); a transaction that runs owns all its partitions, so no two of them that share a partition run
  at once; the waits have no cycle; and while any transaction is under way some thread can take a step.
\<close>

theorem part_lock_safe:
  assumes "plock_reach n g s"
  shows "(\<forall>t. isl (plock_move n t s) = False) \<and>
    (\<forall>t p. pl_pc s t = Pl_Run \<and> p \<in> set (pl_parts s t) \<longrightarrow> pm_owner (pl_mans s p) = Some t) \<and>
    acyclic (plock_waits s) \<and>
    ((\<exists>t. pl_pc s t \<noteq> Pl_Idle) \<longrightarrow> (\<exists>t s'. plock_move n t s = Inr (Some s')))"
proof (intro conjI allI impI)
  note inv = reach_inv[OF assms]
  show "isl (plock_move n t s) = False" for t
  proof (cases "t \<in> pl_active s")
    case True
    then show ?thesis using move_ok[OF inv, of t] by auto
  next
    case False
    then show ?thesis by (simp add: pl_active_def plock_move_def)
  qed
  show "pm_owner (pl_mans s p) = Some t" if "pl_pc s t = Pl_Run \<and> p \<in> set (pl_parts s t)" for t p
  proof -
    have "t \<in> members (pl_mans s p)" "t \<notin> set (waiting (pl_mans s p))" using inv that by (simp_all add: plock_inv_def)
    then show ?thesis by (simp add: members_def)
  qed
  show "acyclic (plock_waits s)" using part_lock.no_cycle[of "{s}" n g "pl_ts s"] assms by simp
  show "\<exists>t s'. plock_move n t s = Inr (Some s')" if "\<exists>t. pl_pc s t \<noteq> Pl_Idle"
    using oldest_moves[OF inv] that by (auto simp: pl_active_def)
qed

text \<open>
  Two threads that want the same two partitions in opposite orders: each gets one, the younger one
  waits, the older one is refused, and the state is not stuck.
\<close>

fun plock_run :: "nat \<Rightarrow> nat list \<Rightarrow> plock \<Rightarrow> plock option" where
  "plock_run n [] s = Some s"
| "plock_run n (t # ts) s = (case plock_move n t s of Inr (Some s') \<Rightarrow> plock_run n ts s' | _ \<Rightarrow> None)"

lemma plock_run_reach: "plock_reach n g s \<Longrightarrow> plock_run n ts s = Some s' \<Longrightarrow> plock_reach n g s'"
proof (induction ts arbitrary: s)
  case (Cons t ts)
  then obtain s1 where "plock_move n t s = Inr (Some s1)" "plock_run n ts s1 = Some s'" by (auto split: sum.splits option.splits)
  then show ?case using Cons.IH[OF plock_reach.move[OF Cons.prems(1)]] by blast
qed simp

definition plock_demo :: plock where
  "plock_demo = plock_begin 1 9 [1, 0] (plock_begin 0 4 [0, 1] (plock_init (\<lambda>_. [7, 7])))"

lemma plock_demo_reach: "plock_reach 2 2 plock_demo"
  unfolding plock_demo_def
  by (intro plock_reach.start_txn plock_reach.start) (auto simp: plock_init_def plock_begin_def)

lemmas plock_exec = plock_demo_def plock_begin_def plock_init_def plock_move_def pm_init_def pm_lock_def plock_goto_def plock_call_def

theorem part_lock_safe_witness:
  "\<exists>s t s'. plock_run 2 [0, 1, 0, 1, 1] plock_demo = Some s \<and> pl_pc s 1 = Pl_Wait \<and> pl_pc s 0 = Pl_Undo 1 0 \<and> plock_move 2 t s = Inr (Some s')"
proof -
  obtain s where s: "plock_run 2 [0, 1, 0, 1, 1] plock_demo = Some s" "pl_pc s 1 = Pl_Wait" "pl_pc s 0 = Pl_Undo 1 0"
    by (simp add: plock_exec)
  have "\<exists>t. pl_pc s t \<noteq> Pl_Idle" using s(2) by (metis pl_pc.distinct(5))
  then show ?thesis using part_lock_safe[OF plock_run_reach[OF plock_demo_reach s(1)]] s by blast
qed

end
