(* ===== verification/Occ.thy ===== *)
theory Occ
  imports Bubble_Sort Wait_Order
begin

text \<open>
  Optimistic concurrency control, the configured \<open>CC_ALG\<close>: the row manager
  \<open>trusted/concurrency_control/row_occ.cpp\<close>, the per-row validation of
  \<open>trusted/concurrency_control/occ.cpp\<close>, and the parts of \<open>trusted/system/txn.cpp\<close> and
  \<open>trusted/system/row_enc.cpp\<close> that a transaction runs through under it (\<open>get_row\<close>,
  \<open>cleanup\<close>, \<open>return_row\<close>).

  First come the operations, each a function on the rows. Then the same operations are the steps
  of any number of threads that interleave freely: every latch, every validation test, the
  allocation of the commit timestamp, every write-back and every release is a step of its own.
  The start timestamp of a transaction is handed to the enclave from outside
  (\<open>run_txn_ecall\<close>), so the step that begins a transaction takes any value allowed by the
  parameter \<open>ok\<close> of the relation, which compares it with the enclave's clock.

  Shown: with start timestamps below the enclave's clock every execution is serializable in
  commit order and no write is lost; without that, a lost update is reachable.
\<close>

section \<open>Data\<close>

type_synonym row_ptr = nat
type_synonym thd_id = nat

record occ_row =
  or_table :: string
  or_pkey :: u64
  or_data :: bytes
  or_wts :: ts_t
  or_latch :: "thd_id option"

type_synonym occ_rows = "row_ptr \<Rightarrow> occ_row"

record access =
  ac_type :: access_t
  ac_row :: row_ptr
  ac_data :: bytes

record occ_txn =
  ot_start_ts :: ts_t
  ot_end_ts :: ts_t
  ot_accesses :: "access list"

section \<open>The row manager\<close>

definition row_occ_init :: "occ_row \<Rightarrow> occ_row" where
  "row_occ_init r = r\<lparr>or_wts := 0, or_latch := None\<rparr>"

text \<open>\<open>access\<close>: \<open>None\<close> for \<open>Abort\<close>, the copied tuple for \<open>RCOK\<close>.\<close>

definition row_occ_access :: "occ_rows \<Rightarrow> row_ptr \<Rightarrow> ts_t \<Rightarrow> TsType \<Rightarrow> bytes option res" where
  "row_occ_access rows r start_ts type =
     (if or_latch (rows r) \<noteq> None then Inl Blocked
      else if type = R_REQ
      then (if start_ts < or_wts (rows r) then Inr None else Inr (Some (or_data (rows r))))
      else Inl Assert_Fail)"

definition row_occ_latch :: "thd_id \<Rightarrow> occ_rows \<Rightarrow> row_ptr \<Rightarrow> occ_rows res" where
  "row_occ_latch t rows r =
     (if or_latch (rows r) \<noteq> None then Inl Blocked
      else Inr (rows(r := (rows r)\<lparr>or_latch := Some t\<rparr>)))"

definition row_occ_validate :: "occ_rows \<Rightarrow> row_ptr \<Rightarrow> ts_t \<Rightarrow> bool" where
  "row_occ_validate rows r ts = (if ts < or_wts (rows r) then False else True)"

definition row_occ_write :: "occ_rows \<Rightarrow> row_ptr \<Rightarrow> bytes \<Rightarrow> ts_t \<Rightarrow> occ_rows res" where
  "row_occ_write rows r data ts =
     assert_res (or_wts (rows r) < ts) (Inr (rows(r := (rows r)\<lparr>or_data := data, or_wts := ts\<rparr>)))"

definition row_occ_release :: "occ_rows \<Rightarrow> row_ptr \<Rightarrow> occ_rows" where
  "row_occ_release rows r = rows(r := (rows r)\<lparr>or_latch := None\<rparr>)"

section \<open>A transaction\<close>

text \<open>
  \<open>txn_man::get_row\<close> with \<open>row_t::get_row\<close>: a local copy is made for reads and writes alike
  and recorded as a new access. \<open>None\<close> is the null pointer returned on \<open>Abort\<close>.
\<close>

definition occ_get_row :: "occ_rows \<Rightarrow> occ_txn \<Rightarrow> row_ptr \<Rightarrow> access_t \<Rightarrow> (bytes \<times> occ_txn) option res"
  where
  "occ_get_row rows txn r type =
     bind_res (row_occ_access rows r (ot_start_ts txn) R_REQ) (\<lambda>res.
       Inr (map_option (\<lambda>d. (d, txn\<lparr>ot_accesses := ot_accesses txn @
              [\<lparr>ac_type = type, ac_row = r, ac_data = d\<rparr>]\<rparr>)) res))"

text \<open>\<open>row_t::return_row\<close>: only a write reaches the row.\<close>

definition occ_return_row :: "access_t \<Rightarrow> ts_t \<Rightarrow> occ_rows \<Rightarrow> access \<Rightarrow> occ_rows res" where
  "occ_return_row type end_ts rows a =
     (if type = WR then row_occ_write rows (ac_row a) (ac_data a) end_ts else Inr rows)"

text \<open>
  The row part of \<open>txn_man::cleanup\<close>: accesses are returned from the last to the first, a write
  of an aborted transaction as \<open>XP\<close>; the access array is empty afterwards.
\<close>

fun occ_return_rows :: "RC \<Rightarrow> ts_t \<Rightarrow> access list \<Rightarrow> occ_rows \<Rightarrow> occ_rows res" where
  "occ_return_rows rc end_ts [] rows = Inr rows"
| "occ_return_rows rc end_ts (a # as) rows =
     bind_res (occ_return_row (if ac_type a = WR \<and> rc = Abort then XP else ac_type a)
         end_ts rows a)
       (occ_return_rows rc end_ts as)"

definition occ_cleanup :: "RC \<Rightarrow> occ_txn \<Rightarrow> occ_rows \<Rightarrow> (occ_txn \<times> occ_rows) res" where
  "occ_cleanup rc txn rows =
     bind_res (occ_return_rows rc (ot_end_ts txn) (rev (ot_accesses txn)) rows)
       (\<lambda>rows'. Inr (txn\<lparr>ot_accesses := []\<rparr>, rows'))"

section \<open>Validation\<close>

text \<open>\<open>strcmp\<close> on the table names, by unsigned character codes.\<close>

fun strcmp :: "string \<Rightarrow> string \<Rightarrow> int" where
  "strcmp [] [] = 0"
| "strcmp [] (y # ys) = - 1"
| "strcmp (x # xs) [] = 1"
| "strcmp (x # xs) (y # ys) =
     (if (of_char x :: nat) < of_char y then - 1
      else if (of_char y :: nat) < of_char x then 1 else strcmp xs ys)"

definition occ_row_gt :: "occ_rows \<Rightarrow> row_ptr \<Rightarrow> row_ptr \<Rightarrow> bool" where
  "occ_row_gt rows a b =
     (let tabcmp = strcmp (or_table (rows a)) (or_table (rows b)) in
      tabcmp > 0 \<or> (tabcmp = 0 \<and> or_pkey (rows a) > or_pkey (rows b)))"

definition occ_sort :: "occ_rows \<Rightarrow> access list \<Rightarrow> access list" where
  "occ_sort rows = bubble_sort (\<lambda>a b. occ_row_gt rows (ac_row a) (ac_row b))"

text \<open>
  The loop that latches and validates; it stops after the first access that fails. The result
  is \<open>ok\<close> and the accesses latched so far (the first \<open>lock_cnt\<close> of them).
\<close>

fun occ_lock_loop ::
  "thd_id \<Rightarrow> ts_t \<Rightarrow> access list \<Rightarrow> occ_rows \<Rightarrow> (bool \<times> access list \<times> occ_rows) res" where
  "occ_lock_loop t start_ts [] rows = Inr (True, [], rows)"
| "occ_lock_loop t start_ts (a # as) rows =
     bind_res (row_occ_latch t rows (ac_row a)) (\<lambda>rows'.
       if row_occ_validate rows' (ac_row a) start_ts
       then bind_res (occ_lock_loop t start_ts as rows') (\<lambda>(ok, locked, rows'').
              Inr (ok, a # locked, rows''))
       else Inr (False, [a], rows'))"

definition occ_release_all :: "access list \<Rightarrow> occ_rows \<Rightarrow> occ_rows" where
  "occ_release_all as rows = foldl (\<lambda>rs a. row_occ_release rs (ac_row a)) rows as"

text \<open>
  \<open>OptCC::per_row_validate\<close>. The commit timestamp is an \<open>ATOM_FETCH_ADD\<close> on the clock of
  \<open>ManagerEnc\<close> (\<open>TS_CAS\<close>), which is part of the state here.
\<close>

definition per_row_validate ::
  "thd_id \<Rightarrow> occ_txn \<Rightarrow> ts_t \<Rightarrow> occ_rows \<Rightarrow> (RC \<times> occ_txn \<times> ts_t \<times> occ_rows) res" where
  "per_row_validate t txn clock rows =
     (let txn = txn\<lparr>ot_accesses := occ_sort rows (ot_accesses txn)\<rparr> in
      bind_res (occ_lock_loop t (ot_start_ts txn) (ot_accesses txn) rows) (\<lambda>(ok, locked, rows).
        if ok
        then bind_res (occ_cleanup RCOK (txn\<lparr>ot_end_ts := clock\<rparr>) rows) (\<lambda>(txn, rows).
               Inr (RCOK, txn, clock + 1, occ_release_all locked rows))
        else bind_res (occ_cleanup Abort txn rows) (\<lambda>(txn, rows).
               Inr (Abort, txn, clock, occ_release_all locked rows))))"

section \<open>Interleaved threads\<close>

text \<open>
  Where a thread is: outside a transaction, in its body, at access \<open>k\<close> of the latching loop,
  in \<open>cleanup(RCOK)\<close> with the first \<open>k\<close> accesses still to return, or at access \<open>j\<close> of the
  final loop that releases the first \<open>m\<close>.
\<close>

datatype occ_phase = Idle | Running | Latching nat | Committing nat | Releasing nat nat

record occ_thread =
  th_phase :: occ_phase
  th_txn :: occ_txn
  th_reads :: "(row_ptr \<times> bytes) list"  \<comment> \<open>what the transaction has been shown (history only)\<close>

record occ_commit =
  cm_thd :: thd_id
  cm_end_ts :: ts_t
  cm_reads :: "(row_ptr \<times> bytes) list"
  cm_writes :: "(row_ptr \<times> bytes) list"

record occ_state =
  os_rows :: occ_rows
  os_clock :: ts_t
  os_thr :: "thd_id \<Rightarrow> occ_thread"
  os_log :: "occ_commit list"  \<comment> \<open>the committed transactions in commit order (history only)\<close>

definition set_thr :: "occ_state \<Rightarrow> thd_id \<Rightarrow> occ_thread \<Rightarrow> occ_state" where
  "set_thr s t th = s\<lparr>os_thr := (os_thr s)(t := th)\<rparr>"

abbreviation accs :: "occ_state \<Rightarrow> thd_id \<Rightarrow> access list" where
  "accs s t \<equiv> ot_accesses (th_txn (os_thr s t))"

abbreviation phase :: "occ_state \<Rightarrow> thd_id \<Rightarrow> occ_phase" where
  "phase s t \<equiv> th_phase (os_thr s t)"

abbreviation start_ts :: "occ_state \<Rightarrow> thd_id \<Rightarrow> ts_t" where
  "start_ts s t \<equiv> ot_start_ts (th_txn (os_thr s t))"

abbreviation end_ts :: "occ_state \<Rightarrow> thd_id \<Rightarrow> ts_t" where
  "end_ts s t \<equiv> ot_end_ts (th_txn (os_thr s t))"

definition writes_of :: "access list \<Rightarrow> (row_ptr \<times> bytes) list" where
  "writes_of as = map (\<lambda>a. (ac_row a, ac_data a)) (filter (\<lambda>a. ac_type a = WR) as)"

definition occ_begin :: "occ_state \<Rightarrow> thd_id \<Rightarrow> ts_t \<Rightarrow> occ_state" where
  "occ_begin s t st = set_thr s t \<lparr>th_phase = Running,
     th_txn = \<lparr>ot_start_ts = st, ot_end_ts = 0, ot_accesses = []\<rparr>, th_reads = []\<rparr>"

definition to_phase :: "occ_state \<Rightarrow> thd_id \<Rightarrow> occ_phase \<Rightarrow> occ_state" where
  "to_phase s t p = set_thr s t ((os_thr s t)\<lparr>th_phase := p\<rparr>)"

definition set_accs :: "occ_state \<Rightarrow> thd_id \<Rightarrow> access list \<Rightarrow> occ_state" where
  "set_accs s t as = set_thr s t ((os_thr s t)\<lparr>th_txn := (th_txn (os_thr s t))\<lparr>ot_accesses := as\<rparr>\<rparr>)"

definition occ_commit_point :: "occ_state \<Rightarrow> thd_id \<Rightarrow> occ_state" where
  "occ_commit_point s t =
     (let th = os_thr s t in
      (set_thr s t (th\<lparr>th_phase := Committing (length (accs s t)),
           th_txn := (th_txn th)\<lparr>ot_end_ts := os_clock s\<rparr>\<rparr>))
       \<lparr>os_clock := os_clock s + 1,
        os_log := os_log s @ [\<lparr>cm_thd = t, cm_end_ts = os_clock s, cm_reads = th_reads th,
          cm_writes = writes_of (accs s t)\<rparr>]\<rparr>)"

inductive occ_step :: "(ts_t \<Rightarrow> ts_t \<Rightarrow> bool) \<Rightarrow> occ_state \<Rightarrow> occ_state \<Rightarrow> bool"
  for ok :: "ts_t \<Rightarrow> ts_t \<Rightarrow> bool" where
  start_txn: "phase s t = Idle \<Longrightarrow> ok st (os_clock s) \<Longrightarrow> occ_step ok s (occ_begin s t st)"
| get_row: "phase s t = Running \<Longrightarrow>
     occ_get_row (os_rows s) (th_txn (os_thr s t)) r type = Inr (Some (d, txn')) \<Longrightarrow>
     occ_step ok s (set_thr s t ((os_thr s t)\<lparr>th_txn := txn',
       th_reads := th_reads (os_thr s t) @ [(r, d)]\<rparr>))"
| get_row_abort: "phase s t = Running \<Longrightarrow>
     occ_get_row (os_rows s) (th_txn (os_thr s t)) r type = Inr None \<Longrightarrow>
     occ_step ok s (to_phase s t Idle)"
| update: "phase s t = Running \<Longrightarrow> k < length (accs s t) \<Longrightarrow>
     occ_step ok s (set_accs s t ((accs s t)[k := (accs s t ! k)\<lparr>ac_data := d\<rparr>]))"
| user_abort: "phase s t = Running \<Longrightarrow> occ_step ok s (to_phase s t Idle)"
| validate: "phase s t = Running \<Longrightarrow>
     occ_step ok s (to_phase (set_accs s t (occ_sort (os_rows s) (accs s t))) t (Latching 0))"
| latch: "phase s t = Latching k \<Longrightarrow> k < length (accs s t) \<Longrightarrow>
     row_occ_latch t (os_rows s) (ac_row (accs s t ! k)) = Inr rows' \<Longrightarrow>
     occ_step ok s (to_phase (s\<lparr>os_rows := rows'\<rparr>) t
       (if row_occ_validate rows' (ac_row (accs s t ! k)) (start_ts s t)
        then Latching (Suc k) else Releasing 0 (Suc k)))"
| commit: "phase s t = Latching (length (accs s t)) \<Longrightarrow> os_clock s \<noteq> UINT64_MAX \<Longrightarrow>
     occ_step ok s (occ_commit_point s t)"
| return_row: "phase s t = Committing (Suc k) \<Longrightarrow>
     occ_return_row (ac_type (accs s t ! k)) (end_ts s t) (os_rows s) (accs s t ! k) = Inr rows' \<Longrightarrow>
     occ_step ok s (to_phase (s\<lparr>os_rows := rows'\<rparr>) t (Committing k))"
| returned: "phase s t = Committing 0 \<Longrightarrow>
     occ_step ok s (to_phase s t (Releasing 0 (length (accs s t))))"
| release: "phase s t = Releasing j m \<Longrightarrow> j < m \<Longrightarrow>
     occ_step ok s (to_phase (s\<lparr>os_rows := row_occ_release (os_rows s) (ac_row (accs s t ! j))\<rparr>) t
       (Releasing (Suc j) m))"
| finished: "phase s t = Releasing m m \<Longrightarrow> occ_step ok s (to_phase s t Idle)"

definition occ_start :: "occ_rows \<Rightarrow> occ_state" where
  "occ_start rows = \<lparr>os_rows = \<lambda>r. row_occ_init (rows r), os_clock = 1,
     os_thr = \<lambda>_. \<lparr>th_phase = Idle, th_txn = \<lparr>ot_start_ts = 0, ot_end_ts = 0, ot_accesses = []\<rparr>,
       th_reads = []\<rparr>, os_log = []\<rparr>"

inductive occ_reach :: "(ts_t \<Rightarrow> ts_t \<Rightarrow> bool) \<Rightarrow> occ_rows \<Rightarrow> occ_state \<Rightarrow> bool"
  for ok :: "ts_t \<Rightarrow> ts_t \<Rightarrow> bool" and rows :: occ_rows where
  start: "occ_reach ok rows (occ_start rows)"
| step: "occ_reach ok rows s \<Longrightarrow> occ_step ok s s' \<Longrightarrow> occ_reach ok rows s'"

section \<open>Serial replay\<close>

text \<open>
  The committed transactions run one after the other: \<open>serial_ok\<close> says that each of them would
  have been shown what it was shown, \<open>replay\<close> is the database this leaves.
\<close>

definition apply_writes :: "(row_ptr \<times> bytes) list \<Rightarrow> (row_ptr \<Rightarrow> bytes) \<Rightarrow> row_ptr \<Rightarrow> bytes" where
  "apply_writes ws db = foldl (\<lambda>f (r, d). f(r := d)) db ws"

fun replay :: "(row_ptr \<Rightarrow> bytes) \<Rightarrow> occ_commit list \<Rightarrow> row_ptr \<Rightarrow> bytes" where
  "replay db [] = db"
| "replay db (c # cs) = replay (apply_writes (cm_writes c) db) cs"

fun serial_ok :: "(row_ptr \<Rightarrow> bytes) \<Rightarrow> occ_commit list \<Rightarrow> bool" where
  "serial_ok db [] = True"
| "serial_ok db (c # cs) = ((\<forall>(r, d)\<in>set (cm_reads c). db r = d) \<and>
     serial_ok (apply_writes (cm_writes c) db) cs)"

section \<open>Invariant\<close>

definition held :: "occ_thread \<Rightarrow> access list" where
  "held th = (let as = ot_accesses (th_txn th) in
     case th_phase th of Idle \<Rightarrow> [] | Running \<Rightarrow> [] | Latching k \<Rightarrow> take k as
     | Committing k \<Rightarrow> as | Releasing j m \<Rightarrow> drop j (take m as))"

definition pending :: "occ_thread \<Rightarrow> access list" where
  "pending th = (case th_phase th of Committing k \<Rightarrow> take k (ot_accesses (th_txn th)) | _ \<Rightarrow> [])"

definition active :: "occ_thread \<Rightarrow> bool" where
  "active th = (case th_phase th of Running \<Rightarrow> True | Latching k \<Rightarrow> True | _ \<Rightarrow> False)"

text \<open>
  The committed contents of a row: what a committing thread has still to write back counts as
  written.
\<close>

definition vis :: "occ_state \<Rightarrow> row_ptr \<Rightarrow> bytes" where
  "vis s r = (case or_latch (os_rows s r) of
       None \<Rightarrow> or_data (os_rows s r)
     | Some t \<Rightarrow> (case map_of (writes_of (pending (os_thr s t))) r of
         None \<Rightarrow> or_data (os_rows s r) | Some d \<Rightarrow> d))"

definition fresh_reads :: "occ_rows \<Rightarrow> occ_thread \<Rightarrow> bool" where
  "fresh_reads rows th \<longleftrightarrow> fst ` set (th_reads th) = ac_row ` set (ot_accesses (th_txn th)) \<and>
     (\<forall>(r, d)\<in>set (th_reads th).
        or_data (rows r) = d \<or> ot_start_ts (th_txn th) < or_wts (rows r))"

definition thr_inv :: "occ_rows \<Rightarrow> ts_t \<Rightarrow> thd_id \<Rightarrow> occ_thread \<Rightarrow> bool" where
  "thr_inv rows clock t th \<longleftrightarrow>
     (\<forall>a\<in>set (held th). or_latch (rows (ac_row a)) = Some t) \<and> distinct (map ac_row (held th)) \<and>
     (active th \<longrightarrow> ot_start_ts (th_txn th) < clock \<and> fresh_reads rows th) \<and>
     (let as = ot_accesses (th_txn th) in
      case th_phase th of
        Latching k \<Rightarrow> k \<le> length as \<and>
          (\<forall>a\<in>set (take k as). or_wts (rows (ac_row a)) \<le> ot_start_ts (th_txn th))
      | Committing k \<Rightarrow> k \<le> length as \<and> ot_end_ts (th_txn th) < clock \<and>
          (\<forall>a\<in>set (take k as). or_wts (rows (ac_row a)) < ot_end_ts (th_txn th))
      | Releasing j m \<Rightarrow> j \<le> m \<and> m \<le> length as
      | _ \<Rightarrow> True)"

definition pend_inv :: "(thd_id \<Rightarrow> occ_thread) \<Rightarrow> bool" where
  "pend_inv thr \<longleftrightarrow> (\<forall>t u. t \<noteq> u \<longrightarrow> active (thr u) \<longrightarrow>
     (\<forall>a\<in>set (pending (thr t)). ac_row a \<in> fst ` set (th_reads (thr u)) \<longrightarrow>
        ot_start_ts (th_txn (thr u)) < ot_end_ts (th_txn (thr t))))"

definition occ_inv :: "(row_ptr \<Rightarrow> bytes) \<Rightarrow> occ_state \<Rightarrow> bool" where
  "occ_inv db s \<longleftrightarrow> (\<forall>r. or_wts (os_rows s r) < os_clock s) \<and>
     (\<forall>t. thr_inv (os_rows s) (os_clock s) t (os_thr s t)) \<and> pend_inv (os_thr s) \<and>
     vis s = replay db (os_log s) \<and> serial_ok db (os_log s) \<and>
     (\<forall>c\<in>set (os_log s). cm_end_ts c < os_clock s) \<and>
     sorted_wrt (\<lambda>c c'. cm_end_ts c < cm_end_ts c') (os_log s)"

lemmas [simp] = set_thr_def to_phase_def set_accs_def occ_begin_def

lemma replay_append: "replay db (l @ [c]) = apply_writes (cm_writes c) (replay db l)"
  by (induction l arbitrary: db) auto

lemma serial_ok_append:
  "serial_ok db (l @ [c]) \<longleftrightarrow> serial_ok db l \<and> (\<forall>(r, d)\<in>set (cm_reads c). replay db l r = d)"
  by (induction l arbitrary: db) auto

lemma apply_writes_map:
  assumes "distinct (map fst ws)"
  shows "apply_writes ws db r = (case map_of ws r of None \<Rightarrow> db r | Some d \<Rightarrow> d)"
  using assms
proof (induction ws arbitrary: db)
  case (Cons w ws)
  obtain q d where w: "w = (q, d)" by (cases w)
  have "apply_writes (w # ws) db r = apply_writes ws (db(q := d)) r"
    by (simp add: apply_writes_def w)
  moreover have "q = r \<Longrightarrow> map_of ws r = None"
    using Cons.prems w by (auto simp: map_of_eq_None_iff)
  ultimately show ?case
    using Cons w by (auto split: option.splits)
qed (simp add: apply_writes_def)

lemma writes_of_append: "writes_of (as @ bs) = writes_of as @ writes_of bs"
  by (simp add: writes_of_def)

lemma writes_of_Nil [simp]: "writes_of [] = []"
  by (simp add: writes_of_def)

lemma fst_writes_of: "fst ` set (writes_of as) = ac_row ` {a\<in>set as. ac_type a = WR}"
  by (force simp: writes_of_def)

lemma distinct_writes_of: "distinct (map ac_row as) \<Longrightarrow> distinct (map fst (writes_of as))"
  by (simp add: writes_of_def comp_def distinct_map_filter)

lemma take_Suc_nth: "k < length as \<Longrightarrow> take (Suc k) as = take k as @ [as ! k]"
  by (rule take_Suc_conv_app_nth)

text \<open>Nothing another thread does to rows it holds disturbs a thread.\<close>

lemma thr_inv_other:
  assumes "thr_inv rows clock u th" "clock \<le> clock'"
    and "\<And>r. or_latch (rows r) = Some u \<Longrightarrow> rows' r = rows r"
    and "\<And>r. active th \<Longrightarrow> r \<in> fst ` set (th_reads th) \<Longrightarrow>
      or_data (rows' r) = or_data (rows r) \<and> or_wts (rows' r) = or_wts (rows r) \<or>
      ot_start_ts (th_txn th) < or_wts (rows' r)"
  shows "thr_inv rows' clock' u th"
proof -
  have same: "rows' (ac_row a) = rows (ac_row a)" if "a \<in> set (held th)" for a
    using assms(1,3) that by (simp add: thr_inv_def)
  have "fresh_reads rows' th" if "active th" "fresh_reads rows th"
    using assms(4)[OF that(1)] that(2) unfolding fresh_reads_def by fastforce
  moreover have "a \<in> set (take k (ot_accesses (th_txn th))) \<Longrightarrow> rows' (ac_row a) = rows (ac_row a)"
    if "th_phase th = Latching k \<or> th_phase th = Committing k" for a k
    using same[of a] that by (auto simp: held_def dest: in_set_takeD)
  ultimately show ?thesis
    using assms(1,2) same unfolding thr_inv_def Let_def
    by (auto split: occ_phase.splits)
qed

lemma pending_held: "a \<in> set (pending th) \<Longrightarrow> a \<in> set (held th)"
  by (cases "th_phase th") (auto simp: pending_def held_def dest: in_set_takeD)

lemma pend_invD:
  assumes "pend_inv thr" "t \<noteq> u" "active (thr u)" "a \<in> set (pending (thr t))"
    and "ac_row a \<in> fst ` set (th_reads (thr u))"
  shows "ot_start_ts (th_txn (thr u)) < ot_end_ts (th_txn (thr t))"
  using assms unfolding pend_inv_def by blast

lemma occ_inv_local:
  assumes "occ_inv db s"
    and own: "thr_inv rows' (os_clock s) t th'"
    and mine: "\<And>r. rows' r \<noteq> os_rows s r \<Longrightarrow>
      or_latch (os_rows s r) = None \<or> or_latch (os_rows s r) = Some t"
    and wts: "\<And>r. or_wts (rows' r) < os_clock s"
    and stale: "\<And>u r. u \<noteq> t \<Longrightarrow> active (os_thr s u) \<Longrightarrow> r \<in> fst ` set (th_reads (os_thr s u)) \<Longrightarrow>
      or_data (rows' r) = or_data (os_rows s r) \<and> or_wts (rows' r) = or_wts (os_rows s r) \<or>
      start_ts s u < or_wts (rows' r)"
    and pend: "\<And>a. a \<in> set (pending th') \<Longrightarrow>
      a \<in> set (pending (os_thr s t)) \<and> ot_end_ts (th_txn th') = end_ts s t"
    and act: "\<And>u a. active th' \<Longrightarrow> u \<noteq> t \<Longrightarrow> a \<in> set (pending (os_thr s u)) \<Longrightarrow>
      ac_row a \<in> fst ` set (th_reads th') \<Longrightarrow> ot_start_ts (th_txn th') < end_ts s u"
    and vis: "vis (s\<lparr>os_rows := rows', os_thr := (os_thr s)(t := th')\<rparr>) = vis s"
  shows "occ_inv db (s\<lparr>os_rows := rows', os_thr := (os_thr s)(t := th')\<rparr>)"
proof -
  have inv: "\<And>u. thr_inv (os_rows s) (os_clock s) u (os_thr s u)" "pend_inv (os_thr s)"
    using assms(1) by (auto simp: occ_inv_def)
  have "thr_inv rows' (os_clock s) u (((os_thr s)(t := th')) u)" for u
  proof (cases "u = t")
    case False
    have "thr_inv rows' (os_clock s) u (os_thr s u)"
    proof (rule thr_inv_other[OF inv(1) order.refl])
      show "rows' r = os_rows s r" if "or_latch (os_rows s r) = Some u" for r
        using mine[of r] that False by fastforce
    qed (use stale[OF False] in blast)
    with False show ?thesis by simp
  qed (use own in simp)
  moreover have "pend_inv ((os_thr s)(t := th'))"
    unfolding pend_inv_def
  proof (intro allI impI ballI)
    fix v u a
    assume A: "v \<noteq> u" "active (((os_thr s)(t := th')) u)"
      "a \<in> set (pending (((os_thr s)(t := th')) v))"
      "ac_row a \<in> fst ` set (th_reads (((os_thr s)(t := th')) u))"
    consider "v = t" "u \<noteq> t" | "u = t" "v \<noteq> t" | "u \<noteq> t" "v \<noteq> t"
      using A(1) by blast
    then show "ot_start_ts (th_txn (((os_thr s)(t := th')) u)) <
        ot_end_ts (th_txn (((os_thr s)(t := th')) v))"
    proof cases
      case 1
      then show ?thesis
        using A pend[of a] pend_invD[OF inv(2), of t u a] by simp
    next
      case 2
      then show ?thesis
        using A act[of v a] by simp
    next
      case 3
      then show ?thesis
        using A pend_invD[OF inv(2), of v u a] by simp
    qed
  qed
  ultimately show ?thesis
    using assms(1) wts vis by (simp add: occ_inv_def)
qed

lemma vis_eqI:
  assumes "writes_of (pending (os_thr s t)) = []" "writes_of (pending th') = []"
    and "\<And>r. or_data (rows' r) = or_data (os_rows s r)"
    and "\<And>r. or_latch (rows' r) = or_latch (os_rows s r) \<or>
      or_latch (os_rows s r) \<in> {None, Some t} \<and> or_latch (rows' r) \<in> {None, Some t}"
  shows "vis (s\<lparr>os_rows := rows', os_thr := (os_thr s)(t := th')\<rparr>) = vis s"
proof
  fix r
  show "vis (s\<lparr>os_rows := rows', os_thr := (os_thr s)(t := th')\<rparr>) r = vis s r"
    using assms(1-3) assms(4)[of r] by (auto simp: vis_def split: option.splits)
qed

text \<open>Steps that leave the rows alone.\<close>

lemma occ_inv_thread:
  assumes "occ_inv db s" "thr_inv (os_rows s) (os_clock s) t th'"
    and "pending th' = []" "writes_of (pending (os_thr s t)) = []"
    and "active th' \<Longrightarrow> ot_start_ts (th_txn th') = start_ts s t \<and> active (os_thr s t) \<and>
       (\<forall>r\<in>fst ` set (th_reads th') - fst ` set (th_reads (os_thr s t)).
           or_latch (os_rows s r) = None) \<or> th_reads th' = []"
  shows "occ_inv db (s\<lparr>os_thr := (os_thr s)(t := th')\<rparr>)"
proof -
  have inv: "\<And>u. thr_inv (os_rows s) (os_clock s) u (os_thr s u)" "pend_inv (os_thr s)"
    using assms(1) by (auto simp: occ_inv_def)
  have "occ_inv db (s\<lparr>os_rows := os_rows s, os_thr := (os_thr s)(t := th')\<rparr>)"
  proof (rule occ_inv_local[OF assms(1,2)])
    show "ot_start_ts (th_txn th') < end_ts s u"
      if "active th'" "u \<noteq> t" "a \<in> set (pending (os_thr s u))" "ac_row a \<in> fst ` set (th_reads th')"
      for u a
    proof -
      have "or_latch (os_rows s (ac_row a)) = Some u"
        using inv(1)[of u] pending_held[OF that(3)] by (simp add: thr_inv_def)
      then have "ot_start_ts (th_txn th') = start_ts s t" "active (os_thr s t)"
        "ac_row a \<in> fst ` set (th_reads (os_thr s t))"
        using assms(5)[OF that(1)] that(4) by force+
      then show ?thesis
        using pend_invD[OF inv(2) that(2) _ that(3)] by simp
    qed
    show "vis (s\<lparr>os_rows := os_rows s, os_thr := (os_thr s)(t := th')\<rparr>) = vis s"
      using assms(3,4) by (intro vis_eqI) auto
  qed (use assms(1,3) in \<open>auto simp: occ_inv_def\<close>)
  then show ?thesis by simp
qed

lemma occ_inv_thr: "occ_inv db s \<Longrightarrow> thr_inv (os_rows s) (os_clock s) t (os_thr s t)"
  by (simp add: occ_inv_def)

lemma occ_inv_start_txn:
  assumes "occ_inv db s" "phase s t = Idle" "st < os_clock s"
  shows "occ_inv db (occ_begin s t st)"
  unfolding occ_begin_def set_thr_def using assms
  by (intro occ_inv_thread)
     (auto simp: thr_inv_def held_def active_def pending_def fresh_reads_def)

lemma occ_inv_get_row:
  assumes "occ_inv db s" "phase s t = Running"
    and "occ_get_row (os_rows s) (th_txn (os_thr s t)) r type = Inr (Some (d, txn'))"
  shows "occ_inv db (set_thr s t ((os_thr s t)\<lparr>th_txn := txn',
       th_reads := th_reads (os_thr s t) @ [(r, d)]\<rparr>))"
proof -
  have row: "or_latch (os_rows s r) = None" "d = or_data (os_rows s r)"
    "txn' = (th_txn (os_thr s t))\<lparr>ot_accesses := accs s t @
       [\<lparr>ac_type = type, ac_row = r, ac_data = d\<rparr>]\<rparr>"
    using assms(3) by (auto simp: occ_get_row_def row_occ_access_def res_simps split: if_splits)
  show ?thesis
    unfolding set_thr_def using occ_inv_thr[OF assms(1), of t] assms(2) row
    by (intro occ_inv_thread[OF assms(1)])
       (auto simp: thr_inv_def held_def active_def pending_def fresh_reads_def)
qed

lemma occ_inv_quiet:
  assumes "occ_inv db s" "pending (os_thr s t) = []" "held (os_thr s t) = []"
  shows "occ_inv db (to_phase s t Idle)"
  unfolding to_phase_def set_thr_def
  using occ_inv_thr[OF assms(1), of t] assms(2,3)
  by (intro occ_inv_thread[OF assms(1)])
     (auto simp: thr_inv_def held_def active_def pending_def)

lemma occ_inv_set_accs:
  assumes "occ_inv db s" "phase s t = Running" "ac_row ` set as = ac_row ` set (accs s t)"
    and "p = Running \<or> p = Latching 0"
  shows "occ_inv db (s\<lparr>os_thr := (os_thr s)(t := (os_thr s t)\<lparr>th_txn := (th_txn (os_thr s t))\<lparr>ot_accesses := as\<rparr>,
     th_phase := p\<rparr>)\<rparr>)"
  using occ_inv_thr[OF assms(1), of t] assms(2-4)
  by (intro occ_inv_thread[OF assms(1)])
     (auto simp: thr_inv_def held_def active_def pending_def fresh_reads_def)

text \<open>Steps that change the latch of one row.\<close>

lemma fresh_reads_latch:
  assumes "\<And>r. or_data (rows' r) = or_data (rows r) \<and> or_wts (rows' r) = or_wts (rows r)"
  shows "fresh_reads rows' (th\<lparr>th_phase := p\<rparr>) \<longleftrightarrow> fresh_reads rows th"
  by (simp add: fresh_reads_def assms)

lemma occ_inv_latch:
  assumes "occ_inv db s" "phase s t = Latching k" "k < length (accs s t)"
    and "row_occ_latch t (os_rows s) (ac_row (accs s t ! k)) = Inr rows'"
  shows "occ_inv db (to_phase (s\<lparr>os_rows := rows'\<rparr>) t
       (if row_occ_validate rows' (ac_row (accs s t ! k)) (start_ts s t)
        then Latching (Suc k) else Releasing 0 (Suc k)))"
proof -
  let ?r = "ac_row (accs s t ! k)" and ?th = "os_thr s t"
  define p where "p = (if row_occ_validate rows' ?r (start_ts s t)
        then Latching (Suc k) else Releasing 0 (Suc k))"
  have row: "or_latch (os_rows s ?r) = None"
    "rows' = (os_rows s)(?r := (os_rows s ?r)\<lparr>or_latch := Some t\<rparr>)"
    using assms(4) by (auto simp: row_occ_latch_def split: if_splits)
  have same: "or_data (rows' r) = or_data (os_rows s r) \<and> or_wts (rows' r) = or_wts (os_rows s r)" for r
    by (simp add: row(2))
  have old: "\<forall>a\<in>set (take k (accs s t)). or_latch (os_rows s (ac_row a)) = Some t"
    "distinct (map ac_row (take k (accs s t)))" "start_ts s t < os_clock s" "fresh_reads (os_rows s) ?th"
    "\<forall>a\<in>set (take k (accs s t)). or_wts (os_rows s (ac_row a)) \<le> start_ts s t"
    using occ_inv_thr[OF assms(1), of t] assms(2) by (auto simp: thr_inv_def held_def active_def Let_def)
  have latched: "\<forall>a\<in>set (take (Suc k) (accs s t)). or_latch (rows' (ac_row a)) = Some t"
    using old(1) row assms(3) by (auto simp: take_Suc_nth)
  have dist: "distinct (map ac_row (take (Suc k) (accs s t)))"
    using old(1,2) row(1) assms(3) by (auto simp: take_Suc_nth)
  have "\<forall>a\<in>set (take (Suc k) (accs s t)). or_wts (rows' (ac_row a)) \<le> start_ts s t"
    if "row_occ_validate rows' ?r (start_ts s t)"
    using old(5) that assms(3) same by (auto simp: take_Suc_nth row_occ_validate_def split: if_splits)
  then have own: "thr_inv rows' (os_clock s) t (?th\<lparr>th_phase := p\<rparr>)"
    using latched dist old(3,4) assms(3) unfolding thr_inv_def
    by (auto simp: p_def held_def active_def Let_def fresh_reads_latch[OF same])
  have "occ_inv db (s\<lparr>os_rows := rows', os_thr := (os_thr s)(t := ?th\<lparr>th_phase := p\<rparr>)\<rparr>)"
  proof (rule occ_inv_local[OF assms(1) own])
    show "vis (s\<lparr>os_rows := rows', os_thr := (os_thr s)(t := ?th\<lparr>th_phase := p\<rparr>)\<rparr>) = vis s"
      using assms(2) row same by (intro vis_eqI) (auto simp: pending_def p_def)
    show "ot_start_ts (th_txn (?th\<lparr>th_phase := p\<rparr>)) < end_ts s u"
      if "u \<noteq> t" "a \<in> set (pending (os_thr s u))"
        "ac_row a \<in> fst ` set (th_reads (?th\<lparr>th_phase := p\<rparr>))" for u a
      using pend_invD[of "os_thr s" u t a] that assms(1,2) by (simp add: occ_inv_def active_def)
    show "or_wts (rows' r) < os_clock s" for r
      using assms(1) same by (simp add: occ_inv_def)
    show "or_latch (os_rows s r) = None \<or> or_latch (os_rows s r) = Some t" if "rows' r \<noteq> os_rows s r" for r
      using that row by (auto split: if_splits)
  qed (use same in \<open>auto simp: p_def pending_def split: if_splits\<close>)
  then show ?thesis
    by (simp add: p_def)
qed

lemma occ_inv_release:
  assumes "occ_inv db s" "phase s t = Releasing j m" "j < m"
  shows "occ_inv db (to_phase (s\<lparr>os_rows := row_occ_release (os_rows s) (ac_row (accs s t ! j))\<rparr>) t
       (Releasing (Suc j) m))"
proof -
  let ?r = "ac_row (accs s t ! j)" and ?th = "os_thr s t"
  let ?rows = "row_occ_release (os_rows s) ?r" and ?th' = "?th\<lparr>th_phase := Releasing (Suc j) m\<rparr>"
  have inv: "\<forall>a\<in>set (drop j (take m (accs s t))). or_latch (os_rows s (ac_row a)) = Some t"
    "distinct (map ac_row (drop j (take m (accs s t))))" "m \<le> length (accs s t)"
    using occ_inv_thr[OF assms(1), of t] assms(2) by (auto simp: thr_inv_def held_def Let_def)
  have split: "drop j (take m (accs s t)) = (accs s t ! j) # drop (Suc j) (take m (accs s t))"
    using inv(3) assms(3) by (metis Cons_nth_drop_Suc length_take min_absorb2 nth_take)
  have same: "or_data (?rows r) = or_data (os_rows s r) \<and> or_wts (?rows r) = or_wts (os_rows s r)" for r
    by (simp add: row_occ_release_def)
  have own: "thr_inv ?rows (os_clock s) t ?th'"
    using inv assms(3) unfolding thr_inv_def split
    by (auto simp: held_def active_def row_occ_release_def image_iff)
  have latch: "or_latch (os_rows s ?r) = Some t"
    using inv(1) split by simp
  have "occ_inv db (s\<lparr>os_rows := ?rows, os_thr := (os_thr s)(t := ?th')\<rparr>)"
  proof (rule occ_inv_local[OF assms(1) own])
    show "vis (s\<lparr>os_rows := ?rows, os_thr := (os_thr s)(t := ?th')\<rparr>) = vis s"
      using assms(2) latch by (intro vis_eqI) (auto simp: pending_def row_occ_release_def)
    show "or_wts (?rows r) < os_clock s" for r
      using assms(1) same by (simp add: occ_inv_def)
    show "or_latch (os_rows s r) = None \<or> or_latch (os_rows s r) = Some t" if "?rows r \<noteq> os_rows s r" for r
      using that latch by (auto simp: row_occ_release_def split: if_splits)
  qed (use same in \<open>auto simp: pending_def active_def\<close>)
  then show ?thesis by simp
qed

text \<open>The write-back of one access, and the step that fixes the commit order.\<close>

lemma occ_inv_return_row:
  assumes "occ_inv db s" "phase s t = Committing (Suc k)"
    and "occ_return_row (ac_type (accs s t ! k)) (end_ts s t) (os_rows s) (accs s t ! k) = Inr rows'"
  shows "occ_inv db (to_phase (s\<lparr>os_rows := rows'\<rparr>) t (Committing k))"
proof -
  let ?a = "accs s t ! k" and ?th = "os_thr s t"
  let ?r = "ac_row ?a" and ?th' = "?th\<lparr>th_phase := Committing k\<rparr>"
  have inv: "\<forall>a\<in>set (accs s t). or_latch (os_rows s (ac_row a)) = Some t"
    "distinct (map ac_row (accs s t))" "k < length (accs s t)" "end_ts s t < os_clock s"
    "\<forall>a\<in>set (take (Suc k) (accs s t)). or_wts (os_rows s (ac_row a)) < end_ts s t"
    using occ_inv_thr[OF assms(1), of t] assms(2) by (auto simp: thr_inv_def held_def Let_def)
  have pend: "pending ?th = pending ?th' @ [?a]" "pending ?th' = take k (accs s t)"
    using assms(2) inv(3) by (simp_all add: pending_def take_Suc_nth)
  have "distinct (map ac_row (take (Suc k) (accs s t)))"
    using inv(2) by (simp add: take_map[symmetric] distinct_take)
  then have new: "?r \<notin> ac_row ` set (take k (accs s t))"
    using inv(3) by (simp add: take_Suc_nth)
  have rows': "rows' = (if ac_type ?a = WR
      then (os_rows s)(?r := (os_rows s ?r)\<lparr>or_data := ac_data ?a, or_wts := end_ts s t\<rparr>)
      else os_rows s)"
    using assms(3) by (auto simp: occ_return_row_def row_occ_write_def res_simps split: if_splits)
  have latch: "or_latch (rows' r) = or_latch (os_rows s r)" for r
    by (simp add: rows')
  have other: "r \<noteq> ?r \<Longrightarrow> rows' r = os_rows s r" for r
    by (simp add: rows')
  have own: "thr_inv rows' (os_clock s) t ?th'"
    using inv latch other new unfolding thr_inv_def
    by (auto simp: held_def active_def image_iff take_Suc_nth)
  have "occ_inv db (s\<lparr>os_rows := rows', os_thr := (os_thr s)(t := ?th')\<rparr>)"
  proof (rule occ_inv_local[OF assms(1) own])
    show "vis (s\<lparr>os_rows := rows', os_thr := (os_thr s)(t := ?th')\<rparr>) = vis s"
    proof
      fix r
      have miss: "map_of (writes_of (take k (accs s t))) ?r = None"
        using new by (auto simp: map_of_eq_None_iff fst_writes_of image_iff)
      have mine: "or_latch (os_rows s ?r) = Some t"
        using inv(1,3) by simp
      show "vis (s\<lparr>os_rows := rows', os_thr := (os_thr s)(t := ?th')\<rparr>) r = vis s r"
      proof (cases "r = ?r")
        case True
        then show ?thesis
          using miss mine latch[of ?r] pend
          by (auto simp: vis_def writes_of_append rows' writes_of_def map_add_def)
      next
        case False
        then have "map_of (writes_of (pending ?th)) r = map_of (writes_of (pending ?th')) r"
          by (simp add: pend(1) writes_of_append)
             (auto simp: writes_of_def map_add_def split: option.splits)
        then show ?thesis
          using False other by (auto simp: vis_def split: option.splits)
      qed
    qed
    show "or_wts (rows' r) < os_clock s" for r
      using assms(1) inv(4) by (auto simp: rows' occ_inv_def)
    show "or_latch (os_rows s r) = None \<or> or_latch (os_rows s r) = Some t" if "rows' r \<noteq> os_rows s r" for r
      using that other[of r] inv(1,3) by (cases "r = ?r") auto
    show "a \<in> set (pending ?th) \<and> ot_end_ts (th_txn ?th') = end_ts s t" if "a \<in> set (pending ?th')" for a
      using that pend by simp
    show "or_data (rows' r) = or_data (os_rows s r) \<and> or_wts (rows' r) = or_wts (os_rows s r) \<or>
      start_ts s u < or_wts (rows' r)"
      if "u \<noteq> t" "active (os_thr s u)" "r \<in> fst ` set (th_reads (os_thr s u))" for u r
    proof (cases "r = ?r \<and> ac_type ?a = WR")
      case True
      have "start_ts s u < end_ts s t"
        using pend_invD[of "os_thr s" t u ?a] assms(1) that True pend(1) by (simp add: occ_inv_def)
      with True show ?thesis by (simp add: rows')
    qed (auto simp: rows')
  qed (simp add: active_def)
  then show ?thesis by simp
qed

lemma occ_inv_returned:
  assumes "occ_inv db s" "phase s t = Committing 0"
  shows "occ_inv db (to_phase s t (Releasing 0 (length (accs s t))))"
  unfolding to_phase_def set_thr_def
  using occ_inv_thr[OF assms(1), of t] assms(2)
  by (intro occ_inv_thread[OF assms(1)])
     (auto simp: thr_inv_def held_def active_def pending_def)

lemma vis_commit_point:
  assumes "\<forall>a\<in>set (accs s t). or_latch (os_rows s (ac_row a)) = Some t"
    and "distinct (map ac_row (accs s t))" "phase s t = Latching k"
  shows "vis (occ_commit_point s t) = apply_writes (writes_of (accs s t)) (vis s)"
proof
  fix r
  have miss: "map_of (writes_of (accs s t)) r = None" if "or_latch (os_rows s r) \<noteq> Some t"
    using that assms(1) by (force simp: map_of_eq_None_iff fst_writes_of)
  have "apply_writes (writes_of (accs s t)) (vis s) r =
      (case map_of (writes_of (accs s t)) r of None \<Rightarrow> vis s r | Some d \<Rightarrow> d)"
    by (rule apply_writes_map[OF distinct_writes_of[OF assms(2)]])
  then show "vis (occ_commit_point s t) r = apply_writes (writes_of (accs s t)) (vis s) r"
    using miss assms(3)
    by (cases "or_latch (os_rows s r) = Some t")
       (auto simp: vis_def occ_commit_point_def Let_def pending_def split: option.splits)
qed

lemma occ_inv_commit:
  assumes "occ_inv db s" "phase s t = Latching (length (accs s t))" "os_clock s \<noteq> UINT64_MAX"
  shows "occ_inv db (occ_commit_point s t)"
proof -
  let ?s = "occ_commit_point s t"
  let ?th' = "(os_thr s t)\<lparr>th_phase := Committing (length (accs s t)),
           th_txn := (th_txn (os_thr s t))\<lparr>ot_end_ts := os_clock s\<rparr>\<rparr>"
  have clk: "os_clock s < os_clock s + 1"
    by (rule word_less_suc[OF assms(3)])
  have wts: "or_wts (os_rows s r) < os_clock s" for r
    using assms(1) by (simp add: occ_inv_def)
  have inv: "\<forall>a\<in>set (accs s t). or_latch (os_rows s (ac_row a)) = Some t"
    "distinct (map ac_row (accs s t))" "fresh_reads (os_rows s) (os_thr s t)"
    "\<forall>a\<in>set (accs s t). or_wts (os_rows s (ac_row a)) \<le> start_ts s t"
    using occ_inv_thr[OF assms(1), of t] assms(2)
    by (auto simp: thr_inv_def held_def active_def Let_def)
  have st: "os_rows ?s = os_rows s" "os_clock ?s = os_clock s + 1" "os_thr ?s = (os_thr s)(t := ?th')"
    "os_log ?s = os_log s @ [\<lparr>cm_thd = t, cm_end_ts = os_clock s, cm_reads = th_reads (os_thr s t),
       cm_writes = writes_of (accs s t)\<rparr>]"
    by (simp_all add: occ_commit_point_def Let_def)
  have thr: "thr_inv (os_rows s) (os_clock s + 1) u (((os_thr s)(t := ?th')) u)" for u
  proof (cases "u = t")
    case True
    then show ?thesis
      using inv(1,2) wts clk by (auto simp: thr_inv_def held_def active_def)
  next
    case False
    then show ?thesis
      using thr_inv_other[OF occ_inv_thr[OF assms(1), of u], of "os_clock s + 1" "os_rows s"] clk by simp
  qed
  have pend: "pend_inv ((os_thr s)(t := ?th'))"
    unfolding pend_inv_def
  proof (intro allI impI ballI)
    fix v u a
    assume A: "v \<noteq> u" "active (((os_thr s)(t := ?th')) u)"
      "a \<in> set (pending (((os_thr s)(t := ?th')) v))"
      "ac_row a \<in> fst ` set (th_reads (((os_thr s)(t := ?th')) u))"
    then have u: "u \<noteq> t" "active (os_thr s u)"
      by (auto simp: active_def split: if_splits)
    then have "start_ts s u < os_clock s"
      using occ_inv_thr[OF assms(1), of u] by (simp add: thr_inv_def)
    then show "ot_start_ts (th_txn (((os_thr s)(t := ?th')) u)) <
        ot_end_ts (th_txn (((os_thr s)(t := ?th')) v))"
      using A u pend_invD[of "os_thr s" v u a] assms(1) by (cases "v = t") (simp_all add: occ_inv_def)
  qed
  have reads: "vis s r = d" if "(r, d) \<in> set (th_reads (os_thr s t))" for r d
  proof -
    have "r \<in> fst ` set (th_reads (os_thr s t))"
      using that by force
    then have "r \<in> ac_row ` set (accs s t)"
      using inv(3) by (simp add: fresh_reads_def)
    then obtain a where a: "a \<in> set (accs s t)" "ac_row a = r"
      by blast
    then have "or_wts (os_rows s r) \<le> start_ts s t" "or_latch (os_rows s r) = Some t"
      using inv(1,4) by auto
    then show ?thesis
      using inv(3) that assms(2) by (auto simp: fresh_reads_def vis_def pending_def)
  qed
  have vis: "vis ?s = replay db (os_log ?s)"
    using assms(1) vis_commit_point[OF inv(1,2) assms(2)] by (simp add: st replay_append occ_inv_def)
  have wts': "or_wts (os_rows s r) < os_clock s + 1" for r
    using wts clk by (rule less_trans)
  have log: "\<forall>c\<in>set (os_log ?s). cm_end_ts c < os_clock s + 1"
    "sorted_wrt (\<lambda>c c'. cm_end_ts c < cm_end_ts c') (os_log ?s)"
    using assms(1) clk by (auto simp: occ_inv_def st sorted_wrt_append intro: less_trans)
  have "vis s = replay db (os_log s)" "serial_ok db (os_log s)"
    using assms(1) by (simp_all add: occ_inv_def)
  then have "serial_ok db (os_log ?s)"
    using reads by (auto simp: st serial_ok_append)
  then show ?thesis
    using thr pend vis wts' log unfolding occ_inv_def st by blast
qed

lemma occ_reach_inv:
  "occ_reach (<) rows s \<Longrightarrow> occ_inv (\<lambda>r. or_data (rows r)) s"
proof (induction rule: occ_reach.induct)
  case start
  show ?case
    by (auto simp: occ_inv_def occ_start_def row_occ_init_def thr_inv_def held_def active_def
        pend_inv_def vis_def pending_def)
next
  case (step s s')
  note inv = step.IH
  from step(2) show ?case
  proof cases
    case (start_txn t st)
    then show ?thesis using occ_inv_start_txn[OF inv] by simp
  next
    case (get_row t r type d txn')
    then show ?thesis using occ_inv_get_row[OF inv get_row(2,3)] by simp
  next
    case (get_row_abort t r type)
    then show ?thesis using occ_inv_quiet[OF inv] by (simp add: pending_def held_def)
  next
    case (update t k d)
    have "ac_row ` set ((accs s t)[k := (accs s t ! k)\<lparr>ac_data := d\<rparr>]) = ac_row ` set (accs s t)"
      by (metis (no_types, lifting) access.select_convs(2) access.surjective access.update_convs(3)
          list.set_map list_update_id map_update)
    moreover have "(os_thr s t)\<lparr>th_txn := x, th_phase := Running\<rparr> = (os_thr s t)\<lparr>th_txn := x\<rparr>" for x
      using update(2) by (cases "os_thr s t") simp
    ultimately show ?thesis
      using occ_inv_set_accs[OF inv update(2), of "(accs s t)[k := (accs s t ! k)\<lparr>ac_data := d\<rparr>]" Running]
        update(1) by simp
  next
    case (user_abort t)
    then show ?thesis using occ_inv_quiet[OF inv] by (simp add: pending_def held_def)
  next
    case (validate t)
    then show ?thesis
      using occ_inv_set_accs[OF inv validate(2), of "occ_sort (os_rows s) (accs s t)" "Latching 0"]
      by (simp add: occ_sort_def)
  next
    case (latch t k rows')
    then show ?thesis using occ_inv_latch[OF inv latch(2-4)] by simp
  next
    case (commit t)
    then show ?thesis using occ_inv_commit[OF inv commit(2,3)] by simp
  next
    case (return_row t k rows')
    then show ?thesis using occ_inv_return_row[OF inv return_row(2,3)] by simp
  next
    case (returned t)
    then show ?thesis using occ_inv_returned[OF inv returned(2)] by simp
  next
    case (release t j m)
    then show ?thesis using occ_inv_release[OF inv release(2,3)] by simp
  next
    case (finished t m)
    then show ?thesis using occ_inv_quiet[OF inv, of t] by (simp add: pending_def held_def)
  qed
qed

section \<open>The latching order\<close>

lemma strcmp_eq_0: "strcmp a b = 0 \<longleftrightarrow> a = b"
  by (induction a b rule: strcmp.induct) auto

lemma strcmp_swap: "strcmp b a = - strcmp a b"
  by (induction a b rule: strcmp.induct) auto

lemma strcmp_le_trans: "strcmp a b \<le> 0 \<Longrightarrow> strcmp b c \<le> 0 \<Longrightarrow> strcmp a c \<le> 0"
proof (induction a b arbitrary: c rule: strcmp.induct)
  case (4 x xs y ys)
  let ?n = "of_char :: char \<Rightarrow> nat"
  obtain z zs where c: "c = z # zs"
    using "4.prems"(2) by (cases c) auto
  have "?n x \<le> ?n y" "?n y \<le> ?n z"
    using "4.prems" by (simp_all add: c split: if_splits)
  then consider "?n x < ?n z" | "?n x = ?n y" "?n y = ?n z"
    by linarith
  then show ?case
    using 4 by cases (simp_all add: c)
next
  case 1
  then show ?case by simp
next
  case (2 y ys)
  show ?case by (cases c) simp_all
qed simp

lemma strcmp_refl [simp]: "strcmp a a = 0"
  by (simp add: strcmp_eq_0)

lemma strcmp_mixed:
  assumes "strcmp a b \<le> 0" "strcmp b c \<le> 0" "strcmp a c = 0"
  shows "strcmp a b = 0 \<and> strcmp b c = 0"
proof -
  have "a = c"
    using assms(3) by (simp add: strcmp_eq_0)
  then have "strcmp a b = 0"
    using assms(1,2) strcmp_swap[of b a] by simp
  then show ?thesis
    using assms(3) by (simp add: strcmp_eq_0)
qed

lemma not_occ_row_gt:
  "\<not> occ_row_gt rows a b \<longleftrightarrow> strcmp (or_table (rows a)) (or_table (rows b)) \<le> 0 \<and>
     (strcmp (or_table (rows a)) (or_table (rows b)) = 0 \<longrightarrow>
       or_pkey (rows a) \<le> or_pkey (rows b))"
  by (auto simp: occ_row_gt_def Let_def)

interpretation occ_order: swap_order "\<lambda>a b. occ_row_gt rows (ac_row a) (ac_row b)" for rows
proof unfold_locales
  show "\<not> occ_row_gt rows (ac_row y) (ac_row x)" if "occ_row_gt rows (ac_row x) (ac_row y)"
    for x y :: "'a access_scheme"
    using that strcmp_swap[of "or_table (rows (ac_row x))" "or_table (rows (ac_row y))"]
    by (auto simp: occ_row_gt_def Let_def)
  show "\<not> occ_row_gt rows (ac_row x) (ac_row z)"
    if "\<not> occ_row_gt rows (ac_row x) (ac_row y)" "\<not> occ_row_gt rows (ac_row y) (ac_row z)"
    for x y z :: "'a access_scheme"
    using that strcmp_le_trans strcmp_mixed unfolding not_occ_row_gt by (metis order.trans)
qed

lemma occ_sort_sorted:
  "sorted_wrt (\<lambda>a b. \<not> occ_row_gt rows (ac_row a) (ac_row b)) (occ_sort rows as)"
  unfolding occ_sort_def by (rule occ_order.bubble_sort_sorted)

lemma occ_row_gt_total:
  assumes "\<not> occ_row_gt rows a b" "\<not> occ_row_gt rows b a"
  shows "or_table (rows a) = or_table (rows b) \<and> or_pkey (rows a) = or_pkey (rows b)"
proof -
  have "strcmp (or_table (rows a)) (or_table (rows b)) = 0"
    using assms strcmp_swap[of "or_table (rows a)" "or_table (rows b)"]
    unfolding not_occ_row_gt by linarith
  then show ?thesis
    using assms unfolding not_occ_row_gt by (simp add: strcmp_eq_0)
qed

lemma occ_row_gt_trans:
  assumes "occ_row_gt rows a b" "occ_row_gt rows b c"
  shows "occ_row_gt rows a c"
proof -
  let ?a = "\<lambda>r. \<lparr>ac_type = RD, ac_row = r, ac_data = []\<rparr>"
  have "\<not> occ_row_gt rows c b"
    using occ_order.gt_asym[where rows = rows, of "?a b" "?a c"] assms(2) by simp
  then show ?thesis
    using occ_order.gt_negtrans[where rows = rows, of "?a a" "?a c" "?a b"] assms(1) by auto
qed

lemma occ_row_gt_irrefl: "\<not> occ_row_gt rows a a"
  by (simp add: occ_row_gt_def)

definition order_inv :: "occ_rows \<Rightarrow> occ_thread \<Rightarrow> bool" where
  "order_inv rows th = (let as = ot_accesses (th_txn th) in
     case th_phase th of
       Latching k \<Rightarrow> k \<le> length as \<and>
         sorted_wrt (\<lambda>a b. \<not> occ_row_gt rows (ac_row a) (ac_row b)) as
     | Releasing j m \<Rightarrow> j \<le> m \<and> m \<le> length as
     | _ \<Rightarrow> True)"

definition occ_latch_inv :: "occ_rows \<Rightarrow> occ_state \<Rightarrow> bool" where
  "occ_latch_inv rows s \<longleftrightarrow>
     (\<forall>r. or_table (os_rows s r) = or_table (rows r) \<and> or_pkey (os_rows s r) = or_pkey (rows r)) \<and>
     (\<forall>r u. or_latch (os_rows s r) = Some u \<longrightarrow> r \<in> ac_row ` set (held (os_thr s u))) \<and>
     (\<forall>t. order_inv rows (os_thr s t))"

lemma order_invD:
  "order_inv rows th \<Longrightarrow> th_phase th = Latching k \<Longrightarrow> k \<le> length (ot_accesses (th_txn th)) \<and>
     sorted_wrt (\<lambda>a b. \<not> occ_row_gt rows (ac_row a) (ac_row b)) (ot_accesses (th_txn th))"
  "order_inv rows th \<Longrightarrow> th_phase th = Releasing j m \<Longrightarrow>
     j \<le> m \<and> m \<le> length (ot_accesses (th_txn th))"
  by (simp_all add: order_inv_def Let_def)

lemma occ_latch_invD:
  assumes "occ_latch_inv rows s"
  shows "or_latch (os_rows s r) = Some u \<Longrightarrow> r \<in> ac_row ` set (held (os_thr s u))"
    and "order_inv rows (os_thr s t)"
    and "or_table (os_rows s r) = or_table (rows r) \<and> or_pkey (os_rows s r) = or_pkey (rows r)"
  using assms unfolding occ_latch_inv_def by blast+

lemma occ_latch_inv_cong:
  assumes "os_rows s = os_rows s'" "os_thr s = os_thr s'"
  shows "occ_latch_inv rows s \<longleftrightarrow> occ_latch_inv rows s'"
  by (simp add: occ_latch_inv_def assms)

lemma held_simps:
  "th_phase th = Latching k \<Longrightarrow> held th = take k (ot_accesses (th_txn th))"
  "th_phase th = Committing k \<Longrightarrow> held th = ot_accesses (th_txn th)"
  "th_phase th = Releasing j m \<Longrightarrow> held th = drop j (take m (ot_accesses (th_txn th)))"
  "th_phase th = Running \<Longrightarrow> held th = []" "th_phase th = Idle \<Longrightarrow> held th = []"
  by (simp_all add: held_def)

text \<open>A step of one thread, as far as latches and order are concerned.\<close>

lemma occ_latch_inv_upd:
  assumes "occ_latch_inv rows s"
    and "\<And>r. or_table (rows' r) = or_table (os_rows s r) \<and> or_pkey (rows' r) = or_pkey (os_rows s r)"
    and "\<And>r u. or_latch (rows' r) = Some u \<Longrightarrow>
      (u \<noteq> t \<and> or_latch (os_rows s r) = Some u) \<or> (u = t \<and> r \<in> ac_row ` set (held th'))"
    and "order_inv rows th'"
  shows "occ_latch_inv rows (s\<lparr>os_rows := rows', os_thr := (os_thr s)(t := th')\<rparr>)"
proof -
  have "r \<in> ac_row ` set (held (((os_thr s)(t := th')) u))" if "or_latch (rows' r) = Some u" for r u
    using assms(3)[OF that] occ_latch_invD(1)[OF assms(1), of r u] by auto
  moreover have "order_inv rows (((os_thr s)(t := th')) u)" for u
    using assms(4) occ_latch_invD(2)[OF assms(1)] by simp
  ultimately show ?thesis
    using assms(2) occ_latch_invD(3)[OF assms(1)] unfolding occ_latch_inv_def by simp
qed

lemma occ_latch_inv_thr:
  assumes "occ_latch_inv rows s" "ac_row ` set (held (os_thr s t)) \<subseteq> ac_row ` set (held th')"
    and "order_inv rows th'"
  shows "occ_latch_inv rows (s\<lparr>os_thr := (os_thr s)(t := th')\<rparr>)"
proof -
  have "occ_latch_inv rows (s\<lparr>os_rows := os_rows s, os_thr := (os_thr s)(t := th')\<rparr>)"
    using assms occ_latch_invD(1)[OF assms(1)] by (intro occ_latch_inv_upd) auto
  then show ?thesis by simp
qed

lemma occ_latch_inv_step:
  assumes "occ_latch_inv rows s" "occ_step ok s s'"
  shows "occ_latch_inv rows s'"
  using assms(2)
proof cases
  case (latch t k rows')
  let ?r = "ac_row (accs s t ! k)"
  have row: "rows' = (os_rows s)(?r := (os_rows s ?r)\<lparr>or_latch := Some t\<rparr>)"
    using latch(4) by (auto simp: row_occ_latch_def split: if_splits)
  have mem: "ac_row ` set (take (Suc k) (accs s t)) = insert ?r (ac_row ` set (take k (accs s t)))"
    using latch(3) by (simp add: take_Suc_nth)
  have old: "or_latch (os_rows s r) = Some t \<Longrightarrow> r \<in> ac_row ` set (take k (accs s t))" for r
    using occ_latch_invD(1)[OF assms(1), of r t] latch(2) by (simp add: held_simps)
  have "occ_latch_inv rows (s\<lparr>os_rows := rows', os_thr := (os_thr s)(t := (os_thr s t)\<lparr>th_phase := p\<rparr>)\<rparr>)"
    if "p = Latching (Suc k) \<or> p = Releasing 0 (Suc k)" for p
  proof (rule occ_latch_inv_upd[OF assms(1)])
    show "(u \<noteq> t \<and> or_latch (os_rows s r) = Some u) \<or>
        (u = t \<and> r \<in> ac_row ` set (held ((os_thr s t)\<lparr>th_phase := p\<rparr>)))"
      if "or_latch (rows' r) = Some u" for r u
      using that \<open>p = _ \<or> p = _\<close> row mem old[of r] by (auto simp: held_def split: if_splits)
  qed (use that latch(3) order_invD(1)[OF occ_latch_invD(2)[OF assms(1)] latch(2)] row in
      \<open>auto simp: order_inv_def\<close>)
  then show ?thesis
    unfolding latch(1) to_phase_def set_thr_def by simp
next
  case (release t j m)
  let ?r = "ac_row (accs s t ! j)"
  have m: "m \<le> length (accs s t)"
    using order_invD(2)[OF occ_latch_invD(2)[OF assms(1)] release(2)] by simp
  have split: "drop j (take m (accs s t)) = (accs s t ! j) # drop (Suc j) (take m (accs s t))"
    using m release(3) by (metis Cons_nth_drop_Suc length_take min_absorb2 nth_take)
  have old: "or_latch (os_rows s r) = Some t \<Longrightarrow> r \<in> ac_row ` set (drop j (take m (accs s t)))" for r
    using occ_latch_invD(1)[OF assms(1), of r t] release(2) by (simp add: held_simps)
  have "occ_latch_inv rows (s\<lparr>os_rows := row_occ_release (os_rows s) ?r,
      os_thr := (os_thr s)(t := (os_thr s t)\<lparr>th_phase := Releasing (Suc j) m\<rparr>)\<rparr>)"
  proof (rule occ_latch_inv_upd[OF assms(1)])
    show "(u \<noteq> t \<and> or_latch (os_rows s r) = Some u) \<or>
        (u = t \<and> r \<in> ac_row ` set (held ((os_thr s t)\<lparr>th_phase := Releasing (Suc j) m\<rparr>)))"
      if "or_latch (row_occ_release (os_rows s) ?r r) = Some u" for r u
      using that old[of r] unfolding split by (auto simp: held_def row_occ_release_def split: if_splits)
  qed (use release(3) m in \<open>auto simp: row_occ_release_def order_inv_def\<close>)
  then show ?thesis
    unfolding release(1) to_phase_def set_thr_def by simp
next
  case (return_row t k rows')
  have rows': "or_table (rows' r) = or_table (os_rows s r) \<and> or_pkey (rows' r) = or_pkey (os_rows s r) \<and>
      or_latch (rows' r) = or_latch (os_rows s r)" for r
    using return_row(3) by (auto simp: occ_return_row_def row_occ_write_def res_simps split: if_splits)
  have "or_latch (os_rows s r) = Some t \<Longrightarrow> r \<in> ac_row ` set (accs s t)" for r
    using occ_latch_invD(1)[OF assms(1), of r t] return_row(2) by (simp add: held_simps)
  then have "occ_latch_inv rows (s\<lparr>os_rows := rows',
      os_thr := (os_thr s)(t := (os_thr s t)\<lparr>th_phase := Committing k\<rparr>)\<rparr>)"
    using rows' by (intro occ_latch_inv_upd[OF assms(1)]) (auto simp: held_def order_inv_def)
  then show ?thesis
    unfolding return_row(1) to_phase_def set_thr_def by simp
next
  case (commit t)
  let ?th = "(os_thr s t)\<lparr>th_phase := Committing (length (accs s t)),
           th_txn := (th_txn (os_thr s t))\<lparr>ot_end_ts := os_clock s\<rparr>\<rparr>"
  have "occ_latch_inv rows (s\<lparr>os_thr := (os_thr s)(t := ?th)\<rparr>)"
    using commit(2) by (intro occ_latch_inv_thr[OF assms(1)]) (auto simp: held_def order_inv_def)
  then show ?thesis
    unfolding commit(1)
    by (subst occ_latch_inv_cong[where s' = "s\<lparr>os_thr := (os_thr s)(t := ?th)\<rparr>"])
       (simp_all add: occ_commit_point_def Let_def)
next
  case (validate t)
  have keys: "occ_row_gt (os_rows s) = occ_row_gt rows"
    using occ_latch_invD(3)[OF assms(1)] by (simp add: occ_row_gt_def fun_eq_iff)
  have "occ_latch_inv rows (s\<lparr>os_thr := (os_thr s)(t := (os_thr s t)
      \<lparr>th_txn := (th_txn (os_thr s t))\<lparr>ot_accesses := occ_sort (os_rows s) (accs s t)\<rparr>,
       th_phase := Latching 0\<rparr>)\<rparr>)"
    using validate(2) occ_sort_sorted[of "os_rows s" "accs s t"] keys
    by (intro occ_latch_inv_thr[OF assms(1)]) (auto simp: held_def order_inv_def)
  then show ?thesis
    unfolding validate(1) by simp
qed (auto intro!: occ_latch_inv_thr[OF assms(1)] simp: held_def order_inv_def)

lemma occ_reach_latch_inv: "occ_reach ok rows s \<Longrightarrow> occ_latch_inv rows s"
proof (induction rule: occ_reach.induct)
  case start
  show ?case
    by (simp add: occ_latch_inv_def occ_start_def row_occ_init_def order_inv_def)
next
  case (step s s')
  then show ?case by (blast intro: occ_latch_inv_step)
qed

text \<open>
  Who waits for whom while latching: thread \<open>t\<close> is at a row that \<open>u\<close> holds, and \<open>u\<close> itself is
  still latching. (A thread that commits or releases waits for nobody.)
\<close>

definition latching :: "occ_state \<Rightarrow> thd_id \<Rightarrow> bool" where
  "latching s t = (case phase s t of Latching k \<Rightarrow> k < length (accs s t) | _ \<Rightarrow> False)"

definition awaited :: "occ_state \<Rightarrow> thd_id \<Rightarrow> row_ptr" where
  "awaited s t = (case phase s t of Latching k \<Rightarrow> ac_row (accs s t ! k) | _ \<Rightarrow> 0)"

definition occ_waits :: "occ_state \<Rightarrow> (thd_id \<times> thd_id) set" where
  "occ_waits s = {(t, u). latching s t \<and> latching s u \<and> or_latch (os_rows s (awaited s t)) = Some u}"

definition occ_keyed :: "occ_rows \<Rightarrow> occ_state \<Rightarrow> bool" where
  "occ_keyed rows s \<longleftrightarrow> occ_latch_inv rows s \<and> (\<forall>t. distinct (map ac_row (accs s t))) \<and>
     (\<forall>r r'. or_table (rows r) = or_table (rows r') \<and> or_pkey (rows r) = or_pkey (rows r') \<longrightarrow> r = r')"

lemma occ_waits_up:
  assumes "occ_keyed rows s" "(t, u) \<in> occ_waits s"
  shows "occ_row_gt rows (awaited s u) (awaited s t)"
proof -
  have inv: "occ_latch_inv rows s"
    using assms(1) by (simp add: occ_keyed_def)
  obtain k where k: "phase s u = Latching k" "k < length (accs s u)"
    using assms(2) by (auto simp: occ_waits_def latching_def split: occ_phase.splits)
  have "awaited s t \<in> ac_row ` set (take k (accs s u))"
    using assms(2) occ_latch_invD(1)[OF inv, of "awaited s t" u] k(1)
    by (simp add: occ_waits_def held_simps)
  then obtain i where i: "i < k" "awaited s t = ac_row (accs s u ! i)"
    using k(2) by (auto simp: in_set_conv_nth)
  have u: "awaited s u = ac_row (accs s u ! k)"
    using k(1) by (simp add: awaited_def)
  have "\<not> occ_row_gt rows (awaited s t) (awaited s u)"
    using order_invD(1)[OF occ_latch_invD(2)[OF inv] k(1)] i k(2) u
      sorted_wrt_nth_less[of "\<lambda>a b. \<not> occ_row_gt rows (ac_row a) (ac_row b)" "accs s u" i k]
    by simp
  moreover have "awaited s t \<noteq> awaited s u"
    using assms(1) i k(2) u nth_eq_iff_index_eq[of "map ac_row (accs s u)" i k]
    by (simp add: occ_keyed_def)
  ultimately show ?thesis
    using occ_row_gt_total assms(1) unfolding occ_keyed_def by blast
qed

interpretation occ_wait: wait_order "\<lambda>s'. s' = s \<and> occ_keyed rows s'" occ_waits
  "\<lambda>t u. occ_row_gt rows (awaited s u) (awaited s t)" for rows s
proof unfold_locales
  show "\<not> occ_row_gt rows (awaited s t) (awaited s t)" for t
    by (rule occ_row_gt_irrefl)
  show "occ_row_gt rows (awaited s c) (awaited s a)"
    if "occ_row_gt rows (awaited s b) (awaited s a)" "occ_row_gt rows (awaited s c) (awaited s b)"
    for a b c
    using that(2,1) by (rule occ_row_gt_trans)
  show "occ_row_gt rows (awaited s b) (awaited s a)"
    if "s' = s \<and> occ_keyed rows s'" "(a, b) \<in> occ_waits s'" for s' a b
    using that occ_waits_up by blast
qed

section \<open>Validation run by one thread alone\<close>

definition latch_rows :: "thd_id option \<Rightarrow> access list \<Rightarrow> occ_rows \<Rightarrow> occ_rows" where
  "latch_rows l as rows = (\<lambda>r. if r \<in> ac_row ` set as then (rows r)\<lparr>or_latch := l\<rparr> else rows r)"

definition write_rows :: "ts_t \<Rightarrow> access list \<Rightarrow> occ_rows \<Rightarrow> occ_rows" where
  "write_rows ts as rows = (\<lambda>r. case map_of (writes_of as) r of None \<Rightarrow> rows r
     | Some d \<Rightarrow> (rows r)\<lparr>or_data := d, or_wts := ts\<rparr>)"

lemma occ_lock_loop_alone:
  assumes "distinct (map ac_row as)" "\<forall>a\<in>set as. or_latch (rows (ac_row a)) = None"
  shows "if \<forall>a\<in>set as. or_wts (rows (ac_row a)) \<le> ts
     then occ_lock_loop t ts as rows = Inr (True, as, latch_rows (Some t) as rows)
     else \<exists>pre. set pre \<subseteq> set as \<and>
       occ_lock_loop t ts as rows = Inr (False, pre, latch_rows (Some t) pre rows)"
  using assms
proof (induction as arbitrary: rows)
  case Nil
  then show ?case by (simp add: latch_rows_def)
next
  case (Cons a as)
  let ?rows = "rows(ac_row a := (rows (ac_row a))\<lparr>or_latch := Some t\<rparr>)"
  have latch: "row_occ_latch t rows (ac_row a) = Inr ?rows"
    using Cons.prems(2) by (simp add: row_occ_latch_def)
  have same: "?rows (ac_row b) = rows (ac_row b)" if "b \<in> set as" for b
    using that Cons.prems(1) by (auto simp: image_iff)
  have merge: "latch_rows (Some t) bs ?rows = latch_rows (Some t) (a # bs) rows" for bs
    by (auto simp: latch_rows_def fun_eq_iff)
  have IH: "if \<forall>b\<in>set as. or_wts (rows (ac_row b)) \<le> ts
     then occ_lock_loop t ts as ?rows = Inr (True, as, latch_rows (Some t) as ?rows)
     else \<exists>pre. set pre \<subseteq> set as \<and>
       occ_lock_loop t ts as ?rows = Inr (False, pre, latch_rows (Some t) pre ?rows)"
    using Cons.IH[of ?rows] Cons.prems same by simp
  show ?case
  proof (cases "or_wts (rows (ac_row a)) \<le> ts")
    case False
    then show ?thesis
      using latch by (auto simp: row_occ_validate_def latch_rows_def fun_eq_iff intro!: exI[of _ "[a]"])
  next
    case True
    then have val: "row_occ_validate ?rows (ac_row a) ts"
      by (simp add: row_occ_validate_def not_less)
    show ?thesis
    proof (cases "\<forall>b\<in>set as. or_wts (rows (ac_row b)) \<le> ts")
      case all: True
      then show ?thesis
        using IH val latch merge[of as] True by (simp del: fun_upd_apply)
    next
      case False
      then obtain pre where "set pre \<subseteq> set as"
        "occ_lock_loop t ts as ?rows = Inr (False, pre, latch_rows (Some t) pre ?rows)"
        using IH unfolding if_not_P[OF False] by blast
      then have "set (a # pre) \<subseteq> set (a # as) \<and>
        occ_lock_loop t ts (a # as) rows = Inr (False, a # pre, latch_rows (Some t) (a # pre) rows)"
        using val latch merge[of pre] by (auto simp del: fun_upd_apply)
      then show ?thesis
        using False by auto
    qed
  qed
qed

lemma occ_lock_loop_blocked:
  assumes "\<forall>a\<in>set as. or_wts (rows (ac_row a)) \<le> ts"
    and "\<not> distinct (map ac_row as) \<or> (\<exists>a\<in>set as. or_latch (rows (ac_row a)) \<noteq> None)"
  shows "occ_lock_loop t ts as rows = Inl Blocked"
  using assms
proof (induction as arbitrary: rows)
  case (Cons a as)
  let ?rows = "rows(ac_row a := (rows (ac_row a))\<lparr>or_latch := Some t\<rparr>)"
  show ?case
  proof (cases "or_latch (rows (ac_row a))")
    case None
    have "\<forall>b\<in>set as. or_wts (?rows (ac_row b)) \<le> ts"
      using Cons.prems(1) by simp
    moreover have "\<not> distinct (map ac_row as) \<or> (\<exists>b\<in>set as. or_latch (?rows (ac_row b)) \<noteq> None)"
      using Cons.prems(2) None by (auto simp: image_iff)
    ultimately have "occ_lock_loop t ts as ?rows = Inl Blocked"
      by (rule Cons.IH)
    then show ?thesis
      using None Cons.prems(1) by (simp add: row_occ_latch_def row_occ_validate_def not_less)
  next
    case (Some u)
    then show ?thesis by (simp add: row_occ_latch_def)
  qed
qed simp

lemma write_rows_Cons:
  assumes "ac_row a \<notin> ac_row ` set as"
  shows "write_rows ts (a # as) rows = write_rows ts as (if ac_type a = WR
     then rows(ac_row a := (rows (ac_row a))\<lparr>or_data := ac_data a, or_wts := ts\<rparr>) else rows)"
proof -
  have "map_of (writes_of as) (ac_row a) = None"
    using assms by (auto simp: map_of_eq_None_iff fst_writes_of image_iff)
  then show ?thesis
    by (auto simp: write_rows_def writes_of_def fun_eq_iff split: option.splits)
qed

lemma occ_return_rows_commit:
  assumes "distinct (map ac_row as)" "\<forall>a\<in>set as. or_wts (rows (ac_row a)) < ts"
  shows "occ_return_rows RCOK ts as rows = Inr (write_rows ts as rows)"
  using assms
proof (induction as arbitrary: rows)
  case Nil
  then show ?case by (simp add: write_rows_def)
next
  case (Cons a as)
  let ?rows = "if ac_type a = WR
     then rows(ac_row a := (rows (ac_row a))\<lparr>or_data := ac_data a, or_wts := ts\<rparr>) else rows"
  have "occ_return_row (ac_type a) ts rows a = Inr ?rows"
    using Cons.prems(2) by (simp add: occ_return_row_def row_occ_write_def)
  moreover have "\<forall>b\<in>set as. or_wts (?rows (ac_row b)) < ts"
    using Cons.prems by (auto simp: image_iff)
  then have "occ_return_rows RCOK ts as ?rows = Inr (write_rows ts as ?rows)"
    using Cons.IH Cons.prems(1) by simp
  ultimately show ?case
    using Cons.prems(1) by (simp add: write_rows_Cons del: if_split)
qed

lemma occ_return_rows_abort: "occ_return_rows Abort ts as rows = Inr rows"
  by (induction as) (auto simp: occ_return_row_def)

lemma occ_release_all_latch: "occ_release_all as rows = latch_rows None as rows"
proof (induction as arbitrary: rows)
  case (Cons a as)
  have "occ_release_all (a # as) rows = latch_rows None as (row_occ_release rows (ac_row a))"
    using Cons by (simp add: occ_release_all_def)
  then show ?case
    by (auto simp: latch_rows_def row_occ_release_def fun_eq_iff)
qed (simp add: occ_release_all_def latch_rows_def)

lemma write_rows_perm:
  assumes "mset as = mset bs" "distinct (map ac_row bs)"
  shows "write_rows ts as = write_rows ts bs"
proof -
  have "mset (writes_of as) = mset (writes_of bs)"
    using assms(1) by (simp add: writes_of_def mset_filter)
  moreover have "distinct (map fst (writes_of as))" "distinct (map fst (writes_of bs))"
    using assms distinct_writes_of mset_eq_imp_distinct_iff
    by (metis mset_map)+
  ultimately have "map_of (writes_of as) = map_of (writes_of bs)"
    by (intro map_of_inject_set[THEN iffD2]) (auto dest: mset_eq_setD)
  then show ?thesis
    by (simp add: write_rows_def fun_eq_iff)
qed

lemma mset_occ_sort: "mset (occ_sort rows as) = mset as"
  by (simp add: occ_sort_def)

lemma latch_write_latch:
  assumes "\<forall>r. or_latch (rows r) = None" "ac_row ` set as \<subseteq> ac_row ` set bs"
  shows "latch_rows None bs (write_rows ts as (latch_rows l bs rows)) = write_rows ts as rows"
    and "latch_rows None bs (latch_rows l bs rows) = rows"
proof -
  have "map_of (writes_of as) r = None" if "r \<notin> ac_row ` set bs" for r
    using that assms(2) by (auto simp: map_of_eq_None_iff fst_writes_of)
  then show "latch_rows None bs (write_rows ts as (latch_rows l bs rows)) = write_rows ts as rows"
    using assms(1) by (auto simp: latch_rows_def write_rows_def fun_eq_iff split: option.splits)
  show "latch_rows None bs (latch_rows l bs rows) = rows"
    using assms(1) by (auto simp: latch_rows_def fun_eq_iff)
qed

section \<open>A scheduler\<close>

text \<open>
  An executable reading of the step relation: a schedule names which thread moves and, in the
  body of a transaction, what it does. \<open>None\<close> when the thread cannot move.
\<close>

datatype occ_cmd = CBegin thd_id ts_t | CGet thd_id row_ptr access_t | CUpdate thd_id nat bytes
  | CValidate thd_id | CMove thd_id

definition occ_move :: "thd_id \<Rightarrow> occ_state \<Rightarrow> occ_state option" where
  "occ_move t s = (case phase s t of
       Idle \<Rightarrow> None | Running \<Rightarrow> None
     | Latching k \<Rightarrow>
         if k < length (accs s t)
         then (case row_occ_latch t (os_rows s) (ac_row (accs s t ! k)) of Inl _ \<Rightarrow> None
           | Inr rows' \<Rightarrow> Some (to_phase (s\<lparr>os_rows := rows'\<rparr>) t
               (if row_occ_validate rows' (ac_row (accs s t ! k)) (start_ts s t)
                then Latching (Suc k) else Releasing 0 (Suc k))))
         else if k = length (accs s t) \<and> os_clock s \<noteq> UINT64_MAX
         then Some (occ_commit_point s t) else None
     | Committing k \<Rightarrow> (case k of
           0 \<Rightarrow> Some (to_phase s t (Releasing 0 (length (accs s t))))
         | Suc k \<Rightarrow> (case occ_return_row (ac_type (accs s t ! k)) (end_ts s t) (os_rows s)
               (accs s t ! k) of Inl _ \<Rightarrow> None
             | Inr rows' \<Rightarrow> Some (to_phase (s\<lparr>os_rows := rows'\<rparr>) t (Committing k))))
     | Releasing j m \<Rightarrow>
         if j < m
         then Some (to_phase (s\<lparr>os_rows := row_occ_release (os_rows s) (ac_row (accs s t ! j))\<rparr>) t
               (Releasing (Suc j) m))
         else if j = m then Some (to_phase s t Idle) else None)"

fun occ_exec1 :: "(ts_t \<Rightarrow> ts_t \<Rightarrow> bool) \<Rightarrow> occ_cmd \<Rightarrow> occ_state \<Rightarrow> occ_state option" where
  "occ_exec1 ok (CBegin t st) s =
     (if phase s t = Idle \<and> ok st (os_clock s) then Some (occ_begin s t st) else None)"
| "occ_exec1 ok (CGet t r type) s =
     (if phase s t = Running
      then (case occ_get_row (os_rows s) (th_txn (os_thr s t)) r type of
          Inl _ \<Rightarrow> None
        | Inr None \<Rightarrow> Some (to_phase s t Idle)
        | Inr (Some (d, txn')) \<Rightarrow> Some (set_thr s t ((os_thr s t)\<lparr>th_txn := txn',
            th_reads := th_reads (os_thr s t) @ [(r, d)]\<rparr>)))
      else None)"
| "occ_exec1 ok (CUpdate t k d) s =
     (if phase s t = Running \<and> k < length (accs s t)
      then Some (set_accs s t ((accs s t)[k := (accs s t ! k)\<lparr>ac_data := d\<rparr>])) else None)"
| "occ_exec1 ok (CValidate t) s =
     (if phase s t = Running
      then Some (to_phase (set_accs s t (occ_sort (os_rows s) (accs s t))) t (Latching 0))
      else None)"
| "occ_exec1 ok (CMove t) s = occ_move t s"

fun occ_exec :: "(ts_t \<Rightarrow> ts_t \<Rightarrow> bool) \<Rightarrow> occ_cmd list \<Rightarrow> occ_state \<Rightarrow> occ_state option" where
  "occ_exec ok [] s = Some s"
| "occ_exec ok (c # cs) s =
     (case occ_exec1 ok c s of None \<Rightarrow> None | Some s' \<Rightarrow> occ_exec ok cs s')"

lemma occ_step_latch:
  assumes "phase s t = Latching k" "k < length (accs s t)"
    and "row_occ_latch t (os_rows s) (ac_row (accs s t ! k)) = Inr rows'"
  shows "row_occ_validate rows' (ac_row (accs s t ! k)) (start_ts s t) \<Longrightarrow>
      occ_step ok s (to_phase (s\<lparr>os_rows := rows'\<rparr>) t (Latching (Suc k)))"
    and "\<not> row_occ_validate rows' (ac_row (accs s t ! k)) (start_ts s t) \<Longrightarrow>
      occ_step ok s (to_phase (s\<lparr>os_rows := rows'\<rparr>) t (Releasing 0 (Suc k)))"
  using occ_step.latch[OF assms, of ok] by (simp_all del: to_phase_def)

lemma occ_move_step: "occ_move t s = Some s' \<Longrightarrow> occ_step ok s s'"
  unfolding occ_move_def
  by (auto simp del: to_phase_def split: occ_phase.splits nat.splits if_splits sum.splits
      intro: occ_step.intros occ_step_latch dest: sym)

lemma occ_exec1_step: "occ_exec1 ok c s = Some s' \<Longrightarrow> occ_step ok s s'"
  by (cases c)
     (auto simp del: to_phase_def set_accs_def set_thr_def occ_begin_def
       split: if_splits sum.splits option.splits intro: occ_step.intros occ_move_step)

lemma occ_exec_reach:
  "occ_reach ok rows s \<Longrightarrow> occ_exec ok cs s = Some s' \<Longrightarrow> occ_reach ok rows s'"
  by (induction cs arbitrary: s)
     (auto split: option.splits intro: occ_reach.step[OF _ occ_exec1_step])

text \<open>
  Two threads that each read row 7, change their copy and commit; the start timestamps are an
  argument.
\<close>

definition rows_ex :: occ_rows where
  "rows_ex r = \<lparr>or_table = ''MAIN_TABLE'', or_pkey = of_nat r, or_data = [0], or_wts = 0,
     or_latch = None\<rparr>"

definition rows_ex' :: occ_rows where
  "rows_ex' r = (rows_ex r)\<lparr>or_table := replicate r (CHR ''a'')\<rparr>"

definition increments :: "ts_t \<Rightarrow> ts_t \<Rightarrow> thd_id list \<Rightarrow> occ_cmd list" where
  "increments a b ts =
     [CBegin 0 a, CBegin 1 b, CGet 0 7 WR, CGet 1 7 WR, CUpdate 0 0 [1], CUpdate 1 0 [1],
      CValidate 0, CMove 0, CMove 0, CMove 0, CMove 0, CMove 0, CMove 0,
      CValidate 1] @ map CMove ts"

lemmas occ_ex_defs = increments_def occ_start_def row_occ_init_def rows_ex_def occ_get_row_def
  row_occ_access_def occ_move_def row_occ_latch_def row_occ_validate_def occ_commit_point_def
  occ_return_row_def row_occ_write_def row_occ_release_def occ_sort_def bubble_sort_def
  writes_of_def

lemma run_separate_clocks:
  "map_option os_log (occ_exec (\<lambda>_ _. True) (increments 100 101 [1, 1, 1, 1, 1, 1]) (occ_start rows_ex)) =
     Some [\<lparr>cm_thd = 0, cm_end_ts = 1, cm_reads = [(7, [0])], cm_writes = [(7, [1])]\<rparr>,
           \<lparr>cm_thd = 1, cm_end_ts = 2, cm_reads = [(7, [0])], cm_writes = [(7, [1])]\<rparr>]"
  by (simp add: occ_ex_defs)

lemma run_enclave_clock:
  "map_option os_log (occ_exec (<) (increments 0 0 [1, 1, 1]) (occ_start rows_ex)) =
     Some [\<lparr>cm_thd = 0, cm_end_ts = 1, cm_reads = [(7, [0])], cm_writes = [(7, [1])]\<rparr>]"
  by (simp add: occ_ex_defs)

section \<open>Properties\<close>

text \<open>
  C1: Serializability of the configured concurrency control. In every interleaving of any number
  of threads running transactions under OCC with per-row validation, where each transaction's start
  timestamp is below the enclave's clock when it begins: the committed transactions, taken in commit
  order (which is the order of their commit timestamps), each read exactly what a serial
  execution in that order shows them; and once no thread is inside a transaction the rows hold
  exactly what that serial execution leaves. So no committed write is lost and no transaction
  commits on stale or half-written data.
\<close>

theorem occ_serializable:
  assumes "occ_reach (<) rows s"
  shows "serial_ok (\<lambda>r. or_data (rows r)) (os_log s) \<and>
     sorted_wrt (\<lambda>c c'. cm_end_ts c < cm_end_ts c') (os_log s) \<and>
     ((\<forall>t. phase s t = Idle) \<longrightarrow>
        (\<forall>r. or_data (os_rows s r) = replay (\<lambda>r. or_data (rows r)) (os_log s) r))"
proof -
  have inv: "occ_inv (\<lambda>r. or_data (rows r)) s"
    by (rule occ_reach_inv[OF assms])
  have "vis s r = or_data (os_rows s r)" if "\<forall>t. phase s t = Idle" for r
    using that by (auto simp: vis_def pending_def split: option.splits)
  then show ?thesis
    using inv unfolding occ_inv_def by metis
qed

theorem occ_serializable_witness:
  "\<exists>s. occ_exec (<) (increments 0 0 [1, 1, 1]) (occ_start rows_ex) = Some s \<and> length (os_log s) = 1 \<and>
     serial_ok (\<lambda>r. or_data (rows_ex r)) (os_log s)"
proof -
  obtain s where s: "occ_exec (<) (increments 0 0 [1, 1, 1]) (occ_start rows_ex) = Some s"
      "length (os_log s) = 1"
    using run_enclave_clock by fastforce
  have "occ_reach (<) rows_ex s"
    by (rule occ_exec_reach[OF occ_reach.start s(1)])
  with s show ?thesis
    using occ_serializable[of rows_ex s] by blast
qed

text \<open>
   The start timestamps have to come from the enclave's clock. With start timestamps from
  elsewhere (as they are: the untrusted scheduler's counter, passed in through
  \<open>run_txn_ecall\<close>) two transactions can read the same row, both validate and both commit, so
  that the first one's update is lost: the committed history is not serializable in commit order.
\<close>

theorem occ_foreign_clock_lost_update:
  "\<exists>s. occ_reach (\<lambda>_ _. True) rows_ex s \<and> length (os_log s) = 2 \<and>
     \<not> serial_ok (\<lambda>r. or_data (rows_ex r)) (os_log s)"
proof -
  obtain s where s: "occ_exec (\<lambda>_ _. True) (increments 100 101 [1, 1, 1, 1, 1, 1]) (occ_start rows_ex) = Some s"
    and log: "os_log s =
       [\<lparr>cm_thd = 0, cm_end_ts = 1, cm_reads = [(7, [0])], cm_writes = [(7, [1])]\<rparr>,
        \<lparr>cm_thd = 1, cm_end_ts = 2, cm_reads = [(7, [0])], cm_writes = [(7, [1])]\<rparr>]"
    using run_separate_clocks by fastforce
  have "occ_reach (\<lambda>_ _. True) rows_ex s"
    by (rule occ_exec_reach[OF occ_reach.start s])
  then show ?thesis
    using log by (intro exI[of _ s]) (simp add: apply_writes_def)
qed

text \<open>
  C6: Validation cannot deadlock. When every transaction touches a row at most once and rows
  are identified by table name and primary key, the relation "waits for a row latched by another
  validating thread" has no cycle in any reachable state, because the accesses are
  sorted before they are latched. This holds whatever start timestamps are used.
\<close>

theorem occ_no_deadlock:
  assumes "occ_reach ok rows s"
    and "\<forall>r r'. or_table (rows r) = or_table (rows r') \<and> or_pkey (rows r) = or_pkey (rows r') \<longrightarrow> r = r'"
    and "\<forall>t. distinct (map ac_row (accs s t))"
  shows "acyclic (occ_waits s)"
  using occ_wait.no_cycle[of "{s}" s rows] occ_reach_latch_inv[OF assms(1)] assms(2,3)
  by (simp add: occ_keyed_def)

theorem occ_no_deadlock_witness:
  "\<exists>s. occ_exec (\<lambda>_ _. True) [CBegin 0 5, CGet 0 7 WR, CValidate 0, CMove 0] (occ_start rows_ex') = Some s \<and>
     or_latch (os_rows s 7) = Some 0 \<and> acyclic (occ_waits s)"
proof -
  obtain s where s: "occ_exec (\<lambda>_ _. True) [CBegin 0 5, CGet 0 7 WR, CValidate 0, CMove 0]
      (occ_start rows_ex') = Some s"
    and st: "or_latch (os_rows s 7) = Some 0" "\<forall>t. distinct (map ac_row (accs s t))"
    by (simp add: occ_ex_defs rows_ex'_def)
  have "acyclic (occ_waits s)"
    using occ_no_deadlock[OF occ_exec_reach[OF occ_reach.start s] _ st(2)]
    by (simp add: rows_ex'_def)
  with s st(1) show ?thesis by blast
qed

text \<open>
  C3: \<open>OptCC::per_row_validate\<close> run while no row is latched and the transaction touches no row
  twice returns, and decides correctly: it commits exactly when no row it accessed has been
  written after its start timestamp; then every row it wrote holds its local copy with the commit
  timestamp, the clock has advanced and nothing else has changed. Otherwise no row and no clock
  changes. Either way all latches are free and the access list is empty.
\<close>

theorem per_row_validate_decides:
  assumes "\<forall>r. or_latch (rows r) = None" and "distinct (map ac_row (ot_accesses txn))"
    and "\<forall>a\<in>set (ot_accesses txn). or_wts (rows (ac_row a)) < clock"
  shows "per_row_validate t txn clock rows =
     (if \<forall>a\<in>set (ot_accesses txn). or_wts (rows (ac_row a)) \<le> ot_start_ts txn
      then Inr (RCOK, txn\<lparr>ot_accesses := [], ot_end_ts := clock\<rparr>, clock + 1,
                write_rows clock (ot_accesses txn) rows)
      else Inr (Abort, txn\<lparr>ot_accesses := []\<rparr>, clock, rows))"
proof -
  let ?as = "occ_sort rows (ot_accesses txn)"
  have perm: "set ?as = set (ot_accesses txn)" "distinct (map ac_row ?as)"
    using assms(2) by (simp_all add: occ_sort_def)
  note loop = occ_lock_loop_alone[OF perm(2), of rows "ot_start_ts txn" t, unfolded perm(1)]
  show ?thesis
  proof (cases "\<forall>a\<in>set (ot_accesses txn). or_wts (rows (ac_row a)) \<le> ot_start_ts txn")
    case True
    let ?lr = "latch_rows (Some t) ?as rows"
    have "distinct (map ac_row (rev ?as))" "\<forall>a\<in>set (rev ?as). or_wts (?lr (ac_row a)) < clock"
      using perm assms(3) by (auto simp: rev_map[symmetric] latch_rows_def)
    then have "occ_return_rows RCOK clock (rev ?as) ?lr = Inr (write_rows clock (ot_accesses txn) ?lr)"
      using write_rows_perm[of "rev ?as" "ot_accesses txn" clock] assms(2)
      by (simp add: occ_return_rows_commit mset_occ_sort)
    moreover have "latch_rows None ?as (write_rows clock (ot_accesses txn) ?lr) =
        write_rows clock (ot_accesses txn) rows"
      using latch_write_latch(1)[OF assms(1), of "ot_accesses txn" ?as] perm(1) by simp
    ultimately show ?thesis
      using True loop assms(1)
      by (simp add: per_row_validate_def occ_cleanup_def occ_release_all_latch)
  next
    case False
    then obtain pre where "occ_lock_loop t (ot_start_ts txn) ?as rows =
        Inr (False, pre, latch_rows (Some t) pre rows)"
      using loop assms(1) unfolding if_not_P[OF False] by blast
    then show ?thesis
      using latch_write_latch(2)[OF assms(1), of pre pre] unfolding if_not_P[OF False]
      by (simp add: per_row_validate_def occ_cleanup_def occ_return_rows_abort occ_release_all_latch)
  qed
qed

theorem per_row_validate_decides_witness:
  "per_row_validate 0 \<lparr>ot_start_ts = 5, ot_end_ts = 0,
      ot_accesses = [\<lparr>ac_type = WR, ac_row = 7, ac_data = [1]\<rparr>]\<rparr> 9 rows_ex =
   Inr (RCOK, \<lparr>ot_start_ts = 5, ot_end_ts = 9, ot_accesses = []\<rparr>, 10,
      write_rows 9 [\<lparr>ac_type = WR, ac_row = 7, ac_data = [1]\<rparr>] rows_ex)"
  by (subst per_row_validate_decides) (simp_all add: rows_ex_def)

text \<open>
   A transaction that accessed the same row twice (a read followed by a write, say) and is
  otherwise valid never returns from \<open>per_row_validate\<close>: the second latch of the row waits for
  the thread's own first one.
\<close>

theorem occ_double_access_blocks:
  assumes "\<not> distinct (map ac_row (ot_accesses txn))"
    and "\<forall>a\<in>set (ot_accesses txn). or_wts (rows (ac_row a)) \<le> ot_start_ts txn"
  shows "per_row_validate t txn clock rows = Inl Blocked"
proof -
  have "occ_lock_loop t (ot_start_ts txn) (occ_sort rows (ot_accesses txn)) rows = Inl Blocked"
    using assms by (intro occ_lock_loop_blocked) (simp_all add: occ_sort_def)
  then show ?thesis
    by (simp add: per_row_validate_def)
qed

theorem occ_double_access_blocks_witness:
  "per_row_validate 0 \<lparr>ot_start_ts = 5, ot_end_ts = 0,
      ot_accesses = [\<lparr>ac_type = RD, ac_row = 7, ac_data = [0]\<rparr>,
        \<lparr>ac_type = WR, ac_row = 7, ac_data = [1]\<rparr>]\<rparr> 9 rows_ex = Inl Blocked"
  by (rule occ_double_access_blocks) (simp_all add: rows_ex_def)

end
