(* ===== verification/Silo.thy ===== *)
theory Silo
  imports Bubble_Sort
begin

text \<open>
  Silo-style concurrency control: \<open>trusted/concurrency_control/row_silo.cpp\<close> (with
  \<open>ATOMIC_WORD\<close>: the transaction id of a row and its lock share one 64-bit word, the lock being
  bit 63) and \<open>txn_man::validate_silo\<close> of \<open>trusted/concurrency_control/silo.cpp\<close>, with both
  values of \<open>_pre_abort\<close> and \<open>_validation_no_wait\<close>. A spin on a lock that somebody holds is
  \<open>Blocked\<close>. The retry loop of the no-wait mode has fuel; since a retry by a thread that runs
  alone starts from the rows the last attempt started from, one attempt decides.

  Shown: what the word operations do to id and lock bit, the exact outcome of a validation that runs
  alone, and that a transaction which both reads and writes a row can never commit.
\<close>

section \<open>The row manager\<close>

definition LOCK_BIT :: u64 where
  "LOCK_BIT = push_bit 63 1"

record silo_row =
  sr_pkey :: u64
  sr_data :: bytes
  sr_tid_word :: u64

type_synonym silo_rows = "nat \<Rightarrow> silo_row"

definition silo_locked :: "silo_row \<Rightarrow> bool" where
  "silo_locked r \<longleftrightarrow> sr_tid_word r AND LOCK_BIT \<noteq> 0"

definition silo_init :: "silo_row \<Rightarrow> silo_row" where
  "silo_init r = r\<lparr>sr_tid_word := 0\<rparr>"

definition silo_get_tid :: "silo_row \<Rightarrow> u64" where
  "silo_get_tid r = sr_tid_word r AND NOT LOCK_BIT"

definition silo_access :: "silo_row \<Rightarrow> (bytes \<times> u64) res" where
  "silo_access r = (if silo_locked r then Inl Blocked
     else Inr (sr_data r, sr_tid_word r AND NOT LOCK_BIT))"

definition silo_validate :: "silo_row \<Rightarrow> u64 \<Rightarrow> bool \<Rightarrow> bool" where
  "silo_validate r tid in_write_set =
     (if in_write_set then tid = sr_tid_word r AND NOT LOCK_BIT
      else if silo_locked r then False
      else if tid \<noteq> sr_tid_word r AND NOT LOCK_BIT then False else True)"

definition silo_write :: "silo_row \<Rightarrow> bytes \<Rightarrow> u64 \<Rightarrow> silo_row res" where
  "silo_write r data tid =
     assert_res (sr_tid_word r AND NOT LOCK_BIT < tid \<and> silo_locked r)
       (Inr (r\<lparr>sr_data := data, sr_tid_word := tid OR LOCK_BIT\<rparr>))"

definition silo_lock :: "silo_row \<Rightarrow> silo_row res" where
  "silo_lock r = (if silo_locked r then Inl Blocked
     else Inr (r\<lparr>sr_tid_word := sr_tid_word r OR LOCK_BIT\<rparr>))"

definition silo_release :: "silo_row \<Rightarrow> silo_row res" where
  "silo_release r = assert_res (silo_locked r)
     (Inr (r\<lparr>sr_tid_word := sr_tid_word r AND NOT LOCK_BIT\<rparr>))"

definition silo_try_lock :: "silo_row \<Rightarrow> silo_row option" where
  "silo_try_lock r = (if silo_locked r then None
     else Some (r\<lparr>sr_tid_word := sr_tid_word r OR LOCK_BIT\<rparr>))"

section \<open>Validation\<close>

record silo_acc =
  sa_type :: access_t
  sa_row :: nat
  sa_data :: bytes
  sa_tid :: u64

record silo_txn =
  st_accesses :: "silo_acc list"
  st_cur_tid :: u64
  st_pre_abort :: bool
  st_no_wait :: bool

definition silo_write_set :: "silo_rows \<Rightarrow> silo_acc list \<Rightarrow> silo_acc list" where
  "silo_write_set rows as = bubble_sort (\<lambda>a b. sr_pkey (rows (sa_row b)) < sr_pkey (rows (sa_row a)))
     (filter (\<lambda>a. sa_type a = WR) as)"

definition silo_read_set :: "silo_acc list \<Rightarrow> silo_acc list" where
  "silo_read_set as = filter (\<lambda>a. sa_type a \<noteq> WR) as"

text \<open>The scan that gives up early when some row has a new id already.\<close>

definition silo_unchanged :: "silo_rows \<Rightarrow> silo_acc list \<Rightarrow> bool" where
  "silo_unchanged rows as = list_all (\<lambda>a. silo_get_tid (rows (sa_row a)) = sa_tid a) as"

text \<open>
  One attempt of the no-wait mode at locking the write set: \<open>Some True\<close> all locked, \<open>None\<close> a row
  was busy, \<open>Some False\<close> a row has a new id. The number is \<open>num_locks\<close>.
\<close>

fun silo_try_locks :: "silo_acc list \<Rightarrow> silo_rows \<Rightarrow> bool option \<times> nat \<times> silo_rows" where
  "silo_try_locks [] rows = (Some True, 0, rows)"
| "silo_try_locks (a # as) rows =
     (case silo_try_lock (rows (sa_row a)) of
        None \<Rightarrow> (None, 0, rows)
      | Some r \<Rightarrow>
          let rows' = rows(sa_row a := r) in
          if silo_get_tid r \<noteq> sa_tid a then (Some False, 1, rows')
          else (case silo_try_locks as rows' of (st, n, rows'') \<Rightarrow> (st, Suc n, rows'')))"

fun silo_release_all :: "silo_acc list \<Rightarrow> silo_rows \<Rightarrow> silo_rows res" where
  "silo_release_all [] rows = Inr rows"
| "silo_release_all (a # as) rows =
     bind_res (silo_release (rows (sa_row a))) (\<lambda>r. silo_release_all as (rows(sa_row a := r)))"

text \<open>The retry loop; the result is the return code, \<open>num_locks\<close> and the rows.\<close>

fun silo_lock_no_wait ::
  "nat \<Rightarrow> bool \<Rightarrow> silo_acc list \<Rightarrow> silo_acc list \<Rightarrow> silo_rows \<Rightarrow> (RC \<times> nat \<times> silo_rows) res" where
  "silo_lock_no_wait 0 pre ws rs rows = Inl Diverges"
| "silo_lock_no_wait (Suc fuel) pre ws rs rows =
     (case silo_try_locks ws rows of
        (Some True, n, rows') \<Rightarrow> Inr (RCOK, n, rows')
      | (Some False, n, rows') \<Rightarrow> Inr (Abort, n, rows')
      | (None, n, rows') \<Rightarrow>
          bind_res (silo_release_all (take n ws) rows') (\<lambda>rows''.
            if pre \<and> \<not> (silo_unchanged rows'' ws \<and> silo_unchanged rows'' rs)
            then Inr (Abort, 0, rows'')
            else silo_lock_no_wait fuel pre ws rs rows''))"

fun silo_lock_wait :: "silo_acc list \<Rightarrow> silo_rows \<Rightarrow> (RC \<times> nat \<times> silo_rows) res" where
  "silo_lock_wait [] rows = Inr (RCOK, 0, rows)"
| "silo_lock_wait (a # as) rows =
     bind_res (silo_lock (rows (sa_row a))) (\<lambda>r.
       let rows' = rows(sa_row a := r) in
       if silo_get_tid r \<noteq> sa_tid a then Inr (Abort, 1, rows')
       else bind_res (silo_lock_wait as rows') (\<lambda>(rc, n, rows''). Inr (rc, Suc n, rows'')))"

text \<open>The validation of a set, with the running maximum of the ids; \<open>None\<close> when one fails.\<close>

fun silo_validate_set :: "bool \<Rightarrow> silo_acc list \<Rightarrow> silo_rows \<Rightarrow> u64 \<Rightarrow> u64 option" where
  "silo_validate_set w [] rows m = Some m"
| "silo_validate_set w (a # as) rows m =
     (if silo_validate (rows (sa_row a)) (sa_tid a) w
      then silo_validate_set w as rows (if m < sa_tid a then sa_tid a else m) else None)"

fun silo_write_back :: "u64 \<Rightarrow> silo_acc list \<Rightarrow> silo_rows \<Rightarrow> silo_rows res" where
  "silo_write_back tid [] rows = Inr rows"
| "silo_write_back tid (a # as) rows =
     bind_res (silo_write (rows (sa_row a)) (sa_data a) tid) (\<lambda>r.
       bind_res (silo_release r) (\<lambda>r'. silo_write_back tid as (rows(sa_row a := r'))))"

definition silo_next_tid :: "u64 \<Rightarrow> u64 \<Rightarrow> u64" where
  "silo_next_tid cur m = (if cur < m then m + 1 else cur + 1)"

definition silo_abort ::
  "silo_txn \<Rightarrow> silo_acc list \<Rightarrow> silo_rows \<Rightarrow> (RC \<times> silo_txn \<times> silo_rows) res" where
  "silo_abort txn locked rows = bind_res (silo_release_all locked rows) (\<lambda>rows'.
     Inr (Abort, txn\<lparr>st_accesses := []\<rparr>, rows'))"

definition validate_silo :: "nat \<Rightarrow> silo_txn \<Rightarrow> silo_rows \<Rightarrow> (RC \<times> silo_txn \<times> silo_rows) res" where
  "validate_silo fuel txn rows =
     (let ws = silo_write_set rows (st_accesses txn); rs = silo_read_set (st_accesses txn) in
      if st_pre_abort txn \<and> \<not> (silo_unchanged rows ws \<and> silo_unchanged rows rs)
      then silo_abort txn [] rows
      else bind_res (if st_no_wait txn then silo_lock_no_wait fuel (st_pre_abort txn) ws rs rows
                     else silo_lock_wait ws rows) (\<lambda>(rc, n, rows1).
        if rc = Abort then silo_abort txn (take n ws) rows1
        else (case silo_validate_set False rs rows1 0 of
            None \<Rightarrow> silo_abort txn (take n ws) rows1
          | Some m \<Rightarrow> (case silo_validate_set True ws rows1 m of
              None \<Rightarrow> silo_abort txn (take n ws) rows1
            | Some m' \<Rightarrow>
                let tid = silo_next_tid (st_cur_tid txn) m' in
                bind_res (silo_write_back tid ws rows1) (\<lambda>rows2.
                  Inr (RCOK, txn\<lparr>st_accesses := [], st_cur_tid := tid\<rparr>, rows2))))))"

section \<open>The word operations\<close>

lemma bit_LOCK_BIT: "bit LOCK_BIT n \<longleftrightarrow> n = 63"
  unfolding LOCK_BIT_def by (auto simp: bit_push_bit_iff simp del: push_bit_of_1 push_bit_numeral)

lemmas lock_bit_simps = bit_and_iff bit_or_iff bit_not_iff bit_LOCK_BIT

lemma silo_locked_bit: "silo_locked r \<longleftrightarrow> bit (sr_tid_word r) 63"
proof -
  have "sr_tid_word r AND LOCK_BIT = (if bit (sr_tid_word r) 63 then LOCK_BIT else 0)"
    by (rule bit_word_eqI) (auto simp: lock_bit_simps)
  moreover have "LOCK_BIT \<noteq> 0"
    using bit_LOCK_BIT[of 63] by auto
  ultimately show ?thesis
    by (simp add: silo_locked_def)
qed

lemma lock_bit_word [simp]:
  "bit (v OR LOCK_BIT) 63" "(v OR LOCK_BIT) AND NOT LOCK_BIT = v AND NOT LOCK_BIT"
  by (simp add: lock_bit_simps, rule bit_word_eqI, auto simp: lock_bit_simps)

lemma unlocked_word: "\<not> bit v 63 \<Longrightarrow> v AND NOT LOCK_BIT = v"
  by (rule bit_word_eqI) (auto simp: lock_bit_simps)

definition lockd :: "silo_row \<Rightarrow> silo_row" where
  "lockd r = r\<lparr>sr_tid_word := sr_tid_word r OR LOCK_BIT\<rparr>"

definition lock_set :: "silo_acc list \<Rightarrow> silo_rows \<Rightarrow> silo_rows" where
  "lock_set as rows = (\<lambda>r. if r \<in> sa_row ` set as then lockd (rows r) else rows r)"

lemma lockd_facts:
  "silo_locked (lockd r)" "silo_get_tid (lockd r) = silo_get_tid r" "sr_data (lockd r) = sr_data r"
  "sr_pkey (lockd r) = sr_pkey r"
  by (simp_all add: lockd_def silo_locked_bit silo_get_tid_def)

lemma release_lockd: "\<not> silo_locked r \<Longrightarrow> silo_release (lockd r) = Inr r"
  by (simp add: silo_release_def lockd_facts(1)) (simp add: lockd_def silo_locked_bit unlocked_word)

lemma lock_set_Cons:
  "sa_row a \<notin> sa_row ` set as \<Longrightarrow>
     lock_set (a # as) rows = lock_set as (rows(sa_row a := lockd (rows (sa_row a))))"
  by (auto simp: lock_set_def fun_eq_iff)

lemma silo_lock_wait_alone:
  assumes "distinct (map sa_row as)" "\<forall>a\<in>set as. \<not> silo_locked (rows (sa_row a))"
  shows "if silo_unchanged rows as
     then silo_lock_wait as rows = Inr (RCOK, length as, lock_set as rows)
     else \<exists>n. silo_lock_wait as rows = Inr (Abort, n, lock_set (take n as) rows)"
  using assms
proof (induction as arbitrary: rows)
  case Nil
  then show ?case by (simp add: silo_unchanged_def lock_set_def)
next
  case (Cons a as)
  let ?rows = "rows(sa_row a := lockd (rows (sa_row a)))"
  have lock: "silo_lock (rows (sa_row a)) = Inr (lockd (rows (sa_row a)))"
    using Cons.prems(2) by (simp add: silo_lock_def lockd_def)
  have fresh: "sa_row a \<notin> sa_row ` set as" and dist: "distinct (map sa_row as)"
    using Cons.prems(1) by auto
  have same: "silo_unchanged ?rows as = silo_unchanged rows as"
    using fresh by (auto simp: silo_unchanged_def list_all_iff image_iff)
  have IH: "if silo_unchanged rows as
     then silo_lock_wait as ?rows = Inr (RCOK, length as, lock_set as ?rows)
     else \<exists>n. silo_lock_wait as ?rows = Inr (Abort, n, lock_set (take n as) ?rows)"
  proof -
    have "\<forall>b\<in>set as. \<not> silo_locked (?rows (sa_row b))"
      using Cons.prems(2) fresh by (auto simp: image_iff)
    from Cons.IH[OF dist this] show ?thesis
      unfolding same .
  qed
  have take: "lock_set (take n as) ?rows = lock_set (a # take n as) rows" for n
    using fresh by (intro lock_set_Cons[symmetric]) (auto dest: in_set_takeD)
  show ?case
  proof (cases "silo_get_tid (rows (sa_row a)) = sa_tid a")
    case False
    have "silo_lock_wait (a # as) rows = Inr (Abort, 1, lock_set (take 1 (a # as)) rows)"
      using lock False by (auto simp: lockd_facts lock_set_def fun_eq_iff)
    with False show ?thesis by (auto simp: silo_unchanged_def)
  next
    case True
    have step: "silo_lock_wait (a # as) rows = bind_res (silo_lock_wait as ?rows)
        (\<lambda>(rc, n, rows''). Inr (rc, Suc n, rows''))"
      using lock True by (simp add: lockd_facts Let_def del: fun_upd_apply)
    show ?thesis
    proof (cases "silo_unchanged rows as")
      case ok: True
      then show ?thesis
        using IH step True take[of "length as"] unfolding if_P[OF ok]
        by (simp add: silo_unchanged_def del: fun_upd_apply)
    next
      case no: False
      then obtain n where "silo_lock_wait as ?rows = Inr (Abort, n, lock_set (take n as) ?rows)"
        using IH unfolding if_not_P[OF no] by blast
      then have "silo_lock_wait (a # as) rows = Inr (Abort, Suc n, lock_set (take (Suc n) (a # as)) rows)"
        using step take[of n] by (simp del: fun_upd_apply)
      with no show ?thesis by (auto simp: silo_unchanged_def)
    qed
  qed
qed

text \<open>With every row free, an attempt of the no-wait mode does what the waiting mode does.\<close>

lemma silo_try_locks_wait:
  assumes "distinct (map sa_row as)" "\<forall>a\<in>set as. \<not> silo_locked (rows (sa_row a))"
    and "silo_lock_wait as rows = Inr (rc, n, rows')"
  shows "silo_try_locks as rows = (Some (rc \<noteq> Abort), n, rows')"
  using assms
proof (induction as arbitrary: rows rc n rows')
  case (Cons a as)
  let ?r = "lockd (rows (sa_row a))"
  let ?rows = "rows(sa_row a := ?r)"
  have lock: "silo_lock (rows (sa_row a)) = Inr ?r" "silo_try_lock (rows (sa_row a)) = Some ?r"
    using Cons.prems(2) by (simp_all add: silo_lock_def silo_try_lock_def lockd_def)
  have free: "\<forall>b\<in>set as. \<not> silo_locked (?rows (sa_row b))"
    using Cons.prems(1,2) by (auto simp: image_iff)
  show ?case
  proof (cases "silo_get_tid ?r = sa_tid a")
    case False
    with lock Cons.prems(3) show ?thesis by (auto simp: Let_def)
  next
    case True
    then obtain k where "silo_lock_wait as ?rows = Inr (rc, k, rows')" "n = Suc k"
      using Cons.prems(3) lock(1) by (auto simp: Let_def res_simps)
    with Cons.IH[OF _ free] Cons.prems(1) True lock(2) show ?thesis
      by (simp add: Let_def del: fun_upd_apply)
  qed
qed simp

lemma silo_release_all_lock_set:
  assumes "distinct (map sa_row as)" "\<forall>a\<in>set as. \<not> silo_locked (rows (sa_row a))"
  shows "silo_release_all as (lock_set as rows) = Inr rows"
  using assms
proof (induction as arbitrary: rows)
  case Nil
  then show ?case by (simp add: lock_set_def)
next
  case (Cons a as)
  have "lock_set (a # as) rows (sa_row a) = lockd (rows (sa_row a))"
    by (simp add: lock_set_def)
  moreover have "(lock_set (a # as) rows)(sa_row a := rows (sa_row a)) = lock_set as rows"
    using Cons.prems(1) by (auto simp: lock_set_def fun_eq_iff)
  ultimately show ?case
    using Cons release_lockd by simp
qed

definition silo_max :: "u64 \<Rightarrow> silo_acc list \<Rightarrow> u64" where
  "silo_max m as = foldl (\<lambda>m a. if m < sa_tid a then sa_tid a else m) m as"

lemma silo_max_ge: "m \<le> silo_max m as \<and> (\<forall>a\<in>set as. sa_tid a \<le> silo_max m as)"
proof (induction as arbitrary: m)
  case (Cons a as)
  let ?m = "if m < sa_tid a then sa_tid a else m"
  have "silo_max m (a # as) = silo_max ?m as"
    by (simp add: silo_max_def)
  moreover have "m \<le> ?m" "sa_tid a \<le> ?m"
    by auto
  ultimately show ?case
    using Cons[of ?m] by (auto intro: order.trans)
qed (simp add: silo_max_def)

lemma silo_max_bound: "m < b \<Longrightarrow> \<forall>a\<in>set as. sa_tid a < b \<Longrightarrow> silo_max m as < b"
  by (induction as arbitrary: m) (auto simp: silo_max_def)

lemma silo_validate_set_spec:
  assumes "w \<or> (\<forall>a\<in>set as. \<not> silo_locked (rows (sa_row a)))"
  shows "silo_validate_set w as rows m =
     (if silo_unchanged rows as then Some (silo_max m as) else None)"
  using assms
  by (induction as arbitrary: m)
     (auto simp: silo_unchanged_def silo_max_def silo_validate_def silo_get_tid_def)

definition silo_written :: "u64 \<Rightarrow> silo_acc list \<Rightarrow> silo_rows \<Rightarrow> silo_rows" where
  "silo_written tid as rows = (\<lambda>r.
     case map_of (map (\<lambda>a. (sa_row a, sa_data a)) (filter (\<lambda>a. sa_type a = WR) as)) r of
       None \<Rightarrow> rows r | Some d \<Rightarrow> (rows r)\<lparr>sr_data := d, sr_tid_word := tid\<rparr>)"

lemma silo_written_Cons:
  assumes "sa_type a = WR" "sa_row a \<notin> sa_row ` set as"
  shows "silo_written tid (a # as) rows =
     silo_written tid as (rows(sa_row a := (rows (sa_row a))\<lparr>sr_data := sa_data a, sr_tid_word := tid\<rparr>))"
proof -
  have "map_of (map (\<lambda>a. (sa_row a, sa_data a)) (filter (\<lambda>a. sa_type a = WR) as)) (sa_row a) = None"
    using assms(2) by (auto simp: map_of_eq_None_iff image_iff)
  then show ?thesis
    using assms(1) by (auto simp: silo_written_def fun_eq_iff split: option.splits)
qed

lemma silo_write_back_spec:
  assumes "distinct (map sa_row as)" "\<forall>a\<in>set as. sa_type a = WR \<and> silo_get_tid (rows (sa_row a)) < tid"
    and "\<forall>a\<in>set as. \<not> silo_locked (rows (sa_row a))" "\<not> bit tid 63"
  shows "silo_write_back tid as (lock_set as rows) = Inr (silo_written tid as rows)"
  using assms
proof (induction as arbitrary: rows)
  case Nil
  then show ?case by (simp add: lock_set_def silo_written_def)
next
  case (Cons a as)
  let ?r = "(rows (sa_row a))\<lparr>sr_data := sa_data a, sr_tid_word := tid\<rparr>"
  have fresh: "sa_row a \<notin> sa_row ` set as"
    using Cons.prems(1) by auto
  have row: "lock_set (a # as) rows (sa_row a) = lockd (rows (sa_row a))"
    by (simp add: lock_set_def)
  have "silo_get_tid (lockd (rows (sa_row a))) < tid"
    using Cons.prems(2) by (simp add: lockd_facts)
  then have wr: "silo_write (lockd (rows (sa_row a))) (sa_data a) tid = Inr (lockd ?r)"
    by (simp add: silo_write_def lockd_facts(1) flip: silo_get_tid_def) (simp add: lockd_def)
  have rel: "silo_release (lockd ?r) = Inr ?r"
    using Cons.prems(4) by (intro release_lockd) (simp add: silo_locked_bit)
  have nxt: "(lock_set (a # as) rows)(sa_row a := ?r) = lock_set as (rows(sa_row a := ?r))"
    using fresh by (auto simp: lock_set_def fun_eq_iff)
  have "silo_write_back tid as (lock_set as (rows(sa_row a := ?r))) =
      Inr (silo_written tid as (rows(sa_row a := ?r)))"
    using Cons.prems fresh by (intro Cons.IH) (auto simp: image_iff)
  then show ?case
    using wr rel nxt row silo_written_Cons[OF _ fresh] Cons.prems(2) by simp
qed

lemma silo_written_perm:
  assumes "mset as = mset (filter (\<lambda>a. sa_type a = WR) bs)" "distinct (map sa_row bs)"
  shows "silo_written tid as = silo_written tid bs"
proof -
  have "filter (\<lambda>a. sa_type a = WR) as = as"
    using mset_eq_setD[OF assms(1)] by (intro filter_True) auto
  moreover have "map_of (map (\<lambda>a. (sa_row a, sa_data a)) as) =
      map_of (map (\<lambda>a. (sa_row a, sa_data a)) (filter (\<lambda>a. sa_type a = WR) bs))"
    using assms by (intro map_of_mset_eq) (simp_all add: comp_def distinct_map_filter)
  ultimately show ?thesis
    by (simp add: silo_written_def fun_eq_iff)
qed

section \<open>A whole validation\<close>

lemma silo_sets:
  "mset (silo_write_set rows as) = mset (filter (\<lambda>a. sa_type a = WR) as)"
  "set (silo_write_set rows as) = {a \<in> set as. sa_type a = WR}"
  "distinct (map sa_row as) \<Longrightarrow> distinct (map sa_row (silo_write_set rows as))"
  "set (silo_read_set as) = {a \<in> set as. sa_type a \<noteq> WR}"
  by (simp_all add: silo_write_set_def silo_read_set_def distinct_map_filter)

lemma silo_unchanged_split:
  "silo_unchanged rows (silo_write_set rows as) \<and> silo_unchanged rows (silo_read_set as) \<longleftrightarrow>
     (\<forall>a\<in>set as. silo_get_tid (rows (sa_row a)) = sa_tid a)"
  by (auto simp: silo_unchanged_def list_all_iff silo_sets)

lemma silo_unchanged_lock_set [simp]:
  "silo_unchanged (lock_set ws rows) as \<longleftrightarrow> silo_unchanged rows as"
  by (simp add: silo_unchanged_def lock_set_def lockd_facts list_all_iff cong: if_cong)

lemma silo_lock_phase:
  assumes "distinct (map sa_row ws)" "\<forall>a\<in>set ws. \<not> silo_locked (rows (sa_row a))" "0 < fuel"
    and "lock = (if nw then silo_lock_no_wait fuel pre ws rs rows else silo_lock_wait ws rows)"
  shows "if silo_unchanged rows ws then lock = Inr (RCOK, length ws, lock_set ws rows)
     else \<exists>n. lock = Inr (Abort, n, lock_set (take n ws) rows)"
proof -
  obtain k where fuel: "fuel = Suc k"
    using assms(3) by (cases fuel) auto
  have same: "lock = Inr (rc, n, rows')" if "silo_lock_wait ws rows = Inr (rc, n, rows')" for rc n rows'
    using silo_try_locks_wait[OF assms(1,2) that] that assms(4) fuel
      silo_lock_wait_alone[OF assms(1,2)]
    by (auto split: if_splits)
  then show ?thesis
    using silo_lock_wait_alone[OF assms(1,2)] by (auto split: if_splits)
qed

lemma silo_abort_lock_set:
  assumes "distinct (map sa_row ws)" "\<forall>a\<in>set ws. \<not> silo_locked (rows (sa_row a))"
  shows "silo_abort txn (take n ws) (lock_set (take n ws) rows) = Inr (Abort, txn\<lparr>st_accesses := []\<rparr>, rows)"
proof -
  have "distinct (map sa_row (take n ws))"
    using assms(1) by (simp add: take_map[symmetric] distinct_take)
  moreover have "\<forall>a\<in>set (take n ws). \<not> silo_locked (rows (sa_row a))"
    using assms(2) by (auto dest: in_set_takeD)
  ultimately show ?thesis
    by (simp add: silo_abort_def silo_release_all_lock_set)
qed

lemma silo_next_tid_less:
  assumes "cur < 2 ^ 63 - 1" "m < 2 ^ 63 - 1"
  shows "cur < silo_next_tid cur m \<and> m < silo_next_tid cur m \<and> \<not> bit (silo_next_tid cur m) 63"
proof -
  have suc: "x < x + 1 \<and> x + 1 < 2 ^ 63" if "x < 2 ^ 63 - 1" for x :: u64
  proof -
    have "unat x < 2 ^ 63 - 1"
      using that by (simp add: word_less_nat_alt)
    then have "unat (x + 1) = Suc (unat x)"
      by (intro unat_suc_less) simp
    then show ?thesis
      using \<open>unat x < 2 ^ 63 - 1\<close> by (simp add: word_less_nat_alt)
  qed
  show ?thesis
    unfolding silo_next_tid_def bit_63_less
    using suc[OF assms(1)] suc[OF assms(2)] by (auto simp: not_less intro: less_trans le_less_trans)
qed

text \<open>Whatever the rows are, a locking phase that succeeds has locked the write set.\<close>

lemma lockd_locks:
  "silo_lock r = Inr r' \<Longrightarrow> silo_locked r'" "silo_try_lock r = Some r' \<Longrightarrow> silo_locked r'"
  by (auto simp: silo_lock_def silo_try_lock_def silo_locked_bit split: if_splits)

lemma silo_lock_wait_locks:
  "silo_lock_wait as rows = Inr (RCOK, n, rows') \<Longrightarrow>
     (\<forall>r. silo_locked (rows r) \<longrightarrow> silo_locked (rows' r)) \<and> (\<forall>a\<in>set as. silo_locked (rows' (sa_row a)))"
proof (induction as arbitrary: rows n)
  case (Cons a as)
  then obtain r where r: "silo_lock (rows (sa_row a)) = Inr r"
    and rest: "\<exists>k. silo_lock_wait as (rows(sa_row a := r)) = Inr (RCOK, k, rows')"
    by (auto simp: res_simps Let_def split: if_splits)
  from rest Cons.IH have ih: "\<And>q. silo_locked ((rows(sa_row a := r)) q) \<Longrightarrow> silo_locked (rows' q)"
    "\<forall>b\<in>set as. silo_locked (rows' (sa_row b))" by blast+
  show ?case
    using ih(2) ih(1)[of "sa_row a"] ih(1) lockd_locks(1)[OF r] by (auto split: if_splits)
qed simp

lemma silo_try_locks_locks:
  "silo_try_locks as rows = (Some True, n, rows') \<Longrightarrow>
     (\<forall>r. silo_locked (rows r) \<longrightarrow> silo_locked (rows' r)) \<and> (\<forall>a\<in>set as. silo_locked (rows' (sa_row a)))"
proof (induction as arbitrary: rows n)
  case (Cons a as)
  then obtain r where r: "silo_try_lock (rows (sa_row a)) = Some r"
    and rest: "\<exists>k. silo_try_locks as (rows(sa_row a := r)) = (Some True, k, rows')"
    by (auto simp: Let_def split: if_splits option.splits prod.splits)
  from rest Cons.IH have ih: "\<And>q. silo_locked ((rows(sa_row a := r)) q) \<Longrightarrow> silo_locked (rows' q)"
    "\<forall>b\<in>set as. silo_locked (rows' (sa_row b))" by blast+
  show ?case
    using ih(2) ih(1)[of "sa_row a"] ih(1) lockd_locks(2)[OF r] by (auto split: if_splits)
qed simp

lemma silo_no_wait_locks:
  "silo_lock_no_wait fuel pre ws rs rows = Inr (rc, n, rows') \<Longrightarrow>
     rc = Abort \<or> (rc = RCOK \<and> (\<forall>a\<in>set ws. silo_locked (rows' (sa_row a))))"
proof (induction fuel arbitrary: rows)
  case (Suc fuel)
  obtain st k rows1 where run: "silo_try_locks ws rows = (st, k, rows1)"
    by (metis prod_cases3)
  show ?case
  proof (cases "st = Some True")
    case True
    then show ?thesis
      using Suc.prems run silo_try_locks_locks[of ws rows] by auto
  next
    case False
    then show ?thesis
      using Suc.prems run Suc.IH
      by (auto simp: res_simps split: option.splits bool.splits if_splits)
  qed
qed simp

lemma silo_lock_wait_rc:
  "silo_lock_wait ws rows = Inr (rc, n, rows') \<Longrightarrow> rc = RCOK \<or> rc = Abort"
  by (induction ws arbitrary: rows n) (auto simp: res_simps Let_def split: if_splits)

lemma silo_validate_set_locked:
  "b \<in> set as \<Longrightarrow> silo_locked (rows (sa_row b)) \<Longrightarrow> silo_validate_set False as rows m = None"
  by (induction as arbitrary: m) (auto simp: silo_validate_def)

definition silo_rows_ex :: silo_rows where
  "silo_rows_ex r = \<lparr>sr_pkey = of_nat r, sr_data = [0], sr_tid_word = 4\<rparr>"

definition silo_txn_ex :: silo_txn where
  "silo_txn_ex = \<lparr>st_accesses = [\<lparr>sa_type = RD, sa_row = 1, sa_data = [0], sa_tid = 4\<rparr>,
     \<lparr>sa_type = WR, sa_row = 2, sa_data = [9], sa_tid = 4\<rparr>], st_cur_tid = 2,
     st_pre_abort = True, st_no_wait = True\<rparr>"

section \<open>Properties\<close>

text \<open>
  C14: Silo validation decides correctly. Run while no row is locked, by a transaction that
  touches each row at most once, with transaction ids below 2^63 - 1: \<open>validate_silo\<close> (in
  any of its four modes) returns; it commits exactly when every row still has the id the
  transaction saw; then every written row holds the local copy under a new id greater than every
  id the transaction saw and than its own last id, all rows are unlocked and nothing else has
  changed. Otherwise no row changes at all.
\<close>

theorem validate_silo_decides:
  assumes "\<forall>r. \<not> silo_locked (rows r)" and "distinct (map sa_row (st_accesses txn))" and "0 < fuel"
    and "\<forall>a\<in>set (st_accesses txn). sa_tid a < 2 ^ 63 - 1" and "st_cur_tid txn < 2 ^ 63 - 1"
  shows "if \<forall>a\<in>set (st_accesses txn). silo_get_tid (rows (sa_row a)) = sa_tid a
     then \<exists>tid. st_cur_tid txn < tid \<and> (\<forall>a\<in>set (st_accesses txn). sa_tid a < tid) \<and>
       validate_silo fuel txn rows = Inr (RCOK, txn\<lparr>st_accesses := [], st_cur_tid := tid\<rparr>,
         silo_written tid (st_accesses txn) rows)
     else validate_silo fuel txn rows = Inr (Abort, txn\<lparr>st_accesses := []\<rparr>, rows)"
proof -
  let ?as = "st_accesses txn"
  let ?ws = "silo_write_set rows ?as" and ?rs = "silo_read_set ?as"
  let ?lock = "if st_no_wait txn then silo_lock_no_wait fuel (st_pre_abort txn) ?ws ?rs rows
               else silo_lock_wait ?ws rows"
  have dist: "distinct (map sa_row ?ws)" and free: "\<forall>a\<in>set ?ws. \<not> silo_locked (rows (sa_row a))"
    using assms(1,2) by (simp_all add: silo_sets)
  note lock = silo_lock_phase[OF dist free assms(3) refl, of "st_no_wait txn" "st_pre_abort txn" ?rs]
  have disj: "sa_row a \<notin> sa_row ` set ?ws" if "a \<in> set ?rs" for a
    using that assms(2) by (auto simp: silo_sets distinct_map dest: inj_onD)
  have rfree: "\<forall>a\<in>set ?rs. \<not> silo_locked (lock_set ?ws rows (sa_row a))"
    using disj assms(1) by (simp add: lock_set_def)
  show ?thesis
  proof (cases "\<forall>a\<in>set ?as. silo_get_tid (rows (sa_row a)) = sa_tid a")
    case True
    then have same: "silo_unchanged rows ?ws" "silo_unchanged rows ?rs"
      using silo_unchanged_split[of rows ?as] by auto
    let ?m = "silo_max (silo_max 0 ?rs) ?ws"
    let ?tid = "silo_next_tid (st_cur_tid txn) ?m"
    have "?m < 2 ^ 63 - 1"
      using assms(4) by (intro silo_max_bound) (auto simp: silo_sets)
    from silo_next_tid_less[OF assms(5) this]
    have tid: "st_cur_tid txn < ?tid" "?m < ?tid" "\<not> bit ?tid 63" by auto
    have "sa_tid a \<le> ?m" if "a \<in> set ?as" for a
      using that silo_max_ge[of 0 ?rs] silo_max_ge[of "silo_max 0 ?rs" ?ws]
      by (cases "sa_type a = WR") (auto simp: silo_sets intro: order.trans)
    then have seen: "\<forall>a\<in>set ?as. sa_tid a < ?tid"
      using tid(2) by (blast intro: le_less_trans)
    have "\<forall>a\<in>set ?ws. sa_type a = WR \<and> silo_get_tid (rows (sa_row a)) < ?tid"
      using seen True by (auto simp: silo_sets)
    then have "silo_write_back ?tid ?ws (lock_set ?ws rows) = Inr (silo_written ?tid ?as rows)"
      using silo_write_back_spec[OF dist _ free tid(3)] silo_written_perm[OF silo_sets(1) assms(2)]
      by simp
    then have "validate_silo fuel txn rows = Inr (RCOK, txn\<lparr>st_accesses := [], st_cur_tid := ?tid\<rparr>,
         silo_written ?tid ?as rows)"
      using lock same rfree by (simp add: validate_silo_def Let_def silo_validate_set_spec)
    then show ?thesis
      unfolding if_P[OF True] using tid(1) seen by blast
  next
    case False
    have "validate_silo fuel txn rows = Inr (Abort, txn\<lparr>st_accesses := []\<rparr>, rows)"
    proof (cases "silo_unchanged rows ?ws")
      case True
      then have "\<not> silo_unchanged rows ?rs"
        using False silo_unchanged_split[of rows ?as] by auto
      then show ?thesis
        using True lock rfree silo_abort_lock_set[OF dist free, of txn "length ?ws"]
        by (simp add: validate_silo_def Let_def silo_validate_set_spec)
           (simp add: silo_abort_def)
    next
      case no: False
      then obtain n where "?lock = Inr (Abort, n, lock_set (take n ?ws) rows)"
        using lock unfolding if_not_P[OF no] by blast
      then show ?thesis
        using no silo_abort_lock_set[OF dist free, of txn n]
        by (simp add: validate_silo_def Let_def) (simp add: silo_abort_def)
    qed
    then show ?thesis
      unfolding if_not_P[OF False] .
  qed
qed

theorem validate_silo_decides_witness:
  "\<exists>tid. 4 < tid \<and> validate_silo 1 silo_txn_ex silo_rows_ex =
     Inr (RCOK, silo_txn_ex\<lparr>st_accesses := [], st_cur_tid := tid\<rparr>,
       silo_written tid (st_accesses silo_txn_ex) silo_rows_ex)"
proof -
  have "\<forall>r. \<not> silo_locked (silo_rows_ex r)"
    by (simp add: silo_rows_ex_def silo_locked_bit)
  from validate_silo_decides[OF this, of silo_txn_ex 1] show ?thesis
    by (auto simp: silo_txn_ex_def silo_rows_ex_def silo_get_tid_def unlocked_word)
qed

text \<open>
   A transaction that has read a row and also written it (two accesses of the same row) can
  never commit under Silo, whatever the other threads do and however often it retries: when its
  own write lock is taken, the validation of the read sees the lock bit and refuses.
\<close>

theorem silo_read_write_never_commits:
  assumes "a \<in> set (st_accesses txn)" and "sa_type a = WR"
    and "b \<in> set (st_accesses txn)" and "sa_type b \<noteq> WR" and "sa_row a = sa_row b"
    and "validate_silo fuel txn rows = Inr (rc, txn', rows')"
  shows "rc = Abort"
proof -
  let ?ws = "silo_write_set rows (st_accesses txn)" and ?rs = "silo_read_set (st_accesses txn)"
  have ab: "a \<in> set ?ws" "b \<in> set ?rs"
    using assms(1-4) by (simp_all add: silo_sets)
  have abort: "silo_abort txn as rows1 = Inr (rc, txn', rows') \<Longrightarrow> rc = Abort" for as rows1
    by (auto simp: silo_abort_def res_simps)
  have "rc1 = Abort \<or> silo_validate_set False ?rs rows1 0 = None"
    if "(if st_no_wait txn then silo_lock_no_wait fuel (st_pre_abort txn) ?ws ?rs rows
         else silo_lock_wait ?ws rows) = Inr (rc1, n, rows1)" for rc1 n rows1
  proof -
    have "rc1 = Abort \<or> (\<forall>c\<in>set ?ws. silo_locked (rows1 (sa_row c)))"
      using that silo_no_wait_locks[of fuel "st_pre_abort txn" ?ws ?rs rows rc1 n rows1]
        silo_lock_wait_rc[of ?ws rows rc1 n rows1] silo_lock_wait_locks[of ?ws rows n rows1]
      by (cases "st_no_wait txn") auto
    then show ?thesis
      using silo_validate_set_locked[OF ab(2), of rows1 0] ab(1) assms(5) by metis
  qed
  then show ?thesis
    using assms(6) abort unfolding validate_silo_def Let_def
    by (auto simp: res_simps split: if_splits option.splits)
qed

theorem silo_read_write_never_commits_witness:
  "\<exists>txn' rows'. validate_silo 1 \<lparr>st_accesses = [\<lparr>sa_type = RD, sa_row = 1, sa_data = [0], sa_tid = 4\<rparr>,
     \<lparr>sa_type = WR, sa_row = 1, sa_data = [9], sa_tid = 4\<rparr>], st_cur_tid = 2,
     st_pre_abort = True, st_no_wait = True\<rparr> silo_rows_ex = Inr (Abort, txn', rows')"
    (is "\<exists>txn' rows'. validate_silo 1 ?txn _ = _")
proof -
  have bits: "4 AND NOT LOCK_BIT = 4" "\<not> bit (4 :: u64) 63"
    by (simp_all add: unlocked_word)
  have "\<exists>rc txn' rows'. validate_silo 1 ?txn silo_rows_ex = Inr (rc, txn', rows')"
    by (simp add: validate_silo_def silo_write_set_def silo_read_set_def bubble_sort_def
        silo_unchanged_def silo_get_tid_def silo_rows_ex_def silo_try_lock_def silo_locked_bit bits
        silo_validate_def silo_abort_def silo_release_def Let_def)
  then obtain rc txn' rows' where run: "validate_silo 1 ?txn silo_rows_ex = Inr (rc, txn', rows')"
    by blast
  have "rc = Abort"
    by (rule silo_read_write_never_commits[OF _ _ _ _ _ run,
        of "\<lparr>sa_type = WR, sa_row = 1, sa_data = [9], sa_tid = 4\<rparr>"
           "\<lparr>sa_type = RD, sa_row = 1, sa_data = [0], sa_tid = 4\<rparr>"]) simp_all
  with run show ?thesis by blast
qed

end
