(* ===== verification/Tictoc.thy ===== *)
theory Tictoc
  imports Bubble_Sort
begin

text \<open>
  TicToc concurrency control: \<open>trusted/concurrency_control/row_tictoc.cpp\<close> (with
  \<open>ATOMIC_WORD\<close>, without \<open>WRITE_PERMISSION_LOCK\<close> and \<open>TICTOC_MV\<close>, as configured) and
  \<open>txn_man::validate_tictoc\<close> of \<open>trusted/concurrency_control/tictoc.cpp\<close> (with
  \<open>WR_VALIDATION_SEPARATE\<close> and serializable isolation). The word of a row packs the lock (bit
  63), the length of the read lease (15 bits) and the write timestamp (48 bits).

  \<open>try_renew\<close> extends a lease by compare-and-swap; the contents the successive swaps find are an
  argument, so the function is described under interference too. A validation itself is described
  as run by one thread; a spin on a held lock is \<open>Blocked\<close>, the no-wait retry loop has fuel.

  Shown: the layout of the word, that an undisturbed renewal never shortens a lease, that a
  disturbed one can, and that a committed transaction's timestamp lies inside the lease of every
  version it read and beyond the lease of every version it replaced.
\<close>

section \<open>The timestamp word\<close>

definition TT_LOCK_BIT :: u64 where
  "TT_LOCK_BIT = push_bit 63 1"

definition WTS_MASK :: u64 where
  "WTS_MASK = mask 48"

definition RTS_MASK :: u64 where
  "RTS_MASK = push_bit 48 (mask 15)"

definition tt_locked :: "u64 \<Rightarrow> bool" where
  "tt_locked v \<longleftrightarrow> v AND TT_LOCK_BIT \<noteq> 0"

definition tt_get_wts :: "u64 \<Rightarrow> ts_t" where
  "tt_get_wts v = v AND WTS_MASK"

definition tt_lease :: "u64 \<Rightarrow> u64" where
  "tt_lease v = drop_bit 48 (v AND RTS_MASK)"

definition tt_get_rts :: "u64 \<Rightarrow> ts_t" where
  "tt_get_rts v = tt_lease v + (v AND WTS_MASK)"

definition tt_get_ts_word :: "u64 \<Rightarrow> bool \<times> ts_t \<times> ts_t" where
  "tt_get_ts_word v = (tt_locked v, tt_lease v + (v AND WTS_MASK), v AND WTS_MASK)"

section \<open>The row manager\<close>

record tt_row =
  tr_pkey :: u64
  tr_data :: bytes
  tr_word :: u64

type_synonym tt_rows = "nat \<Rightarrow> tt_row"

definition tt_init :: "tt_row \<Rightarrow> tt_row" where
  "tt_init r = r\<lparr>tr_word := 0\<rparr>"

text \<open>\<open>access\<close>: the copied tuple with \<open>last_wts\<close> and \<open>last_rts\<close>.\<close>

definition tt_access :: "tt_row \<Rightarrow> (bytes \<times> ts_t \<times> ts_t) res" where
  "tt_access r = (let v = tr_word r in
     if tt_locked v then Inl Blocked
     else Inr (tr_data r, v AND WTS_MASK, tt_lease v + (v AND WTS_MASK)))"

definition tt_write_data :: "tt_row \<Rightarrow> bytes \<Rightarrow> ts_t \<Rightarrow> tt_row" where
  "tt_write_data r data wts =
     r\<lparr>tr_word := (tr_word r AND NOT (RTS_MASK OR WTS_MASK)) OR wts, tr_data := data\<rparr>"

definition tt_renew_lease :: "tt_row \<Rightarrow> ts_t \<Rightarrow> ts_t \<Rightarrow> bool" where
  "tt_renew_lease r wts rts = True"

text \<open>
  The compare-and-swap loop of \<open>try_renew\<close>: each element of the list is what one
  compare-and-swap finds in the row. The result is the return value and the word written, if any.
\<close>

fun tt_renew_loop ::
  "u64 \<Rightarrow> u64 \<Rightarrow> bool \<Rightarrow> ts_t \<Rightarrow> ts_t \<Rightarrow> u64 list \<Rightarrow> (bool \<times> u64 option) res" where
  "tt_renew_loop v v2 rebase wts rts [] = Inl Diverges"
| "tt_renew_loop v v2 rebase wts rts (pre_v # seen) =
     (if pre_v = v then Inr (True, Some v2)
      else if rebase \<or> tt_locked pre_v \<or> wts \<noteq> (pre_v AND WTS_MASK) then Inr (False, None)
      else if rts < tt_lease pre_v then Inr (True, None)
      else tt_renew_loop pre_v v2 rebase wts rts seen)"

definition tt_try_renew :: "u64 \<Rightarrow> ts_t \<Rightarrow> ts_t \<Rightarrow> u64 list \<Rightarrow> (bool \<times> u64 option) res" where
  "tt_try_renew v wts rts seen =
     (if v AND WTS_MASK = wts \<and> rts - wts \<le> tt_lease v then Inr (True, None)
      else if tt_locked v then Inr (False, None)
      else if wts \<noteq> v AND WTS_MASK then Inr (False, None)
      else
        let delta_rts = rts - wts in
        if delta_rts < tt_lease v then Inr (True, None)
        else
          let rebase = (2 ^ 15 \<le> delta_rts);
              wts' = (if rebase then wts + (delta_rts AND NOT (2 ^ 15 - 1)) else wts);
              delta' = (if rebase then delta_rts AND (2 ^ 15 - 1) else delta_rts)
          in tt_renew_loop v (wts' OR push_bit 48 delta') rebase wts' rts seen)"

definition tt_lock :: "tt_row \<Rightarrow> tt_row res" where
  "tt_lock r = (if tt_locked (tr_word r) then Inl Blocked
     else Inr (r\<lparr>tr_word := tr_word r OR TT_LOCK_BIT\<rparr>))"

definition tt_try_lock :: "tt_row \<Rightarrow> tt_row option" where
  "tt_try_lock r = (if tt_locked (tr_word r) then None
     else Some (r\<lparr>tr_word := tr_word r OR TT_LOCK_BIT\<rparr>))"

definition tt_release :: "tt_row \<Rightarrow> tt_row" where
  "tt_release r = r\<lparr>tr_word := tr_word r AND NOT TT_LOCK_BIT\<rparr>"

section \<open>Validation\<close>

record tt_acc =
  ta_type :: access_t
  ta_row :: nat
  ta_data :: bytes
  ta_wts :: ts_t
  ta_rts :: ts_t

record tt_txn =
  tt_accesses :: "tt_acc list"
  tt_max_wts :: ts_t
  tt_pre_abort :: bool
  tt_no_wait :: bool

definition tt_write_set :: "tt_rows \<Rightarrow> tt_acc list \<Rightarrow> tt_acc list" where
  "tt_write_set rows as = bubble_sort (\<lambda>a b. tr_pkey (rows (ta_row b)) < tr_pkey (rows (ta_row a)))
     (filter (\<lambda>a. ta_type a = WR) as)"

definition tt_read_set :: "tt_acc list \<Rightarrow> tt_acc list" where
  "tt_read_set as = filter (\<lambda>a. ta_type a \<noteq> WR) as"

text \<open>The commit timestamp from the timestamps seen: \<open>commit_rts\<close>, \<open>commit_wts\<close>.\<close>

fun tt_commit_ts :: "tt_acc list \<Rightarrow> ts_t \<times> ts_t \<Rightarrow> ts_t \<times> ts_t" where
  "tt_commit_ts [] ts = ts"
| "tt_commit_ts (a # as) (crts, cwts) = tt_commit_ts as
     (if ta_type a = RD \<and> crts < ta_wts a then (ta_wts a, cwts)
      else if ta_type a = WR \<and> cwts < ta_rts a + 1 then (crts, ta_rts a + 1)
      else (crts, cwts))"

definition tt_raise :: "ts_t \<times> ts_t \<Rightarrow> ts_t" where
  "tt_raise ts = (case ts of (crts, cwts) \<Rightarrow> if cwts < crts then crts else cwts)"

definition tt_pre_ok :: "tt_rows \<Rightarrow> ts_t \<Rightarrow> tt_acc list \<Rightarrow> tt_acc list \<Rightarrow> bool" where
  "tt_pre_ok rows cwts ws rs \<longleftrightarrow>
     list_all (\<lambda>a. tt_get_wts (tr_word (rows (ta_row a))) = ta_wts a) ws \<and>
     list_all (\<lambda>a. case tt_get_ts_word (tr_word (rows (ta_row a))) of (l, rts, wts) \<Rightarrow>
        \<not> (rts < cwts \<and> wts \<noteq> ta_wts a)) rs"

fun tt_try_locks :: "tt_acc list \<Rightarrow> tt_rows \<Rightarrow> bool option \<times> nat \<times> tt_rows" where
  "tt_try_locks [] rows = (Some True, 0, rows)"
| "tt_try_locks (a # as) rows =
     (case tt_try_lock (rows (ta_row a)) of
        None \<Rightarrow> (None, 0, rows)
      | Some r \<Rightarrow>
          let rows' = rows(ta_row a := r) in
          if tt_get_wts (tr_word r) \<noteq> ta_wts a then (Some False, 1, rows')
          else (case tt_try_locks as rows' of (st, n, rows'') \<Rightarrow> (st, Suc n, rows'')))"

definition tt_release_all :: "tt_acc list \<Rightarrow> tt_rows \<Rightarrow> tt_rows" where
  "tt_release_all as rows = foldl (\<lambda>rs a. rs(ta_row a := tt_release (rs (ta_row a)))) rows as"

fun tt_lock_no_wait ::
  "nat \<Rightarrow> bool \<Rightarrow> ts_t \<Rightarrow> tt_acc list \<Rightarrow> tt_acc list \<Rightarrow> tt_rows \<Rightarrow> (RC \<times> nat \<times> tt_rows) res" where
  "tt_lock_no_wait 0 pre cwts ws rs rows = Inl Diverges"
| "tt_lock_no_wait (Suc fuel) pre cwts ws rs rows =
     (case tt_try_locks ws rows of
        (Some True, n, rows') \<Rightarrow> Inr (RCOK, n, rows')
      | (Some False, n, rows') \<Rightarrow> Inr (Abort, n, rows')
      | (None, n, rows') \<Rightarrow>
          let rows'' = tt_release_all (take n ws) rows' in
          if pre \<and> \<not> tt_pre_ok rows'' cwts ws rs then Inr (Abort, 0, rows'')
          else tt_lock_no_wait fuel pre cwts ws rs rows'')"

fun tt_lock_wait :: "tt_acc list \<Rightarrow> tt_rows \<Rightarrow> (RC \<times> nat \<times> tt_rows) res" where
  "tt_lock_wait [] rows = Inr (RCOK, 0, rows)"
| "tt_lock_wait (a # as) rows =
     bind_res (tt_lock (rows (ta_row a))) (\<lambda>r.
       let rows' = rows(ta_row a := r) in
       if tt_get_wts (tr_word r) \<noteq> ta_wts a then Inr (Abort, 1, rows')
       else bind_res (tt_lock_wait as rows') (\<lambda>(rc, n, rows''). Inr (rc, Suc n, rows'')))"

text \<open>The commit timestamp is raised past the leases of the rows to be written.\<close>

fun tt_past_leases :: "tt_acc list \<Rightarrow> tt_rows \<Rightarrow> ts_t \<Rightarrow> ts_t" where
  "tt_past_leases [] rows cwts = cwts"
| "tt_past_leases (a # as) rows cwts = tt_past_leases as rows
     (let rts = tt_get_rts (tr_word (rows (ta_row a))) in if cwts < rts + 1 then rts + 1 else cwts)"

text \<open>Validation of the read set; \<open>None\<close> when a lease cannot be renewed.\<close>

fun tt_renew_reads :: "ts_t \<Rightarrow> tt_acc list \<Rightarrow> tt_rows \<Rightarrow> (bool \<times> tt_rows) res" where
  "tt_renew_reads cwts [] rows = Inr (True, rows)"
| "tt_renew_reads cwts (a # as) rows =
     (if ta_rts a < cwts
      then (let v = tr_word (rows (ta_row a)) in
        bind_res (tt_try_renew v (ta_wts a) cwts [v]) (\<lambda>(ok, w).
          if ok then tt_renew_reads cwts as (case w of None \<Rightarrow> rows
             | Some v2 \<Rightarrow> rows(ta_row a := (rows (ta_row a))\<lparr>tr_word := v2\<rparr>))
          else Inr (False, rows)))
      else tt_renew_reads cwts as rows)"

definition tt_write_back :: "ts_t \<Rightarrow> tt_acc list \<Rightarrow> tt_rows \<Rightarrow> tt_rows" where
  "tt_write_back cwts as rows = foldl (\<lambda>rs a.
     rs(ta_row a := tt_release (tt_write_data (rs (ta_row a)) (ta_data a) cwts))) rows as"

text \<open>
  \<open>validate_tictoc\<close> returns the code, the transaction and the rows; the commit timestamp is
  returned as well (0 on \<open>Abort\<close>).
\<close>

definition validate_tictoc :: "nat \<Rightarrow> tt_txn \<Rightarrow> tt_rows \<Rightarrow> (RC \<times> ts_t \<times> tt_txn \<times> tt_rows) res" where
  "validate_tictoc fuel txn rows =
     (let ws = tt_write_set rows (tt_accesses txn); rs = tt_read_set (tt_accesses txn);
          cwts = tt_raise (tt_commit_ts (tt_accesses txn) (0, 0));
          done_txn = txn\<lparr>tt_accesses := []\<rparr>
      in if tt_pre_abort txn \<and> \<not> tt_pre_ok rows cwts ws rs then Inr (Abort, 0, done_txn, rows)
      else bind_res (if tt_no_wait txn then tt_lock_no_wait fuel (tt_pre_abort txn) cwts ws rs rows
                     else tt_lock_wait ws rows) (\<lambda>(rc, n, rows1).
        if rc = Abort then Inr (Abort, 0, done_txn, tt_release_all (take n ws) rows1)
        else let cwts = tt_past_leases ws rows1 cwts in
          assert_res (n = length ws)
          (bind_res (tt_renew_reads cwts rs rows1) (\<lambda>(ok, rows2).
            if ok
            then Inr (RCOK, cwts, done_txn\<lparr>tt_max_wts := (if tt_max_wts txn < cwts then cwts
                   else tt_max_wts txn)\<rparr>, tt_write_back cwts ws rows2)
            else Inr (Abort, 0, done_txn, tt_release_all (take n ws) rows2)))))"

section \<open>The layout of the word\<close>

lemma tt_masks:
  "bit WTS_MASK n \<longleftrightarrow> n < 48" "bit RTS_MASK n \<longleftrightarrow> 48 \<le> n \<and> n < 63" "bit TT_LOCK_BIT n \<longleftrightarrow> n = 63"
  unfolding WTS_MASK_def RTS_MASK_def TT_LOCK_BIT_def
  by (auto simp: bit_push_bit_iff bit_mask_iff simp del: push_bit_of_1 push_bit_numeral mask_numeral)

lemmas tt_bits = bit_and_iff bit_or_iff bit_not_iff tt_masks

lemma tt_locked_bit: "tt_locked v \<longleftrightarrow> bit v 63"
proof -
  have "v AND TT_LOCK_BIT = (if bit v 63 then TT_LOCK_BIT else 0)"
    by (rule bit_word_eqI) (auto simp: tt_bits)
  moreover have "TT_LOCK_BIT \<noteq> 0"
    using tt_masks(3)[of 63] by auto
  ultimately show ?thesis
    by (simp add: tt_locked_def)
qed

lemma tt_wts_less: "tt_get_wts v < 2 ^ 48"
  unfolding tt_get_wts_def WTS_MASK_def take_bit_eq_mask[symmetric]
  by (rule take_bit_word_less) simp

lemma tt_lease_take: "tt_lease v = take_bit 15 (drop_bit 48 v)"
  unfolding tt_lease_def by (rule bit_word_eqI) (auto simp: tt_bits bit_drop_bit_eq bit_take_bit_iff)

lemma tt_lease_less: "tt_lease v < 2 ^ 15"
  unfolding tt_lease_take by (rule take_bit_word_less) simp

lemma tt_pack:
  assumes "w < 2 ^ 48" "d < 2 ^ 15"
  shows "tt_get_wts (w OR push_bit 48 d) = w" "tt_lease (w OR push_bit 48 d) = d"
    "\<not> tt_locked (w OR push_bit 48 d)"
proof -
  note w = small_bit[OF assms(1)] and d = small_bit[OF assms(2)]
  show "tt_get_wts (w OR push_bit 48 d) = w"
    unfolding tt_get_wts_def
    by (intro bit_word_eqI) (auto simp: tt_bits bit_push_bit_iff not_less dest: w)
  show "tt_lease (w OR push_bit 48 d) = d"
    unfolding tt_lease_take
    by (intro bit_word_eqI)
       (auto simp: bit_or_iff bit_push_bit_iff bit_drop_bit_eq bit_take_bit_iff not_less dest: w d)
  show "\<not> tt_locked (w OR push_bit 48 d)"
    using w[of 63] d[of 15] by (auto simp: tt_locked_bit bit_or_iff bit_push_bit_iff)
qed

lemma unat_tt_rts: "unat (tt_get_rts v) = unat (tt_lease v) + unat (tt_get_wts v)"
proof -
  have "unat (tt_lease v) < 2 ^ 15" "unat (tt_get_wts v) < 2 ^ 48"
    using tt_lease_less[of v] tt_wts_less[of v] by (simp_all add: word_less_nat_alt)
  then show ?thesis
    unfolding tt_get_rts_def tt_get_wts_def[symmetric] by (simp add: unat_word_ariths)
qed

lemma tt_write_word:
  assumes "w < 2 ^ 48"
  shows "tt_get_wts ((v AND NOT (RTS_MASK OR WTS_MASK)) OR w) = w"
    "tt_lease ((v AND NOT (RTS_MASK OR WTS_MASK)) OR w) = 0"
proof -
  note w = small_bit[OF assms]
  show "tt_get_wts ((v AND NOT (RTS_MASK OR WTS_MASK)) OR w) = w"
    unfolding tt_get_wts_def by (intro bit_word_eqI) (auto simp: tt_bits not_less dest: w)
  show "tt_lease ((v AND NOT (RTS_MASK OR WTS_MASK)) OR w) = 0"
    unfolding tt_lease_def by (intro bit_word_eqI) (auto simp: tt_bits bit_drop_bit_eq dest: w)
qed

lemma tt_lock_word:
  "tt_locked (v OR TT_LOCK_BIT)" "tt_get_wts (v OR TT_LOCK_BIT) = tt_get_wts v"
  "tt_lease (v OR TT_LOCK_BIT) = tt_lease v"
  "\<not> tt_locked v \<Longrightarrow> (v OR TT_LOCK_BIT) AND NOT TT_LOCK_BIT = v"
  "\<not> tt_locked (v AND NOT TT_LOCK_BIT)" "tt_get_wts (v AND NOT TT_LOCK_BIT) = tt_get_wts v"
  "tt_lease (v AND NOT TT_LOCK_BIT) = tt_lease v"
  unfolding tt_locked_bit tt_get_wts_def tt_lease_def
  by (auto simp: tt_bits intro!: bit_word_eqI simp: bit_drop_bit_eq)

section \<open>Renewal\<close>

definition tt_after :: "u64 \<Rightarrow> u64 option \<Rightarrow> u64" where
  "tt_after v w = (case w of None \<Rightarrow> v | Some v2 \<Rightarrow> v2)"

lemma and_mask_split: "(x AND NOT m) + (x AND m) = (x :: u64)"
proof -
  have "(x AND NOT m) AND (x AND m) = 0"
    by (rule bit_word_eqI) (auto simp: bit_and_iff bit_not_iff)
  from disjunctive_add_eq_or[OF this] show ?thesis
    by (simp) (rule bit_word_eqI, auto simp: bit_and_iff bit_or_iff bit_not_iff)
qed

text \<open>The word that a renewal installs has exactly the requested lease end.\<close>

lemma tt_renew_word:
  assumes "wts \<le> rts" "rts < 2 ^ 48"
    and "wts' = (if 2 ^ 15 \<le> rts - wts then wts + ((rts - wts) AND NOT (2 ^ 15 - 1)) else wts)"
    and "d = (if 2 ^ 15 \<le> rts - wts then (rts - wts) AND (2 ^ 15 - 1) else rts - wts)"
  shows "tt_get_rts (wts' OR push_bit 48 d) = rts \<and> \<not> tt_locked (wts' OR push_bit 48 d)"
proof -
  have d: "d < 2 ^ 15"
  proof (cases "2 ^ 15 \<le> rts - wts")
    case True
    have "(rts - wts) AND (2 ^ 15 - 1) = take_bit 15 (rts - wts)"
      by (simp add: take_bit_eq_mask mask_eq_exp_minus_1)
    then show ?thesis
      using True assms(4) take_bit_word_less[of 15 "rts - wts"] by simp
  next
    case False
    then show ?thesis
      unfolding assms(4) if_not_P[OF False] by (simp only: not_le)
  qed
  have sum: "d + wts' = rts"
    using and_mask_split[of "rts - wts" "2 ^ 15 - 1"] assms(3,4) by (auto simp: algebra_simps)
  have "d \<le> rts"
  proof -
    have "(rts - wts) AND (2 ^ 15 - 1) \<le> rts - wts"
      by (simp add: word_and_le1 word_and_le2)
    moreover have "rts - wts \<le> rts"
      using assms(1) by (simp add: word_le_nat_alt unat_sub)
    ultimately show ?thesis
      using assms(4) by (auto intro: order.trans)
  qed
  then have "wts' \<le> rts"
    using sum by (metis add_diff_cancel_left' word_le_nat_alt unat_sub diff_le_self)
  then have w: "wts' < 2 ^ 48"
    using assms(2) by order
  show ?thesis
    using tt_pack[OF w d] sum by (simp add: tt_get_rts_def flip: tt_get_wts_def)
qed

lemma tt_try_renew_alone:
  assumes "wts \<le> rts" "rts < 2 ^ 48"
  shows "\<exists>ok w. tt_try_renew v wts rts [v] = Inr (ok, w) \<and>
     (ok \<longleftrightarrow> tt_get_wts v = wts \<and> (\<not> tt_locked v \<or> rts \<le> tt_get_rts v)) \<and>
     tt_get_rts v \<le> tt_get_rts (tt_after v w) \<and> (ok \<longrightarrow> rts \<le> tt_get_rts (tt_after v w)) \<and>
     (w \<noteq> None \<longrightarrow> ok \<and> \<not> tt_locked v \<and> \<not> tt_locked (tt_after v w))"
proof (cases "tt_get_wts v = wts")
  case False
  then show ?thesis
    by (auto simp: tt_try_renew_def tt_get_wts_def tt_after_def)
next
  case wts: True
  have diff: "unat (rts - wts) = unat rts - unat wts" "unat wts \<le> unat rts"
    using assms(1) by (simp_all add: unat_sub word_le_nat_alt)
  have lease: "rts - wts \<le> tt_lease v \<longleftrightarrow> rts \<le> tt_get_rts v"
    using wts diff unat_tt_rts[of v] by (simp add: word_le_nat_alt) linarith
  let ?w' = "if 2 ^ 15 \<le> rts - wts then wts + ((rts - wts) AND NOT (2 ^ 15 - 1)) else wts"
  let ?d = "if 2 ^ 15 \<le> rts - wts then (rts - wts) AND (2 ^ 15 - 1) else rts - wts"
  note word = tt_renew_word[OF assms refl refl]
  show ?thesis
  proof (cases "rts \<le> tt_get_rts v")
    case True
    then show ?thesis
      using wts lease
      by (intro exI[of _ True] exI[of _ None]) (simp add: tt_try_renew_def tt_get_wts_def tt_after_def)
  next
    case False
    then have "\<not> rts - wts \<le> tt_lease v" "\<not> rts - wts < tt_lease v"
      using lease by auto
    then have run: "tt_try_renew v wts rts [v] = (if tt_locked v then Inr (False, None)
        else tt_renew_loop v (?w' OR push_bit 48 ?d) (2 ^ 15 \<le> rts - wts) ?w' rts [v])"
      unfolding tt_try_renew_def Let_def wts[unfolded tt_get_wts_def] by (simp only: simp_thms if_False)
    obtain x where x: "tt_get_rts x = rts" "\<not> tt_locked x" "x = ?w' OR push_bit 48 ?d"
      using word by blast
    show ?thesis
    proof (cases "tt_locked v")
      case True
      with run wts False show ?thesis
        by (intro exI[of _ False] exI[of _ None]) (simp add: tt_after_def)
    next
      case free: False
      have "tt_try_renew v wts rts [v] = Inr (True, Some x)"
        unfolding run if_not_P[OF free] x(3)[symmetric] by simp
      with x(1,2) free wts False show ?thesis
        by (intro exI[of _ True] exI[of _ "Some x"]) (simp add: tt_after_def not_le)
    qed
  qed
qed

section \<open>The locking phase\<close>

definition tt_lockd :: "tt_row \<Rightarrow> tt_row" where
  "tt_lockd r = r\<lparr>tr_word := tr_word r OR TT_LOCK_BIT\<rparr>"

definition tt_lock_set :: "tt_acc list \<Rightarrow> tt_rows \<Rightarrow> tt_rows" where
  "tt_lock_set as rows = (\<lambda>r. if r \<in> ta_row ` set as then tt_lockd (rows r) else rows r)"

lemma tt_lock_set_Cons:
  "ta_row a \<notin> ta_row ` set as \<Longrightarrow>
     tt_lock_set as (rows(ta_row a := tt_lockd (rows (ta_row a)))) = tt_lock_set (a # as) rows"
  by (auto simp: tt_lock_set_def fun_eq_iff)

lemma tt_try_locks_spec:
  assumes "tt_try_locks as rows = (st, n, rows')"
  shows "rows' = tt_lock_set (take n as) rows \<and> distinct (map ta_row (take n as)) \<and>
     (\<forall>a\<in>set (take n as). \<not> tt_locked (tr_word (rows (ta_row a)))) \<and>
     (st = Some True \<longrightarrow> n = length as \<and>
        (\<forall>a\<in>set as. tt_get_wts (tr_word (rows (ta_row a))) = ta_wts a))"
  using assms
proof (induction as arbitrary: rows st n rows')
  case Nil
  then show ?case by (simp add: tt_lock_set_def)
next
  case (Cons a as)
  let ?r = "tt_lockd (rows (ta_row a))"
  let ?rows = "rows(ta_row a := ?r)"
  show ?case
  proof (cases "tt_locked (tr_word (rows (ta_row a)))")
    case True
    then show ?thesis
      using Cons.prems by (simp add: tt_try_lock_def tt_lock_set_def)
  next
    case free: False
    then have lock: "tt_try_lock (rows (ta_row a)) = Some ?r"
      by (simp add: tt_try_lock_def tt_lockd_def)
    have wts: "tt_get_wts (tr_word ?r) = tt_get_wts (tr_word (rows (ta_row a)))"
      by (simp add: tt_lockd_def tt_lock_word)
    show ?thesis
    proof (cases "tt_get_wts (tr_word ?r) = ta_wts a")
      case False
      then have "st = Some False" "n = 1" "rows' = ?rows"
        using Cons.prems lock by (auto simp: Let_def)
      then show ?thesis
        using free by (auto simp: tt_lock_set_def fun_eq_iff)
    next
      case True
      then obtain k where run: "tt_try_locks as ?rows = (st, k, rows')" "n = Suc k"
        using Cons.prems lock by (auto simp: Let_def split: prod.splits)
      note IH = Cons.IH[OF run(1)]
      have fresh: "ta_row a \<notin> ta_row ` set (take k as)"
        using IH by (auto simp: tt_lockd_def tt_lock_word image_iff)
      then have same: "?rows (ta_row b) = rows (ta_row b)" if "b \<in> set (take k as)" for b
        using that by (auto simp: image_iff)
      have all: "st = Some True \<Longrightarrow> b \<in> set as \<Longrightarrow> tt_get_wts (tr_word (rows (ta_row b))) = ta_wts b" for b
        using IH same[of b] by auto
      have "\<forall>b\<in>set (take k as). \<not> tt_locked (tr_word (rows (ta_row b)))"
        using IH same by auto
      moreover have "rows' = tt_lock_set (a # take k as) rows"
        unfolding tt_lock_set_Cons[OF fresh, symmetric] using IH by blast
      ultimately show ?thesis
        using IH run(2) fresh free True wts all by (simp del: fun_upd_apply)
    qed
  qed
qed

lemma tt_lock_wait_try:
  "tt_lock_wait as rows = Inr (rc, n, rows') \<Longrightarrow>
     tt_try_locks as rows = (Some (rc \<noteq> Abort), n, rows') \<and> (rc = RCOK \<or> rc = Abort)"
proof (induction as arbitrary: rows n)
  case (Cons a as)
  then have free: "\<not> tt_locked (tr_word (rows (ta_row a)))"
    by (auto simp: tt_lock_def res_simps split: if_splits)
  let ?r = "(rows (ta_row a))\<lparr>tr_word := tr_word (rows (ta_row a)) OR TT_LOCK_BIT\<rparr>"
  have lock: "tt_lock (rows (ta_row a)) = Inr ?r" "tt_try_lock (rows (ta_row a)) = Some ?r"
    using free by (simp_all add: tt_lock_def tt_try_lock_def)
  show ?case
  proof (cases "tt_get_wts (tr_word ?r) = ta_wts a")
    case False
    then show ?thesis
      using Cons.prems lock by (auto simp: Let_def)
  next
    case True
    then obtain k where "tt_lock_wait as (rows(ta_row a := ?r)) = Inr (rc, k, rows')" "n = Suc k"
      using Cons.prems lock by (auto simp: Let_def res_simps)
    with Cons.IH[of "rows(ta_row a := ?r)" k] show ?thesis
      using True lock by (simp add: Let_def del: fun_upd_apply)
  qed
qed simp

lemma tt_release_all_spec:
  assumes "distinct (map ta_row as)" "\<forall>a\<in>set as. \<not> tt_locked (tr_word (rows (ta_row a)))"
  shows "tt_release_all as (tt_lock_set as rows) = rows"
  using assms
proof (induction as arbitrary: rows)
  case Nil
  then show ?case by (simp add: tt_release_all_def tt_lock_set_def)
next
  case (Cons a as)
  have "(tt_lock_set (a # as) rows)(ta_row a := tt_release (tt_lock_set (a # as) rows (ta_row a))) =
      tt_lock_set as rows"
    using Cons.prems
    by (auto simp: tt_lock_set_def fun_eq_iff tt_release_def tt_lockd_def tt_lock_word)
  then show ?case
    using Cons by (simp add: tt_release_all_def)
qed

lemma tt_no_wait_ok:
  "tt_lock_no_wait fuel pre cwts ws rs rows = Inr (RCOK, n, rows') \<Longrightarrow>
     tt_try_locks ws rows = (Some True, n, rows')"
proof (induction fuel arbitrary: rows)
  case (Suc fuel)
  obtain st k rows1 where run: "tt_try_locks ws rows = (st, k, rows1)"
    by (metis prod_cases3)
  show ?case
  proof (cases st)
    case None
    have "tt_release_all (take k ws) rows1 = rows"
      using tt_try_locks_spec[OF run] tt_release_all_spec by auto
    then show ?thesis
      using Suc None run by (auto simp: Let_def split: if_splits)
  next
    case (Some b)
    then show ?thesis
      using Suc.prems run by (cases b) auto
  qed
qed simp

section \<open>Reads and write-back\<close>

lemma tt_commit_ts_mono:
  assumes "tt_commit_ts as (crts, cwts) = (crts', cwts')"
  shows "crts \<le> crts' \<and> (\<forall>a\<in>set as. ta_type a = RD \<longrightarrow> ta_wts a \<le> crts')"
  using assms
proof (induction as arbitrary: crts cwts)
  case (Cons a as)
  let ?c = "if ta_type a = RD \<and> crts < ta_wts a then ta_wts a else crts"
  obtain w where "tt_commit_ts as (?c, w) = (crts', cwts')"
    using Cons.prems by (auto split: if_splits)
  from Cons.IH[OF this] have IH: "?c \<le> crts'" "\<forall>a\<in>set as. ta_type a = RD \<longrightarrow> ta_wts a \<le> crts'"
    by blast+
  then show ?case
    by (auto split: if_splits intro: order.trans order.strict_implies_order)
qed simp

lemma tt_raise_ge: "crts \<le> tt_raise (crts, cwts)"
  by (auto simp: tt_raise_def)

lemma tt_past_leases_ge:
  assumes "\<forall>a\<in>set as. tt_get_rts (tr_word (rows (ta_row a))) < 2 ^ 63"
  shows "cwts \<le> tt_past_leases as rows cwts \<and>
     (\<forall>a\<in>set as. tt_get_rts (tr_word (rows (ta_row a))) < tt_past_leases as rows cwts)"
  using assms
proof (induction as arbitrary: cwts)
  case (Cons a as)
  let ?r = "tt_get_rts (tr_word (rows (ta_row a)))"
  let ?c = "if cwts < ?r + 1 then ?r + 1 else cwts"
  have "?r \<noteq> - 1"
    using Cons.prems by (auto simp: word_less_nat_alt unsigned_minus_1_eq_mask mask_eq_exp_minus_1)
  then have "?r < ?r + 1"
    by (rule word_less_suc)
  then have "?r < ?c" "cwts \<le> ?c"
    by auto
  moreover have "?c \<le> tt_past_leases as rows ?c"
    "\<forall>b\<in>set as. tt_get_rts (tr_word (rows (ta_row b))) < tt_past_leases as rows ?c"
    using Cons.IH[of ?c] Cons.prems by auto
  moreover have "tt_past_leases (a # as) rows cwts = tt_past_leases as rows ?c"
    by (simp only: tt_past_leases.simps Let_def)
  ultimately show ?case
    by (auto simp del: tt_past_leases.simps intro: order.trans order.strict_trans2)
qed simp

lemma tt_rts_bound: "tt_get_rts v < 2 ^ 63"
proof -
  have "unat (tt_lease v) < 2 ^ 15" "unat (tt_get_wts v) < 2 ^ 48"
    using tt_lease_less[of v] tt_wts_less[of v] by (simp_all add: word_less_nat_alt)
  then show ?thesis
    by (simp add: word_less_nat_alt unat_tt_rts)
qed

text \<open>What the renewal of the read leases does to the rows.\<close>

lemma tt_renew_reads_spec:
  assumes "tt_renew_reads cwts as rows = Inr (True, rows')" "cwts < 2 ^ 48"
    and "\<forall>a\<in>set as. ta_wts a \<le> cwts"
  shows "(\<forall>r. r \<notin> ta_row ` set as \<longrightarrow> rows' r = rows r) \<and>
     (\<forall>r. tr_data (rows' r) = tr_data (rows r) \<and>
        tt_get_rts (tr_word (rows r)) \<le> tt_get_rts (tr_word (rows' r)))"
  using assms
proof (induction as arbitrary: rows)
  case (Cons a as)
  show ?case
  proof (cases "ta_rts a < cwts")
    case False
    then show ?thesis
      using Cons.IH[of rows] Cons.prems by simp
  next
    case True
    let ?v = "tr_word (rows (ta_row a))"
    obtain ok w where run: "tt_try_renew ?v (ta_wts a) cwts [?v] = Inr (ok, w)"
      "tt_get_rts ?v \<le> tt_get_rts (tt_after ?v w)"
      using tt_try_renew_alone[of "ta_wts a" cwts ?v] Cons.prems(2,3) by auto
    let ?rows = "rows(ta_row a := (rows (ta_row a))\<lparr>tr_word := tt_after ?v w\<rparr>)"
    have "(case w of None \<Rightarrow> rows | Some v2 \<Rightarrow> rows(ta_row a := (rows (ta_row a))\<lparr>tr_word := v2\<rparr>)) = ?rows"
      by (simp add: tt_after_def split: option.splits)
    then have "tt_renew_reads cwts as ?rows = Inr (True, rows')"
      using Cons.prems(1) True run(1) by (simp add: Let_def del: fun_upd_apply split: if_splits)
    note IH = Cons.IH[OF this Cons.prems(2)]
    have "tr_data (?rows r) = tr_data (rows r)"
      "tt_get_rts (tr_word (rows r)) \<le> tt_get_rts (tr_word (?rows r))" for r
      using run(2) by auto
    then show ?thesis
      using IH Cons.prems(3) by (fastforce intro: order.trans)
  qed
qed simp

lemma tt_renew_reads_covers:
  assumes "tt_renew_reads cwts as rows = Inr (True, rows')" "cwts < 2 ^ 48"
    and "\<forall>a\<in>set as. ta_wts a \<le> cwts" "distinct (map ta_row as)" "a \<in> set as" "ta_rts a < cwts"
  shows "tt_get_wts (tr_word (rows (ta_row a))) = ta_wts a \<and>
     cwts \<le> tt_get_rts (tr_word (rows' (ta_row a)))"
  using assms(1,3-5)
proof (induction as arbitrary: rows)
  case (Cons b as)
  let ?v = "tr_word (rows (ta_row b))"
  obtain ok w where run: "tt_try_renew ?v (ta_wts b) cwts [?v] = Inr (ok, w)"
      "ok \<longrightarrow> tt_get_wts ?v = ta_wts b \<and> cwts \<le> tt_get_rts (tt_after ?v w)"
    using tt_try_renew_alone[of "ta_wts b" cwts ?v] Cons.prems(2) assms(2) by auto
  let ?rows = "if ta_rts b < cwts then rows(ta_row b := (rows (ta_row b))\<lparr>tr_word := tt_after ?v w\<rparr>)
     else rows"
  have "(case w of None \<Rightarrow> rows | Some v2 \<Rightarrow> rows(ta_row b := (rows (ta_row b))\<lparr>tr_word := v2\<rparr>)) =
      rows(ta_row b := (rows (ta_row b))\<lparr>tr_word := tt_after ?v w\<rparr>)"
    by (simp add: tt_after_def split: option.splits)
  then have rest: "tt_renew_reads cwts as ?rows = Inr (True, rows')" "ta_rts b < cwts \<longrightarrow> ok"
    using Cons.prems(1) run(1)
    by (auto simp: Let_def simp del: fun_upd_apply split: if_splits)
  show ?case
  proof (cases "a = b")
    case True
    have "ta_row b \<notin> ta_row ` set as"
      using Cons.prems(3) by auto
    then have "rows' (ta_row b) = ?rows (ta_row b)"
      using tt_renew_reads_spec[OF rest(1) assms(2)] Cons.prems(2) by simp
    then show ?thesis
      using True assms(6) run(2) rest(2) by simp
  next
    case False
    then have a: "a \<in> set as" "ta_row a \<noteq> ta_row b"
      using Cons.prems(3,4) by (auto simp: image_iff)
    with Cons.IH[OF rest(1)] Cons.prems(2,3) show ?thesis
      by (auto split: if_splits)
  qed
qed simp

lemma tt_write_back_other: "r \<notin> ta_row ` set as \<Longrightarrow> tt_write_back cwts as rows r = rows r"
  by (induction as arbitrary: rows) (simp_all add: tt_write_back_def)

lemma tt_write_back_row:
  assumes "distinct (map ta_row as)" "a \<in> set as"
  shows "tt_write_back cwts as rows (ta_row a) =
     tt_release (tt_write_data (rows (ta_row a)) (ta_data a) cwts)"
  using assms
proof (induction as arbitrary: rows)
  case (Cons b as)
  let ?rows = "rows(ta_row b := tt_release (tt_write_data (rows (ta_row b)) (ta_data b) cwts))"
  have step: "tt_write_back cwts (b # as) rows = tt_write_back cwts as ?rows"
    by (simp add: tt_write_back_def)
  show ?case
  proof (cases "a = b")
    case True
    then have "ta_row a \<notin> ta_row ` set as"
      using Cons.prems(1) by auto
    then show ?thesis
      using step True by (simp add: tt_write_back_other)
  next
    case False
    then have "a \<in> set as" "ta_row a \<noteq> ta_row b"
      using Cons.prems by (auto simp: image_iff)
    then show ?thesis
      unfolding step using Cons.prems(1) by (subst Cons.IH) simp_all
  qed
qed simp

lemma tt_sets:
  "set (tt_write_set rows as) = {a \<in> set as. ta_type a = WR}"
  "distinct (map ta_row as) \<Longrightarrow> distinct (map ta_row (tt_write_set rows as))"
  "set (tt_read_set as) = {a \<in> set as. ta_type a \<noteq> WR}"
  "distinct (map ta_row as) \<Longrightarrow> distinct (map ta_row (tt_read_set as))"
  by (simp_all add: tt_write_set_def tt_read_set_def distinct_map_filter)

text \<open>The stages of a validation that commits.\<close>

lemma validate_tictoc_stages:
  assumes "validate_tictoc fuel txn rows = Inr (RCOK, cwts, txn', rows')"
  obtains rows2 cwts0 where
    "tt_try_locks (tt_write_set rows (tt_accesses txn)) rows =
       (Some True, length (tt_write_set rows (tt_accesses txn)),
        tt_lock_set (tt_write_set rows (tt_accesses txn)) rows)"
    "cwts0 = tt_raise (tt_commit_ts (tt_accesses txn) (0, 0))"
    "cwts = tt_past_leases (tt_write_set rows (tt_accesses txn))
       (tt_lock_set (tt_write_set rows (tt_accesses txn)) rows) cwts0"
    "tt_renew_reads cwts (tt_read_set (tt_accesses txn))
       (tt_lock_set (tt_write_set rows (tt_accesses txn)) rows) = Inr (True, rows2)"
    "rows' = tt_write_back cwts (tt_write_set rows (tt_accesses txn)) rows2"
proof -
  let ?ws = "tt_write_set rows (tt_accesses txn)" and ?rs = "tt_read_set (tt_accesses txn)"
  let ?c0 = "tt_raise (tt_commit_ts (tt_accesses txn) (0, 0))"
  from assms obtain rc n rows1 rows2 where
    run: "(if tt_no_wait txn then tt_lock_no_wait fuel (tt_pre_abort txn) ?c0 ?ws ?rs rows
           else tt_lock_wait ?ws rows) = Inr (rc, n, rows1)" "rc \<noteq> Abort"
    and rest: "cwts = tt_past_leases ?ws rows1 ?c0" "tt_renew_reads cwts ?rs rows1 = Inr (True, rows2)"
      "rows' = tt_write_back cwts ?ws rows2"
    unfolding validate_tictoc_def Let_def by (auto simp: res_simps split: if_splits)
  have "tt_try_locks ?ws rows = (Some True, n, rows1)"
  proof (cases "tt_no_wait txn")
    case True
    have "rc = RCOK"
      using run True
    proof -
      have "tt_lock_no_wait f p c ws rs rw = Inr (rc, n, rows1) \<Longrightarrow> rc = RCOK \<or> rc = Abort"
        for f p c ws rs rw
        by (induction f arbitrary: rw)
           (auto simp: Let_def split: prod.splits option.splits bool.splits if_splits)
      then show ?thesis
        using run True by auto
    qed
    then show ?thesis
      using run(1) True tt_no_wait_ok by simp
  next
    case False
    then show ?thesis
      using run tt_lock_wait_try[of ?ws rows rc n rows1] by simp
  qed
  then show ?thesis
    using that[OF _ refl, of rows2] rest tt_try_locks_spec[of ?ws rows "Some True" n rows1] by simp
qed

section \<open>Properties\<close>

text \<open>
  C15: A committed TicToc transaction is correctly placed in time. When \<open>validate_tictoc\<close> commits
  a transaction that touches each row at most once, with commit timestamp \<open>t\<close> (below 2^48): every
  row it wrote was still at the version it had seen, \<open>t\<close> lies after the whole read lease of that
  version, and the row now holds the local copy as version \<open>t\<close> with lease end \<open>t\<close>, unlocked; for
  every row it only read, \<open>t\<close> is not before the version it read, and either its own lease reached
  \<open>t\<close> or the row was still at that version and its lease now reaches \<open>t\<close>; the data of rows it did
  not write are unchanged, and rows it did not touch are unchanged altogether.
\<close>

theorem tictoc_commit_sound:
  assumes "validate_tictoc fuel txn rows = Inr (RCOK, t, txn', rows')" and "t < 2 ^ 48"
    and "distinct (map ta_row (tt_accesses txn))"
    and "\<forall>a\<in>set (tt_accesses txn). ta_type a = RD \<or> ta_type a = WR"
  shows "(\<forall>a\<in>set (tt_accesses txn). ta_type a = WR \<longrightarrow>
        tt_get_wts (tr_word (rows (ta_row a))) = ta_wts a \<and>
        tt_get_rts (tr_word (rows (ta_row a))) < t \<and>
        tr_data (rows' (ta_row a)) = ta_data a \<and> tt_get_wts (tr_word (rows' (ta_row a))) = t \<and>
        tt_get_rts (tr_word (rows' (ta_row a))) = t \<and> \<not> tt_locked (tr_word (rows' (ta_row a)))) \<and>
     (\<forall>a\<in>set (tt_accesses txn). ta_type a = RD \<longrightarrow>
        ta_wts a \<le> t \<and> tr_data (rows' (ta_row a)) = tr_data (rows (ta_row a)) \<and>
        (t \<le> ta_rts a \<or> tt_get_wts (tr_word (rows (ta_row a))) = ta_wts a \<and>
                         t \<le> tt_get_rts (tr_word (rows' (ta_row a))))) \<and>
     (\<forall>r. r \<notin> ta_row ` set (tt_accesses txn) \<longrightarrow> rows' r = rows r)"
proof -
  let ?ws = "tt_write_set rows (tt_accesses txn)" and ?rs = "tt_read_set (tt_accesses txn)"
  let ?lr = "tt_lock_set ?ws rows"
  obtain rows2 c0 where st: "tt_try_locks ?ws rows = (Some True, length ?ws, ?lr)"
    "c0 = tt_raise (tt_commit_ts (tt_accesses txn) (0, 0))" "t = tt_past_leases ?ws ?lr c0"
    "tt_renew_reads t ?rs ?lr = Inr (True, rows2)" "rows' = tt_write_back t ?ws rows2"
    by (rule validate_tictoc_stages[OF assms(1)])
  note locks = tt_try_locks_spec[OF st(1)]
  have past: "c0 \<le> t" "\<forall>a\<in>set ?ws. tt_get_rts (tr_word (?lr (ta_row a))) < t"
    using tt_past_leases_ge[of ?ws ?lr c0] tt_rts_bound by (simp_all add: st(3))
  have lr_rts: "tt_get_rts (tr_word (?lr r)) = tt_get_rts (tr_word (rows r))" for r
    by (simp add: tt_lock_set_def tt_lockd_def tt_get_rts_def tt_lock_word flip: tt_get_wts_def)
  have seen: "\<forall>a\<in>set ?rs. ta_wts a \<le> t"
  proof -
    obtain cr cw where "tt_commit_ts (tt_accesses txn) (0, 0) = (cr, cw)" by fastforce
    then show ?thesis
      using tt_commit_ts_mono[of "tt_accesses txn" 0 0 cr cw] tt_raise_ge[of cr cw] past(1) st(2) assms(4)
      by (auto simp: tt_sets intro: order.trans)
  qed
  note reads = tt_renew_reads_spec[OF st(4) assms(2) seen]
  have disj: "ta_row a \<notin> ta_row ` set ?rs" if "a \<in> set ?ws" for a
    using that assms(3) by (auto simp: tt_sets distinct_map dest: inj_onD)
  have disj': "ta_row a \<notin> ta_row ` set ?ws" if "a \<in> set ?rs" for a
    using that assms(3) by (auto simp: tt_sets distinct_map dest: inj_onD)
  have W: "tt_get_wts (tr_word (rows (ta_row a))) = ta_wts a \<and> tt_get_rts (tr_word (rows (ta_row a))) < t \<and>
      rows' (ta_row a) = tt_release (tt_write_data (rows2 (ta_row a)) (ta_data a) t)"
    if "a \<in> set ?ws" for a
    using that locks past(2) lr_rts tt_write_back_row[OF tt_sets(2)[OF assms(3)] that] st(5) by auto
  have R: "tr_data (rows' (ta_row a)) = tr_data (rows (ta_row a)) \<and> rows' (ta_row a) = rows2 (ta_row a) \<and>
      (ta_rts a < t \<longrightarrow> tt_get_wts (tr_word (rows (ta_row a))) = ta_wts a \<and>
         t \<le> tt_get_rts (tr_word (rows2 (ta_row a))))"
    if "a \<in> set ?rs" for a
  proof -
    have "?lr (ta_row a) = rows (ta_row a)" "rows' (ta_row a) = rows2 (ta_row a)"
      using disj'[OF that] tt_write_back_other st(5) by (simp_all add: tt_lock_set_def)
    then show ?thesis
      using reads tt_renew_reads_covers[OF st(4) assms(2) seen tt_sets(4)[OF assms(3)] that] by metis
  qed
  have "rows' r = rows r" if "r \<notin> ta_row ` set (tt_accesses txn)" for r
  proof -
    have "r \<notin> ta_row ` set ?ws" "r \<notin> ta_row ` set ?rs"
      using that by (auto simp: tt_sets)
    then show ?thesis
      using reads tt_write_back_other[of r ?ws t rows2] st(5) by (simp add: tt_lock_set_def)
  qed
  moreover have "tt_get_wts (tr_word (tt_release (tt_write_data r d t))) = t"
    "tt_get_rts (tr_word (tt_release (tt_write_data r d t))) = t"
    "tr_data (tt_release (tt_write_data r d t)) = d"
    "\<not> tt_locked (tr_word (tt_release (tt_write_data r d t)))" for r d
    using tt_write_word[OF assms(2), of "tr_word r"]
    by (simp_all add: tt_release_def tt_write_data_def tt_lock_word tt_get_rts_def flip: tt_get_wts_def)
  moreover have "ta_wts a \<le> t \<and> tr_data (rows' (ta_row a)) = tr_data (rows (ta_row a)) \<and>
      (t \<le> ta_rts a \<or> tt_get_wts (tr_word (rows (ta_row a))) = ta_wts a \<and>
                       t \<le> tt_get_rts (tr_word (rows' (ta_row a))))"
    if "a \<in> set (tt_accesses txn)" "ta_type a = RD" for a
    using R[of a] seen that by (cases "t \<le> ta_rts a") (auto simp: tt_sets not_le)
  ultimately show ?thesis
    using W by (simp add: tt_sets)
qed

definition tt_rows_ex :: tt_rows where
  "tt_rows_ex r = \<lparr>tr_pkey = of_nat r, tr_data = [0], tr_word = 10\<rparr>"

definition tt_txn_ex :: tt_txn where
  "tt_txn_ex = \<lparr>tt_accesses = [\<lparr>ta_type = WR, ta_row = 2, ta_data = [9], ta_wts = 10, ta_rts = 10\<rparr>],
     tt_max_wts = 0, tt_pre_abort = True, tt_no_wait = True\<rparr>"

theorem tictoc_commit_sound_witness:
  "\<exists>t txn' rows'. validate_tictoc 1 tt_txn_ex tt_rows_ex = Inr (RCOK, t, txn', rows') \<and>
     tr_data (rows' 2) = [9] \<and> tt_get_wts (tr_word (rows' 2)) = t"
proof -
  have w: "tt_get_wts 10 = 10" "tt_lease 10 = 0" "\<not> tt_locked 10"
    using tt_pack[of 10 0] by simp_all
  have lock: "tt_get_wts (10 OR TT_LOCK_BIT) = 10" "tt_lease (10 OR TT_LOCK_BIT) = 0"
    using w by (simp_all add: tt_lock_word)
  have "\<exists>txn' rows'. validate_tictoc 1 tt_txn_ex tt_rows_ex = Inr (RCOK, 11, txn', rows')"
    using w lock
    by (simp add: validate_tictoc_def tt_txn_ex_def tt_write_set_def tt_read_set_def bubble_sort_def
        tt_raise_def tt_pre_ok_def tt_rows_ex_def tt_try_lock_def tt_get_rts_def Let_def
        flip: tt_get_wts_def)
  then obtain txn' rows' where run: "validate_tictoc 1 tt_txn_ex tt_rows_ex = Inr (RCOK, 11, txn', rows')"
    by blast
  then show ?thesis
    using tictoc_commit_sound[OF run] by (auto simp: tt_txn_ex_def)
qed

text \<open>
   A lease renewal that is disturbed can take back somebody else's renewal. If between the
  read of the word and the first compare-and-swap another transaction has extended the same
  version's lease beyond the requested end (to a lease length not above the requested timestamp,
  which is what the code compares), \<open>try_renew\<close> retries and installs the shorter lease. The
  other transaction has committed relying on a lease that no longer exists.
\<close>

theorem tictoc_renew_shrinks_lease:
  assumes "wts \<le> rts" and "rts < 2 ^ 48" and "rts - wts < 2 ^ 15"
    and "tt_get_wts v = wts" and "\<not> tt_locked v" and "tt_get_rts v < rts"
    and "tt_get_wts m = wts" and "\<not> tt_locked m" and "rts < tt_get_rts m" and "tt_lease m \<le> rts"
  shows "\<exists>v2. tt_try_renew v wts rts [m, m] = Inr (True, Some v2) \<and> tt_get_rts v2 = rts \<and>
     tt_get_rts v2 < tt_get_rts m"
proof -
  have "\<not> 2 ^ 15 \<le> rts - wts"
    using assms(3) by (simp only: not_le)
  moreover have "\<not> rts - wts \<le> tt_lease v" "\<not> rts - wts < tt_lease v"
  proof -
    have "unat (tt_lease v) < unat (rts - wts)"
      using assms(1,4,6) unat_tt_rts[of v] by (simp add: word_less_nat_alt unat_sub word_le_nat_alt)
    then show "\<not> rts - wts \<le> tt_lease v" "\<not> rts - wts < tt_lease v"
      by (simp_all add: word_le_nat_alt word_less_nat_alt)
  qed
  moreover have "m \<noteq> v"
    using assms(6,9) by auto
  ultimately have "tt_try_renew v wts rts [m, m] = Inr (True, Some (wts OR push_bit 48 (rts - wts)))"
    using assms(4,5,7,8,10)
    by (simp add: tt_try_renew_def tt_get_wts_def Let_def not_less)
  moreover have "wts < 2 ^ 48"
    using assms(4) tt_wts_less[of v] by simp
  then have "tt_get_rts (wts OR push_bit 48 (rts - wts)) = rts"
    using tt_pack[of wts "rts - wts"] assms(3) by (simp add: tt_get_rts_def flip: tt_get_wts_def)
  ultimately show ?thesis
    using assms(9) by auto
qed

theorem tictoc_renew_shrinks_lease_witness:
  "\<exists>v2. tt_try_renew (100 OR push_bit 48 0) 100 105 [100 OR push_bit 48 10, 100 OR push_bit 48 10] =
       Inr (True, Some v2) \<and> tt_get_rts v2 = 105 \<and> tt_get_rts (100 OR push_bit 48 10) = 110"
proof -
  have v: "tt_get_wts (100 OR push_bit 48 0) = 100" "tt_lease (100 OR push_bit 48 0) = 0"
    "\<not> tt_locked (100 OR push_bit 48 0)"
    by (rule tt_pack; simp)+
  have m: "tt_get_wts (100 OR push_bit 48 10) = 100" "tt_lease (100 OR push_bit 48 10) = 10"
    "\<not> tt_locked (100 OR push_bit 48 10)"
    by (rule tt_pack; simp)+
  have r: "tt_get_rts (100 OR push_bit 48 0) = 100" "tt_get_rts (100 OR push_bit 48 10) = 110"
    unfolding tt_get_rts_def tt_get_wts_def[symmetric] v m by simp_all
  show ?thesis
    using tictoc_renew_shrinks_lease[OF _ _ _ v(1,3) _ m(1,3), of 105] r m(2) by auto
qed

end
