(* ===== verification/Coder.thy ===== *)
theory Coder
  imports Prelude
begin

text \<open>
  The record encoding of \<open>common/coder.cpp\<close>: a list of pairs becomes
  \<open>{first}{second}{first}{second}...\<close>, and \<open>decode_vec\<close> reads it back by counting braces.
  The rows, hash buckets and log entries of the program are encoded this way, nested in one
  another. The second part models the two library conversions the callers combine it with,
  \<open>std::to_string\<close> and \<open>std::stoull\<close> on 64-bit numbers.

  \<open>coder_roundtrip\<close> shows that decoding inverts encoding for components with balanced
  braces and encodings shorter than \<open>2 ^ 31\<close> characters, and \<open>encode_vec_balanced\<close> that encodings are themselves balanced, so that the
  nesting the program uses is covered.
\<close>

section \<open>Pairs of strings\<close>

fun encode_vec :: "(string \<times> string) list \<Rightarrow> string" where
  "encode_vec [] = []"
| "encode_vec ((a, b) # xs) = ''{'' @ a @ ''}{'' @ b @ ''}'' @ encode_vec xs"

text \<open>
  The loop variables of \<open>decode_vec\<close>. \<open>depth\<close> is a C \<open>int\<close>; it is bounded by the number of
  characters read, itself an \<open>int\<close>, so it is modelled as an integer.
\<close>

record decode_state =
  dv_depth :: int
  dv_is_first :: bool
  dv_tmp :: string
  dv_fi :: string
  dv_vector :: "(string \<times> string) list"

definition decode_push :: "char \<Rightarrow> decode_state \<Rightarrow> decode_state" where
  "decode_push c s =
     (if dv_depth s > 1 \<or> (dv_depth s = 1 \<and> c \<noteq> CHR ''}'')
      then s\<lparr>dv_tmp := dv_tmp s @ [c]\<rparr> else s)"

definition decode_close :: "char \<Rightarrow> decode_state \<Rightarrow> decode_state" where
  "decode_close c s =
     (if dv_depth s = 1 \<and> c = CHR ''}''
      then (if dv_is_first s then s\<lparr>dv_fi := dv_tmp s\<rparr>
            else s\<lparr>dv_vector := dv_vector s @ [(dv_fi s, dv_tmp s)], dv_fi := []\<rparr>)
           \<lparr>dv_is_first := \<not> dv_is_first s, dv_tmp := []\<rparr>
      else s)"

definition decode_count :: "char \<Rightarrow> decode_state \<Rightarrow> decode_state" where
  "decode_count c s =
     (if c = CHR ''{'' then s\<lparr>dv_depth := dv_depth s + 1\<rparr>
      else if c = CHR ''}'' then s\<lparr>dv_depth := dv_depth s - 1\<rparr> else s)"

definition decode_char :: "char \<Rightarrow> decode_state \<Rightarrow> decode_state res" where
  "decode_char c s =
     (let s' = decode_count c (decode_close c (decode_push c s))
      in assert_res (dv_depth s' = 0 \<longrightarrow> c = CHR ''}'' \<or> c = CHR ''{'') (Inr s'))"

fun decode_loop :: "string \<Rightarrow> decode_state \<Rightarrow> decode_state res" where
  "decode_loop [] s = Inr s"
| "decode_loop (c # cs) s = bind_res (decode_char c s) (decode_loop cs)"

text \<open>
  \<open>int(e.size())\<close> keeps the low 32 bits as a signed number: an input of \<open>2 ^ 31\<close> characters or more
  gives a negative number or one that is too small.
\<close>

definition int_size :: "string \<Rightarrow> int" where
  "int_size e = sint (of_nat (length e) :: u32)"

definition decode_vec :: "string \<Rightarrow> (string \<times> string) list res" where
  "decode_vec e =
     (let n = int_size e in
      if n = 0 then Inr []
      else assert_res (n > 1)
        (assert_res (e ! 0 = CHR ''{'' \<and> e ! nat (n - 1) = CHR ''}'')
          (bind_res (decode_loop (take (nat n) e) \<lparr>dv_depth = 0, dv_is_first = True, dv_tmp = [],
                dv_fi = [], dv_vector = []\<rparr>)
            (\<lambda>s. assert_res (dv_depth s = 0) (assert_res (dv_fi s = []) (Inr (dv_vector s)))))))"

section \<open>Decimal numbers\<close>

text \<open>\<open>std::to_string\<close> of an unsigned number: its decimal digits, most significant first.\<close>

definition digit_char :: "nat \<Rightarrow> char" where
  "digit_char d = char_of (48 + d)"

fun nat_to_string :: "nat \<Rightarrow> string" where
  "nat_to_string n = (if n < 10 then [digit_char n]
     else nat_to_string (n div 10) @ [digit_char (n mod 10)])"

declare nat_to_string.simps [simp del]

definition u64_to_string :: "u64 \<Rightarrow> string" where
  "u64_to_string x = nat_to_string (unat x)"

text \<open>
  \<open>std::stoull\<close> in base ten: leading white space and a sign are skipped, the longest run of
  digits is the number, a minus sign negates it in 64-bit arithmetic. No digit, or a number of
  more than 64 bits, throws; nothing catches it, so it ends the program like an assertion.
\<close>

definition is_digit :: "char \<Rightarrow> bool" where
  "is_digit c \<longleftrightarrow> 48 \<le> (of_char c :: nat) \<and> (of_char c :: nat) < 58"

definition is_space :: "char \<Rightarrow> bool" where
  "is_space c \<longleftrightarrow> (of_char c :: nat) = 32 \<or> (9 \<le> (of_char c :: nat) \<and> (of_char c :: nat) < 14)"

fun digits_value :: "nat \<Rightarrow> string \<Rightarrow> nat" where
  "digits_value acc [] = acc"
| "digits_value acc (c # cs) = digits_value (acc * 10 + (of_char c - 48)) cs"

definition stoull_digits :: "bool \<Rightarrow> string \<Rightarrow> u64 res" where
  "stoull_digits neg s =
     (let ds = takeWhile is_digit s; v = digits_value 0 ds in
      assert_res (ds \<noteq> [])
        (assert_res (v < 2 ^ 64) (Inr (if neg then - of_nat v else of_nat v))))"

definition stoull :: "string \<Rightarrow> u64 res" where
  "stoull s =
     (case dropWhile is_space s of
        [] \<Rightarrow> Inl Assert_Fail
      | c # cs \<Rightarrow>
          if c = CHR ''+'' then stoull_digits False cs
          else if c = CHR ''-'' then stoull_digits True cs
          else stoull_digits False (c # cs))"

section \<open>Balanced braces\<close>

fun brace_depth :: "nat \<Rightarrow> string \<Rightarrow> nat option" where
  "brace_depth d [] = Some d"
| "brace_depth d (c # cs) =
     (if c = CHR ''{'' then brace_depth (d + 1) cs
      else if c = CHR ''}'' then (if d = 0 then None else brace_depth (d - 1) cs)
      else brace_depth d cs)"

definition balanced :: "string \<Rightarrow> bool" where
  "balanced s \<longleftrightarrow> brace_depth 0 s = Some 0"

lemma brace_depth_append:
  "brace_depth d (xs @ ys) = (case brace_depth d xs of None \<Rightarrow> None | Some e \<Rightarrow> brace_depth e ys)"
  by (induction d xs rule: brace_depth.induct) auto

lemma brace_depth_mono:
  "brace_depth d xs = Some e \<Longrightarrow> brace_depth (d + k) xs = Some (e + k)"
proof (induction d xs arbitrary: e rule: brace_depth.induct)
  case (2 d c cs)
  then show ?case
    by (cases d) (auto split: if_splits)
qed simp

lemma balanced_shift: "balanced s \<Longrightarrow> brace_depth d s = Some d"
  using brace_depth_mono[of 0 s 0 d] by (simp add: balanced_def)

lemma balanced_append [intro]: "balanced xs \<Longrightarrow> balanced ys \<Longrightarrow> balanced (xs @ ys)"
  by (simp add: balanced_def brace_depth_append)

lemma balanced_no_brace: "\<forall>c\<in>set s. c \<noteq> CHR ''{'' \<and> c \<noteq> CHR ''}'' \<Longrightarrow> balanced s"
proof -
  have "\<forall>c\<in>set s. c \<noteq> CHR ''{'' \<and> c \<noteq> CHR ''}'' \<Longrightarrow> brace_depth d s = Some d" for d
    by (induction d s rule: brace_depth.induct) auto
  then show "\<forall>c\<in>set s. c \<noteq> CHR ''{'' \<and> c \<noteq> CHR ''}'' \<Longrightarrow> balanced s"
    by (simp add: balanced_def)
qed

abbreviation balanced_pairs :: "(string \<times> string) list \<Rightarrow> bool" where
  "balanced_pairs xs \<equiv> (\<forall>(a, b)\<in>set xs. balanced a \<and> balanced b)"

lemma encode_vec_balanced:
  "balanced_pairs xs \<Longrightarrow> balanced (encode_vec xs)"
  by (induction xs rule: encode_vec.induct)
    (auto simp: balanced_def brace_depth_append balanced_shift)

section \<open>Decoding an encoding\<close>

lemma decode_loop_append:
  "decode_loop (xs @ ys) s = bind_res (decode_loop xs s) (decode_loop ys)"
proof (induction xs arbitrary: s)
  case (Cons c cs)
  then show ?case
    by (cases "decode_char c s") auto
qed simp

lemmas decode_char_simps =
  decode_char_def decode_push_def decode_close_def decode_count_def Let_def

text \<open>Inside a component every character is copied.\<close>

lemma decode_loop_inside:
  assumes "brace_depth d xs = Some e" "dv_depth s = int d + 1"
  shows "decode_loop xs s = Inr (s\<lparr>dv_depth := int e + 1, dv_tmp := dv_tmp s @ xs\<rparr>)"
  using assms
proof (induction xs arbitrary: d s)
  case Nil
  then show ?case by simp
next
  case (Cons c cs)
  consider "c = CHR ''{''" | "c = CHR ''}''" | "c \<noteq> CHR ''{''" "c \<noteq> CHR ''}''"
    by blast
  then show ?case
  proof cases
    case 1
    then have "decode_char c s = Inr (s\<lparr>dv_depth := int d + 2, dv_tmp := dv_tmp s @ [c]\<rparr>)"
      using Cons.prems by (cases s) (auto simp: decode_char_simps)
    then show ?thesis
      using 1 Cons.prems Cons.IH[of "d + 1" "s\<lparr>dv_depth := int d + 2, dv_tmp := dv_tmp s @ [c]\<rparr>"]
      by simp
  next
    case 2
    then obtain k where "d = Suc k"
      using Cons.prems by (cases d) auto
    then have "decode_char c s = Inr (s\<lparr>dv_depth := int k + 1, dv_tmp := dv_tmp s @ [c]\<rparr>)"
      using 2 Cons.prems by (cases s) (auto simp: decode_char_simps)
    then show ?thesis
      using 2 \<open>d = Suc k\<close> Cons.prems
        Cons.IH[of k "s\<lparr>dv_depth := int k + 1, dv_tmp := dv_tmp s @ [c]\<rparr>"] by simp
  next
    case 3
    then show ?thesis
      using Cons.prems Cons.IH[of d "s\<lparr>dv_tmp := dv_tmp s @ [c]\<rparr>"]
      by (auto simp: decode_char_simps)
  qed
qed

lemma decode_loop_pair:
  assumes "balanced a" "balanced b"
  shows "decode_loop (''{'' @ a @ ''}{'' @ b @ ''}'')
       \<lparr>dv_depth = 0, dv_is_first = True, dv_tmp = [], dv_fi = [], dv_vector = vs\<rparr>
     = Inr \<lparr>dv_depth = 0, dv_is_first = True, dv_tmp = [], dv_fi = [], dv_vector = vs @ [(a, b)]\<rparr>"
proof -
  have inside: "decode_loop x s = Inr (s\<lparr>dv_tmp := dv_tmp s @ x\<rparr>)"
    if "balanced x" "dv_depth s = 1" for x s
    using decode_loop_inside[of 0 x 0 s] that by (simp add: balanced_def)
  show ?thesis
    using assms by (simp add: decode_loop_append decode_char_simps inside)
qed

lemma decode_loop_encode:
  assumes "balanced_pairs xs"
  shows "decode_loop (encode_vec xs)
       \<lparr>dv_depth = 0, dv_is_first = True, dv_tmp = [], dv_fi = [], dv_vector = vs\<rparr>
     = Inr \<lparr>dv_depth = 0, dv_is_first = True, dv_tmp = [], dv_fi = [], dv_vector = vs @ xs\<rparr>"
  using assms
proof (induction xs arbitrary: vs rule: encode_vec.induct)
  case (2 a b xs)
  have "encode_vec ((a, b) # xs) = (''{'' @ a @ ''}{'' @ b @ ''}'') @ encode_vec xs"
    by simp
  then show ?case
    using 2 decode_loop_pair[of a b vs]
    by (simp only: decode_loop_append) simp
qed simp

lemma encode_vec_ends:
  "xs \<noteq> [] \<Longrightarrow> length (encode_vec xs) > 1 \<and> hd (encode_vec xs) = CHR ''{'' \<and>
     last (encode_vec xs) = CHR ''}''"
proof (induction xs rule: encode_vec.induct)
  case (2 a b xs)
  then show ?case
    by (cases "xs = []") auto
qed simp

lemma int_size_small:
  assumes "length e < 2 ^ 31"
  shows "int_size e = int (length e)"
proof -
  have "uint (of_nat (length e) :: u32) = int (length e)"
    using assms by (simp add: unsigned_of_nat take_bit_nat_eq_self)
  then show ?thesis
    using assms by (simp add: int_size_def sint_uint signed_take_bit_int_eq_self)
qed

lemma encode_vec_longer: "(a, b) \<in> set xs \<Longrightarrow> length a + length b < length (encode_vec xs)"
  by (induction xs rule: encode_vec.induct) auto

lemma decode_encode:
  assumes "balanced_pairs xs" "length (encode_vec xs) < 2 ^ 31"
  shows "decode_vec (encode_vec xs) = Inr xs"
proof (cases "xs = []")
  case False
  then have ends: "encode_vec xs \<noteq> []" "1 < length (encode_vec xs)" "encode_vec xs ! 0 = CHR ''{''"
      "encode_vec xs ! (length (encode_vec xs) - 1) = CHR ''}''"
    using encode_vec_ends[of xs] hd_conv_nth[of "encode_vec xs"] last_conv_nth[of "encode_vec xs"]
    by (cases "encode_vec xs"; simp)+
  then show ?thesis
    using decode_loop_encode[OF assms(1), of "[]"] int_size_small[OF assms(2)]
    by (simp add: decode_vec_def Let_def nat_diff_distrib)
qed (simp add: decode_vec_def int_size_def)

text \<open>
  C19: The decoder inverts the encoder: for any list of pairs whose components have balanced
  braces and whose encoding is shorter than \<open>2 ^ 31\<close> characters (the decoder counts them in an \<open>int\<close>),
  \<open>decode_vec\<close> of \<open>encode_vec\<close> passes all its assertions and returns the list, and
  the encoding is itself a balanced string, so it may be used as a component of another
  encoding.
\<close>

theorem coder_roundtrip:
  assumes "balanced_pairs xs" and "length (encode_vec xs) < 2 ^ 31"
  shows "decode_vec (encode_vec xs) = Inr xs \<and> balanced (encode_vec xs)"
  using decode_encode[OF assms] encode_vec_balanced[OF assms(1)] by blast

theorem coder_roundtrip_witness:
  "decode_vec (encode_vec [(''k'', ''1''), (''row'', ''{a}{b}'')])
     = Inr [(''k'', ''1''), (''row'', ''{a}{b}'')]"
  using coder_roundtrip[of "[(''k'', ''1''), (''row'', ''{a}{b}'')]"]
  by (simp add: balanced_def)

section \<open>Decimal round trip\<close>

lemma of_char_digit [simp]: "d < 10 \<Longrightarrow> of_char (digit_char d) = 48 + d"
  by (simp add: digit_char_def)

lemma is_digit_digit [simp]: "d < 10 \<Longrightarrow> is_digit (digit_char d)"
  by (simp add: is_digit_def)

lemma digits_value_append:
  "digits_value acc (xs @ ys) = digits_value (digits_value acc xs) ys"
  by (induction acc xs rule: digits_value.induct) auto

lemma nat_to_string_digits: "c \<in> set (nat_to_string n) \<Longrightarrow> is_digit c"
proof (induction n rule: nat_to_string.induct)
  case (1 n)
  then show ?case
    by (subst (asm) nat_to_string.simps[of n]) (auto split: if_splits)
qed

lemma nat_to_string_nonempty [simp]: "nat_to_string n \<noteq> []"
  by (subst nat_to_string.simps) simp

lemma nat_to_string_value: "digits_value 0 (nat_to_string n) = n"
proof (induction n rule: nat_to_string.induct)
  case (1 n)
  then show ?case
    by (subst nat_to_string.simps) (auto simp: digits_value_append)
qed

lemma is_digit_char:
  assumes "is_digit c"
  shows "\<not> is_space c" "c \<noteq> CHR ''+''" "c \<noteq> CHR ''-''" "c \<noteq> CHR ''{''" "c \<noteq> CHR ''}''"
  using assms by (auto simp: is_digit_def is_space_def)

lemma u64_to_string_balanced [simp]: "balanced (u64_to_string x)"
  using nat_to_string_digits is_digit_char(4,5)
  by (intro balanced_no_brace) (auto simp: u64_to_string_def)

lemma stoull_to_string [simp]: "stoull (u64_to_string x) = Inr x"
proof -
  let ?s = "nat_to_string (unat x)"
  obtain c cs where s: "?s = c # cs"
    by (cases ?s) auto
  have dig: "\<forall>c\<in>set ?s. is_digit c"
    using nat_to_string_digits by blast
  then have "takeWhile is_digit ?s = ?s"
    by (simp add: takeWhile_eq_all_conv)
  moreover have "unat x < 2 ^ 64"
    using unsigned_less[of x] by simp
  moreover have "is_digit c"
    using dig s by simp
  moreover have "dropWhile is_space ?s = ?s"
    using \<open>is_digit c\<close> is_digit_char(1) s by simp
  moreover have "takeWhile is_digit cs = cs"
    using dig s by (simp add: takeWhile_eq_all_conv)
  ultimately show ?thesis
    using nat_to_string_value[of "unat x"] s is_digit_char(2,3)[of c]
    by (simp add: stoull_def u64_to_string_def stoull_digits_def takeWhile_eq_all_conv[THEN iffD2])
qed

end
