(* ===== verification/Row_Data.thy ===== *)
theory Row_Data
  imports Coder
begin

text \<open>
  Schemas and rows: \<open>Catalog\<close> (\<open>common/catalog.h\<close>, \<open>untrusted/system/catalog.cpp\<close>),
  \<open>table_t\<close>, and the tuple part of \<open>row_t\<close> (\<open>trusted/system/row_enc.cpp\<close>) and its untrusted
  twin \<open>base_row_t\<close> (\<open>common/base_row.h\<close>, \<open>untrusted/cache/row.cpp\<close>), which has the same
  fields and the same methods. A tuple is a byte buffer; columns are (offset, size) slices of
  it that \<open>Catalog::add_col\<close> lays out one after the other. The concurrency-control manager of
  a row is modelled in the theories of the managers.

  A row keeps a pointer to its table; tables do not change their schema after loading, so the
  model keeps the table itself. \<open>malloc\<close> does not initialise the buffer, so its initial bytes
  are an argument.

  The locale \<open>field_store\<close> is the contract the transactions rely on when they read and write
  columns; it is interpreted on \<open>row_set_value\<close> and \<open>row_get_field\<close> over any catalog built
  by \<open>add_col\<close>.
\<close>

section \<open>Schemas\<close>

record column =
  col_id :: u64
  col_size :: u32
  col_index :: u32
  col_type :: string
  col_name :: string

text \<open>
  \<open>_columns\<close> is an array of \<open>cat_cap\<close> entries of which the first \<open>field_cnt\<close> are set;
  \<open>cat_columns\<close> holds those. Reading an entry that is not set is the fault \<open>Bounds\<close>.
\<close>

record catalog =
  cat_field_cnt :: u32
  cat_table_name :: string
  cat_columns :: "column list"
  cat_cap :: nat
  cat_tuple_size :: u32

definition catalog_init :: "string \<Rightarrow> nat \<Rightarrow> catalog" where
  "catalog_init name cap =
     \<lparr>cat_field_cnt = 0, cat_table_name = name, cat_columns = [], cat_cap = cap,
      cat_tuple_size = 0\<rparr>"

text \<open>The type and name buffers of a column have 80 bytes, the last one for the terminator.\<close>

definition add_col :: "catalog \<Rightarrow> string \<Rightarrow> u64 \<Rightarrow> string \<Rightarrow> catalog res" where
  "add_col c name sz ty =
     (if \<not> unat (cat_field_cnt c) < cat_cap c \<or> \<not> length ty < 80 \<or> \<not> length name < 80
      then Inl Bounds
      else Inr (c\<lparr>cat_columns := cat_columns c @
            [\<lparr>col_id = ucast (cat_field_cnt c), col_size = ucast sz,
              col_index = cat_tuple_size c, col_type = ty, col_name = name\<rparr>],
          cat_tuple_size := cat_tuple_size c + ucast sz,
          cat_field_cnt := cat_field_cnt c + 1\<rparr>))"

fun add_cols :: "catalog \<Rightarrow> (string \<times> u64 \<times> string) list \<Rightarrow> catalog res" where
  "add_cols c [] = Inr c"
| "add_cols c ((name, sz, ty) # cs) =
     bind_res (add_col c name sz ty) (\<lambda>c'. add_cols c' cs)"

definition get_column :: "catalog \<Rightarrow> nat \<Rightarrow> column res" where
  "get_column c i = (if i < length (cat_columns c) then Inr (cat_columns c ! i) else Inl Bounds)"

definition get_field_size :: "catalog \<Rightarrow> nat \<Rightarrow> u64 res" where
  "get_field_size c i = bind_res (get_column c i) (\<lambda>col. Inr (ucast (col_size col)))"

definition get_field_index :: "catalog \<Rightarrow> nat \<Rightarrow> u64 res" where
  "get_field_index c i = bind_res (get_column c i) (\<lambda>col. Inr (ucast (col_index col)))"

fun find_name :: "string \<Rightarrow> column list \<Rightarrow> nat \<Rightarrow> nat" where
  "find_name name [] i = i"
| "find_name name (col # cols) i =
     (if name = col_name col then i else find_name name cols (Suc i))"

definition get_field_id :: "catalog \<Rightarrow> string \<Rightarrow> nat res" where
  "get_field_id c name =
     (let i = find_name name (cat_columns c) 0
      in assert_res (i < length (cat_columns c)) (Inr i))"

record table_t =
  tb_table_name :: string
  tb_cur_tab_size :: u64
  tb_schema :: catalog

section \<open>Rows\<close>

record row =
  r_primary_key :: u64
  r_part_id :: u64
  r_row_id :: u64
  r_data :: bytes
  r_table :: table_t

abbreviation tuple_size :: "row \<Rightarrow> nat" where
  "tuple_size r \<equiv> unat (cat_tuple_size (tb_schema (r_table r)))"

text \<open>\<open>init\<close>: \<open>garbage\<close> is what the allocated buffer of \<open>tuple_size\<close> bytes happens to hold.\<close>

definition row_init :: "row \<Rightarrow> table_t \<Rightarrow> u64 \<Rightarrow> u64 \<Rightarrow> (nat \<Rightarrow> u8) \<Rightarrow> row" where
  "row_init r host_table part_id row_id garbage =
     r\<lparr>r_row_id := row_id, r_part_id := part_id, r_table := host_table,
       r_data := map garbage [0..<unat (cat_tuple_size (tb_schema host_table))]\<rparr>"

text \<open>\<open>get_new_row\<close>: \<open>rnd\<close> is the value of \<open>random()\<close>.\<close>

definition get_new_row ::
  "table_t \<Rightarrow> row \<Rightarrow> u64 \<Rightarrow> u64 \<Rightarrow> (nat \<Rightarrow> u8) \<Rightarrow> row \<times> u64 \<times> table_t" where
  "get_new_row tab r part_id rnd garbage =
     (let tab' = tab\<lparr>tb_cur_tab_size := tb_cur_tab_size tab + 1\<rparr>;
          row_id = rnd AND 0xFFFFFFF
      in (row_init r tab' part_id row_id garbage, row_id, tab'))"

text \<open>\<open>memcpy(&data[pos], ptr, size)\<close>, with the faults of a short source or destination.\<close>

definition row_memcpy :: "bytes \<Rightarrow> nat \<Rightarrow> bytes \<Rightarrow> nat \<Rightarrow> bytes res" where
  "row_memcpy data pos src sz =
     (if length src < sz \<or> length data < pos + sz then Inl Bounds
      else Inr (take pos data @ take sz src @ drop (pos + sz) data))"

definition row_set_value_size :: "row \<Rightarrow> nat \<Rightarrow> bytes \<Rightarrow> nat \<Rightarrow> row res" where
  "row_set_value_size r i src sz =
     bind_res (get_field_index (tb_schema (r_table r)) i) (\<lambda>pos.
       bind_res (row_memcpy (r_data r) (unat pos) src sz) (\<lambda>d. Inr (r\<lparr>r_data := d\<rparr>)))"

definition row_set_value :: "row \<Rightarrow> nat \<Rightarrow> bytes \<Rightarrow> row res" where
  "row_set_value r i src =
     bind_res (get_field_size (tb_schema (r_table r)) i) (\<lambda>datasize.
       row_set_value_size r i src (unat datasize))"

definition row_set_value_name :: "row \<Rightarrow> string \<Rightarrow> bytes \<Rightarrow> row res" where
  "row_set_value_name r name src =
     bind_res (get_field_id (tb_schema (r_table r)) name) (\<lambda>i. row_set_value r i src)"

text \<open>
  \<open>get_value\<close> returns a pointer into the buffer; \<open>row_read\<close> is what the caller reads through
  it when it reads \<open>size\<close> bytes.
\<close>

definition row_read :: "row \<Rightarrow> nat \<Rightarrow> nat \<Rightarrow> bytes res" where
  "row_read r i sz =
     bind_res (get_field_index (tb_schema (r_table r)) i) (\<lambda>pos.
       if length (r_data r) < unat pos + sz then Inl Bounds
       else Inr (take sz (drop (unat pos) (r_data r))))"

definition row_get_field :: "row \<Rightarrow> nat \<Rightarrow> bytes res" where
  "row_get_field r i =
     bind_res (get_field_size (tb_schema (r_table r)) i) (\<lambda>s. row_read r i (unat s))"

text \<open>The typed accessors: eight bytes, least significant first, whatever the column's size.\<close>

definition u64_bytes :: "u64 \<Rightarrow> bytes" where
  "u64_bytes v = map (\<lambda>k. ucast (drop_bit (8 * k) v)) [0..<8]"

fun bytes_u64 :: "bytes \<Rightarrow> u64" where
  "bytes_u64 [] = 0"
| "bytes_u64 (b # bs) = ucast b OR push_bit 8 (bytes_u64 bs)"

definition row_set_u64 :: "row \<Rightarrow> nat \<Rightarrow> u64 \<Rightarrow> row res" where
  "row_set_u64 r i v = row_set_value r i (u64_bytes v)"

definition row_get_u64 :: "row \<Rightarrow> nat \<Rightarrow> u64 res" where
  "row_get_u64 r i = bind_res (row_read r i 8) (\<lambda>bs. Inr (bytes_u64 bs))"

definition row_set_data :: "row \<Rightarrow> bytes \<Rightarrow> nat \<Rightarrow> row res" where
  "row_set_data r src sz =
     bind_res (row_memcpy (r_data r) 0 src sz) (\<lambda>d. Inr (r\<lparr>r_data := d\<rparr>))"

definition row_copy :: "row \<Rightarrow> row \<Rightarrow> row res" where
  "row_copy r src = row_set_data r (r_data src) (tuple_size src)"

text \<open>\<open>hash\<close>: the bytes of the tuple are combined with exclusive or.\<close>

definition bytes_hash :: "bytes \<Rightarrow> u64" where
  "bytes_hash bs = foldr (\<lambda>b h. ucast b XOR h) bs 0"

definition row_hash :: "row \<Rightarrow> u64" where
  "row_hash r = (r_primary_key r XOR r_row_id r) XOR bytes_hash (take (tuple_size r) (r_data r))"

section \<open>Encoding of rows\<close>

definition byte_digits :: "u8 \<Rightarrow> string" where
  "byte_digits v = [digit_char (unat v mod 10), digit_char (unat v div 10 mod 10),
     digit_char (unat v div 100 mod 10)]"

definition row_encode :: "row \<Rightarrow> string" where
  "row_encode r = encode_vec
     [(''table_name:'', tb_table_name (r_table r)),
      (''primary_key:'', u64_to_string (r_primary_key r)),
      (''part_id:'', u64_to_string (r_part_id r)),
      (''row_id:'', u64_to_string (r_row_id r)),
      (''data:'', concat (map byte_digits (take (tuple_size r) (r_data r))))]"

text \<open>
  \<open>decode\<close> first copies the digits into the buffer, then overwrites every third position. A
  \<open>std::string\<close> may be read at its length, where it has a zero, and not beyond.
\<close>

definition char_at :: "string \<Rightarrow> nat \<Rightarrow> u8 res" where
  "char_at s i = (if i < length s then Inr (of_nat (of_char (s ! i)))
     else if i = length s then Inr 0 else Inl Bounds)"

function decode_data :: "string \<Rightarrow> nat \<Rightarrow> bytes \<Rightarrow> bytes res" where
  "decode_data s i d =
     (if i < length s then
        bind_res (char_at s i) (\<lambda>a. bind_res (char_at s (i + 1)) (\<lambda>b. bind_res (char_at s (i + 2)) (\<lambda>c.
          decode_data s (i + 3) (d[i := (a - 48) + (b - 48) * 10 + (c - 48) * 100]))))
      else Inr d)"
  by auto

termination
  by (relation "measure (\<lambda>(s, i, d). length s - i)") auto

declare decode_data.simps [simp del]

definition row_decode :: "(string \<rightharpoonup> table_t) \<Rightarrow> string \<Rightarrow> row res" where
  "row_decode tables e =
     bind_res (decode_vec e) (\<lambda>items.
       assert_res (length items = 5)
         (case tables (snd (items ! 0)) of
            None \<Rightarrow> Inl Assert_Fail
          | Some tab \<Rightarrow>
              bind_res (decode_data (snd (items ! 4)) 0
                  (map (\<lambda>c. of_nat (of_char c)) (snd (items ! 4)))) (\<lambda>d.
              bind_res (stoull (snd (items ! 1))) (\<lambda>pk.
              bind_res (stoull (snd (items ! 2))) (\<lambda>part.
              bind_res (stoull (snd (items ! 3))) (\<lambda>rid.
                Inr \<lparr>r_primary_key = pk, r_part_id = part, r_row_id = rid, r_data = d,
                     r_table = tab\<rparr>))))))"

section \<open>Bytes and words\<close>

lemma low_byte_or_rest: "ucast (ucast y :: u8) OR push_bit 8 (drop_bit 8 y) = (y :: u64)"
proof (rule bit_word_eqI)
  fix n
  assume "n < LENGTH(64)"
  then show "bit (ucast (ucast y :: u8) OR push_bit 8 (drop_bit 8 y)) n = bit y n"
    by (cases "n < 8") (auto simp: bit_simps not_less)
qed

lemma bytes_u64_inverse [simp]: "bytes_u64 (u64_bytes v) = v"
proof -
  have step: "ucast (ucast (drop_bit k v) :: u8) OR push_bit 8 (drop_bit (k + 8) v) = drop_bit k v"
    for k using low_byte_or_rest[of "drop_bit k v"] by (simp add: add.commute)
  have top: "ucast (ucast (drop_bit 56 v) :: u8) = drop_bit 56 v"
    by (rule bit_word_eqI) (auto simp: bit_simps dest: bit_imp_le_length)
  show ?thesis
    using step[of 0] step[of 8] step[of 16] step[of 24] step[of 32] step[of 40] step[of 48] top
    by (simp add: u64_bytes_def upt_conv_Cons)
qed

lemma length_u64_bytes [simp]: "length (u64_bytes v) = 8"
  by (simp add: u64_bytes_def)

section \<open>Layout of a schema\<close>

abbreviation sizes :: "column list \<Rightarrow> nat" where
  "sizes cols \<equiv> sum_list (map (\<lambda>col. unat (col_size col)) cols)"

definition wf_catalog :: "catalog \<Rightarrow> bool" where
  "wf_catalog c \<longleftrightarrow> unat (cat_field_cnt c) = length (cat_columns c) \<and>
     unat (cat_tuple_size c) = sizes (cat_columns c) \<and>
     (\<forall>i < length (cat_columns c).
        unat (col_index (cat_columns c ! i)) = sizes (take i (cat_columns c)) \<and>
        unat (col_id (cat_columns c ! i)) = i)"

lemma wf_catalog_init: "wf_catalog (catalog_init name cap)"
  by (simp add: wf_catalog_def catalog_init_def)

lemma unat_ucast32: "unat (ucast (x :: u64) :: u32) = unat x mod 2 ^ 32"
  by (simp add: unsigned_ucast_eq unsigned_take_bit_eq take_bit_eq_mod)

lemma unat_ucast32_64 [simp]: "unat (ucast (x :: u32) :: u64) = unat x"
proof -
  have "unat x < 2 ^ LENGTH(32)"
    by (rule unsigned_less)
  then have "unat x < 2 ^ 64"
    by simp
  then show ?thesis
    by (simp add: unsigned_ucast_eq unsigned_take_bit_eq take_bit_nat_eq_self)
qed

lemma add_col_wf:
  assumes "wf_catalog c" "add_col c name sz ty = Inr c'"
    and "cat_cap c < 2 ^ 32" "unat (cat_tuple_size c) + unat sz < 2 ^ 32"
  shows "wf_catalog c' \<and> cat_cap c' = cat_cap c \<and>
     unat (cat_tuple_size c') = unat (cat_tuple_size c) + unat sz \<and>
     map (\<lambda>col. (col_name col, unat (col_size col))) (cat_columns c') =
       map (\<lambda>col. (col_name col, unat (col_size col))) (cat_columns c) @ [(name, unat sz)]"
proof -
  have c': "c' = c\<lparr>cat_columns := cat_columns c @
            [\<lparr>col_id = ucast (cat_field_cnt c), col_size = ucast sz,
              col_index = cat_tuple_size c, col_type = ty, col_name = name\<rparr>],
          cat_tuple_size := cat_tuple_size c + ucast sz,
          cat_field_cnt := cat_field_cnt c + 1\<rparr>" and lt: "unat (cat_field_cnt c) < cat_cap c"
    using assms(2) by (auto simp: add_col_def split: if_splits)
  have sz: "unat (ucast sz :: u32) = unat sz"
    using assms(4) by (simp add: unat_ucast32)
  have ts: "unat (cat_tuple_size c + ucast sz) = unat (cat_tuple_size c) + unat sz"
    using assms(4) sz by (subst unat_add_lem[THEN iffD1]) auto
  have fc: "unat (cat_field_cnt c + 1) = Suc (unat (cat_field_cnt c))"
    using lt assms(3) by (intro unat_suc_less) simp
  show ?thesis
    using assms(1) ts fc sz unfolding c' wf_catalog_def
    by (auto simp: nth_append less_Suc_eq)
qed

lemma add_cols_wf:
  assumes "wf_catalog c" "add_cols c cols = Inr c'" "cat_cap c < 2 ^ 32"
    and "unat (cat_tuple_size c) + sum_list (map (\<lambda>(_, sz, _). unat sz) cols) < 2 ^ 32"
  shows "wf_catalog c' \<and>
     map (\<lambda>col. (col_name col, unat (col_size col))) (cat_columns c') =
       map (\<lambda>col. (col_name col, unat (col_size col))) (cat_columns c) @
       map (\<lambda>(name, sz, _). (name, unat sz)) cols"
  using assms
proof (induction c cols rule: add_cols.induct)
  case (2 c name sz ty cs)
  then obtain c1 where c1: "add_col c name sz ty = Inr c1" "add_cols c1 cs = Inr c'"
    by (auto simp: res_simps)
  with 2 show ?case
    using add_col_wf[OF "2.prems"(1) c1(1)] by simp
qed simp

text \<open>
   A schema built by \<open>add_col\<close> lays its columns out without gaps or overlaps. When the sizes
  of the columns sum to less than \<open>2 ^ 32\<close>, column \<open>i\<close> has the size it was declared with and
  starts at the sum of the sizes before it, it ends before the next column starts, and the
  tuple size is the sum of all of them.
\<close>

theorem catalog_layout:
  assumes "add_cols (catalog_init name cap) cols = Inr c" "cap < 2 ^ 32"
    and "sum_list (map (\<lambda>(_, sz, _). unat sz) cols) < 2 ^ 32"
  shows "unat (cat_tuple_size c) = sum_list (map (\<lambda>(_, sz, _). unat sz) cols) \<and>
    (\<forall>i < length cols. \<exists>sz pos. get_field_size c i = Inr sz \<and> get_field_index c i = Inr pos \<and>
       sz = fst (snd (cols ! i)) \<and>
       unat pos = sum_list (map (\<lambda>(_, sz, _). unat sz) (take i cols)))"
proof -
  have cap: "cat_cap (catalog_init name cap) < 2 ^ 32"
    and "unat (cat_tuple_size (catalog_init name cap)) +
       sum_list (map (\<lambda>(_, sz, _). unat sz) cols) < 2 ^ 32"
    using assms(2,3) by (simp_all add: catalog_init_def)
  from add_cols_wf[OF wf_catalog_init assms(1) this]
  have wf: "wf_catalog c"
    and cols: "map (\<lambda>col. (col_name col, unat (col_size col))) (cat_columns c) =
       map (\<lambda>(name, sz, _). (name, unat sz)) cols"
    by (simp_all add: catalog_init_def)
  have len: "length (cat_columns c) = length cols"
    using arg_cong[OF cols, of length] by simp
  have szs: "map (\<lambda>col. unat (col_size col)) (cat_columns c) = map (\<lambda>(_, sz, _). unat sz) cols"
    using arg_cong[OF cols, of "map snd"] by (simp add: case_prod_beta comp_def)
  have pre: "sizes (take i (cat_columns c)) = sum_list (map (\<lambda>(_, sz, _). unat sz) (take i cols))"
    for i using szs by (simp flip: take_map)
  have "get_field_size c i = Inr (fst (snd (cols ! i)))" if "i < length cols" for i
  proof -
    have "unat (col_size (cat_columns c ! i)) = unat (fst (snd (cols ! i)))"
      using arg_cong[OF szs, of "\<lambda>xs. xs ! i"] that len by (simp add: case_prod_beta)
    then have "ucast (col_size (cat_columns c ! i)) = fst (snd (cols ! i))"
      by (simp add: word_unat_eq_iff)
    with that len show ?thesis
      by (simp add: get_field_size_def get_column_def)
  qed
  moreover have "\<exists>pos. get_field_index c i = Inr pos \<and>
      unat pos = sum_list (map (\<lambda>(_, sz, _). unat sz) (take i cols))" if "i < length cols" for i
    using that len wf pre[of i] by (simp add: get_field_index_def get_column_def wf_catalog_def)
  moreover have "unat (cat_tuple_size c) = sum_list (map (\<lambda>(_, sz, _). unat sz) cols)"
    using wf szs by (simp add: wf_catalog_def)
  ultimately show ?thesis by blast
qed

theorem catalog_layout_witness:
  "\<exists>c. add_cols (catalog_init ''MAIN_TABLE'' 2) [(''F0'', 8, ''int64_t''), (''F1'', 100, ''string'')]
      = Inr c \<and> unat (cat_tuple_size c) = 108"
  using catalog_layout[of "''MAIN_TABLE''" 2
    "[(''F0'', 8, ''int64_t''), (''F1'', 100, ''string'')]"]
  by (simp add: add_col_def catalog_init_def)

section \<open>Fields as a store\<close>

text \<open>
  The contract of a tuple: a valid write to a field is never refused, is what the next read of
  the field returns, and changes no other field. \<open>puts\<close> is a sequence of writes, as the
  insert transactions make them.
\<close>

fun puts :: "('s \<Rightarrow> 'f \<Rightarrow> 'v \<Rightarrow> 's res) \<Rightarrow> 's \<Rightarrow> ('f \<times> 'v) list \<Rightarrow> 's res" where
  "puts put s [] = Inr s"
| "puts put s ((f, v) # xs) = bind_res (put s f v) (\<lambda>s'. puts put s' xs)"

locale field_store =
  fixes ok :: "'s \<Rightarrow> bool"
    and valid :: "'s \<Rightarrow> 'f \<Rightarrow> 'v \<Rightarrow> bool"
    and get :: "'s \<Rightarrow> 'f \<Rightarrow> 'v res"
    and put :: "'s \<Rightarrow> 'f \<Rightarrow> 'v \<Rightarrow> 's res"
  assumes put_returns: "ok s \<Longrightarrow> valid s f v \<Longrightarrow> \<exists>s'. put s f v = Inr s'"
    and put_ok: "ok s \<Longrightarrow> valid s f v \<Longrightarrow> put s f v = Inr s' \<Longrightarrow> ok s'"
    and put_valid: "ok s \<Longrightarrow> valid s f v \<Longrightarrow> put s f v = Inr s' \<Longrightarrow> valid s' g w = valid s g w"
    and put_get: "ok s \<Longrightarrow> valid s f v \<Longrightarrow> put s f v = Inr s' \<Longrightarrow> get s' f = Inr v"
    and put_get_other:
      "ok s \<Longrightarrow> valid s f v \<Longrightarrow> put s f v = Inr s' \<Longrightarrow> g \<noteq> f \<Longrightarrow> get s' g = get s g"
begin

lemma puts_reads:
  assumes "ok s" "\<forall>(f, v)\<in>set xs. valid s f v" "distinct (map fst xs)"
  shows "\<exists>s'. puts put s xs = Inr s' \<and> ok s' \<and> (\<forall>(f, v)\<in>set xs. get s' f = Inr v) \<and>
    (\<forall>g. g \<notin> fst ` set xs \<longrightarrow> get s' g = get s g)"
  using assms
proof (induction xs arbitrary: s)
  case (Cons x xs)
  obtain f v where x: "x = (f, v)" by (cases x)
  with Cons.prems have v: "valid s f v" by simp
  then obtain s1 where s1: "put s f v = Inr s1"
    using put_returns Cons.prems(1) by blast
  have "\<forall>(g, w)\<in>set xs. valid s1 g w"
    using Cons.prems put_valid[OF Cons.prems(1) v s1] by auto
  with Cons.IH[of s1] put_ok[OF Cons.prems(1) v s1] Cons.prems(3)
  obtain s' where s': "puts put s1 xs = Inr s'" "ok s'" "\<forall>(f, v)\<in>set xs. get s' f = Inr v"
      "\<forall>g. g \<notin> fst ` set xs \<longrightarrow> get s' g = get s1 g"
    by auto
  have "get s' f = Inr v"
    using s'(4) put_get[OF Cons.prems(1) v s1] Cons.prems(3) x by auto
  moreover have "\<forall>g. g \<notin> fst ` set (x # xs) \<longrightarrow> get s' g = get s g"
    using s'(4) put_get_other[OF Cons.prems(1) v s1] x by auto
  ultimately show ?case
    using s' s1 x by auto
qed simp

end

text \<open>A row whose schema is laid out by \<open>add_col\<close> and whose buffer holds the tuple.\<close>

definition wf_row :: "row \<Rightarrow> bool" where
  "wf_row r \<longleftrightarrow> wf_catalog (tb_schema (r_table r)) \<and> tuple_size r \<le> length (r_data r)"

definition field_valid :: "row \<Rightarrow> nat \<Rightarrow> bytes \<Rightarrow> bool" where
  "field_valid r i v \<longleftrightarrow> i < length (cat_columns (tb_schema (r_table r))) \<and>
     length v = unat (col_size (cat_columns (tb_schema (r_table r)) ! i))"

text \<open>The place of column \<open>i\<close>: \<open>fpos r i\<close> up to \<open>fpos r i + fsize r i\<close>.\<close>

abbreviation fpos :: "row \<Rightarrow> nat \<Rightarrow> nat" where
  "fpos r i \<equiv> sizes (take i (cat_columns (tb_schema (r_table r))))"

abbreviation fsize :: "row \<Rightarrow> nat \<Rightarrow> nat" where
  "fsize r i \<equiv> unat (col_size (cat_columns (tb_schema (r_table r)) ! i))"

lemma sizes_take_Suc:
  "i < length cols \<Longrightarrow> sizes (take (Suc i) cols) = sizes (take i cols) + unat (col_size (cols ! i))"
  by (simp add: take_Suc_conv_app_nth)

lemma sizes_take_mono: "i \<le> j \<Longrightarrow> sizes (take i cols) \<le> sizes (take j cols)"
proof -
  assume "i \<le> j"
  then have "take j cols = take i cols @ take (j - i) (drop i cols)"
    by (metis le_add_diff_inverse take_add)
  then show ?thesis by simp
qed

lemma fields_disjoint:
  assumes "i < length cols" "j < length cols" "i \<noteq> j"
  shows "sizes (take i cols) + unat (col_size (cols ! i)) \<le> sizes (take j cols) \<or>
    sizes (take j cols) + unat (col_size (cols ! j)) \<le> sizes (take i cols)"
  using assms sizes_take_mono[of "Suc i" j cols] sizes_take_mono[of "Suc j" i cols]
  by (auto simp: sizes_take_Suc not_less_eq_eq linorder_neq_iff Suc_le_eq)

lemma field_in_tuple:
  assumes "wf_row r" "i < length (cat_columns (tb_schema (r_table r)))"
  shows "fpos r i + fsize r i \<le> length (r_data r)"
  using assms sizes_take_mono[of "Suc i" "length (cat_columns (tb_schema (r_table r)))"
    "cat_columns (tb_schema (r_table r))"]
  by (simp add: wf_row_def wf_catalog_def sizes_take_Suc Suc_le_eq)

lemma row_get_field_eq:
  assumes "wf_row r" "i < length (cat_columns (tb_schema (r_table r)))"
  shows "row_get_field r i = Inr (take (fsize r i) (drop (fpos r i) (r_data r)))"
  using assms field_in_tuple[OF assms]
  by (simp add: row_get_field_def row_read_def get_field_size_def get_field_index_def
    get_column_def wf_row_def wf_catalog_def)

lemma row_set_value_eq:
  assumes "wf_row r" "field_valid r i v"
  shows "row_set_value r i v = Inr (r\<lparr>r_data :=
    take (fpos r i) (r_data r) @ v @ drop (fpos r i + length v) (r_data r)\<rparr>)"
  using assms field_in_tuple[of r i]
  by (simp add: row_set_value_def row_set_value_size_def row_memcpy_def get_field_size_def
    get_field_index_def get_column_def wf_row_def wf_catalog_def field_valid_def)

lemma take_drop_splice_same:
  "p + length v \<le> length d \<Longrightarrow>
     take (length v) (drop p (take p d @ v @ drop (p + length v) d)) = v"
  by simp

lemma take_drop_splice_other:
  assumes "p + length v \<le> length d" "p + length v \<le> q \<or> q + n \<le> p"
  shows "take n (drop q (take p d @ v @ drop (p + length v) d)) = take n (drop q d)"
proof (rule nth_equalityI)
  have "length (take p d @ v @ drop (p + length v) d) = length d"
    using assms(1) by simp
  then show "length (take n (drop q (take p d @ v @ drop (p + length v) d))) = length (take n (drop q d))"
    by (simp only: length_take length_drop)
next
  fix i
  assume "i < length (take n (drop q (take p d @ v @ drop (p + length v) d)))"
  then have "i < n" "i < length (drop q (take p d @ v @ drop (p + length v) d))"
    by (simp_all only: length_take min_less_iff_conj)
  moreover have "length (take p d @ v @ drop (p + length v) d) = length d"
    using assms(1) by simp
  ultimately have i: "i < n" "q + i < length d"
    by (simp_all only: length_drop less_diff_conv2 less_diff_conv add.commute)
  show "take n (drop q (take p d @ v @ drop (p + length v) d)) ! i = take n (drop q d) ! i"
  proof (cases "q + n \<le> p")
    case True
    then show ?thesis
      using i assms(1) by (simp add: nth_append)
  next
    case False
    then show ?thesis
      using i assms by (simp add: nth_append)
  qed
qed

lemma row_field_laws:
  assumes "wf_row r" "field_valid r i v" "row_set_value r i v = Inr r'"
  shows "wf_row r'" "field_valid r' j w = field_valid r j w" "row_get_field r' i = Inr v"
    and "j \<noteq> i \<Longrightarrow> row_get_field r' j = row_get_field r j"
proof -
  have r': "r' = r\<lparr>r_data := take (fpos r i) (r_data r) @ v @ drop (fpos r i + length v) (r_data r)\<rparr>"
    using assms row_set_value_eq by simp
  have i: "i < length (cat_columns (tb_schema (r_table r)))" "length v = fsize r i"
    using assms(2) by (simp_all add: field_valid_def)
  have fit: "fpos r i + length v \<le> length (r_data r)"
    using field_in_tuple[OF assms(1) i(1)] i(2) by simp
  show wf: "wf_row r'"
    using assms(1) fit by (simp add: r' wf_row_def)
  show "field_valid r' j w = field_valid r j w"
    by (simp add: r' field_valid_def)
  show "row_get_field r' i = Inr v"
    using row_get_field_eq[OF wf, of i] i take_drop_splice_same[OF fit] by (simp add: r')
  assume "j \<noteq> i"
  show "row_get_field r' j = row_get_field r j"
  proof (cases "j < length (cat_columns (tb_schema (r_table r)))")
    case True
    then have "fpos r i + length v \<le> fpos r j \<or> fpos r j + fsize r j \<le> fpos r i"
      using fields_disjoint[OF i(1) True] \<open>j \<noteq> i\<close> i(2) by auto
    then show ?thesis
      using row_get_field_eq[OF wf, of j] row_get_field_eq[OF assms(1) True] True
        take_drop_splice_other[OF fit, of "fpos r j" "fsize r j"] by (simp add: r')
  next
    case False
    then show ?thesis
      by (simp add: r' row_get_field_def get_field_size_def get_column_def)
  qed
qed

interpretation row_fields: field_store wf_row field_valid row_get_field row_set_value
proof (unfold_locales, goal_cases)
  case (1 s f v)
  then show ?case using row_set_value_eq by blast
next
  case (2 s f v s')
  then show ?case by (rule row_field_laws)
next
  case (3 s f v s' g w)
  then show ?case by (rule row_field_laws)
next
  case (4 s f v s')
  then show ?case by (rule row_field_laws)
next
  case (5 s f v s' g)
  then show ?case by (rule row_field_laws)
qed

text \<open>
  C18: Columns are independent. In a row over a schema built by \<open>add_col\<close>, writing values of the
  declared sizes to distinct columns succeeds, every written column reads back its value, and
  every other column reads as before.
\<close>

theorem row_columns_independent:
  assumes "wf_row r" "\<forall>(i, v)\<in>set xs. field_valid r i v" "distinct (map fst xs)"
  shows "\<exists>r'. puts row_set_value r xs = Inr r' \<and> wf_row r' \<and>
    (\<forall>(i, v)\<in>set xs. row_get_field r' i = Inr v) \<and>
    (\<forall>j. j \<notin> fst ` set xs \<longrightarrow> row_get_field r' j = row_get_field r j)"
  using row_fields.puts_reads[OF assms] .

definition demo_row :: row where
  "demo_row = \<lparr>r_primary_key = 3, r_part_id = 0, r_row_id = 5, r_data = [1, 2, 3],
     r_table = \<lparr>tb_table_name = ''T'', tb_cur_tab_size = 1,
       tb_schema = \<lparr>cat_field_cnt = 2, cat_table_name = ''T'',
         cat_columns = [\<lparr>col_id = 0, col_size = 1, col_index = 0, col_type = ''c'', col_name = ''A''\<rparr>,
           \<lparr>col_id = 1, col_size = 2, col_index = 1, col_type = ''s'', col_name = ''B''\<rparr>],
         cat_cap = 2, cat_tuple_size = 3\<rparr>\<rparr>\<rparr>"

lemma wf_demo_row: "wf_row demo_row"
  by (simp add: wf_row_def wf_catalog_def demo_row_def less_Suc_eq)

theorem row_columns_independent_witness:
  "\<exists>r'. puts row_set_value demo_row [(1, [7, 8])] = Inr r' \<and> row_get_field r' 1 = Inr [7, 8] \<and>
     row_get_field r' 0 = row_get_field demo_row 0"
  using row_columns_independent[OF wf_demo_row, of "[(1, [7, 8])]"]
  by (auto simp: field_valid_def demo_row_def)

section \<open>Hashes of rows\<close>

lemma bytes_hash_simps [simp]:
  "bytes_hash [] = 0" "bytes_hash (b # bs) = ucast b XOR bytes_hash bs"
  by (simp_all add: bytes_hash_def)

lemma bytes_hash_append: "bytes_hash (xs @ ys) = bytes_hash xs XOR bytes_hash ys"
  by (induction xs) (simp_all add: ac_simps)

lemma bytes_hash_perm: "mset xs = mset ys \<Longrightarrow> bytes_hash xs = bytes_hash ys"
proof (induction xs arbitrary: ys)
  case (Cons x xs)
  then have "x \<in> set ys"
    by (metis list.set_intros(1) mset_eq_setD)
  then obtain as bs where ys: "ys = as @ x # bs"
    by (meson split_list)
  with Cons have "bytes_hash xs = bytes_hash (as @ bs)" by simp
  then show ?case
    by (simp add: ys bytes_hash_append ac_simps)
qed simp

lemma unat_ucast8_64 [simp]: "unat (ucast (x :: u8) :: u64) = unat x"
proof -
  have "unat x < 2 ^ LENGTH(8)"
    by (rule unsigned_less)
  then have "unat x < 2 ^ 64"
    by simp
  then show ?thesis
    by (simp add: unsigned_ucast_eq unsigned_take_bit_eq take_bit_nat_eq_self)
qed

lemma ucast_u8_inject: "ucast (a :: u8) = (ucast b :: u64) \<longleftrightarrow> a = b"
  by (metis unat_ucast8_64 word_unat_eq_iff)

lemma bytes_hash_update:
  assumes "k < length d"
  shows "bytes_hash (d[k := b]) = bytes_hash d \<longleftrightarrow> b = d ! k"
proof -
  have d: "d = take k d @ (d ! k) # drop (Suc k) d" "d[k := b] = take k d @ b # drop (Suc k) d"
    using assms by (simp_all add: id_take_nth_drop upd_conv_take_nth_drop)
  have "bytes_hash (d[k := b]) = bytes_hash d \<longleftrightarrow>
      bytes_hash (take k d @ b # drop (Suc k) d) = bytes_hash (take k d @ (d ! k) # drop (Suc k) d)"
    using d by simp
  then show ?thesis
    by (simp add: bytes_hash_append ucast_u8_inject)
qed

text \<open>
   What the hash of a row detects. Changing a single byte of the tuple, or only the primary
  key, or only the row id, always changes the hash; but any rearrangement of the bytes of the
  tuple leaves it unchanged, so exchanging the contents of two places of a row is not detected.
\<close>

theorem row_hash_detects:
  assumes "length (r_data r) = tuple_size r"
  shows "(\<forall>k b. k < tuple_size r \<longrightarrow> b \<noteq> r_data r ! k \<longrightarrow>
      row_hash (r\<lparr>r_data := (r_data r)[k := b]\<rparr>) \<noteq> row_hash r) \<and>
    (\<forall>pk. pk \<noteq> r_primary_key r \<longrightarrow> row_hash (r\<lparr>r_primary_key := pk\<rparr>) \<noteq> row_hash r) \<and>
    (\<forall>rid. rid \<noteq> r_row_id r \<longrightarrow> row_hash (r\<lparr>r_row_id := rid\<rparr>) \<noteq> row_hash r) \<and>
    (\<forall>d. mset d = mset (r_data r) \<longrightarrow> row_hash (r\<lparr>r_data := d\<rparr>) = row_hash r)"
proof (intro conjI allI impI)
  fix k b
  assume "k < tuple_size r" "b \<noteq> r_data r ! k"
  then show "row_hash (r\<lparr>r_data := (r_data r)[k := b]\<rparr>) \<noteq> row_hash r"
    using assms bytes_hash_update[of k "r_data r" b] by (simp add: row_hash_def)
next
  fix d
  assume "mset d = mset (r_data r)"
  moreover from this have "length d = length (r_data r)"
    by (rule mset_eq_length)
  ultimately show "row_hash (r\<lparr>r_data := d\<rparr>) = row_hash r"
    using assms bytes_hash_perm[of d "r_data r"] by (simp add: row_hash_def)
qed (simp_all add: row_hash_def)

theorem row_hash_detects_witness:
  "row_hash (demo_row\<lparr>r_data := [1, 2, 9]\<rparr>) \<noteq> row_hash demo_row \<and>
     row_hash (demo_row\<lparr>r_data := [3, 2, 1]\<rparr>) = row_hash demo_row"
proof -
  have len: "length (r_data demo_row) = tuple_size demo_row"
    by (simp add: demo_row_def)
  have "2 < tuple_size demo_row" "(9 :: u8) \<noteq> r_data demo_row ! 2"
    "mset [3, 2, 1] = mset (r_data demo_row)" "(r_data demo_row)[2 := 9] = [1, 2, 9]"
    by (simp_all add: demo_row_def)
  then show ?thesis
    using row_hash_detects[OF len] by metis
qed

section \<open>Encoding and decoding a row\<close>

lemma byte_digits_length [simp]: "length (byte_digits v) = 3"
  by (simp add: byte_digits_def)

lemma byte_from_digits:
  fixes v :: u8
  defines "n \<equiv> unat v"
  shows "of_nat (n mod 10) + of_nat (n div 10 mod 10) * 10 + of_nat (n div 100 mod 10) * 100 = v"
proof -
  have "n < 2 ^ LENGTH(8)"
    unfolding n_def by (rule unsigned_less)
  then have "n < 1000" by simp
  then have "n div 100 mod 10 = n div 10 div 10"
    by (simp flip: div_mult2_eq)
  moreover have "n div 10 div 10 * 10 + n div 10 mod 10 = n div 10" "n div 10 * 10 + n mod 10 = n"
    by simp_all
  ultimately have "n mod 10 + n div 10 mod 10 * 10 + n div 100 mod 10 * 100 = n"
    by linarith
  then have "(of_nat (n mod 10 + n div 10 mod 10 * 10 + n div 100 mod 10 * 100) :: u8) = of_nat n"
    by (rule arg_cong)
  then show ?thesis
    unfolding of_nat_add of_nat_mult by (simp add: n_def)
qed

text \<open>What \<open>decode\<close> makes of one encoded byte: the byte, then two of its digits.\<close>

definition scatter_byte :: "u8 \<Rightarrow> bytes" where
  "scatter_byte v = [v, of_nat (48 + unat v div 10 mod 10), of_nat (48 + unat v div 100 mod 10)]"

lemma scatter_byte_length [simp]: "length (scatter_byte v) = 3"
  by (simp add: scatter_byte_def)

lemma decode_data_scatter:
  assumes "length pre = length d" "3 dvd length pre"
  shows "decode_data (pre @ concat (map byte_digits bs)) (length pre)
      (d @ map (\<lambda>c. of_nat (of_char c)) (concat (map byte_digits bs)))
    = Inr (d @ concat (map scatter_byte bs))"
  using assms
proof (induction bs arbitrary: pre d)
  case Nil
  then show ?case by (simp add: decode_data.simps)
next
  case (Cons b bs)
  let ?s = "pre @ concat (map byte_digits (b # bs))"
  let ?n = "length pre"
  have "char_at ?s ?n = Inr (of_nat (48 + unat b mod 10))"
    "char_at ?s (?n + 1) = Inr (of_nat (48 + unat b div 10 mod 10))"
    "char_at ?s (?n + 2) = Inr (of_nat (48 + unat b div 100 mod 10))"
    by (simp_all add: char_at_def byte_digits_def nth_append)
  moreover have "(of_nat (48 + x) - 48 :: u8) = of_nat x" for x
    by simp
  ultimately have "decode_data ?s ?n (d @ map (\<lambda>c. of_nat (of_char c)) (concat (map byte_digits (b # bs))))
    = decode_data ?s (?n + 3) ((d @ map (\<lambda>c. of_nat (of_char c)) (concat (map byte_digits (b # bs))))[?n := b])"
    using byte_from_digits[of b] by (subst decode_data.simps) (simp add: byte_digits_def add.assoc)
  also have "(d @ map (\<lambda>c. of_nat (of_char c)) (concat (map byte_digits (b # bs))))[?n := b]
    = (d @ scatter_byte b) @ map (\<lambda>c. of_nat (of_char c)) (concat (map byte_digits bs))"
    using Cons.prems(1) by (simp add: byte_digits_def scatter_byte_def list_update_append)
  also have "decode_data ?s (?n + 3) \<dots> = Inr ((d @ scatter_byte b) @ concat (map scatter_byte bs))"
    using Cons.IH[of "pre @ byte_digits b" "d @ scatter_byte b"] Cons.prems by simp
  finally show ?case by simp
qed

lemma byte_digits_balanced: "balanced (concat (map byte_digits bs))"
proof (rule balanced_no_brace)
  have "c \<in> set (byte_digits b) \<Longrightarrow> is_digit c" for c b
    by (auto simp: byte_digits_def)
  then show "\<forall>c\<in>set (concat (map byte_digits bs)). c \<noteq> CHR ''{'' \<and> c \<noteq> CHR ''}''"
    using is_digit_char(4,5) by auto
qed

definition row_scatter :: "row \<Rightarrow> row" where
  "row_scatter r = r\<lparr>r_data := concat (map scatter_byte (r_data r))\<rparr>"

lemma row_encode_pairs_balanced:
  assumes "balanced (tb_table_name (r_table r))"
  shows "balanced_pairs
     [(''table_name:'', tb_table_name (r_table r)),
      (''primary_key:'', u64_to_string (r_primary_key r)),
      (''part_id:'', u64_to_string (r_part_id r)),
      (''row_id:'', u64_to_string (r_row_id r)),
      (''data:'', concat (map byte_digits (take (tuple_size r) (r_data r))))]"
proof -
  have "balanced ''table_name:''" "balanced ''primary_key:''" "balanced ''part_id:''"
    "balanced ''row_id:''" "balanced ''data:''"
    by (simp_all add: balanced_def)
  then show ?thesis
    using assms byte_digits_balanced by simp
qed

lemma row_encode_balanced:
  "balanced (tb_table_name (r_table r)) \<Longrightarrow> balanced (row_encode r)"
  unfolding row_encode_def by (intro encode_vec_balanced row_encode_pairs_balanced)

lemma row_decode_encode:
  assumes "balanced (tb_table_name (r_table r))"
    and "tables (tb_table_name (r_table r)) = Some (r_table r)"
    and "length (r_data r) = tuple_size r" and "length (row_encode r) < 2 ^ 31"
  shows "row_decode tables (row_encode r) = Inr (row_scatter r)"
proof -
  have "decode_vec (row_encode r) = Inr
     [(''table_name:'', tb_table_name (r_table r)),
      (''primary_key:'', u64_to_string (r_primary_key r)),
      (''part_id:'', u64_to_string (r_part_id r)),
      (''row_id:'', u64_to_string (r_row_id r)),
      (''data:'', concat (map byte_digits (take (tuple_size r) (r_data r))))]"
    using assms(1,4) unfolding row_encode_def by (intro decode_encode row_encode_pairs_balanced)
  then show ?thesis
    using assms(2,3) decode_data_scatter[of "[]" "[]" "r_data r"]
    by (simp add: row_decode_def row_scatter_def)
qed

text \<open>
   Encoding a row and decoding it again (when the encoding is shorter than \<open>2 ^ 31\<close> characters) passes every check and restores the key, the
  partition, the row id and the table, but not the tuple: byte \<open>k\<close> arrives at position
  \<open>3 * k\<close> of a buffer three times as long, with decimal digits between the bytes.
\<close>

theorem row_encode_decode:
  assumes "balanced (tb_table_name (r_table r))"
    and "tables (tb_table_name (r_table r)) = Some (r_table r)"
    and "length (r_data r) = tuple_size r" and "length (row_encode r) < 2 ^ 31"
  shows "row_decode tables (row_encode r) =
    Inr (r\<lparr>r_data := concat (map scatter_byte (r_data r))\<rparr>)"
  using row_decode_encode[of r tables] assms by (simp add: row_scatter_def)

theorem row_encode_decode_witness:
  "row_decode [''T'' \<mapsto> r_table demo_row] (row_encode demo_row) =
     Inr (demo_row\<lparr>r_data := [1, 48, 48, 2, 48, 48, 3, 48, 48]\<rparr>)"
proof -
  have "length (row_encode demo_row) < 2 ^ 31"
    by (simp add: row_encode_def demo_row_def u64_to_string_def nat_to_string.simps)
  then show ?thesis
    using row_encode_decode[of demo_row "[''T'' \<mapsto> r_table demo_row]"]
    by (simp add: demo_row_def balanced_def scatter_byte_def)
qed

end
