(* ===== verification/Latch.thy ===== *)
theory Latch
  imports Prelude
begin

text \<open>
  The reader-writer latch of index pages. The same three functions appear in
  \<open>common/index_btree.h\<close> (\<open>bt_node\<close>), \<open>trusted/system/index_btree_enc.cpp\<close> (\<open>BTNode\<close>) and, without
  \<open>upgrade_latch\<close>, in \<open>trusted/system/index_enc.cpp\<close> (\<open>BucketHeader_ENC\<close>). Each runs under
  the spin flag \<open>latch\<close>, so it is one atomic step; in a state whose flag is set it blocks.
  \<open>share_cnt\<close> is a 32-bit counter.

  The step relation adds who holds the latch: a number of readers and possibly a writer.
\<close>

record page_latch =
  pl_latch :: bool
  pl_type :: latch_t
  pl_share_cnt :: u32

definition latch_free :: page_latch where
  "latch_free = \<lparr>pl_latch = False, pl_type = LATCH_NONE, pl_share_cnt = 0\<rparr>"

definition latch_node :: "page_latch \<Rightarrow> latch_t \<Rightarrow> (bool \<times> page_latch) res" where
  "latch_node l latch_type =
     (if pl_latch l then Inl Blocked
      else if pl_type l = LATCH_NONE \<or> (pl_type l = LATCH_SH \<and> latch_type = LATCH_SH)
      then assert_res (pl_type l = LATCH_NONE \<longrightarrow> pl_share_cnt l = 0)
        (Inr (True, l\<lparr>pl_type := latch_type,
           pl_share_cnt := (if latch_type = LATCH_SH then pl_share_cnt l + 1 else pl_share_cnt l)\<rparr>))
      else Inr (False, l))"

definition release_latch :: "page_latch \<Rightarrow> (latch_t \<times> page_latch) res" where
  "release_latch l =
     (if pl_latch l then Inl Blocked
      else assert_res (pl_type l \<noteq> LATCH_NONE)
        (Inr (pl_type l,
          if pl_type l = LATCH_EX then l\<lparr>pl_type := LATCH_NONE\<rparr>
          else l\<lparr>pl_share_cnt := pl_share_cnt l - 1,
                 pl_type := (if pl_share_cnt l - 1 = 0 then LATCH_NONE else LATCH_SH)\<rparr>)))"

text \<open>The trusted B+tree tolerates the release of a latch nobody holds.\<close>

definition release_latch_enc :: "page_latch \<Rightarrow> (latch_t \<times> page_latch) res" where
  "release_latch_enc l =
     (if pl_latch l then Inl Blocked
      else if pl_type l = LATCH_NONE then Inr (LATCH_NONE, l)
      else if pl_type l = LATCH_EX then Inr (LATCH_EX, l\<lparr>pl_type := LATCH_NONE\<rparr>)
      else assert_res (pl_share_cnt l > 0)
        (Inr (LATCH_SH, l\<lparr>pl_share_cnt := pl_share_cnt l - 1,
           pl_type := (if pl_share_cnt l - 1 = 0 then LATCH_NONE else LATCH_SH)\<rparr>)))"

definition upgrade_latch :: "page_latch \<Rightarrow> (RC \<times> page_latch) res" where
  "upgrade_latch l =
     (if pl_latch l then Inl Blocked
      else assert_res (pl_type l = LATCH_SH)
        (if pl_share_cnt l > 1 then Inr (Abort, l)
         else Inr (RCOK, l\<lparr>pl_type := LATCH_EX, pl_share_cnt := 0\<rparr>)))"

section \<open>Holders\<close>

text \<open>
  \<open>latch_step\<close> relates a latch with its readers and writer to the next one: any thread may ask
  for the latch, a holder may release it, a reader may ask for the upgrade. Fewer than
  \<open>2 ^ 32\<close> threads read at once.
\<close>

type_synonym held_latch = "page_latch \<times> nat \<times> bool"

inductive latch_step :: "held_latch \<Rightarrow> held_latch \<Rightarrow> bool" where
  share: "latch_node l LATCH_SH = Inr (True, l') \<Longrightarrow> Suc n < 2 ^ 32 \<Longrightarrow>
    latch_step (l, n, w) (l', Suc n, w)"
| excl: "latch_node l LATCH_EX = Inr (True, l') \<Longrightarrow> latch_step (l, n, w) (l', n, True)"
| refused: "latch_node l t = Inr (False, l') \<Longrightarrow> latch_step (l, n, w) (l', n, w)"
| release_sh: "release_latch l = Inr (t, l') \<Longrightarrow> latch_step (l, Suc n, w) (l', n, w)"
| release_ex: "release_latch l = Inr (t, l') \<Longrightarrow> latch_step (l, n, True) (l', n, False)"
| upgrade: "upgrade_latch l = Inr (RCOK, l') \<Longrightarrow> latch_step (l, Suc n, w) (l', n, True)"
| no_upgrade: "upgrade_latch l = Inr (Abort, l') \<Longrightarrow> latch_step (l, Suc n, w) (l', Suc n, w)"

inductive latch_reach :: "held_latch \<Rightarrow> bool" where
  start: "latch_reach (latch_free, 0, False)"
| more: "latch_reach s \<Longrightarrow> latch_step s s' \<Longrightarrow> latch_reach s'"

definition latch_inv :: "held_latch \<Rightarrow> bool" where
  "latch_inv = (\<lambda>(l, n, w). \<not> pl_latch l \<and> (w \<longrightarrow> n = 0) \<and> n < 2 ^ 32 \<and> pl_share_cnt l = of_nat n \<and>
     pl_type l = (if w then LATCH_EX else if 0 < n then LATCH_SH else LATCH_NONE))"

lemmas latch_defs = latch_node_def release_latch_def release_latch_enc_def upgrade_latch_def

lemma share_cnt_zero: "n < 2 ^ 32 \<Longrightarrow> (of_nat n :: u32) = 0 \<longleftrightarrow> n = 0"
  using of_nat_word_zero[where 'a = 32] by simp

lemma share_cnt_many:
  assumes "n < 2 ^ 32"
  shows "(1 :: u32) < of_nat n \<longleftrightarrow> 1 < n"
proof -
  have "unat (of_nat n :: u32) = n"
    using assms by (intro unat_of_nat_lt) simp
  then show ?thesis
    by (simp add: word_less_nat_alt)
qed

lemma latch_inv_step:
  assumes "latch_step s s'" "latch_inv s"
  shows "latch_inv s'"
  using assms
proof (induction rule: latch_step.induct)
  case (release_sh l t l' n w)
  then show ?case
    using share_cnt_zero[of n]
    by (auto simp: latch_inv_def latch_defs assert_res_def split: if_splits)
next
  case (upgrade l l' n w)
  then show ?case
    using share_cnt_many[of "Suc n"]
    by (auto simp: latch_inv_def latch_defs assert_res_def split: if_splits)
qed (auto simp: latch_inv_def latch_defs assert_res_def split: if_splits)

lemma latch_reach_inv: "latch_reach s \<Longrightarrow> latch_inv s"
proof (induction rule: latch_reach.induct)
  case start
  then show ?case by (simp add: latch_inv_def latch_free_def)
next
  case (more s s')
  then show ?case by (blast intro: latch_inv_step)
qed

text \<open>
  C17: The page latch is a correct reader-writer latch. In every state that acquisitions,
  upgrades and releases by the holders can produce, a writer excludes all readers and any
  other writer; a request is granted exactly when it is compatible with the holders; no
  operation of a holder fails an assertion; a release reports the mode that was held, and an
  upgrade succeeds exactly for the only reader.
\<close>

theorem latch_exclusion:
  assumes "latch_reach (l, n, w)"
  shows "(w \<longrightarrow> n = 0) \<and>
    (\<exists>l'. latch_node l LATCH_SH = Inr (\<not> w, l')) \<and>
    (\<exists>l'. latch_node l LATCH_EX = Inr (\<not> w \<and> n = 0, l')) \<and>
    (0 < n \<longrightarrow> (\<exists>l'. release_latch l = Inr (LATCH_SH, l'))) \<and>
    (w \<longrightarrow> (\<exists>l'. release_latch l = Inr (LATCH_EX, l'))) \<and>
    (0 < n \<longrightarrow> (\<exists>l'. upgrade_latch l = Inr (if n = 1 then RCOK else Abort, l'))) \<and>
    (0 < n \<or> w \<longrightarrow> release_latch_enc l = release_latch l)"
proof -
  have inv: "latch_inv (l, n, w)"
    using latch_reach_inv[OF assms] .
  then have n: "n < 2 ^ 32" "pl_share_cnt l = of_nat n"
    by (simp_all add: latch_inv_def)
  note facts = inv share_cnt_zero[OF n(1)] share_cnt_many[OF n(1)]
  have "\<exists>l'. latch_node l LATCH_SH = Inr (\<not> w, l')"
    "\<exists>l'. latch_node l LATCH_EX = Inr (\<not> w \<and> n = 0, l')"
    using facts by (auto simp: latch_inv_def latch_defs)
  moreover have "0 < n \<longrightarrow> (\<exists>l'. release_latch l = Inr (LATCH_SH, l'))"
    "w \<longrightarrow> (\<exists>l'. release_latch l = Inr (LATCH_EX, l'))"
    using inv by (auto simp: latch_inv_def latch_defs)
  moreover have "0 < n \<longrightarrow> (\<exists>l'. upgrade_latch l = Inr (if n = 1 then RCOK else Abort, l'))"
    using facts by (auto simp: latch_inv_def latch_defs)
  moreover have "0 < n \<or> w \<longrightarrow> release_latch_enc l = release_latch l"
    using facts by (auto simp: latch_inv_def latch_defs word_neq_0_conv)
  ultimately show ?thesis
    using inv by (simp add: latch_inv_def)
qed

theorem latch_exclusion_witness:
  "\<exists>l. latch_reach (l, 2, False) \<and> (\<exists>l'. latch_node l LATCH_EX = Inr (False, l')) \<and>
     (\<exists>l'. upgrade_latch l = Inr (Abort, l'))"
proof -
  let ?l = "\<lparr>pl_latch = False, pl_type = LATCH_SH, pl_share_cnt = 2\<rparr>"
  have "latch_step (latch_free, 0, False) (\<lparr>pl_latch = False, pl_type = LATCH_SH, pl_share_cnt = 1\<rparr>, Suc 0, False)"
    by (rule latch_step.share) (simp_all add: latch_node_def latch_free_def)
  moreover have "latch_step (\<lparr>pl_latch = False, pl_type = LATCH_SH, pl_share_cnt = 1\<rparr>, Suc 0, False)
      (?l, Suc (Suc 0), False)"
    by (rule latch_step.share) (simp_all add: latch_node_def)
  ultimately have "latch_reach (?l, 2, False)"
    by (metis latch_reach.start latch_reach.more numeral_2_eq_2)
  then show ?thesis
    using latch_exclusion[of ?l 2 False] by auto
qed

end
