(* ===== verification/Index_Hash.thy ===== *)
theory Index_Hash
  imports Row_Data
begin

text \<open>
  The hash index kept outside the enclave (\<open>common/index_hash.h\<close>,
  \<open>untrusted/cache/index_hash.cpp\<close>). A bucket is the linked list of its \<open>BucketNode\<close>s, one
  per key, each with the linked list of its items; an item points to one row, and the callers
  insert items one at a time, so the list of items is a list of rows. The bucket latch is the
  flag \<open>locked\<close>; in a state where it is set, \<open>get_latch\<close> blocks.

  The locale \<open>index_contract\<close> is the interface class \<open>index_base\<close> of \<open>common/index_base.h\<close>: what
  an index promises to its clients for \<open>index_insert\<close> and \<open>index_read\<close>. It is interpreted here
  on the hash index. The hashes of nodes and buckets, on which the enclave's page verification
  rests, are the subject of \<open>bucket_hash_blind\<close>.
\<close>

section \<open>Buckets\<close>

record bucket_node =
  bn_key :: idx_key_t
  bn_items :: "row list"

record bucket_header =
  bh_nodes :: "bucket_node list"
  bh_node_cnt :: u64
  bh_locked :: bool

definition bucket_init :: bucket_header where
  "bucket_init = \<lparr>bh_nodes = [], bh_node_cnt = 0, bh_locked = False\<rparr>"

definition node_hash :: "bucket_node \<Rightarrow> u64" where
  "node_hash n = foldl (\<lambda>res r. res XOR row_hash r) (0 XOR bn_key n) (bn_items n)"

definition bucket_hash :: "bucket_node list \<Rightarrow> u64" where
  "bucket_hash ns = foldl (\<lambda>res n. res XOR (node_hash n XOR bn_key n)) 0 ns"

fun insert_item :: "bucket_node list \<Rightarrow> idx_key_t \<Rightarrow> row \<Rightarrow> bucket_node list" where
  "insert_item [] key item = [\<lparr>bn_key = key, bn_items = [item]\<rparr>]"
| "insert_item (n # ns) key item =
     (if bn_key n = key then n\<lparr>bn_items := item # bn_items n\<rparr> # ns
      else n # insert_item ns key item)"

fun find_node :: "bucket_node list \<Rightarrow> idx_key_t \<Rightarrow> bucket_node option" where
  "find_node [] key = None"
| "find_node (n # ns) key = (if bn_key n = key then Some n else find_node ns key)"

text \<open>\<open>read_item\<close> reads \<open>cur_node->key\<close> after the loop, also when the loop ran off the end.\<close>

definition read_item :: "bucket_node list \<Rightarrow> idx_key_t \<Rightarrow> row list res" where
  "read_item ns key =
     (case find_node ns key of None \<Rightarrow> Inl Null_Deref
      | Some n \<Rightarrow> assert_res (bn_key n = key) (Inr (bn_items n)))"

section \<open>The index\<close>

record index_hash =
  ih_buckets :: "nat \<times> u64 \<Rightarrow> bucket_header"
  ih_bucket_cnt_per_part :: u64
  ih_part_cnt :: nat

definition index_hash_init :: "u64 \<Rightarrow> nat \<Rightarrow> index_hash" where
  "index_hash_init bucket_cnt part_cnt =
     \<lparr>ih_buckets = (\<lambda>_. bucket_init), ih_bucket_cnt_per_part = bucket_cnt div of_nat part_cnt,
      ih_part_cnt = part_cnt\<rparr>"

definition ih_hash :: "index_hash \<Rightarrow> idx_key_t \<Rightarrow> u64" where
  "ih_hash ih key = key mod ih_bucket_cnt_per_part ih"

definition ih_index_insert :: "index_hash \<Rightarrow> nat \<times> idx_key_t \<Rightarrow> row \<Rightarrow> index_hash res" where
  "ih_index_insert ih pk item =
     (let (part_id, key) = pk; b = ih_hash ih key; cur = ih_buckets ih (part_id, b) in
      assert_res (b < ih_bucket_cnt_per_part ih)
        (if \<not> part_id < ih_part_cnt ih then Inl Bounds
         else if bh_locked cur then Inl Blocked
         else Inr (ih\<lparr>ih_buckets := (ih_buckets ih)((part_id, b) :=
                cur\<lparr>bh_nodes := insert_item (bh_nodes cur) key item, bh_locked := False\<rparr>)\<rparr>)))"

definition ih_index_read :: "index_hash \<Rightarrow> nat \<times> idx_key_t \<Rightarrow> row list res" where
  "ih_index_read ih pk =
     (let (part_id, key) = pk; b = ih_hash ih key in
      assert_res (b < ih_bucket_cnt_per_part ih)
        (if \<not> part_id < ih_part_cnt ih then Inl Bounds
         else read_item (bh_nodes (ih_buckets ih (part_id, b))) key))"

section \<open>Encoding of buckets\<close>

text \<open>
  A decoded node has a list of items, whose location is null (\<open>None\<close>) in the one item that
  \<open>BucketNode::decode\<close> creates for an encoding without rows. The loop over the items decodes
  \<open>data[1]\<close> in every round.
\<close>

definition node_encode :: "bucket_node \<Rightarrow> string" where
  "node_encode n = encode_vec ((u64_to_string (bn_key n), []) #
     map (\<lambda>r. (u64_to_string (r_part_id r), row_encode r)) (bn_items n))"

definition bucket_encode :: "bucket_node list \<Rightarrow> string" where
  "bucket_encode ns = encode_vec (map (\<lambda>n. (u64_to_string (bn_key n), node_encode n)) ns)"

fun node_decode_items ::
  "(string \<rightharpoonup> table_t) \<Rightarrow> (string \<times> string) list \<Rightarrow> nat \<Rightarrow> row option list res" where
  "node_decode_items tables data 0 = Inr []"
| "node_decode_items tables data (Suc k) =
     bind_res (row_decode tables (snd (data ! 1))) (\<lambda>r.
       bind_res (node_decode_items tables data k) (\<lambda>rs. Inr (Some r # rs)))"

definition node_decode :: "(string \<rightharpoonup> table_t) \<Rightarrow> string \<Rightarrow> (idx_key_t \<times> row option list) res" where
  "node_decode tables e =
     bind_res (decode_vec e) (\<lambda>data.
       if data = [] then Inl Bounds
       else bind_res (stoull (fst (data ! 0))) (\<lambda>key.
         bind_res (node_decode_items tables data (length data - 1)) (\<lambda>items.
           Inr (key, if items = [] then [None] else items))))"

fun bucket_decode_nodes ::
  "(string \<rightharpoonup> table_t) \<Rightarrow> (string \<times> string) list \<Rightarrow> (idx_key_t \<times> row option list) list res" where
  "bucket_decode_nodes tables [] = Inr []"
| "bucket_decode_nodes tables (it # data) =
     bind_res (stoull (fst it)) (\<lambda>_. bind_res (node_decode tables (snd it)) (\<lambda>n.
       bind_res (bucket_decode_nodes tables data) (\<lambda>ns. Inr (n # ns))))"

definition bucket_decode ::
  "(string \<rightharpoonup> table_t) \<Rightarrow> string \<Rightarrow> (idx_key_t \<times> row option list) list res" where
  "bucket_decode tables e = bind_res (decode_vec e) (bucket_decode_nodes tables)"

section \<open>The contract of an index\<close>

fun loads :: "('s \<Rightarrow> 'k \<Rightarrow> 'i \<Rightarrow> 's res) \<Rightarrow> 's \<Rightarrow> ('k \<times> 'i) list \<Rightarrow> 's res" where
  "loads ins s [] = Inr s"
| "loads ins s ((k, i) # xs) = bind_res (ins s k i) (\<lambda>s'. loads ins s' xs)"

locale index_contract =
  fixes inv :: "'s \<Rightarrow> bool"
    and room :: "'s \<Rightarrow> nat \<Rightarrow> bool"
    and accepts :: "'s \<Rightarrow> 'k \<Rightarrow> bool"
    and items :: "'s \<Rightarrow> 'k \<Rightarrow> 'i list"
    and ins :: "'s \<Rightarrow> 'k \<Rightarrow> 'i \<Rightarrow> 's res"
    and read :: "'s \<Rightarrow> 'k \<Rightarrow> 'i list res"
  assumes insert_returns: "inv s \<Longrightarrow> room s (Suc n) \<Longrightarrow> accepts s k \<Longrightarrow> \<exists>s'. ins s k i = Inr s'"
    and insert_inv: "inv s \<Longrightarrow> room s (Suc n) \<Longrightarrow> ins s k i = Inr s' \<Longrightarrow> inv s' \<and> room s' n"
    and insert_accepts: "inv s \<Longrightarrow> room s (Suc n) \<Longrightarrow> ins s k i = Inr s' \<Longrightarrow> accepts s' k' = accepts s k'"
    and insert_items: "inv s \<Longrightarrow> room s (Suc n) \<Longrightarrow> ins s k i = Inr s' \<Longrightarrow>
      items s' k' = (if k' = k then i # items s k else items s k')"
    and read_items: "inv s \<Longrightarrow> accepts s k \<Longrightarrow> items s k \<noteq> [] \<Longrightarrow> read s k = Inr (items s k)"
begin

lemma loads_items:
  assumes "inv s" "room s (n + length xs)" "\<forall>(k, i)\<in>set xs. accepts s k"
  shows "\<exists>s'. loads ins s xs = Inr s' \<and> inv s' \<and> room s' n \<and> (\<forall>k. accepts s' k = accepts s k) \<and>
    (\<forall>k. items s' k = rev (map snd (filter (\<lambda>(k', _). k' = k) xs)) @ items s k)"
  using assms
proof (induction xs arbitrary: s)
  case (Cons x xs)
  obtain k i where x: "x = (k, i)" by (cases x)
  have r: "room s (Suc (n + length xs))" using Cons.prems(2) by simp
  obtain s1 where s1: "ins s k i = Inr s1"
    using insert_returns[OF Cons.prems(1) r, of k i] Cons.prems x by auto
  note step = insert_inv[OF Cons.prems(1) r s1] insert_accepts[OF Cons.prems(1) r s1]
    insert_items[OF Cons.prems(1) r s1]
  have "\<forall>(k, i)\<in>set xs. accepts s1 k"
    using Cons.prems(3) step(2) by auto
  from Cons.IH[OF _ _ this] step(1) obtain s' where s': "loads ins s1 xs = Inr s'" "inv s'" "room s' n"
      "\<forall>k. accepts s' k = accepts s1 k"
      "\<forall>k. items s' k = rev (map snd (filter (\<lambda>(k', _). k' = k) xs)) @ items s1 k"
    by blast
  show ?case
    using s' s1 step(2,3) x by (intro exI[of _ s']) auto
qed simp

lemma loads_read:
  assumes "inv s" "room s (length xs)" "\<forall>(k, i)\<in>set xs. accepts s k" "k \<in> fst ` set xs"
  shows "\<exists>s'. loads ins s xs = Inr s' \<and> inv s' \<and>
    read s' k = Inr (rev (map snd (filter (\<lambda>(k', _). k' = k) xs)) @ items s k)"
proof -
  obtain s' where s': "loads ins s xs = Inr s'" "inv s'" "\<forall>k. accepts s' k = accepts s k"
      "\<forall>k. items s' k = rev (map snd (filter (\<lambda>(k', _). k' = k) xs)) @ items s k"
    using loads_items[of s 0 xs] assms(1-3) by (simp, blast)
  have "items s' k \<noteq> []" "accepts s' k"
    using assms(3,4) s'(3,4) by (auto simp: filter_empty_conv)
  then show ?thesis
    using s' read_items[OF s'(2)] by (intro exI[of _ s']) simp
qed

end

section \<open>The hash index as an index\<close>

definition node_items :: "bucket_node list \<Rightarrow> idx_key_t \<Rightarrow> row list" where
  "node_items ns key = (case find_node ns key of None \<Rightarrow> [] | Some n \<Rightarrow> bn_items n)"

definition ih_items :: "index_hash \<Rightarrow> nat \<times> idx_key_t \<Rightarrow> row list" where
  "ih_items ih = (\<lambda>(part_id, key). node_items (bh_nodes (ih_buckets ih (part_id, ih_hash ih key))) key)"

definition ih_accepts :: "index_hash \<Rightarrow> nat \<times> idx_key_t \<Rightarrow> bool" where
  "ih_accepts ih = (\<lambda>(part_id, _). part_id < ih_part_cnt ih)"

definition ih_inv :: "index_hash \<Rightarrow> bool" where
  "ih_inv ih \<longleftrightarrow> 0 < ih_bucket_cnt_per_part ih \<and>
     (\<forall>p b. \<not> bh_locked (ih_buckets ih (p, b)) \<and>
        (\<forall>n\<in>set (bh_nodes (ih_buckets ih (p, b))). ih_hash ih (bn_key n) = b) \<and>
        distinct (map bn_key (bh_nodes (ih_buckets ih (p, b)))))"

lemma find_node_key: "find_node ns key = Some n \<Longrightarrow> bn_key n = key"
  by (induction ns) (auto split: if_splits)

lemma node_items_insert:
  "node_items (insert_item ns key r) key' =
     (if key' = key then r # node_items ns key else node_items ns key')"
  by (induction ns) (auto simp: node_items_def)

lemma insert_item_keys: "bn_key ` set (insert_item ns key r) = insert key (bn_key ` set ns)"
  by (induction ns) auto

lemma insert_item_distinct:
  "distinct (map bn_key ns) \<Longrightarrow> distinct (map bn_key (insert_item ns key r))"
proof (induction ns)
  case (Cons n ns)
  have "bn_key n \<notin> bn_key ` set (insert_item ns key r)" if "bn_key n \<noteq> key"
    using that Cons.prems insert_item_keys[of ns key r] by simp
  then show ?case
    using Cons by auto
qed simp

lemma ih_index_insert_eq:
  assumes "ih_inv ih" "ih_accepts ih (p, key)"
  shows "ih_index_insert ih (p, key) r = Inr (ih\<lparr>ih_buckets := (ih_buckets ih)((p, ih_hash ih key) :=
    (ih_buckets ih (p, ih_hash ih key))\<lparr>bh_nodes :=
       insert_item (bh_nodes (ih_buckets ih (p, ih_hash ih key))) key r, bh_locked := False\<rparr>)\<rparr>)"
proof -
  have "0 < ih_bucket_cnt_per_part ih"
    using assms(1) by (simp add: ih_inv_def)
  then have "ih_hash ih key < ih_bucket_cnt_per_part ih"
    by (simp add: ih_hash_def word_mod_less_divisor)
  then show ?thesis
    using assms by (simp add: ih_index_insert_def ih_inv_def ih_accepts_def Let_def)
qed

lemma ih_index_insert_accepts:
  "ih_index_insert ih (p, key) r = Inr ih' \<Longrightarrow> ih_accepts ih (p, key)"
  by (auto simp: ih_index_insert_def ih_accepts_def Let_def assert_res_def split: if_splits)

lemma ih_index_insert_result:
  assumes "ih_inv s" "ih_index_insert s (p, key) i = Inr s'"
  shows "s' = s\<lparr>ih_buckets := (ih_buckets s)((p, ih_hash s key) :=
    (ih_buckets s (p, ih_hash s key))\<lparr>bh_nodes :=
       insert_item (bh_nodes (ih_buckets s (p, ih_hash s key))) key i, bh_locked := False\<rparr>)\<rparr>"
  using ih_index_insert_eq[OF assms(1) ih_index_insert_accepts[OF assms(2)], of i] assms(2) by simp

interpretation hash_index: index_contract ih_inv "\<lambda>_ _. True" ih_accepts ih_items ih_index_insert ih_index_read
proof (unfold_locales, goal_cases)
  case (1 s n k i)
  then show ?case by (cases k) (simp add: ih_index_insert_eq)
next
  case (2 s n k i s')
  obtain p key where k: "k = (p, key)" by (cases k)
  note s' = ih_index_insert_result[OF 2(1) 2(3)[unfolded k]]
  have "ih_hash s (bn_key n) = ih_hash s key"
    if "n \<in> set (insert_item (bh_nodes (ih_buckets s (p, ih_hash s key))) key i)" for n
  proof -
    have "bn_key n = key \<or> bn_key n \<in> bn_key ` set (bh_nodes (ih_buckets s (p, ih_hash s key)))"
      using that insert_item_keys by (metis imageI insert_iff)
    then show ?thesis
      using 2(1) by (auto simp: ih_inv_def)
  qed
  then show ?case
    using 2(1) insert_item_distinct unfolding s'
    by (simp add: ih_inv_def ih_hash_def)
next
  case (3 s n k i s' k')
  then show ?case
    by (cases k) (auto simp: ih_index_insert_def ih_accepts_def Let_def assert_res_def split: if_splits)
next
  case (4 s n k i s' k')
  obtain p key p' key' where k: "k = (p, key)" "k' = (p', key')" by (cases k, cases k')
  note s' = ih_index_insert_result[OF 4(1) 4(3)[unfolded k(1)]]
  show ?case
    unfolding s' k by (auto simp: ih_items_def ih_hash_def node_items_insert)
next
  case (5 s k)
  obtain p key where k: "k = (p, key)" by (cases k)
  have "0 < ih_bucket_cnt_per_part s"
    using 5(1) by (simp add: ih_inv_def)
  then have "ih_hash s key < ih_bucket_cnt_per_part s"
    by (simp add: ih_hash_def word_mod_less_divisor)
  then show ?case
    using 5 by (auto simp: k ih_index_read_def ih_items_def ih_accepts_def node_items_def
      read_item_def find_node_key split: option.splits)
qed

text \<open>
  C16: The hash index implements the index interface. Starting from any index whose latches are
  free and whose nodes are in the buckets of their keys, any sequence of inserts into existing
  partitions succeeds, and reading a key that was inserted returns exactly the rows inserted
  under it in that partition, latest first, followed by those that were there before.
\<close>

theorem hash_index_reads_inserts:
  assumes "ih_inv ih" "\<forall>((p, key), r)\<in>set xs. p < ih_part_cnt ih" "k \<in> fst ` set xs"
  shows "\<exists>ih'. loads ih_index_insert ih xs = Inr ih' \<and> ih_inv ih' \<and>
    ih_index_read ih' k = Inr (rev (map snd (filter (\<lambda>(k', _). k' = k) xs)) @ ih_items ih k)"
proof -
  have "\<forall>(k, r)\<in>set xs. ih_accepts ih k"
    using assms(2) by (auto simp: ih_accepts_def)
  then show ?thesis
    using hash_index.loads_read[OF assms(1) _ _ assms(3)] by blast
qed

lemma ih_inv_init:
  assumes "0 < bucket_cnt div of_nat part_cnt"
  shows "ih_inv (index_hash_init bucket_cnt part_cnt)"
  using assms by (simp add: ih_inv_def index_hash_init_def bucket_init_def)

theorem hash_index_reads_inserts_witness:
  "\<exists>ih'. loads ih_index_insert (index_hash_init 4 1)
      [((0, 3), demo_row), ((0, 7), demo_row\<lparr>r_row_id := 8\<rparr>), ((0, 3), demo_row\<lparr>r_row_id := 9\<rparr>)] = Inr ih' \<and>
    ih_index_read ih' (0, 3) = Inr [demo_row\<lparr>r_row_id := 9\<rparr>, demo_row]"
proof -
  let ?xs = "[((0, 3), demo_row), ((0, 7), demo_row\<lparr>r_row_id := 8\<rparr>), ((0, 3), demo_row\<lparr>r_row_id := 9\<rparr>)]"
  have "ih_inv (index_hash_init 4 1)"
    by (rule ih_inv_init) simp
  moreover have "ih_items (index_hash_init 4 1) (0, 3) = []"
    by (simp add: ih_items_def node_items_def index_hash_init_def bucket_init_def)
  moreover have "\<forall>((p, key), r)\<in>set ?xs. p < ih_part_cnt (index_hash_init 4 1)"
    by (simp add: index_hash_init_def)
  moreover have "(0, 3) \<in> fst ` set ?xs" by simp
  ultimately show ?thesis
    using hash_index_reads_inserts[of "index_hash_init 4 1" ?xs "(0, 3)"] by auto
qed

section \<open>What the bucket hash covers\<close>

definition rows_hash :: "row list \<Rightarrow> u64" where
  "rows_hash rs = foldr (\<lambda>r h. row_hash r XOR h) rs 0"

lemma rows_hash_simps [simp]:
  "rows_hash [] = 0" "rows_hash (r # rs) = row_hash r XOR rows_hash rs"
  by (simp_all add: rows_hash_def)

lemma rows_hash_append [simp]: "rows_hash (xs @ ys) = rows_hash xs XOR rows_hash ys"
  by (induction xs) (simp_all add: ac_simps)

lemma foldl_rows: "foldl (\<lambda>res r. res XOR row_hash r) a rs = a XOR rows_hash rs"
  by (induction rs arbitrary: a) (simp_all add: ac_simps)

lemma node_hash_rows: "node_hash n = bn_key n XOR rows_hash (bn_items n)"
  by (simp add: node_hash_def foldl_rows)

lemma bucket_hash_rows: "bucket_hash ns = rows_hash (concat (map bn_items ns))"
proof -
  have "foldl (\<lambda>res n. res XOR (node_hash n XOR bn_key n)) a ns =
      a XOR rows_hash (concat (map bn_items ns))" for a
    by (induction ns arbitrary: a) (simp_all add: node_hash_rows ac_simps)
  then show ?thesis
    by (simp add: bucket_hash_def)
qed

lemma rows_hash_perm: "mset (map row_hash xs) = mset (map row_hash ys) \<Longrightarrow> rows_hash xs = rows_hash ys"
proof (induction xs arbitrary: ys)
  case (Cons x xs)
  then have "row_hash x \<in> set (map row_hash ys)"
    by (metis list.set_intros(1) list.simps(9) mset_eq_setD)
  then obtain y where "y \<in> set ys" and y: "row_hash x = row_hash y"
    by auto
  then obtain as bs where ys: "ys = as @ y # bs"
    by (meson split_list)
  with Cons.prems y have "mset (map row_hash xs) = mset (map row_hash (as @ bs))"
    by simp
  from Cons.IH[OF this] have "rows_hash xs = rows_hash (as @ bs)" .
  then show ?case
    by (simp add: ys y ac_simps)
qed simp

text \<open>
   The hash of a bucket is the exclusive or of the hashes of its rows and nothing else: the
  key of a node enters twice and cancels. So changing the hash of a single row is always
  noticed, while moving rows to other keys of the bucket, renaming keys, reordering rows, or
  adding two copies of any row leaves the bucket hash unchanged.
\<close>

theorem bucket_hash_blind:
  "bucket_hash ns = rows_hash (concat (map bn_items ns)) \<and>
   (mset (map row_hash (concat (map bn_items ns))) = mset (map row_hash (concat (map bn_items ms))) \<longrightarrow>
      bucket_hash ns = bucket_hash ms) \<and>
   bucket_hash (insert_item (insert_item ns key r) key' r) = bucket_hash ns \<and>
   (row_hash r' \<noteq> row_hash r \<longrightarrow>
      bucket_hash (as @ \<lparr>bn_key = key, bn_items = rs @ r' # rs'\<rparr> # bs) \<noteq>
      bucket_hash (as @ \<lparr>bn_key = key, bn_items = rs @ r # rs'\<rparr> # bs))"
proof -
  have ins: "bucket_hash (insert_item ns key r) = row_hash r XOR bucket_hash ns" for ns key
    by (induction ns) (auto simp: bucket_hash_rows ac_simps)
  show ?thesis
    using rows_hash_perm[of "concat (map bn_items ns)" "concat (map bn_items ms)"]
    by (simp add: ins) (auto simp: bucket_hash_rows ac_simps)
qed

theorem bucket_hash_blind_witness:
  "bucket_hash [\<lparr>bn_key = 1, bn_items = [demo_row]\<rparr>, \<lparr>bn_key = 2, bn_items = [demo_row\<lparr>r_row_id := 9\<rparr>]\<rparr>] =
   bucket_hash [\<lparr>bn_key = 1, bn_items = [demo_row\<lparr>r_row_id := 9\<rparr>]\<rparr>, \<lparr>bn_key = 2, bn_items = [demo_row]\<rparr>]"
  by (rule bucket_hash_blind[THEN conjunct2, THEN conjunct1, THEN mp]) simp

section \<open>Decoding a bucket\<close>

definition encodable :: "(string \<rightharpoonup> table_t) \<Rightarrow> row \<Rightarrow> bool" where
  "encodable tables r \<longleftrightarrow> balanced (tb_table_name (r_table r)) \<and>
     tables (tb_table_name (r_table r)) = Some (r_table r) \<and> length (r_data r) = tuple_size r"

lemma node_decode_items_replicate:
  "row_decode tables (snd (data ! 1)) = Inr r \<Longrightarrow>
     node_decode_items tables data k = Inr (replicate k (Some r))"
  by (induction k) simp_all

lemma node_decode_encode:
  assumes "bn_items n = r # rs" "\<forall>r\<in>set (bn_items n). encodable tables r"
    and "length (node_encode n) < 2 ^ 31"
  shows "node_decode tables (node_encode n) =
    Inr (bn_key n, replicate (length (bn_items n)) (Some (row_scatter r)))"
    and "balanced (node_encode n)"
proof -
  let ?xs = "(u64_to_string (bn_key n), []) #
     map (\<lambda>r. (u64_to_string (r_part_id r), row_encode r)) (bn_items n)"
  have bal: "balanced_pairs ?xs"
    using assms(2) row_encode_balanced by (auto simp: balanced_def[of "[]"] encodable_def)
  then have xs: "decode_vec (node_encode n) = Inr ?xs"
    using assms(3) unfolding node_encode_def by (rule decode_encode)
  have "length (row_encode r) < 2 ^ 31"
    using assms(1,3) encode_vec_longer[of "u64_to_string (r_part_id r)" "row_encode r" ?xs]
    by (simp add: node_encode_def)
  then have "row_decode tables (snd (?xs ! 1)) = Inr (row_scatter r)"
    using assms by (simp add: row_decode_encode encodable_def)
  with xs show "node_decode tables (node_encode n) =
      Inr (bn_key n, replicate (length (bn_items n)) (Some (row_scatter r)))"
    using node_decode_items_replicate[of tables ?xs "row_scatter r" "length rs"] assms(1)
    by (simp add: node_decode_def)
  show "balanced (node_encode n)"
    unfolding node_encode_def by (rule encode_vec_balanced[OF bal])
qed

text \<open>
   Decoding an encoded bucket (of less than \<open>2 ^ 31\<close> characters) restores the keys of its nodes in order and the number of items
  of each, but every item of a node is a copy of the node's first row (with its bytes scattered
  as in the decoding of a row).
\<close>

theorem bucket_decode_repeats:
  assumes "\<forall>n\<in>set ns. bn_items n \<noteq> [] \<and> (\<forall>r\<in>set (bn_items n). encodable tables r)"
    and "length (bucket_encode ns) < 2 ^ 31"
  shows "bucket_decode tables (bucket_encode ns) =
    Inr (map (\<lambda>n. (bn_key n, replicate (length (bn_items n)) (Some (row_scatter (hd (bn_items n)))))) ns)"
proof -
  have one: "node_decode tables (node_encode n) =
      Inr (bn_key n, replicate (length (bn_items n)) (Some (row_scatter (hd (bn_items n)))))"
    and bal: "balanced (node_encode n)" if "n \<in> set ns" for n
  proof -
    have "(u64_to_string (bn_key n), node_encode n) \<in> set (map (\<lambda>n. (u64_to_string (bn_key n), node_encode n)) ns)"
      using that by auto
    then have "length (node_encode n) < 2 ^ 31"
      using assms(2) encode_vec_longer unfolding bucket_encode_def by fastforce
    then show "node_decode tables (node_encode n) =
        Inr (bn_key n, replicate (length (bn_items n)) (Some (row_scatter (hd (bn_items n)))))"
      and "balanced (node_encode n)"
      using assms(1) that node_decode_encode[of n "hd (bn_items n)" "tl (bn_items n)" tables] by auto
  qed
  have "decode_vec (bucket_encode ns) = Inr (map (\<lambda>n. (u64_to_string (bn_key n), node_encode n)) ns)"
    using bal assms(2) unfolding bucket_encode_def by (intro decode_encode) auto
  moreover have "bucket_decode_nodes tables (map (\<lambda>n. (u64_to_string (bn_key n), node_encode n)) ms) =
      Inr (map (\<lambda>n. (bn_key n, replicate (length (bn_items n)) (Some (row_scatter (hd (bn_items n)))))) ms)"
    if "set ms \<subseteq> set ns" for ms
    using that by (induction ms) (simp_all add: one)
  ultimately show ?thesis
    by (simp add: bucket_decode_def)
qed

theorem bucket_decode_repeats_witness:
  "bucket_decode [''T'' \<mapsto> r_table demo_row]
     (bucket_encode [\<lparr>bn_key = 4, bn_items = [demo_row, demo_row\<lparr>r_row_id := 9\<rparr>]\<rparr>]) =
   Inr [(4, [Some (row_scatter demo_row), Some (row_scatter demo_row)])]"
proof -
  let ?ns = "[\<lparr>bn_key = 4, bn_items = [demo_row, demo_row\<lparr>r_row_id := 9\<rparr>]\<rparr>]"
  have "\<forall>n\<in>set ?ns. bn_items n \<noteq> [] \<and> (\<forall>r\<in>set (bn_items n). encodable [''T'' \<mapsto> r_table demo_row] r)"
    by (simp add: encodable_def demo_row_def balanced_def)
  moreover have "length (bucket_encode ?ns) < 2 ^ 31"
    by (simp add: bucket_encode_def node_encode_def row_encode_def demo_row_def u64_to_string_def
        nat_to_string.simps)
  ultimately show ?thesis
    using bucket_decode_repeats[of ?ns "[''T'' \<mapsto> r_table demo_row]"] by (simp add: numeral_2_eq_2)
qed

end
