(* ===== verification/Verify.thy ===== *)
theory Verify
  imports Lru_Cache Row_Data
begin

text \<open>
  Deferred memory verification (\<open>VERI_TYPE == DEFERRED_MEMORY\<close>): \<open>verify_record\<close> and
  \<open>memory_verifier\<close> of \<open>trusted/system/index_btree_enc.h\<close> and \<open>index_btree_enc.cpp\<close>, and the
  page hash of \<open>common/index_btree.h\<close>. The enclave keeps, per page of the untrusted B+tree, a
  read-set hash and a write-set hash; every load of a page adds a read, every flush a write,
  and \<open>verification\<close> compares the sets at most once per \<open>VERI_BATCH\<close> and then forgets them.

  The untrusted memory is a map from page ids to pages and may differ at every call. The latch
  of a record is a flag; in a state where it is set, \<open>get_latch\<close> blocks. The page cache that
  \<open>verify\<close> consults is the one of \<open>Lru_Cache\<close>.

  \<open>expected\<close> is the abstract state of the verifier: the page value it expects to find. The
  refinement lemmas show how every operation acts on it.
\<close>

section \<open>Pages\<close>

record bt_page =
  bp_is_leaf :: bool
  bp_keys :: "u64 list"
  bp_num_keys :: u32
  bp_rows :: "row list"

text \<open>
  \<open>get_hash\<close> computes the exclusive or of keys and rows and returns the number of keys. It reads as
  many keys, and in a leaf as many rows, as the count in the page says: a page with shorter arrays is
  read out of bounds.
\<close>

definition bt_readable :: "bt_page \<Rightarrow> bool" where
  "bt_readable p \<longleftrightarrow> unat (bp_num_keys p) \<le> length (bp_keys p) \<and>
     (bp_is_leaf p \<longrightarrow> unat (bp_num_keys p) \<le> length (bp_rows p))"

definition bt_get_hash :: "bt_page \<Rightarrow> u64 res" where
  "bt_get_hash p =
     (if \<not> bt_readable p then Inl Bounds
      else
      let n = unat (bp_num_keys p);
          res = foldl (XOR) 0 (take n (bp_keys p));
          res' = (if bp_is_leaf p then foldl (\<lambda>h r. h XOR row_hash r) res (take n (bp_rows p)) else res)
      in Inr (ucast (bp_num_keys p)))"

type_synonym memory = "u64 \<Rightarrow> bt_page"

section \<open>Records\<close>

record verify_record =
  vr_read_set_hash :: u64
  vr_write_set_hash :: u64
  vr_timestamp :: u64
  vr_old_value_hash :: u64
  vr_origin_node :: u64
  vr_from :: nat
  vr_locked :: bool

definition vr_init :: "verify_record \<Rightarrow> u64 \<Rightarrow> u64 \<Rightarrow> nat \<Rightarrow> verify_record res" where
  "vr_init r cur_value origin from =
     assert_res (vr_locked r) (assert_res (origin > 0)
       (Inr \<lparr>vr_read_set_hash = 0, vr_write_set_hash = cur_value, vr_timestamp = 0,
            vr_old_value_hash = cur_value, vr_origin_node = origin, vr_from = from,
            vr_locked = False\<rparr>))"

definition vr_add_read :: "verify_record \<Rightarrow> u64 \<Rightarrow> verify_record res" where
  "vr_add_read r read_value =
     (if vr_locked r then Inl Blocked
      else Inr (r\<lparr>vr_read_set_hash := vr_read_set_hash r XOR (read_value XOR vr_timestamp r),
                 vr_write_set_hash := vr_write_set_hash r XOR (read_value XOR vr_timestamp r)\<rparr>))"

definition vr_add_write :: "verify_record \<Rightarrow> u64 \<Rightarrow> verify_record res" where
  "vr_add_write r write_value =
     (if vr_locked r then Inl Blocked
      else
        let t = vr_timestamp r + 1 in
        Inr (r\<lparr>vr_read_set_hash := vr_read_set_hash r XOR vr_old_value_hash r,
               vr_timestamp := t,
               vr_write_set_hash := vr_write_set_hash r XOR (write_value XOR t),
               vr_old_value_hash := write_value XOR t\<rparr>))"

text \<open>
  \<open>verify\<close>: \<open>try_load\<close> tells whether the page is cached in the enclave; it also takes a
  reference to it, which is not given back.
\<close>

definition vr_verify ::
  "bool \<Rightarrow> memory \<Rightarrow> 'v lru_cache \<Rightarrow> verify_record \<Rightarrow> (bool \<times> 'v lru_cache) res" where
  "vr_verify el mem c r =
     assert_res (bp_is_leaf (mem (vr_origin_node r)))
       (bind_res (lru_try_load el c 0 (vr_origin_node r)) (\<lambda>(cur, c').
          if vr_locked r then Inl Blocked
          else bind_res
            (case cur of Some _ \<Rightarrow> Inr (vr_old_value_hash r)
             | None \<Rightarrow> bind_res (bt_get_hash (mem (vr_origin_node r))) (\<lambda>h. Inr (h XOR vr_timestamp r)))
            (\<lambda>v. let ok = (vr_read_set_hash r XOR v = vr_write_set_hash r)
                in assert_res ok (Inr (ok, c')))))"

section \<open>The verifier\<close>

record memory_verifier =
  mv_updates :: "verify_record option list"
  mv_limit :: u64
  mv_last_verification :: u64
  mv_verifying :: bool

abbreviation VERI_BATCH :: u64 where
  "VERI_BATCH \<equiv> 1000000000"

definition mv_init :: "nat \<Rightarrow> u64 \<Rightarrow> memory_verifier" where
  "mv_init sz now =
     \<lparr>mv_updates = replicate sz None, mv_limit = of_nat sz, mv_last_verification = now,
      mv_verifying = False\<rparr>"

text \<open>
  The common part of \<open>add_read\<close> and \<open>add_write\<close>: a missing record is created with the given
  hash (computed only in that case), then the record is updated. No other thread runs in between, so the compare-and-swap
  of the new record succeeds.
\<close>

definition mv_touch ::
  "memory_verifier \<Rightarrow> u64 \<Rightarrow> nat \<Rightarrow> u64 res \<Rightarrow> (verify_record \<Rightarrow> verify_record res) \<Rightarrow> memory_verifier res" where
  "mv_touch mv key from hash f =
     (let i = unat key in
      if \<not> i < length (mv_updates mv) then Inl Bounds
      else bind_res
        (case mv_updates mv ! i of
           None \<Rightarrow> bind_res hash (\<lambda>v. vr_init \<lparr>vr_read_set_hash = 0, vr_write_set_hash = 0, vr_timestamp = 0,
              vr_old_value_hash = 0, vr_origin_node = key, vr_from = from, vr_locked = True\<rparr> v key from)
         | Some r \<Rightarrow> Inr r)
        (\<lambda>r. assert_res (key < mv_limit mv) (assert_res (vr_from r = from)
          (bind_res (f r) (\<lambda>r'. Inr (mv\<lparr>mv_updates := (mv_updates mv)[i := Some r']\<rparr>))))))"

definition mv_add_read :: "memory_verifier \<Rightarrow> u64 \<Rightarrow> nat \<Rightarrow> u64 \<Rightarrow> memory_verifier res" where
  "mv_add_read mv key from read_value = mv_touch mv key from (Inr read_value) (\<lambda>r. vr_add_read r read_value)"

definition mv_add_write :: "memory \<Rightarrow> memory_verifier \<Rightarrow> u64 \<Rightarrow> nat \<Rightarrow> u64 \<Rightarrow> memory_verifier res" where
  "mv_add_write mem mv key from write_value =
     mv_touch mv key from (bt_get_hash (mem key)) (\<lambda>r. vr_add_write r write_value)"

fun mv_verify_loop ::
  "bool \<Rightarrow> memory \<Rightarrow> 'v lru_cache \<Rightarrow> verify_record option list \<Rightarrow>
     (verify_record option list \<times> 'v lru_cache) res" where
  "mv_verify_loop el mem c [] = Inr ([], c)"
| "mv_verify_loop el mem c (None # rs) =
     bind_res (mv_verify_loop el mem c rs) (\<lambda>(rs', c'). Inr (None # rs', c'))"
| "mv_verify_loop el mem c (Some r # rs) =
     bind_res (vr_verify el mem c r) (\<lambda>(ok, c1). assert_res ok
       (if vr_locked r then Inl Blocked
        else bind_res (mv_verify_loop el mem c1 rs) (\<lambda>(rs', c'). Inr (None # rs', c'))))"

text \<open>\<open>verification\<close>, with the two readings of the enclave clock as arguments.\<close>

definition mv_verification ::
  "bool \<Rightarrow> memory \<Rightarrow> 'v lru_cache \<Rightarrow> memory_verifier \<Rightarrow> u64 \<Rightarrow> u64 \<Rightarrow>
     (bool \<times> memory_verifier \<times> 'v lru_cache) res" where
  "mv_verification el mem c mv now now' =
     (if now - mv_last_verification mv < VERI_BATCH \<or> mv_verifying mv then Inr (True, mv, c)
      else bind_res (mv_verify_loop el mem c (mv_updates mv)) (\<lambda>(rs, c').
        Inr (True, mv\<lparr>mv_updates := rs, mv_last_verification := now', mv_verifying := False\<rparr>, c')))"

section \<open>What the verifier expects\<close>

text \<open>
  The page value a record stands for, and the invariant that ties its hashes to it. The loop of
  \<open>verification\<close> counts in an \<open>int\<close>, so the verifier has fewer than \<open>2 ^ 31\<close> slots.
\<close>

definition vr_value :: "verify_record \<Rightarrow> u64" where
  "vr_value r = vr_old_value_hash r XOR vr_timestamp r"

definition vr_inv :: "u64 \<Rightarrow> verify_record \<Rightarrow> bool" where
  "vr_inv key r \<longleftrightarrow> \<not> vr_locked r \<and> vr_origin_node r = key \<and>
     vr_read_set_hash r XOR vr_old_value_hash r = vr_write_set_hash r"

definition mv_inv :: "memory_verifier \<Rightarrow> bool" where
  "mv_inv mv \<longleftrightarrow> mv_limit mv = of_nat (length (mv_updates mv)) \<and> length (mv_updates mv) < 2 ^ 31 \<and>
     (\<forall>i r. i < length (mv_updates mv) \<longrightarrow> mv_updates mv ! i = Some r \<longrightarrow> vr_inv (of_nat i) r)"

definition expected :: "memory_verifier \<Rightarrow> u64 \<rightharpoonup> u64" where
  "expected mv key = (if unat key < length (mv_updates mv)
     then map_option vr_value (mv_updates mv ! unat key) else None)"

lemma vr_add_read_value:
  assumes "vr_inv key r"
  shows "\<exists>r'. vr_add_read r v = Inr r' \<and> vr_inv key r' \<and> vr_value r' = vr_value r \<and> vr_from r' = vr_from r"
proof -
  have "(vr_read_set_hash r XOR (v XOR vr_timestamp r)) XOR vr_old_value_hash r =
      (vr_read_set_hash r XOR vr_old_value_hash r) XOR (v XOR vr_timestamp r)"
    by (simp add: ac_simps)
  then show ?thesis
    using assms by (simp add: vr_add_read_def vr_inv_def vr_value_def)
qed

lemma vr_add_write_value:
  assumes "vr_inv key r"
  shows "\<exists>r'. vr_add_write r v = Inr r' \<and> vr_inv key r' \<and> vr_value r' = v \<and> vr_from r' = vr_from r"
  using assms by (auto simp: vr_add_write_def vr_inv_def vr_value_def Let_def)

lemma mv_touch_refines:
  assumes inv: "mv_inv mv" and key: "0 < key" "unat key < length (mv_updates mv)"
    and fr: "\<forall>r. mv_updates mv ! unat key = Some r \<longrightarrow> vr_from r = from"
    and f: "\<And>r. vr_inv key r \<Longrightarrow> \<exists>r'. f r = Inr r' \<and> vr_inv key r' \<and> vr_value r' = g (vr_value r) \<and>
      vr_from r' = vr_from r"
  shows "\<exists>mv'. mv_touch mv key from (Inr v) f = Inr mv' \<and> mv_inv mv' \<and>
    expected mv' = (expected mv)(key \<mapsto> g (case expected mv key of None \<Rightarrow> v | Some x \<Rightarrow> x))"
proof -
  obtain r0 where r0: "(case mv_updates mv ! unat key of
           None \<Rightarrow> bind_res (Inr v) (\<lambda>v. vr_init \<lparr>vr_read_set_hash = 0, vr_write_set_hash = 0, vr_timestamp = 0,
              vr_old_value_hash = 0, vr_origin_node = key, vr_from = from, vr_locked = True\<rparr> v key from)
         | Some r \<Rightarrow> Inr r) = Inr r0"
      "vr_inv key r0" "vr_from r0 = from"
      "vr_value r0 = (case expected mv key of None \<Rightarrow> v | Some x \<Rightarrow> x)"
  proof (cases "mv_updates mv ! unat key")
    case None
    then show ?thesis
      using that key by (simp add: vr_init_def vr_inv_def vr_value_def expected_def)
  next
    case (Some r)
    then have "vr_inv key r"
      using inv key(2) by (auto simp: mv_inv_def)
    then show ?thesis
      using that Some fr key by (simp add: expected_def)
  qed
  obtain r' where r': "f r0 = Inr r'" "vr_inv key r'" "vr_value r' = g (vr_value r0)"
    using f[OF r0(2)] by blast
  have lim: "key < mv_limit mv"
    using inv key(2) by (simp add: mv_inv_def word_less_nat_alt unat_of_nat_lt)
  let ?mv' = "mv\<lparr>mv_updates := (mv_updates mv)[unat key := Some r']\<rparr>"
  have "mv_touch mv key from (Inr v) f = Inr ?mv'"
    using key r0 r' lim by (simp add: mv_touch_def)
  moreover have "mv_inv ?mv'"
    using inv r'(2) key(2) by (auto simp: mv_inv_def nth_list_update split: if_splits)
  moreover have "expected ?mv' = (expected mv)(key \<mapsto> g (case expected mv key of None \<Rightarrow> v | Some x \<Rightarrow> x))"
    using key(2) r'(3) r0(4)
    by (intro ext) (auto simp: expected_def nth_list_update word_unat_eq_iff)
  ultimately show ?thesis by blast
qed

text \<open>
  A trace of accesses between two verifications: a read of a page with the hash seen, or a
  write with the hash written, each with the untrusted memory at that moment. On the expected
  values a first read sets the expectation, later reads leave it, a write replaces it.
\<close>

datatype page_access = Page_Read u64 u64 | Page_Write u64 u64 memory

fun mv_access :: "nat \<Rightarrow> memory_verifier \<Rightarrow> page_access \<Rightarrow> memory_verifier res" where
  "mv_access from mv (Page_Read key v) = mv_add_read mv key from v"
| "mv_access from mv (Page_Write key v mem) = mv_add_write mem mv key from v"

fun mv_accesses :: "nat \<Rightarrow> memory_verifier \<Rightarrow> page_access list \<Rightarrow> memory_verifier res" where
  "mv_accesses from mv [] = Inr mv"
| "mv_accesses from mv (a # as) = bind_res (mv_access from mv a) (\<lambda>mv'. mv_accesses from mv' as)"

fun access_key :: "page_access \<Rightarrow> u64" where
  "access_key (Page_Read key v) = key"
| "access_key (Page_Write key v mem) = key"

fun access_readable :: "page_access \<Rightarrow> bool" where
  "access_readable (Page_Read key v) = True"
| "access_readable (Page_Write key v mem) = bt_readable (mem key)"

fun expect :: "(u64 \<rightharpoonup> u64) \<Rightarrow> page_access \<Rightarrow> (u64 \<rightharpoonup> u64)" where
  "expect E (Page_Read key v) = E(key \<mapsto> (case E key of None \<Rightarrow> v | Some x \<Rightarrow> x))"
| "expect E (Page_Write key v mem) = E(key \<mapsto> v)"

definition mv_owned :: "nat \<Rightarrow> memory_verifier \<Rightarrow> bool" where
  "mv_owned from mv \<longleftrightarrow> (\<forall>r. Some r \<in> set (mv_updates mv) \<longrightarrow> vr_from r = from)"

lemma mv_touch_owned:
  assumes "mv_touch mv key from v f = Inr mv'" "mv_owned from mv"
    and "\<And>r r'. f r = Inr r' \<Longrightarrow> vr_from r' = vr_from r"
  shows "mv_owned from mv' \<and> length (mv_updates mv') = length (mv_updates mv)"
  using assms set_update_subset_insert[of "mv_updates mv" "unat key"]
  by (fastforce simp: mv_touch_def mv_owned_def Let_def res_simps split: if_splits)

lemma vr_add_from:
  "vr_add_read r v = Inr r' \<Longrightarrow> vr_from r' = vr_from r"
  "vr_add_write r v = Inr r' \<Longrightarrow> vr_from r' = vr_from r"
  by (auto simp: vr_add_read_def vr_add_write_def Let_def split: if_splits)

lemma mv_access_refines:
  assumes "mv_inv mv" "mv_owned from mv" "0 < access_key a" "unat (access_key a) < length (mv_updates mv)"
    and "access_readable a"
  shows "\<exists>mv'. mv_access from mv a = Inr mv' \<and> mv_inv mv' \<and> mv_owned from mv' \<and>
    length (mv_updates mv') = length (mv_updates mv) \<and> expected mv' = expect (expected mv) a"
proof -
  have fr: "\<forall>r. mv_updates mv ! unat (access_key a) = Some r \<longrightarrow> vr_from r = from"
    using assms(2,4) by (auto simp: mv_owned_def dest: nth_mem)
  show ?thesis
  proof (cases a)
    case (Page_Read key v)
    then have "\<exists>mv'. mv_touch mv key from (Inr v) (\<lambda>r. vr_add_read r v) = Inr mv' \<and> mv_inv mv' \<and>
        expected mv' = (expected mv)(key \<mapsto> (case expected mv key of None \<Rightarrow> v | Some x \<Rightarrow> x))"
      using assms fr by (intro mv_touch_refines[where g = "\<lambda>x. x"] vr_add_read_value) auto
    then show ?thesis
      using Page_Read assms(2) mv_touch_owned[OF _ assms(2) vr_add_from(1)]
      by (auto simp: mv_add_read_def)
  next
    case (Page_Write key v mem)
    then obtain h where h: "bt_get_hash (mem key) = Inr h"
      using assms(5) by (auto simp: bt_get_hash_def)
    have "\<exists>mv'. mv_touch mv key from (bt_get_hash (mem key)) (\<lambda>r. vr_add_write r v) = Inr mv' \<and>
        mv_inv mv' \<and> expected mv' = (expected mv)(key \<mapsto> v)"
      unfolding h using Page_Write assms fr
      by (intro mv_touch_refines[where g = "\<lambda>x. v"] vr_add_write_value) auto
    then show ?thesis
      using Page_Write assms(2) mv_touch_owned[OF _ assms(2) vr_add_from(2)]
      by (auto simp: mv_add_write_def)
  qed
qed

lemma mv_accesses_refines:
  assumes "mv_inv mv" "mv_owned from mv"
    and "\<forall>a\<in>set as. 0 < access_key a \<and> unat (access_key a) < length (mv_updates mv) \<and> access_readable a"
  shows "\<exists>mv'. mv_accesses from mv as = Inr mv' \<and> mv_inv mv' \<and> mv_owned from mv' \<and>
    length (mv_updates mv') = length (mv_updates mv) \<and> mv_verifying mv' = mv_verifying mv \<and>
    expected mv' = foldl expect (expected mv) as"
  using assms
proof (induction as arbitrary: mv)
  case (Cons a as)
  obtain mv1 where mv1: "mv_access from mv a = Inr mv1" "mv_inv mv1" "mv_owned from mv1"
      "length (mv_updates mv1) = length (mv_updates mv)" "expected mv1 = expect (expected mv) a"
    using mv_access_refines[OF Cons.prems(1,2), of a] Cons.prems(3) by auto
  have "mv_verifying mv1 = mv_verifying mv"
    using mv1(1) by (cases a) (auto simp: mv_add_read_def mv_add_write_def mv_touch_def Let_def
      res_simps split: if_splits)
  then show ?case
    using Cons.IH[OF mv1(2,3)] Cons.prems(3) mv1 by auto
qed simp

section \<open>Verification\<close>

definition page_cached :: "'v lru_cache \<Rightarrow> u64 \<Rightarrow> bool" where
  "page_cached c key \<longleftrightarrow> lc_cache c (0, key) \<noteq> None"

lemma try_load_cached:
  assumes "lru_in c 0 key"
  shows "\<exists>cur c'. lru_try_load False c 0 key = Inr (cur, c') \<and> (cur \<noteq> None \<longleftrightarrow> page_cached c key) \<and>
    lc_n c' = lc_n c \<and> lc_m c' = lc_m c \<and> page_cached c' = page_cached c"
  using assms
  by (auto simp: lru_try_load_def page_cached_def Let_def fun_eq_iff split: option.splits)

text \<open>
  What a verification asks of a page with an expected value: it is a leaf within the cache, and it is
  cached or its hash is the expected one.
\<close>

definition page_passes :: "memory \<Rightarrow> 'v lru_cache \<Rightarrow> u64 \<Rightarrow> u64 \<Rightarrow> bool" where
  "page_passes mem c key v \<longleftrightarrow> bp_is_leaf (mem key) \<and> lru_in c 0 key \<and>
     (page_cached c key \<or> bt_get_hash (mem key) = Inr v)"

lemma page_passes_cong:
  "lc_n c' = lc_n c \<Longrightarrow> lc_m c' = lc_m c \<Longrightarrow> page_cached c' = page_cached c \<Longrightarrow>
     page_passes mem c' = page_passes mem c"
  by (simp add: page_passes_def lru_in_def fun_eq_iff)

lemma vr_verify_decides:
  assumes "vr_inv key r"
  shows "\<exists>c'. vr_verify False mem c r =
      (if page_passes mem c key (vr_value r) then Inr (True, c')
       else Inl (if bp_is_leaf (mem key) \<and> lru_in c 0 key \<and> \<not> bt_readable (mem key) then Bounds else Assert_Fail)) \<and>
    page_passes mem c' = page_passes mem c"
proof (cases "lru_in c 0 key")
  case False
  then show ?thesis
    using assms by (auto simp: vr_verify_def vr_inv_def page_passes_def lru_try_load_def assert_res_def)
next
  case True
  obtain cur c' where ld: "lru_try_load False c 0 key = Inr (cur, c')"
      "cur \<noteq> None \<longleftrightarrow> page_cached c key"
      "lc_n c' = lc_n c" "lc_m c' = lc_m c" "page_cached c' = page_cached c"
    using try_load_cached[OF True] by blast
  have ws: "vr_read_set_hash r XOR x = vr_write_set_hash r \<longleftrightarrow> x = vr_old_value_hash r" for x
    using assms(1) by (metis vr_inv_def xor_cancel_left)
  have hs: "h XOR vr_timestamp r = vr_old_value_hash r \<longleftrightarrow> h = vr_value r" for h
    by (metis vr_value_def xor_cancel)
  have "vr_verify False mem c r =
      (if page_passes mem c key (vr_value r) then Inr (True, c')
       else Inl (if bp_is_leaf (mem key) \<and> lru_in c 0 key \<and> \<not> bt_readable (mem key) then Bounds else Assert_Fail))"
    using assms(1) ld(1,2) ws hs True
    by (auto simp: vr_verify_def vr_inv_def Let_def assert_res_def page_passes_def bt_get_hash_def split: option.splits)
  then show ?thesis
    using page_passes_cong[OF ld(3-5)] by blast
qed

text \<open>A verified page that is cached has one more reference afterwards.\<close>

lemma vr_verify_pins:
  assumes "lc_cache c (0, vr_origin_node r) = Some nd" "vr_verify False mem c r = Inr (ok, c')"
  shows "\<exists>nd'. lc_cache c' (0, vr_origin_node r) = Some nd' \<and> cn_read_cnt nd' = cn_read_cnt nd + 1"
  using assms by (auto simp: vr_verify_def lru_try_load_def Let_def res_simps split: if_splits)

text \<open>
  The verdict of a loop or of a whole verification: \<open>res\<close> is the result if all pages pass, and otherwise
  the fault; the fault is an assertion unless some page cannot be read.
\<close>

definition verdict :: "bool \<Rightarrow> bool \<Rightarrow> 'a res \<Rightarrow> 'a \<Rightarrow> bool" where
  "verdict pass readable res x \<longleftrightarrow>
     (if pass then res = Inr x else res = Inl Assert_Fail \<or> (\<not> readable \<and> res = Inl Bounds))"

lemma verdict_if:
  "verdict pass readable res x \<Longrightarrow> (res = Inr x \<Longrightarrow> Q) \<Longrightarrow>
     if pass then Q else res = Inl Assert_Fail \<or> \<not> readable \<and> res = Inl Bounds"
  by (auto simp: verdict_def)

lemma mv_verify_loop_decides:
  assumes "\<forall>i < length rs. \<forall>r. rs ! i = Some r \<longrightarrow> vr_inv (k + of_nat i) r"
  shows "\<exists>c'. verdict (\<forall>i < length rs. \<forall>r. rs ! i = Some r \<longrightarrow> page_passes mem c (k + of_nat i) (vr_value r))
      (\<forall>i < length rs. \<forall>r. rs ! i = Some r \<longrightarrow> bt_readable (mem (k + of_nat i)))
      (mv_verify_loop False mem c rs) (replicate (length rs) None, c')"
  using assms
proof (induction rs arbitrary: k c)
  case (Cons x rs)
  have shift: "(\<forall>i < length (x # rs). \<forall>r. (x # rs) ! i = Some r \<longrightarrow> P (k + of_nat i) r) \<longleftrightarrow>
      (\<forall>r. x = Some r \<longrightarrow> P k r) \<and> (\<forall>i < length rs. \<forall>r. rs ! i = Some r \<longrightarrow> P (k + 1 + of_nat i) r)"
    for P
    by (simp add: All_less_Suc2 add.assoc)
  have tl: "\<forall>i < length rs. \<forall>r. rs ! i = Some r \<longrightarrow> vr_inv (k + 1 + of_nat i) r"
    and hd: "\<forall>r. x = Some r \<longrightarrow> vr_inv k r"
    using Cons.prems shift[of vr_inv] by blast+
  note split = shift[of "\<lambda>q r. page_passes mem c q (vr_value r)"] shift[of "\<lambda>q r. bt_readable (mem q)"]
  show ?case
  proof (cases x)
    case None
    obtain c' where "verdict (\<forall>i < length rs. \<forall>r. rs ! i = Some r \<longrightarrow> page_passes mem c (k + 1 + of_nat i) (vr_value r))
        (\<forall>i < length rs. \<forall>r. rs ! i = Some r \<longrightarrow> bt_readable (mem (k + 1 + of_nat i)))
        (mv_verify_loop False mem c rs) (replicate (length rs) None, c')"
      using Cons.IH[OF tl] by blast
    then show ?thesis
      unfolding split by (intro exI[of _ c']) (auto simp: None verdict_def split: if_splits)
  next
    case (Some r)
    obtain c1 where c1: "vr_verify False mem c r =
        (if page_passes mem c k (vr_value r) then Inr (True, c1)
         else Inl (if bp_is_leaf (mem k) \<and> lru_in c 0 k \<and> \<not> bt_readable (mem k) then Bounds else Assert_Fail))"
        "page_passes mem c1 = page_passes mem c"
      using vr_verify_decides[of k r mem c] hd Some by blast
    obtain c' where "verdict (\<forall>i < length rs. \<forall>r. rs ! i = Some r \<longrightarrow> page_passes mem c (k + 1 + of_nat i) (vr_value r))
        (\<forall>i < length rs. \<forall>r. rs ! i = Some r \<longrightarrow> bt_readable (mem (k + 1 + of_nat i)))
        (mv_verify_loop False mem c1 rs) (replicate (length rs) None, c')"
      using Cons.IH[OF tl, of c1] c1(2) by auto
    then show ?thesis
      unfolding split using hd
      by (intro exI[of _ c']) (auto simp: Some c1(1) verdict_def vr_inv_def split: if_splits)
  qed
qed (simp add: verdict_def)

lemma expected_index:
  assumes "mv_inv mv"
  shows "(\<forall>i < length (mv_updates mv). \<forall>r. mv_updates mv ! i = Some r \<longrightarrow> P (of_nat i) (vr_value r)) \<longleftrightarrow>
    (\<forall>key v. expected mv key = Some v \<longrightarrow> P key v)"
proof (intro iffI allI impI)
  fix key v
  assume *: "\<forall>i < length (mv_updates mv). \<forall>r. mv_updates mv ! i = Some r \<longrightarrow> P (of_nat i) (vr_value r)"
    and "expected mv key = Some v"
  then obtain r where "unat key < length (mv_updates mv)" "mv_updates mv ! unat key = Some r" "v = vr_value r"
    by (auto simp: expected_def split: if_splits)
  with * show "P key v" by fastforce
next
  fix i r
  assume *: "\<forall>key v. expected mv key = Some v \<longrightarrow> P key v"
    and i: "i < length (mv_updates mv)" "mv_updates mv ! i = Some r"
  have "unat (of_nat i :: u64) = i"
    using i assms by (intro unat_of_nat_lt) (simp add: mv_inv_def)
  then have "expected mv (of_nat i) = Some (vr_value r)"
    using i by (simp add: expected_def)
  with * show "P (of_nat i) (vr_value r)" by blast
qed

lemma mv_verification_decides:
  assumes "mv_inv mv" "\<not> mv_verifying mv" "\<not> now - mv_last_verification mv < VERI_BATCH"
  shows "\<exists>c'. verdict (\<forall>key v. expected mv key = Some v \<longrightarrow> page_passes mem c key v)
    (\<forall>key v. expected mv key = Some v \<longrightarrow> bt_readable (mem key))
    (mv_verification False mem c mv now now')
    (True, mv\<lparr>mv_updates := replicate (length (mv_updates mv)) None,
       mv_last_verification := now', mv_verifying := False\<rparr>, c')"
proof -
  have "\<forall>i < length (mv_updates mv). \<forall>r. mv_updates mv ! i = Some r \<longrightarrow> vr_inv (0 + of_nat i) r"
    using assms(1) by (simp add: mv_inv_def)
  from mv_verify_loop_decides[OF this, of mem c]
  obtain c' where "verdict (\<forall>key v. expected mv key = Some v \<longrightarrow> page_passes mem c key v)
    (\<forall>key v. expected mv key = Some v \<longrightarrow> bt_readable (mem key))
    (mv_verify_loop False mem c (mv_updates mv)) (replicate (length (mv_updates mv)) None, c')"
    using expected_index[OF assms(1), of "page_passes mem c"]
      expected_index[OF assms(1), of "\<lambda>key v. bt_readable (mem key)"] by auto
  then show ?thesis
    using assms(2,3) by (intro exI[of _ c']) (auto simp: mv_verification_def verdict_def split: if_splits)
qed

text \<open>
  C20: What a deferred verification decides. After any sequence of page reads and writes on a
  fresh or consistent verifier of fewer than \<open>2 ^ 31\<close> slots, with page ids between 1 and the number of
  slots and a readable page at every write, no access fails, and a verification that is due passes
  exactly when every page with a record is a leaf with an id within the cache, and is cached or hashes
  to the value the verifier expects. Otherwise it stops at an assertion (or, if a recorded
  page claims more entries than it has, possibly at the read beyond them). In particular it stops as
  soon as an inner node has a record. The expected value is the one last written, or, with no
  write, the one of the first read; the values seen by later reads do not matter. A passing
  verification forgets all records.
\<close>

theorem deferred_verification_decides:
  assumes "mv_inv mv" "mv_owned from mv" "\<not> mv_verifying mv"
    and "\<forall>a\<in>set as. 0 < access_key a \<and> unat (access_key a) < length (mv_updates mv) \<and> access_readable a"
  shows "\<exists>mv'. mv_accesses from mv as = Inr mv' \<and>
    expected mv' = foldl expect (expected mv) as \<and>
    (\<forall>now now'. \<not> now - mv_last_verification mv' < VERI_BATCH \<longrightarrow>
      (if \<forall>key v. foldl expect (expected mv) as key = Some v \<longrightarrow>
         bp_is_leaf (mem key) \<and> lru_in c 0 key \<and> (page_cached c key \<or> bt_get_hash (mem key) = Inr v)
       then \<exists>c' mv''. mv_verification False mem c mv' now now' = Inr (True, mv'', c') \<and> expected mv'' = Map.empty
       else mv_verification False mem c mv' now now' = Inl Assert_Fail \<or>
         (\<exists>key v. foldl expect (expected mv) as key = Some v \<and> \<not> bt_readable (mem key)) \<and>
         mv_verification False mem c mv' now now' = Inl Bounds))"
proof -
  obtain mv' where mv': "mv_accesses from mv as = Inr mv'" "mv_inv mv'"
      "length (mv_updates mv') = length (mv_updates mv)" "mv_verifying mv' = mv_verifying mv"
      "expected mv' = foldl expect (expected mv) as"
    using mv_accesses_refines[OF assms(1,2,4)] by blast
  let ?mv'' = "\<lambda>now'. mv'\<lparr>mv_updates := replicate (length (mv_updates mv')) None,
     mv_last_verification := now', mv_verifying := False\<rparr>"
  have "if \<forall>key v. foldl expect (expected mv) as key = Some v \<longrightarrow> page_passes mem c key v
      then \<exists>c' mv''. mv_verification False mem c mv' now now' = Inr (True, mv'', c') \<and> expected mv'' = Map.empty
      else mv_verification False mem c mv' now now' = Inl Assert_Fail \<or>
        (\<exists>key v. foldl expect (expected mv) as key = Some v \<and> \<not> bt_readable (mem key)) \<and>
        mv_verification False mem c mv' now now' = Inl Bounds"
    if due: "\<not> now - mv_last_verification mv' < VERI_BATCH" for now now'
  proof -
    obtain c' where v: "verdict (\<forall>key v. expected mv' key = Some v \<longrightarrow> page_passes mem c key v)
        (\<forall>key v. expected mv' key = Some v \<longrightarrow> bt_readable (mem key))
        (mv_verification False mem c mv' now now') (True, ?mv'' now', c')"
      using mv_verification_decides[OF mv'(2) _ due] mv'(4) assms(3) by blast
    have "expected (?mv'' now') = Map.empty"
      by (auto simp: expected_def fun_eq_iff)
    then have "\<exists>c' mv''. mv_verification False mem c mv' now now' = Inr (True, mv'', c') \<and> expected mv'' = Map.empty"
      if "mv_verification False mem c mv' now now' = Inr (True, ?mv'' now', c')"
      using that by blast
    from verdict_if[OF v this] show ?thesis
      unfolding mv'(5) by (simp only: not_all not_imp) blast
  qed
  then show ?thesis
    using mv'(1,5) unfolding page_passes_def by blast
qed

definition demo_page :: bt_page where
  "demo_page = \<lparr>bp_is_leaf = True, bp_keys = [4, 7], bp_num_keys = 2, bp_rows = [demo_row, demo_row]\<rparr>"

lemma demo_verifier: "mv_inv (mv_init 4 0)" "mv_owned 0 (mv_init 4 0)" "\<not> mv_verifying (mv_init 4 0)"
    "expected (mv_init 4 0) = Map.empty"
  by (auto simp: mv_inv_def mv_owned_def mv_init_def expected_def fun_eq_iff)

lemma demo_page_hash: "bt_readable demo_page" "bt_get_hash demo_page = Inr 2"
  by (simp_all add: bt_get_hash_def bt_readable_def demo_page_def)

theorem deferred_verification_decides_witness:
  "\<exists>mv'. mv_accesses 0 (mv_init 4 0) [Page_Read 2 2, Page_Write 2 5 (\<lambda>_. demo_page), Page_Read 2 9]
      = Inr mv' \<and> expected mv' 2 = Some 5 \<and>
    mv_verification False (\<lambda>_. demo_page) (lru_init 8 1 100 :: nat lru_cache) mv' (mv_last_verification mv' + VERI_BATCH) 0
      = Inl Assert_Fail"
proof -
  let ?as = "[Page_Read 2 2, Page_Write 2 5 (\<lambda>_. demo_page), Page_Read 2 9]"
  let ?c = "lru_init 8 1 100 :: nat lru_cache"
  have keys: "\<forall>a\<in>set ?as. 0 < access_key a \<and> unat (access_key a) < length (mv_updates (mv_init 4 0)) \<and> access_readable a"
    by (simp add: mv_init_def demo_page_hash)
  have ex: "foldl expect (expected (mv_init 4 0)) ?as = [2 \<mapsto> 5]"
    by (simp add: demo_verifier(4))
  have no: "\<not> (\<forall>key v. [2 \<mapsto> 5] key = Some v \<longrightarrow>
      bp_is_leaf demo_page \<and> lru_in ?c 0 key \<and> (page_cached ?c key \<or> bt_get_hash demo_page = Inr v))"
    by (auto simp: page_cached_def lru_init_def demo_page_hash)
  show ?thesis
    using deferred_verification_decides[OF demo_verifier(1-3) keys, of "\<lambda>_. demo_page" ?c] no demo_page_hash(1)
    unfolding ex by (metis (no_types, lifting) fun_upd_same add_diff_cancel_left' order_less_irrefl)
qed

text \<open>
   Tampering between two verifications is not detected. When the verifier has no record of a
  page, as after every passing verification, then whatever leaf the untrusted memory holds for the
  page at the next read becomes the expected value, and the following verification accepts it.
\<close>

theorem deferred_tamper_undetected:
  assumes "mv_inv mv" "mv_owned from mv" "\<not> mv_verifying mv" "expected mv = Map.empty"
    and "0 < key" "unat key < length (mv_updates mv)"
    and "bp_is_leaf (mem key)" "lru_in c 0 key" "bt_get_hash (mem key) = Inr h"
  shows "\<exists>mv'. mv_add_read mv key from h = Inr mv' \<and>
    (\<forall>now now'. \<not> now - mv_last_verification mv' < VERI_BATCH \<longrightarrow>
      (\<exists>mv'' c'. mv_verification False mem c mv' now now' = Inr (True, mv'', c')))"
proof -
  obtain mv' where mv': "mv_accesses from mv [Page_Read key h] = Inr mv'" "mv_inv mv'"
      "length (mv_updates mv') = length (mv_updates mv)" "mv_verifying mv' = mv_verifying mv"
      "expected mv' = foldl expect (expected mv) [Page_Read key h]"
    using mv_accesses_refines[OF assms(1,2), of "[Page_Read key h]"] assms(5,6) by auto
  then have ex: "expected mv' = [key \<mapsto> h]"
    using assms(4) by simp
  have "\<exists>mv'' c'. mv_verification False mem c mv' now now' = Inr (True, mv'', c')"
    if "\<not> now - mv_last_verification mv' < VERI_BATCH" for now now'
    using mv_verification_decides[OF mv'(2) _ that, of mem c now'] mv'(4) assms(3,7-9) ex
    by (auto simp: verdict_def page_passes_def)
  moreover have "mv_add_read mv key from h = Inr mv'"
    using mv'(1) by (cases "mv_add_read mv key from h") auto
  ultimately show ?thesis by blast
qed

theorem deferred_tamper_undetected_witness:
  "\<exists>mv'. mv_add_read (mv_init 4 0) 2 0 2 = Inr mv' \<and> (\<exists>mv'' c'.
     mv_verification False (\<lambda>_. demo_page) (lru_init 8 1 100 :: nat lru_cache)
       mv' (mv_last_verification mv' + VERI_BATCH) 0 = Inr (True, mv'', c'))"
proof -
  let ?c = "lru_init 8 1 100 :: nat lru_cache"
  have "(0 :: u64) < 2" "unat (2 :: u64) < length (mv_updates (mv_init 4 0))" "bp_is_leaf demo_page" "lru_in ?c 0 2"
    by (simp_all add: mv_init_def demo_page_def lru_in_def lru_init_def)
  then show ?thesis
    using deferred_tamper_undetected[OF demo_verifier, of 2 "\<lambda>_. demo_page" ?c 2] demo_page_hash(2)
    by (metis add_diff_cancel_left' order_less_irrefl)
qed

end
