(* ===== verification/Index_Enc.thy ===== *)
theory Index_Enc
  imports Index_Hash Hash_Chain Lru_Cache Latch
begin

text \<open>
  The verifiable hash index of the enclave, \<open>IndexEnc\<close> (\<open>trusted/system/index_enc.h\<close> and
  \<open>index_enc.cpp\<close>, \<open>VERI_TYPE == PAGE_VERI\<close>). A bucket is a page: it lives in the untrusted
  \<open>IndexHash\<close> (\<open>ie_outside\<close>), is copied into the enclave on a read, verified against the
  version chain of the page (\<open>Hash_Chain\<close>), kept in the page cache (\<open>Lru_Cache\<close>), and copied
  back with its new hash recorded when the cache swaps it out.

  Pages in the enclave are shared by pointer between the cache and its users, so they are
  modelled with addresses: \<open>ie_heap\<close> maps addresses to pages, the cache holds addresses. The
  readings \<open>get_enc_time()\<close> of one call are the argument \<open>clk\<close>, in program order. The index
  is that of a read-write node (\<open>enable_lease\<close> and \<open>READ_ONLY\<close> are off), and the configured
  \<open>TAMPER_PERCENTAGE\<close> is zero, so that the simulated tampering is never taken;
  \<open>sync_bucket_from_disk\<close> is a request to the storage server that does not change memory.
  Waiting for another thread is the fault \<open>Blocked\<close>.

  \<open>ie_content\<close> is what the index logically stores. The locale \<open>paged_store\<close> states that loading
  pages is invisible in it.
\<close>

section \<open>Pages in the enclave\<close>

record page_enc =
  pe_nodes :: "bucket_node list"
  pe_latch :: page_latch
  pe_part :: nat
  pe_bkt :: u64

record index_enc =
  ie_cache :: "nat lru_cache"
  ie_heap :: "nat \<rightharpoonup> page_enc"
  ie_next :: nat
  ie_verify_hash :: "nat \<times> u64 \<Rightarrow> hash_chain"
  ie_flush_time :: "nat \<times> u64 \<Rightarrow> u64"
  ie_outside :: "nat \<times> u64 \<Rightarrow> bucket_header"
  ie_bucket_cnt :: u64
  ie_init_ts :: u64
  ie_name :: string

abbreviation SYNC_VERSION_BATCH :: u64 where
  "SYNC_VERSION_BATCH \<equiv> 16"

abbreviation VACCUM_TRIGGER :: u32 where
  "VACCUM_TRIGGER \<equiv> 128"

definition ie_init :: "u64 \<Rightarrow> nat \<Rightarrow> u64 \<Rightarrow> string \<Rightarrow> (nat \<times> u64 \<Rightarrow> bucket_header) \<Rightarrow> index_enc" where
  "ie_init bucket_cnt part_cnt limit name outside =
     \<lparr>ie_cache = lru_init bucket_cnt part_cnt limit, ie_heap = Map.empty, ie_next = 0,
      ie_verify_hash = (\<lambda>_. hc_new), ie_flush_time = (\<lambda>_. 0), ie_outside = outside,
      ie_bucket_cnt = bucket_cnt div of_nat part_cnt, ie_init_ts = 0, ie_name = name\<rparr>"

definition ie_init_times :: "index_enc \<Rightarrow> u64 \<Rightarrow> index_enc" where
  "ie_init_times ie now = ie\<lparr>ie_flush_time := (\<lambda>_. 0), ie_init_ts := now\<rparr>"

text \<open>
  Copying a page copies the tuple bytes, table, key and row id of every row; the partition id
  is the argument (going out) or whatever the new object holds (coming in).
\<close>

definition row_dup :: "u64 \<Rightarrow> row \<Rightarrow> row" where
  "row_dup part r = r\<lparr>r_part_id := part, r_data := take (tuple_size r) (r_data r)\<rparr>"

definition nodes_dup :: "u64 \<Rightarrow> bucket_node list \<Rightarrow> bucket_node list" where
  "nodes_dup part ns = map (\<lambda>n. n\<lparr>bn_items := map (row_dup part) (bn_items n)\<rparr>) ns"

section \<open>Swapping out\<close>

definition ie_flush_out :: "u64 \<Rightarrow> index_enc \<Rightarrow> nat \<Rightarrow> u64 \<Rightarrow> page_enc \<Rightarrow> index_enc res" where
  "ie_flush_out now ie p b pg =
     (let res = nodes_dup (of_nat p) (pe_nodes pg);
          ie1 = ie\<lparr>ie_flush_time := (ie_flush_time ie)((p, b) := now)\<rparr> in
      if bh_locked (ie_outside ie (p, b)) then Inl Blocked
      else assert_res (bucket_hash (pe_nodes pg) = bucket_hash res)
        (Inr (ie1\<lparr>ie_outside := (ie_outside ie)((p, b) :=
           \<lparr>bh_nodes = res, bh_node_cnt = 0, bh_locked = False\<rparr>)\<rparr>)))"

definition ie_swap_out :: "(nat \<Rightarrow> u64) \<Rightarrow> index_enc \<Rightarrow> nat \<times> nat \<times> u64 \<Rightarrow> index_enc res" where
  "ie_swap_out clk ie sw =
     (let (a, p, b) = sw in
      case ie_heap ie a of
        None \<Rightarrow> Inl Null_Deref
      | Some pg \<Rightarrow>
          bind_res (latch_node (pe_latch pg) LATCH_EX) (\<lambda>(ok, l).
            if \<not> ok then Inl Blocked
            else
              bind_res (hc_set_tail_value (ie_verify_hash ie (p, b)) (bucket_hash (pe_nodes pg))) (\<lambda>c1.
              bind_res (hc_set_tail_ts c1 (clk 0)) (\<lambda>c2.
              bind_res (ie_flush_out (clk 1) (ie\<lparr>ie_verify_hash := (ie_verify_hash ie)((p, b) := c2)\<rparr>)
                  p b (pg\<lparr>pe_latch := l\<rparr>)) (\<lambda>ie'.
                Inr (ie'\<lparr>ie_heap := (ie_heap ie')(a := None)\<rparr>))))))"

section \<open>Loading\<close>

definition page_bytes :: "bucket_node list \<Rightarrow> u32" where
  "page_bytes ns = of_nat (length (concat (map bn_items ns))) * 1024"

text \<open>The check of a freshly loaded page against its version chain.\<close>

definition ie_check :: "u64 \<Rightarrow> index_enc \<Rightarrow> nat \<times> u64 \<Rightarrow> u64 \<Rightarrow> index_enc res" where
  "ie_check now ie k h =
     bind_res (hc_empty (ie_verify_hash ie k)) (\<lambda>e.
       if e then bind_res (hc_insert (ie_verify_hash ie k) now h) (\<lambda>c.
           Inr (ie\<lparr>ie_verify_hash := (ie_verify_hash ie)(k := c)\<rparr>))
       else bind_res (hc_get (ie_verify_hash ie k) now) (\<lambda>(v, len, rts).
           assert_res (v = h) (Inr ie)))"

definition ie_load_miss ::
  "u64 \<Rightarrow> (nat \<Rightarrow> u64) \<Rightarrow> index_enc \<Rightarrow> nat \<Rightarrow> u64 \<Rightarrow> (nat \<times> index_enc) res" where
  "ie_load_miss junk clk ie p b =
     (let ft = (if ie_flush_time ie (p, b) = 0 then ie_init_ts ie else ie_flush_time ie (p, b));
          out = ie_outside ie (p, b);
          nodes = nodes_dup junk (bh_nodes out);
          a = ie_next ie;
          ie1 = ie\<lparr>ie_flush_time := (ie_flush_time ie)((p, b) := ft),
                  ie_heap := (ie_heap ie)(a \<mapsto> \<lparr>pe_nodes = nodes, pe_latch = latch_free,
                     pe_part = p, pe_bkt = b\<rparr>),
                  ie_next := Suc a\<rparr> in
      if bh_locked out then Inl Blocked
      else assert_res (bucket_hash nodes = bucket_hash (bh_nodes out))
        (bind_res (lru_load_and_swap False (ie_cache ie) p b (page_bytes nodes) a) (\<lambda>(rc, sw, cur, c').
           if rc \<noteq> RCOK then Inl Blocked
           else bind_res (case sw of None \<Rightarrow> Inr (ie1\<lparr>ie_cache := c'\<rparr>)
                  | Some x \<Rightarrow> ie_swap_out clk (ie1\<lparr>ie_cache := c'\<rparr>) x) (\<lambda>ie2.
             if cur \<noteq> a then Inr (cur, ie2\<lparr>ie_heap := (ie_heap ie2)(a := None)\<rparr>)
             else bind_res (ie_check (clk 2) ie2 (p, b) (bucket_hash nodes)) (\<lambda>ie3. Inr (a, ie3))))))"

definition load_bucket ::
  "u64 \<Rightarrow> (nat \<Rightarrow> u64) \<Rightarrow> index_enc \<Rightarrow> nat \<Rightarrow> u64 \<Rightarrow> (nat \<times> index_enc) res" where
  "load_bucket junk clk ie p b =
     bind_res (lru_try_load False (ie_cache ie) p b) (\<lambda>(cur, c').
       case cur of
         Some a \<Rightarrow> bind_res (hc_get (ie_verify_hash ie (p, b)) (clk 0)) (\<lambda>_. Inr (a, ie\<lparr>ie_cache := c'\<rparr>))
       | None \<Rightarrow> ie_load_miss junk clk (ie\<lparr>ie_cache := c'\<rparr>) p b)"

definition release_up_cache :: "index_enc \<Rightarrow> nat \<Rightarrow> index_enc res" where
  "release_up_cache ie a =
     (case ie_heap ie a of None \<Rightarrow> Inl Null_Deref
      | Some pg \<Rightarrow> bind_res (lru_release (ie_cache ie) (pe_part pg) (pe_bkt pg)) (\<lambda>c.
          Inr (ie\<lparr>ie_cache := c\<rparr>)))"

section \<open>Operations of the index\<close>

definition ie_hash :: "index_enc \<Rightarrow> idx_key_t \<Rightarrow> u64" where
  "ie_hash ie key = key mod ie_bucket_cnt ie"

text \<open>Inserting through the enclave is not supported: the method starts with \<open>assert(false)\<close>.\<close>

definition ie_index_insert :: "index_enc \<Rightarrow> idx_key_t \<Rightarrow> row \<Rightarrow> nat \<Rightarrow> index_enc res" where
  "ie_index_insert ie key item part_id = Inl Assert_Fail"

text \<open>
  The trusted \<open>read_item\<close> returns the null item for a missing key. The page stays referenced in
  the cache until the transaction calls \<open>release_up_cache\<close>.
\<close>

definition read_item_enc :: "bucket_node list \<Rightarrow> idx_key_t \<Rightarrow> row list option" where
  "read_item_enc ns key = map_option bn_items (find_node ns key)"

definition ie_index_read ::
  "u64 \<Rightarrow> (nat \<Rightarrow> u64) \<Rightarrow> index_enc \<Rightarrow> string \<Rightarrow> idx_key_t \<Rightarrow> nat \<Rightarrow> (row list option \<times> nat \<times> index_enc) res" where
  "ie_index_read junk clk ie iname key part_id =
     (let b = ie_hash ie key in
      assert_res (b < ie_bucket_cnt ie) (assert_res (iname = ie_name ie)
        (bind_res (load_bucket junk clk ie part_id b) (\<lambda>(a, ie1).
          case ie_heap ie1 a of
            None \<Rightarrow> Inl Null_Deref
          | Some pg \<Rightarrow>
              bind_res (latch_node (pe_latch pg) LATCH_SH) (\<lambda>(ok, l).
                if \<not> ok then Inl Blocked
                else bind_res (release_latch l) (\<lambda>(t, l').
                  assert_res (t = LATCH_SH)
                    (Inr (read_item_enc (pe_nodes pg) key, a,
                      ie1\<lparr>ie_heap := (ie_heap ie1)(a \<mapsto> pg\<lparr>pe_latch := l'\<rparr>)\<rparr>))))))))"

text \<open>
  \<open>sync_version\<close> after a commit: the newest version gets the commit timestamp, and every
  sixteenth time the hash is sent to the other nodes (the message is part of the result).
\<close>

definition sync_version ::
  "index_enc \<Rightarrow> nat \<Rightarrow> u64 \<Rightarrow> bool \<Rightarrow> ((nat \<times> u64 \<times> u64 \<times> u64) option \<times> index_enc) res" where
  "sync_version ie a commit_t updated =
     (case ie_heap ie a of
        None \<Rightarrow> Inl Null_Deref
      | Some pg \<Rightarrow>
          let k = (pe_part pg, pe_bkt pg) in
          if \<not> updated then Inr (None, ie)
          else bind_res (hc_set_tail_ts (ie_verify_hash ie k) commit_t) (\<lambda>c.
            let cnt = hc_batch_cnt c + 1 in
            if cnt \<noteq> SYNC_VERSION_BATCH
            then Inr (None, ie\<lparr>ie_verify_hash := (ie_verify_hash ie)(k := c\<lparr>hc_batch_cnt := cnt\<rparr>)\<rparr>)
            else Inr (Some (pe_part pg, pe_bkt pg, bucket_hash (pe_nodes pg), commit_t),
                ie\<lparr>ie_verify_hash := (ie_verify_hash ie)(k := c\<lparr>hc_batch_cnt := 0\<rparr>)\<rparr>)))"

text \<open>\<open>update_verify_hash\<close>: a version announced by another node; \<open>min_begin\<close> is \<open>MIN_BEGIN_TS()\<close>.\<close>

definition update_verify_hash ::
  "u64 \<Rightarrow> (nat \<Rightarrow> u64) \<Rightarrow> index_enc \<Rightarrow> nat \<Rightarrow> u64 \<Rightarrow> u64 \<Rightarrow> u64 \<Rightarrow> u64 \<Rightarrow> index_enc res" where
  "update_verify_hash junk clk ie p b h ts min_begin =
     bind_res (load_bucket junk clk ie p b) (\<lambda>(a, ie1).
       case ie_heap ie1 a of
         None \<Rightarrow> Inl Null_Deref
       | Some pg \<Rightarrow>
           bind_res (latch_node (pe_latch pg) LATCH_EX) (\<lambda>(ok, l).
             if \<not> ok then Inl Blocked
             else bind_res (hc_insert (ie_verify_hash ie1 (p, b)) ts h) (\<lambda>c.
               bind_res (if VACCUM_TRIGGER < hc_size c then hc_vaccum c min_begin else Inr c) (\<lambda>c'.
                 bind_res (release_latch l) (\<lambda>(t, l').
                   assert_res (t = LATCH_EX)
                     (release_up_cache (ie1\<lparr>ie_verify_hash := (ie_verify_hash ie1)((p, b) := c'),
                        ie_heap := (ie_heap ie1)(a \<mapsto> pg\<lparr>pe_latch := l'\<rparr>)\<rparr>) a))))))"

section \<open>The logical content\<close>

definition erase_row :: "row \<Rightarrow> u64 \<times> u64 \<times> bytes \<times> table_t" where
  "erase_row r = (r_primary_key r, r_row_id r, take (tuple_size r) (r_data r), r_table r)"

definition erase_nodes :: "bucket_node list \<Rightarrow> (idx_key_t \<times> (u64 \<times> u64 \<times> bytes \<times> table_t) list) list" where
  "erase_nodes ns = map (\<lambda>n. (bn_key n, map erase_row (bn_items n))) ns"

definition ie_nodes :: "index_enc \<Rightarrow> nat \<times> u64 \<Rightarrow> bucket_node list" where
  "ie_nodes ie k =
     (case lc_cache (ie_cache ie) k of
        None \<Rightarrow> bh_nodes (ie_outside ie k)
      | Some nd \<Rightarrow> (case ie_heap ie (cn_value nd) of None \<Rightarrow> [] | Some pg \<Rightarrow> pe_nodes pg))"

definition ie_content where
  "ie_content ie k = erase_nodes (ie_nodes ie k)"

definition chain_ok :: "u64 \<Rightarrow> hash_chain \<Rightarrow> bool" where
  "chain_ok t c \<longleftrightarrow> \<not> hc_latch c \<and> hc_size c = of_nat (length (hc_items c)) \<and>
     length (hc_items c) < 2 ^ 32 \<and> (hc_items c \<noteq> [] \<longrightarrow> hi_ts (last (hc_items c)) \<le> t)"

text \<open>
  The invariant between two operations at time \<open>t\<close>: the cache is well-formed and points to live
  pages that are recorded in their chains; nothing is latched.
\<close>

definition ie_base :: "u64 \<Rightarrow> index_enc \<Rightarrow> bool" where
  "ie_base t ie \<longleftrightarrow> lru_inv (ie_cache ie) \<and> \<not> lc_locked (ie_cache ie) \<and>
     (\<forall>k. chain_ok t (ie_verify_hash ie k)) \<and> (\<forall>k. \<not> bh_locked (ie_outside ie k)) \<and>
     (\<forall>k nd. lc_cache (ie_cache ie) k = Some nd \<longrightarrow> cn_value nd < ie_next ie \<and>
        hc_items (ie_verify_hash ie k) \<noteq> [] \<and>
        (\<exists>pg. ie_heap ie (cn_value nd) = Some pg \<and> pe_latch pg = latch_free \<and> (pe_part pg, pe_bkt pg) = k))"

text \<open>
  The untrusted copy of a page is honest when it is what the enclave last wrote out, as far as
  the recorded hash can tell.
\<close>

definition honest :: "index_enc \<Rightarrow> nat \<times> u64 \<Rightarrow> bool" where
  "honest ie k \<longleftrightarrow> (lc_cache (ie_cache ie) k = None \<longrightarrow> hc_items (ie_verify_hash ie k) \<noteq> [] \<longrightarrow>
     hi_value (last (hc_items (ie_verify_hash ie k))) = bucket_hash (bh_nodes (ie_outside ie k)))"

lemma row_hash_dup [simp]: "row_hash (row_dup p r) = row_hash r"
  by (simp add: row_hash_def row_dup_def)

lemma bucket_hash_dup [simp]: "bucket_hash (nodes_dup p ns) = bucket_hash ns"
proof -
  have rows: "rows_hash (map (row_dup p) rs) = rows_hash rs" for rs
    by (induction rs) simp_all
  have "concat (map bn_items (nodes_dup p ns)) = map (row_dup p) (concat (map bn_items ns))"
    by (induction ns) (simp_all add: nodes_dup_def)
  then show ?thesis
    by (simp add: bucket_hash_rows rows)
qed

lemma erase_dup [simp]: "erase_nodes (nodes_dup p ns) = erase_nodes ns"
  by (simp add: erase_nodes_def nodes_dup_def erase_row_def row_dup_def)

lemma chain_ok_mono: "chain_ok t c \<Longrightarrow> t \<le> t' \<Longrightarrow> chain_ok t' c"
  by (auto simp: chain_ok_def)

lemma chain_ok_size: "chain_ok t c \<Longrightarrow> hc_size c = 0 \<longleftrightarrow> hc_items c = []"
  by (auto simp: chain_ok_def word_unat_eq_iff unat_of_nat_lt)

lemma hc_empty_eq: "chain_ok t c \<Longrightarrow> hc_empty c = Inr (hc_items c = [])"
  using chain_ok_size[of t c] by (simp add: hc_empty_def hc_locked_def chain_ok_def)

lemma hc_get_tail:
  assumes "chain_ok t c" "hc_items c \<noteq> []" "t \<le> ts"
  shows "\<exists>l r. hc_get c ts = Inr (hi_value (last (hc_items c)), l, r)"
proof -
  have "hi_ts (last (hc_items c)) \<le> ts"
    using assms by (auto simp: chain_ok_def)
  moreover have "hc_size c \<noteq> 0"
    using chain_ok_size[OF assms(1)] assms(2) by simp
  ultimately show ?thesis
    using assms(1,2) by (cases "hc_items c") (auto simp: hc_get_def hc_locked_def chain_ok_def)
qed

lemma hc_insert_first:
  assumes "chain_ok t c" "hc_items c = []"
  shows "hc_insert c ts v = Inr (c\<lparr>hc_items := [new_item ts v], hc_size := 1\<rparr>)"
  using assms by (simp add: hc_insert_def hc_locked_def chain_ok_def)

text \<open>The chain of a page that was swapped out at time \<open>ts\<close> with hash \<open>h\<close>.\<close>

definition retail :: "hash_chain \<Rightarrow> u64 \<Rightarrow> u64 \<Rightarrow> hash_chain" where
  "retail c h ts = c\<lparr>hc_items := butlast (hc_items c) @ [\<lparr>hi_value = h, hi_ts = ts\<rparr>]\<rparr>"

lemma set_tail_eq:
  assumes "hc_items c \<noteq> []"
  shows "bind_res (hc_set_tail_value c h) (\<lambda>c1. hc_set_tail_ts c1 ts) = Inr (retail c h ts)"
proof -
  obtain xs x where c: "hc_items c = xs @ [x]"
    using assms by (metis rev_exhaust)
  then show ?thesis
    by (cases xs) (simp_all add: hc_set_tail_value_def hc_set_tail_ts_def retail_def)
qed

lemma chain_ok_retail: "chain_ok t c \<Longrightarrow> hc_items c \<noteq> [] \<Longrightarrow> ts \<le> t' \<Longrightarrow> chain_ok t' (retail c h ts)"
  by (simp add: chain_ok_def retail_def)

lemma retail_sel [simp]: "hc_items (retail c h ts) \<noteq> []" "hi_value (last (hc_items (retail c h ts))) = h"
  by (simp_all add: retail_def)

lemma ie_swap_out_eq:
  assumes "ie_heap ie a = Some pg" "pe_latch pg = latch_free"
    and "hc_items (ie_verify_hash ie (p, b)) \<noteq> []" "\<not> bh_locked (ie_outside ie (p, b))"
  shows "ie_swap_out clk ie (a, p, b) = Inr (ie
    \<lparr>ie_verify_hash := (ie_verify_hash ie)((p, b) :=
       retail (ie_verify_hash ie (p, b)) (bucket_hash (pe_nodes pg)) (clk 0)),
     ie_flush_time := (ie_flush_time ie)((p, b) := clk 1),
     ie_outside := (ie_outside ie)((p, b) :=
       \<lparr>bh_nodes = nodes_dup (of_nat p) (pe_nodes pg), bh_node_cnt = 0, bh_locked = False\<rparr>),
     ie_heap := (ie_heap ie)(a := None)\<rparr>)"
proof -
  obtain c1 where c1: "hc_set_tail_value (ie_verify_hash ie (p, b)) (bucket_hash (pe_nodes pg)) = Inr c1"
      "hc_set_tail_ts c1 (clk 0) = Inr (retail (ie_verify_hash ie (p, b)) (bucket_hash (pe_nodes pg)) (clk 0))"
    using set_tail_eq[OF assms(3), of "bucket_hash (pe_nodes pg)" "clk 0"] by (auto simp: res_simps)
  show ?thesis
    using assms(1,2,4) c1
    by (simp add: ie_swap_out_def ie_flush_out_def latch_node_def latch_free_def)
qed

lemma lru_swap_miss:
  assumes "lc_cache c (p, b) = None" "lru_in c p b" "\<not> lc_locked c"
  shows "lru_load_and_swap False c p b sz v =
    (if lc_limit c < lc_cached_bytes c + ucast sz
     then (case cache_free c of
         (None, c') \<Rightarrow> Inr (Abort, None, v, c')
       | (Some sw, c') \<Rightarrow> Inr (RCOK, Some sw, v, c'\<lparr>lc_timestamp := lc_timestamp c + 1,
           lc_cache := (lc_cache c')((p, b) \<mapsto> cache_node_new (lc_timestamp c + 1) v sz)\<rparr>))
     else Inr (RCOK, None, v, c\<lparr>lc_cached_bytes := lc_cached_bytes c + ucast sz,
       lc_timestamp := lc_timestamp c + 1,
       lc_cache := (lc_cache c)((p, b) \<mapsto> cache_node_new (lc_timestamp c + 1) v sz)\<rparr>))"
  using assms by (simp add: lru_load_and_swap_def Let_def)

lemma page_bytes_dup [simp]: "page_bytes (nodes_dup p ns) = page_bytes ns"
proof -
  have "length (concat (map bn_items (nodes_dup p ns))) = length (concat (map bn_items ns))"
    by (induction ns) (simp_all add: nodes_dup_def)
  then show ?thesis by (simp add: page_bytes_def)
qed

text \<open>The state after swapping out, and after installing a page, of which loading is composed.\<close>

definition swapped :: "(nat \<Rightarrow> u64) \<Rightarrow> index_enc \<Rightarrow> nat lru_cache \<Rightarrow> nat \<Rightarrow> nat \<times> u64 \<Rightarrow> page_enc \<Rightarrow> index_enc" where
  "swapped clk ie c0 a k pg = ie
    \<lparr>ie_cache := c0,
     ie_verify_hash := (ie_verify_hash ie)(k :=
       retail (ie_verify_hash ie k) (bucket_hash (pe_nodes pg)) (clk 0)),
     ie_flush_time := (ie_flush_time ie)(k := clk 1),
     ie_outside := (ie_outside ie)(k :=
       \<lparr>bh_nodes = nodes_dup (of_nat (fst k)) (pe_nodes pg), bh_node_cnt = 0, bh_locked = False\<rparr>),
     ie_heap := (ie_heap ie)(a := None)\<rparr>"

definition installed ::
  "index_enc \<Rightarrow> nat lru_cache \<Rightarrow> (nat \<times> u64 \<Rightarrow> u64) \<Rightarrow> nat \<times> u64 \<Rightarrow> u64 \<Rightarrow> hash_chain \<Rightarrow> index_enc" where
  "installed ie c' F k junk ch = ie
    \<lparr>ie_cache := c', ie_flush_time := F, ie_next := Suc (ie_next ie),
     ie_heap := (ie_heap ie)(ie_next ie \<mapsto> \<lparr>pe_nodes = nodes_dup junk (bh_nodes (ie_outside ie k)),
       pe_latch = latch_free, pe_part = fst k, pe_bkt = snd k\<rparr>),
     ie_verify_hash := (ie_verify_hash ie)(k := ch)\<rparr>"

lemma installed_inv:
  assumes "ie_base t ie" "lc_cache (ie_cache ie) k = None" "t \<le> T"
    and "lru_inv c'" "\<not> lc_locked c'" "lc_cache c' = (lc_cache (ie_cache ie))(k \<mapsto> nd)"
    and "cn_value nd = ie_next ie" "chain_ok T ch" "hc_items ch \<noteq> []"
  shows "ie_base T (installed ie c' F k junk ch)"
    and "ie_content (installed ie c' F k junk ch) = ie_content ie"
    and "honest ie k' \<Longrightarrow> honest (installed ie c' F k junk ch) k'"
proof -
  note base = assms(1)[unfolded ie_base_def]
  have chains: "chain_ok T (ie_verify_hash ie k)" for k
    using base assms(3) chain_ok_mono by blast
  have old: "cn_value nd' \<noteq> ie_next ie \<and> cn_value nd' < Suc (ie_next ie) \<and>
      hc_items (ie_verify_hash ie k1) \<noteq> [] \<and>
      (\<exists>pg. ie_heap ie (cn_value nd') = Some pg \<and> pe_latch pg = latch_free \<and> (pe_part pg, pe_bkt pg) = k1)"
    if "lc_cache (ie_cache ie) k1 = Some nd'" for k1 nd'
    using base that by fastforce
  show "ie_base T (installed ie c' F k junk ch)"
    unfolding ie_base_def
  proof (intro conjI allI impI)
    fix k1 nd'
    assume *: "lc_cache (ie_cache (installed ie c' F k junk ch)) k1 = Some nd'"
    show "cn_value nd' < ie_next (installed ie c' F k junk ch)"
      "hc_items (ie_verify_hash (installed ie c' F k junk ch) k1) \<noteq> []"
      "\<exists>pg. ie_heap (installed ie c' F k junk ch) (cn_value nd') = Some pg \<and> pe_latch pg = latch_free \<and>
        (pe_part pg, pe_bkt pg) = k1"
      using * old[of k1 nd'] assms(6,7,9) by (auto simp: installed_def split: if_splits)
  qed (use assms(4,5,8) base chains in \<open>auto simp: installed_def\<close>)
  show "ie_content (installed ie c' F k junk ch) = ie_content ie"
  proof
    fix k1
    show "ie_content (installed ie c' F k junk ch) k1 = ie_content ie k1"
      using assms(2,6,7) old[of k1]
      by (cases "lc_cache (ie_cache ie) k1")
        (auto simp: ie_content_def ie_nodes_def installed_def)
  qed
  show "honest ie k' \<Longrightarrow> honest (installed ie c' F k junk ch) k'"
    using assms(6) by (auto simp: honest_def installed_def)
qed

lemma swapped_inv:
  assumes "ie_base t ie" "t \<le> clk 0" "lru_inv c0" "\<not> lc_locked c0"
    and "lc_cache c0 = (lc_cache (ie_cache ie))(k := None)" "lc_cache (ie_cache ie) k = Some nd"
    and "ie_heap ie (cn_value nd) = Some pg"
  shows "ie_base (clk 0) (swapped clk ie c0 (cn_value nd) k pg)"
    and "ie_content (swapped clk ie c0 (cn_value nd) k pg) = ie_content ie"
    and "honest ie k' \<Longrightarrow> honest (swapped clk ie c0 (cn_value nd) k pg) k'"
proof -
  note base = assms(1)[unfolded ie_base_def]
  have chains: "chain_ok (clk 0) (ie_verify_hash ie k)" for k
    using base assms(2) chain_ok_mono by blast
  have keys: "(pe_part pg, pe_bkt pg) = k" "hc_items (ie_verify_hash ie k) \<noteq> []"
    using base assms(6,7) by fastforce+
  have old: "cn_value nd' < ie_next ie \<and> hc_items (ie_verify_hash ie k1) \<noteq> [] \<and>
      cn_value nd' \<noteq> cn_value nd \<and>
      (\<exists>pg. ie_heap ie (cn_value nd') = Some pg \<and> pe_latch pg = latch_free \<and> (pe_part pg, pe_bkt pg) = k1)"
    if "lc_cache (ie_cache ie) k1 = Some nd'" "k1 \<noteq> k" for k1 nd'
    using base that keys(1) assms(7) by fastforce
  show "ie_base (clk 0) (swapped clk ie c0 (cn_value nd) k pg)"
    unfolding ie_base_def
  proof (intro conjI allI impI)
    fix k1 nd'
    assume *: "lc_cache (ie_cache (swapped clk ie c0 (cn_value nd) k pg)) k1 = Some nd'"
    show "cn_value nd' < ie_next (swapped clk ie c0 (cn_value nd) k pg)"
      "hc_items (ie_verify_hash (swapped clk ie c0 (cn_value nd) k pg) k1) \<noteq> []"
      "\<exists>pg'. ie_heap (swapped clk ie c0 (cn_value nd) k pg) (cn_value nd') = Some pg' \<and>
        pe_latch pg' = latch_free \<and> (pe_part pg', pe_bkt pg') = k1"
      using * old[of k1 nd'] assms(5) by (auto simp: swapped_def split: if_splits)
  qed (use assms(3,4) base chains chain_ok_retail[OF chains keys(2) order_refl] in \<open>auto simp: swapped_def\<close>)
  show "ie_content (swapped clk ie c0 (cn_value nd) k pg) = ie_content ie"
  proof
    fix k1
    show "ie_content (swapped clk ie c0 (cn_value nd) k pg) k1 = ie_content ie k1"
      using assms(5-7) old[of k1]
      by (cases "lc_cache (ie_cache ie) k1")
        (auto simp: ie_content_def ie_nodes_def swapped_def)
  qed
  show "honest ie k' \<Longrightarrow> honest (swapped clk ie c0 (cn_value nd) k pg) k'"
    using assms(5) by (auto simp: honest_def swapped_def)
qed

section \<open>What a load does\<close>

definition ie_full :: "index_enc \<Rightarrow> nat \<times> u64 \<Rightarrow> bool" where
  "ie_full ie k \<longleftrightarrow>
     lc_limit (ie_cache ie) < lc_cached_bytes (ie_cache ie) +
        ucast (page_bytes (bh_nodes (ie_outside ie k))) \<and> fst (cache_free (ie_cache ie)) = None"

definition recorded :: "index_enc \<Rightarrow> nat \<times> u64 \<rightharpoonup> u64" where
  "recorded ie k = (if hc_items (ie_verify_hash ie k) = [] then None
     else Some (hi_value (last (hc_items (ie_verify_hash ie k)))))"

lemma ie_check_eq:
  assumes "chain_ok t (ie_verify_hash ie k)" "t \<le> now"
  shows "ie_check now ie k h = (case recorded ie k of
     None \<Rightarrow> Inr (ie\<lparr>ie_verify_hash := (ie_verify_hash ie)(k :=
       (ie_verify_hash ie k)\<lparr>hc_items := [new_item now h], hc_size := 1\<rparr>)\<rparr>)
   | Some v \<Rightarrow> if v = h then Inr (ie\<lparr>ie_verify_hash := (ie_verify_hash ie)(k := ie_verify_hash ie k)\<rparr>)
       else Inl Assert_Fail)"
  using assms hc_empty_eq[OF assms(1)] hc_insert_first[OF assms(1), of now h]
    hc_get_tail[OF assms(1) _ assms(2)]
  by (auto simp: ie_check_def recorded_def)

text \<open>The loading of a page as the composition of its effects.\<close>

lemma ie_load_miss_room:
  assumes "ie_base t ie" "lc_cache (ie_cache ie) (p, b) = None" "lru_in (ie_cache ie) p b"
    and "\<not> lc_limit (ie_cache ie) < lc_cached_bytes (ie_cache ie) +
        ucast (page_bytes (bh_nodes (ie_outside ie (p, b))))"
    and "lc_timestamp (ie_cache ie) < UINT64_MAX"
  shows "\<exists>c' nd F. lru_inv c' \<and> \<not> lc_locked c' \<and> lc_cache c' = (lc_cache (ie_cache ie))((p, b) \<mapsto> nd) \<and>
     cn_value nd = ie_next ie \<and> ie_load_miss junk clk ie p b =
       bind_res (ie_check (clk 2) (installed ie c' F (p, b) junk (ie_verify_hash ie (p, b))) (p, b)
         (bucket_hash (bh_nodes (ie_outside ie (p, b))))) (\<lambda>ie3. Inr (ie_next ie, ie3))"
proof -
  let ?c = "ie_cache ie"
  let ?sz = "page_bytes (bh_nodes (ie_outside ie (p, b)))"
  let ?nd = "cache_node_new (lc_timestamp ?c + 1) (ie_next ie) ?sz"
  let ?c' = "?c\<lparr>lc_cached_bytes := lc_cached_bytes ?c + ucast ?sz, lc_timestamp := lc_timestamp ?c + 1,
       lc_cache := (lc_cache ?c)((p, b) \<mapsto> ?nd)\<rparr>"
  let ?F = "(ie_flush_time ie)((p, b) :=
    (if ie_flush_time ie (p, b) = 0 then ie_init_ts ie else ie_flush_time ie (p, b)))"
  have base: "\<not> lc_locked ?c" "lru_inv ?c" "\<not> bh_locked (ie_outside ie (p, b))"
    using assms(1) by (simp_all add: ie_base_def)
  have swap: "lru_load_and_swap False ?c p b ?sz (ie_next ie) = Inr (RCOK, None, ie_next ie, ?c')"
    using lru_swap_miss[OF assms(2,3) base(1)] assms(4) by simp
  have "lru_inv ?c'"
    using lru_inv_load_and_swap[OF base(2) assms(5) swap] .
  moreover have "ie\<lparr>ie_flush_time := ?F, ie_heap := (ie_heap ie)(ie_next ie \<mapsto>
        \<lparr>pe_nodes = nodes_dup junk (bh_nodes (ie_outside ie (p, b))), pe_latch = latch_free,
         pe_part = p, pe_bkt = b\<rparr>), ie_next := Suc (ie_next ie), ie_cache := ?c'\<rparr>
      = installed ie ?c' ?F (p, b) junk (ie_verify_hash ie (p, b))"
    by (rule index_enc.equality) (simp_all add: installed_def)
  then have "ie_load_miss junk clk ie p b =
       bind_res (ie_check (clk 2) (installed ie ?c' ?F (p, b) junk (ie_verify_hash ie (p, b))) (p, b)
         (bucket_hash (bh_nodes (ie_outside ie (p, b))))) (\<lambda>ie3. Inr (ie_next ie, ie3))"
    using base(3) swap unfolding ie_load_miss_def Let_def
    by (simp del: fun_upd_apply)
  ultimately show ?thesis
    using base(1) by (intro exI[of _ ?c'] exI[of _ ?nd] exI[of _ ?F]) (simp add: cache_node_new_def)
qed

lemma ie_load_miss_evict:
  assumes "ie_base t ie" "lc_cache (ie_cache ie) (p, b) = None" "lru_in (ie_cache ie) p b"
    and "lc_limit (ie_cache ie) < lc_cached_bytes (ie_cache ie) +
        ucast (page_bytes (bh_nodes (ie_outside ie (p, b))))"
    and "lc_timestamp (ie_cache ie) < UINT64_MAX"
    and "cache_free (ie_cache ie) = (Some (sa, sp, sb), c0)"
  shows "\<exists>c' nd nds pg F. lru_inv c0 \<and> \<not> lc_locked c0 \<and>
     lc_cache c0 = (lc_cache (ie_cache ie))((sp, sb) := None) \<and>
     lc_cache (ie_cache ie) (sp, sb) = Some nds \<and> cn_value nds = sa \<and> ie_heap ie sa = Some pg \<and>
     lru_inv c' \<and> \<not> lc_locked c' \<and> lc_cache c' = (lc_cache c0)((p, b) \<mapsto> nd) \<and>
     cn_value nd = ie_next ie \<and> ie_load_miss junk clk ie p b =
       bind_res (ie_check (clk 2) (installed (swapped clk ie c0 sa (sp, sb) pg) c' F (p, b) junk
           (ie_verify_hash ie (p, b))) (p, b)
         (bucket_hash (bh_nodes (ie_outside ie (p, b))))) (\<lambda>ie3. Inr (ie_next ie, ie3))"
proof -
  let ?c = "ie_cache ie"
  let ?sz = "page_bytes (bh_nodes (ie_outside ie (p, b)))"
  let ?nd = "cache_node_new (lc_timestamp ?c + 1) (ie_next ie) ?sz"
  let ?c' = "c0\<lparr>lc_timestamp := lc_timestamp ?c + 1, lc_cache := (lc_cache c0)((p, b) \<mapsto> ?nd)\<rparr>"
  have base: "\<not> lc_locked ?c" "lru_inv ?c" "\<And>k. \<not> bh_locked (ie_outside ie k)"
    using assms(1) unfolding ie_base_def by blast+
  obtain nds pool where nds: "lc_cache ?c (sp, sb) = Some nds" "cn_value nds = sa"
      "c0 = ?c\<lparr>lc_cache := (lc_cache ?c)((sp, sb) := None),
            lc_cached_bytes := lc_cached_bytes ?c - ucast (cn_size nds), lc_free_pool := pool\<rparr>"
    using cache_free_evicts[OF base(2) assms(6)] by blast
  obtain pg where pg: "ie_heap ie sa = Some pg" "pe_latch pg = latch_free"
      "hc_items (ie_verify_hash ie (sp, sb)) \<noteq> []" "sa < ie_next ie"
    using assms(1) nds(1,2) unfolding ie_base_def by blast
  have ne: "(sp, sb) \<noteq> (p, b)"
    using nds(1) assms(2) by auto
  have swap: "lru_load_and_swap False ?c p b ?sz (ie_next ie) = Inr (RCOK, Some (sa, sp, sb), ie_next ie, ?c')"
    using lru_swap_miss[OF assms(2,3) base(1)] assms(4,6) by simp
  let ?ft = "if ie_flush_time ie (p, b) = 0 then ie_init_ts ie else ie_flush_time ie (p, b)"
  let ?F = "((ie_flush_time ie)((p, b) := ?ft))((sp, sb) := clk 1)"
  let ?pg = "\<lparr>pe_nodes = nodes_dup junk (bh_nodes (ie_outside ie (p, b))), pe_latch = latch_free,
      pe_part = p, pe_bkt = b\<rparr>"
  let ?ie1 = "ie\<lparr>ie_flush_time := (ie_flush_time ie)((p, b) := ?ft),
      ie_heap := (ie_heap ie)(ie_next ie \<mapsto> ?pg), ie_next := Suc (ie_next ie), ie_cache := ?c'\<rparr>"
  let ?res = "installed (swapped clk ie c0 sa (sp, sb) pg) ?c' ?F (p, b) junk (ie_verify_hash ie (p, b))"
  let ?X = "?ie1
    \<lparr>ie_verify_hash := (ie_verify_hash ?ie1)((sp, sb) :=
       retail (ie_verify_hash ?ie1 (sp, sb)) (bucket_hash (pe_nodes pg)) (clk 0)),
     ie_flush_time := (ie_flush_time ?ie1)((sp, sb) := clk 1),
     ie_outside := (ie_outside ?ie1)((sp, sb) :=
       \<lparr>bh_nodes = nodes_dup (of_nat sp) (pe_nodes pg), bh_node_cnt = 0, bh_locked = False\<rparr>),
     ie_heap := (ie_heap ?ie1)(sa := None)\<rparr>"
  have eq: "?X = ?res"
    using ne pg(4) by (intro index_enc.equality) (auto simp: installed_def swapped_def)
  have "ie_swap_out clk ?ie1 (sa, sp, sb) = Inr ?X"
    by (rule ie_swap_out_eq) (use pg base(3) in auto)
  also have "\<dots> = Inr ?res"
    unfolding eq ..
  finally have out: "ie_swap_out clk ?ie1 (sa, sp, sb) = Inr ?res" .
  have "lru_inv ?c'"
    using lru_inv_load_and_swap[OF base(2) assms(5) swap] .
  moreover have "lru_inv c0"
    using lru_inv_free[OF base(2) assms(6)] by simp
  moreover have "ie_load_miss junk clk ie p b =
       bind_res (ie_check (clk 2) (installed (swapped clk ie c0 sa (sp, sb) pg) ?c' ?F (p, b) junk
           (ie_verify_hash ie (p, b))) (p, b)
         (bucket_hash (bh_nodes (ie_outside ie (p, b))))) (\<lambda>ie3. Inr (ie_next ie, ie3))"
    using base(3) swap out unfolding ie_load_miss_def Let_def by (simp del: fun_upd_apply)
  ultimately show ?thesis
    using base(1) nds pg(1)
    by (intro exI[of _ ?c'] exI[of _ ?nd] exI[of _ nds] exI[of _ pg] exI[of _ ?F])
      (simp add: cache_node_new_def)
qed

lemma installed_check:
  assumes "chain_ok t (ie_verify_hash ie k)" "t \<le> now"
  shows "ie_check now (installed X c' F k junk (ie_verify_hash ie k)) k h =
    (case recorded ie k of
       None \<Rightarrow> Inr (installed X c' F k junk ((ie_verify_hash ie k)\<lparr>hc_items := [new_item now h], hc_size := 1\<rparr>))
     | Some v \<Rightarrow> if v = h then Inr (installed X c' F k junk (ie_verify_hash ie k)) else Inl Assert_Fail)"
proof -
  have "ie_verify_hash (installed X c' F k junk (ie_verify_hash ie k)) k = ie_verify_hash ie k"
    by (simp add: installed_def)
  moreover from this have "recorded (installed X c' F k junk (ie_verify_hash ie k)) k = recorded ie k"
    by (simp add: recorded_def)
  moreover have "(installed X c' F k junk ch)\<lparr>ie_verify_hash :=
      (ie_verify_hash (installed X c' F k junk ch))(k := ch')\<rparr> = installed X c' F k junk ch'" for ch ch'
    by (simp add: installed_def)
  ultimately show ?thesis
    using ie_check_eq[of t "installed X c' F k junk (ie_verify_hash ie k)" k now h] assms
    by (simp del: fun_upd_apply split: option.splits)
qed

text \<open>The chain of a page after a load that passed.\<close>

lemma loaded_chain_ok:
  assumes "chain_ok t c" "t \<le> now"
  shows "chain_ok now (c\<lparr>hc_items := [new_item now h], hc_size := 1\<rparr>)" "chain_ok now c"
  using assms chain_ok_mono by (auto simp: chain_ok_def)

lemma ie_load_miss_decides:
  assumes base: "ie_base t ie" and none: "lc_cache (ie_cache ie) (p, b) = None"
    and lru: "lru_in (ie_cache ie) p b" "lc_timestamp (ie_cache ie) < UINT64_MAX"
    and clk: "t \<le> clk 0" "clk 0 \<le> clk 2" and free: "\<not> ie_full ie (p, b)"
  shows "if recorded ie (p, b) \<in> {None, Some (bucket_hash (bh_nodes (ie_outside ie (p, b))))}
    then \<exists>ie'. ie_load_miss junk clk ie p b = Inr (ie_next ie, ie') \<and> ie_base (clk 2) ie' \<and>
      ie_content ie' = ie_content ie \<and> (\<forall>k. honest ie k \<longrightarrow> honest ie' k) \<and>
      (\<exists>nd. lc_cache (ie_cache ie') (p, b) = Some nd \<and> cn_value nd = ie_next ie)
    else ie_load_miss junk clk ie p b = Inl Assert_Fail"
proof -
  let ?h = "bucket_hash (bh_nodes (ie_outside ie (p, b)))"
  let ?goal = "\<lambda>r. if recorded ie (p, b) \<in> {None, Some ?h}
    then \<exists>ie'. r = Inr (ie_next ie, ie') \<and> ie_base (clk 2) ie' \<and>
      ie_content ie' = ie_content ie \<and> (\<forall>k. honest ie k \<longrightarrow> honest ie' k) \<and>
      (\<exists>nd. lc_cache (ie_cache ie') (p, b) = Some nd \<and> cn_value nd = ie_next ie)
    else r = Inl Assert_Fail"
  have ch: "chain_ok t (ie_verify_hash ie (p, b))" "t \<le> clk 2"
    using base clk unfolding ie_base_def by (auto intro: order_trans)
  have finish: "?goal (bind_res (ie_check (clk 2) (installed X c' F (p, b) junk (ie_verify_hash ie (p, b)))
      (p, b) ?h) (\<lambda>ie3. Inr (ie_next ie, ie3)))"
    if X: "ie_base u X" "u \<le> clk 2" "lc_cache (ie_cache X) (p, b) = None" "ie_next X = ie_next ie"
      "ie_content X = ie_content ie" "\<forall>k. honest ie k \<longrightarrow> honest X k"
      and c': "lru_inv c'" "\<not> lc_locked c'" "lc_cache c' = (lc_cache (ie_cache X))((p, b) \<mapsto> nd)"
      "cn_value nd = ie_next ie" for X u c' F nd
  proof -
    have inst: "ie_base (clk 2) (installed X c' F (p, b) junk c)"
      "ie_content (installed X c' F (p, b) junk c) = ie_content ie"
      "honest ie k \<Longrightarrow> honest (installed X c' F (p, b) junk c) k"
      "\<exists>nd. lc_cache (ie_cache (installed X c' F (p, b) junk c)) (p, b) = Some nd \<and> cn_value nd = ie_next ie"
      if ok: "chain_ok (clk 2) c" "hc_items c \<noteq> []" for c k
    proof -
      have nd: "cn_value nd = ie_next X"
        using X(4) c'(4) by simp
      note inv = installed_inv[OF X(1,3,2) c'(1-3) nd ok]
      show "ie_base (clk 2) (installed X c' F (p, b) junk c)" by (rule inv(1))
      show "ie_content (installed X c' F (p, b) junk c) = ie_content ie" using inv(2) X(5) by simp
      show "honest ie k \<Longrightarrow> honest (installed X c' F (p, b) junk c) k" using inv(3) X(6) by blast
      show "\<exists>nd. lc_cache (ie_cache (installed X c' F (p, b) junk c)) (p, b) = Some nd \<and> cn_value nd = ie_next ie"
        using c'(3,4) by (simp add: installed_def)
    qed
    show ?thesis
    proof (cases "recorded ie (p, b)")
      case None
      then show ?thesis
        using installed_check[OF ch, of X c' F junk ?h] inst[OF loaded_chain_ok(1)[OF ch, of ?h]] by simp
    next
      case (Some v)
      then have "hc_items (ie_verify_hash ie (p, b)) \<noteq> []"
        by (auto simp: recorded_def split: if_splits)
      then show ?thesis
        using Some installed_check[OF ch, of X c' F junk ?h] inst[OF loaded_chain_ok(2)[OF ch]]
        by (cases "v = ?h") simp_all
    qed
  qed
  show ?thesis
  proof (cases "lc_limit (ie_cache ie) < lc_cached_bytes (ie_cache ie) +
      ucast (page_bytes (bh_nodes (ie_outside ie (p, b))))")
    case False
    from ie_load_miss_room[OF base none lru(1) this lru(2), of junk clk]
    obtain c' nd F where "lru_inv c'" "\<not> lc_locked c'" "lc_cache c' = (lc_cache (ie_cache ie))((p, b) \<mapsto> nd)"
      "cn_value nd = ie_next ie" and eq: "ie_load_miss junk clk ie p b =
       bind_res (ie_check (clk 2) (installed ie c' F (p, b) junk (ie_verify_hash ie (p, b))) (p, b) ?h)
         (\<lambda>ie3. Inr (ie_next ie, ie3))"
      by blast
    from finish[OF base ch(2) none refl refl _ this(1-4)] show ?thesis
      unfolding eq by blast
  next
    case True
    then obtain sa sp sb c0 where fr: "cache_free (ie_cache ie) = (Some (sa, sp, sb), c0)"
      using free by (cases "cache_free (ie_cache ie)") (auto simp: ie_full_def)
    from ie_load_miss_evict[OF base none lru(1) True lru(2) fr, of junk clk]
    obtain c' nd nds pg F where c0: "lru_inv c0" "\<not> lc_locked c0"
      "lc_cache c0 = (lc_cache (ie_cache ie))((sp, sb) := None)"
      "lc_cache (ie_cache ie) (sp, sb) = Some nds" "cn_value nds = sa" "ie_heap ie sa = Some pg"
      and c': "lru_inv c'" "\<not> lc_locked c'" "lc_cache c' = (lc_cache c0)((p, b) \<mapsto> nd)" "cn_value nd = ie_next ie"
      and eq: "ie_load_miss junk clk ie p b =
       bind_res (ie_check (clk 2) (installed (swapped clk ie c0 sa (sp, sb) pg) c' F (p, b) junk
           (ie_verify_hash ie (p, b))) (p, b) ?h) (\<lambda>ie3. Inr (ie_next ie, ie3))"
      by blast
    let ?X = "swapped clk ie c0 sa (sp, sb) pg"
    note X = swapped_inv[of t ie clk c0 "(sp, sb)" nds pg, unfolded c0(5), OF base clk(1) c0(1-4,6)]
    have x: "lc_cache (ie_cache ?X) (p, b) = None" "ie_next ?X = ie_next ie"
      "lc_cache c' = (lc_cache (ie_cache ?X))((p, b) \<mapsto> nd)" "\<forall>k. honest ie k \<longrightarrow> honest ?X k"
      using none c0(3) c'(3) X(3) by (simp_all add: swapped_def)
    show ?thesis
      unfolding eq by (rule finish[OF X(1) clk(2) x(1,2) X(2) x(4) c'(1,2) x(3) c'(4)])
  qed
qed

lemma ie_base_mono: "ie_base t ie \<Longrightarrow> t \<le> t' \<Longrightarrow> ie_base t' ie"
  using chain_ok_mono unfolding ie_base_def by blast

lemma ie_base_cached:
  assumes "ie_base t ie" "lc_cache (ie_cache ie) k = Some nd"
  shows "cn_value nd < ie_next ie" "hc_items (ie_verify_hash ie k) \<noteq> []"
    and "\<exists>pg. ie_heap ie (cn_value nd) = Some pg \<and> pe_latch pg = latch_free \<and> (pe_part pg, pe_bkt pg) = k"
  using assms unfolding ie_base_def by blast+

lemma load_bucket_hit:
  assumes base: "ie_base t ie" and hit: "lc_cache (ie_cache ie) (p, b) = Some nd"
    and lru: "lru_in (ie_cache ie) p b" "lc_timestamp (ie_cache ie) < UINT64_MAX"
    and clk: "t \<le> clk 0"
  shows "\<exists>ie'. load_bucket junk clk ie p b = Inr (cn_value nd, ie') \<and> ie_base t ie' \<and>
    ie_content ie' = ie_content ie \<and> (\<forall>k. honest ie k \<longrightarrow> honest ie' k) \<and>
    (\<exists>nd'. lc_cache (ie_cache ie') (p, b) = Some nd' \<and> cn_value nd' = cn_value nd)"
proof -
  let ?c = "ie_cache ie"
  let ?nd = "nd\<lparr>cn_read_cnt := cn_read_cnt nd + 1, cn_ts := max (cn_ts nd) (lc_timestamp ?c + 1)\<rparr>"
  let ?c' = "?c\<lparr>lc_timestamp := lc_timestamp ?c + 1, lc_cache := (lc_cache ?c)((p, b) \<mapsto> ?nd)\<rparr>"
  let ?ie = "ie\<lparr>ie_cache := ?c'\<rparr>"
  have ld: "lru_try_load False ?c p b = Inr (Some (cn_value nd), ?c')"
    using hit lru(1) by (simp add: lru_try_load_def Let_def)
  have inv: "lru_inv ?c" "\<not> lc_locked ?c"
    using base unfolding ie_base_def by blast+
  have ch: "chain_ok t (ie_verify_hash ie (p, b))" "hc_items (ie_verify_hash ie (p, b)) \<noteq> []"
    using base hit unfolding ie_base_def by blast+
  have old: "\<exists>nd0. lc_cache ?c k = Some nd0 \<and> cn_value nd0 = cn_value nd1"
    if "lc_cache ?c' k = Some nd1" for k nd1
    using that hit by (auto split: if_splits)
  have "ie_base t ?ie"
    unfolding ie_base_def
  proof (intro conjI allI impI)
    fix k nd1
    assume "lc_cache (ie_cache ?ie) k = Some nd1"
    then have "lc_cache ?c' k = Some nd1"
      by simp
    then obtain nd0 where nd0: "lc_cache ?c k = Some nd0" "cn_value nd0 = cn_value nd1"
      using old by blast
    then show "cn_value nd1 < ie_next ?ie" "hc_items (ie_verify_hash ?ie k) \<noteq> []"
      "\<exists>pg. ie_heap ?ie (cn_value nd1) = Some pg \<and> pe_latch pg = latch_free \<and> (pe_part pg, pe_bkt pg) = k"
      using ie_base_cached[OF base nd0(1)] nd0(2) by simp_all
  qed (use base inv lru_inv_try_load[OF inv(1) lru(2) ld] in \<open>auto simp: ie_base_def\<close>)
  moreover have "ie_content ?ie = ie_content ie"
  proof
    fix k
    show "ie_content ?ie k = ie_content ie k"
      using hit by (cases "k = (p, b)"; cases "lc_cache ?c k") (simp_all add: ie_content_def ie_nodes_def)
  qed
  moreover have "honest ?ie k" if "honest ie k" for k
    using that by (auto simp: honest_def)
  moreover have "load_bucket junk clk ie p b = Inr (cn_value nd, ?ie)"
    using ld hc_get_tail[OF ch clk] by (auto simp: load_bucket_def)
  ultimately show ?thesis
    by (intro exI[of _ ?ie]) auto
qed

lemma load_bucket_miss:
  assumes "lc_cache (ie_cache ie) (p, b) = None" "lru_in (ie_cache ie) p b"
  shows "load_bucket junk clk ie p b = ie_load_miss junk clk ie p b"
  using assms by (simp add: load_bucket_def lru_try_load_def)

lemma ie_load_miss_full:
  assumes "ie_base t ie" "lc_cache (ie_cache ie) (p, b) = None" "lru_in (ie_cache ie) p b" "ie_full ie (p, b)"
  shows "ie_load_miss junk clk ie p b = Inl Blocked"
proof -
  have "\<not> lc_locked (ie_cache ie)"
    using assms(1) by (simp add: ie_base_def)
  then show ?thesis
    using lru_swap_miss[OF assms(2,3)] assms(4)
    by (cases "cache_free (ie_cache ie)") (simp add: ie_load_miss_def ie_full_def Let_def)
qed

section \<open>Pages as a store\<close>

text \<open>
  The contract of a store that keeps its records in pages: loading a page, whenever it
  returns, delivers the logical content of the page and changes no content. The lemma for
  clients: whatever sequence of loads is made, each delivers the content the store had before
  the sequence.
\<close>

fun page_loads :: "('e \<Rightarrow> 's \<Rightarrow> 'k \<Rightarrow> ('a \<times> 's) res) \<Rightarrow> 's \<Rightarrow> ('e \<times> 'k) list \<Rightarrow> ('s \<Rightarrow> 'a \<Rightarrow> 'c) \<Rightarrow> ('c list \<times> 's) res" where
  "page_loads load s [] page = Inr ([], s)"
| "page_loads load s ((e, k) # xs) page =
     bind_res (load e s k) (\<lambda>(a, s1). bind_res (page_loads load s1 xs page) (\<lambda>(cs, s').
       Inr (page s1 a # cs, s')))"

locale paged_store =
  fixes ok :: "'s \<Rightarrow> bool"
    and content :: "'s \<Rightarrow> 'k \<Rightarrow> 'c"
    and page :: "'s \<Rightarrow> 'a \<Rightarrow> 'c"
    and load :: "'e \<Rightarrow> 's \<Rightarrow> 'k \<Rightarrow> ('a \<times> 's) res"
  assumes load_ok: "ok s \<Longrightarrow> load e s k = Inr (a, s') \<Longrightarrow> ok s'"
    and load_content: "ok s \<Longrightarrow> load e s k = Inr (a, s') \<Longrightarrow> content s' = content s"
    and load_page: "ok s \<Longrightarrow> load e s k = Inr (a, s') \<Longrightarrow> page s' a = content s k"
begin

lemma loads_deliver:
  assumes "ok s" "page_loads load s xs page = Inr (cs, s')"
  shows "ok s' \<and> content s' = content s \<and> cs = map (content s) (map snd xs)"
  using assms
proof (induction xs arbitrary: s cs)
  case (Cons x xs)
  obtain e k where x: "x = (e, k)" by (cases x)
  from Cons.prems(2) obtain a s1 cs1 where s1: "load e s k = Inr (a, s1)"
      "page_loads load s1 xs page = Inr (cs1, s')" "cs = page s1 a # cs1"
    by (auto simp: x res_simps)
  note law = load_ok[OF Cons.prems(1) s1(1)] load_content[OF Cons.prems(1) s1(1)]
    load_page[OF Cons.prems(1) s1(1)]
  then show ?case
    using Cons.IH[OF law(1) s1(2)] s1(3) x by simp
qed simp

end

text \<open>
  The index as such a store: its state is the index with the time of the last operation, and a
  load is given the clock readings, which must not run backwards.
\<close>

definition timed_load ::
  "u64 \<times> (nat \<Rightarrow> u64) \<Rightarrow> u64 \<times> index_enc \<Rightarrow> nat \<times> u64 \<Rightarrow> (nat \<times> u64 \<times> index_enc) res" where
  "timed_load e s k =
     (if fst s \<le> snd e 0 \<and> snd e 0 \<le> snd e 2 \<and> lc_timestamp (ie_cache (snd s)) < UINT64_MAX
      then bind_res (load_bucket (fst e) (snd e) (snd s) (fst k) (snd k)) (\<lambda>(a, ie'). Inr (a, snd e 2, ie'))
      else Inl Diverges)"

definition timed_ok :: "u64 \<times> index_enc \<Rightarrow> bool" where
  "timed_ok s \<longleftrightarrow> ie_base (fst s) (snd s) \<and> (\<forall>k. honest (snd s) k)"

definition page_content :: "index_enc \<Rightarrow> nat \<Rightarrow> (idx_key_t \<times> (u64 \<times> u64 \<times> bytes \<times> table_t) list) list" where
  "page_content ie a = (case ie_heap ie a of None \<Rightarrow> [] | Some pg \<Rightarrow> erase_nodes (pe_nodes pg))"

lemma load_bucket_bounds:
  "load_bucket junk clk ie p b = Inr r \<Longrightarrow> lru_in (ie_cache ie) p b"
  by (auto simp: load_bucket_def lru_try_load_def res_simps)

lemma cached_page_content:
  "lc_cache (ie_cache ie) k = Some nd \<Longrightarrow> page_content ie (cn_value nd) = ie_content ie k"
  by (simp add: page_content_def ie_content_def ie_nodes_def erase_nodes_def split: option.splits)

lemma load_bucket_laws:
  assumes "ie_base t ie" "\<forall>k. honest ie k" "load_bucket junk clk ie p b = Inr (a, ie')"
    and "t \<le> clk 0" "clk 0 \<le> clk 2" "lc_timestamp (ie_cache ie) < UINT64_MAX"
  shows "ie_base (clk 2) ie' \<and> (\<forall>k. honest ie' k) \<and> ie_content ie' = ie_content ie \<and>
    page_content ie' a = ie_content ie (p, b) \<and> (\<exists>nd. lc_cache (ie_cache ie') (p, b) = Some nd \<and> cn_value nd = a)"
proof -
  note lru = load_bucket_bounds[OF assms(3)] assms(6)
  show ?thesis
  proof (cases "lc_cache (ie_cache ie) (p, b)")
    case (Some nd)
    have "t \<le> clk 2"
      using assms(4,5) by (rule order_trans)
    then show ?thesis
      using load_bucket_hit[of t ie p b nd clk junk, OF assms(1) Some lru assms(4)] assms(2,3)
        ie_base_mono cached_page_content by fastforce
  next
    case None
    then have miss: "ie_load_miss junk clk ie p b = Inr (a, ie')"
      using assms(3) load_bucket_miss lru(1) by simp
    then have "\<not> ie_full ie (p, b)"
      using ie_load_miss_full[OF assms(1) None lru(1), of junk clk] by auto
    from ie_load_miss_decides[of t ie p b clk junk, OF assms(1) None lru assms(4,5) this] miss
    obtain nd where "ie_base (clk 2) ie'" "ie_content ie' = ie_content ie" "\<forall>k. honest ie k \<longrightarrow> honest ie' k"
        "lc_cache (ie_cache ie') (p, b) = Some nd" "cn_value nd = a"
      by (auto split: if_splits)
    then show ?thesis
      using assms(2) cached_page_content[of ie' "(p, b)" nd] by auto
  qed
qed

interpretation verified_pages: paged_store timed_ok "\<lambda>s. ie_content (snd s)" "\<lambda>s. page_content (snd s)" timed_load
proof (unfold_locales, goal_cases)
  case (1 s e k a s')
  then show ?case
    using load_bucket_laws[of "fst s" "snd s" "fst e" "snd e" "fst k" "snd k" a "snd s'"]
    by (auto simp: timed_load_def timed_ok_def res_simps split: if_splits)
next
  case (2 s e k a s')
  then show ?case
    using load_bucket_laws[of "fst s" "snd s" "fst e" "snd e" "fst k" "snd k" a "snd s'"]
    by (auto simp: timed_load_def timed_ok_def res_simps split: if_splits)
next
  case (3 s e k a s')
  then show ?case
    using load_bucket_laws[of "fst s" "snd s" "fst e" "snd e" "fst k" "snd k" a "snd s'"]
    by (auto simp: timed_load_def timed_ok_def res_simps split: if_splits)
qed

section \<open>Properties\<close>

lemma find_node_erase: "map_option (map erase_row) (read_item_enc ns key) = map_of (erase_nodes ns) key"
  by (induction ns) (auto simp: read_item_enc_def erase_nodes_def)

text \<open>
  C22: Verified reads against an honest store. When the untrusted copy of every page is the one the
  enclave wrote out, a read of a key through the enclave never fails verification: it waits
  only when the cache is over its limit with no page to evict; otherwise it returns exactly
  the rows the index logically stores under the key. It changes no logical content, whatever it
  swaps out, and leaves the store honest.
\<close>

theorem verified_read_transparent:
  assumes "ie_base t ie" "\<forall>k. honest ie k"
    and "t \<le> clk 0" "clk 0 \<le> clk 2" "lc_timestamp (ie_cache ie) < UINT64_MAX"
    and "lru_in (ie_cache ie) p (ie_hash ie key)" "ie_hash ie key < ie_bucket_cnt ie"
  shows "if lc_cache (ie_cache ie) (p, ie_hash ie key) = None \<and> ie_full ie (p, ie_hash ie key)
    then ie_index_read junk clk ie (ie_name ie) key p = Inl Blocked
    else \<exists>rs a ie'. ie_index_read junk clk ie (ie_name ie) key p = Inr (rs, a, ie') \<and>
      map_option (map erase_row) rs = map_of (ie_content ie (p, ie_hash ie key)) key \<and>
      ie_content ie' = ie_content ie \<and> (\<forall>k. honest ie' k) \<and> ie_base (clk 2) ie'"
proof -
  let ?b = "ie_hash ie key"
  have full: "ie_index_read junk clk ie (ie_name ie) key p = Inl Blocked"
    if "lc_cache (ie_cache ie) (p, ?b) = None" "ie_full ie (p, ?b)"
    using that assms(7) load_bucket_miss[OF that(1) assms(6)] ie_load_miss_full[OF assms(1) that(1) assms(6) that(2)]
    by (simp add: ie_index_read_def)
  have loads: "\<exists>a ie1. load_bucket junk clk ie p ?b = Inr (a, ie1)"
    if "\<not> (lc_cache (ie_cache ie) (p, ?b) = None \<and> ie_full ie (p, ?b))"
  proof (cases "lc_cache (ie_cache ie) (p, ?b)")
    case (Some nd)
    then show ?thesis
      using load_bucket_hit[of t ie p ?b nd clk junk, OF assms(1) Some assms(6,5,3)] by blast
  next
    case None
    have "recorded ie (p, ?b) \<in> {None, Some (bucket_hash (bh_nodes (ie_outside ie (p, ?b))))}"
      using assms(2) None by (auto simp: honest_def recorded_def)
    then show ?thesis
      using ie_load_miss_decides[of t ie p ?b clk junk, OF assms(1) None assms(6,5,3,4)] that None
        load_bucket_miss[OF None assms(6), of junk clk] by auto
  qed
  show ?thesis
  proof (cases "lc_cache (ie_cache ie) (p, ?b) = None \<and> ie_full ie (p, ?b)")
    case False
    from loads[OF this] obtain a ie1 where ld: "load_bucket junk clk ie p ?b = Inr (a, ie1)" by blast
    from load_bucket_laws[of t ie junk clk p ?b a ie1, OF assms(1,2) this assms(3,4,5)]
    obtain nd where ie1: "ie_base (clk 2) ie1" "\<forall>k. honest ie1 k" "ie_content ie1 = ie_content ie"
        "page_content ie1 a = ie_content ie (p, ?b)" "lc_cache (ie_cache ie1) (p, ?b) = Some nd" "cn_value nd = a"
      by blast
    obtain pg where pg: "ie_heap ie1 a = Some pg" "pe_latch pg = latch_free"
      using ie1(1,5,6) unfolding ie_base_def by blast
    have latch: "latch_node latch_free LATCH_SH = Inr (True, \<lparr>pl_latch = False, pl_type = LATCH_SH, pl_share_cnt = 1\<rparr>)"
      "release_latch \<lparr>pl_latch = False, pl_type = LATCH_SH, pl_share_cnt = 1\<rparr> = Inr (LATCH_SH, latch_free)"
      by (simp_all add: latch_node_def release_latch_def latch_free_def)
    have "(ie_heap ie1)(a \<mapsto> pg\<lparr>pe_latch := latch_free\<rparr>) = ie_heap ie1"
      using pg by (intro ext) (auto simp: page_enc.equality)
    then have "ie_index_read junk clk ie (ie_name ie) key p = Inr (read_item_enc (pe_nodes pg) key, a, ie1)"
      using assms(7) ld pg latch by (simp add: ie_index_read_def)
    moreover have "erase_nodes (pe_nodes pg) = ie_content ie (p, ?b)"
      using ie1(4) pg(1) by (simp add: page_content_def)
    ultimately show ?thesis
      using False ie1(1-3) find_node_erase[of "pe_nodes pg" key] by auto
  qed (use full in auto)
qed

text \<open>
  C21: A changed page is caught when it is loaded. If a page has a recorded version and the
  untrusted copy hashes to something else, reading any key of the page stops at the
  verification assertion (when the cache has room or a page to evict). Conversely a load that
  returns a page from outside returns one with the recorded hash.
\<close>

theorem verified_load_detects:
  assumes "ie_base t ie" "lc_cache (ie_cache ie) (p, b) = None" "recorded ie (p, b) = Some v"
    and "t \<le> clk 0" "clk 0 \<le> clk 2" "lc_timestamp (ie_cache ie) < UINT64_MAX" "lru_in (ie_cache ie) p b"
    and "\<not> ie_full ie (p, b)"
  shows "(v \<noteq> bucket_hash (bh_nodes (ie_outside ie (p, b))) \<longleftrightarrow> load_bucket junk clk ie p b = Inl Assert_Fail) \<and>
    (v = bucket_hash (bh_nodes (ie_outside ie (p, b))) \<longleftrightarrow> (\<exists>a ie'. load_bucket junk clk ie p b = Inr (a, ie')))"
  using ie_load_miss_decides[of t ie p b clk junk, OF assms(1,2,7,6,4,5,8)] assms(3)
    load_bucket_miss[OF assms(2,7), of junk clk] by (auto split: if_splits)

text \<open>
   Any sequence of page loads by the enclave delivers, page by page, the content the index had
  before the sequence, as long as the store is honest, the clock does not run backwards and
  the loads return; in particular swapping pages out and in again loses no update.
\<close>

theorem verified_loads_deliver:
  assumes "timed_ok s" "page_loads timed_load s xs (\<lambda>s. page_content (snd s)) = Inr (cs, s')"
  shows "timed_ok s' \<and> ie_content (snd s') = ie_content (snd s) \<and> cs = map (ie_content (snd s)) (map snd xs)"
  using verified_pages.loads_deliver[OF assms] .

text \<open>A store of one bucket with one row, and the index over it.\<close>

definition demo_store :: "nat \<times> u64 \<Rightarrow> bucket_header" where
  "demo_store = (\<lambda>_. bucket_init)((0, 3) :=
     \<lparr>bh_nodes = [\<lparr>bn_key = 3, bn_items = [demo_row]\<rparr>], bh_node_cnt = 0, bh_locked = False\<rparr>)"

abbreviation demo_ie :: index_enc where
  "demo_ie \<equiv> ie_init 8 1 4096 ''IDX'' demo_store"

lemma demo_ie_base: "ie_base 0 demo_ie" "\<forall>k. honest demo_ie k"
  by (auto simp: ie_base_def honest_def ie_init_def chain_ok_def hc_new_def lru_inv_init demo_store_def
    bucket_init_def) (simp_all add: lru_init_def)

lemma demo_ie_lru: "lru_in (ie_cache demo_ie) 0 3" "lc_timestamp (ie_cache demo_ie) < UINT64_MAX"
    "\<not> ie_full demo_ie (0, 3)" "ie_hash demo_ie 3 = 3" "ie_bucket_cnt demo_ie = 8" "ie_name demo_ie = ''IDX''"
  by (simp_all add: ie_init_def lru_init_def lru_in_def ie_full_def demo_store_def page_bytes_def
    ie_hash_def word_less_nat_alt unsigned_minus_1_eq_mask mask_eq_exp_minus_1)

theorem verified_read_transparent_witness:
  "\<exists>rs a ie'. ie_index_read 7 (\<lambda>i. of_nat i) demo_ie ''IDX'' 3 0 = Inr (rs, a, ie') \<and>
     map_option (map erase_row) rs = Some [erase_row demo_row]"
proof -
  have "map_of (ie_content demo_ie (0, 3)) 3 = Some [erase_row demo_row]"
    by (simp add: ie_content_def ie_nodes_def ie_init_def lru_init_def demo_store_def erase_nodes_def)
  then show ?thesis
    using verified_read_transparent[of 0 demo_ie "\<lambda>i. of_nat i" 0 3 7] demo_ie_base demo_ie_lru by auto
qed

definition demo_tampered :: index_enc where
  "demo_tampered = demo_ie\<lparr>ie_verify_hash := (\<lambda>_. hc_new)((0, 3) :=
     hc_new\<lparr>hc_items := [new_item 0 1], hc_size := 1\<rparr>)\<rparr>"

theorem verified_load_detects_witness:
  "bucket_hash (bh_nodes (demo_store (0, 3))) = 6 \<and>
   load_bucket 7 (\<lambda>i. of_nat i) demo_tampered 0 3 = Inl Assert_Fail"
proof -
  have "ie_base 0 demo_tampered"
    by (auto simp: ie_base_def demo_tampered_def ie_init_def chain_ok_def hc_new_def lru_inv_init demo_store_def
      bucket_init_def) (simp_all add: lru_init_def)
  moreover have "lc_cache (ie_cache demo_tampered) (0, 3) = None" "recorded demo_tampered (0, 3) = Some 1"
    by (simp_all add: demo_tampered_def ie_init_def lru_init_def recorded_def)
  moreover have "lru_in (ie_cache demo_tampered) 0 3" "lc_timestamp (ie_cache demo_tampered) < UINT64_MAX"
      "\<not> ie_full demo_tampered (0, 3)"
    using demo_ie_lru by (simp_all add: demo_tampered_def ie_full_def)
  moreover have h: "bucket_hash (bh_nodes (demo_store (0, 3))) = 6"
    by (simp add: demo_store_def bucket_hash_rows row_hash_def demo_row_def)
  then have "bucket_hash (bh_nodes (ie_outside demo_tampered (0, 3))) = 6"
    by (simp add: demo_tampered_def ie_init_def)
  ultimately show ?thesis
    using verified_load_detects[of 0 demo_tampered 0 3 1 "\<lambda>i. of_nat i" 7] h by simp
qed

theorem verified_loads_deliver_witness:
  "\<exists>s'. page_loads timed_load (0, demo_ie) [((7, \<lambda>i. of_nat i), (0, 3))] (\<lambda>s. page_content (snd s))
     = Inr ([[(3, [erase_row demo_row])]], s')"
proof -
  have none: "lc_cache (ie_cache demo_ie) (0, 3) = None" "recorded demo_ie (0, 3) = None"
    by (simp_all add: ie_init_def lru_init_def recorded_def hc_new_def)
  obtain ie' where "load_bucket 7 (\<lambda>i. of_nat i) demo_ie 0 3 = Inr (ie_next demo_ie, ie')"
    using ie_load_miss_decides[of 0 demo_ie 0 3 "\<lambda>i. of_nat i" 7] demo_ie_base(1) demo_ie_lru none
      load_bucket_miss[OF none(1) demo_ie_lru(1), of 7 "\<lambda>i. of_nat i"] by auto
  then have run: "page_loads timed_load (0, demo_ie) [((7, \<lambda>i. of_nat i), (0, 3))] (\<lambda>s. page_content (snd s))
     = Inr ([page_content ie' (ie_next demo_ie)], (2, ie'))"
    using demo_ie_lru(2) by (simp add: timed_load_def)
  have "ie_content demo_ie (0, 3) = [(3, [erase_row demo_row])]"
    by (simp add: ie_content_def ie_nodes_def ie_init_def lru_init_def demo_store_def erase_nodes_def)
  then show ?thesis
    using verified_loads_deliver[OF _ run] run demo_ie_base by (simp add: timed_ok_def)
qed

end
