(* ===== verification/Btree.thy ===== *)
theory Btree
  imports Index_Hash Latch
begin

text \<open>
  The B+tree index \<open>index_btree\<close> (\<open>common/index_btree.h\<close>, \<open>untrusted/cache/index_btree.cpp\<close>),
  the configured index structure. Nodes live in a heap and are linked by pointers in both
  directions: children, parent, and the \<open>next\<close> node of the same level. The key and pointer
  arrays of a node are lists of the entries in use (\<open>num_keys\<close> is the length of \<open>nd_keys\<close>);
  a leaf's pointer is the list of its items. The copying loops over the arrays, with their gap
  for the new entry, are insertions into these lists.

  There is one partition (\<open>PART_CNT\<close> is 1, as configured and asserted), so one root. Every node
  has the latch of \<open>Latch\<close>; the descent latches as the code does, and an operation that finds
  a latch taken gives up with \<open>Abort\<close>. The loops that follow pointers have a fuel argument and
  end in \<open>Diverges\<close> without it; \<open>bt_fresh\<close>, the number of nodes allocated so far, is passed
  as fuel, and \<open>Btree_Insert\<close> shows that it suffices in every tree.
\<close>

abbreviation BTREE_ORDER :: nat where
  "BTREE_ORDER \<equiv> 16"

record bt_node =
  nd_is_leaf :: bool
  nd_keys :: "idx_key_t list"
  nd_items :: "row list list"
  nd_children :: "nat list"
  nd_parent :: "nat option"
  nd_next :: "nat option"
  nd_latch :: page_latch
  nd_node_id :: u64

type_synonym bt_heap = "nat \<rightharpoonup> bt_node"

record btree =
  bt_heap :: bt_heap
  bt_fresh :: nat
  bt_root :: nat
  bt_node_id :: u64
  bt_cur_leaf :: "nat \<Rightarrow> nat option"
  bt_cur_idx :: "nat \<Rightarrow> nat"

section \<open>Access to the heap\<close>

definition bt_get :: "btree \<Rightarrow> nat \<Rightarrow> bt_node res" where
  "bt_get s a = (case bt_heap s a of None \<Rightarrow> Inl Null_Deref | Some n \<Rightarrow> Inr n)"

definition bt_put :: "btree \<Rightarrow> nat \<Rightarrow> bt_node \<Rightarrow> btree" where
  "bt_put s a n = s\<lparr>bt_heap := (bt_heap s)(a \<mapsto> n)\<rparr>"

definition bt_latch_node :: "btree \<Rightarrow> nat \<Rightarrow> latch_t \<Rightarrow> (bool \<times> btree) res" where
  "bt_latch_node s a t = bind_res (bt_get s a) (\<lambda>n.
     bind_res (latch_node (nd_latch n) t) (\<lambda>(ok, l). Inr (ok, bt_put s a (n\<lparr>nd_latch := l\<rparr>))))"

definition bt_release_latch :: "btree \<Rightarrow> nat \<Rightarrow> btree res" where
  "bt_release_latch s a = bind_res (bt_get s a) (\<lambda>n.
     bind_res (release_latch (nd_latch n)) (\<lambda>(t, l). Inr (bt_put s a (n\<lparr>nd_latch := l\<rparr>))))"

definition bt_upgrade_latch :: "btree \<Rightarrow> nat \<Rightarrow> (RC \<times> btree) res" where
  "bt_upgrade_latch s a = bind_res (bt_get s a) (\<lambda>n.
     bind_res (upgrade_latch (nd_latch n)) (\<lambda>(rc, l). Inr (rc, bt_put s a (n\<lparr>nd_latch := l\<rparr>))))"

section \<open>Creating nodes\<close>

definition make_node :: "bool \<Rightarrow> btree \<Rightarrow> nat \<times> btree" where
  "make_node leaf s =
     (let a = bt_fresh s; i = bt_node_id s + 1 in
      (a, s\<lparr>bt_heap := (bt_heap s)(a \<mapsto>
             \<lparr>nd_is_leaf = leaf, nd_keys = [], nd_items = [], nd_children = [], nd_parent = None,
              nd_next = None, nd_latch = latch_free, nd_node_id = i\<rparr>),
            bt_fresh := Suc a, bt_node_id := i\<rparr>))"

definition btree_init :: btree where
  "btree_init =
     (let (a, s) = make_node True \<lparr>bt_heap = Map.empty, bt_fresh = 0, bt_root = 0, bt_node_id = 0,
        bt_cur_leaf = (\<lambda>_. None), bt_cur_idx = (\<lambda>_. 0)\<rparr>
      in s\<lparr>bt_root := a\<rparr>)"

section \<open>Searching\<close>

text \<open>The position of the first key greater than \<open>key\<close>, and of the first key not less than it.\<close>

definition child_index :: "idx_key_t \<Rightarrow> idx_key_t list \<Rightarrow> nat" where
  "child_index key keys = length (takeWhile (\<lambda>k. \<not> key < k) keys)"

definition insert_index :: "idx_key_t \<Rightarrow> idx_key_t list \<Rightarrow> nat" where
  "insert_index key keys = length (takeWhile (\<lambda>k. k < key) keys)"

definition leaf_has_key :: "bt_node \<Rightarrow> idx_key_t \<Rightarrow> nat option" where
  "leaf_has_key n key =
     (let i = length (takeWhile (\<lambda>k. k \<noteq> key) (nd_keys n))
      in if i < length (nd_keys n) then Some i else None)"

definition child_at :: "bt_node \<Rightarrow> idx_key_t \<Rightarrow> nat res" where
  "child_at n key =
     (let i = child_index key (nd_keys n)
      in if i < length (nd_children n) then Inr (nd_children n ! i) else Inl Bounds)"

text \<open>\<open>find_leaf\<close> with \<open>INDEX_NONE\<close>: no latches.\<close>

fun find_leaf_none :: "nat \<Rightarrow> btree \<Rightarrow> idx_key_t \<Rightarrow> nat \<Rightarrow> nat res" where
  "find_leaf_none 0 s key c = Inl Diverges"
| "find_leaf_none (Suc fuel) s key c =
     bind_res (bt_get s c) (\<lambda>n.
       if nd_is_leaf n then Inr c
       else bind_res (child_at n key) (find_leaf_none fuel s key))"

text \<open>\<open>cleanup\<close>: releases the ancestors of \<open>node\<close> up to and including \<open>last_ex\<close>.\<close>

fun cleanup_loop :: "nat \<Rightarrow> btree \<Rightarrow> nat \<Rightarrow> nat \<Rightarrow> btree res" where
  "cleanup_loop 0 s node last_ex = Inl Diverges"
| "cleanup_loop (Suc fuel) s node last_ex =
     bind_res (bt_get s node) (\<lambda>n.
       case nd_parent n of
         None \<Rightarrow> Inl Null_Deref
       | Some p \<Rightarrow> bind_res (bt_release_latch s p) (\<lambda>s'.
           if p = last_ex then Inr s' else cleanup_loop fuel s' p last_ex))"

definition cleanup :: "btree \<Rightarrow> nat \<Rightarrow> nat option \<Rightarrow> btree res" where
  "cleanup s node last_ex =
     (case last_ex of None \<Rightarrow> Inr s | Some e \<Rightarrow> cleanup_loop (bt_fresh s) s node e)"

text \<open>
  The latching descent. The result is the return code, the node reached, the topmost node that
  is still latched exclusively, and the new state.
\<close>

fun descend ::
  "nat \<Rightarrow> idx_acc_t \<Rightarrow> idx_key_t \<Rightarrow> nat \<Rightarrow> nat option \<Rightarrow> btree \<Rightarrow> (RC \<times> nat \<times> nat option \<times> btree) res" where
  "descend 0 acc key c last_ex s = Inl Diverges"
| "descend (Suc fuel) acc key c last_ex s =
     bind_res (bt_get s c) (\<lambda>n.
       if nd_is_leaf n then Inr (RCOK, c, last_ex, s)
       else bind_res (child_at n key) (\<lambda>child.
         bind_res (bt_latch_node s child LATCH_SH) (\<lambda>(ok, s1).
           if \<not> ok then
             bind_res (bt_release_latch s1 c) (\<lambda>s2. bind_res (cleanup s2 c last_ex) (\<lambda>s3.
               Inr (Abort, c, None, s3)))
           else if acc = INDEX_INSERT then
             bind_res (bt_get s1 child) (\<lambda>m.
               if length (nd_keys m) = BTREE_ORDER - 1 then
                 bind_res (bt_upgrade_latch s1 c) (\<lambda>(rc, s2).
                   if rc \<noteq> RCOK then
                     bind_res (bt_release_latch s2 c) (\<lambda>s3. bind_res (bt_release_latch s3 child) (\<lambda>s4.
                       bind_res (cleanup s4 c last_ex) (\<lambda>s5. Inr (Abort, c, None, s5))))
                   else descend fuel acc key child (if last_ex = None then Some c else last_ex) s2)
               else
                 bind_res (cleanup s1 c last_ex) (\<lambda>s2. bind_res (bt_release_latch s2 c) (\<lambda>s3.
                   descend fuel acc key child None s3)))
           else bind_res (bt_release_latch s1 c) (\<lambda>s2. descend fuel acc key child last_ex s2))))"

definition find_leaf ::
  "btree \<Rightarrow> idx_key_t \<Rightarrow> idx_acc_t \<Rightarrow> (RC \<times> nat \<times> nat option \<times> btree) res" where
  "find_leaf s key acc =
     (if acc = INDEX_NONE
      then bind_res (find_leaf_none (bt_fresh s) s key (bt_root s)) (\<lambda>l. Inr (RCOK, l, None, s))
      else bind_res (bt_latch_node s (bt_root s) LATCH_SH) (\<lambda>(ok, s1).
        if \<not> ok then Inr (Abort, bt_root s, None, s1)
        else bind_res (descend (bt_fresh s1) acc key (bt_root s) None s1) (\<lambda>(rc, c, last_ex, s2).
          if rc \<noteq> RCOK then Inr (rc, c, last_ex, s2)
          else if acc = INDEX_INSERT then
            bind_res (bt_upgrade_latch s2 c) (\<lambda>(rc', s3).
              if rc' \<noteq> RCOK then
                bind_res (bt_release_latch s3 c) (\<lambda>s4. bind_res (cleanup s4 c last_ex) (\<lambda>s5.
                  Inr (Abort, c, last_ex, s5)))
              else Inr (RCOK, c, last_ex, s3))
          else Inr (RCOK, c, last_ex, s2))))"

section \<open>Reading\<close>

text \<open>
  A missing key ends in \<open>M_ASSERT(false)\<close>. When the descent gives up, \<open>leaf\<close> is not set and the
  code goes on with it; that is the fault \<open>Null_Deref\<close>.
\<close>

definition bt_index_read :: "btree \<Rightarrow> idx_key_t \<Rightarrow> nat \<Rightarrow> (row list \<times> btree) res" where
  "bt_index_read s key thd =
     bind_res (find_leaf s key INDEX_READ) (\<lambda>(rc, leaf, last_ex, s1).
       if rc \<noteq> RCOK then Inl Null_Deref
       else bind_res (bt_get s1 leaf) (\<lambda>n.
         case leaf_has_key n key of
           None \<Rightarrow> Inl Assert_Fail
         | Some i \<Rightarrow> bind_res (bt_release_latch s1 leaf) (\<lambda>s2.
             Inr (nd_items n ! i, s2\<lparr>bt_cur_leaf := (bt_cur_leaf s2)(thd := Some leaf),
               bt_cur_idx := (bt_cur_idx s2)(thd := i)\<rparr>))))"

text \<open>\<open>index_next\<close>: the item after the cursor of a thread; \<open>None\<close> is the null item.\<close>

definition bt_index_next :: "btree \<Rightarrow> nat \<Rightarrow> bool \<Rightarrow> (row list option \<times> btree) res" where
  "bt_index_next s thd samekey =
     (case bt_cur_leaf s thd of
        None \<Rightarrow> Inl Null_Deref
      | Some a \<Rightarrow>
          bind_res (bt_get s a) (\<lambda>n.
            if \<not> bt_cur_idx s thd < length (nd_keys n) then Inl Bounds
            else
              let cur_key = nd_keys n ! bt_cur_idx s thd;
                  i = bt_cur_idx s thd + 1;
                  (leaf, i') = (if i \<ge> length (nd_keys n) then (nd_next n, 0) else (Some a, i));
                  s' = s\<lparr>bt_cur_leaf := (bt_cur_leaf s)(thd := leaf), bt_cur_idx := (bt_cur_idx s)(thd := i')\<rparr>
              in case leaf of
                   None \<Rightarrow> Inr (None, s')
                 | Some b \<Rightarrow> bind_res (bt_get s b) (\<lambda>m.
                     assert_res (nd_is_leaf m)
                       (if \<not> i' < length (nd_keys m) then Inl Bounds
                        else if samekey \<and> nd_keys m ! i' \<noteq> cur_key then Inr (None, s')
                        else Inr (Some (nd_items m ! i'), s')))))"

section \<open>Inserting\<close>

definition insert_at :: "nat \<Rightarrow> 'a \<Rightarrow> 'a list \<Rightarrow> 'a list" where
  "insert_at i x xs = take i xs @ x # drop i xs"

definition cut :: "nat \<Rightarrow> nat" where
  "cut n = (if n mod 2 = 0 then n div 2 else n div 2 + 1)"

definition insert_into_leaf :: "btree \<Rightarrow> nat \<Rightarrow> idx_key_t \<Rightarrow> row \<Rightarrow> btree res" where
  "insert_into_leaf s leaf key item =
     bind_res (bt_get s leaf) (\<lambda>n.
       case leaf_has_key n key of
         Some i \<Rightarrow> Inr (bt_put s leaf (n\<lparr>nd_items := (nd_items n)[i := item # nd_items n ! i]\<rparr>))
       | None \<Rightarrow>
           let i = insert_index key (nd_keys n);
               n' = n\<lparr>nd_keys := insert_at i key (nd_keys n), nd_items := insert_at i [item] (nd_items n)\<rparr>
           in assert_res (length (nd_keys n') < BTREE_ORDER) (Inr (bt_put s leaf n')))"

definition insert_into_new_root :: "btree \<Rightarrow> nat \<Rightarrow> idx_key_t \<Rightarrow> nat \<Rightarrow> btree res" where
  "insert_into_new_root s left key right =
     (let (a, s1) = make_node False s in
      bind_res (bt_get s1 a) (\<lambda>n.
        let s2 = bt_put s1 a (n\<lparr>nd_keys := [key], nd_children := [left, right], nd_parent := None\<rparr>) in
        bind_res (bt_get s2 left) (\<lambda>l.
          let s3 = bt_put s2 left (l\<lparr>nd_parent := Some a\<rparr>) in
          bind_res (bt_get s3 right) (\<lambda>r.
            let s4 = bt_put s3 right (r\<lparr>nd_parent := Some a\<rparr>) in
            bind_res (bt_get s4 left) (\<lambda>l'.
              Inr ((bt_put s4 left (l'\<lparr>nd_next := Some right\<rparr>))\<lparr>bt_root := a\<rparr>))))))"

fun set_parents :: "btree \<Rightarrow> nat list \<Rightarrow> nat \<Rightarrow> btree res" where
  "set_parents s [] p = Inr s"
| "set_parents s (c # cs) p =
     bind_res (bt_get s c) (\<lambda>n. set_parents (bt_put s c (n\<lparr>nd_parent := Some p\<rparr>)) cs p)"

text \<open>
  \<open>split_nl_insert\<close> up to its call of \<open>insert_into_parent\<close>: the old node keeps the first
  \<open>cut(order) - 1\<close> keys, the next key goes up (it is returned with the new node), the rest
  moves to the new node.
\<close>

definition split_nl :: "btree \<Rightarrow> nat \<Rightarrow> nat \<Rightarrow> idx_key_t \<Rightarrow> nat \<Rightarrow> (idx_key_t \<times> nat \<times> btree) res" where
  "split_nl s old left_index key right =
     (let (a, s1) = make_node False s; split = cut BTREE_ORDER in
      bind_res (bt_get s1 old) (\<lambda>n.
        let temp_pointers = insert_at (left_index + 1) right (nd_children n);
            temp_keys = insert_at left_index key (nd_keys n) in
        bind_res (bt_get s1 a) (\<lambda>m.
          let s2 = bt_put s1 old (n\<lparr>nd_keys := take (split - 1) temp_keys,
                     nd_children := take split temp_pointers, nd_next := Some a\<rparr>);
              s3 = bt_put s2 a (m\<lparr>nd_keys := drop split temp_keys,
                     nd_children := drop split temp_pointers, nd_next := nd_next n,
                     nd_parent := nd_parent n\<rparr>) in
          bind_res (set_parents s3 (drop split temp_pointers) a) (\<lambda>s4.
            Inr (temp_keys ! (split - 1), a, s4)))))"

fun insert_into_parent :: "nat \<Rightarrow> btree \<Rightarrow> nat \<Rightarrow> idx_key_t \<Rightarrow> nat \<Rightarrow> btree res" where
  "insert_into_parent 0 s left key right = Inl Diverges"
| "insert_into_parent (Suc fuel) s left key right =
     bind_res (bt_get s left) (\<lambda>l.
       case nd_parent l of
         None \<Rightarrow> insert_into_new_root s left key right
       | Some p \<Rightarrow>
           bind_res (bt_get s p) (\<lambda>n.
             let i = insert_index key (nd_keys n) in
             if length (nd_keys n) < BTREE_ORDER - 1
             then Inr (bt_put s p (n\<lparr>nd_keys := insert_at i key (nd_keys n),
                         nd_children := insert_at (i + 1) right (nd_children n)\<rparr>))
             else bind_res (split_nl s p i key right) (\<lambda>(k_prime, a, s').
               insert_into_parent fuel s' p k_prime a)))"

definition split_lf_insert :: "btree \<Rightarrow> nat \<Rightarrow> idx_key_t \<Rightarrow> row \<Rightarrow> btree res" where
  "split_lf_insert s leaf key item =
     (let (a, s1) = make_node True s; split = cut (BTREE_ORDER - 1) in
      bind_res (bt_get s1 leaf) (\<lambda>n.
        assert_res (length (nd_keys n) = BTREE_ORDER - 1)
          (let i = insert_index key (nd_keys n);
               temp_keys = insert_at i key (nd_keys n);
               temp_pointers = insert_at i [item] (nd_items n) in
           bind_res (bt_get s1 a) (\<lambda>m.
             let s2 = bt_put s1 leaf (n\<lparr>nd_keys := take split temp_keys,
                        nd_items := take split temp_pointers, nd_next := Some a\<rparr>);
                 s3 = bt_put s2 a (m\<lparr>nd_keys := drop split temp_keys,
                        nd_items := drop split temp_pointers, nd_next := nd_next n,
                        nd_parent := nd_parent n\<rparr>)
             in insert_into_parent (bt_fresh s) s3 leaf (drop split temp_keys ! 0) a))))"

text \<open>The latched nodes of an insertion: from the leaf up to \<open>last_ex\<close>, at most 100 of them.\<close>

fun ex_path :: "nat \<Rightarrow> btree \<Rightarrow> nat \<Rightarrow> nat \<Rightarrow> nat \<Rightarrow> nat list res" where
  "ex_path 0 s node last_ex depth = Inl Diverges"
| "ex_path (Suc fuel) s node last_ex depth =
     (if node = last_ex then Inr [last_ex]
      else bind_res (bt_get s node) (\<lambda>n.
        case nd_parent n of
          None \<Rightarrow> Inl Null_Deref
        | Some p \<Rightarrow> assert_res (depth + 1 < 100)
            (bind_res (ex_path fuel s p last_ex (depth + 1)) (\<lambda>xs. Inr (node # xs)))))"

fun release_all :: "btree \<Rightarrow> nat list \<Rightarrow> btree res" where
  "release_all s [] = Inr s"
| "release_all s (a # as) = bind_res (bt_release_latch s a) (\<lambda>s'. release_all s' as)"

definition bt_index_insert :: "btree \<Rightarrow> idx_key_t \<Rightarrow> row \<Rightarrow> btree res" where
  "bt_index_insert s key item =
     bind_res (find_leaf s key INDEX_INSERT) (\<lambda>(rc, leaf, last_ex, s1).
       assert_res (rc = RCOK)
         (bind_res (case last_ex of None \<Rightarrow> Inr [leaf]
            | Some e \<Rightarrow> ex_path (Suc (bt_fresh s1)) s1 leaf e 0) (\<lambda>ex_list.
            bind_res (bt_get s1 leaf) (\<lambda>n.
              bind_res (if length (nd_keys n) < BTREE_ORDER - 1 \<or> leaf_has_key n key \<noteq> None
                        then insert_into_leaf s1 leaf key item
                        else split_lf_insert s1 leaf key item) (\<lambda>s2.
                release_all s2 ex_list)))))"

end
