(* ===== verification/Btree_Tree.thy ===== *)
theory Btree_Tree
  imports Btree
begin

text \<open>
  B+trees as values, the specification level of \<open>Btree\<close>. A tree \<open>gt\<close> has leaves and inner
  nodes labelled with their heap addresses. \<open>flat\<close> is the in-order sequence of its entries and
  separators, and the search-tree property is that this sequence is sorted: splitting an inner
  node does not change it at all, and pushing a separator up only moves it. A position in a
  tree is a list of frames, innermost first, as the code reaches the ancestors of a leaf by
  \<open>parent\<close>.
\<close>

section \<open>Entries and separators\<close>

datatype belem = Sep idx_key_t | Ent idx_key_t "row list"

fun before :: "belem \<Rightarrow> belem \<Rightarrow> bool" where
  "before (Sep a) (Ent b v) = (a \<le> b)"
| "before (Sep a) (Sep b) = (a < b)"
| "before (Ent a v) (Sep b) = (a < b)"
| "before (Ent a v) (Ent b w) = (a < b)"

lemma before_trans: "before x y \<Longrightarrow> before y z \<Longrightarrow> before x z"
  by (cases x; cases y; cases z) auto

lemma before_value: "before (Ent k v) x = before (Ent k w) x" "before x (Ent k v) = before x (Ent k w)"
  by (cases x; simp)+

lemma sorted_value: "sorted_wrt before (xs @ Ent k v # ys) \<Longrightarrow> sorted_wrt before (xs @ Ent k w # ys)"
  by (simp add: sorted_wrt_append before_value(1)[of k v _ w] before_value(2)[of _ k v w])

fun ents :: "belem list \<Rightarrow> (idx_key_t \<times> row list) list" where
  "ents [] = []"
| "ents (Sep k # es) = ents es"
| "ents (Ent k v # es) = (k, v) # ents es"

lemma ents_append [simp]: "ents (xs @ ys) = ents xs @ ents ys"
  by (induction xs rule: ents.induct) auto

lemma ents_map2 [simp]: "length ks = length vs \<Longrightarrow> ents (map2 Ent ks vs) = zip ks vs"
  by (induction ks vs rule: list_induct2) auto

lemma set_ents: "(k, v) \<in> set (ents es) \<longleftrightarrow> Ent k v \<in> set es"
  by (induction es rule: ents.induct) auto

lemma ents_sorted: "sorted_wrt before es \<Longrightarrow> sorted_wrt (<) (map fst (ents es))"
proof (induction es rule: ents.induct)
  case (3 k v es)
  then show ?case by (fastforce simp: set_ents)
qed auto

section \<open>Trees\<close>

datatype gt = GL nat "idx_key_t list" "row list list" | GN nat "idx_key_t list" "gt list"

definition weave :: "'a list \<Rightarrow> 'a list list \<Rightarrow> 'a list" where
  "weave ks xs = (case xs of [] \<Rightarrow> [] | y # ys \<Rightarrow> y @ concat (map2 (#) ks ys))"

definition rweave :: "'a list \<Rightarrow> 'a list list \<Rightarrow> 'a list" where
  "rweave ks xs = concat (map2 (#) ks xs)"

definition lweave :: "'a list \<Rightarrow> 'a list list \<Rightarrow> 'a list" where
  "lweave ks xs = concat (map2 (\<lambda>k x. x @ [k]) ks xs)"

lemma weave_Cons [simp]: "weave ks (x # xs) = x @ rweave ks xs"
  by (simp add: weave_def rweave_def)

lemma weave_lweave:
  "length ks = length xs \<Longrightarrow> weave ks (xs @ [x]) = lweave ks xs @ x"
proof (induction ks xs rule: list_induct2)
  case (Cons k ks y ys)
  then show ?case by (cases ys) (auto simp: lweave_def rweave_def)
qed (simp add: lweave_def rweave_def)

lemma rweave_append:
  "length ks = length xs \<Longrightarrow> rweave (ks @ ks') (xs @ xs') = rweave ks xs @ rweave ks' xs'"
  by (simp add: rweave_def)

lemma weave_hole:
  assumes "length k1 = length x1" "length k2 = length x2"
  shows "weave (k1 @ k2) (x1 @ x # x2) = lweave k1 x1 @ x @ rweave k2 x2"
  using assms(1)
proof (induction k1 x1 rule: list_induct2)
  case (Cons k ks y ys)
  then show ?case by (cases ys) (auto simp: lweave_def rweave_def)
qed (simp add: lweave_def)

lemma weave_split:
  assumes "length x1 = Suc (length k1)" "length x2 = Suc (length k2)"
  shows "weave (k1 @ k # k2) (x1 @ x2) = weave k1 x1 @ k # weave k2 x2"
  using assms by (cases x1; cases x2) (auto simp: rweave_append, simp add: rweave_def)

primrec gaddr :: "gt \<Rightarrow> nat" where
  "gaddr (GL a ks vs) = a"
| "gaddr (GN a ks ts) = a"

primrec flat :: "gt \<Rightarrow> belem list" where
  "flat (GL a ks vs) = map2 Ent ks vs"
| "flat (GN a ks ts) = weave (map Sep ks) (map flat ts)"

primrec gleaves :: "gt \<Rightarrow> nat list" where
  "gleaves (GL a ks vs) = [a]"
| "gleaves (GN a ks ts) = concat (map gleaves ts)"

primrec gaddrs :: "gt \<Rightarrow> nat list" where
  "gaddrs (GL a ks vs) = [a]"
| "gaddrs (GN a ks ts) = a # concat (map gaddrs ts)"

text \<open>\<open>bal n t\<close>: all leaves are at depth \<open>n\<close>, and the arrays have the lengths of the code.\<close>

fun bal :: "nat \<Rightarrow> gt \<Rightarrow> bool" where
  "bal 0 (GL a ks vs) = (length ks = length vs \<and> length ks \<le> BTREE_ORDER - 1)"
| "bal (Suc n) (GN a ks ts) = (length ts = Suc (length ks) \<and> ks \<noteq> [] \<and> length ks \<le> BTREE_ORDER - 1 \<and>
     (\<forall>t\<in>set ts. bal n t))"
| "bal _ _ = False"

lemma gleaves_height: "bal n t \<Longrightarrow> 2 ^ n \<le> length (gleaves t)"
proof (induction n t rule: bal.induct)
  case (2 n a ks ts)
  have "sum_list (map (\<lambda>t. length (gleaves t)) ts) \<ge> sum_list (map (\<lambda>t. 2 ^ n) ts)"
    using 2 by (intro sum_list_mono) auto
  moreover have "2 \<le> length ts" using 2(2) by (cases ks) auto
  then have "2 * 2 ^ n \<le> length ts * (2 ^ n :: nat)" by (intro mult_right_mono) auto
  then have "2 * 2 ^ n \<le> sum_list (map (\<lambda>t. 2 ^ n :: nat) ts)" by (simp add: sum_list_triv)
  ultimately show ?case
    by (simp add: length_concat comp_def)
qed auto

section \<open>Positions\<close>

text \<open>A frame: the node's address, the keys and children left and right of the hole.\<close>

type_synonym frame = "nat \<times> idx_key_t list \<times> gt list \<times> idx_key_t list \<times> gt list"

fun plug :: "frame list \<Rightarrow> gt \<Rightarrow> gt" where
  "plug [] t = t"
| "plug ((a, kl, ls, kr, rs) # fs) t = plug fs (GN a (kl @ kr) (ls @ t # rs))"

fun cbal :: "nat \<Rightarrow> frame list \<Rightarrow> bool" where
  "cbal n [] = True"
| "cbal n ((a, kl, ls, kr, rs) # fs) = (length kl = length ls \<and> length kr = length rs \<and> kl @ kr \<noteq> [] \<and>
     length (kl @ kr) \<le> BTREE_ORDER - 1 \<and> (\<forall>t\<in>set (ls @ rs). bal n t) \<and> cbal (Suc n) fs)"

fun cl :: "frame list \<Rightarrow> belem list" where
  "cl [] = []"
| "cl ((a, kl, ls, kr, rs) # fs) = cl fs @ lweave (map Sep kl) (map flat ls)"

fun cr :: "frame list \<Rightarrow> belem list" where
  "cr [] = []"
| "cr ((a, kl, ls, kr, rs) # fs) = rweave (map Sep kr) (map flat rs) @ cr fs"

fun leaves_l :: "frame list \<Rightarrow> nat list" where
  "leaves_l [] = []"
| "leaves_l ((a, kl, ls, kr, rs) # fs) = leaves_l fs @ concat (map gleaves ls)"

fun leaves_r :: "frame list \<Rightarrow> nat list" where
  "leaves_r [] = []"
| "leaves_r ((a, kl, ls, kr, rs) # fs) = concat (map gleaves rs) @ leaves_r fs"

fun caddrs :: "frame list \<Rightarrow> nat list" where
  "caddrs [] = []"
| "caddrs ((a, kl, ls, kr, rs) # fs) = a # concat (map gaddrs ls) @ concat (map gaddrs rs) @ caddrs fs"

lemma flat_plug: "cbal n fs \<Longrightarrow> flat (plug fs t) = cl fs @ flat t @ cr fs"
  by (induction fs t arbitrary: n rule: plug.induct) (auto simp: weave_hole)

lemma gleaves_plug: "gleaves (plug fs t) = leaves_l fs @ gleaves t @ leaves_r fs"
  by (induction fs t rule: plug.induct) auto

lemma gaddrs_plug: "mset (gaddrs (plug fs t)) = mset (gaddrs t) + mset (caddrs fs)"
  by (induction fs t rule: plug.induct) (auto simp: ac_simps)

lemma bal_plug: "cbal n fs \<Longrightarrow> bal n t \<Longrightarrow> bal (length fs + n) (plug fs t)"
proof (induction fs t arbitrary: n rule: plug.induct)
  case (2 a kl ls kr rs fs t)
  then have "bal (Suc n) (GN a (kl @ kr) (ls @ t # rs))" by auto
  from 2(1)[OF _ this] 2(2) show ?case by simp
qed simp

text \<open>The search for \<open>key\<close> passes through these frames.\<close>

definition routes :: "idx_key_t \<Rightarrow> frame list \<Rightarrow> bool" where
  "routes key fs \<longleftrightarrow> (\<forall>(a, kl, ls, kr, rs) \<in> set fs. (\<forall>k\<in>set kl. k \<le> key) \<and> (\<forall>k\<in>set kr. key < k))"

lemma lweave_end:
  "length ks = length xs \<Longrightarrow> ks \<noteq> [] \<Longrightarrow>
   lweave ks xs = lweave (butlast ks) (butlast xs) @ last xs @ [last ks]"
proof -
  assume a: "length ks = length xs" "ks \<noteq> []"
  obtain ks' k xs' x where eq: "ks = ks' @ [k]" "xs = xs' @ [x]"
    using a by (cases ks rule: rev_cases; cases xs rule: rev_cases) auto
  then show ?thesis using a by (simp add: lweave_def)
qed

lemma cl_before:
  "cbal n fs \<Longrightarrow> routes key fs \<Longrightarrow> sorted_wrt before (cl fs) \<Longrightarrow> x \<in> set (cl fs) \<Longrightarrow> before x (Ent key v)"
proof (induction fs arbitrary: n rule: cl.induct)
  case (2 a kl ls kr rs fs)
  have kl: "\<forall>k\<in>set kl. k \<le> key" and r: "routes key fs" using 2(3) by (auto simp: routes_def)
  show ?case
  proof (cases "x \<in> set (cl fs)")
    case True
    then show ?thesis using 2 r by (auto simp: sorted_wrt_append)
  next
    case False
    then have x: "x \<in> set (lweave (map Sep kl) (map flat ls))" using 2(5) by simp
    then have ne: "kl \<noteq> []" by (auto simp: lweave_def)
    have len: "length kl = length ls" using 2(2) by simp
    let ?l = "Sep (last kl)"
    have "sorted_wrt before (lweave (map Sep kl) (map flat ls))"
      using 2(4) by (simp add: sorted_wrt_append)
    then have "x = ?l \<or> before x ?l"
      using x ne len by (auto simp: lweave_end sorted_wrt_append last_map)
    moreover have "before ?l (Ent key v)" using kl ne by simp
    ultimately show ?thesis using before_trans by blast
  qed
qed simp

lemma cr_before:
  "cbal n fs \<Longrightarrow> routes key fs \<Longrightarrow> sorted_wrt before (cr fs) \<Longrightarrow> x \<in> set (cr fs) \<Longrightarrow> before (Ent key v) x"
proof (induction fs arbitrary: n rule: cr.induct)
  case (2 a kl ls kr rs fs)
  have kr: "\<forall>k\<in>set kr. key < k" and r: "routes key fs" using 2(3) by (auto simp: routes_def)
  show ?case
  proof (cases "x \<in> set (cr fs)")
    case True
    then show ?thesis using 2 r by (auto simp: sorted_wrt_append)
  next
    case False
    then have x: "x \<in> set (rweave (map Sep kr) (map flat rs))" using 2(5) by simp
    then obtain k kr' y rs' where kr': "kr = k # kr'" "rs = y # rs'"
      by (cases kr; cases rs) (auto simp: rweave_def)
    then have eq: "rweave (map Sep kr) (map flat rs) = Sep k # flat y @ rweave (map Sep kr') (map flat rs')"
      by (simp add: rweave_def)
    have "x = Sep k \<or> before (Sep k) x"
      using x 2(4) by (auto simp: sorted_wrt_append eq)
    moreover have "before (Ent key v) (Sep k)" using kr kr' by simp
    ultimately show ?thesis using before_trans by blast
  qed
qed simp

section \<open>Insertion\<close>

text \<open>Pushing a separator and a new right sibling into the ancestors; \<open>f\<close> is the next address.\<close>

fun gpush :: "nat \<Rightarrow> frame list \<Rightarrow> gt \<Rightarrow> idx_key_t \<Rightarrow> gt \<Rightarrow> gt" where
  "gpush f [] l k r = GN f [k] [l, r]"
| "gpush f ((a, kl, ls, kr, rs) # fs) l k r =
     (let ks = kl @ k # kr; ts = ls @ l # r # rs in
      if length (kl @ kr) < BTREE_ORDER - 1 then plug fs (GN a ks ts)
      else gpush (Suc f) fs (GN a (take 7 ks) (take 8 ts)) (ks ! 7) (GN f (drop 8 ks) (drop 8 ts)))"

text \<open>The number of nodes this allocates.\<close>

fun gnew :: "frame list \<Rightarrow> nat" where
  "gnew [] = 1"
| "gnew ((a, kl, ls, kr, rs) # fs) = (if length (kl @ kr) < BTREE_ORDER - 1 then 0 else Suc (gnew fs))"

lemma weave_cut:
  assumes "length ks = 16" "length ts = 17"
  shows "weave (map Sep ks) (map flat ts) =
    weave (map Sep (take 7 ks)) (map flat (take 8 ts)) @ Sep (ks ! 7) #
    weave (map Sep (drop 8 ks)) (map flat (drop 8 ts))"
proof -
  have "ks = take 7 ks @ ks ! 7 # drop 8 ks"
    using id_take_nth_drop[of 7 ks] assms by simp
  then have "map Sep ks = map Sep (take 7 ks) @ Sep (ks ! 7) # map Sep (drop 8 ks)"
    by (metis list.simps(9) map_append)
  moreover have "map flat ts = map flat (take 8 ts) @ map flat (drop 8 ts)"
    by (metis append_take_drop_id map_append)
  moreover have "weave (map Sep (take 7 ks) @ Sep (ks ! 7) # map Sep (drop 8 ks))
      (map flat (take 8 ts) @ map flat (drop 8 ts)) = weave (map Sep (take 7 ks)) (map flat (take 8 ts)) @
      Sep (ks ! 7) # weave (map Sep (drop 8 ks)) (map flat (drop 8 ts))"
    using assms by (intro weave_split) simp_all
  ultimately show ?thesis by metis
qed

lemma bal_cut:
  assumes "length ks = 16" "length ts = 17" "\<forall>t\<in>set ts. bal n t"
  shows "bal (Suc n) (GN a (take 7 ks) (take 8 ts))" "bal (Suc n) (GN b (drop 8 ks) (drop 8 ts))"
  using assms by (auto dest: in_set_takeD in_set_dropD)

lemma frame_weave:
  "length kl = length ls \<Longrightarrow> length kr = length rs \<Longrightarrow> weave (map Sep (kl @ k # kr)) (map flat (ls @ l # r # rs)) =
   lweave (map Sep kl) (map flat ls) @ flat l @ Sep k # flat r @ rweave (map Sep kr) (map flat rs)"
  using weave_hole[of "map Sep kl" "map flat ls" "Sep k # map Sep kr" "flat r # map flat rs" "flat l"]
  by (simp add: rweave_def)

lemma frame_cut:
  assumes "cbal n ((a, kl, ls, kr, rs) # fs)" "bal n l" "bal n r" "\<not> length (kl @ kr) < BTREE_ORDER - 1"
    and ks: "ks = kl @ k # kr" and ts: "ts = ls @ l # r # rs"
  shows "bal (Suc n) (GN a (take 7 ks) (take 8 ts))" "bal (Suc n) (GN f (drop 8 ks) (drop 8 ts))"
    and "cl fs @ flat (GN a (take 7 ks) (take 8 ts)) @ Sep (ks ! 7) # flat (GN f (drop 8 ks) (drop 8 ts)) @ cr fs =
      cl ((a, kl, ls, kr, rs) # fs) @ flat l @ Sep k # flat r @ cr ((a, kl, ls, kr, rs) # fs)"
proof -
  have len: "length ks = 16" "length ts = 17" using assms by auto
  have "\<forall>t\<in>set ts. bal n t" using assms(1-3) ts by auto
  note bal_cut[OF len this]
  then show "bal (Suc n) (GN a (take 7 ks) (take 8 ts))" "bal (Suc n) (GN f (drop 8 ks) (drop 8 ts))" by blast+
  have "weave (map Sep ks) (map flat ts) = lweave (map Sep kl) (map flat ls) @ flat l @ Sep k # flat r @ rweave (map Sep kr) (map flat rs)"
    using frame_weave[of kl ls kr rs k l r] assms(1) ks ts by simp
  then show "cl fs @ flat (GN a (take 7 ks) (take 8 ts)) @ Sep (ks ! 7) # flat (GN f (drop 8 ks) (drop 8 ts)) @ cr fs =
      cl ((a, kl, ls, kr, rs) # fs) @ flat l @ Sep k # flat r @ cr ((a, kl, ls, kr, rs) # fs)"
    using weave_cut[OF len] by simp
qed

lemma flat_gpush:
  assumes "cbal n fs" "bal n l" "bal n r"
  shows "flat (gpush f fs l k r) = cl fs @ flat l @ Sep k # flat r @ cr fs"
  using assms
proof (induction f fs l k r arbitrary: n rule: gpush.induct)
  case (1 f l k r)
  then show ?case by (simp add: rweave_def)
next
  case (2 f a kl ls kr rs fs l k r)
  show ?case
  proof (cases "length (kl @ kr) < BTREE_ORDER - 1")
    case True
    then show ?thesis using 2(2) frame_weave[of kl ls kr rs k l r] by (simp add: flat_plug[of "Suc n"])
  next
    case False
    note cut = frame_cut[OF 2(2-4) False refl refl]
    from 2(1)[OF refl refl False _ cut(1,2)] 2(2) False show ?thesis
      unfolding cut(3)[where f = f, symmetric] by (simp add: Let_def)
  qed
qed

lemma bal_gpush:
  assumes "cbal n fs" "bal n l" "bal n r"
  shows "\<exists>m. bal m (gpush f fs l k r)"
  using assms
proof (induction f fs l k r arbitrary: n rule: gpush.induct)
  case (1 f l k r)
  then show ?case by (intro exI[of _ "Suc n"]) simp
next
  case (2 f a kl ls kr rs fs l k r)
  let ?ks = "kl @ k # kr" let ?ts = "ls @ l # r # rs"
  show ?case
  proof (cases "length (kl @ kr) < BTREE_ORDER - 1")
    case True
    then have "bal (Suc n) (GN a ?ks ?ts)" using 2(2-4) by auto
    then have "bal (length fs + Suc n) (plug fs (GN a ?ks ?ts))" using 2(2) by (intro bal_plug) auto
    then show ?thesis using True by (auto simp del: bal.simps)
  next
    case False
    note cut = frame_cut[OF 2(2-4) False refl refl]
    from 2(1)[OF refl refl False _ cut(1,2)] 2(2) False show ?thesis by (simp add: Let_def)
  qed
qed

lemma gleaves_gpush:
  "gleaves (gpush f fs l k r) = leaves_l fs @ gleaves l @ gleaves r @ leaves_r fs"
proof (induction f fs l k r rule: gpush.induct)
  case (2 f a kl ls kr rs fs l k r)
  let ?ts = "ls @ l # r # rs"
  have "concat (map gleaves (take 8 ?ts)) @ concat (map gleaves (drop 8 ?ts)) = concat (map gleaves ?ts)"
    by (metis append_take_drop_id concat_append map_append)
  then show ?case
    using 2 by (cases "length (kl @ kr) < BTREE_ORDER - 1") (simp_all add: Let_def gleaves_plug flip: append_assoc)
qed simp

lemma gaddrs_gpush:
  "mset (gaddrs (gpush f fs l k r)) =
   mset (gaddrs l) + mset (gaddrs r) + mset (caddrs fs) + mset [f..<f + gnew fs]"
proof (induction f fs l k r rule: gpush.induct)
  case (2 f a kl ls kr rs fs l k r)
  let ?ts = "ls @ l # r # rs"
  have "mset (concat (map gaddrs (take 8 ?ts))) + mset (concat (map gaddrs (drop 8 ?ts))) = mset (concat (map gaddrs ?ts))"
    by (metis append_take_drop_id concat_append map_append mset_append)
  moreover have "mset [f..<f + Suc (gnew fs)] = {#f#} + mset [Suc f..<Suc f + gnew fs]"
    by (simp add: upt_conv_Cons del: upt_Suc)
  ultimately show ?case
    using 2 by (cases "length (kl @ kr) < BTREE_ORDER - 1")
      (simp_all add: Let_def gaddrs_plug ac_simps del: upt_Suc mset_upt take_append drop_append)
qed simp

section \<open>Leaves\<close>

definition gleaf :: "idx_key_t \<Rightarrow> row \<Rightarrow> idx_key_t list \<Rightarrow> row list list \<Rightarrow> idx_key_t list \<times> row list list" where
  "gleaf key item ks vs =
     (if key \<in> set ks
      then let i = length (takeWhile (\<lambda>k. k \<noteq> key) ks) in (ks, vs[i := item # vs ! i])
      else let i = insert_index key ks in (insert_at i key ks, insert_at i [item] vs))"

definition elem_items :: "belem list \<Rightarrow> idx_key_t \<Rightarrow> row list" where
  "elem_items es k = (case map_of (ents es) k of None \<Rightarrow> [] | Some v \<Rightarrow> v)"

lemma insert_index_le: "insert_index key ks \<le> length ks"
  by (simp add: insert_index_def length_takeWhile_le)

lemma take_insert_index: "x \<in> set (take (insert_index key ks) ks) \<Longrightarrow> x < key"
  by (metis insert_index_def set_takeWhileD takeWhile_eq_take)

lemma drop_insert_index: "sorted_wrt (<) ks \<Longrightarrow> x \<in> set (drop (insert_index key ks) ks) \<Longrightarrow> key \<le> x"
  by (induction ks) (auto simp: insert_index_def split: if_splits)

lemma takeWhile_all: "\<forall>x\<in>set xs. P x \<Longrightarrow> length (takeWhile P xs) = length xs"
  by (induction xs) auto

lemma insert_index_unique:
  assumes "\<forall>k\<in>set kl. k < key" "\<forall>k\<in>set kr. key \<le> k"
  shows "insert_index key (kl @ kr) = length kl"
  using assms by (cases kr) (auto simp: insert_index_def takeWhile_append2 takeWhile_append takeWhile_all)

lemma child_index_unique:
  assumes "\<forall>k\<in>set kl. k \<le> key" "\<forall>k\<in>set kr. key < k"
  shows "child_index key (kl @ kr) = length kl"
  using assms by (cases kr) (auto simp: child_index_def takeWhile_append2 takeWhile_append takeWhile_all not_less)

lemma takeWhile_neq:
  "key \<in> set ks \<Longrightarrow> length (takeWhile (\<lambda>k. k \<noteq> key) ks) < length ks \<and>
     ks ! length (takeWhile (\<lambda>k. k \<noteq> key) ks) = key"
  by (induction ks) auto

lemma map2_insert_at:
  "length ks = length vs \<Longrightarrow> i \<le> length ks \<Longrightarrow>
   map2 f (insert_at i k ks) (insert_at i v vs) = take i (map2 f ks vs) @ f k v # drop i (map2 f ks vs)"
  by (simp add: insert_at_def take_map drop_map take_zip drop_zip)

lemma map2_update:
  "i < length ks \<Longrightarrow> length ks = length vs \<Longrightarrow>
   map2 f ks (vs[i := v]) = take i (map2 f ks vs) @ f (ks ! i) v # drop (Suc i) (map2 f ks vs)"
proof -
  assume "i < length ks" "length ks = length vs"
  moreover from this have "map2 f ks (vs[i := v]) = (map2 f ks vs)[i := f (ks ! i) v]"
    by (intro nth_equalityI) (auto simp: nth_list_update)
  ultimately show ?thesis by (simp add: upd_conv_take_nth_drop)
qed

text \<open>
  The entries around the inserted one, whether it is new or replaces one: the sequence keeps
  its order and gains the item.
\<close>

lemma elem_items_middle:
  assumes "sorted_wrt before (xs @ Ent k v # ys)"
  shows "elem_items (xs @ Ent k v # ys) k' = (if k' = k then v else elem_items (xs @ ys) k')"
proof -
  have "k \<notin> fst ` set (ents xs)"
    using assms by (force simp: sorted_wrt_append set_ents)
  then have "map_of (ents xs) k = None" by (simp add: map_of_eq_None_iff)
  then show ?thesis
    by (simp add: elem_items_def map_add_def split: option.splits)
qed

lemma gleaf_split:
  assumes "sorted_wrt before (xs @ map2 Ent ks vs @ ys)" "length ks = length vs"
    "\<And>x v. x \<in> set xs \<Longrightarrow> before x (Ent key v)" "\<And>y v. y \<in> set ys \<Longrightarrow> before (Ent key v) y"
    "gleaf key item ks vs = (ks', vs')"
  shows "\<exists>us ws. map2 Ent ks' vs' = us @ Ent key (item # elem_items (xs @ map2 Ent ks vs @ ys) key) # ws \<and>
    (\<forall>k. k \<noteq> key \<longrightarrow> elem_items (xs @ map2 Ent ks vs @ ys) k = elem_items ((xs @ us) @ ws @ ys) k) \<and>
    sorted_wrt before (xs @ map2 Ent ks' vs' @ ys)"
proof (cases "key \<in> set ks")
  case True
  let ?i = "length (takeWhile (\<lambda>k. k \<noteq> key) ks)" let ?m = "map2 Ent ks vs"
  let ?us = "take ?i ?m" let ?ws = "drop (Suc ?i) ?m"
  have i: "?i < length ks" "ks ! ?i = key" using takeWhile_neq[OF True] by auto
  have m: "?m = ?us @ Ent key (vs ! ?i) # ?ws"
    using id_take_nth_drop[of ?i ?m] i assms(2) by simp
  have m': "map2 Ent ks' vs' = ?us @ Ent key (item # vs ! ?i) # ?ws"
    using assms(5) True map2_update[OF i(1) assms(2), of Ent] i(2) by (auto simp: gleaf_def Let_def)
  have srt: "sorted_wrt before ((xs @ ?us) @ Ent key (vs ! ?i) # ?ws @ ys)"
    using assms(1) unfolding arg_cong[OF m, of "\<lambda>m. xs @ m @ ys"] by simp
  note it = elem_items_middle[OF srt]
  have "elem_items (xs @ ?m @ ys) k = (if k = key then vs ! ?i else elem_items ((xs @ ?us) @ ?ws @ ys) k)" for k
    using it[of k] unfolding arg_cong[OF m, of "\<lambda>m. elem_items (xs @ m @ ys) k"] by simp
  moreover have "sorted_wrt before (xs @ map2 Ent ks' vs' @ ys)"
    using sorted_value[OF srt] m' by simp
  ultimately show ?thesis using m' by auto
next
  case False
  let ?i = "insert_index key ks" let ?m = "map2 Ent ks vs"
  let ?us = "take ?i ?m" let ?ws = "drop ?i ?m"
  have m': "map2 Ent ks' vs' = ?us @ Ent key [item] # ?ws"
    using assms(5) False map2_insert_at[OF assms(2) insert_index_le, of Ent] by (auto simp: gleaf_def Let_def)
  have ks: "sorted_wrt (<) ks"
    using assms(1,2) ents_sorted[of ?m] by (simp add: sorted_wrt_append)
  have us: "before x (Ent key v)" if "x \<in> set ?us" for x v
    using that take_insert_index[of _ key ks] assms(2)
    by (auto simp: take_map take_zip dest: set_zip_leftD)
  have "key < k" if "k \<in> set (drop ?i ks)" for k
    using that drop_insert_index[OF ks, of k key] False by (metis in_set_dropD order_le_less)
  then have ws: "before (Ent key v) x" if "x \<in> set ?ws" for x v
    using that assms(2) by (auto simp: drop_map drop_zip dest: set_zip_leftD)
  have eq: "xs @ ?m @ ys = (xs @ ?us) @ ?ws @ ys" by simp
  have srt: "sorted_wrt before ((xs @ ?us) @ ?ws @ ys)" using assms(1) eq by argo
  then have "sorted_wrt before (xs @ map2 Ent ks' vs' @ ys)"
    unfolding m' using us ws assms(3,4) by (auto simp: sorted_wrt_append)
  moreover have "elem_items (xs @ ?m @ ys) key = []"
  proof -
    have "(key, v) \<notin> set (ents (xs @ ?m @ ys))" for v
      using assms(2) False assms(3)[of "Ent key v" v] assms(4)[of "Ent key v" v]
      by (auto simp: set_ents dest: set_zip_leftD)
    then have "map_of (ents (xs @ ?m @ ys)) key = None"
      by (auto simp: map_of_eq_None_iff simp del: ents_append)
    then show ?thesis by (simp add: elem_items_def del: ents_append)
  qed
  ultimately show ?thesis using m' eq by (metis append_assoc)
qed

section \<open>Inserting at a leaf\<close>

definition ginsert :: "nat \<Rightarrow> idx_key_t \<Rightarrow> row \<Rightarrow> frame list \<Rightarrow> nat \<Rightarrow> idx_key_t list \<Rightarrow> row list list \<Rightarrow> gt" where
  "ginsert f key item fs a ks vs =
     (case gleaf key item ks vs of (ks', vs') \<Rightarrow>
        if length ks' < BTREE_ORDER then plug fs (GL a ks' vs')
        else gpush (Suc f) fs (GL a (take 8 ks') (take 8 vs')) (ks' ! 8) (GL f (drop 8 ks') (drop 8 vs')))"

lemma sorted_sep:
  "sorted_wrt before (xs @ Ent k1 v1 # Ent k2 v2 # ys) \<Longrightarrow>
   sorted_wrt before (xs @ Ent k1 v1 # Sep k2 # Ent k2 v2 # ys)"
proof -
  assume a: "sorted_wrt before (xs @ Ent k1 v1 # Ent k2 v2 # ys)"
  have "before x (Sep k2)" if "x \<in> set xs" for x
  proof -
    have "before x (Ent k1 v1)" using a that by (simp add: sorted_wrt_append)
    moreover have "before (Ent k1 v1) (Sep k2)" using a by (simp add: sorted_wrt_append)
    ultimately show ?thesis by (rule before_trans)
  qed
  moreover have "before (Sep k2) y" if "y \<in> set ys" for y
  proof -
    have "before (Ent k2 v2) y" using a that by (simp add: sorted_wrt_append)
    then show ?thesis by (cases y) auto
  qed
  ultimately show ?thesis using a by (auto simp: sorted_wrt_append)
qed

lemma length_gleaf:
  "gleaf key item ks vs = (ks', vs') \<Longrightarrow> length ks = length vs \<Longrightarrow>
   length ks' = length vs' \<and> length ks' = (if key \<in> set ks then length ks else Suc (length ks))"
  by (auto simp: gleaf_def insert_at_def Let_def split: if_splits)

text \<open>A leaf that overflows, with the first key of its right half as separator.\<close>

lemma flat_halves:
  assumes "length ks = 16" "length vs = 16" "sorted_wrt before (xs @ map2 Ent ks vs @ ys)"
  shows "sorted_wrt before (xs @ map2 Ent (take 8 ks) (take 8 vs) @ Sep (ks ! 8) # map2 Ent (drop 8 ks) (drop 8 vs) @ ys)"
proof -
  let ?m = "map2 Ent ks vs"
  have m: "?m = take 7 ?m @ Ent (ks ! 7) (vs ! 7) # Ent (ks ! 8) (vs ! 8) # drop 9 ?m"
    using id_take_nth_drop[of 7 ?m] Cons_nth_drop_Suc[of 8 ?m] assms(1,2) by simp
  have "map2 Ent (take 8 ks) (take 8 vs) = take 7 ?m @ [Ent (ks ! 7) (vs ! 7)]"
    using assms(1,2) take_Suc_conv_app_nth[of 7 ?m] by (simp add: take_map take_zip)
  moreover have "map2 Ent (drop 8 ks) (drop 8 vs) = Ent (ks ! 8) (vs ! 8) # drop 9 ?m"
    using assms(1,2) Cons_nth_drop_Suc[of 8 ?m] by (simp add: drop_map drop_zip)
  moreover have "sorted_wrt before ((xs @ take 7 ?m) @ Ent (ks ! 7) (vs ! 7) # Ent (ks ! 8) (vs ! 8) # drop 9 ?m @ ys)"
    using assms(3) unfolding arg_cong[OF m, of "\<lambda>m. xs @ m @ ys"] by simp
  from sorted_sep[OF this] show ?thesis using calculation by simp
qed

lemma ginsert_flat:
  assumes t: "cbal 0 fs" "bal 0 (GL a ks vs)" and g: "gleaf key item ks vs = (ks', vs')"
    and sorted: "sorted_wrt before (cl fs @ map2 Ent ks' vs' @ cr fs)"
  shows "\<exists>m. bal m (ginsert f key item fs a ks vs)"
    and "sorted_wrt before (flat (ginsert f key item fs a ks vs)) \<and>
      elem_items (flat (ginsert f key item fs a ks vs)) = elem_items (cl fs @ map2 Ent ks' vs' @ cr fs)"
proof -
  have len: "length ks' = length vs'" "length ks' \<le> 16"
    using length_gleaf[OF g] t(2) by (auto split: if_splits)
  have "(\<exists>m. bal m (ginsert f key item fs a ks vs)) \<and>
    sorted_wrt before (flat (ginsert f key item fs a ks vs)) \<and>
    elem_items (flat (ginsert f key item fs a ks vs)) = elem_items (cl fs @ map2 Ent ks' vs' @ cr fs)"
  proof (cases "length ks' < BTREE_ORDER")
    case True
    then have "bal 0 (GL a ks' vs')" using len by simp
    then show ?thesis using True bal_plug[OF t(1)] g sorted t(1)
      by (auto simp: ginsert_def flat_plug simp del: bal.simps)
  next
    case False
    then have l16: "length ks' = 16" "length vs' = 16" using len by auto
    let ?l = "GL a (take 8 ks') (take 8 vs')" let ?r = "GL f (drop 8 ks') (drop 8 vs')"
    have bal: "bal 0 ?l" "bal 0 ?r" using l16 by auto
    have gi: "ginsert f key item fs a ks vs = gpush (Suc f) fs ?l (ks' ! 8) ?r"
      using False g by (simp add: ginsert_def)
    have z: "zip ks' vs' = zip (take 8 ks') (take 8 vs') @ zip (drop 8 ks') (drop 8 vs')"
      using l16 by (simp add: take_zip[symmetric] drop_zip[symmetric])
    have "ents (cl fs @ flat ?l @ Sep (ks' ! 8) # flat ?r @ cr fs) = ents (cl fs @ map2 Ent ks' vs' @ cr fs)"
      using l16 by (simp add: z)
    then have "elem_items (flat (ginsert f key item fs a ks vs)) = elem_items (cl fs @ map2 Ent ks' vs' @ cr fs)"
      unfolding gi flat_gpush[OF t(1) bal] by (simp add: elem_items_def fun_eq_iff del: ents_append)
    moreover have "sorted_wrt before (flat (ginsert f key item fs a ks vs))"
      unfolding gi flat_gpush[OF t(1) bal] using flat_halves[OF l16 sorted] by simp
    ultimately show ?thesis using bal_gpush[OF t(1) bal] gi by auto
  qed
  then show "\<exists>m. bal m (ginsert f key item fs a ks vs)"
    and "sorted_wrt before (flat (ginsert f key item fs a ks vs)) \<and>
      elem_items (flat (ginsert f key item fs a ks vs)) = elem_items (cl fs @ map2 Ent ks' vs' @ cr fs)"
    by blast+
qed

lemma ginsert_spec:
  assumes t: "cbal 0 fs" "bal 0 (GL a ks vs)" "routes key fs"
    and sorted: "sorted_wrt before (flat (plug fs (GL a ks vs)))"
  shows "\<exists>m. bal m (ginsert f key item fs a ks vs)"
    and "sorted_wrt before (flat (ginsert f key item fs a ks vs))"
    and "elem_items (flat (ginsert f key item fs a ks vs)) k =
      (if k = key then item # elem_items (flat (plug fs (GL a ks vs))) key
       else elem_items (flat (plug fs (GL a ks vs))) k)"
proof -
  obtain ks' vs' where g: "gleaf key item ks vs = (ks', vs')" by fastforce
  have len: "length ks = length vs" using t(2) by auto
  have flat: "flat (plug fs (GL a ks vs)) = cl fs @ map2 Ent ks vs @ cr fs"
    using t(1) by (simp add: flat_plug)
  have "sorted_wrt before (cl fs)" "sorted_wrt before (cr fs)"
    using sorted by (auto simp: flat sorted_wrt_append)
  note around = cl_before[OF t(1,3) this(1)] cr_before[OF t(1,3) this(2)]
  obtain us ws where m: "map2 Ent ks' vs' = us @ Ent key (item # elem_items (flat (plug fs (GL a ks vs))) key) # ws"
      "\<forall>k. k \<noteq> key \<longrightarrow> elem_items (flat (plug fs (GL a ks vs))) k = elem_items ((cl fs @ us) @ ws @ cr fs) k"
      "sorted_wrt before (cl fs @ map2 Ent ks' vs' @ cr fs)"
    using gleaf_split[OF sorted[unfolded flat] len around g] by (auto simp: flat)
  note new = ginsert_flat[OF t(1,2) g m(3), of f]
  show "\<exists>m. bal m (ginsert f key item fs a ks vs)" "sorted_wrt before (flat (ginsert f key item fs a ks vs))"
    using new by auto
  show "elem_items (flat (ginsert f key item fs a ks vs)) k =
      (if k = key then item # elem_items (flat (plug fs (GL a ks vs))) key
       else elem_items (flat (plug fs (GL a ks vs))) k)"
    using elem_items_middle[of "cl fs @ us" key _ "ws @ cr fs" k] m new by auto
qed

lemma gleaves_ginsert:
  "gleaves (ginsert f key item fs a ks vs) =
   leaves_l fs @ a # (if length (fst (gleaf key item ks vs)) < BTREE_ORDER then [] else [f]) @ leaves_r fs"
  by (simp add: ginsert_def gleaves_plug gleaves_gpush split: prod.splits)

lemma gaddrs_ginsert:
  "mset (gaddrs (ginsert f key item fs a ks vs)) = mset (gaddrs (plug fs (GL a ks vs))) +
   mset [f..<f + (if length (fst (gleaf key item ks vs)) < BTREE_ORDER then 0 else Suc (gnew fs))]"
proof -
  obtain ks' vs' where g: "gleaf key item ks vs = (ks', vs')" by fastforce
  show ?thesis
  proof (cases "length ks' < BTREE_ORDER")
    case True
    then show ?thesis using g by (simp add: ginsert_def gaddrs_plug)
  next
    case False
    then show ?thesis using g
      by (simp add: ginsert_def gaddrs_plug gaddrs_gpush upt_conv_Cons del: upt_Suc mset_upt)
  qed
qed

section \<open>The sequence of leaves\<close>

primrec glf :: "gt \<Rightarrow> (nat \<times> idx_key_t list \<times> row list list) list" where
  "glf (GL a ks vs) = [(a, ks, vs)]"
| "glf (GN a ks ts) = concat (map glf ts)"

fun glf_l :: "frame list \<Rightarrow> (nat \<times> idx_key_t list \<times> row list list) list" where
  "glf_l [] = []"
| "glf_l ((a, kl, ls, kr, rs) # fs) = glf_l fs @ concat (map glf ls)"

fun glf_r :: "frame list \<Rightarrow> (nat \<times> idx_key_t list \<times> row list list) list" where
  "glf_r [] = []"
| "glf_r ((a, kl, ls, kr, rs) # fs) = concat (map glf rs) @ glf_r fs"

lemma gleaves_glf: "gleaves t = map fst (glf t)"
  by (induction t) (auto simp: map_concat comp_def cong: map_cong)

lemma glf_plug: "glf (plug fs t) = glf_l fs @ glf t @ glf_r fs"
  by (induction fs t rule: plug.induct) auto

lemma glf_gpush: "glf (gpush f fs l k r) = glf_l fs @ glf l @ glf r @ glf_r fs"
proof (induction f fs l k r rule: gpush.induct)
  case (2 f a kl ls kr rs fs l k r)
  let ?ts = "ls @ l # r # rs"
  have "concat (map glf (take 8 ?ts)) @ concat (map glf (drop 8 ?ts)) = concat (map glf ?ts)"
    by (metis append_take_drop_id concat_append map_append)
  then show ?case
    using 2 by (cases "length (kl @ kr) < BTREE_ORDER - 1") (simp_all add: Let_def glf_plug flip: append_assoc)
qed simp

text \<open>Only a tree that is a single leaf may have an empty leaf, and every entry has an item.\<close>

definition filled :: "gt \<Rightarrow> bool" where
  "filled t \<longleftrightarrow> (length (glf t) = 1 \<or> (\<forall>x\<in>set (glf t). fst (snd x) \<noteq> [])) \<and>
     (\<forall>x\<in>set (glf t). [] \<notin> set (snd (snd x)))"

lemma gleaf_items: "gleaf key item ks vs = (ks', vs') \<Longrightarrow> [] \<notin> set vs \<Longrightarrow> [] \<notin> set vs'"
  by (auto simp: gleaf_def insert_at_def Let_def split: if_splits
      dest: in_set_takeD in_set_dropD set_update_subset_insert[THEN subsetD])

lemma filled_ginsert:
  assumes "filled (plug fs (GL a ks vs))" "bal 0 (GL a ks vs)"
  shows "filled (ginsert f key item fs a ks vs)"
proof -
  obtain ks' vs' where g: "gleaf key item ks vs = (ks', vs')" by fastforce
  have len: "length ks' = (if key \<in> set ks then length ks else Suc (length ks))"
    using length_gleaf[OF g] assms(2) by simp
  then have "ks' \<noteq> []" by (auto split: if_splits)
  then have "\<forall>x\<in>set (glf_l fs @ X @ glf_r fs). fst (snd x) \<noteq> []"
    if "\<forall>x\<in>set X. fst (snd x) \<noteq> []" for X :: "(nat \<times> idx_key_t list \<times> row list list) list"
    using that assms(1) by (auto simp: filled_def glf_plug)
  note keys = this[of "[(a, ks', vs')]"] this[of "[(a, take 8 ks', take 8 vs'), (f, drop 8 ks', drop 8 vs')]"]
  have "[] \<notin> set vs'" using gleaf_items[OF g] assms(1) by (simp add: filled_def glf_plug)
  then have "\<forall>x\<in>set (glf (ginsert f key item fs a ks vs)). [] \<notin> set (snd (snd x))"
    using g assms(1) by (auto simp: filled_def ginsert_def glf_plug glf_gpush dest: in_set_takeD in_set_dropD)
  then show ?thesis
    using g keys \<open>ks' \<noteq> []\<close> by (auto simp: filled_def ginsert_def glf_plug glf_gpush)
qed

lemma ents_weave: "length xs = Suc (length ks) \<Longrightarrow> ents (weave (map Sep ks) xs) = concat (map ents xs)"
proof (induction ks arbitrary: xs)
  case Nil
  then show ?case by (cases xs) (auto simp: rweave_def)
next
  case (Cons k ks)
  obtain x y ys where xs: "xs = x # y # ys" using Cons(2) by (cases xs; cases "tl xs") auto
  have "weave (map Sep (k # ks)) xs = x @ Sep k # weave (map Sep ks) (y # ys)"
    using xs by (simp add: rweave_def)
  then show ?case using Cons(1)[of "y # ys"] Cons(2) xs by simp
qed

lemma concat_map_concat: "concat (map f (concat xs)) = concat (map (\<lambda>x. concat (map f x)) xs)"
  by (induction xs) auto

lemma ents_glf: "bal n t \<Longrightarrow> ents (flat t) = concat (map (\<lambda>(a, ks, vs). zip ks vs) (glf t))"
proof (induction n t rule: bal.induct)
  case (2 n a ks ts)
  then have "map (\<lambda>t. ents (flat t)) ts = map (\<lambda>t. concat (map (\<lambda>(a, ks, vs). zip ks vs) (glf t))) ts"
    by auto
  then show ?case using 2(2) by (simp add: ents_weave concat_map_concat comp_def cong: map_cong)
qed auto

lemma glf_bal: "bal n t \<Longrightarrow> (a, ks, vs) \<in> set (glf t) \<Longrightarrow> length ks = length vs"
  by (induction n t rule: bal.induct) auto

end
