(* ===== verification/Btree_Latch.thy ===== *)
theory Btree_Latch
  imports Btree_Tree
begin

text \<open>
  Latches and data of the B+tree are independent: \<open>relatch E S s\<close> is the tree \<open>s\<close> with the nodes
  of \<open>E\<close> latched exclusively, those of \<open>S\<close> by one reader and all others free. Every latch
  operation maps one such state to another, and the operations that change keys and pointers
  commute with it. So an insertion into a tree without holders is its effect on the data, which
  is what \<open>Btree_Insert\<close> reasons about.
\<close>

definition latch_ex :: page_latch where
  "latch_ex = \<lparr>pl_latch = False, pl_type = LATCH_EX, pl_share_cnt = 0\<rparr>"

definition latch_sh :: page_latch where
  "latch_sh = \<lparr>pl_latch = False, pl_type = LATCH_SH, pl_share_cnt = 1\<rparr>"

definition latch_of :: "nat set \<Rightarrow> nat set \<Rightarrow> nat \<Rightarrow> page_latch" where
  "latch_of E S a = (if a \<in> E then latch_ex else if a \<in> S then latch_sh else latch_free)"

definition relab :: "nat set \<Rightarrow> nat set \<Rightarrow> nat \<Rightarrow> bt_node \<Rightarrow> bt_node" where
  "relab E S a n = n\<lparr>nd_latch := latch_of E S a\<rparr>"

definition relatch :: "nat set \<Rightarrow> nat set \<Rightarrow> btree \<Rightarrow> btree" where
  "relatch E S s = s\<lparr>bt_heap := (\<lambda>a. map_option (relab E S a) (bt_heap s a))\<rparr>"

definition quiet :: "btree \<Rightarrow> bool" where
  "quiet s \<longleftrightarrow> relatch {} {} s = s"

named_theorems relatch_simps \<open>operations on a relatched tree\<close>

lemma relab_sel [simp]:
  "nd_is_leaf (relab E S a n) = nd_is_leaf n" "nd_keys (relab E S a n) = nd_keys n"
  "nd_items (relab E S a n) = nd_items n" "nd_children (relab E S a n) = nd_children n"
  "nd_parent (relab E S a n) = nd_parent n" "nd_next (relab E S a n) = nd_next n"
  "nd_latch (relab E S a n) = latch_of E S a"
  by (simp_all add: relab_def)

lemma relab_upd [relatch_simps]:
  "(relab E S a n)\<lparr>nd_keys := ks\<rparr> = relab E S a (n\<lparr>nd_keys := ks\<rparr>)"
  "(relab E S a n)\<lparr>nd_items := vs\<rparr> = relab E S a (n\<lparr>nd_items := vs\<rparr>)"
  "(relab E S a n)\<lparr>nd_children := cs\<rparr> = relab E S a (n\<lparr>nd_children := cs\<rparr>)"
  "(relab E S a n)\<lparr>nd_parent := p\<rparr> = relab E S a (n\<lparr>nd_parent := p\<rparr>)"
  "(relab E S a n)\<lparr>nd_next := x\<rparr> = relab E S a (n\<lparr>nd_next := x\<rparr>)"
  by (simp_all add: relab_def)

lemma relatch_sel [simp]:
  "bt_fresh (relatch E S s) = bt_fresh s" "bt_root (relatch E S s) = bt_root s"
  "bt_node_id (relatch E S s) = bt_node_id s" "bt_cur_leaf (relatch E S s) = bt_cur_leaf s"
  "bt_cur_idx (relatch E S s) = bt_cur_idx s"
  by (simp_all add: relatch_def)

lemma relatch_relatch [simp]: "relatch E S (relatch E' S' s) = relatch E S s"
proof -
  have "relab E S a \<circ> relab E' S' a = relab E S a" for a
    by (simp add: relab_def comp_def fun_eq_iff)
  then show ?thesis by (simp add: relatch_def option.map_comp)
qed

lemma quiet_relatch [simp]: "quiet (relatch {} {} s)"
  by (simp add: quiet_def)

lemma bt_get_relatch: "bt_get (relatch E S s) a = bind_res (bt_get s a) (\<lambda>n. Inr (relab E S a n))"
  by (simp add: bt_get_def relatch_def split: option.split)

lemma bind_get_relatch [relatch_simps]:
  "bind_res (bt_get (relatch E S s) a) f = bind_res (bt_get s a) (\<lambda>n. f (relab E S a n))"
  by (simp add: bt_get_relatch bind_res_def split: sum.split)

lemma bt_put_relatch [relatch_simps]: "bt_put (relatch E S s) a (relab E S a n) = relatch E S (bt_put s a n)"
  by (rule btree.equality) (auto simp: bt_put_def relatch_def)

lemma bt_put_sel [simp]:
  "bt_fresh (bt_put s a n) = bt_fresh s" "bt_root (bt_put s a n) = bt_root s"
  by (simp_all add: bt_put_def)

lemma make_node_relatch [relatch_simps]:
  "bt_fresh s \<notin> E \<Longrightarrow> bt_fresh s \<notin> S \<Longrightarrow>
   make_node leaf (relatch E S s) = (fst (make_node leaf s), relatch E S (snd (make_node leaf s)))"
  by (auto simp: make_node_def relatch_def relab_def latch_of_def Let_def intro!: btree.equality)

lemma fst_make_node [simp]: "fst (make_node leaf s) = bt_fresh s"
  by (simp add: make_node_def Let_def)

lemma bt_fresh_make_node [simp]: "bt_fresh (snd (make_node leaf s)) = Suc (bt_fresh s)"
  by (simp add: make_node_def Let_def)

lemma root_relatch [relatch_simps]: "(relatch E S s)\<lparr>bt_root := a\<rparr> = relatch E S (s\<lparr>bt_root := a\<rparr>)"
  by (simp add: relatch_def)

section \<open>Latch operations\<close>

lemmas latch_of_defs = latch_of_def latch_ex_def latch_sh_def latch_free_def

lemma relatch_put:
  "bt_heap s a = Some n \<Longrightarrow> (\<And>b. b \<noteq> a \<Longrightarrow> latch_of E' S' b = latch_of E S b) \<Longrightarrow> latch_of E' S' a = l \<Longrightarrow>
   bt_put (relatch E S s) a ((relab E S a n)\<lparr>nd_latch := l\<rparr>) = relatch E' S' s"
  by (rule btree.equality) (auto simp: bt_put_def relatch_def relab_def fun_eq_iff intro!: option.map_cong0)

lemma latch_node_relatch:
  assumes "bt_heap s a = Some n" "a \<notin> E" "a \<notin> S"
  shows "bt_latch_node (relatch E S s) a LATCH_SH = Inr (True, relatch E (insert a S) s)"
proof -
  have "latch_node (latch_of E S a) LATCH_SH = Inr (True, latch_sh)"
    using assms by (simp add: latch_of_defs latch_node_def)
  then show ?thesis
    using assms relatch_put[OF assms(1), of E "insert a S" E S latch_sh]
    by (simp add: bt_latch_node_def bt_get_relatch bt_get_def[of s] latch_of_def)
qed

lemma release_sh_relatch:
  assumes "bt_heap s a = Some n" "a \<notin> E" "a \<in> S"
  shows "bt_release_latch (relatch E S s) a = Inr (relatch E (S - {a}) s)"
proof -
  have "release_latch (latch_of E S a) = Inr (LATCH_SH, latch_free)"
    using assms by (simp add: latch_of_defs release_latch_def)
  then show ?thesis
    using assms relatch_put[OF assms(1), of E "S - {a}" E S latch_free]
    by (simp add: bt_release_latch_def bt_get_relatch bt_get_def[of s] latch_of_def)
qed

lemma release_ex_relatch:
  assumes "bt_heap s a = Some n" "a \<in> E" "a \<notin> S"
  shows "bt_release_latch (relatch E S s) a = Inr (relatch (E - {a}) S s)"
proof -
  have "release_latch (latch_of E S a) = Inr (LATCH_EX, latch_free)"
    using assms by (simp add: latch_of_defs release_latch_def)
  then show ?thesis
    using assms relatch_put[OF assms(1), of "E - {a}" S E S latch_free]
    by (simp add: bt_release_latch_def bt_get_relatch bt_get_def[of s] latch_of_def)
qed

lemma upgrade_relatch:
  assumes "bt_heap s a = Some n" "a \<notin> E" "a \<in> S"
  shows "bt_upgrade_latch (relatch E S s) a = Inr (RCOK, relatch (insert a E) (S - {a}) s)"
proof -
  have "upgrade_latch (latch_of E S a) = Inr (RCOK, latch_ex)"
    using assms by (simp add: latch_of_defs upgrade_latch_def)
  then show ?thesis
    using assms relatch_put[OF assms(1), of "insert a E" "S - {a}" E S latch_ex]
    by (simp add: bt_upgrade_latch_def bt_get_relatch bt_get_def[of s] latch_of_def)
qed

section \<open>Data operations\<close>

definition lmap :: "nat set \<Rightarrow> nat set \<Rightarrow> btree res \<Rightarrow> btree res" where
  "lmap E S r = bind_res r (\<lambda>s. Inr (relatch E S s))"

lemma lmap_Inr [simp]: "lmap E S (Inr s) = Inr (relatch E S s)"
  by (simp add: lmap_def)

lemma lmap_Inl [simp]: "lmap E S (Inl e) = Inl e"
  by (simp add: lmap_def)

lemma lmap_bind [relatch_simps]: "lmap E S (bind_res r f) = bind_res r (\<lambda>x. lmap E S (f x))"
  by (cases r) simp_all

lemma bind_bind [relatch_simps]: "bind_res (bind_res r f) g = bind_res r (\<lambda>x. bind_res (f x) g)"
  by (cases r) simp_all

lemma lmap_assert [relatch_simps]: "lmap E S (assert_res b r) = assert_res b (lmap E S r)"
  by (simp add: assert_res_def)

lemma leaf_has_key_relab [simp]: "leaf_has_key (relab E S a n) key = leaf_has_key n key"
  by (simp add: leaf_has_key_def)

lemma insert_into_leaf_relatch:
  "insert_into_leaf (relatch E S s) leaf key item = lmap E S (insert_into_leaf s leaf key item)"
  by (auto simp: insert_into_leaf_def relatch_simps Let_def intro!: bind_res_cong split: option.split)

lemma insert_into_new_root_relatch:
  assumes "bt_fresh s \<notin> E" "bt_fresh s \<notin> S"
  shows "insert_into_new_root (relatch E S s) l key r = lmap E S (insert_into_new_root s l key r)"
  using assms by (simp add: insert_into_new_root_def relatch_simps Let_def split_beta)

lemma set_parents_relatch: "set_parents (relatch E S s) cs p = lmap E S (set_parents s cs p)"
  by (induction cs arbitrary: s) (simp_all add: relatch_simps)

lemma split_nl_relatch:
  assumes "bt_fresh s \<notin> E" "bt_fresh s \<notin> S"
  shows "split_nl (relatch E S s) old i key r =
    bind_res (split_nl s old i key r) (\<lambda>(k, a, s'). Inr (k, a, relatch E S s'))"
  using assms by (simp add: split_nl_def relatch_simps set_parents_relatch Let_def split_beta lmap_def)

lemma bt_fresh_set_parents: "set_parents s cs p = Inr s' \<Longrightarrow> bt_fresh s' = bt_fresh s"
  by (induction cs arbitrary: s) (auto simp: res_simps)

lemma bt_fresh_split_nl: "split_nl s old i key r = Inr (k, a, s') \<Longrightarrow> bt_fresh s' = Suc (bt_fresh s)"
  by (auto simp: split_nl_def res_simps split_beta Let_def dest: bt_fresh_set_parents)

lemma insert_into_parent_relatch:
  assumes "\<forall>x\<in>E \<union> S. x < bt_fresh s"
  shows "insert_into_parent fuel (relatch E S s) l key r = lmap E S (insert_into_parent fuel s l key r)"
  using assms
proof (induction fuel arbitrary: s l key r)
  case (Suc fuel)
  have fresh: "bt_fresh s \<notin> E" "bt_fresh s \<notin> S" using Suc.prems by auto
  have "insert_into_parent fuel (relatch E S s') p k a = lmap E S (insert_into_parent fuel s' p k a)"
    if "split_nl s old i key r = Inr (k, a, s')" for old i s' p k a
    using Suc.prems bt_fresh_split_nl[OF that] by (intro Suc.IH) (auto simp: less_Suc_eq)
  then show ?case
    by (auto simp: relatch_simps insert_into_new_root_relatch[OF fresh] split_nl_relatch[OF fresh] Let_def
        intro!: bind_res_cong split: option.split)
qed simp

lemma split_lf_insert_relatch:
  assumes "\<forall>x\<in>E \<union> S. x < bt_fresh s"
  shows "split_lf_insert (relatch E S s) leaf key item = lmap E S (split_lf_insert s leaf key item)"
proof -
  have fresh: "bt_fresh s \<notin> E" "bt_fresh s \<notin> S" using assms by auto
  have "insert_into_parent fuel (relatch E S s') l k r = lmap E S (insert_into_parent fuel s' l k r)"
    if "bt_fresh s' = Suc (bt_fresh s)" for fuel s' l k r
    using assms that by (intro insert_into_parent_relatch) (auto simp: less_Suc_eq)
  then show ?thesis
    using fresh by (simp add: split_lf_insert_def relatch_simps Let_def split_beta)
qed

end
