(* ===== verification/Btree_Descent.thy ===== *)
theory Btree_Descent
  imports Btree_Latch
begin

text \<open>
  Trees of \<open>Btree_Tree\<close> in the heap, and the latched descent: it reaches the leaf the key belongs
  to and leaves the right latches.
\<close>

section \<open>Trees in the heap\<close>

type_synonym shape = "bool \<times> idx_key_t list \<times> row list list \<times> nat list \<times> nat option"

definition shape_of :: "bt_node \<Rightarrow> shape" where
  "shape_of n = (nd_is_leaf n, nd_keys n, nd_items n, nd_children n, nd_parent n)"

definition view :: "btree \<Rightarrow> nat \<Rightarrow> shape option" where
  "view s a = map_option shape_of (bt_heap s a)"

definition holds :: "(nat \<Rightarrow> shape option) \<Rightarrow> (nat \<times> shape) set \<Rightarrow> bool" where
  "holds v M \<longleftrightarrow> (\<forall>(a, c)\<in>M. v a = Some c)"

fun gnodes :: "gt \<Rightarrow> nat option \<Rightarrow> (nat \<times> shape) set" where
  "gnodes (GL a ks vs) p = {(a, (True, ks, vs, [], p))}"
| "gnodes (GN a ks ts) p = insert (a, (False, ks, [], map gaddr ts, p)) (\<Union>t\<in>set ts. gnodes t (Some a))"

fun par :: "frame list \<Rightarrow> nat option" where
  "par [] = None"
| "par (f # fs) = Some (fst f)"

fun cnodes :: "frame list \<Rightarrow> nat \<Rightarrow> (nat \<times> shape) set" where
  "cnodes [] c = {}"
| "cnodes ((a, kl, ls, kr, rs) # fs) c =
     insert (a, (False, kl @ kr, [], map gaddr ls @ c # map gaddr rs, par fs))
       ((\<Union>t\<in>set ls \<union> set rs. gnodes t (Some a)) \<union> cnodes fs a)"

lemma holds_Un [simp]: "holds v (M \<union> N) \<longleftrightarrow> holds v M \<and> holds v N"
  by (auto simp: holds_def)

lemma holds_insert [simp]: "holds v (insert (a, c) M) \<longleftrightarrow> v a = Some c \<and> holds v M"
  by (auto simp: holds_def)

lemma holds_empty [simp]: "holds v {}"
  by (simp add: holds_def)

lemma gnodes_plug: "gnodes (plug fs t) None = gnodes t (par fs) \<union> cnodes fs (gaddr t)"
  by (induction fs t rule: plug.induct) (auto simp: image_Un)

lemma fst_gnodes: "fst ` gnodes t p = set (gaddrs t)"
  by (induction t arbitrary: p) (auto simp: image_UN)

lemma fst_cnodes: "fst ` cnodes fs c = set (caddrs fs)"
  by (induction fs c rule: cnodes.induct) (auto simp: image_UN image_Un fst_gnodes)

lemma gaddr_in [simp]: "gaddr t \<in> set (gaddrs t)"
  by (cases t) auto

lemma gaddrs_children: "t \<in> set ts \<Longrightarrow> set (gaddrs t) \<subseteq> set (gaddrs (GN a ks ts))"
  by auto

lemma holds_cong: "holds v M \<Longrightarrow> (\<And>a. a \<in> fst ` M \<Longrightarrow> v' a = v a) \<Longrightarrow> holds v' M"
  by (force simp: holds_def)

lemma viewD:
  assumes "view s a = Some (b, ks, vs, cs, p)"
  obtains n where "bt_heap s a = Some n" "bt_get s a = Inr n" "nd_is_leaf n = b" "nd_keys n = ks" "nd_items n = vs"
    "nd_children n = cs" "nd_parent n = p"
  using assms by (auto simp: view_def shape_of_def bt_get_def)

lemma bt_get_Some: "bt_heap s a = Some n \<Longrightarrow> bt_get s a = Inr n"
  by (simp add: bt_get_def)

section \<open>The descent\<close>

lemma set_rweave: "length ks = length xs \<Longrightarrow> set ks \<subseteq> set (rweave ks xs)"
  by (induction ks xs rule: list_induct2) (auto simp: rweave_def)

lemma weave_keys_sorted:
  "sorted_wrt before (weave (map Sep ks) xs) \<Longrightarrow> length xs = Suc (length ks) \<Longrightarrow> sorted_wrt (<) ks"
proof (induction ks arbitrary: xs)
  case (Cons k ks)
  obtain x y ys where xs: "xs = x # y # ys" using Cons(3) by (cases xs; cases "tl xs") auto
  then have eq: "weave (map Sep (k # ks)) xs = x @ Sep k # weave (map Sep ks) (y # ys)"
    by (simp add: rweave_def)
  have "set (map Sep ks) \<subseteq> set (weave (map Sep ks) (y # ys))"
    using Cons(3) xs set_rweave[of "map Sep ks" ys] by auto
  then have "\<forall>k'\<in>set ks. before (Sep k) (Sep k')"
    using Cons(2) eq by (auto simp: sorted_wrt_append simp del: weave_Cons before.simps)
  moreover have "sorted_wrt (<) ks"
    using Cons(2,3) eq xs by (intro Cons(1)[of "y # ys"]) (auto simp: sorted_wrt_append simp del: weave_Cons)
  ultimately show ?case by simp
qed simp

lemma child_index_drop: "sorted_wrt (<) ks \<Longrightarrow> x \<in> set (drop (child_index key ks) ks) \<Longrightarrow> key < x"
  by (induction ks) (auto simp: child_index_def split: if_splits)

lemma child_index_take: "x \<in> set (take (child_index key ks) ks) \<Longrightarrow> x \<le> key"
  by (metis child_index_def not_less set_takeWhileD takeWhile_eq_take)

lemma inner_frame:
  assumes "bal (Suc n) (GN a ks ts)" "sorted_wrt before (flat (GN a ks ts))"
  obtains kl ls t kr rs where "ks = kl @ kr" "ts = ls @ t # rs" "child_index key ks = length ls"
    "routes key [(a, kl, ls, kr, rs)]" "cbal n [(a, kl, ls, kr, rs)]" "bal n t"
proof -
  let ?i = "child_index key ks"
  have i: "?i \<le> length ks" by (simp add: child_index_def length_takeWhile_le)
  have len: "length ts = Suc (length ks)" "length ks \<le> 15" "ks \<noteq> []" and bal: "\<forall>t\<in>set ts. bal n t"
    using assms(1) by auto
  have "sorted_wrt (<) ks" using weave_keys_sorted[of ks "map flat ts"] assms(2) len by simp
  then have "routes key [(a, take ?i ks, take ?i ts, drop ?i ks, drop (Suc ?i) ts)]"
    using child_index_drop[of ks _ key] child_index_take[of _ key ks] by (auto simp: routes_def)
  moreover have "ts = take ?i ts @ ts ! ?i # drop (Suc ?i) ts"
    using i len by (intro id_take_nth_drop) simp
  moreover have "cbal n [(a, take ?i ks, take ?i ts, drop ?i ks, drop (Suc ?i) ts)]"
    using i len bal by (auto dest: in_set_takeD in_set_dropD)
  ultimately show ?thesis
    using that[of "take ?i ks" "drop ?i ks" "take ?i ts" "ts ! ?i" "drop (Suc ?i) ts"] i len bal by simp
qed

lemma child_at_inner:
  "nd_keys n = ks \<Longrightarrow> nd_children n = map gaddr (ls @ t # rs) \<Longrightarrow> child_index key ks = length ls \<Longrightarrow>
   child_at n key = Inr (gaddr t)"
  by (simp add: child_at_def nth_append Let_def)

text \<open>The exclusively latched ancestors: the first \<open>j\<close> frames; \<open>last_ex\<close> is the topmost of them.\<close>

definition exs :: "nat \<Rightarrow> frame list \<Rightarrow> nat list" where
  "exs j fs = map fst (take j fs)"

definition lx :: "nat \<Rightarrow> frame list \<Rightarrow> nat option" where
  "lx j fs = (if j = 0 then None else Some (fst (fs ! (j - 1))))"

fun pchain :: "btree \<Rightarrow> nat \<Rightarrow> frame list \<Rightarrow> bool" where
  "pchain s c [] = True"
| "pchain s c (f # fs) = ((\<exists>n. bt_heap s c = Some n \<and> nd_parent n = Some (fst f)) \<and>
     fst f \<in> dom (bt_heap s) \<and> pchain s (fst f) fs)"

lemma pchain_cnodes:
  "holds (view s) (cnodes fs c) \<Longrightarrow> view s c = Some (b, ks, vs, cs, par fs) \<Longrightarrow> pchain s c fs"
proof (induction fs c arbitrary: b ks vs cs rule: cnodes.induct)
  case (2 a kl ls kr rs fs c)
  then have a: "view s a = Some (False, kl @ kr, [], map gaddr ls @ c # map gaddr rs, par fs)" by simp
  then have "pchain s a fs" using 2(1)[OF _ a] 2(2) by simp
  with a show ?case using 2(3) by (auto elim!: viewD)
qed simp

lemma exs_Suc [simp]: "exs (Suc j) (f # fs) = fst f # exs j fs"
  by (simp add: exs_def)

lemma exs_0 [simp]: "exs 0 fs = []"
  by (simp add: exs_def)

lemma cleanup_loop_relatch:
  assumes "pchain s c fs" "0 < j" "j \<le> length fs" "distinct (map fst fs)" "set (exs j fs) \<inter> S = {}" "j \<le> fuel"
  shows "cleanup_loop fuel (relatch (set (exs j fs)) S s) c (fst (fs ! (j - 1))) = Inr (relatch {} S s)"
  using assms
proof (induction j arbitrary: fuel c fs)
  case (Suc j)
  obtain f gs where fs: "fs = f # gs" using Suc.prems by (cases fs) auto
  obtain fuel' where fuel: "fuel = Suc fuel'" using Suc.prems by (cases fuel) auto
  obtain n m where n: "bt_heap s c = Some n" "nd_parent n = Some (fst f)" "bt_heap s (fst f) = Some m"
    using Suc.prems(1) fs by auto
  have "set (exs j gs) \<subseteq> set (map fst gs)" by (auto simp: exs_def dest: in_set_takeD)
  then have ex: "set (exs (Suc j) fs) - {fst f} = set (exs j gs)"
    using Suc.prems(4) fs by auto
  have rel: "bt_release_latch (relatch (set (exs (Suc j) fs)) S s) (fst f) = Inr (relatch (set (exs j gs)) S s)"
    using release_ex_relatch[OF n(3), of "set (exs (Suc j) fs)" S] Suc.prems(5) ex fs by auto
  show ?case
  proof (cases "j = 0")
    case True
    then show ?thesis using rel n fs fuel by (simp add: bind_get_relatch bt_get_Some)
  next
    case False
    have "gs ! (j - 1) \<in> set gs" using Suc.prems(3) fs False by (intro nth_mem) auto
    then have "fst f \<noteq> fst (gs ! (j - 1))" using Suc.prems(4) fs by auto
    moreover have "cleanup_loop fuel' (relatch (set (exs j gs)) S s) (fst f) (fst (gs ! (j - 1))) = Inr (relatch {} S s)"
      using Suc.prems fs False fuel by (intro Suc.IH) auto
    moreover have "fs ! (Suc j - 1) = gs ! (j - 1)" using fs False by (cases j) auto
    ultimately show ?thesis using rel n fs fuel by (simp add: bind_get_relatch bt_get_Some)
  qed
qed simp

lemma cleanup_relatch:
  assumes "pchain s c fs" "j \<le> length fs" "distinct (map fst fs)" "set (exs j fs) \<inter> S = {}" "length fs \<le> bt_fresh s"
  shows "cleanup (relatch (set (exs j fs)) S s) c (lx j fs) = Inr (relatch {} S s)"
  using cleanup_loop_relatch[of s c fs j S "bt_fresh s"] assms by (simp add: cleanup_def lx_def)

lemma plug_append: "plug (fs @ gs) t = plug gs (plug fs t)"
  by (induction fs t rule: plug.induct) auto

lemma cbal_append: "cbal n (fs @ gs) \<longleftrightarrow> cbal n fs \<and> cbal (length fs + n) gs"
  by (induction n fs rule: cbal.induct) auto

lemma routes_append: "routes key (fs @ gs) \<longleftrightarrow> routes key fs \<and> routes key gs"
  unfolding routes_def set_append ball_Un ..

lemma child_at_relab [simp]: "child_at (relab E S a n) key = child_at n key"
  by (simp add: child_at_def Let_def)

lemma descend_step:
  assumes s: "bt_heap s c = Some n" "\<not> nd_is_leaf n" "child_at n key = Inr d" "bt_heap s d = Some m"
    and fs: "pchain s c fs" "j \<le> length fs" "distinct (map fst fs)" "c \<notin> fst ` set fs" "d \<notin> fst ` set fs" "c \<noteq> d"
      "length fs \<le> bt_fresh s" "fst f = c"
    and acc: "acc = INDEX_INSERT \<or> acc = INDEX_READ \<and> j = 0"
  shows "\<exists>j' \<le> length (f # fs). (acc = INDEX_READ \<longrightarrow> j' = 0) \<and>
    descend (Suc fuel) acc key c (lx j fs) (relatch (set (exs j fs)) {c} s) =
    descend fuel acc key d (lx j' (f # fs)) (relatch (set (exs j' (f # fs))) {d} s)"
proof -
  let ?E = "set (exs j fs)"
  have E: "?E \<subseteq> fst ` set fs" by (auto simp: exs_def dest: in_set_takeD)
  have latch: "bt_latch_node (relatch ?E {c} s) d LATCH_SH = Inr (True, relatch ?E {c, d} s)"
    using latch_node_relatch[OF s(4), of ?E "{c}"] E fs by (auto simp: insert_commute)
  have start: "descend (Suc fuel) acc key c (lx j fs) (relatch ?E {c} s) =
    (if acc = INDEX_INSERT then
       if length (nd_keys m) = BTREE_ORDER - 1 then
         bind_res (bt_upgrade_latch (relatch ?E {c, d} s) c) (\<lambda>(rc, s2).
           if rc \<noteq> RCOK then
             bind_res (bt_release_latch s2 c) (\<lambda>s3. bind_res (bt_release_latch s3 d) (\<lambda>s4.
               bind_res (cleanup s4 c (lx j fs)) (\<lambda>s5. Inr (Abort, c, None, s5))))
           else descend fuel acc key d (if lx j fs = None then Some c else lx j fs) s2)
       else bind_res (cleanup (relatch ?E {c, d} s) c (lx j fs)) (\<lambda>s2. bind_res (bt_release_latch s2 c) (\<lambda>s3.
              descend fuel acc key d None s3))
     else bind_res (bt_release_latch (relatch ?E {c, d} s) c) (\<lambda>s2. descend fuel acc key d (lx j fs) s2))"
    using s(2,3) latch by (simp add: relatch_simps bt_get_Some[OF s(1)] bt_get_Some[OF s(4)])
  have free: "cleanup (relatch ?E {c, d} s) c (lx j fs) = Inr (relatch {} {c, d} s)"
    using E fs by (intro cleanup_relatch) auto
  have rel: "bt_release_latch (relatch {} {c, d} s) c = Inr (relatch {} {d} s)"
    using release_sh_relatch[OF s(1), of "{}" "{c, d}"] fs(6) by simp
  have up: "bt_upgrade_latch (relatch ?E {c, d} s) c = Inr (RCOK, relatch (insert c ?E) {d} s)"
    using upgrade_relatch[OF s(1), of ?E "{c, d}"] E fs by auto
  have "lx (Suc j) (f # fs) = (if lx j fs = None then Some c else lx j fs)"
    using fs by (auto simp: lx_def nth_Cons split: nat.splits)
  then show ?thesis
    using start free rel up acc fs
    by (cases "length (nd_keys m) = BTREE_ORDER - 1")
      (auto simp: lx_def intro: exI[of _ 0] exI[of _ "Suc j"])
qed

lemma holds_child:
  "holds v (\<Union>t\<in>T. gnodes t p) \<Longrightarrow> t \<in> T \<Longrightarrow> holds v (gnodes t p)"
  unfolding holds_def by blast

text \<open>
  The descent ends at the leaf where the key belongs, with that leaf latched for reading and
  the full ancestors above it, as far as they are contiguous, latched exclusively.
\<close>

lemma descend_spec:
  assumes "bal n t" "n < fuel" "holds (view s) (gnodes t (par fs))" "holds (view s) (cnodes fs (gaddr t))"
    "distinct (gaddrs t @ map fst fs)" "j \<le> length fs" "sorted_wrt before (flat t)" "n + length fs \<le> bt_fresh s"
    "acc = INDEX_INSERT \<or> acc = INDEX_READ \<and> j = 0"
  shows "\<exists>gs a ks vs j'. t = plug gs (GL a ks vs) \<and> cbal 0 gs \<and> bal 0 (GL a ks vs) \<and> routes key gs \<and>
    length gs = n \<and> j' \<le> length (gs @ fs) \<and> (acc = INDEX_READ \<longrightarrow> j' = 0) \<and>
    descend fuel acc key (gaddr t) (lx j fs) (relatch (set (exs j fs)) {gaddr t} s) =
      Inr (RCOK, a, lx j' (gs @ fs), relatch (set (exs j' (gs @ fs))) {a} s)"
  using assms
proof (induction n arbitrary: t fs j fuel)
  case 0
  obtain a ks vs where t: "t = GL a ks vs" using 0(1) by (cases t) auto
  obtain fuel' where fuel: "fuel = Suc fuel'" using 0(2) by (cases fuel) auto
  have "view s a = Some (True, ks, vs, [], par fs)" using 0(3) t by simp
  then have "descend fuel acc key (gaddr t) (lx j fs) (relatch (set (exs j fs)) {gaddr t} s) =
      Inr (RCOK, a, lx j fs, relatch (set (exs j fs)) {a} s)"
    using t fuel by (auto elim!: viewD simp: relatch_simps bt_get_Some)
  then show ?case
    using 0 t by (intro exI[of _ "[]"] exI[of _ a] exI[of _ ks] exI[of _ vs] exI[of _ j])
      (auto simp: routes_def)
next
  case (Suc n)
  obtain a ks ts where t: "t = GN a ks ts" using Suc(2) by (cases t) auto
  obtain fuel' where fuel: "fuel = Suc fuel'" using Suc(3) by (cases fuel) auto
  obtain kl ls u kr rs where f: "ks = kl @ kr" "ts = ls @ u # rs" "child_index key ks = length ls"
      "routes key [(a, kl, ls, kr, rs)]" "cbal n [(a, kl, ls, kr, rs)]" "bal n u"
    using inner_frame[OF Suc(2)[unfolded t] Suc(8)[unfolded t], of key] .
  let ?f = "(a, kl, ls, kr, rs)"
  have v: "view s a = Some (False, ks, [], map gaddr ts, par fs)"
    and sub: "holds (view s) (\<Union>t\<in>set ts. gnodes t (Some a))"
    using Suc(4) t by simp_all
  have u: "holds (view s) (gnodes u (par (?f # fs)))"
    using holds_child[OF sub, of u] f(2) by simp
  have c: "holds (view s) (cnodes (?f # fs) (gaddr u))"
    using Suc(5) t v sub f(1,2) by (simp add: image_Un)
  have dist: "distinct (gaddrs u @ map fst (?f # fs))" "a \<notin> fst ` set fs" "a \<noteq> gaddr u"
    and "set (gaddrs u) \<inter> fst ` set fs = {}"
    using Suc(6) t f(2) gaddr_in[of u] by auto
  then have du: "gaddr u \<notin> fst ` set fs" using gaddr_in[of u] by (meson disjoint_iff)
  have "flat t = cl [?f] @ flat u @ cr [?f]"
    using flat_plug[OF f(5), of u] t f(1,2) by simp
  then have srt: "sorted_wrt before (flat u)" using Suc(8) by (simp add: sorted_wrt_append)
  obtain nd where nd: "bt_heap s a = Some nd" "\<not> nd_is_leaf nd" "nd_keys nd = ks" "nd_children nd = map gaddr (ls @ u # rs)"
    using v f(2) by (auto elim!: viewD)
  have "\<exists>m. bt_heap s (gaddr u) = Some m"
    using u by (cases u) (auto elim!: viewD)
  then obtain m where m: "bt_heap s (gaddr u) = Some m" by blast
  have "\<exists>j' \<le> length (?f # fs). (acc = INDEX_READ \<longrightarrow> j' = 0) \<and>
    descend (Suc fuel') acc key a (lx j fs) (relatch (set (exs j fs)) {a} s) =
    descend fuel' acc key (gaddr u) (lx j' (?f # fs)) (relatch (set (exs j' (?f # fs))) {gaddr u} s)"
    using Suc(5,6,7,9,10) t dist du pchain_cnodes[OF _ v] nd(1,2) m
      child_at_inner[OF nd(3,4) f(3)] by (intro descend_step[where n = nd and m = m]) auto
  then obtain j' where j': "j' \<le> length (?f # fs)" "acc = INDEX_READ \<longrightarrow> j' = 0"
    "descend fuel acc key (gaddr t) (lx j fs) (relatch (set (exs j fs)) {gaddr t} s) =
     descend fuel' acc key (gaddr u) (lx j' (?f # fs)) (relatch (set (exs j' (?f # fs))) {gaddr u} s)"
    using t fuel by auto
  have "n < fuel'" "n + length (?f # fs) \<le> bt_fresh s" "acc = INDEX_INSERT \<or> acc = INDEX_READ \<and> j' = 0"
    using Suc(3,9,10) fuel j'(2) by auto
  from Suc.IH[OF f(6) this(1) u c dist(1) j'(1) srt this(2,3)]
  obtain gs a' ks' vs' j'' where IH: "u = plug gs (GL a' ks' vs')" "cbal 0 gs" "bal 0 (GL a' ks' vs')" "routes key gs"
      "length gs = n" "j'' \<le> length (gs @ ?f # fs)" "acc = INDEX_READ \<longrightarrow> j'' = 0"
      "descend fuel' acc key (gaddr u) (lx j' (?f # fs)) (relatch (set (exs j' (?f # fs))) {gaddr u} s) =
        Inr (RCOK, a', lx j'' (gs @ ?f # fs), relatch (set (exs j'' (gs @ ?f # fs))) {a'} s)"
    by blast
  have "t = plug (gs @ [?f]) (GL a' ks' vs')" using t f(1,2) IH(1) by (simp add: plug_append)
  moreover have "cbal 0 (gs @ [?f])" "routes key (gs @ [?f])"
    using IH(2,4,5) f(4,5) by (simp_all add: cbal_append routes_append del: cbal.simps)
  ultimately show ?case
    using IH j'(3) by (intro exI[of _ "gs @ [?f]"] exI[of _ a'] exI[of _ ks'] exI[of _ vs'] exI[of _ j'']) simp
qed

end
