(* ===== verification/Btree_Insert.thy ===== *)
theory Btree_Insert
  imports Btree_Descent
begin

text \<open>
  Insertion on the data of the B+tree: \<open>insert_into_leaf\<close>, \<open>split_lf_insert\<close> and the recursion of
  \<open>insert_into_parent\<close> over the ancestors implement \<open>ginsert\<close>. \<open>trep s t\<close> says that the heap of
  \<open>s\<close> holds the tree \<open>t\<close>, with its parent pointers, its chain of leaves and its order.
\<close>

section \<open>Heap updates\<close>

definition nxt :: "btree \<Rightarrow> nat \<Rightarrow> nat option" where
  "nxt s a = Option.bind (bt_heap s a) nd_next"

lemma view_put [simp]: "view (bt_put s a n) = (view s)(a \<mapsto> shape_of n)"
  by (auto simp: view_def bt_put_def)

lemma nxt_put [simp]: "nxt (bt_put s a n) = (nxt s)(a := nd_next n)"
  by (auto simp: nxt_def bt_put_def)

lemma view_make_node [simp]:
  "view (snd (make_node leaf s)) = (view s)(bt_fresh s \<mapsto> (leaf, [], [], [], None))"
  by (auto simp: view_def make_node_def shape_of_def Let_def)

lemma nxt_make_node [simp]: "nxt (snd (make_node leaf s)) = (nxt s)(bt_fresh s := None)"
  by (auto simp: nxt_def make_node_def Let_def)

lemma root_make_node [simp]: "bt_root (snd (make_node leaf s)) = bt_root s"
  by (simp add: make_node_def Let_def)

lemma view_root [simp]: "view (s\<lparr>bt_root := a\<rparr>) = view s" "nxt (s\<lparr>bt_root := a\<rparr>) = nxt s"
  by (auto simp: view_def nxt_def)

lemma nxt_eq: "bt_heap s a = Some n \<Longrightarrow> nxt s a = nd_next n"
  by (simp add: nxt_def)

definition reparent :: "nat option \<Rightarrow> shape \<Rightarrow> shape" where
  "reparent p = (\<lambda>(b, ks, vs, cs, _). (b, ks, vs, cs, p))"

lemma shape_of_upd [simp]:
  "shape_of (n\<lparr>nd_parent := p\<rparr>) = reparent p (shape_of n)"
  "shape_of (n\<lparr>nd_next := x\<rparr>) = shape_of n"
  by (simp_all add: shape_of_def reparent_def)

lemma reparent_simp [simp]: "reparent p (b, ks, vs, cs, q) = (b, ks, vs, cs, p)"
  by (simp add: reparent_def)

lemma holds_reparent:
  assumes "holds v (gnodes t p)" "distinct (gaddrs t)"
    and v': "\<And>a. a \<in> set (gaddrs t) \<Longrightarrow> v' a = (if a = gaddr t then map_option (reparent q) (v a) else v a)"
  shows "holds v' (gnodes t q)"
proof (cases t)
  case (GL a ks vs)
  then show ?thesis using assms by simp
next
  case (GN a ks ts)
  have "holds v' (\<Union>t\<in>set ts. gnodes t (Some a))"
  proof (rule holds_cong[of v])
    show "holds v (\<Union>t\<in>set ts. gnodes t (Some a))" using assms(1) GN by simp
    show "v' b = v b" if "b \<in> fst ` (\<Union>t\<in>set ts. gnodes t (Some a))" for b
    proof -
      have "b \<in> set (concat (map gaddrs ts))" using that by (auto simp: image_UN fst_gnodes)
      then show ?thesis using assms(2) v'[of b] GN by auto
    qed
  qed
  then show ?thesis using assms GN by simp
qed

lemma gaddrs_disjoint:
  "distinct (concat (map gaddrs ts)) \<Longrightarrow> t \<in> set ts \<Longrightarrow> u \<in> set ts \<Longrightarrow> a \<in> set (gaddrs t) \<Longrightarrow> a \<in> set (gaddrs u) \<Longrightarrow> t = u"
  by (induction ts) auto

lemma set_parents_sim:
  "set cs \<subseteq> dom (bt_heap s) \<Longrightarrow> \<exists>s'. set_parents s cs p = Inr s' \<and>
     view s' = (\<lambda>a. if a \<in> set cs then map_option (reparent (Some p)) (view s a) else view s a) \<and>
     nxt s' = nxt s \<and> bt_fresh s' = bt_fresh s \<and> bt_root s' = bt_root s"
proof (induction cs arbitrary: s)
  case (Cons c cs)
  obtain n where n: "bt_heap s c = Some n" using Cons.prems by auto
  let ?s = "bt_put s c (n\<lparr>nd_parent := Some p\<rparr>)"
  have "set cs \<subseteq> dom (bt_heap ?s)" using Cons.prems by (auto simp: bt_put_def)
  from Cons.IH[OF this] obtain s' where s': "set_parents ?s cs p = Inr s'"
    "view s' = (\<lambda>a. if a \<in> set cs then map_option (reparent (Some p)) (view ?s a) else view ?s a)"
    "nxt s' = nxt ?s" "bt_fresh s' = bt_fresh ?s" "bt_root s' = bt_root ?s" by blast
  have "view s c = Some (shape_of n)" using n by (simp add: view_def)
  moreover have "reparent p (reparent p x) = reparent p x" for p x by (cases x) simp
  ultimately show ?case using s' n nxt_eq[OF n] by (auto simp: bt_get_Some fun_eq_iff)
qed simp

section \<open>Leaves\<close>

lemma leaf_has_key_gleaf:
  "leaf_has_key n key = (if key \<in> set (nd_keys n) then Some (length (takeWhile (\<lambda>k. k \<noteq> key) (nd_keys n))) else None)"
proof (cases "key \<in> set (nd_keys n)")
  case True
  then show ?thesis using takeWhile_neq[OF True] by (simp add: leaf_has_key_def Let_def)
next
  case False
  then have "length (takeWhile (\<lambda>k. k \<noteq> key) (nd_keys n)) = length (nd_keys n)"
    by (intro takeWhile_all) auto
  then show ?thesis using False by (simp add: leaf_has_key_def Let_def)
qed

lemma insert_into_leaf_sim:
  assumes "view s a = Some (True, ks, vs, [], p)" "gleaf key item ks vs = (ks', vs')" "length ks' < BTREE_ORDER"
  shows "\<exists>s'. insert_into_leaf s a key item = Inr s' \<and> view s' = (view s)(a \<mapsto> (True, ks', vs', [], p)) \<and>
    nxt s' = nxt s \<and> bt_fresh s' = bt_fresh s \<and> bt_root s' = bt_root s"
proof -
  obtain n where n: "bt_heap s a = Some n" "nd_is_leaf n" "nd_keys n = ks" "nd_items n = vs" "nd_children n = []" "nd_parent n = p"
    using assms(1) by (auto elim!: viewD)
  show ?thesis
    using assms(2,3) n nxt_eq[OF n(1)]
    by (auto simp: insert_into_leaf_def bt_get_Some leaf_has_key_gleaf gleaf_def shape_of_def Let_def fun_eq_iff split: if_splits)
qed

section \<open>Inner nodes\<close>

lemma set_lweave: "length ks = length xs \<Longrightarrow> set ks \<subseteq> set (lweave ks xs)"
  by (induction ks xs rule: list_induct2) (auto simp: lweave_def)

lemma insert_index_frame:
  assumes "cbal n ((a, kl, ls, kr, rs) # fs)" "sorted_wrt before (cl ((a, kl, ls, kr, rs) # fs) @ xs @ Sep k # ys @ cr ((a, kl, ls, kr, rs) # fs))"
  shows "insert_index k (kl @ kr) = length ls"
proof -
  have "before (Sep x) (Sep k)" if "x \<in> set kl" for x
    using that assms set_lweave[of "map Sep kl" "map flat ls"] by (auto simp: sorted_wrt_append simp del: before.simps)
  moreover have "before (Sep k) (Sep x)" if "x \<in> set kr" for x
    using that assms set_rweave[of "map Sep kr" "map flat rs"] by (auto simp: sorted_wrt_append simp del: before.simps)
  ultimately show ?thesis
    using insert_index_unique[of kl k kr] assms(1) by (simp add: order_less_imp_le)
qed

lemma insert_at_middle: "length xs = i \<Longrightarrow> insert_at i x (xs @ ys) = xs @ x # ys"
  by (simp add: insert_at_def)

lemma split_nl_sim:
  assumes p: "view s p = Some (False, kl @ kr, [], cl' @ l # cr', q)" "length kl = length cl'"
    and dom: "set cl' \<union> {l, r} \<union> set cr' \<subseteq> dom (bt_heap s)" and f: "f = bt_fresh s" "p \<noteq> f" "f \<notin> set cl' \<union> {l, r} \<union> set cr'"
    and defs: "ks = kl @ k # kr" "cs = cl' @ l # r # cr'"
  shows "\<exists>s'. split_nl s p (length kl) k r = Inr (ks ! 7, f, s') \<and> bt_fresh s' = Suc f \<and> bt_root s' = bt_root s \<and>
    (\<forall>a. a \<noteq> p \<and> a \<noteq> f \<longrightarrow> nxt s' a = nxt s a) \<and>
    view s' = (\<lambda>a. let v = (view s)(p \<mapsto> (False, take 7 ks, [], take 8 cs, q), f \<mapsto> (False, drop 8 ks, [], drop 8 cs, q))
      in if a \<in> set (drop 8 cs) then map_option (reparent (Some f)) (v a) else v a)"
proof -
  obtain n where n: "bt_heap s p = Some n" "\<not> nd_is_leaf n" "nd_keys n = kl @ kr" "nd_items n = []"
      "nd_children n = cl' @ l # cr'" "nd_parent n = q"
    using p(1) by (auto elim!: viewD)
  let ?s1 = "snd (make_node False s)"
  have v1: "view ?s1 f = Some (False, [], [], [], None)" using f by simp
  obtain m where m: "bt_heap ?s1 f = Some m" "nd_is_leaf m = False" "nd_items m = []"
    using v1 by (rule viewD) auto
  have n1: "bt_heap ?s1 p = Some n" using n(1) f(1,2) by (simp add: make_node_def Let_def)
  have cs: "insert_at (length kl + 1) r (nd_children n) = cs"
    using n(5) p(2) defs insert_at_middle[of "cl' @ [l]" "length kl + 1" r cr'] by simp
  have ks: "insert_at (length kl) k (nd_keys n) = ks" using n(3) defs by (simp add: insert_at_middle)
  let ?s2 = "bt_put ?s1 p (n\<lparr>nd_keys := take 7 ks, nd_children := take 8 cs, nd_next := Some f\<rparr>)"
  let ?s3 = "bt_put ?s2 f (m\<lparr>nd_keys := drop 8 ks, nd_children := drop 8 cs, nd_next := nd_next n, nd_parent := nd_parent n\<rparr>)"
  have "set (drop 8 cs) \<subseteq> set cs" by (rule set_drop_subset)
  then have "set (drop 8 cs) \<subseteq> dom (bt_heap ?s3)"
    using dom defs n(1) by (auto simp: bt_put_def make_node_def Let_def)
  from set_parents_sim[OF this, of f] obtain s' where s': "set_parents ?s3 (drop 8 cs) f = Inr s'"
    "view s' = (\<lambda>a. if a \<in> set (drop 8 cs) then map_option (reparent (Some f)) (view ?s3 a) else view ?s3 a)"
    "nxt s' = nxt ?s3" "bt_fresh s' = bt_fresh ?s3" "bt_root s' = bt_root ?s3" by blast
  have v3: "view ?s3 = (view s)(p \<mapsto> (False, take 7 ks, [], take 8 cs, q), f \<mapsto> (False, drop 8 ks, [], drop 8 cs, q))"
    using n m(2,3) f by (auto simp: shape_of_def fun_eq_iff)
  have "split_nl s p (length kl) k r = Inr (ks ! 7, f, s')"
    using s'(1) cs ks f(1) by (simp add: split_nl_def split_beta bt_get_Some[OF n1] bt_get_Some[OF m(1)[unfolded f(1)]] cut_def Let_def)
  then show ?thesis using s' v3 f by (auto simp: fun_eq_iff Let_def)
qed

section \<open>Pushing up\<close>

definition is_leaf_at :: "btree \<Rightarrow> nat \<Rightarrow> bool" where
  "is_leaf_at s a \<longleftrightarrow> (\<exists>ks vs cs p. view s a = Some (True, ks, vs, cs, p))"

lemma is_leaf_at_simp: "view s a = Some (b, ks, vs, cs, p) \<Longrightarrow> is_leaf_at s a = b"
  by (simp add: is_leaf_at_def)

lemma holds_upd: "a \<notin> fst ` M \<Longrightarrow> holds (v(a \<mapsto> c)) M = holds v M"
  by (rule iffI; erule holds_cong; metis fun_upd_other)

lemma gaddr_dom: "holds (view s) (gnodes t p) \<Longrightarrow> gaddr t \<in> dom (bt_heap s)"
  by (cases t) (auto elim!: viewD)

lemma view_gaddr:
  assumes "holds (view s) (gnodes t p)"
  obtains b ks vs cs where "view s (gaddr t) = Some (b, ks, vs, cs, p)"
  using assms by (cases t) auto

lemma new_root_sim:
  assumes l: "holds (view s) (gnodes l None)" and r: "holds (view s) (gnodes r None)"
    and dist: "distinct (gaddrs l @ gaddrs r)" "\<forall>a\<in>set (gaddrs l @ gaddrs r). a < bt_fresh s"
    and link: "is_leaf_at s (gaddr l) \<Longrightarrow> nxt s (gaddr l) = Some (gaddr r)"
  shows "\<exists>s'. insert_into_new_root s (gaddr l) k (gaddr r) = Inr s' \<and>
    holds (view s') (gnodes (GN (bt_fresh s) [k] [l, r]) None) \<and> bt_root s' = bt_fresh s \<and>
    bt_fresh s' = Suc (bt_fresh s) \<and> (\<forall>a. is_leaf_at s a \<and> a < bt_fresh s \<longrightarrow> nxt s' a = nxt s a)"
proof -
  let ?f = "bt_fresh s" let ?l = "gaddr l" let ?r = "gaddr r"
  have apart: "?l \<notin> set (gaddrs r)" "?r \<notin> set (gaddrs l)"
    using dist(1) gaddr_in[of l] gaddr_in[of r] by (metis disjoint_iff distinct_append)+
  then have "?l \<noteq> ?r" by auto
  moreover have "?l < ?f" "?r < ?f" using bspec[OF dist(2), of ?l] bspec[OF dist(2), of ?r] by simp_all
  ultimately have ne: "?l \<noteq> ?f" "?r \<noteq> ?f" "?l \<noteq> ?r" by simp_all
  obtain nl nr where n: "bt_heap s ?l = Some nl" "bt_heap s ?r = Some nr"
    using gaddr_dom[OF l] gaddr_dom[OF r] by auto
  let ?s1 = "snd (make_node False s)"
  obtain m where m: "bt_heap ?s1 ?f = Some m" "\<not> nd_is_leaf m" "nd_items m = []"
    by (simp add: make_node_def Let_def)
  have n1: "bt_heap ?s1 ?l = Some nl" "bt_heap ?s1 ?r = Some nr"
    using n ne by (simp_all add: make_node_def Let_def)
  let ?s2 = "bt_put ?s1 ?f (m\<lparr>nd_keys := [k], nd_children := [?l, ?r], nd_parent := None\<rparr>)"
  let ?s3 = "bt_put ?s2 ?l (nl\<lparr>nd_parent := Some ?f\<rparr>)"
  let ?s4 = "bt_put ?s3 ?r (nr\<lparr>nd_parent := Some ?f\<rparr>)"
  let ?s' = "(bt_put ?s4 ?l (nl\<lparr>nd_parent := Some ?f, nd_next := Some ?r\<rparr>))\<lparr>bt_root := ?f\<rparr>"
  have g2: "bt_get ?s1 ?f = Inr m" "bt_get ?s2 ?l = Inr nl" "bt_get ?s3 ?r = Inr nr" "bt_get ?s4 ?l = Inr (nl\<lparr>nd_parent := Some ?f\<rparr>)"
    using m n1 ne by (simp_all add: bt_get_def bt_put_def)
  have run: "insert_into_new_root s ?l k ?r = Inr ?s'"
    unfolding insert_into_new_root_def using g2 by (simp add: split_beta Let_def)
  have vl: "view s ?l = Some (shape_of nl)" "view s ?r = Some (shape_of nr)" using n by (simp_all add: view_def)
  have v: "view ?s' a = (if a = ?f then Some (False, [k], [], [?l, ?r], None)
      else if a = ?l \<or> a = ?r then map_option (reparent (Some ?f)) (view s a) else view s a)" for a
    using ne m vl by (simp add: shape_of_def[of "_ \<lparr>nd_keys := _\<rparr>"] shape_of_def)
  have off: "a \<noteq> ?f" "a \<in> set (gaddrs l) \<Longrightarrow> a \<noteq> ?r" "a \<in> set (gaddrs r) \<Longrightarrow> a \<noteq> ?l"
    if "a \<in> set (gaddrs l) \<union> set (gaddrs r)" for a
    using that dist(2) apart by auto
  have "holds (view ?s') (gnodes l (Some ?f))"
  proof (rule holds_reparent[OF l])
    show "view ?s' a = (if a = ?l then map_option (reparent (Some ?f)) (view s a) else view s a)"
      if "a \<in> set (gaddrs l)" for a
      unfolding v using off[of a] that by simp
  qed (use dist(1) in simp)
  moreover have "holds (view ?s') (gnodes r (Some ?f))"
  proof (rule holds_reparent[OF r])
    show "view ?s' a = (if a = ?r then map_option (reparent (Some ?f)) (view s a) else view s a)"
      if "a \<in> set (gaddrs r)" for a
      unfolding v using off[of a] that by simp
  qed (use dist(1) in simp)
  ultimately have "holds (view ?s') (gnodes (GN ?f [k] [l, r]) None)"
    using v[of ?f] by simp
  moreover have "nxt ?s' a = nxt s a" if "is_leaf_at s a \<and> a < ?f" for a
    using that link n nxt_eq[of s] ne by auto
  ultimately show ?thesis using run by simp
qed

lemma holds_UN: "holds v (\<Union>t\<in>T. M t) \<longleftrightarrow> (\<forall>t\<in>T. holds v (M t))"
  unfolding holds_def by blast

lemma gaddr_image: "gaddr ` set ts \<subseteq> set (concat (map gaddrs ts))"
  by (induction ts) auto

text \<open>A full node that takes a new child becomes two nodes.\<close>

lemma split_trees:
  assumes ts: "\<forall>t\<in>set ts. holds v (gnodes t (Some p))" "distinct (concat (map gaddrs ts))"
    and p: "p \<notin> set (concat (map gaddrs ts))" "f \<notin> set (concat (map gaddrs ts))" "p \<noteq> f"
    and v': "v' = (\<lambda>a. let v = v(p \<mapsto> (False, take 7 ks, [], take 8 (map gaddr ts), q), f \<mapsto> (False, drop 8 ks, [], drop 8 (map gaddr ts), q))
      in if a \<in> set (drop 8 (map gaddr ts)) then map_option (reparent (Some f)) (v a) else v a)"
  shows "holds v' (gnodes (GN p (take 7 ks) (take 8 ts)) q)" "holds v' (gnodes (GN f (drop 8 ks) (drop 8 ts)) q)"
    and "b \<notin> {p, f} \<union> set (concat (map gaddrs ts)) \<Longrightarrow> v' b = v b"
proof -
  have "concat (map gaddrs (take 8 ts)) @ concat (map gaddrs (drop 8 ts)) = concat (map gaddrs ts)"
    by (metis append_take_drop_id concat_append map_append)
  with ts(2) have dist: "distinct (concat (map gaddrs (take 8 ts)) @ concat (map gaddrs (drop 8 ts)))"
    by (simp only:)
  have disj: "set (concat (map gaddrs (take 8 ts))) \<inter> set (concat (map gaddrs (drop 8 ts))) = {}"
    using dist unfolding distinct_append by blast
  have sub: "set (take 8 ts) \<subseteq> set ts" "set (drop 8 ts) \<subseteq> set ts" by (auto dest: in_set_takeD in_set_dropD)
  have sd: "set (drop 8 (map gaddr ts)) = gaddr ` set (drop 8 ts)" by (simp add: drop_map)
  have dr': "gaddr ` set (drop 8 ts) \<subseteq> set (concat (map gaddrs ts))"
    using gaddr_image[of ts] image_mono[OF sub(2), of gaddr] by blast
  then have np: "p \<notin> gaddr ` set (drop 8 ts)" "f \<notin> gaddr ` set (drop 8 ts)" using p(1,2) by blast+
  have v'': "v' a = (if a = p then Some (False, take 7 ks, [], take 8 (map gaddr ts), q)
      else if a = f then Some (False, drop 8 ks, [], drop 8 (map gaddr ts), q)
      else if a \<in> gaddr ` set (drop 8 ts) then map_option (reparent (Some f)) (v a) else v a)" for a
    using np p(3) by (simp add: v' sd Let_def)
  have left: "holds v' (gnodes t (Some p))" if t: "t \<in> set (take 8 ts)" for t
  proof (rule holds_cong[of v])
    show "holds v (gnodes t (Some p))" using ts(1) t sub by auto
    show "v' a = v a" if "a \<in> fst ` gnodes t (Some p)" for a
    proof -
      have a: "a \<in> set (concat (map gaddrs (take 8 ts)))" using that t by (auto simp: fst_gnodes)
      then have "a \<notin> gaddr ` set (drop 8 ts)" using disj gaddr_image[of "drop 8 ts"] by blast
      moreover have "a \<in> set (concat (map gaddrs ts))" using a sub(1) by auto
      then have "a \<noteq> p" "a \<noteq> f" using p by blast+
      ultimately show ?thesis by (simp add: v'')
    qed
  qed
  have right: "holds v' (gnodes t (Some f))" if t: "t \<in> set (drop 8 ts)" for t
  proof (rule holds_reparent[of v t "Some p"])
    show "holds v (gnodes t (Some p))" using ts(1) t sub by auto
    show "distinct (gaddrs t)" using ts(2) t sub by (auto simp: distinct_concat_iff)
    show "v' a = (if a = gaddr t then map_option (reparent (Some f)) (v a) else v a)" if a: "a \<in> set (gaddrs t)" for a
    proof -
      have "a \<in> set (concat (map gaddrs ts))" using a t sub(2) by auto
      then have "a \<noteq> p" "a \<noteq> f" using p by blast+
      moreover have "a = gaddr t" if u: "a = gaddr u" "u \<in> set (drop 8 ts)" for u
      proof -
        have "a \<in> set (gaddrs u)" using u(1) by simp
        then have "t = u" using gaddrs_disjoint[OF ts(2) _ _ a] t u(2) sub(2) by blast
        then show ?thesis using u(1) by simp
      qed
      then have "a \<in> gaddr ` set (drop 8 ts) \<longleftrightarrow> a = gaddr t" using t by blast
      ultimately show ?thesis unfolding v'' by simp
    qed
  qed
  show "holds v' (gnodes (GN p (take 7 ks) (take 8 ts)) q)" using left v''[of p] by (simp add: holds_UN take_map)
  show "holds v' (gnodes (GN f (drop 8 ks) (drop 8 ts)) q)" using right v''[of f] p(3) by (simp add: holds_UN drop_map)
  show "v' b = v b" if "b \<notin> {p, f} \<union> set (concat (map gaddrs ts))"
  proof -
    have "b \<noteq> p" "b \<noteq> f" "b \<notin> gaddr ` set (drop 8 ts)" using that dr' by auto
    then show ?thesis by (simp add: v'')
  qed
qed

lemma push_step:
  assumes s: "holds (view s) (gnodes l (Some a))" "holds (view s) (gnodes r (Some a))" "holds (view s) (cnodes ((a, kl, ls, kr, rs) # fs) (gaddr l))"
    and dist: "distinct (gaddrs l @ gaddrs r @ caddrs ((a, kl, ls, kr, rs) # fs))" "\<forall>x\<in>set (gaddrs l @ gaddrs r @ caddrs ((a, kl, ls, kr, rs) # fs)). x < bt_fresh s"
    and len: "length kl = length ls" "f = bt_fresh s" "ks = kl @ k # kr" "ts = ls @ l # r # rs"
  shows "\<exists>s'. split_nl s a (length ls) k (gaddr r) = Inr (ks ! 7, f, s') \<and> bt_fresh s' = Suc f \<and> bt_root s' = bt_root s \<and>
    (\<forall>x. is_leaf_at s x \<and> x < f \<longrightarrow> nxt s' x = nxt s x \<and> is_leaf_at s' x) \<and>
    holds (view s') (gnodes (GN a (take 7 ks) (take 8 ts)) (par fs)) \<and>
    holds (view s') (gnodes (GN f (drop 8 ks) (drop 8 ts)) (par fs)) \<and> holds (view s') (cnodes fs a)"
proof -
  have a: "view s a = Some (False, kl @ kr, [], map gaddr ls @ gaddr l # map gaddr rs, par fs)"
    and sub: "\<forall>t\<in>set ts. holds (view s) (gnodes t (Some a))" and up: "holds (view s) (cnodes fs a)"
    using s len(4) by (auto simp: holds_UN)
  have fresh: "\<forall>x\<in>set (gaddrs l @ gaddrs r @ caddrs ((a, kl, ls, kr, rs) # fs)). x \<noteq> f"
    using dist(2) len(2) by auto
  have dom: "gaddr ` set ts \<subseteq> dom (bt_heap s)"
    using sub gaddr_dom by blast
  have ts: "distinct (concat (map gaddrs ts))" "a \<notin> set (concat (map gaddrs ts))" "f \<notin> set (concat (map gaddrs ts))"
    "({a, f} \<union> set (concat (map gaddrs ts))) \<inter> set (caddrs fs) = {}"
    using dist(1) fresh len(4) by auto
  then have nf: "f \<notin> gaddr ` set ts" using gaddr_image[of ts] by blast
  have "a \<noteq> f" using fresh by simp
  obtain s' where s': "split_nl s a (length kl) k (gaddr r) = Inr (ks ! 7, f, s')" "bt_fresh s' = Suc f" "bt_root s' = bt_root s"
    "\<forall>x. x \<noteq> a \<and> x \<noteq> f \<longrightarrow> nxt s' x = nxt s x"
    "view s' = (\<lambda>x. let v = (view s)(a \<mapsto> (False, take 7 ks, [], take 8 (map gaddr ts), par fs), f \<mapsto> (False, drop 8 ks, [], drop 8 (map gaddr ts), par fs))
      in if x \<in> set (drop 8 (map gaddr ts)) then map_option (reparent (Some f)) (v x) else v x)"
    using split_nl_sim[OF a, of "gaddr r" f ks k "map gaddr ts"] len dom nf \<open>a \<noteq> f\<close> by (auto simp: image_subset_iff)
  note new = split_trees[OF sub ts(1-3) \<open>a \<noteq> f\<close> s'(5)]
  have "holds (view s') (cnodes fs a)"
  proof (rule holds_cong[OF up])
    show "view s' x = view s x" if "x \<in> fst ` cnodes fs a" for x
      using that ts(4) unfolding fst_cnodes by (intro new(3)) blast
  qed
  moreover have "nxt s' x = nxt s x \<and> is_leaf_at s' x" if x: "is_leaf_at s x" "x < f" for x
  proof -
    have "x \<noteq> a" using x(1) a by (auto simp: is_leaf_at_def)
    then show ?thesis using x s'(4,5) by (auto simp: is_leaf_at_def Let_def)
  qed
  ultimately show ?thesis using s'(1-3) new(1,2) len(1) by auto
qed

lemma gaddr_plug: "gaddr (plug fs t) = (if fs = [] then gaddr t else fst (last fs))"
  by (induction fs t rule: plug.induct) auto

lemma push_get:
  assumes l: "holds (view s) (gnodes l (Some a))" and c: "holds (view s) (cnodes ((a, kl, ls, kr, rs) # fs) (gaddr l))"
    and b: "cbal n ((a, kl, ls, kr, rs) # fs)"
    and srt: "sorted_wrt before (cl ((a, kl, ls, kr, rs) # fs) @ xs @ Sep k # ys @ cr ((a, kl, ls, kr, rs) # fs))"
  shows "insert_into_parent (Suc fuel) s (gaddr l) k r =
    bind_res (bt_get s a) (\<lambda>nd. if length (kl @ kr) < BTREE_ORDER - 1
      then Inr (bt_put s a (nd\<lparr>nd_keys := kl @ k # kr, nd_children := map gaddr ls @ gaddr l # r # map gaddr rs\<rparr>))
      else bind_res (split_nl s a (length ls) k r) (\<lambda>(k', b, s'). insert_into_parent fuel s' a k' b))"
proof -
  have va: "view s a = Some (False, kl @ kr, [], map gaddr ls @ gaddr l # map gaddr rs, par fs)"
    using c by simp
  have len: "length kl = length ls" using b by simp
  obtain b ks vs cs where vl: "view s (gaddr l) = Some (b, ks, vs, cs, Some a)" by (rule view_gaddr[OF l])
  have "insert_at (length ls) k (kl @ kr) = kl @ k # kr"
    "insert_at (Suc (length ls)) r (map gaddr ls @ gaddr l # map gaddr rs) = map gaddr ls @ gaddr l # r # map gaddr rs"
    using len insert_at_middle[of "map gaddr ls @ [gaddr l]" "Suc (length ls)"] by (simp_all add: insert_at_middle)
  then show ?thesis using va vl insert_index_frame[OF b srt] by (auto elim!: viewD simp: Let_def)
qed

lemma push_room:
  assumes s: "holds (view s) (gnodes l (Some a))" "holds (view s) (gnodes r (Some a))"
      "holds (view s) (cnodes ((a, kl, ls, kr, rs) # fs) (gaddr l))"
    and dist: "distinct (gaddrs l @ gaddrs r @ caddrs ((a, kl, ls, kr, rs) # fs))"
    and get: "bt_get s a = Inr nd" and ts: "ts = ls @ l # r # rs"
  shows "holds (view (bt_put s a (nd\<lparr>nd_keys := ks, nd_children := map gaddr ts\<rparr>))) (gnodes (plug fs (GN a ks ts)) None)"
    and "nxt (bt_put s a (nd\<lparr>nd_keys := ks, nd_children := map gaddr ts\<rparr>)) = nxt s"
proof -
  let ?s = "bt_put s a (nd\<lparr>nd_keys := ks, nd_children := map gaddr ts\<rparr>)"
  have "view s a = Some (False, kl @ kr, [], map gaddr ls @ gaddr l # map gaddr rs, par fs)" using s(3) by simp
  then have nd: "bt_heap s a = Some nd" "nd_is_leaf nd = False" "nd_items nd = []" "nd_parent nd = par fs"
    using get by (auto elim!: viewD)
  have v: "view ?s = (view s)(a \<mapsto> (False, ks, [], map gaddr ts, par fs))"
    using nd by (simp add: shape_of_def)
  have "\<forall>t\<in>set ts. holds (view s) (gnodes t (Some a))" "holds (view s) (cnodes fs a)"
    using s ts by (auto simp: holds_UN)
  moreover have a: "a \<notin> set (concat (map gaddrs ts)) \<union> set (caddrs fs)" using dist ts by auto
  ultimately show "holds (view ?s) (gnodes (plug fs (GN a ks ts)) None)"
    unfolding gnodes_plug holds_Un v by (simp add: holds_UN holds_upd fst_gnodes fst_cnodes)
  show "nxt ?s = nxt s" using nd(1) by (auto simp: nxt_eq)
qed

lemma split_addrs:
  "mset (gaddrs (GN a x (take 8 ts)) @ gaddrs (GN b y (drop 8 ts)) @ zs) = mset (b # a # concat (map gaddrs ts) @ zs)"
proof -
  have "mset (concat (map gaddrs (take 8 ts))) + mset (concat (map gaddrs (drop 8 ts))) = mset (concat (map gaddrs ts))"
    by (metis append_take_drop_id concat_append map_append mset_append)
  then show ?thesis by (simp add: ac_simps)
qed

text \<open>The recursion over the ancestors implements \<open>gpush\<close>; it ends because every call is one level higher.\<close>

lemma push_sim:
  assumes "length fs < fuel"
    and "holds (view s) (gnodes l (par fs))" "holds (view s) (gnodes r (par fs))" "holds (view s) (cnodes fs (gaddr l))"
    and "distinct (gaddrs l @ gaddrs r @ caddrs fs)" "\<forall>x\<in>set (gaddrs l @ gaddrs r @ caddrs fs). x < bt_fresh s"
    and "bt_root s = gaddr (plug fs l)" "cbal n fs" "bal n l" "bal n r"
    and "sorted_wrt before (cl fs @ flat l @ Sep k # flat r @ cr fs)"
    and "is_leaf_at s (gaddr l) \<Longrightarrow> nxt s (gaddr l) = Some (gaddr r)"
  shows "\<exists>s'. insert_into_parent fuel s (gaddr l) k (gaddr r) = Inr s' \<and>
    holds (view s') (gnodes (gpush (bt_fresh s) fs l k r) None) \<and> bt_root s' = gaddr (gpush (bt_fresh s) fs l k r) \<and>
    bt_fresh s' = bt_fresh s + gnew fs \<and> (\<forall>a. is_leaf_at s a \<and> a < bt_fresh s \<longrightarrow> nxt s' a = nxt s a)"
  using assms
proof (induction fs arbitrary: fuel s l k r n)
  case Nil
  obtain fuel' where fuel: "fuel = Suc fuel'" using Nil(1) by (cases fuel) auto
  obtain b ks vs cs where "view s (gaddr l) = Some (b, ks, vs, cs, None)"
    by (rule view_gaddr[OF Nil(2), unfolded par.simps])
  then have "insert_into_parent fuel s (gaddr l) k (gaddr r) = insert_into_new_root s (gaddr l) k (gaddr r)"
    using fuel by (auto elim!: viewD)
  then show ?case using new_root_sim[of s l r k] Nil by simp
next
  case (Cons f fs)
  obtain a kl ls kr rs where f: "f = (a, kl, ls, kr, rs)" by (cases f)
  obtain fuel' where fuel: "fuel = Suc fuel'" using Cons(2) by (cases fuel) auto
  let ?ks = "kl @ k # kr" let ?ts = "ls @ l # r # rs" let ?f = "bt_fresh s"
  have lr: "holds (view s) (gnodes l (Some a))" "holds (view s) (gnodes r (Some a))" using Cons(3,4) f by simp_all
  note get = push_get[OF lr(1) Cons(5)[unfolded f] Cons(9)[unfolded f] Cons(12)[unfolded f], of fuel' "gaddr r"]
  have len: "length kl = length ls" "length kr = length rs" "length (kl @ kr) \<le> 15" using Cons(9) f by auto
  have "view s a = Some (False, kl @ kr, [], map gaddr ls @ gaddr l # map gaddr rs, par fs)" using Cons(5) f by simp
  then obtain nd where nd: "bt_get s a = Inr nd" by (rule viewD)
  show ?case
  proof (cases "length (kl @ kr) < BTREE_ORDER - 1")
    case True
    note room = push_room[OF lr Cons(5)[unfolded f] Cons(6)[unfolded f] nd refl, of ?ks]
    moreover have "gaddr (plug fs (GN a ?ks ?ts)) = bt_root s" using Cons(8) f by (simp add: gaddr_plug)
    ultimately show ?thesis using get True f nd fuel by (simp add: Let_def)
  next
    case False
    note cut = frame_cut[OF Cons(9)[unfolded f] Cons(10,11) False refl refl]
    let ?l = "GN a (take 7 ?ks) (take 8 ?ts)" let ?r = "GN ?f (drop 8 ?ks) (drop 8 ?ts)"
    obtain s1 where s1: "split_nl s a (length ls) k (gaddr r) = Inr (?ks ! 7, ?f, s1)" "bt_fresh s1 = Suc ?f"
      "bt_root s1 = bt_root s" "\<forall>x. is_leaf_at s x \<and> x < ?f \<longrightarrow> nxt s1 x = nxt s x \<and> is_leaf_at s1 x"
      "holds (view s1) (gnodes ?l (par fs))" "holds (view s1) (gnodes ?r (par fs))" "holds (view s1) (cnodes fs a)"
      using push_step[OF lr Cons(5)[unfolded f] Cons(6)[unfolded f] Cons(7)[unfolded f] len(1) refl refl refl, of k] by blast
    have "\<exists>s'. insert_into_parent fuel' s1 (gaddr ?l) (?ks ! 7) (gaddr ?r) = Inr s' \<and>
      holds (view s') (gnodes (gpush (bt_fresh s1) fs ?l (?ks ! 7) ?r) None) \<and> bt_root s' = gaddr (gpush (bt_fresh s1) fs ?l (?ks ! 7) ?r) \<and>
      bt_fresh s' = bt_fresh s1 + gnew fs \<and> (\<forall>a. is_leaf_at s1 a \<and> a < bt_fresh s1 \<longrightarrow> nxt s' a = nxt s1 a)"
    proof (rule Cons.IH[OF _ s1(5,6)])
      have "mset (gaddrs ?l @ gaddrs ?r @ caddrs fs) = mset (?f # gaddrs l @ gaddrs r @ caddrs ((a, kl, ls, kr, rs) # fs))"
        unfolding split_addrs by simp
      then have perm: "distinct (gaddrs ?l @ gaddrs ?r @ caddrs fs) = distinct (?f # gaddrs l @ gaddrs r @ caddrs ((a, kl, ls, kr, rs) # fs))"
          "set (gaddrs ?l @ gaddrs ?r @ caddrs fs) = set (?f # gaddrs l @ gaddrs r @ caddrs ((a, kl, ls, kr, rs) # fs))"
        by (metis mset_eq_imp_distinct_iff, metis mset_eq_setD)
      show "distinct (gaddrs ?l @ gaddrs ?r @ caddrs fs)"
        unfolding perm using Cons(6,7) f by auto
      show "\<forall>x\<in>set (gaddrs ?l @ gaddrs ?r @ caddrs fs). x < bt_fresh s1"
        unfolding perm s1(2) using Cons(7) f by (auto simp: less_Suc_eq)
      show "bt_root s1 = gaddr (plug fs ?l)" using s1(3) Cons(8) f by (simp add: gaddr_plug)
      show "sorted_wrt before (cl fs @ flat ?l @ Sep (?ks ! 7) # flat ?r @ cr fs)"
        unfolding cut(3) using Cons(12) f by simp
      have "view s1 a = Some (False, take 7 ?ks, [], map gaddr (take 8 ?ts), par fs)" using s1(5) by simp
      then show "nxt s1 (gaddr ?l) = Some (gaddr ?r)" if "is_leaf_at s1 (gaddr ?l)"
        using that by (simp add: is_leaf_at_def)
      show "cbal (Suc n) fs" "length fs < fuel'" using Cons(2,9) f fuel by simp_all
    qed (use s1(7) cut(1,2) in simp_all)
    then show ?thesis using get s1(1,2,4) nd f fuel False by (auto simp: Let_def)
  qed
qed

section \<open>Insertion into the data\<close>

fun linked :: "(nat \<Rightarrow> nat option) \<Rightarrow> nat list \<Rightarrow> bool" where
  "linked n [] = True"
| "linked n (x # xs) = (n x = (case xs of [] \<Rightarrow> None | y # _ \<Rightarrow> Some y) \<and> linked n xs)"

lemma linked_cong: "linked n xs \<Longrightarrow> (\<And>x. x \<in> set xs \<Longrightarrow> n' x = n x) \<Longrightarrow> linked n' xs"
  by (induction xs) auto

lemma linked_insert:
  assumes "linked n (xs @ a # ys)" "distinct (xs @ a # ys)" "f \<notin> set (xs @ a # ys)"
    and "n' a = Some f" "n' f = n a" "\<And>x. x \<noteq> a \<Longrightarrow> x \<noteq> f \<Longrightarrow> n' x = n x"
  shows "linked n' (xs @ a # f # ys)"
  using assms
proof (induction xs)
  case Nil
  have "linked n' ys"
  proof (rule linked_cong)
    show "linked n ys" using Nil(1) by simp
    show "n' x = n x" if "x \<in> set ys" for x
    proof (rule Nil(6))
      show "x \<noteq> a" "x \<noteq> f" using that Nil(2,3) by auto
    qed
  qed
  then show ?case using Nil by simp
next
  case (Cons x xs)
  then have "linked n' (xs @ a # f # ys)" by simp
  moreover have "n' x = n x" using Cons by auto
  ultimately show ?case using Cons.prems(1) by (cases xs) auto
qed

definition trep :: "btree \<Rightarrow> gt \<Rightarrow> bool" where
  "trep s t \<longleftrightarrow> holds (view s) (gnodes t None) \<and> distinct (gaddrs t) \<and> (\<forall>a\<in>set (gaddrs t). a < bt_fresh s) \<and>
     bt_root s = gaddr t \<and> (\<exists>n. bal n t) \<and> sorted_wrt before (flat t) \<and> linked (nxt s) (gleaves t) \<and> filled t"

lemma gleaves_subset: "set (gleaves t) \<subseteq> set (gaddrs t)"
  by (induction t) auto

lemma gleaves_leaf: "holds (view s) (gnodes t p) \<Longrightarrow> a \<in> set (gleaves t) \<Longrightarrow> is_leaf_at s a"
proof (induction t arbitrary: p)
  case (GN b ks ts)
  then show ?case by (auto simp: holds_UN)
qed (simp add: is_leaf_at_def)

lemma length_gleaves: "length (gleaves t) \<le> length (gaddrs t)"
proof (induction t)
  case (GN a ks ts)
  then have "sum_list (map (\<lambda>t. length (gleaves t)) ts) \<le> sum_list (map (\<lambda>t. length (gaddrs t)) ts)"
    by (intro sum_list_mono) auto
  then show ?case by (simp add: length_concat comp_def)
qed simp

lemma trep_height:
  assumes "trep s t" "bal n t"
  shows "n < bt_fresh s"
proof -
  have "length (gaddrs t) = card (set (gaddrs t))" using assms(1) by (simp add: trep_def distinct_card)
  also have "\<dots> \<le> card {..<bt_fresh s}" using assms(1) by (intro card_mono) (auto simp: trep_def)
  finally have "2 ^ n \<le> bt_fresh s" using gleaves_height[OF assms(2)] length_gleaves[of t] by simp
  then show ?thesis using less_exp[of n] by linarith
qed

lemma distinct_gleaves: "distinct (gaddrs t) \<Longrightarrow> distinct (gleaves t)"
proof (induction t)
  case (GN a ks ts)
  have "distinct (concat (map gaddrs ts)) \<Longrightarrow> (\<And>t. t \<in> set ts \<Longrightarrow> distinct (gaddrs t) \<Longrightarrow> distinct (gleaves t)) \<Longrightarrow>
      distinct (concat (map gleaves ts))"
  proof (induction ts)
    case (Cons t ts)
    have "set (gleaves t) \<inter> set (concat (map gleaves ts)) \<subseteq> set (gaddrs t) \<inter> set (concat (map gaddrs ts))"
      using gleaves_subset by fastforce
    also have "\<dots> = {}" using Cons(2) by simp
    finally show ?case using Cons by simp
  qed simp
  then show ?case using GN by simp
qed simp

lemma leaf_insert_sim:
  assumes t: "trep s (plug fs (GL a ks vs))" "cbal 0 fs" "bal 0 (GL a ks vs)" "routes key fs"
    and g: "gleaf key item ks vs = (ks', vs')" "length ks' < BTREE_ORDER"
  shows "\<exists>s'. insert_into_leaf s a key item = Inr s' \<and> trep s' (ginsert (bt_fresh s) key item fs a ks vs)"
proof -
  let ?t = "plug fs (GL a ks vs)" let ?t' = "ginsert (bt_fresh s) key item fs a ks vs"
  have tr: "holds (view s) (gnodes (GL a ks vs) (par fs))" "holds (view s) (cnodes fs a)"
    using t(1) by (auto simp: trep_def gnodes_plug)
  obtain s' where s': "insert_into_leaf s a key item = Inr s'" "view s' = (view s)(a \<mapsto> (True, ks', vs', [], par fs))"
    "nxt s' = nxt s" "bt_fresh s' = bt_fresh s" "bt_root s' = bt_root s"
    using insert_into_leaf_sim[of s a ks vs "par fs", OF _ g] tr(1) by (simp, blast)
  have t': "?t' = plug fs (GL a ks' vs')" using g by (simp add: ginsert_def)
  have ms: "mset (gaddrs ?t') = mset (gaddrs ?t)" using gaddrs_ginsert[of "bt_fresh s" key item fs a ks vs] g by simp
  have "a \<notin> set (caddrs fs)"
    using t(1) mset_eq_imp_distinct_iff[of "gaddrs ?t" "a # caddrs fs"] by (simp add: trep_def gaddrs_plug)
  then have "holds (view s') (gnodes ?t' None)"
    using s'(2) tr(2) unfolding t' gnodes_plug holds_Un by (simp add: holds_upd fst_cnodes)
  moreover have "distinct (gaddrs ?t')" "set (gaddrs ?t') = set (gaddrs ?t)"
    using t(1) mset_eq_imp_distinct_iff[OF ms] mset_eq_setD[OF ms] by (auto simp: trep_def)
  moreover have "gaddr ?t' = gaddr ?t" "gleaves ?t' = gleaves ?t"
    unfolding t' by (simp_all add: gaddr_plug gleaves_plug)
  moreover have "sorted_wrt before (flat ?t)" using t(1) by (simp add: trep_def)
  ultimately show ?thesis
    using s' t(1) ginsert_spec(1,2)[OF t(2-4), of "bt_fresh s" item] filled_ginsert[OF _ t(3), of fs]
    by (auto simp: trep_def)
qed

lemma split_lf_sim:
  assumes a: "view s a = Some (True, ks, vs, [], p)" "a \<noteq> bt_fresh s" "length ks = 15" "key \<notin> set ks"
    and g: "gleaf key item ks vs = (ks', vs')" and f: "f = bt_fresh s"
  shows "\<exists>s3. split_lf_insert s a key item = insert_into_parent f s3 a (ks' ! 8) f \<and>
    view s3 = (view s)(a \<mapsto> (True, take 8 ks', take 8 vs', [], p), f \<mapsto> (True, drop 8 ks', drop 8 vs', [], p)) \<and>
    nxt s3 = (nxt s)(a := Some f, f := nxt s a) \<and> bt_fresh s3 = Suc f \<and> bt_root s3 = bt_root s"
proof -
  obtain n where n: "bt_heap s a = Some n" "nd_is_leaf n" "nd_keys n = ks" "nd_items n = vs" "nd_children n = []" "nd_parent n = p"
    using a(1) by (auto elim!: viewD)
  let ?s1 = "snd (make_node True s)"
  obtain m where m: "bt_heap ?s1 f = Some m" "nd_is_leaf m" "nd_children m = []"
    using f by (simp add: make_node_def Let_def)
  have n1: "bt_heap ?s1 a = Some n" using n(1) a(2) by (simp add: make_node_def Let_def)
  let ?s2 = "bt_put ?s1 a (n\<lparr>nd_keys := take 8 ks', nd_items := take 8 vs', nd_next := Some f\<rparr>)"
  let ?s3 = "bt_put ?s2 f (m\<lparr>nd_keys := drop 8 ks', nd_items := drop 8 vs', nd_next := nd_next n, nd_parent := nd_parent n\<rparr>)"
  have ks': "insert_at (insert_index key ks) key ks = ks'" "insert_at (insert_index key ks) [item] vs = vs'"
    using g a(4) by (auto simp: gleaf_def Let_def)
  have "length ks' = 16" using ks'(1) a(3) insert_index_le[of key ks] by (auto simp: insert_at_def)
  then have "drop 8 ks' ! 0 = ks' ! 8" by simp
  then have "split_lf_insert s a key item = insert_into_parent f ?s3 a (ks' ! 8) f"
    using ks' a(3) n(3,4) f m(1)
    by (simp add: split_lf_insert_def split_beta bt_get_Some[OF n1] bt_get_Some cut_def Let_def)
  moreover have "view ?s3 = (view s)(a \<mapsto> (True, take 8 ks', take 8 vs', [], p), f \<mapsto> (True, drop 8 ks', drop 8 vs', [], p))"
    using n m f by (auto simp: shape_of_def)
  moreover have "nxt ?s3 = (nxt s)(a := Some f, f := nxt s a)" using f nxt_eq[OF n(1)] by auto
  ultimately show ?thesis using f by auto
qed

lemma leaf_split_sim:
  assumes t: "trep s (plug fs (GL a ks vs))" "cbal 0 fs" "bal 0 (GL a ks vs)" "routes key fs"
    and full: "length ks = 15" "key \<notin> set ks"
  shows "\<exists>s'. split_lf_insert s a key item = Inr s' \<and> trep s' (ginsert (bt_fresh s) key item fs a ks vs)"
proof -
  let ?f = "bt_fresh s" let ?t = "plug fs (GL a ks vs)" let ?t' = "ginsert ?f key item fs a ks vs"
  obtain ks' vs' where g: "gleaf key item ks vs = (ks', vs')" by fastforce
  have len: "length ks' = 16" "length vs' = 16" using length_gleaf[OF g] full t(3) by auto
  let ?l = "GL a (take 8 ks') (take 8 vs')" let ?r = "GL ?f (drop 8 ks') (drop 8 vs')"
  have t': "?t' = gpush (Suc ?f) fs ?l (ks' ! 8) ?r" using g len by (simp add: ginsert_def)
  have tr: "view s a = Some (True, ks, vs, [], par fs)" "holds (view s) (cnodes fs a)"
    using t(1) by (auto simp: trep_def gnodes_plug)
  have ms: "mset (gaddrs ?t) = mset (a # caddrs fs)" by (simp add: gaddrs_plug)
  then have dist: "distinct (a # caddrs fs)" "\<forall>x\<in>set (a # caddrs fs). x < ?f"
    using t(1) mset_eq_imp_distinct_iff[OF ms] mset_eq_setD[OF ms] by (auto simp: trep_def)
  then have "a \<noteq> ?f" "?f \<notin> set (caddrs fs)" by auto
  obtain s3 where s3: "split_lf_insert s a key item = insert_into_parent ?f s3 a (ks' ! 8) ?f"
    "view s3 = (view s)(a \<mapsto> (True, take 8 ks', take 8 vs', [], par fs), ?f \<mapsto> (True, drop 8 ks', drop 8 vs', [], par fs))"
    "nxt s3 = (nxt s)(a := Some ?f, ?f := nxt s a)" "bt_fresh s3 = Suc ?f" "bt_root s3 = bt_root s"
    using split_lf_sim[OF tr(1) \<open>a \<noteq> ?f\<close> full g refl] by blast
  have bal: "bal 0 ?l" "bal 0 ?r" using len by auto
  have "sorted_wrt before (flat ?t)" using t(1) by (simp add: trep_def)
  note new = ginsert_spec(1,2)[OF t(2-4) this, of ?f item]
  have push: "\<exists>s'. insert_into_parent ?f s3 (gaddr ?l) (ks' ! 8) (gaddr ?r) = Inr s' \<and>
    holds (view s') (gnodes (gpush (bt_fresh s3) fs ?l (ks' ! 8) ?r) None) \<and> bt_root s' = gaddr (gpush (bt_fresh s3) fs ?l (ks' ! 8) ?r) \<and>
    bt_fresh s' = bt_fresh s3 + gnew fs \<and> (\<forall>a. is_leaf_at s3 a \<and> a < bt_fresh s3 \<longrightarrow> nxt s' a = nxt s3 a)"
  proof (rule push_sim[OF _ _ _ _ _ _ _ t(2) bal])
    show "length fs < ?f" using trep_height[OF t(1) bal_plug[OF t(2,3)]] by simp
    show "holds (view s3) (cnodes fs (gaddr ?l))"
      using tr(2) dist(1) \<open>?f \<notin> set (caddrs fs)\<close> by (simp add: s3(2) holds_upd fst_cnodes)
    show "sorted_wrt before (cl fs @ flat ?l @ Sep (ks' ! 8) # flat ?r @ cr fs)"
      using new(2) unfolding t' flat_gpush[OF t(2) bal] .
    show "bt_root s3 = gaddr (plug fs ?l)" using t(1) s3(5) by (simp add: trep_def gaddr_plug)
  qed (use dist \<open>a \<noteq> ?f\<close> s3(2-4) in \<open>auto simp: less_Suc_eq\<close>)
  then obtain s' where s': "split_lf_insert s a key item = Inr s'" "holds (view s') (gnodes ?t' None)" "bt_root s' = gaddr ?t'"
    "bt_fresh s' = Suc ?f + gnew fs" "\<forall>a. is_leaf_at s3 a \<and> a < Suc ?f \<longrightarrow> nxt s' a = nxt s3 a"
    using s3(1,4) t' by auto
  have ms': "mset (gaddrs ?t') = mset (gaddrs ?t @ [?f..<?f + Suc (gnew fs)])"
    using gaddrs_ginsert[of ?f key item fs a ks vs] g len by (simp del: upt_Suc mset_upt)
  have "distinct (gaddrs ?t')" "\<forall>x\<in>set (gaddrs ?t'). x < bt_fresh s'"
    using t(1) mset_eq_imp_distinct_iff[OF ms'] mset_eq_setD[OF ms'] s'(4) by (auto simp: trep_def)
  moreover have "linked (nxt s') (gleaves ?t')"
  proof -
    have lv: "gleaves ?t = leaves_l fs @ a # leaves_r fs" by (simp add: gleaves_plug)
    have "linked (nxt s) (leaves_l fs @ a # leaves_r fs)" "distinct (leaves_l fs @ a # leaves_r fs)"
      "\<forall>x\<in>set (leaves_l fs @ a # leaves_r fs). x < ?f \<and> is_leaf_at s x"
      using t(1) distinct_gleaves[of ?t] gleaves_subset[of ?t] gleaves_leaf[of s ?t None] unfolding lv[symmetric]
      by (auto simp: trep_def)
    moreover from this have "linked (nxt s3) (leaves_l fs @ a # ?f # leaves_r fs)"
      using \<open>a \<noteq> ?f\<close> by (intro linked_insert[of "nxt s"]) (auto simp: s3(3))
    moreover have "gleaves ?t' = leaves_l fs @ a # ?f # leaves_r fs"
      using gleaves_ginsert[of ?f key item fs a ks vs] g len by simp
    moreover have "is_leaf_at s3 x" if "is_leaf_at s x \<or> x = ?f" for x
      using that by (auto simp: is_leaf_at_def s3(2))
    ultimately show ?thesis using s'(5) by (auto elim!: linked_cong simp: less_Suc_eq)
  qed
  ultimately show ?thesis using s' new t(1) filled_ginsert[OF _ t(3), of fs] by (auto simp: trep_def)
qed

end
