(* ===== verification/Btree_Index.thy ===== *)
theory Btree_Index
  imports Btree_Insert
begin

text \<open>
  The operations of the B+tree index on a whole tree: insertion, point reads and scans.
\<close>

section \<open>Finding the leaf\<close>

lemma distinct_frames: "distinct (gaddrs (plug fs t)) \<Longrightarrow> distinct (map fst fs)"
proof -
  have sub: "set (map fst fs) \<subseteq> set (caddrs fs)" for fs by (induction fs rule: caddrs.induct) auto
  have *: "distinct (caddrs fs) \<Longrightarrow> distinct (map fst fs)"
  proof (induction fs rule: caddrs.induct)
    case (2 a kl ls kr rs fs)
    then show ?case using sub[of fs] by auto
  qed simp
  assume "distinct (gaddrs (plug fs t))"
  then have "distinct (gaddrs t @ caddrs fs)"
    using mset_eq_imp_distinct_iff[of "gaddrs (plug fs t)" "gaddrs t @ caddrs fs"] by (simp add: gaddrs_plug)
  then show ?thesis using * by simp
qed

lemma find_leaf_spec:
  assumes s: "trep s t" "quiet s" and acc: "acc = INDEX_INSERT \<or> acc = INDEX_READ"
  shows "\<exists>fs a ks vs j. t = plug fs (GL a ks vs) \<and> cbal 0 fs \<and> bal 0 (GL a ks vs) \<and> routes key fs \<and> j \<le> length fs \<and>
    find_leaf s key acc = Inr (RCOK, a, lx j fs,
       if acc = INDEX_INSERT then relatch (insert a (set (exs j fs))) {} s else relatch {} {a} s)"
proof -
  let ?r = "gaddr t"
  obtain n where n: "bal n t" using s(1) by (auto simp: trep_def)
  have h: "n < bt_fresh s" using trep_height[OF s(1) n] .
  have nodes: "holds (view s) (gnodes t (par []))" and srt: "sorted_wrt before (flat t)" and root: "bt_root s = ?r"
    and dist: "distinct (gaddrs t)"
    using s(1) by (simp_all add: trep_def)
  obtain m where m: "bt_heap s ?r = Some m" using gaddr_dom[OF nodes] by auto
  have s0: "s = relatch {} {} s" using s(2) by (simp add: quiet_def)
  have latch: "bt_latch_node s ?r LATCH_SH = Inr (True, relatch {} {?r} s)"
    using latch_node_relatch[OF m, of "{}" "{}"] s0 by simp
  have "\<exists>gs a ks vs j'. t = plug gs (GL a ks vs) \<and> cbal 0 gs \<and> bal 0 (GL a ks vs) \<and> routes key gs \<and>
    length gs = n \<and> j' \<le> length (gs @ []) \<and> (acc = INDEX_READ \<longrightarrow> j' = 0) \<and>
    descend (bt_fresh s) acc key ?r (lx 0 []) (relatch (set (exs 0 [])) {?r} s) =
      Inr (RCOK, a, lx j' (gs @ []), relatch (set (exs j' (gs @ []))) {a} s)"
    using acc dist h srt nodes by (intro descend_spec[OF n]) auto
  then obtain fs a ks vs j where d: "t = plug fs (GL a ks vs)" "cbal 0 fs" "bal 0 (GL a ks vs)" "routes key fs" "j \<le> length fs"
    "acc = INDEX_READ \<longrightarrow> j = 0"
    "descend (bt_fresh s) acc key ?r (lx 0 []) (relatch (set (exs 0 [])) {?r} s) = Inr (RCOK, a, lx j fs, relatch (set (exs j fs)) {a} s)"
    unfolding append_Nil2 by blast
  have "view s a = Some (True, ks, vs, [], par fs)" using nodes d(1) by (simp add: gnodes_plug)
  then obtain na where na: "bt_heap s a = Some na" by (rule viewD)
  have "distinct (a # caddrs fs)"
    using dist mset_eq_imp_distinct_iff[of "gaddrs t" "a # caddrs fs"] d(1) by (simp add: gaddrs_plug)
  moreover have "set (exs j fs) \<subseteq> set (caddrs fs)"
  proof -
    have "set (map fst fs) \<subseteq> set (caddrs fs)" by (induction fs rule: caddrs.induct) auto
    then show ?thesis by (auto simp: exs_def dest: in_set_takeD)
  qed
  ultimately have "a \<notin> set (exs j fs)" by auto
  then have up: "bt_upgrade_latch (relatch (set (exs j fs)) {a} s) a = Inr (RCOK, relatch (insert a (set (exs j fs))) {} s)"
    using upgrade_relatch[OF na, of "set (exs j fs)" "{a}"] by simp
  have "find_leaf s key acc = Inr (RCOK, a, lx j fs,
       if acc = INDEX_INSERT then relatch (insert a (set (exs j fs))) {} s else relatch {} {a} s)"
    using acc d(6) latch d(7) root up by (auto simp: find_leaf_def lx_def)
  then show ?thesis using d by blast
qed

lemma find_leaf_none_spec:
  assumes "bal n t" "n < fuel" "holds (view s) (gnodes t p)" "sorted_wrt before (flat t)"
  shows "\<exists>gs a ks vs. t = plug gs (GL a ks vs) \<and> cbal 0 gs \<and> length gs = n \<and> bal 0 (GL a ks vs) \<and> routes key gs \<and>
    find_leaf_none fuel s key (gaddr t) = Inr a"
  using assms
proof (induction n arbitrary: t fuel p)
  case 0
  obtain a ks vs where t: "t = GL a ks vs" using 0(1) by (cases t) auto
  obtain fuel' where fuel: "fuel = Suc fuel'" using 0(2) by (cases fuel) auto
  have "view s a = Some (True, ks, vs, [], p)" using 0(3) t by simp
  then have "find_leaf_none fuel s key (gaddr t) = Inr a"
    using t fuel by (auto elim!: viewD)
  then show ?case using 0(1) t
    by (intro exI[of _ "[]"] exI[of _ a] exI[of _ ks] exI[of _ vs]) (simp add: routes_def)
next
  case (Suc n)
  obtain a ks ts where t: "t = GN a ks ts" using Suc(2) by (cases t) auto
  obtain fuel' where fuel: "fuel = Suc fuel'" using Suc(3) by (cases fuel) auto
  obtain kl ls u kr rs where f: "ks = kl @ kr" "ts = ls @ u # rs" "child_index key ks = length ls"
      "routes key [(a, kl, ls, kr, rs)]" "cbal n [(a, kl, ls, kr, rs)]" "bal n u"
    using inner_frame[OF Suc(2)[unfolded t] Suc(5)[unfolded t], of key] .
  let ?f = "(a, kl, ls, kr, rs)"
  have v: "view s a = Some (False, ks, [], map gaddr ts, p)" and u: "holds (view s) (gnodes u (Some a))"
    using Suc(4) t f(2) by (simp_all add: holds_UN)
  have "flat t = cl [?f] @ flat u @ cr [?f]"
    using flat_plug[OF f(5), of u] t f(1,2) by simp
  then have srt: "sorted_wrt before (flat u)" using Suc(5) by (simp add: sorted_wrt_append)
  have "n < fuel'" using Suc(3) fuel by simp
  from Suc.IH[OF f(6) this u srt] obtain gs b ks' vs' where IH: "u = plug gs (GL b ks' vs')" "cbal 0 gs" "length gs = n"
      "bal 0 (GL b ks' vs')" "routes key gs" "find_leaf_none fuel' s key (gaddr u) = Inr b" by blast
  obtain nd where nd: "bt_get s a = Inr nd" "\<not> nd_is_leaf nd" "nd_keys nd = ks" "nd_children nd = map gaddr (ls @ u # rs)"
    using v f(2) by (auto elim!: viewD)
  have "find_leaf_none fuel s key (gaddr t) = Inr b"
    using t fuel nd IH(6) child_at_inner[OF nd(3,4) f(3)] by simp
  moreover have "t = plug (gs @ [?f]) (GL b ks' vs')" using t f(1,2) IH(1) by (simp add: plug_append)
  moreover have "cbal 0 (gs @ [?f])" "routes key (gs @ [?f])" "length (gs @ [?f]) = Suc n"
    using IH(2,3,5) f(4,5) by (simp_all add: cbal_append routes_append del: cbal.simps)
  ultimately show ?case using IH(4) by blast
qed

section \<open>Insertion\<close>

lemma view_relatch [simp]: "view (relatch E S s) = view s" "nxt (relatch E S s) = nxt s"
proof -
  have "view (relatch E S s) a = view s a" "nxt (relatch E S s) a = nxt s a" for a
    by (cases "bt_heap s a"; simp add: view_def nxt_def relatch_def shape_of_def)+
  then show "view (relatch E S s) = view s" "nxt (relatch E S s) = nxt s" by auto
qed

lemma trep_relatch [simp]: "trep (relatch E S s) t = trep s t"
  by (simp add: trep_def)

lemma holdsD: "holds v M \<Longrightarrow> x \<in> M \<Longrightarrow> v (fst x) = Some (snd x)"
  unfolding holds_def split_beta by blast

lemma trep_dom: "trep s t \<Longrightarrow> set (gaddrs t) \<subseteq> dom (bt_heap s)"
proof
  fix a assume "trep s t" "a \<in> set (gaddrs t)"
  then have "a \<in> fst ` gnodes t None" "holds (view s) (gnodes t None)"
    by (simp_all add: trep_def fst_gnodes)
  then obtain x where "x \<in> gnodes t None" "a = fst x" "holds (view s) (gnodes t None)" by blast
  then have "view s a = Some (snd x)" using holdsD by simp
  then show "a \<in> dom (bt_heap s)" by (auto simp: view_def)
qed

lemma ex_path_relatch:
  assumes "pchain s c fs" "0 < j" "j \<le> length fs" "distinct (c # map fst fs)" "j < fuel" "d + j < 100"
  shows "ex_path fuel (relatch E S s) c (fst (fs ! (j - 1))) d = Inr (c # exs j fs)"
  using assms
proof (induction j arbitrary: fuel c fs d)
  case (Suc j)
  obtain f gs where fs: "fs = f # gs" using Suc.prems by (cases fs) auto
  obtain fuel' where fuel: "fuel = Suc fuel'" using Suc.prems by (cases fuel) auto
  obtain n where n: "bt_heap s c = Some n" "nd_parent n = Some (fst f)" using Suc.prems(1) fs by auto
  have "fs ! j \<in> set fs" using Suc.prems(3) by simp
  then have c: "c \<noteq> fst (fs ! j)" using Suc.prems(4) by auto
  show ?case
  proof (cases "j = 0")
    case True
    then show ?thesis using n fs fuel c Suc.prems(5,6)
      by (cases fuel') (auto simp: bind_get_relatch bt_get_Some exs_def)
  next
    case False
    have "ex_path fuel' (relatch E S s) (fst f) (fst (gs ! (j - 1))) (Suc d) = Inr (fst f # exs j gs)"
      using Suc.prems fs False fuel by (intro Suc.IH) auto
    moreover have "fs ! j = gs ! (j - 1)" using fs False by (cases j) auto
    ultimately show ?thesis using n fs fuel c Suc.prems(6) by (simp add: bind_get_relatch bt_get_Some)
  qed
qed simp

lemma release_all_relatch:
  "distinct xs \<Longrightarrow> set xs \<subseteq> dom (bt_heap s) \<Longrightarrow> release_all (relatch (set xs) {} s) xs = Inr (relatch {} {} s)"
proof (induction xs)
  case (Cons x xs)
  obtain n where "bt_heap s x = Some n" using Cons.prems by auto
  from release_ex_relatch[OF this, of "set (x # xs)" "{}"] show ?case using Cons by (simp add: insert_Diff_if)
qed simp

lemma bt_index_insert_sim:
  assumes s: "trep s t" "quiet s" "length (gleaves t) < 2 ^ 99"
  shows "\<exists>s' t'. bt_index_insert s key item = Inr s' \<and> trep s' t' \<and> quiet s' \<and>
    length (gleaves t') \<le> Suc (length (gleaves t)) \<and>
    (\<forall>k. elem_items (flat t') k = (if k = key then item # elem_items (flat t) key else elem_items (flat t) k))"
proof -
  obtain fs a ks vs j where d: "t = plug fs (GL a ks vs)" "cbal 0 fs" "bal 0 (GL a ks vs)" "routes key fs" "j \<le> length fs"
    "find_leaf s key INDEX_INSERT = Inr (RCOK, a, lx j fs, relatch (insert a (set (exs j fs))) {} s)"
    using find_leaf_spec[OF s(1,2), of INDEX_INSERT key] by (simp del: bal.simps) blast
  let ?E = "insert a (set (exs j fs))" let ?t' = "ginsert (bt_fresh s) key item fs a ks vs"
  have va: "view s a = Some (True, ks, vs, [], par fs)" and up: "holds (view s) (cnodes fs a)"
    using s(1) d(1) by (auto simp: trep_def gnodes_plug)
  obtain n where n: "bt_heap s a = Some n" "nd_keys n = ks" using va by (rule viewD)
  have ms: "mset (gaddrs t) = mset (a # caddrs fs)" using d(1) by (simp add: gaddrs_plug)
  have frames: "set (map fst fs) \<subseteq> set (caddrs fs)" by (induction fs rule: caddrs.induct) auto
  then have E: "?E \<subseteq> set (gaddrs t)"
    using mset_eq_setD[OF ms] by (auto simp: exs_def dest: in_set_takeD)
  have dist: "distinct (a # map fst fs)"
    using frames distinct_frames[of fs] mset_eq_imp_distinct_iff[OF ms] s(1) d(1) by (auto simp: trep_def)
  have "(2::nat) ^ length fs < 2 ^ 99"
    using gleaves_height[OF bal_plug[OF d(2,3)]] s(3) d(1) by simp
  then have h: "length fs < 99" by (rule power_less_imp_less_exp[rotated]) simp
  have path: "(case lx j fs of None \<Rightarrow> Inr [a] | Some e \<Rightarrow> ex_path (Suc (bt_fresh (relatch ?E {} s))) (relatch ?E {} s) a e 0) = Inr (a # exs j fs)"
    using ex_path_relatch[of s a fs j "Suc (bt_fresh s)" 0 ?E "{}"] pchain_cnodes[OF up va] d(5) dist h
      trep_height[OF s(1), of "length fs"] bal_plug[OF d(2,3)] d(1) by (auto simp: lx_def)
  have fresh: "\<forall>x\<in>?E \<union> {}. x < bt_fresh s" using E s(1) by (auto simp: trep_def)
  let ?op = "\<lambda>s. if length ks < BTREE_ORDER - 1 \<or> key \<in> set ks then insert_into_leaf s a key item else split_lf_insert s a key item"
  have "\<exists>s'. ?op s = Inr s' \<and> trep s' ?t'"
  proof (cases "length ks < BTREE_ORDER - 1 \<or> key \<in> set ks")
    case True
    obtain ks' vs' where g: "gleaf key item ks vs = (ks', vs')" by fastforce
    have "length ks' < BTREE_ORDER" using length_gleaf[OF g] d(3) True by (auto split: if_splits)
    then show ?thesis using leaf_insert_sim[OF s(1)[unfolded d(1)] d(2-4) g] True by simp
  next
    case False
    then have "length ks = 15" "key \<notin> set ks" using d(3) by auto
    then show ?thesis using leaf_split_sim[OF s(1)[unfolded d(1)] d(2-4)] False by simp
  qed
  then obtain s' where s': "?op s = Inr s'" "trep s' ?t'" by blast
  have op: "?op (relatch ?E {} s) = Inr (relatch ?E {} s')"
    using s'(1) insert_into_leaf_relatch[of ?E "{}" s a key item] split_lf_insert_relatch[OF fresh, of a key item]
    by (auto split: if_splits)
  have "set (gaddrs t) \<subseteq> set (gaddrs ?t')"
    using mset_eq_setD[of "gaddrs ?t'" "gaddrs t @ _"] gaddrs_ginsert[of "bt_fresh s" key item fs a ks vs] d(1)
    by (metis Un_upper1 mset_append set_append)
  then have "set (a # exs j fs) \<subseteq> dom (bt_heap s')" using E trep_dom[OF s'(2)] by auto
  moreover have "distinct (a # exs j fs)" using dist by (auto simp: exs_def take_map[symmetric] dest: in_set_takeD)
  ultimately have rel: "release_all (relatch ?E {} s') (a # exs j fs) = Inr (relatch {} {} s')"
    using release_all_relatch[of "a # exs j fs" s'] by simp
  have "bt_index_insert s key item = Inr (relatch {} {} s')"
    unfolding bt_index_insert_def using d(6) path op rel n
    by (cases "length ks < BTREE_ORDER - 1 \<or> key \<in> set ks") (auto simp: bind_get_relatch bt_get_Some leaf_has_key_gleaf)
  moreover have "length (gleaves ?t') \<le> Suc (length (gleaves t))"
    using d(1) by (simp add: gleaves_ginsert gleaves_plug)
  moreover have "sorted_wrt before (flat (plug fs (GL a ks vs)))" using s(1) d(1) by (simp add: trep_def)
  ultimately show ?thesis using s'(2) ginsert_spec(3)[OF d(2-4), of "bt_fresh s" item] d(1) by auto
qed

section \<open>Reading\<close>

lemma leaf_entry:
  assumes "cbal 0 fs" "bal 0 (GL a ks vs)" "routes key fs" "sorted_wrt before (flat (plug fs (GL a ks vs)))"
  shows "map_of (ents (flat (plug fs (GL a ks vs)))) key =
    (if key \<in> set ks then Some (vs ! length (takeWhile (\<lambda>k. k \<noteq> key) ks)) else None)"
proof -
  have flat: "flat (plug fs (GL a ks vs)) = cl fs @ map2 Ent ks vs @ cr fs" using assms(1) by (simp add: flat_plug)
  have srt: "sorted_wrt before (cl fs)" "sorted_wrt before (cr fs)"
    using assms(4) by (auto simp: flat sorted_wrt_append)
  have "(key, v) \<notin> set (ents (cl fs))" "(key, v) \<notin> set (ents (cr fs))" for v
    using cl_before[OF assms(1,3) srt(1), of "Ent key v" v] cr_before[OF assms(1,3) srt(2), of "Ent key v" v]
    by (auto simp: set_ents)
  then have none: "map_of (ents (cl fs)) key = None" "map_of (ents (cr fs)) key = None"
    by (auto simp: map_of_eq_None_iff)
  have len: "length ks = length vs" using assms(2) by simp
  have ks: "sorted_wrt (<) ks"
    using ents_sorted[OF assms(4)] len by (simp add: flat sorted_wrt_append)
  then have "distinct ks" by (simp add: strict_sorted_iff)
  then have "map_of (zip ks vs) key = Some (vs ! length (takeWhile (\<lambda>k. k \<noteq> key) ks))" if "key \<in> set ks"
    using that takeWhile_neq[OF that] map_of_zip_nth[OF len, of "length (takeWhile (\<lambda>k. k \<noteq> key) ks)"] len by simp
  moreover have "map_of (zip ks vs) key = None" if "key \<notin> set ks"
    using that by (auto simp: map_of_eq_None_iff dest: set_zip_leftD)
  ultimately have "map_of (zip ks vs) key = (if key \<in> set ks then Some (vs ! length (takeWhile (\<lambda>k. k \<noteq> key) ks)) else None)"
    by simp
  then show ?thesis using none len by (simp add: flat map_add_def)
qed

lemma bt_index_read_sim:
  assumes s: "trep s t" "quiet s"
  shows "bt_index_read s key thd = (case map_of (ents (flat t)) key of None \<Rightarrow> Inl Assert_Fail | Some v \<Rightarrow>
    bind_res (bt_index_read s key thd) (\<lambda>(_, s'). Inr (v, s')))"
    and "map_of (ents (flat t)) key = Some v \<Longrightarrow> \<exists>xs a ks vs ys. glf t = xs @ (a, ks, vs) # ys \<and>
      key \<in> set ks \<and> ks ! length (takeWhile (\<lambda>k. k \<noteq> key) ks) = key \<and> v = vs ! length (takeWhile (\<lambda>k. k \<noteq> key) ks) \<and>
      bt_index_read s key thd = Inr (v, s\<lparr>bt_cur_leaf := (bt_cur_leaf s)(thd := Some a),
        bt_cur_idx := (bt_cur_idx s)(thd := length (takeWhile (\<lambda>k. k \<noteq> key) ks))\<rparr>)"
proof -
  obtain fs a ks vs j where d: "t = plug fs (GL a ks vs)" "cbal 0 fs" "bal 0 (GL a ks vs)" "routes key fs"
    "find_leaf s key INDEX_READ = Inr (RCOK, a, lx j fs, relatch {} {a} s)"
    using find_leaf_spec[OF s, of INDEX_READ key] by (simp del: bal.simps) blast
  let ?i = "length (takeWhile (\<lambda>k. k \<noteq> key) ks)"
  have "view s a = Some (True, ks, vs, [], par fs)" and srt: "sorted_wrt before (flat t)"
    using s(1) d(1) by (auto simp: trep_def gnodes_plug)
  then obtain n where n: "bt_heap s a = Some n" "nd_keys n = ks" "nd_items n = vs" by (auto elim!: viewD)
  have rel: "bt_release_latch (relatch {} {a} s) a = Inr s"
    using release_sh_relatch[OF n(1), of "{}" "{a}"] s(2) by (simp add: quiet_def)
  have run: "bt_index_read s key thd = (if key \<in> set ks then Inr (vs ! ?i, s\<lparr>bt_cur_leaf := (bt_cur_leaf s)(thd := Some a),
        bt_cur_idx := (bt_cur_idx s)(thd := ?i)\<rparr>) else Inl Assert_Fail)"
    using d(5) rel n by (simp add: bt_index_read_def bind_get_relatch bt_get_Some leaf_has_key_gleaf)
  note entry = leaf_entry[OF d(2-4) srt[unfolded d(1)]]
  show "bt_index_read s key thd = (case map_of (ents (flat t)) key of None \<Rightarrow> Inl Assert_Fail | Some v \<Rightarrow>
    bind_res (bt_index_read s key thd) (\<lambda>(_, s'). Inr (v, s')))"
    using run entry d(1) by simp
  show "\<exists>xs a ks vs ys. glf t = xs @ (a, ks, vs) # ys \<and>
      key \<in> set ks \<and> ks ! length (takeWhile (\<lambda>k. k \<noteq> key) ks) = key \<and> v = vs ! length (takeWhile (\<lambda>k. k \<noteq> key) ks) \<and>
      bt_index_read s key thd = Inr (v, s\<lparr>bt_cur_leaf := (bt_cur_leaf s)(thd := Some a),
        bt_cur_idx := (bt_cur_idx s)(thd := length (takeWhile (\<lambda>k. k \<noteq> key) ks))\<rparr>)"
    if "map_of (ents (flat t)) key = Some v"
  proof -
    have "key \<in> set ks" "v = vs ! ?i" using that entry d(1) by (auto split: if_splits)
    moreover have "glf t = glf_l fs @ (a, ks, vs) # glf_r fs" using d(1) by (simp add: glf_plug)
    ultimately show ?thesis using run takeWhile_neq[of key ks]
      by (intro exI[of _ "glf_l fs"] exI[of _ a] exI[of _ ks] exI[of _ vs] exI[of _ "glf_r fs"]) simp
  qed
qed

text \<open>The items under a key, found without latches.\<close>

definition bt_items :: "btree \<Rightarrow> idx_key_t \<Rightarrow> row list" where
  "bt_items s key =
     (case bind_res (find_leaf s key INDEX_NONE) (\<lambda>(rc, leaf, _). bt_get s leaf) of
        Inl e \<Rightarrow> []
      | Inr n \<Rightarrow> (case leaf_has_key n key of None \<Rightarrow> [] | Some i \<Rightarrow> nd_items n ! i))"

lemma bt_items_sim:
  assumes s: "trep s t"
  shows "bt_items s key = elem_items (flat t) key"
proof -
  obtain n where n: "bal n t" using s by (auto simp: trep_def)
  obtain fs a ks vs where d: "t = plug fs (GL a ks vs)" "cbal 0 fs" "bal 0 (GL a ks vs)" "routes key fs"
      "find_leaf_none (bt_fresh s) s key (bt_root s) = Inr a"
    using find_leaf_none_spec[OF n trep_height[OF s n], of s None key] s by (auto simp: trep_def simp del: bal.simps)
  have "view s a = Some (True, ks, vs, [], par fs)" and srt: "sorted_wrt before (flat t)"
    using s d(1) by (auto simp: trep_def gnodes_plug)
  then obtain nd where nd: "bt_heap s a = Some nd" "nd_keys nd = ks" "nd_items nd = vs" by (auto elim!: viewD)
  then show ?thesis
    using d(1,5) leaf_entry[OF d(2-4) srt[unfolded d(1)]]
    by (simp add: bt_items_def find_leaf_def bt_get_Some leaf_has_key_gleaf elem_items_def)
qed

section \<open>The B+tree as an index\<close>

definition bt_inv :: "btree \<Rightarrow> bool" where
  "bt_inv s \<longleftrightarrow> quiet s \<and> (\<exists>t. trep s t)"

text \<open>Room for \<open>n\<close> insertions: each adds at most one leaf, and \<open>ex_list\<close> has 100 places.\<close>

definition bt_room :: "btree \<Rightarrow> nat \<Rightarrow> bool" where
  "bt_room s n \<longleftrightarrow> (\<exists>t. trep s t \<and> length (gleaves t) + n \<le> 2 ^ 99)"

definition bt_read :: "btree \<Rightarrow> idx_key_t \<Rightarrow> row list res" where
  "bt_read s key = bind_res (bt_index_read s key 0) (\<lambda>(v, _). Inr v)"

lemma bt_insert_law:
  assumes "bt_inv s" "bt_room s (Suc n)"
  shows "\<exists>s'. bt_index_insert s k i = Inr s' \<and> bt_inv s' \<and> bt_room s' n \<and>
    (\<forall>k'. bt_items s' k' = (if k' = k then i # bt_items s k else bt_items s k'))"
proof -
  obtain t where t: "trep s t" "length (gleaves t) + Suc n \<le> 2 ^ 99" "quiet s"
    using assms by (auto simp: bt_inv_def bt_room_def)
  obtain s' t' where s': "bt_index_insert s k i = Inr s'" "trep s' t'" "quiet s'"
    "length (gleaves t') \<le> Suc (length (gleaves t))"
    "\<forall>k'. elem_items (flat t') k' = (if k' = k then i # elem_items (flat t) k else elem_items (flat t) k')"
    using bt_index_insert_sim[OF t(1,3), of k i] t(2) by auto
  moreover have "bt_inv s'" "bt_room s' n" using s' t(2) by (auto simp: bt_inv_def bt_room_def)
  ultimately show ?thesis using bt_items_sim[OF t(1)] bt_items_sim[OF s'(2)] by simp
qed

lemma trep_items:
  assumes "trep s t" "map_of (ents (flat t)) k = Some v"
  shows "v \<noteq> []"
proof -
  obtain n where n: "bal n t" using assms(1) by (auto simp: trep_def)
  have "(k, v) \<in> set (concat (map (\<lambda>(a, ks, vs). zip ks vs) (glf t)))"
    using map_of_SomeD[OF assms(2)] ents_glf[OF n] by simp
  then obtain a ks vs where x: "(a, ks, vs) \<in> set (glf t)" "(k, v) \<in> set (zip ks vs)" by auto
  then have "v \<in> set vs" by (auto dest: set_zip_rightD)
  then show ?thesis using x(1) assms(1) by (force simp: trep_def filled_def)
qed

lemma bt_read_law:
  assumes "bt_inv s"
  shows "bt_read s k = (if bt_items s k = [] then Inl Assert_Fail else Inr (bt_items s k))"
proof -
  obtain t where t: "trep s t" "quiet s" using assms by (auto simp: bt_inv_def)
  show ?thesis
  proof (cases "map_of (ents (flat t)) k")
    case None
    then show ?thesis using bt_index_read_sim(1)[OF t, of k 0] bt_items_sim[OF t(1), of k]
      by (simp add: bt_read_def elem_items_def)
  next
    case (Some v)
    with bt_index_read_sim(2)[OF t Some, of 0] trep_items[OF t(1) Some] bt_items_sim[OF t(1), of k]
    show ?thesis by (auto simp: bt_read_def elem_items_def)
  qed
qed

interpretation btree_index: index_contract bt_inv bt_room "\<lambda>_ _. True" bt_items bt_index_insert bt_read
proof (unfold_locales, goal_cases)
  case (1 s n k i)
  then show ?case using bt_insert_law[of s n k i] by blast
next
  case (2 s n k i s')
  then show ?case using bt_insert_law[of s n k i] by auto
next
  case (4 s n k i s' k')
  then show ?case using bt_insert_law[of s n k i] by auto
qed (simp_all add: bt_read_law)

lemma trep_init: "trep btree_init (GL 0 [] [])"
  by (auto simp: trep_def btree_init_def make_node_def view_def shape_of_def nxt_def filled_def intro!: exI[of _ 0])

lemma bt_inv_init: "bt_inv btree_init" "Suc n \<le> 2 ^ 99 \<Longrightarrow> bt_room btree_init n" "bt_items btree_init k = []"
proof -
  have "quiet btree_init"
    by (auto simp: quiet_def relatch_def relab_def latch_of_def btree_init_def make_node_def intro!: ext)
  then show "bt_inv btree_init" using trep_init by (auto simp: bt_inv_def)
  show "bt_room btree_init n" if "Suc n \<le> 2 ^ 99"
    using that trep_init by (auto simp: bt_room_def intro!: exI[of _ "GL 0 [] []"])
  show "bt_items btree_init k = []" using bt_items_sim[OF trep_init] by (simp add: elem_items_def)
qed

text \<open>
  C12: The B+tree implements the index interface. Starting from the empty index, any sequence of
  up to \<open>2 ^ 98\<close> insertions runs to completion: no assertion fails, no null pointer is followed,
  every descent and every chain of splits ends, and all latches are free afterwards. Reading a
  key that was inserted then returns exactly the rows inserted under it, latest first; and
  reading any other key fails the assertion that the key exists.
\<close>

theorem btree_index_reads_inserts:
  assumes "length xs \<le> 2 ^ 98"
  shows "\<exists>s. loads bt_index_insert btree_init xs = Inr s \<and> bt_inv s \<and>
    (\<forall>k. bt_read s k = (if k \<in> fst ` set xs then Inr (rev (map snd (filter (\<lambda>(k', _). k' = k) xs))) else Inl Assert_Fail))"
proof -
  have "bt_room btree_init (0 + length xs)" using bt_inv_init(2)[of "length xs"] assms by simp
  from btree_index.loads_items[OF bt_inv_init(1) this] obtain s where s: "loads bt_index_insert btree_init xs = Inr s" "bt_inv s"
    "\<forall>k. bt_items s k = rev (map snd (filter (\<lambda>(k', _). k' = k) xs))"
    using bt_inv_init(3) by auto
  have "rev (map snd (filter (\<lambda>(k', _). k' = k) xs)) = [] \<longleftrightarrow> k \<notin> fst ` set xs" for k
    by (force simp: filter_empty_conv)
  then show ?thesis using s bt_read_law[OF s(2)] by auto
qed

theorem btree_index_reads_inserts_witness:
  "\<exists>s. loads bt_index_insert btree_init (map (\<lambda>i. (word_of_nat i, demo_row)) [0..<20]) = Inr s \<and>
     bt_read s 7 = Inr [demo_row] \<and> bt_read s 99 = Inl Assert_Fail"
proof -
  let ?xs = "map (\<lambda>i. (word_of_nat i, demo_row)) [0..<20] :: (idx_key_t \<times> row) list"
  have "length ?xs \<le> 2 ^ 98" by simp
  moreover have "(7::idx_key_t) \<in> fst ` set ?xs" "(99::idx_key_t) \<notin> fst ` set ?xs"
    "rev (map snd (filter (\<lambda>(k', _). k' = 7) ?xs)) = [demo_row]"
    by (simp_all add: upt_rec)
  ultimately show ?thesis using btree_index_reads_inserts[of ?xs] by metis
qed

section \<open>Scanning\<close>

text \<open>What is still to come for a cursor: the entries after position \<open>i\<close> of leaf \<open>a\<close>.\<close>

definition cursor_at :: "gt \<Rightarrow> nat \<Rightarrow> nat \<Rightarrow> (idx_key_t \<times> row list) list \<Rightarrow> bool" where
  "cursor_at t a i es \<longleftrightarrow> (\<exists>xs ks vs ys. glf t = xs @ (a, ks, vs) # ys \<and> i < length ks \<and>
     es = drop (Suc i) (zip ks vs) @ concat (map (\<lambda>(a, ks, vs). zip ks vs) ys))"

lemma linked_next: "linked n (xs @ a # ys) \<Longrightarrow> n a = (case ys of [] \<Rightarrow> None | b # _ \<Rightarrow> Some b)"
  by (induction xs) auto

lemma glf_nodes: "holds v (gnodes t p) \<Longrightarrow> (a, ks, vs) \<in> set (glf t) \<Longrightarrow> \<exists>q. v a = Some (True, ks, vs, [], q)"
proof (induction t arbitrary: p)
  case (GN b ks' ts)
  then obtain t where "t \<in> set ts" "(a, ks, vs) \<in> set (glf t)" by auto
  then show ?case using GN by (auto simp: holds_UN)
qed auto

lemma view_cursor [simp]:
  "view (s\<lparr>bt_cur_leaf := lf, bt_cur_idx := li\<rparr>) = view s" "nxt (s\<lparr>bt_cur_leaf := lf, bt_cur_idx := li\<rparr>) = nxt s"
  by (auto simp: view_def nxt_def)

lemma trep_cursor [simp]:
  "trep (s\<lparr>bt_cur_leaf := lf, bt_cur_idx := li\<rparr>) t = trep s t"
  by (simp add: trep_def)

lemma index_next_sim:
  assumes s: "trep s t" and c: "bt_cur_leaf s thd = Some a" "cursor_at t a (bt_cur_idx s thd) es"
  shows "\<exists>s'. bt_index_next s thd False = Inr (case es of [] \<Rightarrow> None | (k, v) # _ \<Rightarrow> Some v, s') \<and> trep s' t \<and>
    (es \<noteq> [] \<longrightarrow> (\<exists>b. bt_cur_leaf s' thd = Some b \<and> cursor_at t b (bt_cur_idx s' thd) (tl es)))"
proof -
  let ?i = "bt_cur_idx s thd"
  obtain xs ks vs ys where g: "glf t = xs @ (a, ks, vs) # ys" "?i < length ks"
      "es = drop (Suc ?i) (zip ks vs) @ concat (map (\<lambda>(a, ks, vs). zip ks vs) ys)"
    using c(2) by (auto simp: cursor_at_def)
  obtain n where n: "bal n t" using s by (auto simp: trep_def)
  have nodes: "holds (view s) (gnodes t None)" using s by (simp add: trep_def)
  have len: "length ks = length vs" using glf_bal[OF n, of a ks vs] g(1) by simp
  obtain q where "view s a = Some (True, ks, vs, [], q)" using glf_nodes[OF nodes, of a ks vs] g(1) by auto
  then obtain nd where nd: "bt_heap s a = Some nd" "nd_is_leaf nd" "nd_keys nd = ks" "nd_items nd = vs" by (auto elim!: viewD)
  have nx: "nd_next nd = (case ys of [] \<Rightarrow> None | y # _ \<Rightarrow> Some (fst y))"
    using linked_next[of "nxt s" "map fst xs" a "map fst ys"] s g(1) nxt_eq[OF nd(1)]
    by (simp add: trep_def gleaves_glf split: list.splits)
  let ?s = "\<lambda>b i. s\<lparr>bt_cur_leaf := (bt_cur_leaf s)(thd := b), bt_cur_idx := (bt_cur_idx s)(thd := i)\<rparr>"
  show ?thesis
  proof (cases "Suc ?i < length ks")
    case True
    then have "drop (Suc ?i) (zip ks vs) = (ks ! Suc ?i, vs ! Suc ?i) # drop (Suc (Suc ?i)) (zip ks vs)"
      using len by (simp add: Cons_nth_drop_Suc[symmetric])
    moreover have "bt_index_next s thd False = Inr (Some (vs ! Suc ?i), ?s (Some a) (Suc ?i))"
      using c(1) nd g(2) True by (simp add: bt_index_next_def bt_get_Some Let_def)
    ultimately show ?thesis using g s True
      by (intro exI[of _ "?s (Some a) (Suc ?i)"]) (auto simp: cursor_at_def)
  next
    case False
    then have es: "es = concat (map (\<lambda>(a, ks, vs). zip ks vs) ys)" using g(3) len by simp
    show ?thesis
    proof (cases ys)
      case Nil
      then have "bt_index_next s thd False = Inr (None, ?s None 0)"
        using c(1) nd g(2) False nx by (simp add: bt_index_next_def bt_get_Some Let_def)
      then show ?thesis using es Nil s by auto
    next
      case (Cons y ys')
      obtain b ks2 vs2 where y: "y = (b, ks2, vs2)" by (cases y)
      have "ks2 \<noteq> []" using s g(1) Cons y by (auto simp: trep_def filled_def)
      moreover have "length ks2 = length vs2" using glf_bal[OF n, of b ks2 vs2] g(1) Cons y by simp
      ultimately obtain k v ks3 vs3 where kv: "ks2 = k # ks3" "vs2 = v # vs3" by (cases ks2; cases vs2) auto
      obtain q where "view s b = Some (True, ks2, vs2, [], q)"
        using glf_nodes[OF nodes, of b ks2 vs2] g(1) Cons y by auto
      then obtain m where m: "bt_heap s b = Some m" "nd_is_leaf m" "nd_keys m = ks2" "nd_items m = vs2" by (auto elim!: viewD)
      have "bt_index_next s thd False = Inr (Some v, ?s (Some b) 0)"
        using c(1) nd g(2) False nx m kv Cons y by (simp add: bt_index_next_def bt_get_Some Let_def)
      moreover have "cursor_at t b 0 (tl es)"
        unfolding cursor_at_def using g(1) es Cons y kv
        by (intro exI[of _ "xs @ [(a, ks, vs)]"] exI[of _ ks2] exI[of _ vs2] exI[of _ ys']) simp
      ultimately show ?thesis using es Cons y kv s by auto
    qed
  qed
qed

fun bt_scan :: "nat \<Rightarrow> btree \<Rightarrow> nat \<Rightarrow> row list list res" where
  "bt_scan 0 s thd = Inr []"
| "bt_scan (Suc n) s thd = bind_res (bt_index_next s thd False) (\<lambda>(item, s').
     case item of None \<Rightarrow> Inr [] | Some v \<Rightarrow> bind_res (bt_scan n s' thd) (\<lambda>vs. Inr (v # vs)))"

lemma bt_scan_sim:
  "trep s t \<Longrightarrow> bt_cur_leaf s thd = Some a \<Longrightarrow> cursor_at t a (bt_cur_idx s thd) es \<Longrightarrow>
   bt_scan n s thd = Inr (take n (map snd es))"
proof (induction n arbitrary: s a es)
  case (Suc n)
  obtain s' where s': "bt_index_next s thd False = Inr (case es of [] \<Rightarrow> None | (k, v) # _ \<Rightarrow> Some v, s')" "trep s' t"
    "es \<noteq> [] \<longrightarrow> (\<exists>b. bt_cur_leaf s' thd = Some b \<and> cursor_at t b (bt_cur_idx s' thd) (tl es))"
    using index_next_sim[OF Suc.prems] by blast
  then show ?case using Suc.IH[OF s'(2)] by (cases es) auto
qed simp

lemma cursor_entries:
  assumes "trep s t" "glf t = xs @ (a, ks, vs) # ys" "i < length ks"
  shows "\<exists>as es. ents (flat t) = as @ (ks ! i, vs ! i) # es \<and> cursor_at t a i es"
proof -
  obtain n where n: "bal n t" using assms(1) by (auto simp: trep_def)
  have len: "length ks = length vs" using glf_bal[OF n, of a ks vs] assms(2) by simp
  have "zip ks vs = take i (zip ks vs) @ (ks ! i, vs ! i) # drop (Suc i) (zip ks vs)"
    using id_take_nth_drop[of i "zip ks vs"] assms(3) len by simp
  moreover have "ents (flat t) = concat (map (\<lambda>(a, ks, vs). zip ks vs) xs) @ zip ks vs @ concat (map (\<lambda>(a, ks, vs). zip ks vs) ys)"
    using ents_glf[OF n] assms(2) by simp
  ultimately have "ents (flat t) = concat (map (\<lambda>(a, ks, vs). zip ks vs) xs) @
      (take i (zip ks vs) @ (ks ! i, vs ! i) # drop (Suc i) (zip ks vs)) @ concat (map (\<lambda>(a, ks, vs). zip ks vs) ys)"
    by argo
  then have "ents (flat t) = (concat (map (\<lambda>(a, ks, vs). zip ks vs) xs) @ take i (zip ks vs)) @ (ks ! i, vs ! i) #
      drop (Suc i) (zip ks vs) @ concat (map (\<lambda>(a, ks, vs). zip ks vs) ys)" by simp
  then show ?thesis using assms(2,3) unfolding cursor_at_def by blast
qed

text \<open>
  C13: A range scan returns the keys in order. After any sequence of insertions into the empty
  index, reading a key that was inserted positions the cursor of the thread there, and \<open>n\<close>
  calls of \<open>index_next\<close> then deliver the rows of the next \<open>n\<close> larger keys in ascending order of the
  keys, each with all its rows, ending early exactly when no larger key is left.
\<close>

theorem btree_scan_ascending:
  assumes "length xs \<le> 2 ^ 98" "k \<in> fst ` set xs"
  shows "\<exists>s s1. loads bt_index_insert btree_init xs = Inr s \<and>
    bt_index_read s k thd = Inr (rev (map snd (filter (\<lambda>(k', _). k' = k) xs)), s1) \<and>
    bt_scan n s1 thd = Inr (map (\<lambda>k. rev (map snd (filter (\<lambda>(k', _). k' = k) xs)))
      (take n (sorted_list_of_set {k' \<in> fst ` set xs. k < k'})))"
proof -
  let ?rows = "\<lambda>k. rev (map snd (filter (\<lambda>(k', _). k' = k) xs))"
  have "bt_room btree_init (0 + length xs)" using bt_inv_init(2)[of "length xs"] assms(1) by simp
  from btree_index.loads_items[OF bt_inv_init(1) this] obtain s where s: "loads bt_index_insert btree_init xs = Inr s" "bt_inv s"
    "\<forall>k. bt_items s k = ?rows k"
    using bt_inv_init(3) by auto
  then obtain t where t: "trep s t" "quiet s" by (auto simp: bt_inv_def)
  have some: "map_of (ents (flat t)) k = (if k \<in> fst ` set xs then Some (?rows k) else None)" for k
    using bt_items_sim[OF t(1), of k] trep_items[OF t(1), of k] s(3)
    by (cases "map_of (ents (flat t)) k") (force simp: elem_items_def filter_empty_conv)+
  have srt: "sorted_wrt (<) (map fst (ents (flat t)))" using t(1) ents_sorted by (simp add: trep_def)
  have keys: "set (map fst (ents (flat t))) = fst ` set xs"
    using some by (metis (no_types, lifting) map_of_eq_None_iff option.distinct(1) set_eqI set_map)
  let ?i = "\<lambda>ks. length (takeWhile (\<lambda>k'. k' \<noteq> k) ks)"
  obtain as a ks vs bs where r: "glf t = as @ (a, ks, vs) # bs" "k \<in> set ks" "ks ! ?i ks = k"
      "bt_index_read s k thd = Inr (?rows k, s\<lparr>bt_cur_leaf := (bt_cur_leaf s)(thd := Some a), bt_cur_idx := (bt_cur_idx s)(thd := ?i ks)\<rparr>)"
    using bt_index_read_sim(2)[OF t, of k "?rows k" thd] some[of k] assms(2) by auto
  obtain us es where e: "ents (flat t) = us @ (k, vs ! ?i ks) # es" "cursor_at t a (?i ks) es"
    using cursor_entries[OF t(1) r(1), of "?i ks"] takeWhile_neq[OF r(2)] r(3) by auto
  have scan: "bt_scan n (s\<lparr>bt_cur_leaf := (bt_cur_leaf s)(thd := Some a), bt_cur_idx := (bt_cur_idx s)(thd := ?i ks)\<rparr>) thd =
      Inr (take n (map snd es))"
    using e(2) t(1) by (intro bt_scan_sim) auto
  have "v = ?rows k'" if "(k', v) \<in> set es" for k' v
  proof -
    have "distinct (map fst (ents (flat t)))" using srt by (simp add: strict_sorted_iff)
    then have "map_of (ents (flat t)) k' = Some v" using that e(1) by (intro map_of_is_SomeI) auto
    then show ?thesis using some[of k'] by (auto split: if_splits)
  qed
  then have rows: "map snd es = map ?rows (map fst es)" by auto
  have "{k' \<in> fst ` set xs. k < k'} = set (map fst es)"
    unfolding keys[symmetric] using srt e(1) by (auto simp: sorted_wrt_append dest: order.strict_trans)
  moreover have "sorted_wrt (<) (map fst es)" using srt e(1) by (simp add: sorted_wrt_append)
  ultimately have "sorted_list_of_set {k' \<in> fst ` set xs. k < k'} = map fst es"
    by (simp only: sorted_list_of_set.idem_if_sorted_distinct strict_sorted_iff)
  then show ?thesis using s(1) r(4) scan rows by (simp add: take_map)
qed

theorem btree_scan_ascending_witness:
  "\<exists>s s1. loads bt_index_insert btree_init [(9, demo_row), (4, demo_row), (6, demo_row)] = Inr s \<and>
     bt_index_read s 4 0 = Inr ([demo_row], s1) \<and> bt_scan 5 s1 0 = Inr [[demo_row], [demo_row]]"
proof -
  let ?xs = "[(9, demo_row), (4, demo_row), (6, demo_row)] :: (idx_key_t \<times> row) list"
  have "{k' \<in> fst ` set ?xs. (4::idx_key_t) < k'} = {9, 6}" by auto
  moreover have "sorted_list_of_set {9, 6 :: idx_key_t} = [6, 9]" by simp
  ultimately show ?thesis using btree_scan_ascending[of ?xs 4 0 5] by auto
qed

end
