(* ===== verification/Index_Bt_Enc.thy ===== *)
theory Index_Bt_Enc
  imports Btree_Index Index_Enc
begin

text \<open>
  The verifiable B+tree of the enclave, \<open>IndexBTEnc\<close> (\<open>trusted/system/index_btree_enc.h\<close> and
  \<open>index_btree_enc.cpp\<close>) with \<open>VERI_TYPE == PAGE_VERI\<close>, one partition and \<open>FULL_TPCC\<close>, as
  configured: a node is a page, copied into the enclave when the descent reaches it, kept in
  the page cache of \<open>Lru_Cache\<close> and, if it is a leaf, copied back when it is swapped out. The
  untrusted index is the \<open>btree\<close> of theory \<open>Btree\<close>; a page remembers the address of the node it
  was copied from (\<open>origin\<close>) and names its relatives by node id.

  The hash of a page is its number of keys: \<open>get_hash\<close> computes a hash of the keys and of the first
  row of each item (reading through every item pointer) and then returns \<open>num_keys\<close>. The recorded hash of a page is zero until it is first loaded.
  \<open>TAMPER_PERCENTAGE\<close> is zero, and \<open>sync_bucket_from_disk\<close> does not change memory. The size of
  the node object, \<open>sizeof (BTNode)\<close>, is the argument \<open>sz\<close>; \<open>junk\<close> is the partition id a new
  row object happens to hold. Inserting through the enclave is not modelled here.
\<close>

section \<open>Pages\<close>

record BTNode =
  be_is_leaf :: bool
  be_keys :: "idx_key_t list"
  be_data :: "row list list"
  be_child :: "u64 list"
  be_parent :: u64
  be_next :: u64
  be_latch :: page_latch
  be_part :: nat
  be_origin :: nat
  be_node_id :: u64

record index_bt_enc =
  bte_cache :: "nat lru_cache"
  bte_heap :: "nat \<rightharpoonup> BTNode"
  bte_fresh :: nat
  bte_root :: nat
  bte_verify_hash :: "nat \<times> u64 \<Rightarrow> u64"
  bte_outside :: btree

text \<open>
  \<open>get_hash\<close> of a page and of an untrusted node have the same body: the keys, and in a leaf the hash of
  the first row of each of the first \<open>num_keys\<close> items; a missing item is a null pointer.
\<close>

fun item_hashes :: "idx_key_t list \<Rightarrow> row list list \<Rightarrow> u64 \<Rightarrow> u64 res" where
  "item_hashes [] items res = Inr res"
| "item_hashes (_ # ks) [] res = Inl Bounds"
| "item_hashes (_ # ks) (it # items) res =
     (case it of [] \<Rightarrow> Inl Null_Deref | r # _ \<Rightarrow> item_hashes ks items (res XOR row_hash r))"

definition node_get_hash :: "bool \<Rightarrow> idx_key_t list \<Rightarrow> row list list \<Rightarrow> u64 res" where
  "node_get_hash is_leaf keys items =
     (let res = foldl (XOR) 0 keys in
      bind_res (if is_leaf then item_hashes keys items res else Inr res) (\<lambda>_. Inr (of_nat (length keys))))"

definition be_get_hash :: "BTNode \<Rightarrow> u64 res" where
  "be_get_hash n = node_get_hash (be_is_leaf n) (be_keys n) (be_data n)"

definition nd_get_hash :: "bt_node \<Rightarrow> u64 res" where
  "nd_get_hash n = node_get_hash (nd_is_leaf n) (nd_keys n) (nd_items n)"

definition be_get_size :: "u64 \<Rightarrow> BTNode \<Rightarrow> u64" where
  "be_get_size sz n =
     (if be_is_leaf n then 1024 * of_nat (length (be_keys n))
      else sz + 8 * of_nat (length (be_keys n) + 1) + 8 * of_nat (length (be_keys n) + 1))"

text \<open>The node id behind a pointer of the untrusted index, zero for the null pointer.\<close>

definition id_of :: "btree \<Rightarrow> nat option \<Rightarrow> u64 res" where
  "id_of s p = (case p of None \<Rightarrow> Inr 0 | Some a \<Rightarrow> bind_res (bt_get s a) (\<lambda>n. Inr (nd_node_id n)))"

fun ids_of :: "btree \<Rightarrow> nat list \<Rightarrow> u64 list res" where
  "ids_of s [] = Inr []"
| "ids_of s (a # as) = bind_res (id_of s (Some a)) (\<lambda>i. bind_res (ids_of s as) (\<lambda>is. Inr (i # is)))"

text \<open>
  \<open>make_node\<close> on an untrusted node: the page that copies it. The final assertion reads the first
  key of both nodes, which an empty node does not have.
\<close>

definition bte_make_node :: "u64 \<Rightarrow> btree \<Rightarrow> nat \<Rightarrow> nat \<Rightarrow> BTNode res" where
  "bte_make_node junk s out part =
     bind_res (bt_get s out) (\<lambda>n.
     bind_res (id_of s (nd_next n)) (\<lambda>nx.
     bind_res (id_of s (nd_parent n)) (\<lambda>pa.
     bind_res (if nd_is_leaf n then Inr [] else ids_of s (nd_children n)) (\<lambda>child.
       let data = (if nd_is_leaf n then map (map (row_dup junk)) (nd_items n) else []) in
       assert_res (\<forall>r\<in>set (concat (nd_items n)). nd_is_leaf n \<longrightarrow> row_hash (row_dup junk r) = row_hash r)
         (if nd_keys n = [] then Inl Bounds
          else Inr \<lparr>be_is_leaf = nd_is_leaf n, be_keys = nd_keys n, be_data = data, be_child = child,
                 be_parent = pa, be_next = nx, be_latch = latch_free, be_part = part, be_origin = out,
                 be_node_id = nd_node_id n\<rparr>)))))"

section \<open>Swapping out\<close>

definition bte_flush_out :: "u64 \<Rightarrow> index_bt_enc \<Rightarrow> BTNode \<Rightarrow> index_bt_enc res" where
  "bte_flush_out junk st c =
     assert_res (be_is_leaf c) (bind_res (be_get_hash c) (\<lambda>h.
       (bind_res (bt_latch_node (bte_outside st) (be_origin c) LATCH_EX) (\<lambda>(ok, s1).
          if \<not> ok then Inl Blocked
          else bind_res (bt_get s1 (be_origin c)) (\<lambda>n.
            let n' = n\<lparr>nd_keys := be_keys c, nd_is_leaf := be_is_leaf c,
                       nd_items := map (map (row_dup junk)) (be_data c)\<rparr> in
            bind_res (nd_get_hash n') (\<lambda>h'. assert_res (h = h')
              (bind_res (release_latch (nd_latch n')) (\<lambda>(t, l).
                 assert_res (t = LATCH_EX)
                   (Inr (st\<lparr>bte_verify_hash := (bte_verify_hash st)((be_part c, be_node_id c) := h),
                            bte_outside := bt_put s1 (be_origin c) (n'\<lparr>nd_latch := l\<rparr>)\<rparr>))))))))))"

definition bte_swap_out :: "u64 \<Rightarrow> index_bt_enc \<Rightarrow> nat \<Rightarrow> index_bt_enc res" where
  "bte_swap_out junk st a =
     (case bte_heap st a of
        None \<Rightarrow> Inl Null_Deref
      | Some pg \<Rightarrow>
          bind_res (latch_node (be_latch pg) LATCH_EX) (\<lambda>(ok, l).
            if \<not> ok then Inl Blocked
            else bind_res (if be_is_leaf pg then bte_flush_out junk st (pg\<lparr>be_latch := l\<rparr>) else Inr st)
              (\<lambda>st'. Inr (st'\<lparr>bte_heap := (bte_heap st')(a := None)\<rparr>))))"

section \<open>Loading\<close>

text \<open>
  The check of a page that comes from outside. Only leaves are checked, and a page that has no
  recorded hash is accepted and recorded.
\<close>

definition bte_check :: "index_bt_enc \<Rightarrow> BTNode \<Rightarrow> index_bt_enc res" where
  "bte_check st n =
     (if \<not> be_is_leaf n then Inr st
      else bind_res (be_get_hash n) (\<lambda>h.
        if bte_verify_hash st (be_part n, be_node_id n) = 0
        then Inr (st\<lparr>bte_verify_hash := (bte_verify_hash st)((be_part n, be_node_id n) := h)\<rparr>)
        else assert_res (bte_verify_hash st (be_part n, be_node_id n) = h) (Inr st)))"

text \<open>
  The part that \<open>load_child\<close> and \<open>load_next\<close> share once the page is not in the cache: latch the
  untrusted node, copy it, put it into the cache, write out what the cache swapped for it, and
  check it. The node id of the copy is overwritten with the expected one (\<open>assert(a = b)\<close>).
\<close>

definition bte_load_miss :: "u64 \<Rightarrow> u64 \<Rightarrow> index_bt_enc \<Rightarrow> nat \<Rightarrow> u64 \<Rightarrow> nat \<Rightarrow> (nat \<times> index_bt_enc) res" where
  "bte_load_miss sz junk st part inner_node_id origin =
     bind_res (bt_latch_node (bte_outside st) origin LATCH_EX) (\<lambda>(ok, s1).
       if \<not> ok then Inl Blocked
       else bind_res (bte_make_node junk s1 origin part) (\<lambda>n0.
         let n = n0\<lparr>be_node_id := inner_node_id\<rparr>; a = bte_fresh st in
         assert_res (inner_node_id \<noteq> 0)
           (bind_res (lru_load_and_swap False (bte_cache st) part inner_node_id (ucast (be_get_size sz n)) a)
              (\<lambda>(rc, sw, cur, c').
                if rc \<noteq> RCOK then Inl Blocked
                else bind_res (bt_get s1 origin) (\<lambda>o1.
                  bind_res (release_latch (nd_latch o1)) (\<lambda>(t, l).
                    assert_res (t = LATCH_EX)
                      (let st1 = st\<lparr>bte_outside := bt_put s1 origin (o1\<lparr>nd_latch := l\<rparr>),
                             bte_heap := (bte_heap st)(a \<mapsto> n), bte_fresh := Suc a, bte_cache := c'\<rparr> in
                       bind_res (case sw of None \<Rightarrow> Inr st1 | Some (b, _, _) \<Rightarrow> bte_swap_out junk st1 b) (\<lambda>st2.
                         if cur \<noteq> a then Inr (cur, st2\<lparr>bte_heap := (bte_heap st2)(a := None)\<rparr>)
                         else bind_res (bte_check st2 n) (\<lambda>st3. Inr (a, st3))))))))))"

text \<open>\<open>load_child\<close> with a child index; the null page is \<open>None\<close>.\<close>

definition load_child :: "u64 \<Rightarrow> u64 \<Rightarrow> index_bt_enc \<Rightarrow> nat \<Rightarrow> nat \<Rightarrow> (nat option \<times> index_bt_enc) res" where
  "load_child sz junk st cur i =
     (case bte_heap st cur of
        None \<Rightarrow> Inl Null_Deref
      | Some c \<Rightarrow>
          assert_res (\<not> be_is_leaf c)
            (bind_res (bt_get (bte_outside st) (be_origin c)) (\<lambda>og.
               if \<not> i < length (be_child c) then Inl Bounds
               else if i \<le> length (nd_keys og) \<and> \<not> i < length (nd_children og) then Inl Bounds
               else if be_child c ! i = 0 then Inr (None, st)
               else bind_res (lru_try_load False (bte_cache st) (be_part c) (be_child c ! i)) (\<lambda>(r, c').
                 case r of
                   Some a \<Rightarrow> Inr (Some a, st\<lparr>bte_cache := c'\<rparr>)
                 | None \<Rightarrow>
                     if \<not> i \<le> length (nd_keys og) then Inl Null_Deref
                     else bind_res (bte_load_miss sz junk (st\<lparr>bte_cache := c'\<rparr>) (be_part c) (be_child c ! i)
                            (nd_children og ! i)) (\<lambda>(a, st'). Inr (Some a, st'))))))"

text \<open>
  \<open>load_child\<close> with index \<open>-1\<close>, the parent: the root, or a page that is still in the cache; the
  untrusted node is then null, and going on with it is the fault.
\<close>

definition load_parent :: "index_bt_enc \<Rightarrow> nat \<Rightarrow> (nat option \<times> index_bt_enc) res" where
  "load_parent st cur =
     (case (bte_heap st cur, bte_heap st (bte_root st)) of
        (Some c, Some r) \<Rightarrow>
          if be_parent c = be_node_id r then Inr (Some (bte_root st), st)
          else if be_parent c = 0 then Inr (None, st)
          else bind_res (lru_try_load False (bte_cache st) (be_part c) (be_parent c)) (\<lambda>(q, c').
            case q of None \<Rightarrow> Inl Null_Deref | Some a \<Rightarrow> Inr (Some a, st\<lparr>bte_cache := c'\<rparr>))
      | _ \<Rightarrow> Inl Null_Deref)"

definition load_next :: "u64 \<Rightarrow> u64 \<Rightarrow> index_bt_enc \<Rightarrow> nat \<Rightarrow> (nat option \<times> index_bt_enc) res" where
  "load_next sz junk st cur =
     (case bte_heap st cur of
        None \<Rightarrow> Inl Null_Deref
      | Some c \<Rightarrow>
          assert_res (be_is_leaf c)
            (bind_res (bt_get (bte_outside st) (be_origin c)) (\<lambda>og.
               case nd_next og of
                 None \<Rightarrow> Inr (None, st)
               | Some origin \<Rightarrow>
                   if be_next c = 0 then Inr (None, st)
                   else bind_res (lru_try_load False (bte_cache st) (be_part c) (be_next c)) (\<lambda>(r, c').
                     case r of
                       Some a \<Rightarrow> Inr (Some a, st\<lparr>bte_cache := c'\<rparr>)
                     | None \<Rightarrow> bind_res (bte_load_miss sz junk (st\<lparr>bte_cache := c'\<rparr>) (be_part c) (be_next c) origin)
                         (\<lambda>(a, st'). Inr (Some a, st'))))))"

section \<open>Operations of the index\<close>

definition bte_init :: "u64 \<Rightarrow> nat \<Rightarrow> u64 \<Rightarrow> btree \<Rightarrow> index_bt_enc" where
  "bte_init node_num part_cnt limit outside =
     \<lparr>bte_cache = lru_init node_num part_cnt limit, bte_heap = Map.empty, bte_fresh = 0, bte_root = 0,
      bte_verify_hash = (\<lambda>_. 0), bte_outside = outside\<rparr>"

fun bte_find_leaf :: "nat \<Rightarrow> u64 \<Rightarrow> u64 \<Rightarrow> index_bt_enc \<Rightarrow> idx_key_t \<Rightarrow> nat \<Rightarrow> (nat \<times> index_bt_enc) res" where
  "bte_find_leaf 0 sz junk st key c = Inl Diverges"
| "bte_find_leaf (Suc fuel) sz junk st key c =
     (case bte_heap st c of
        None \<Rightarrow> Inl Null_Deref
      | Some n \<Rightarrow>
          if be_is_leaf n then Inr (c, st)
          else bind_res (load_child sz junk st c (child_index key (be_keys n))) (\<lambda>(r, st').
            case r of None \<Rightarrow> Inl Null_Deref | Some d \<Rightarrow> bte_find_leaf fuel sz junk st' key d))"

text \<open>A missing key is not an error here; the item stays unset.\<close>

definition bte_index_read ::
  "u64 \<Rightarrow> u64 \<Rightarrow> index_bt_enc \<Rightarrow> idx_key_t \<Rightarrow> (row list option \<times> nat \<times> index_bt_enc) res" where
  "bte_index_read sz junk st key =
     bind_res (bte_find_leaf (bt_fresh (bte_outside st)) sz junk st key (bte_root st)) (\<lambda>(a, st1).
       case bte_heap st1 a of
         None \<Rightarrow> Inl Null_Deref
       | Some n \<Rightarrow>
           (let i = length (takeWhile (\<lambda>k. k \<noteq> key) (be_keys n)) in
            if \<not> i < length (be_keys n) then Inr (None, a, st1)
            else bind_res (release_latch_enc (be_latch n)) (\<lambda>(t, l).
              Inr (Some (be_data n ! i), a, st1\<lparr>bte_heap := (bte_heap st1)(a \<mapsto> n\<lparr>be_latch := l\<rparr>)\<rparr>))))"

text \<open>
  \<open>index_next\<close> reads and updates the cursor kept in the row object of the last item, its page
  and offset; it is passed in and returned.
\<close>

definition bte_index_next ::
  "u64 \<Rightarrow> u64 \<Rightarrow> index_bt_enc \<Rightarrow> nat \<times> nat \<Rightarrow> bool \<Rightarrow> (row list option \<times> (nat option \<times> nat) \<times> index_bt_enc) res" where
  "bte_index_next sz junk st cursor samekey =
     (let (a, idx) = cursor in
      case bte_heap st a of
        None \<Rightarrow> Inl Null_Deref
      | Some n \<Rightarrow>
          if \<not> idx < length (be_keys n) then Inl Bounds
          else bind_res (if Suc idx < length (be_keys n) then Inr (Some a, Suc idx, st)
                 else bind_res (load_next sz junk st a) (\<lambda>(r, st'). Inr (r, 0, st'))) (\<lambda>(r, i, st1).
            case r of
              None \<Rightarrow> Inr (None, (None, i), st1)
            | Some b \<Rightarrow>
                (case bte_heap st1 b of
                   None \<Rightarrow> Inl Null_Deref
                 | Some m \<Rightarrow> assert_res (be_is_leaf m)
                     (if \<not> i < length (be_keys m) then Inl Bounds
                      else if samekey \<and> be_keys m ! i \<noteq> be_keys n ! idx then Inr (None, (Some b, i), st1)
                      else Inr (Some (be_data m ! i), (Some b, i), st1)))))"

text \<open>Preloading: the inner nodes, as far as half the cache allows.\<close>

fun bte_dfs :: "nat \<Rightarrow> u64 \<Rightarrow> u64 \<Rightarrow> index_bt_enc \<Rightarrow> nat \<Rightarrow> index_bt_enc res"
and bte_dfs_children :: "nat \<Rightarrow> u64 \<Rightarrow> u64 \<Rightarrow> index_bt_enc \<Rightarrow> nat \<Rightarrow> nat list \<Rightarrow> index_bt_enc res" where
  "bte_dfs 0 sz junk st c = Inl Diverges"
| "bte_dfs (Suc fuel) sz junk st c =
     (case bte_heap st c of
        None \<Rightarrow> Inl Null_Deref
      | Some n \<Rightarrow>
          if \<not> lru_can_force_load (bte_cache st) then Inr st
          else if be_is_leaf n then bind_res (lru_release (bte_cache st) (be_part n) (be_node_id n)) (\<lambda>c'.
            Inr (st\<lparr>bte_cache := c'\<rparr>))
          else bte_dfs_children fuel sz junk st c [0..<Suc (length (be_keys n))])"
| "bte_dfs_children fuel sz junk st c [] = Inr st"
| "bte_dfs_children fuel sz junk st c (i # is) =
     bind_res (load_child sz junk st c i) (\<lambda>(r, st1).
       case r of None \<Rightarrow> Inl Assert_Fail
       | Some d \<Rightarrow> bind_res (bte_dfs fuel sz junk st1 d) (\<lambda>st2. bte_dfs_children fuel sz junk st2 c is))"

definition load_all :: "nat \<Rightarrow> u64 \<Rightarrow> u64 \<Rightarrow> index_bt_enc \<Rightarrow> index_bt_enc res" where
  "load_all fuel sz junk st =
     bind_res (bte_make_node junk (bte_outside st) (bt_root (bte_outside st)) 0) (\<lambda>n.
       let a = bte_fresh st in
       bte_dfs fuel sz junk (st\<lparr>bte_heap := (bte_heap st)(a \<mapsto> n), bte_fresh := Suc a, bte_root := a\<rparr>) a)"

text \<open>
  \<open>release_up_cache\<close>: \<open>first\<close> is cleared before it is tested, so every page but the root is
  released twice.
\<close>

fun bte_release_up :: "nat \<Rightarrow> index_bt_enc \<Rightarrow> nat \<Rightarrow> index_bt_enc res" where
  "bte_release_up 0 st c = Inl Diverges"
| "bte_release_up (Suc fuel) st c =
     (case bte_heap st c of
        None \<Rightarrow> Inl Null_Deref
      | Some n \<Rightarrow>
          bind_res (if c = bte_root st then Inr (bte_cache st)
             else bind_res (lru_release (bte_cache st) (be_part n) (be_node_id n)) (\<lambda>c1.
               lru_release c1 (be_part n) (be_node_id n))) (\<lambda>c2.
            bind_res (load_parent (st\<lparr>bte_cache := c2\<rparr>) c) (\<lambda>(r, st').
              case r of None \<Rightarrow> Inr st' | Some p \<Rightarrow> bte_release_up fuel st' p)))"

section \<open>The logical tree\<close>

text \<open>
  What the index stores is the untrusted tree with the rows of the cached leaves in place of
  the untrusted ones. Rows are compared up to their partition id and padding.
\<close>

definition canon :: "row list list \<Rightarrow> row list list" where
  "canon = map (map (row_dup 0))"

definition bte_page :: "index_bt_enc \<Rightarrow> u64 \<Rightarrow> BTNode option" where
  "bte_page st i =
     (if map_option be_node_id (bte_heap st (bte_root st)) = Some i then bte_heap st (bte_root st)
      else case lc_cache (bte_cache st) (0, i) of None \<Rightarrow> None | Some nd \<Rightarrow> bte_heap st (cn_value nd))"

definition bte_rows :: "index_bt_enc \<Rightarrow> bt_node \<Rightarrow> row list list" where
  "bte_rows st n = canon (case bte_page st (nd_node_id n) of
     None \<Rightarrow> nd_items n | Some pg \<Rightarrow> if be_is_leaf pg then be_data pg else nd_items n)"

definition bte_logical :: "index_bt_enc \<Rightarrow> btree" where
  "bte_logical st = (bte_outside st)\<lparr>bt_heap :=
     (\<lambda>a. map_option (\<lambda>n. n\<lparr>nd_items := bte_rows st n\<rparr>) (bt_heap (bte_outside st) a))\<rparr>"

definition page_for :: "btree \<Rightarrow> nat \<Rightarrow> BTNode \<Rightarrow> bool" where
  "page_for s a pg \<longleftrightarrow> be_origin pg = a \<and> be_part pg = 0 \<and> be_latch pg = latch_free \<and>
     (\<exists>n. bt_heap s a = Some n \<and> be_is_leaf pg = nd_is_leaf n \<and> be_keys pg = nd_keys n \<and>
        be_node_id pg = nd_node_id n \<and> id_of s (nd_next n) = Inr (be_next pg) \<and>
        (nd_is_leaf n \<longrightarrow> length (be_data pg) = length (nd_keys n)) \<and>
        (\<not> nd_is_leaf n \<longrightarrow> ids_of s (nd_children n) = Inr (be_child pg)))"

definition id_at :: "btree \<Rightarrow> nat \<Rightarrow> u64" where
  "id_at s a = (case bt_heap s a of None \<Rightarrow> 0 | Some n \<Rightarrow> nd_node_id n)"

definition keys_at :: "btree \<Rightarrow> nat \<Rightarrow> idx_key_t list" where
  "keys_at s a = (case bt_heap s a of None \<Rightarrow> [] | Some n \<Rightarrow> nd_keys n)"

text \<open>
  The invariant between two operations: the logical tree is a B+tree without dangling pointers
  whose node ids are distinct, the root page and every cached page copy their nodes, and the
  recorded hash of a leaf is unset or its number of keys.
\<close>

definition closed :: "btree \<Rightarrow> bool" where
  "closed s \<longleftrightarrow> (\<forall>a n. bt_heap s a = Some n \<longrightarrow> set_option (nd_next n) \<union> set_option (nd_parent n) \<subseteq> dom (bt_heap s))"

definition bte_ok :: "index_bt_enc \<Rightarrow> gt \<Rightarrow> bool" where
  "bte_ok st t \<longleftrightarrow> trep (bte_logical st) t \<and> quiet (bte_outside st) \<and>
     lru_inv (bte_cache st) \<and> \<not> lc_locked (bte_cache st) \<and>
     inj_on (id_at (bte_outside st)) (dom (bt_heap (bte_outside st))) \<and> closed (bte_outside st) \<and>
     (\<forall>a\<in>set (gaddrs t) - {gaddr t}. keys_at (bte_outside st) a \<noteq> []) \<and>
     (\<forall>a\<in>set (gaddrs t). id_at (bte_outside st) a \<noteq> 0 \<and> lru_in (bte_cache st) 0 (id_at (bte_outside st) a) \<and>
        bte_verify_hash st (0, id_at (bte_outside st) a) \<in> {0, of_nat (length (keys_at (bte_outside st) a))}) \<and>
     (\<exists>r. bte_heap st (bte_root st) = Some r \<and> page_for (bte_outside st) (gaddr t) r) \<and>
     bte_root st < bte_fresh st \<and>
     (\<forall>k nd. lc_cache (bte_cache st) k = Some nd \<longrightarrow> fst k = 0 \<and> cn_value nd < bte_fresh st \<and> cn_value nd \<noteq> bte_root st \<and>
        (\<exists>pg a. bte_heap st (cn_value nd) = Some pg \<and> a \<in> set (gaddrs t) \<and> page_for (bte_outside st) a pg \<and> be_node_id pg = snd k))"

lemma view_logical:
  "view (bte_logical st) a = map_option (\<lambda>n. (nd_is_leaf n, nd_keys n, bte_rows st n, nd_children n, nd_parent n))
     (bt_heap (bte_outside st) a)"
  by (cases "bt_heap (bte_outside st) a") (simp_all add: view_def bte_logical_def shape_of_def)

lemma logical_node:
  assumes "view (bte_logical st) a = Some (b, ks, vs, cs, p)"
  obtains n where "bt_heap (bte_outside st) a = Some n" "nd_is_leaf n = b" "nd_keys n = ks" "bte_rows st n = vs"
    "nd_children n = cs" "nd_parent n = p"
  using assms by (auto simp: view_logical)

lemma row_dup_dup [simp]: "row_dup p (row_dup q r) = row_dup p r"
  by (simp add: row_dup_def)

lemma canon_dup [simp]: "canon (map (map (row_dup q)) vs) = canon vs"
  by (simp add: canon_def comp_def)

text \<open>
  A leaf is complete when it has an item for every key and none of them is null: then its hash can be
  computed, and is its number of keys.
\<close>

definition page_full :: "BTNode \<Rightarrow> bool" where
  "page_full n \<longleftrightarrow> (be_is_leaf n \<longrightarrow> length (be_data n) = length (be_keys n) \<and> [] \<notin> set (be_data n))"

definition be_num :: "BTNode \<Rightarrow> u64" where
  "be_num n = of_nat (length (be_keys n))"

lemma item_hashes_full: "length items = length ks \<Longrightarrow> [] \<notin> set items \<Longrightarrow> \<exists>h'. item_hashes ks items h = Inr h'"
  by (induction ks items h rule: item_hashes.induct) (auto split: list.split)


lemma node_get_hash_full:
  "(is_leaf \<Longrightarrow> length items = length ks \<and> [] \<notin> set items) \<Longrightarrow> node_get_hash is_leaf ks items = Inr (of_nat (length ks))"
  using item_hashes_full[of items ks "foldl (XOR) 0 ks"] by (auto simp: node_get_hash_def Let_def)

lemma be_get_hash_full: "page_full n \<Longrightarrow> be_get_hash n = Inr (be_num n)"
  by (auto simp: be_get_hash_def be_num_def page_full_def intro!: node_get_hash_full)

lemma page_full_id [simp]: "page_full (n\<lparr>be_node_id := i\<rparr>) = page_full n" "page_full (n\<lparr>be_latch := l\<rparr>) = page_full n"
  by (simp_all add: page_full_def)

text \<open>The state after a page is swapped out, and after a page is installed.\<close>

definition bte_swapped :: "u64 \<Rightarrow> index_bt_enc \<Rightarrow> nat lru_cache \<Rightarrow> nat \<Rightarrow> BTNode \<Rightarrow> index_bt_enc" where
  "bte_swapped junk st c0 b pg =
     (if be_is_leaf pg
      then st\<lparr>bte_cache := c0, bte_heap := (bte_heap st)(b := None),
             bte_verify_hash := (bte_verify_hash st)((be_part pg, be_node_id pg) := be_num pg),
             bte_outside := bt_put (bte_outside st) (be_origin pg) ((the (bt_heap (bte_outside st) (be_origin pg)))
               \<lparr>nd_keys := be_keys pg, nd_is_leaf := True, nd_items := map (map (row_dup junk)) (be_data pg), nd_latch := latch_free\<rparr>)\<rparr>
      else st\<lparr>bte_cache := c0, bte_heap := (bte_heap st)(b := None)\<rparr>)"

definition bte_installed :: "index_bt_enc \<Rightarrow> nat lru_cache \<Rightarrow> BTNode \<Rightarrow> index_bt_enc" where
  "bte_installed st c' n =
     st\<lparr>bte_cache := c', bte_heap := (bte_heap st)(bte_fresh st \<mapsto> n), bte_fresh := Suc (bte_fresh st),
        bte_verify_hash := (if be_is_leaf n then (bte_verify_hash st)((be_part n, be_node_id n) := be_num n)
          else bte_verify_hash st)\<rparr>"

lemma quiet_node: "quiet s \<Longrightarrow> bt_heap s a = Some n \<Longrightarrow> nd_latch n = latch_free"
proof -
  assume q: "quiet s" "bt_heap s a = Some n"
  then have "bt_heap (relatch {} {} s) a = bt_heap s a" by (simp add: quiet_def)
  then show ?thesis using q(2) by (auto simp: relatch_def relab_def latch_of_def dest: arg_cong[of _ _ nd_latch])
qed

lemma quiet_iff: "quiet s \<longleftrightarrow> (\<forall>a n. bt_heap s a = Some n \<longrightarrow> nd_latch n = latch_free)"
proof
  assume "\<forall>a n. bt_heap s a = Some n \<longrightarrow> nd_latch n = latch_free"
  then have "map_option (relab {} {} a) (bt_heap s a) = bt_heap s a" for a
    by (cases "bt_heap s a") (auto simp: relab_def latch_of_def)
  then show "quiet s" by (simp add: quiet_def relatch_def)
qed (blast intro: quiet_node)

lemma ex_latch:
  "latch_node latch_free LATCH_EX = Inr (True, latch_ex)" "release_latch latch_ex = Inr (LATCH_EX, latch_free)"
  by (simp_all add: latch_node_def release_latch_def latch_free_def latch_ex_def)

lemma bte_swap_out_eq:
  assumes "bte_heap st b = Some pg" "page_for (bte_outside st) (be_origin pg) pg" "quiet (bte_outside st)" "page_full pg"
  shows "bte_swap_out junk st b = Inr (bte_swapped junk st (bte_cache st) b pg)"
proof -
  obtain n where n: "bt_heap (bte_outside st) (be_origin pg) = Some n" "nd_keys n = be_keys pg" "nd_is_leaf n = be_is_leaf pg"
      "be_latch pg = latch_free"
    using assms(2) by (auto simp: page_for_def)
  note free = quiet_node[OF assms(3) n(1)]
  have h: "be_get_hash (pg\<lparr>be_latch := l\<rparr>) = Inr (be_num pg)" for l
    using assms(4) be_get_hash_full[of "pg\<lparr>be_latch := l\<rparr>"] by (simp add: be_num_def)
  have "be_is_leaf pg \<Longrightarrow> node_get_hash True (be_keys pg) (map (map (row_dup junk)) (be_data pg)) = Inr (be_num pg)"
    using assms(4) by (auto simp: page_full_def be_num_def intro!: node_get_hash_full)
  with h show ?thesis
    using assms(1) n free
    by (simp add: bte_swap_out_def bte_flush_out_def bt_latch_node_def bt_get_def ex_latch bte_swapped_def bt_put_def
        nd_get_hash_def Let_def)
qed

lemma make_node_page:
  assumes "bt_heap s a = Some n" "nd_keys n \<noteq> []" "id_of s (nd_next n) = Inr nx" "id_of s (nd_parent n) = Inr pa"
    and "\<not> nd_is_leaf n \<Longrightarrow> ids_of s (nd_children n) = Inr ch"
  shows "bte_make_node junk s a part = Inr \<lparr>be_is_leaf = nd_is_leaf n, be_keys = nd_keys n,
    be_data = (if nd_is_leaf n then map (map (row_dup junk)) (nd_items n) else []),
    be_child = (if nd_is_leaf n then [] else ch), be_parent = pa, be_next = nx, be_latch = latch_free, be_part = part,
    be_origin = a, be_node_id = nd_node_id n\<rparr>"
  using assms by (simp add: bte_make_node_def bt_get_def Let_def)

lemma id_of_latch [simp]:
  "bt_heap s a = Some n \<Longrightarrow> id_of (bt_put s a (n\<lparr>nd_latch := l\<rparr>)) p = id_of s p"
  by (auto simp: id_of_def bt_get_def bt_put_def split: option.split)

lemma ids_of_latch [simp]:
  "bt_heap s a = Some n \<Longrightarrow> ids_of (bt_put s a (n\<lparr>nd_latch := l\<rparr>)) cs = ids_of s cs"
  by (induction cs) simp_all

lemma make_node_latch [simp]:
  "bt_heap s a = Some n \<Longrightarrow> bte_make_node junk (bt_put s a (n\<lparr>nd_latch := l\<rparr>)) b part = bte_make_node junk s b part"
proof -
  assume a: "bt_heap s a = Some n"
  then have "bt_get (bt_put s a (n\<lparr>nd_latch := l\<rparr>)) b = bind_res (bt_get s b) (\<lambda>m. Inr (if b = a then m\<lparr>nd_latch := l\<rparr> else m))"
    by (simp add: bt_get_def bt_put_def split: option.split)
  then show ?thesis
    using a by (cases "b = a"; cases "bt_get s b") (simp_all add: bte_make_node_def Let_def cong: if_cong)
qed

lemma bt_put_same: "bt_heap s a = Some n \<Longrightarrow> bt_put s a n = s"
  by (simp add: bt_put_def fun_upd_idem)

lemma bt_put_twice [simp]: "bt_put (bt_put s a n) a m = bt_put s a m"
  by (simp add: bt_put_def)

lemma load_miss_eq:
  assumes "quiet (bte_outside st)" "bt_heap (bte_outside st) a = Some n"
    and "bte_make_node junk (bte_outside st) a part = Inr n0" "i \<noteq> 0"
  shows "bte_load_miss sz junk st part i a =
    bind_res (lru_load_and_swap False (bte_cache st) part i (ucast (be_get_size sz (n0\<lparr>be_node_id := i\<rparr>))) (bte_fresh st))
      (\<lambda>(rc, sw, cur, c').
         if rc \<noteq> RCOK then Inl Blocked
         else bind_res (case sw of None \<Rightarrow> Inr (st\<lparr>bte_heap := (bte_heap st)(bte_fresh st \<mapsto> n0\<lparr>be_node_id := i\<rparr>),
                  bte_fresh := Suc (bte_fresh st), bte_cache := c'\<rparr>)
              | Some (b, _, _) \<Rightarrow> bte_swap_out junk (st\<lparr>bte_heap := (bte_heap st)(bte_fresh st \<mapsto> n0\<lparr>be_node_id := i\<rparr>),
                  bte_fresh := Suc (bte_fresh st), bte_cache := c'\<rparr>) b) (\<lambda>st2.
           if cur \<noteq> bte_fresh st then Inr (cur, st2\<lparr>bte_heap := (bte_heap st2)(bte_fresh st := None)\<rparr>)
           else bind_res (bte_check st2 (n0\<lparr>be_node_id := i\<rparr>)) (\<lambda>st3. Inr (bte_fresh st, st3))))"
proof -
  have free: "nd_latch n = latch_free" using quiet_node[OF assms(1,2)] .
  have latch: "bt_latch_node (bte_outside st) a LATCH_EX = Inr (True, bt_put (bte_outside st) a (n\<lparr>nd_latch := latch_ex\<rparr>))"
    using assms(2) free by (simp add: bt_latch_node_def bt_get_def ex_latch)
  have get: "bt_get (bt_put (bte_outside st) a (n\<lparr>nd_latch := latch_ex\<rparr>)) a = Inr (n\<lparr>nd_latch := latch_ex\<rparr>)"
    by (simp add: bt_get_def bt_put_def)
  have "n\<lparr>nd_latch := latch_free\<rparr> = n" using free by (cases n) simp
  then have restore: "st\<lparr>bte_outside := bt_put (bte_outside st) a (n\<lparr>nd_latch := latch_free\<rparr>), bte_heap := h, bte_fresh := f, bte_cache := c\<rparr> =
      st\<lparr>bte_heap := h, bte_fresh := f, bte_cache := c\<rparr>" for h f c
    using bt_put_same[OF assms(2)] by simp
  show ?thesis
    unfolding bte_load_miss_def
    by (simp add: latch get assms(2-4) ex_latch restore Let_def split_beta cong: if_cong option.case_cong)
qed

text \<open>Loading a node that is not cached, with room in the cache and with an eviction.\<close>

lemma check_installed:
  assumes "be_part n = 0" "be_node_id n = i" "be_is_leaf n \<Longrightarrow> bte_verify_hash st (0, i) \<in> {0, be_num n}" "page_full n"
    and "st2 = st\<lparr>bte_heap := (bte_heap st)(bte_fresh st \<mapsto> n), bte_fresh := Suc (bte_fresh st), bte_cache := c'\<rparr>"
  shows "bte_check st2 n = Inr (bte_installed st c' n)"
  using assms by (auto simp: bte_check_def bte_installed_def be_get_hash_full fun_eq_iff intro!: index_bt_enc.equality)

lemma load_miss_room:
  assumes st: "quiet (bte_outside st)" "\<not> lc_locked (bte_cache st)" "lc_cache (bte_cache st) (0, i) = None" "lru_in (bte_cache st) 0 i"
    and a: "bt_heap (bte_outside st) a = Some n" "bte_make_node junk (bte_outside st) a 0 = Inr n0" "i \<noteq> 0" "be_node_id n0 = i" "be_part n0 = 0"
    and room: "\<not> lc_limit (bte_cache st) < lc_cached_bytes (bte_cache st) + ucast (ucast (be_get_size sz n0) :: u32)"
    and h: "be_is_leaf n0 \<Longrightarrow> bte_verify_hash st (0, i) \<in> {0, be_num n0}" "page_full n0"
  shows "\<exists>c' nd. lru_load_and_swap False (bte_cache st) 0 i (ucast (be_get_size sz n0)) (bte_fresh st) = Inr (RCOK, None, bte_fresh st, c') \<and>
    lc_cache c' = (lc_cache (bte_cache st))((0, i) \<mapsto> nd) \<and> cn_value nd = bte_fresh st \<and> \<not> lc_locked c' \<and>
    lc_limit c' = lc_limit (bte_cache st) \<and> lc_timestamp c' = lc_timestamp (bte_cache st) + 1 \<and>
    lc_cached_bytes c' = lc_cached_bytes (bte_cache st) + ucast (ucast (be_get_size sz n0) :: u32) \<and>
    lru_in c' = lru_in (bte_cache st) \<and>
    bte_load_miss sz junk st 0 i a = Inr (bte_fresh st, bte_installed st c' n0)"
proof -
  have n0: "n0\<lparr>be_node_id := i\<rparr> = n0" using a(4) by (cases n0) simp
  show ?thesis
    using load_miss_eq[OF st(1) a(1-3), of sz] lru_swap_miss[OF st(3,4,2), of "ucast (be_get_size sz n0)" "bte_fresh st"] room n0
      check_installed[OF a(5,4) h refl] st(2)
    by (auto simp: cache_node_new_def lru_in_def fun_eq_iff)
qed

lemma load_miss_evict:
  assumes st: "quiet (bte_outside st)" "\<not> lc_locked (bte_cache st)" "lc_cache (bte_cache st) (0, i) = None" "lru_in (bte_cache st) 0 i"
      "lru_inv (bte_cache st)"
    and a: "bt_heap (bte_outside st) a = Some n" "bte_make_node junk (bte_outside st) a 0 = Inr n0" "i \<noteq> 0" "be_node_id n0 = i" "be_part n0 = 0"
    and full: "lc_limit (bte_cache st) < lc_cached_bytes (bte_cache st) + ucast (ucast (be_get_size sz n0) :: u32)"
    and ev: "cache_free (bte_cache st) = (Some (b, sp, si), c0)" "bte_heap st b = Some pg" "page_for (bte_outside st) (be_origin pg) pg"
      "b < bte_fresh st" "be_node_id pg = si" "sp = 0" "page_full pg"
    and h: "be_is_leaf n0 \<Longrightarrow> bte_verify_hash st (0, i) \<in> {0, be_num n0}" "page_full n0"
  shows "\<exists>c' nd nds. lru_load_and_swap False (bte_cache st) 0 i (ucast (be_get_size sz n0)) (bte_fresh st) = Inr (RCOK, Some (b, sp, si), bte_fresh st, c') \<and>
    lc_cache (bte_cache st) (sp, si) = Some nds \<and> cn_value nds = b \<and> lru_inv c0 \<and>
    lc_cache c0 = (lc_cache (bte_cache st))((sp, si) := None) \<and> \<not> lc_locked c0 \<and>
    lc_cache c' = (lc_cache c0)((0, i) \<mapsto> nd) \<and> cn_value nd = bte_fresh st \<and> \<not> lc_locked c' \<and>
    lc_timestamp c' = lc_timestamp (bte_cache st) + 1 \<and> lru_in c0 = lru_in (bte_cache st) \<and> lru_in c' = lru_in (bte_cache st) \<and>
    bte_load_miss sz junk st 0 i a = Inr (bte_fresh st, bte_installed (bte_swapped junk st c0 b pg) c' n0)"
proof -
  have n0: "n0\<lparr>be_node_id := i\<rparr> = n0" using a(4) by (cases n0) simp
  obtain nds pool where nds: "lc_cache (bte_cache st) (sp, si) = Some nds" "cn_value nds = b"
      "c0 = (bte_cache st)\<lparr>lc_cache := (lc_cache (bte_cache st))((sp, si) := None),
            lc_cached_bytes := lc_cached_bytes (bte_cache st) - ucast (cn_size nds), lc_free_pool := pool\<rparr>"
    using cache_free_evicts[OF st(5) ev(1)] by blast
  let ?c' = "c0\<lparr>lc_timestamp := lc_timestamp (bte_cache st) + 1,
    lc_cache := (lc_cache c0)((0, i) \<mapsto> cache_node_new (lc_timestamp (bte_cache st) + 1) (bte_fresh st) (ucast (be_get_size sz n0)))\<rparr>"
  have swap: "lru_load_and_swap False (bte_cache st) 0 i (ucast (be_get_size sz n0)) (bte_fresh st) = Inr (RCOK, Some (b, sp, si), bte_fresh st, ?c')"
    using lru_swap_miss[OF st(3,4,2), of "ucast (be_get_size sz n0)" "bte_fresh st"] full ev(1) by simp
  let ?st1 = "st\<lparr>bte_heap := (bte_heap st)(bte_fresh st \<mapsto> n0), bte_fresh := Suc (bte_fresh st), bte_cache := ?c'\<rparr>"
  have out: "bte_swap_out junk ?st1 b = Inr (bte_swapped junk ?st1 ?c' b pg)"
    using bte_swap_out_eq[of ?st1 b pg junk] ev(2-4,7) st(1) by simp
  have "be_part pg = 0" using ev(3) by (simp add: page_for_def)
  moreover have "si \<noteq> i" using nds(1) st(3) ev(6) by auto
  ultimately have vh: "bte_verify_hash (bte_swapped junk st c0 b pg) (0, i) = bte_verify_hash st (0, i)"
    using ev(5) by (simp add: bte_swapped_def)
  have "bte_check (bte_swapped junk ?st1 ?c' b pg) n0 = Inr (bte_installed (bte_swapped junk st c0 b pg) ?c' n0)"
  proof (rule check_installed[OF a(5,4)])
    show "bte_swapped junk ?st1 ?c' b pg = (bte_swapped junk st c0 b pg)\<lparr>bte_heap := (bte_heap (bte_swapped junk st c0 b pg))
       (bte_fresh (bte_swapped junk st c0 b pg) \<mapsto> n0), bte_fresh := Suc (bte_fresh (bte_swapped junk st c0 b pg)), bte_cache := ?c'\<rparr>"
      using ev(4) by (intro index_bt_enc.equality) (auto simp: bte_swapped_def)
  qed (use vh h in simp_all)
  then have "bte_load_miss sz junk st 0 i a = Inr (bte_fresh st, bte_installed (bte_swapped junk st c0 b pg) ?c' n0)"
    using load_miss_eq[OF st(1) a(1-3), of sz] swap out n0 by simp
  moreover have "lru_inv c0" using lru_inv_free[OF st(5) ev(1)] by simp
  ultimately show ?thesis
    using swap nds st(2) by (intro exI[of _ ?c'] exI[of _ "cache_node_new (lc_timestamp (bte_cache st) + 1) (bte_fresh st) (ucast (be_get_size sz n0))"] exI[of _ nds])
      (auto simp: cache_node_new_def lru_in_def fun_eq_iff)
qed

section \<open>Loading keeps the logical tree\<close>

definition skel :: "bt_node \<Rightarrow> bt_node" where
  "skel n = n\<lparr>nd_items := [], nd_latch := latch_free\<rparr>"

definition same_skel :: "btree \<Rightarrow> btree \<Rightarrow> bool" where
  "same_skel s s' \<longleftrightarrow> (\<forall>a. map_option skel (bt_heap s' a) = map_option skel (bt_heap s a))"

lemma skel_eqD:
  assumes "skel m = skel n"
  shows "nd_is_leaf m = nd_is_leaf n" "nd_keys m = nd_keys n" "nd_children m = nd_children n" "nd_parent m = nd_parent n"
    "nd_next m = nd_next n" "nd_node_id m = nd_node_id n"
  using assms by (cases m; cases n; simp add: skel_def)+

lemma same_skel_node:
  assumes "same_skel s s'" "bt_heap s a = Some n"
  obtains m where "bt_heap s' a = Some m" "skel m = skel n"
  using assms by (metis same_skel_def map_option_eq_Some option.simps(9))

lemma same_skel_sym: "same_skel s s' \<Longrightarrow> same_skel s' s"
  by (simp add: same_skel_def)

lemma same_skel_id: "same_skel s s' \<Longrightarrow> id_of s' p = id_of s p"
  by (cases p; cases "bt_heap s (the p)"; cases "bt_heap s' (the p)")
    (auto simp: id_of_def bt_get_def same_skel_def dest!: spec[of _ "the p"] skel_eqD(6))

lemma same_skel_ids: "same_skel s s' \<Longrightarrow> ids_of s' cs = ids_of s cs"
  by (induction cs) (simp_all add: same_skel_id)

lemma same_skel_at: "same_skel s s' \<Longrightarrow> id_at s' = id_at s" "same_skel s s' \<Longrightarrow> keys_at s' = keys_at s"
  "same_skel s s' \<Longrightarrow> dom (bt_heap s') = dom (bt_heap s)"
proof -
  assume s: "same_skel s s'"
  have "id_at s' a = id_at s a \<and> keys_at s' a = keys_at s a \<and> (a \<in> dom (bt_heap s') \<longleftrightarrow> a \<in> dom (bt_heap s))" for a
  proof (cases "bt_heap s a")
    case None
    then have "map_option skel (bt_heap s' a) = None" using s by (simp add: same_skel_def)
    then show ?thesis using None by (simp add: id_at_def keys_at_def domIff)
  next
    case (Some n)
    obtain m where m: "bt_heap s' a = Some m" "skel m = skel n" using same_skel_node[OF s Some] .
    then show ?thesis using Some skel_eqD[OF m(2)] by (simp add: id_at_def keys_at_def domIff)
  qed
  then show "id_at s' = id_at s" "keys_at s' = keys_at s" "dom (bt_heap s') = dom (bt_heap s)" by auto
qed

lemma same_skel_closed:
  assumes s: "same_skel s s'" and c: "closed s"
  shows "closed s'"
  unfolding closed_def
proof (intro allI impI)
  fix a m assume "bt_heap s' a = Some m"
  then obtain n where n: "bt_heap s a = Some n" "skel n = skel m"
    using same_skel_node[OF same_skel_sym[OF s]] by blast
  then show "set_option (nd_next m) \<union> set_option (nd_parent m) \<subseteq> dom (bt_heap s')"
    using c skel_eqD[OF n(2)] same_skel_at(3)[OF s] unfolding closed_def by metis
qed

lemma same_skel_page_imp:
  assumes s: "same_skel s s'" and p: "page_for s a pg"
  shows "page_for s' a pg"
proof -
  obtain n where n: "bt_heap s a = Some n" "be_is_leaf pg = nd_is_leaf n" "be_keys pg = nd_keys n"
      "be_node_id pg = nd_node_id n" "id_of s (nd_next n) = Inr (be_next pg)"
      "nd_is_leaf n \<longrightarrow> length (be_data pg) = length (nd_keys n)"
      "\<not> nd_is_leaf n \<longrightarrow> ids_of s (nd_children n) = Inr (be_child pg)"
    using p by (auto simp: page_for_def)
  obtain m where m: "bt_heap s' a = Some m" "skel m = skel n" using same_skel_node[OF s n(1)] .
  show ?thesis
    using p n m(1) skel_eqD[OF m(2)] same_skel_id[OF s] same_skel_ids[OF s] by (simp add: page_for_def)
qed

lemma same_skel_page: "same_skel s s' \<Longrightarrow> page_for s' a pg = page_for s a pg"
  using same_skel_page_imp same_skel_sym by blast

lemma page_for_id: "page_for s a pg \<Longrightarrow> id_at s a = be_node_id pg \<and> be_origin pg = a \<and> a \<in> dom (bt_heap s)"
  by (auto simp: page_for_def id_at_def)

lemma logical_eqI:
  assumes "bt_fresh (bte_outside st') = bt_fresh (bte_outside st)" "bt_root (bte_outside st') = bt_root (bte_outside st)"
    "bt_node_id (bte_outside st') = bt_node_id (bte_outside st)" "bt_cur_leaf (bte_outside st') = bt_cur_leaf (bte_outside st)"
    "bt_cur_idx (bte_outside st') = bt_cur_idx (bte_outside st)"
    and "same_skel (bte_outside st) (bte_outside st')" "quiet (bte_outside st)" "quiet (bte_outside st')"
    and rows: "\<And>a n m. bt_heap (bte_outside st) a = Some n \<Longrightarrow> bt_heap (bte_outside st') a = Some m \<Longrightarrow> bte_rows st' m = bte_rows st n"
  shows "bte_logical st' = bte_logical st"
proof (rule btree.equality)
  show "bt_heap (bte_logical st') = bt_heap (bte_logical st)"
  proof
    fix a
    show "bt_heap (bte_logical st') a = bt_heap (bte_logical st) a"
    proof (cases "bt_heap (bte_outside st) a")
      case None
      then have "bt_heap (bte_outside st') a = None"
        using assms(6) by (simp add: same_skel_def) (metis None_eq_map_option_iff option.simps(8))
      then show ?thesis using None by (simp add: bte_logical_def)
    next
      case (Some n)
      then obtain m where m: "bt_heap (bte_outside st') a = Some m" "skel m = skel n"
        using same_skel_node[OF assms(6)] by blast
      have "nd_latch m = nd_latch n" using quiet_node[OF assms(8) m(1)] quiet_node[OF assms(7) Some] by simp
      then have "m\<lparr>nd_items := v\<rparr> = n\<lparr>nd_items := v\<rparr>" for v
        using skel_eqD[OF m(2)] by (cases m; cases n) simp
      then show ?thesis using rows[OF Some m(1)] Some m(1) by (simp add: bte_logical_def)
    qed
  qed
qed (simp_all add: bte_logical_def assms)

lemma bte_ok_cached:
  assumes "bte_ok st t" "lc_cache (bte_cache st) k = Some nd"
  shows "fst k = 0" "cn_value nd < bte_fresh st" "cn_value nd \<noteq> bte_root st"
    "\<exists>pg a. bte_heap st (cn_value nd) = Some pg \<and> a \<in> set (gaddrs t) \<and> page_for (bte_outside st) a pg \<and> be_node_id pg = snd k"
  using assms(1)[unfolded bte_ok_def] assms(2) by blast+

lemma swapped_ok:
  assumes ok: "bte_ok st t" and nds: "lc_cache (bte_cache st) (0, si) = Some nds" "cn_value nds = b" "bte_heap st b = Some pg"
    and c0: "lru_inv c0" "\<not> lc_locked c0" "lc_cache c0 = (lc_cache (bte_cache st))((0, si) := None)" "lru_in c0 = lru_in (bte_cache st)"
  shows "bte_ok (bte_swapped junk st c0 b pg) t" "bte_logical (bte_swapped junk st c0 b pg) = bte_logical st"
    "same_skel (bte_outside st) (bte_outside (bte_swapped junk st c0 b pg))"
proof -
  let ?st = "bte_swapped junk st c0 b pg" let ?s = "bte_outside st" let ?s' = "bte_outside ?st"
  obtain a where a: "a \<in> set (gaddrs t)" "page_for ?s a pg" "be_node_id pg = si" "b < bte_fresh st" "b \<noteq> bte_root st"
    using ok nds unfolding bte_ok_def by force
  then have ida: "id_at ?s a = si" "be_origin pg = a" using page_for_id by auto
  obtain n where n: "bt_heap ?s a = Some n" "nd_is_leaf n = be_is_leaf pg" "nd_keys n = be_keys pg" "nd_node_id n = si"
      "be_part pg = 0"
    using a(2,3) by (auto simp: page_for_def)
  have q: "quiet ?s" using ok by (simp add: bte_ok_def)
  have put: "?s' = (if be_is_leaf pg then bt_put ?s a (n\<lparr>nd_items := map (map (row_dup junk)) (be_data pg)\<rparr>) else ?s)"
    using n ida quiet_node[OF q n(1)] by (cases n) (simp add: bte_swapped_def)
  show skel: "same_skel ?s ?s'"
    using n(1) unfolding put by (simp add: same_skel_def bt_put_def skel_def)
  have q': "quiet ?s'" using q quiet_node[OF q n(1)] unfolding put by (auto simp: quiet_iff bt_put_def)
  have cell: "(0, j) \<noteq> (0, si) \<Longrightarrow> lc_cache (bte_cache st) (0, j) = Some nd \<Longrightarrow> cn_value nd \<noteq> b" for j nd
    using ok nds(3) a(3) by (force simp: bte_ok_def)
  obtain r where r: "bte_heap st (bte_root st) = Some r" "page_for ?s (gaddr t) r" using ok by (auto simp: bte_ok_def)
  have inj: "inj_on (id_at ?s) (dom (bt_heap ?s))" using ok by (simp add: bte_ok_def)
  have pg: "bte_page st si = (if be_node_id r = si then Some r else Some pg)"
      "bte_page ?st si = (if be_node_id r = si then Some r else None)"
    using r nds c0 a(5) by (simp_all add: bte_page_def bte_swapped_def)
  have other: "j \<noteq> si \<Longrightarrow> bte_page ?st j = bte_page st j" for j
    using r c0(3) a(5) cell[of j] by (auto simp: bte_page_def bte_swapped_def split: option.split)
  have rows: "bte_rows ?st m' = bte_rows st n'" if h: "bt_heap ?s x = Some n'" "bt_heap ?s' x = Some m'" for x n' m'
  proof (cases "x = a")
    case True
    then have "n' = n" "m' = (if be_is_leaf pg then n\<lparr>nd_items := map (map (row_dup junk)) (be_data pg)\<rparr> else n)"
      using h n(1) unfolding put by (auto simp: bt_put_def split: if_splits)
    moreover have "be_node_id r = si \<Longrightarrow> be_is_leaf r = be_is_leaf pg"
      using inj_onD[OF inj, of a "gaddr t"] page_for_id[OF r(2)] page_for_id[OF a(2)] a(3) r(2) n(1,2)
      by (auto simp: page_for_def)
    ultimately show ?thesis using pg n(4) by (simp add: bte_rows_def)
  next
    case False
    then have "m' = n'" using h unfolding put by (auto simp: bt_put_def split: if_splits)
    moreover have "nd_node_id n' \<noteq> si"
      using inj_onD[OF inj, of x a] False h(1) n(1,4) by (auto simp: id_at_def)
    ultimately show ?thesis using other by (simp add: bte_rows_def)
  qed
  show log: "bte_logical ?st = bte_logical st"
    by (rule logical_eqI[OF _ _ _ _ _ skel q q' rows]) (simp_all add: put bt_put_def)
  have keep: "bte_root ?st = bte_root st" "bte_fresh ?st = bte_fresh st" "bte_cache ?st = c0" "bte_heap ?st = (bte_heap st)(b := None)"
    by (simp_all add: bte_swapped_def)
  have vh: "bte_verify_hash ?st (0, id_at ?s x) \<in> {0, of_nat (length (keys_at ?s x))}" if "x \<in> set (gaddrs t)" for x
  proof (cases "id_at ?s x = si")
    case True
    moreover have "id_at ?s x \<noteq> 0" using ok that by (simp add: bte_ok_def)
    ultimately have "x = a"
      using inj_onD[OF inj, of x a] ida page_for_id[OF a(2)] by (auto simp: id_at_def dom_def split: option.splits)
    moreover have "bte_verify_hash st (0, si) \<in> {0, of_nat (length (keys_at ?s a))}" using ok a(1) ida by (auto simp: bte_ok_def)
    ultimately show ?thesis using n a(3) True by (simp add: bte_swapped_def be_num_def keys_at_def)
  next
    case False
    then show ?thesis using ok that a(3) n(5) by (auto simp: bte_swapped_def bte_ok_def)
  qed
  show "bte_ok ?st t"
    unfolding bte_ok_def log same_skel_at[OF skel] same_skel_page[OF skel] keep
  proof (intro conjI ballI allI impI)
    fix k nd assume k: "lc_cache c0 k = Some nd"
    then have k': "lc_cache (bte_cache st) k = Some nd" "k \<noteq> (0, si)" using c0(3) by (auto split: if_splits)
    note o = bte_ok_cached[OF ok k'(1)]
    have "cn_value nd \<noteq> b" using cell[of "snd k" nd] k' o(1) by (cases k) auto
    with o show "fst k = 0" "cn_value nd < bte_fresh st" "cn_value nd \<noteq> bte_root st"
       "\<exists>pg a. ((bte_heap st)(b := None)) (cn_value nd) = Some pg \<and> a \<in> set (gaddrs t) \<and> page_for ?s a pg \<and> be_node_id pg = snd k"
      by auto
  qed (use ok c0 q' vh a(5) r same_skel_closed[OF skel] in \<open>auto simp: bte_ok_def\<close>)
qed

lemma installed_ok:
  assumes ok: "bte_ok st t" and a: "a \<in> set (gaddrs t)" "page_for (bte_outside st) a n" "lc_cache (bte_cache st) (0, be_node_id n) = None"
    and rows: "bt_heap (bte_outside st) a = Some o1" "be_is_leaf n \<Longrightarrow> canon (be_data n) = canon (nd_items o1)"
    and c': "lru_inv c'" "\<not> lc_locked c'" "lc_cache c' = (lc_cache (bte_cache st))((0, be_node_id n) \<mapsto> nd)"
      "cn_value nd = bte_fresh st" "lru_in c' = lru_in (bte_cache st)"
  shows "bte_ok (bte_installed st c' n) t" "bte_logical (bte_installed st c' n) = bte_logical st"
proof -
  let ?st = "bte_installed st c' n" let ?s = "bte_outside st"
  have keep: "bte_root ?st = bte_root st" "bte_fresh ?st = Suc (bte_fresh st)" "bte_cache ?st = c'"
      "bte_heap ?st = (bte_heap st)(bte_fresh st \<mapsto> n)" "bte_outside ?st = ?s"
    by (simp_all add: bte_installed_def)
  obtain r where r: "bte_heap st (bte_root st) = Some r" "page_for ?s (gaddr t) r" "bte_root st < bte_fresh st"
    using ok by (auto simp: bte_ok_def)
  have q: "quiet ?s" and inj: "inj_on (id_at ?s) (dom (bt_heap ?s))" using ok by (simp_all add: bte_ok_def)
  have o1: "nd_node_id o1 = be_node_id n" "nd_is_leaf o1 = be_is_leaf n" "nd_keys o1 = be_keys n" "be_part n = 0"
    using a(2) rows(1) by (auto simp: page_for_def)
  have page: "bte_page ?st j = (if j = be_node_id n \<and> be_node_id r \<noteq> j then Some n else bte_page st j)" for j
    using r c' bte_ok_cached(2)[OF ok, of "(0, j)"] a(3) by (auto simp: bte_page_def keep split: option.split)
  have old: "bte_page st (be_node_id n) = (if be_node_id r = be_node_id n then Some r else None)"
    using r a(3) by (simp add: bte_page_def)
  have "bte_rows ?st n' = bte_rows st n'" if h: "bt_heap ?s x = Some n'" for x n'
  proof (cases "nd_node_id n' = be_node_id n")
    case True
    then have "x = a" using inj_onD[OF inj, of x a] h rows(1) o1(1) by (auto simp: id_at_def)
    then show ?thesis using h rows page old True by (auto simp: bte_rows_def)
  qed (simp add: bte_rows_def page)
  then show log: "bte_logical ?st = bte_logical st"
    using q by (intro logical_eqI) (auto simp: keep same_skel_def)
  have vh: "bte_verify_hash ?st (0, id_at ?s x) \<in> {0, of_nat (length (keys_at ?s x))}" if "x \<in> set (gaddrs t)" for x
  proof (cases "id_at ?s x = be_node_id n")
    case True
    moreover have "id_at ?s x \<noteq> 0" using ok that by (simp add: bte_ok_def)
    ultimately have "x = a"
      using inj_onD[OF inj, of x a] page_for_id[OF a(2)] by (auto simp: id_at_def dom_def split: option.splits)
    moreover have "bte_verify_hash st (0, id_at ?s x) \<in> {0, of_nat (length (keys_at ?s x))}" using ok that by (auto simp: bte_ok_def)
    ultimately show ?thesis using rows(1) o1 by (simp add: bte_installed_def be_num_def keys_at_def id_at_def)
  next
    case False
    then show ?thesis using ok that o1 by (auto simp: bte_installed_def bte_ok_def)
  qed
  show "bte_ok ?st t"
    unfolding bte_ok_def log keep
  proof (intro conjI ballI allI impI)
    fix k nd' assume k: "lc_cache c' k = Some nd'"
    show "fst k = 0" "cn_value nd' < Suc (bte_fresh st)" "cn_value nd' \<noteq> bte_root st"
       "\<exists>pg a. ((bte_heap st)(bte_fresh st \<mapsto> n)) (cn_value nd') = Some pg \<and> a \<in> set (gaddrs t) \<and> page_for ?s a pg \<and> be_node_id pg = snd k"
      using k c'(3,4) r(3) a(1,2) bte_ok_cached[OF ok, of k nd'] by (fastforce split: if_splits)+
  qed (use ok c' vh r in \<open>auto simp: bte_ok_def\<close>)
qed

section \<open>Reaching a child\<close>

lemma clock_below: "unat c < 2 ^ 64 - 1 \<Longrightarrow> c < UINT64_MAX"
  by (simp add: word_less_nat_alt unsigned_minus_1_eq_mask mask_eq_exp_minus_1)

lemma ids_of_at: "set cs \<subseteq> dom (bt_heap s) \<Longrightarrow> ids_of s cs = Inr (map (id_at s) cs)"
  by (induction cs) (auto simp: id_of_def bt_get_def id_at_def)

lemma id_of_Some: "a \<in> dom (bt_heap s) \<Longrightarrow> id_of s (Some a) = Inr (id_at s a)"
  by (auto simp: id_of_def bt_get_def id_at_def)

lemma id_of_closed:
  assumes "closed s" "bt_heap s a = Some n"
  obtains nx pa where "id_of s (nd_next n) = Inr nx" "id_of s (nd_parent n) = Inr pa"
proof -
  have dom: "set_option (nd_next n) \<union> set_option (nd_parent n) \<subseteq> dom (bt_heap s)"
    using assms unfolding closed_def by blast
  have "\<exists>i. id_of s p = Inr i" if "set_option p \<subseteq> dom (bt_heap s)" for p
    using that id_of_Some[of "the p" s] by (cases p) (auto simp: id_of_def)
  then show ?thesis using that dom by (meson le_sup_iff)
qed

lemma gnodes_kids:
  "bal m t \<Longrightarrow> (a, b, ks, vs, cs, p) \<in> gnodes t q \<Longrightarrow> set cs \<subseteq> set (gaddrs t) \<and> length ks \<le> 15 \<and> (b \<longrightarrow> length vs = length ks)"
proof (induction m t arbitrary: q rule: bal.induct)
  case (2 m c ks' ts)
  show ?case
  proof (cases "(a, b, ks, vs, cs, p) = (c, False, ks', [], map gaddr ts, q)")
    case True
    then show ?thesis using 2(2) by auto
  next
    case False
    then obtain u where u: "u \<in> set ts" "(a, b, ks, vs, cs, p) \<in> gnodes u (Some c)" using 2(3) by auto
    moreover have "bal m u" using 2(2) u(1) by simp
    ultimately have "set cs \<subseteq> set (gaddrs u) \<and> length ks \<le> 15 \<and> (b \<longrightarrow> length vs = length ks)" using 2(1) by blast
    then show ?thesis using u(1) by auto
  qed
qed auto

text \<open>The page of a node that is in use: its address in the enclave and the rows it has.\<close>

definition bte_at :: "index_bt_enc \<Rightarrow> nat \<Rightarrow> nat \<Rightarrow> bool" where
  "bte_at st a d \<longleftrightarrow> (\<exists>pg. bte_heap st d = Some pg \<and> page_for (bte_outside st) a pg \<and> bte_page st (be_node_id pg) = Some pg)"

lemma copy_page:
  assumes ok: "bte_ok st t" and a: "a \<in> set (gaddrs t)" "a \<noteq> gaddr t" "lc_cache (bte_cache st) (0, id_at (bte_outside st) a) = None"
  obtains n n0 where "bt_heap (bte_outside st) a = Some n" "bte_make_node junk (bte_outside st) a 0 = Inr n0"
    "page_for (bte_outside st) a n0" "be_is_leaf n0 \<Longrightarrow> canon (be_data n0) = canon (nd_items n)" "length (be_keys n0) \<le> 15"
proof -
  let ?s = "bte_outside st"
  have dom: "set (gaddrs t) \<subseteq> dom (bt_heap ?s)"
    using trep_dom[of "bte_logical st" t] ok by (auto simp: bte_ok_def bte_logical_def dom_def)
  have h: "holds (view (bte_logical st)) (gnodes t None)" using ok by (simp add: bte_ok_def trep_def)
  obtain m where m: "bal m t" using ok by (auto simp: bte_ok_def trep_def)
  obtain sh where sh: "(a, sh) \<in> gnodes t None" using a(1) fst_gnodes[of t None] by (metis (no_types) imageE prod.collapse)
  obtain n where n: "bt_heap ?s a = Some n" "sh = (nd_is_leaf n, nd_keys n, bte_rows st n, nd_children n, nd_parent n)"
    using holdsD[OF h sh] by (auto simp: view_logical)
  note kids = gnodes_kids[OF m sh[unfolded n(2)]]
  obtain nx pa where ids: "id_of ?s (nd_next n) = Inr nx" "id_of ?s (nd_parent n) = Inr pa"
    using id_of_closed[OF _ n(1)] ok by (auto simp: bte_ok_def)
  obtain r where r: "bte_heap st (bte_root st) = Some r" "page_for ?s (gaddr t) r" and inj: "inj_on (id_at ?s) (dom (bt_heap ?s))"
    using ok by (auto simp: bte_ok_def)
  have "be_node_id r \<noteq> nd_node_id n"
    using inj_onD[OF inj, of a "gaddr t"] a n(1) page_for_id[OF r(2)] subsetD[OF dom a(1)] by (auto simp: id_at_def)
  then have rows: "bte_rows st n = canon (nd_items n)"
    using a(3) r(1) n(1) by (simp add: bte_rows_def bte_page_def id_at_def)
  have "keys_at ?s a \<noteq> []" using ok a unfolding bte_ok_def by blast
  then have "nd_keys n \<noteq> []" using n(1) by (simp add: keys_at_def)
  note mk = make_node_page[OF n(1) this ids ids_of_at, of junk 0]
  show ?thesis
  proof (rule that[OF n(1) mk])
    show "set (nd_children n) \<subseteq> dom (bt_heap ?s)" using kids dom by blast
  qed (use n kids ids ids_of_at dom rows in \<open>auto simp: page_for_def canon_def\<close>)
qed

text \<open>The bytes a node can take, and room in the cache for \<open>h\<close> more nodes.\<close>

definition page_max :: "u64 \<Rightarrow> nat" where
  "page_max sz = max 15360 (unat sz + 256)"

definition bte_fits :: "u64 \<Rightarrow> index_bt_enc \<Rightarrow> nat \<Rightarrow> bool" where
  "bte_fits sz st h \<longleftrightarrow> page_max sz < 2 ^ 32 \<and>
     unat (lc_cached_bytes (bte_cache st)) + h * page_max sz \<le> unat (lc_limit (bte_cache st))"

lemma unat_of_nat_le_self: "unat (of_nat n :: u64) \<le> n"
  by (simp add: unat_of_nat)

lemma unat_plus_le: "unat (x + y :: u64) \<le> unat x + unat y"
  by (simp add: unat_word_ariths)

lemma size_bound:
  assumes "length (be_keys n) \<le> 15" "page_max sz < 2 ^ 32"
  shows "unat (ucast (ucast (be_get_size sz n) :: u32) :: u64) \<le> page_max sz"
proof -
  let ?k = "length (be_keys n)"
  have "unat (be_get_size sz n) \<le> page_max sz"
  proof (cases "be_is_leaf n")
    case True
    have "unat (1024 * of_nat ?k :: u64) \<le> 1024 * ?k"
      using unat_of_nat_le_self[of "1024 * ?k"] by simp
    then show ?thesis using True assms(1) by (simp add: be_get_size_def page_max_def)
  next
    case False
    have "be_get_size sz n = sz + of_nat (16 * Suc ?k)" using False by (simp add: be_get_size_def algebra_simps)
    moreover have "unat (sz + of_nat (16 * Suc ?k)) \<le> unat sz + 16 * Suc ?k"
      using unat_of_nat_le_self[of "16 * Suc ?k"] unat_plus_le[of sz "of_nat (16 * Suc ?k)"] by linarith
    ultimately show ?thesis using assms(1) by (simp add: page_max_def)
  qed
  moreover have "unat (ucast (ucast (be_get_size sz n) :: u32) :: u64) \<le> unat (be_get_size sz n)"
    by (simp add: unsigned_ucast_eq unsigned_take_bit_eq)
  ultimately show ?thesis by simp
qed

text \<open>What a load promises: the page of the node is in the enclave and the logical tree is the same.\<close>

definition bte_loaded :: "u64 \<Rightarrow> index_bt_enc \<Rightarrow> gt \<Rightarrow> nat \<Rightarrow> nat \<Rightarrow> index_bt_enc \<Rightarrow> bool" where
  "bte_loaded sz st t a d st' \<longleftrightarrow> bte_ok st' t \<and> bte_logical st' = bte_logical st \<and> bte_at st' a d \<and>
     lc_timestamp (bte_cache st') = lc_timestamp (bte_cache st) + 1 \<and>
     (\<forall>h. bte_fits sz st (Suc h) \<longrightarrow> bte_fits sz st' h)"

lemma fits_le:
  assumes "bte_fits sz st (Suc h)" "unat sp \<le> page_max sz"
  shows "\<not> lc_limit (bte_cache st) < lc_cached_bytes (bte_cache st) + sp"
    "unat (lc_cached_bytes (bte_cache st) + sp) + h * page_max sz \<le> unat (lc_limit (bte_cache st))"
proof -
  have "unat (lc_cached_bytes (bte_cache st) + sp) \<le> unat (lc_cached_bytes (bte_cache st)) + unat sp"
    by (rule unat_plus_le)
  then show "unat (lc_cached_bytes (bte_cache st) + sp) + h * page_max sz \<le> unat (lc_limit (bte_cache st))"
    using assms by (simp add: bte_fits_def)
  then show "\<not> lc_limit (bte_cache st) < lc_cached_bytes (bte_cache st) + sp"
    by (simp add: word_less_nat_alt)
qed

lemma installed_at:
  assumes "page_for (bte_outside st) a n" "lc_cache c' (0, be_node_id n) = Some nd" "cn_value nd = bte_fresh st"
    "bte_root st < bte_fresh st" "bte_heap st (bte_root st) = Some r" "be_node_id r \<noteq> be_node_id n"
  shows "bte_at (bte_installed st c' n) a (bte_fresh st)"
  using assms by (simp add: bte_at_def bte_installed_def bte_page_def)

text \<open>Every leaf of the logical tree is complete, and so are its copies.\<close>

lemma leaf_in_glf:
  "holds v (gnodes t p) \<Longrightarrow> a \<in> set (gaddrs t) \<Longrightarrow> v a = Some (True, ks, vs, cs, q) \<Longrightarrow> (a, ks, vs) \<in> set (glf t)"
proof (induction t arbitrary: p)
  case (GN b ks' ts)
  then have "a \<noteq> b" by auto
  then obtain u where u: "u \<in> set ts" "a \<in> set (gaddrs u)" using GN.prems(2) by auto
  then have "(a, ks, vs) \<in> set (glf u)" using GN.IH[OF u(1) _ u(2) GN.prems(3)] GN.prems(1) by (auto simp: holds_UN)
  then show ?case using u(1) by auto
qed auto

lemma leaf_filled:
  assumes "bte_ok st t" "a \<in> set (gaddrs t)" "bt_heap (bte_outside st) a = Some n" "nd_is_leaf n"
  shows "[] \<notin> set (bte_rows st n)" "length (bte_rows st n) = length (nd_keys n)"
proof -
  obtain m where m: "holds (view (bte_logical st)) (gnodes t None)" "bal m t" "filled t"
    using assms(1) by (auto simp: bte_ok_def trep_def)
  have "view (bte_logical st) a = Some (True, nd_keys n, bte_rows st n, nd_children n, nd_parent n)"
    using assms(3,4) by (simp add: view_logical)
  then have g: "(a, nd_keys n, bte_rows st n) \<in> set (glf t)" using leaf_in_glf[OF m(1) assms(2)] by blast
  show "[] \<notin> set (bte_rows st n)" using m(3) g by (force simp: filled_def)
  show "length (bte_rows st n) = length (nd_keys n)" using glf_bal[OF m(2) g] by simp
qed

lemma canon_empty [simp]: "[] \<in> set (canon vs) \<longleftrightarrow> [] \<in> set vs" "length (canon vs) = length vs"
  by (auto simp: canon_def)

lemma copied_full:
  assumes ok: "bte_ok st t" and a: "a \<in> set (gaddrs t)" "bt_heap (bte_outside st) a = Some n" "page_for (bte_outside st) a n0"
    and c: "be_is_leaf n0 \<Longrightarrow> canon (be_data n0) = canon (nd_items n)"
    and "lc_cache (bte_cache st) (0, be_node_id n0) = None" "bte_heap st (bte_root st) = Some r" "be_node_id r \<noteq> be_node_id n0"
  shows "page_full n0"
  unfolding page_full_def
proof
  assume l: "be_is_leaf n0"
  have n: "nd_is_leaf n" "nd_keys n = be_keys n0" "nd_node_id n = be_node_id n0" using a(2,3) l by (auto simp: page_for_def)
  have "bte_rows st n = canon (be_data n0)" using assms(6-8) n(3) c[OF l] by (simp add: bte_rows_def bte_page_def)
  then show "length (be_data n0) = length (be_keys n0) \<and> [] \<notin> set (be_data n0)"
    using leaf_filled[OF ok a(1,2) n(1)] n(2) by (metis canon_empty)
qed

lemma evicted_full:
  assumes ok: "bte_ok st t" and c: "lc_cache (bte_cache st) k = Some nd" "bte_heap st (cn_value nd) = Some pg"
    and x: "x \<in> set (gaddrs t)" "x \<noteq> gaddr t"
  shows "page_full pg"
  unfolding page_full_def
proof
  assume l: "be_is_leaf pg"
  obtain a where a: "a \<in> set (gaddrs t)" "page_for (bte_outside st) a pg" "be_node_id pg = snd k" "fst k = 0"
    using bte_ok_cached[OF ok c(1)] c(2) by auto
  obtain n where n: "bt_heap (bte_outside st) a = Some n" "nd_is_leaf n" "nd_keys n = be_keys pg" "nd_node_id n = be_node_id pg"
    using a(2) l by (auto simp: page_for_def)
  obtain r where r: "bte_heap st (bte_root st) = Some r" "page_for (bte_outside st) (gaddr t) r" using ok by (auto simp: bte_ok_def)
  have "be_node_id r \<noteq> be_node_id pg"
  proof
    assume "be_node_id r = be_node_id pg"
    moreover have "inj_on (id_at (bte_outside st)) (dom (bt_heap (bte_outside st)))" using ok by (simp add: bte_ok_def)
    ultimately have "a = gaddr t"
      using inj_onD[of "id_at (bte_outside st)" "dom (bt_heap (bte_outside st))" a "gaddr t"] page_for_id[OF r(2)] page_for_id[OF a(2)] by auto
    moreover have "\<not> nd_is_leaf m" if "bt_heap (bte_outside st) (gaddr t) = Some m" for m
      using ok x that by (cases t) (auto simp: bte_ok_def trep_def view_logical)
    ultimately show False using n by blast
  qed
  then have "bte_rows st n = canon (be_data pg)" using n r(1) c a(3,4) l by (cases k) (simp add: bte_rows_def bte_page_def)
  then show "length (be_data pg) = length (be_keys pg) \<and> [] \<notin> set (be_data pg)"
    using leaf_filled[OF ok a(1) n(1,2)] n(3) by (metis canon_empty)
qed

lemma load_miss_ok:
  assumes ok: "bte_ok st t" and a: "a \<in> set (gaddrs t)" "a \<noteq> gaddr t" "i = id_at (bte_outside st) a" "lc_cache (bte_cache st) (0, i) = None"
    and clk: "lc_timestamp (bte_cache st) < UINT64_MAX"
  shows "case bte_load_miss sz junk st 0 i a of Inl e \<Rightarrow> e = Blocked \<and> \<not> bte_fits sz st 1
    | Inr (d, st') \<Rightarrow> bte_loaded sz st t a d st'"
proof -
  let ?s = "bte_outside st" let ?c = "bte_cache st"
  obtain n n0 where n: "bt_heap ?s a = Some n" "bte_make_node junk ?s a 0 = Inr n0" "page_for ?s a n0"
      "be_is_leaf n0 \<Longrightarrow> canon (be_data n0) = canon (nd_items n)" "length (be_keys n0) \<le> 15"
    using copy_page[OF ok a(1,2) a(4)[unfolded a(3)]] by blast
  have id: "be_node_id n0 = i" "be_part n0 = 0" using page_for_id[OF n(3)] n(3) a(3) by (auto simp: page_for_def)
  have st: "quiet ?s" "\<not> lc_locked ?c" "lru_in ?c 0 i" "lru_inv ?c" "i \<noteq> 0" "bte_root st < bte_fresh st"
    and inj: "inj_on (id_at ?s) (dom (bt_heap ?s))"
    using ok a(1,3) by (auto simp: bte_ok_def)
  have h: "be_is_leaf n0 \<Longrightarrow> bte_verify_hash st (0, i) \<in> {0, be_num n0}"
    using ok a(1,3) n(1,3) by (auto simp: bte_ok_def page_for_def be_num_def keys_at_def)
  obtain r where r: "bte_heap st (bte_root st) = Some r" "page_for ?s (gaddr t) r" using ok by (auto simp: bte_ok_def)
  have ne: "be_node_id r \<noteq> be_node_id n0"
    using inj_onD[OF inj, of a "gaddr t"] a(2) page_for_id[OF r(2)] page_for_id[OF n(3)] by auto
  have full: "page_full n0" using copied_full[OF ok a(1) n(1,3,4) _ r(1)] a(4) id(1) ne by simp
  let ?sp = "ucast (ucast (be_get_size sz n0) :: u32) :: u64"
  have sp: "page_max sz < 2 ^ 32 \<Longrightarrow> unat ?sp \<le> page_max sz" using size_bound[OF n(5)] by blast
  show ?thesis
  proof (cases "lc_limit ?c < lc_cached_bytes ?c + ?sp")
    case False
    obtain c' nd where c': "lru_load_and_swap False ?c 0 i (ucast (be_get_size sz n0)) (bte_fresh st) = Inr (RCOK, None, bte_fresh st, c')"
        "lc_cache c' = (lc_cache ?c)((0, i) \<mapsto> nd)" "cn_value nd = bte_fresh st" "\<not> lc_locked c'"
        "lc_limit c' = lc_limit ?c" "lc_timestamp c' = lc_timestamp ?c + 1" "lc_cached_bytes c' = lc_cached_bytes ?c + ?sp"
        "lru_in c' = lru_in ?c" "bte_load_miss sz junk st 0 i a = Inr (bte_fresh st, bte_installed st c' n0)"
      using load_miss_room[OF st(1,2) a(4) st(3) n(1,2) st(5) id False h full] by blast
    note inst = installed_ok[OF ok a(1) n(3) a(4)[folded id(1)] n(1,4) lru_inv_load_and_swap[OF st(4) clk c'(1)] c'(4) c'(2)[folded id(1)] c'(3,8)]
    have at: "bte_at (bte_installed st c' n0) a (bte_fresh st)"
      using installed_at[OF n(3) _ c'(3) st(6) r(1) ne] c'(2) id(1) by simp
    have "bte_fits sz (bte_installed st c' n0) h" if f: "bte_fits sz st (Suc h)" for h
      using fits_le(2)[OF f sp] f c'(5,7) by (simp add: bte_fits_def bte_installed_def)
    then show ?thesis using inst at c'(6,9) by (simp add: bte_loaded_def) (simp add: bte_installed_def)
  next
    case True
    then have nofit: "\<not> bte_fits sz st (Suc h)" for h using fits_le(1)[of sz st h ?sp] sp by (auto simp: bte_fits_def)
    show ?thesis
    proof (cases "cache_free ?c")
      case (Pair sw c0)
      show ?thesis
      proof (cases sw)
        case None
        have "bte_load_miss sz junk st 0 i a = Inl Blocked"
          using load_miss_eq[OF st(1) n(1,2) st(5), of sz] lru_swap_miss[OF a(4) st(3,2), of "ucast (be_get_size sz n0)" "bte_fresh st"]
            True Pair None id(1) by (cases n0) simp
        then show ?thesis using nofit[of 0] by simp
      next
        case (Some x)
        obtain b sp si where x: "x = (b, sp, si)" by (cases x) auto
        obtain nds where nds: "lc_cache ?c (sp, si) = Some nds" "cn_value nds = b"
          using cache_free_evicts[OF st(4) Pair[unfolded Some x]] by blast
        note cached = bte_ok_cached[OF ok nds(1)]
        obtain pg where pg: "bte_heap st b = Some pg" "page_for ?s (be_origin pg) pg" "be_node_id pg = si"
          using cached(4) nds(2) by (auto dest: page_for_id)
        have b: "b < bte_fresh st" "sp = 0" "b \<noteq> bte_root st" using cached nds(2) by auto
        have fullp: "page_full pg" using evicted_full[OF ok nds(1) _ a(1,2)] nds(2) pg(1) by blast
        obtain c' nd where c': "lru_load_and_swap False ?c 0 i (ucast (be_get_size sz n0)) (bte_fresh st) = Inr (RCOK, Some (b, sp, si), bte_fresh st, c')"
            "lru_inv c0" "lc_cache c0 = (lc_cache ?c)((sp, si) := None)" "\<not> lc_locked c0" "lc_cache c' = (lc_cache c0)((0, i) \<mapsto> nd)"
            "cn_value nd = bte_fresh st" "\<not> lc_locked c'" "lc_timestamp c' = lc_timestamp ?c + 1" "lru_in c0 = lru_in ?c" "lru_in c' = lru_in ?c"
            "bte_load_miss sz junk st 0 i a = Inr (bte_fresh st, bte_installed (bte_swapped junk st c0 b pg) c' n0)"
          using load_miss_evict[OF st(1,2) a(4) st(3,4) n(1,2) st(5) id True Pair[unfolded Some x] pg(1,2) b(1) pg(3) b(2) fullp h full] by blast
        let ?st = "bte_swapped junk st c0 b pg"
        have i: "(0, i) \<noteq> (sp, si)" using nds(1) a(4) by auto
        note sw = swapped_ok[OF ok nds(1)[unfolded b(2)] nds(2) pg(1) c'(2,4) c'(3)[unfolded b(2)] c'(9), of junk]
        have keep: "bte_cache ?st = c0" "bte_fresh ?st = bte_fresh st" "bte_root ?st = bte_root st" "bte_heap ?st (bte_root st) = Some r"
          using r(1) b(3) by (simp_all add: bte_swapped_def)
        have "be_origin pg \<noteq> a" using page_for_id[OF pg(2)] page_for_id[OF n(3)] pg(3) id(1) i b(2) by auto
        then have old: "bt_heap (bte_outside ?st) a = Some n" using n(1) by (simp add: bte_swapped_def bt_put_def)
        have pn: "page_for (bte_outside ?st) a n0" using n(3) same_skel_page[OF sw(3)] by simp
        have none: "lc_cache (bte_cache ?st) (0, be_node_id n0) = None" using c'(3) a(4) id(1) by (simp add: keep)
        note inst = installed_ok[OF sw(1) a(1) pn none old n(4) lru_inv_load_and_swap[OF st(4) clk c'(1)] c'(7),
            unfolded keep, OF _ c'(5)[folded id(1)] c'(6) c'(10)[folded c'(9)]]
        have "bte_at (bte_installed ?st c' n0) a (bte_fresh ?st)"
          using installed_at[OF pn, of c' nd r] c'(5,6) id(1) keep st(6) ne by simp
        then show ?thesis using inst c'(8,11) sw(2) nofit by (simp add: bte_loaded_def keep) (simp add: bte_installed_def)
      qed
    qed
  qed
qed

lemma load_hit_ok:
  assumes ok: "bte_ok st t" and a: "a \<in> set (gaddrs t)" "a \<noteq> gaddr t" "i = id_at (bte_outside st) a" "lc_cache (bte_cache st) (0, i) = Some nd"
    and clk: "lc_timestamp (bte_cache st) < UINT64_MAX"
  shows "\<exists>c'. lru_try_load False (bte_cache st) 0 i = Inr (Some (cn_value nd), c') \<and>
    bte_loaded sz st t a (cn_value nd) (st\<lparr>bte_cache := c'\<rparr>)"
proof -
  let ?s = "bte_outside st" let ?c = "bte_cache st"
  let ?nd = "nd\<lparr>cn_read_cnt := cn_read_cnt nd + 1, cn_ts := max (cn_ts nd) (lc_timestamp ?c + 1)\<rparr>"
  let ?c' = "?c\<lparr>lc_timestamp := lc_timestamp ?c + 1, lc_cache := (lc_cache ?c)((0, i) \<mapsto> ?nd)\<rparr>"
  let ?st = "st\<lparr>bte_cache := ?c'\<rparr>"
  have "lru_in ?c 0 i" "lru_inv ?c" "\<not> lc_locked ?c" and inj: "inj_on (id_at ?s) (dom (bt_heap ?s))" and q: "quiet ?s"
    using ok a(1,3) by (auto simp: bte_ok_def)
  then have ld: "lru_try_load False ?c 0 i = Inr (Some (cn_value nd), ?c')"
    using a(4) by (simp add: lru_try_load_def Let_def)
  then have inv: "lru_inv ?c'" using lru_inv_try_load[OF _ clk] \<open>lru_inv ?c\<close> by blast
  have page: "bte_page ?st j = bte_page st j" for j
    using a(4) by (cases "j = i") (simp_all add: bte_page_def cong: option.case_cong if_cong)
  have log: "bte_logical ?st = bte_logical st" using page by (simp add: bte_logical_def bte_rows_def)
  have "bte_ok ?st t"
    unfolding bte_ok_def log
  proof (intro conjI allI impI)
    fix k nd' assume "lc_cache (bte_cache ?st) k = Some nd'"
    then obtain nd0 where "lc_cache ?c k = Some nd0" "cn_value nd0 = cn_value nd'" using a(4) by (auto split: if_splits)
    from bte_ok_cached[OF ok this(1)] this(2)
    show "fst k = 0" "cn_value nd' < bte_fresh ?st" "cn_value nd' \<noteq> bte_root ?st"
      "\<exists>pg a. bte_heap ?st (cn_value nd') = Some pg \<and> a \<in> set (gaddrs t) \<and> page_for (bte_outside ?st) a pg \<and> be_node_id pg = snd k"
      by simp_all
  qed (use ok inv in \<open>auto simp: bte_ok_def lru_in_def\<close>)
  moreover have "bte_at ?st a (cn_value nd)"
  proof -
    obtain pg b where pg: "bte_heap st (cn_value nd) = Some pg" "page_for ?s b pg" "be_node_id pg = i"
      using bte_ok_cached(4)[OF ok a(4)] by auto
    obtain r where r: "bte_heap st (bte_root st) = Some r" "page_for ?s (gaddr t) r" using ok by (auto simp: bte_ok_def)
    have d: "a \<in> dom (bt_heap ?s)" using trep_dom[of "bte_logical st" t] ok a(1) by (auto simp: bte_ok_def bte_logical_def dom_def)
    have "b = a" using inj_onD[OF inj _ _ d, of b] page_for_id[OF pg(2)] pg(3) a(3) by metis
    moreover have "be_node_id r \<noteq> i" using inj_onD[OF inj _ _ d, of "gaddr t"] page_for_id[OF r(2)] a(2,3) by metis
    ultimately show ?thesis using pg r(1) a(4) by (simp add: bte_at_def page) (simp add: bte_page_def)
  qed
  moreover have "bte_fits sz ?st h" if "bte_fits sz st (Suc h)" for h
    using that by (simp add: bte_fits_def)
  ultimately show ?thesis using ld log by (intro exI[of _ ?c']) (simp add: bte_loaded_def)
qed

lemma load_child_ok:
  assumes ok: "bte_ok st t" and c: "bte_at st b cur" "bt_heap (bte_outside st) b = Some og" "\<not> nd_is_leaf og"
      "set (nd_children og) \<subseteq> set (gaddrs t)" "length (nd_children og) = Suc (length (nd_keys og))" "i \<le> length (nd_keys og)"
    and a: "a = nd_children og ! i" "a \<noteq> gaddr t" and clk: "lc_timestamp (bte_cache st) < UINT64_MAX"
  shows "case load_child sz junk st cur i of Inl e \<Rightarrow> e = Blocked \<and> \<not> bte_fits sz st 1
    | Inr (r, st') \<Rightarrow> \<exists>d. r = Some d \<and> bte_loaded sz st t a d st'"
proof -
  let ?s = "bte_outside st"
  have dom: "set (gaddrs t) \<subseteq> dom (bt_heap ?s)"
    using trep_dom[of "bte_logical st" t] ok by (auto simp: bte_ok_def bte_logical_def dom_def)
  obtain pg where pg: "bte_heap st cur = Some pg" "page_for ?s b pg" using c(1) by (auto simp: bte_at_def)
  then have p: "\<not> be_is_leaf pg" "be_origin pg = b" "be_part pg = 0" "ids_of ?s (nd_children og) = Inr (be_child pg)"
    using c(2,3) by (auto simp: page_for_def)
  have kids: "be_child pg = map (id_at ?s) (nd_children og)"
    using ids_of_at[of "nd_children og" ?s] c(4) dom p(4) by auto
  have i: "i < length (nd_children og)" using c(5,6) by simp
  then have a': "a \<in> set (gaddrs t)" "be_child pg ! i = id_at ?s a" using a(1) c(4) kids by (auto intro: nth_mem)
  then have st: "lru_in (bte_cache st) 0 (id_at ?s a)" "id_at ?s a \<noteq> 0" using ok by (auto simp: bte_ok_def)
  have len: "i < length (be_child pg)" using kids i by simp
  show ?thesis
  proof (cases "lc_cache (bte_cache st) (0, id_at ?s a)")
    case None
    then have "lru_try_load False (bte_cache st) 0 (id_at ?s a) = Inr (None, bte_cache st)"
      using st(1) by (simp add: lru_try_load_def)
    then show ?thesis
      using load_miss_ok[OF ok a'(1) a(2) refl None clk, of sz junk] pg(1) p(1-3) c(2,6) i len a'(2) st(2) a(1)
      by (simp add: load_child_def bt_get_def split: sum.splits prod.splits) 
  next
    case (Some nd)
    show ?thesis
      using load_hit_ok[OF ok a'(1) a(2) refl Some clk, of sz] pg(1) p(1-3) c(2,6) i len a'(2) st(2)
      by (auto simp: load_child_def bt_get_def)
  qed
qed

section \<open>Finding a leaf, reading and scanning\<close>

lemma view_parent: "holds v (gnodes t p) \<Longrightarrow> \<exists>b ks vs cs. v (gaddr t) = Some (b, ks, vs, cs, p)"
  by (cases t) auto

lemma bte_root_at:
  assumes "bte_ok st t"
  shows "bte_at st (gaddr t) (bte_root st)"
  using assms by (auto simp: bte_ok_def bte_at_def bte_page_def)

lemma bte_find_leaf_ok:
  assumes "bte_ok st t" "t = plug fs u" "bal n u" "n < fuel" "bte_at st (gaddr u) c"
    "unat (lc_timestamp (bte_cache st)) + n < 2 ^ 64" "sorted_wrt before (flat u)" "routes key fs" "cbal n fs"
  shows "case bte_find_leaf fuel sz junk st key c of Inl e \<Rightarrow> e = Blocked \<and> \<not> bte_fits sz st n
    | Inr (d, st') \<Rightarrow> \<exists>gs a ks vs. t = plug gs (GL a ks vs) \<and> cbal 0 gs \<and> bal 0 (GL a ks vs) \<and> routes key gs \<and>
        bte_ok st' t \<and> bte_logical st' = bte_logical st \<and> bte_at st' a d"
  using assms
proof (induction n arbitrary: u fs fuel st c)
  case 0
  obtain a ks vs where u: "u = GL a ks vs" using 0(3) by (cases u) auto
  obtain fuel' where fuel: "fuel = Suc fuel'" using 0(4) by (cases fuel) auto
  have "view (bte_logical st) a = Some (True, ks, vs, [], par fs)"
    using 0(1,2) u by (simp add: bte_ok_def trep_def gnodes_plug)
  then obtain pg where "bte_heap st c = Some pg" "be_is_leaf pg"
    using 0(5) u by (auto simp: bte_at_def page_for_def elim!: logical_node)
  then show ?case using 0 u fuel by (auto simp del: bal.simps)
next
  case (Suc n)
  obtain a ks ts where u: "u = GN a ks ts" using Suc(4) by (cases u) auto
  obtain fuel' where fuel: "fuel = Suc fuel'" using Suc(5) by (cases fuel) auto
  obtain kl ls v kr rs where f: "ks = kl @ kr" "ts = ls @ v # rs" "child_index key ks = length ls"
      "routes key [(a, kl, ls, kr, rs)]" "cbal n [(a, kl, ls, kr, rs)]" "bal n v"
    using inner_frame[OF Suc(4)[unfolded u] Suc(8)[unfolded u], of key] .
  let ?f = "(a, kl, ls, kr, rs)" let ?i = "child_index key ks"
  have t: "t = plug (?f # fs) v" using Suc(3) u f(1,2) by simp
  have h: "holds (view (bte_logical st)) (gnodes u (par fs) \<union> cnodes fs a)" "holds (view (bte_logical st)) (gnodes t None)"
    using Suc(2,3) u by (simp_all add: bte_ok_def trep_def gnodes_plug)
  then have vw: "view (bte_logical st) a = Some (False, ks, [], map gaddr ts, par fs)" and hv: "holds (view (bte_logical st)) (gnodes v (Some a))"
    using u f(2) by (simp_all add: holds_UN)
  obtain og where og: "bt_heap (bte_outside st) a = Some og" "\<not> nd_is_leaf og" "nd_keys og = ks" "nd_children og = map gaddr ts"
    using vw by (auto elim: logical_node)
  have "gaddr v \<noteq> gaddr t" using view_parent[OF hv] view_parent[OF h(2)] by auto
  moreover have "set (gaddrs u) \<subseteq> set (gaddrs t)"
    using Suc(3) gaddrs_plug[of fs u] by (metis set_mset_mset set_mset_union Un_upper1)
  then have "gaddr ` set ts \<subseteq> set (gaddrs t)" using u gaddr_image[of ts] by auto
  moreover have "length ts = Suc (length ks)" using Suc(4) u by simp
  moreover have "lc_timestamp (bte_cache st) < UINT64_MAX" using Suc(7) by (intro clock_below) simp
  moreover have "gaddr v = nd_children og ! ?i" using og(4) f(2,3) by (simp add: nth_append)
  ultimately have ld: "case load_child sz junk st c ?i of Inl e \<Rightarrow> e = Blocked \<and> \<not> bte_fits sz st 1
      | Inr (r, st') \<Rightarrow> \<exists>d. r = Some d \<and> bte_loaded sz st t (gaddr v) d st'"
    using load_child_ok[OF Suc(2) _ og(1,2), of c ?i "gaddr v" sz junk] Suc(6) u og(3,4)
    by (simp add: child_index_def length_takeWhile_le)
  obtain pg where pg: "bte_heap st c = Some pg" "\<not> be_is_leaf pg" "be_keys pg = ks"
    using Suc(6) u og by (auto simp: bte_at_def page_for_def)
  show ?case
  proof (cases "load_child sz junk st c ?i")
    case (Inl e)
    moreover have "\<not> bte_fits sz st (Suc n)" using ld Inl by (auto simp: bte_fits_def)
    ultimately show ?thesis using ld pg fuel by simp
  next
    case (Inr x)
    then obtain d st1 where x: "x = (Some d, st1)" "bte_loaded sz st t (gaddr v) d st1" using ld by (cases x) auto
    then have s1: "bte_ok st1 t" "bte_logical st1 = bte_logical st" "bte_at st1 (gaddr v) d"
        "lc_timestamp (bte_cache st1) = lc_timestamp (bte_cache st) + 1" "bte_fits sz st (Suc n) \<Longrightarrow> bte_fits sz st1 n"
      by (auto simp: bte_loaded_def)
    have "flat u = cl [?f] @ flat v @ cr [?f]" using flat_plug[OF f(5), of v] u f(1,2) by simp
    then have srt: "sorted_wrt before (flat v)" using Suc(8) by (simp add: sorted_wrt_append)
    have fs: "routes key (?f # fs)" "cbal n (?f # fs)"
      using f(4,5) Suc(9,10) by (auto simp: routes_def)
    have "unat (lc_timestamp (bte_cache st1)) + n < 2 ^ 64"
      using s1(4) Suc(7) unat_plus_le[of "lc_timestamp (bte_cache st)" 1] by simp
    note IH = Suc.IH[OF s1(1) t f(6) _ s1(3) this srt fs, of fuel']
    have "bte_find_leaf fuel sz junk st key c = bte_find_leaf fuel' sz junk st1 key d"
      using pg fuel Inr x(1) by simp
    then show ?thesis using IH Suc(5) fuel s1(2,5) by (auto split: sum.splits)
  qed
qed

lemma leaf_page:
  assumes ok: "bte_ok st t" and g: "(a, ks, vs) \<in> set (glf t)" and at: "bte_at st a d"
  obtains pg n where "bte_heap st d = Some pg" "be_is_leaf pg" "be_keys pg = ks" "canon (be_data pg) = vs" "length (be_data pg) = length ks"
    "be_latch pg = latch_free" "page_for (bte_outside st) a pg" "bt_heap (bte_outside st) a = Some n" "nd_next n = nxt (bte_logical st) a"
proof -
  obtain pg where pg: "bte_heap st d = Some pg" "page_for (bte_outside st) a pg" "bte_page st (be_node_id pg) = Some pg"
    using at by (auto simp: bte_at_def)
  have "holds (view (bte_logical st)) (gnodes t None)" using ok by (simp add: bte_ok_def trep_def)
  then obtain q where "view (bte_logical st) a = Some (True, ks, vs, [], q)" using glf_nodes[OF _ g] by blast
  then obtain n where n: "bt_heap (bte_outside st) a = Some n" "nd_is_leaf n" "nd_keys n = ks" "bte_rows st n = vs"
    by (auto elim: logical_node)
  then show ?thesis
    using pg by (intro that[of pg n]) (auto simp: page_for_def bte_rows_def nxt_def bte_logical_def)
qed

lemma leaf_not_root: "distinct (gaddrs t) \<Longrightarrow> x \<in> set (glf t) \<Longrightarrow> length (glf t) \<noteq> 1 \<Longrightarrow> fst x \<noteq> gaddr t"
proof (cases t)
  case (GN a ks ts)
  assume t: "distinct (gaddrs t)" "x \<in> set (glf t)"
  then obtain u where u: "u \<in> set ts" "x \<in> set (glf u)" using GN by auto
  then have "fst x \<in> set (gaddrs u)" using gleaves_subset[of u] gleaves_glf[of u] by force
  then show ?thesis using t(1) u(1) GN by auto
qed simp

lemma load_next_ok:
  assumes ok: "bte_ok st t" and a: "(a, ks, vs) \<in> set (glf t)" "bte_at st a d" and b: "nxt (bte_logical st) a = Some b"
      "b \<in> set (gaddrs t)" "b \<noteq> gaddr t"
    and clk: "lc_timestamp (bte_cache st) < UINT64_MAX"
  shows "case load_next sz junk st d of Inl e \<Rightarrow> e = Blocked \<and> \<not> bte_fits sz st 1
    | Inr (r, st') \<Rightarrow> \<exists>e. r = Some e \<and> bte_loaded sz st t b e st'"
proof -
  let ?s = "bte_outside st"
  obtain pg n where pg: "bte_heap st d = Some pg" "be_is_leaf pg" "page_for ?s a pg" "bt_heap ?s a = Some n" "nd_next n = Some b"
    using leaf_page[OF ok a] b(1) by metis
  have dom: "b \<in> dom (bt_heap ?s)"
    using trep_dom[of "bte_logical st" t] ok b(2) by (auto simp: bte_ok_def bte_logical_def dom_def)
  have p: "be_origin pg = a" "be_part pg = 0" "be_next pg = id_at ?s b"
    using pg(3-5) id_of_Some[OF dom] by (auto simp: page_for_def)
  have st: "lru_in (bte_cache st) 0 (id_at ?s b)" "id_at ?s b \<noteq> 0" using ok b(2) by (auto simp: bte_ok_def)
  show ?thesis
  proof (cases "lc_cache (bte_cache st) (0, id_at ?s b)")
    case None
    then have "lru_try_load False (bte_cache st) 0 (id_at ?s b) = Inr (None, bte_cache st)"
      using st(1) by (simp add: lru_try_load_def)
    then show ?thesis
      using load_miss_ok[OF ok b(2,3) refl None clk, of sz junk] pg p st(2)
      by (simp add: load_next_def bt_get_def split: sum.splits prod.splits)
  next
    case (Some nd)
    show ?thesis
      using load_hit_ok[OF ok b(2,3) refl Some clk, of sz] pg p st(2) by (auto simp: load_next_def bt_get_def)
  qed
qed

text \<open>A tree with two leaves, and the enclave after its root has been copied in.\<close>

definition demo_node :: "bool \<Rightarrow> idx_key_t list \<Rightarrow> row list list \<Rightarrow> nat list \<Rightarrow> nat option \<Rightarrow> nat option \<Rightarrow> u64 \<Rightarrow> bt_node" where
  "demo_node leaf ks vs cs p nx i = \<lparr>nd_is_leaf = leaf, nd_keys = ks, nd_items = vs, nd_children = cs, nd_parent = p,
     nd_next = nx, nd_latch = latch_free, nd_node_id = i\<rparr>"

definition demo_gt :: gt where
  "demo_gt = GN 2 [5] [GL 0 [1] [[row_dup 0 demo_row]], GL 1 [7] [[row_dup 0 demo_row]]]"

definition demo_btree :: btree where
  "demo_btree = \<lparr>bt_heap = [0 \<mapsto> demo_node True [1] [[demo_row]] [] (Some 2) (Some 1) 1,
       1 \<mapsto> demo_node True [7] [[demo_row]] [] (Some 2) None 2, 2 \<mapsto> demo_node False [5] [] [0, 1] None None 3],
     bt_fresh = 3, bt_root = 2, bt_node_id = 4, bt_cur_leaf = (\<lambda>_. None), bt_cur_idx = (\<lambda>_. 0)\<rparr>"

definition demo_bte :: index_bt_enc where
  "demo_bte = (bte_init 16 1 100000 demo_btree)\<lparr>bte_heap := [0 \<mapsto> \<lparr>be_is_leaf = False, be_keys = [5], be_data = [], be_child = [1, 2],
     be_parent = 0, be_next = 0, be_latch = latch_free, be_part = 0, be_origin = 2, be_node_id = 3\<rparr>], bte_fresh := 1\<rparr>"

lemma demo_logical: "bte_rows demo_bte (demo_node True ks vs cs p nx i) = canon vs" if "i \<noteq> 3"
  using that by (simp add: bte_rows_def bte_page_def demo_bte_def demo_node_def bte_init_def lru_init_def)

lemma demo_inner: "bte_rows demo_bte (demo_node False ks [] cs p nx i) = []"
  by (simp add: bte_rows_def bte_page_def demo_bte_def demo_node_def bte_init_def lru_init_def canon_def)

lemma demo_view:
  "view (bte_logical demo_bte) 0 = Some (True, [1], [[row_dup 0 demo_row]], [], Some 2)"
  "view (bte_logical demo_bte) 1 = Some (True, [7], [[row_dup 0 demo_row]], [], Some 2)"
  "view (bte_logical demo_bte) 2 = Some (False, [5], [], [0, 1], None)"
proof -
  have "view (bte_logical demo_bte) a = map_option (\<lambda>n. (nd_is_leaf n, nd_keys n, bte_rows demo_bte n, nd_children n, nd_parent n))
      (bt_heap demo_btree a)" for a
    by (simp add: view_logical) (simp add: demo_bte_def bte_init_def)
  moreover have "bt_heap demo_btree 0 = Some (demo_node True [1] [[demo_row]] [] (Some 2) (Some 1) 1)"
    "bt_heap demo_btree 1 = Some (demo_node True [7] [[demo_row]] [] (Some 2) None 2)"
    "bt_heap demo_btree 2 = Some (demo_node False [5] [] [0, 1] None None 3)"
    by (simp_all add: demo_btree_def)
  ultimately show "view (bte_logical demo_bte) 0 = Some (True, [1], [[row_dup 0 demo_row]], [], Some 2)"
    "view (bte_logical demo_bte) 1 = Some (True, [7], [[row_dup 0 demo_row]], [], Some 2)"
    "view (bte_logical demo_bte) 2 = Some (False, [5], [], [0, 1], None)"
    using demo_logical demo_inner by (simp_all add: canon_def) (simp_all add: demo_node_def)
qed

lemma demo_outside [simp]: "bte_outside demo_bte = demo_btree"
  by (simp add: demo_bte_def bte_init_def)

lemma demo_heap:
  "bt_heap demo_btree a = Some n \<longleftrightarrow> (a = 0 \<and> n = demo_node True [1] [[demo_row]] [] (Some 2) (Some 1) 1) \<or>
     (a = 1 \<and> n = demo_node True [7] [[demo_row]] [] (Some 2) None 2) \<or> (a = 2 \<and> n = demo_node False [5] [] [0, 1] None None 3)"
  by (auto simp: demo_btree_def)

lemma demo_at:
  "dom (bt_heap demo_btree) = {0, 1, 2}" "id_at demo_btree 0 = 1" "id_at demo_btree 1 = 2" "id_at demo_btree 2 = 3"
  "keys_at demo_btree 0 = [1]" "keys_at demo_btree 1 = [7]" "keys_at demo_btree 2 = [5]"
  by (auto simp: demo_btree_def id_at_def keys_at_def demo_node_def)

lemma demo_trep: "trep (bte_logical demo_bte) demo_gt"
proof -
  have "bt_fresh (bte_logical demo_bte) = 3" "bt_root (bte_logical demo_bte) = 2" "nxt (bte_logical demo_bte) 0 = Some 1"
    "nxt (bte_logical demo_bte) 1 = None"
    by (simp_all add: bte_logical_def demo_btree_def nxt_def demo_node_def)
  then show ?thesis
    unfolding trep_def
    by (intro conjI exI[of _ "Suc 0"]) (use demo_view in \<open>simp_all add: demo_gt_def filled_def rweave_def\<close>)
qed

lemma demo_bte_ok: "bte_ok demo_bte demo_gt"
proof -
  have "quiet demo_btree" "closed demo_btree" "inj_on (id_at demo_btree) (dom (bt_heap demo_btree))"
    by (auto simp: quiet_iff demo_heap closed_def demo_at demo_node_def simp del: One_nat_def)
  moreover have "page_for demo_btree 2 (the (bte_heap demo_bte 0))"
    by (simp add: page_for_def demo_bte_def demo_btree_def demo_node_def id_of_def bt_get_def)
  moreover have "bte_root demo_bte = 0" "bte_fresh demo_bte = 1" "lc_cache (bte_cache demo_bte) = Map.empty" "lru_inv (bte_cache demo_bte)"
      "\<not> lc_locked (bte_cache demo_bte)" "bte_verify_hash demo_bte = (\<lambda>_. 0)" "\<exists>r. bte_heap demo_bte 0 = Some r"
      "lru_in (bte_cache demo_bte) 0 j \<longleftrightarrow> j < 16" for j
    by (simp_all add: demo_bte_def bte_init_def lru_inv_init) (simp_all add: lru_init_def lru_in_def)
  ultimately show ?thesis
    using demo_trep by (auto simp: bte_ok_def demo_gt_def demo_at simp del: One_nat_def)
qed

text \<open>
  C23: A point read through the enclave's B+tree returns exactly the rows the logical tree (the
  untrusted tree with the cached leaves in place of the untrusted ones) has under the key, and
  leaves that tree and the invariant as they were, whatever it had to load and swap out on the
  way. The only other outcome is to wait for cache space, and it does not happen when the cache
  has room for one node per level.
\<close>

theorem bte_index_read_logical:
  assumes "bte_ok st t" "bal h t" "unat (lc_timestamp (bte_cache st)) + h < 2 ^ 64"
  shows "case bte_index_read sz junk st key of
      Inl e \<Rightarrow> e = Blocked \<and> \<not> bte_fits sz st h
    | Inr (v, a, st') \<Rightarrow>
        (case v of None \<Rightarrow> bt_items (bte_logical st) key = []
         | Some rows \<Rightarrow> map (row_dup 0) rows = bt_items (bte_logical st) key \<and> rows \<noteq> []) \<and>
        bte_logical st' = bte_logical st \<and> bte_ok st' t"
proof -
  let ?f = "bt_fresh (bte_outside st)" let ?l = "bte_logical st"
  have tr: "trep ?l t" "sorted_wrt before (flat t)" using assms(1) by (auto simp: bte_ok_def trep_def)
  have "h < ?f" using trep_height[OF tr(1) assms(2)] by (simp add: bte_logical_def)
  from bte_find_leaf_ok[OF assms(1) _ assms(2) this bte_root_at[OF assms(1)] assms(3) tr(2), of "[]" key sz junk]
  have fl: "case bte_find_leaf ?f sz junk st key (bte_root st) of Inl e \<Rightarrow> e = Blocked \<and> \<not> bte_fits sz st h
    | Inr (d, st') \<Rightarrow> \<exists>gs a ks vs. t = plug gs (GL a ks vs) \<and> cbal 0 gs \<and> bal 0 (GL a ks vs) \<and> routes key gs \<and>
        bte_ok st' t \<and> bte_logical st' = ?l \<and> bte_at st' a d"
    by (simp add: routes_def)
  show ?thesis
  proof (cases "bte_find_leaf ?f sz junk st key (bte_root st)")
    case (Inl e)
    then show ?thesis using fl by (simp add: bte_index_read_def)
  next
    case (Inr x)
    then obtain d st1 gs a ks vs where x: "x = (d, st1)" "t = plug gs (GL a ks vs)" "cbal 0 gs" "bal 0 (GL a ks vs)" "routes key gs"
        "bte_ok st1 t" "bte_logical st1 = ?l" "bte_at st1 a d"
      using fl by (cases x) (auto simp del: bal.simps)
    obtain pg where pg: "bte_heap st1 d = Some pg" "page_for (bte_outside st1) a pg" "bte_page st1 (be_node_id pg) = Some pg"
      using x(8) by (auto simp: bte_at_def)
    have "view (bte_logical st1) a = Some (True, ks, vs, [], par gs)"
      using x(2,6) by (simp add: bte_ok_def trep_def gnodes_plug)
    then obtain n where n: "bt_heap (bte_outside st1) a = Some n" "nd_is_leaf n" "nd_keys n = ks" "bte_rows st1 n = vs"
      by (auto elim: logical_node)
    then have p: "be_keys pg = ks" "canon (be_data pg) = vs" "be_latch pg = latch_free" "length (be_data pg) = length ks"
      using pg(2,3) by (auto simp: page_for_def bte_rows_def)
    let ?i = "length (takeWhile (\<lambda>k. k \<noteq> key) ks)"
    have "key \<notin> set ks \<Longrightarrow> ?i = length ks" by (rule takeWhile_all) auto
    then have i: "?i < length ks \<longleftrightarrow> key \<in> set ks" using takeWhile_neq[of key ks] by (cases "key \<in> set ks") auto
    have same: "st1\<lparr>bte_heap := (bte_heap st1)(d \<mapsto> pg\<lparr>be_latch := latch_free\<rparr>)\<rparr> = st1"
      using pg(1) p(3) by (cases pg) (simp add: fun_upd_idem)
    have run: "bte_index_read sz junk st key = Inr (if key \<in> set ks then Some (be_data pg ! ?i) else None, d, st1)"
      using Inr x(1) pg(1) p(1,3) i same by (auto simp: bte_index_read_def release_latch_enc_def latch_free_def Let_def)
    have entry: "map_of (ents (flat t)) key = (if key \<in> set ks then Some (vs ! ?i) else None)"
      using leaf_entry[OF x(3-5)] tr(2) x(2) by simp
    have "key \<in> set ks \<Longrightarrow> map (row_dup 0) (be_data pg ! ?i) = vs ! ?i" using i p(2,4) by (auto simp: canon_def)
    moreover have "key \<in> set ks \<Longrightarrow> vs ! ?i \<noteq> []" using entry trep_items[OF tr(1)] by simp
    ultimately show ?thesis
      using run entry x(6,7) bt_items_sim[OF tr(1), of key] by (auto simp: elem_items_def)
  qed
qed

theorem bte_index_read_logical_witness:
  "\<exists>v a st'. bte_index_read 200 9 demo_bte 7 = Inr (Some v, a, st') \<and> map (row_dup 0) v = [row_dup 0 demo_row] \<and>
     bte_logical st' = bte_logical demo_bte \<and> bte_ok st' demo_gt"
proof -
  have "bal 1 demo_gt" "bte_fits 200 demo_bte 1" "unat (lc_timestamp (bte_cache demo_bte)) + 1 < 2 ^ 64"
    by (simp_all add: demo_gt_def bte_fits_def page_max_def demo_bte_def bte_init_def lru_init_def)
  moreover have "bt_items (bte_logical demo_bte) 7 = [row_dup 0 demo_row]"
    by (simp add: bt_items_sim[OF demo_trep] elem_items_def demo_gt_def rweave_def)
  ultimately show ?thesis
    using bte_index_read_logical[OF demo_bte_ok, of 1 200 7 9] by (auto split: sum.splits option.splits)
qed

text \<open>
  C24: Stepping a scan in the enclave's B+tree returns the rows of the entry that follows the
  cursor in the order of the logical tree, crossing to the next leaf where needed, and nothing
  at the end; the new cursor stands on that entry, and the logical tree is unchanged. The only
  other outcome is to wait for cache space for one node.
\<close>

theorem bte_index_next_logical:
  assumes ok: "bte_ok st t" and at: "bte_at st a d" "cursor_at t a idx es" and clk: "lc_timestamp (bte_cache st) < UINT64_MAX"
  shows "case bte_index_next sz junk st (d, idx) False of
      Inl e \<Rightarrow> e = Blocked \<and> \<not> bte_fits sz st 1
    | Inr (v, (r, i), st') \<Rightarrow>
        map_option (map (row_dup 0)) v = (case es of [] \<Rightarrow> None | (k, rows) # _ \<Rightarrow> Some rows) \<and>
        (es \<noteq> [] \<longrightarrow> (\<exists>b e. r = Some e \<and> bte_at st' b e \<and> cursor_at t b i (tl es))) \<and>
        bte_logical st' = bte_logical st \<and> bte_ok st' t"
proof -
  obtain xs ks vs ys where g: "glf t = xs @ (a, ks, vs) # ys" "idx < length ks"
      "es = drop (Suc idx) (zip ks vs) @ concat (map (\<lambda>(a, ks, vs). zip ks vs) ys)"
    using at(2) by (auto simp: cursor_at_def)
  have tr: "trep (bte_logical st) t" using ok by (simp add: bte_ok_def)
  obtain m where m: "bal m t" using tr by (auto simp: trep_def)
  have gin: "(a, ks, vs) \<in> set (glf t)" using g(1) by simp
  have len: "length ks = length vs" using glf_bal[OF m gin] .
  obtain pg n where pg: "bte_heap st d = Some pg" "be_is_leaf pg" "be_keys pg = ks" "canon (be_data pg) = vs"
      "length (be_data pg) = length ks" "page_for (bte_outside st) a pg" "bt_heap (bte_outside st) a = Some n" "nd_next n = nxt (bte_logical st) a"
    using leaf_page[OF ok gin at(1)] by blast
  have nx: "nxt (bte_logical st) a = (case ys of [] \<Rightarrow> None | y # _ \<Rightarrow> Some (fst y))"
    using linked_next[of "nxt (bte_logical st)" "map fst xs" a "map fst ys"] tr g(1)
    by (simp add: trep_def gleaves_glf split: list.splits)
  consider (same) "Suc idx < length ks" | (last) "\<not> Suc idx < length ks" "ys = []"
    | (cross) b ks2 vs2 ys' where "\<not> Suc idx < length ks" "ys = (b, ks2, vs2) # ys'"
    by (metis list.exhaust prod_cases3)
  then show ?thesis
  proof cases
    case same
    then have "drop (Suc idx) (zip ks vs) = (ks ! Suc idx, vs ! Suc idx) # drop (Suc (Suc idx)) (zip ks vs)"
      using len by (simp add: Cons_nth_drop_Suc[symmetric])
    moreover have "bte_index_next sz junk st (d, idx) False = Inr (Some (be_data pg ! Suc idx), (Some d, Suc idx), st)"
      using pg same by (simp add: bte_index_next_def)
    moreover have "map (row_dup 0) (be_data pg ! Suc idx) = vs ! Suc idx" using pg(4,5) same by (auto simp: canon_def)
    moreover have "cursor_at t a (Suc idx) (drop (Suc (Suc idx)) (zip ks vs) @ concat (map (\<lambda>(a, ks, vs). zip ks vs) ys))"
      unfolding cursor_at_def using g(1) same by blast
    ultimately show ?thesis using g(3) at(1) ok by auto
  next
    case last
    have "load_next sz junk st d = Inr (None, st)"
      using pg nx last(2) by (auto simp: load_next_def bt_get_def page_for_def)
    then have "bte_index_next sz junk st (d, idx) False = Inr (None, (None, 0), st)"
      using pg g(2) last(1) by (simp add: bte_index_next_def)
    then show ?thesis using g(3) last len ok by simp
  next
    case cross
    have g2: "(b, ks2, vs2) \<in> set (glf t)" "length ks2 = length vs2" "ks2 \<noteq> []"
      using g(1) cross(2) glf_bal[OF m, of b ks2 vs2] tr by (auto simp: trep_def filled_def)
    have b: "b \<in> set (gaddrs t)" "b \<noteq> gaddr t"
      using gleaves_subset[of t] gleaves_glf[of t] g2(1) leaf_not_root[OF _ g2(1)] tr g(1) cross(2)
      by (force simp: trep_def)+
    obtain k v ks3 vs3 where kv: "ks2 = k # ks3" "vs2 = v # vs3" using g2 by (cases ks2; cases vs2) auto
    have es: "es = (k, v) # zip ks3 vs3 @ concat (map (\<lambda>(a, ks, vs). zip ks vs) ys')" using g(3) cross len kv by simp
    have ld: "case load_next sz junk st d of Inl e \<Rightarrow> e = Blocked \<and> \<not> bte_fits sz st 1
        | Inr (r, st') \<Rightarrow> \<exists>e. r = Some e \<and> bte_loaded sz st t b e st'"
      using load_next_ok[OF ok _ at(1) _ b clk, of ks vs sz junk] g(1) nx cross(2) by simp
    show ?thesis
    proof (cases "load_next sz junk st d")
      case (Inl e)
      then show ?thesis using ld pg g(2) cross(1) by (simp add: bte_index_next_def)
    next
      case (Inr x)
      then obtain e st1 where x: "x = (Some e, st1)" "bte_ok st1 t" "bte_logical st1 = bte_logical st" "bte_at st1 b e"
        using ld by (cases x) (auto simp: bte_loaded_def)
      obtain pg2 n2 where pg2: "bte_heap st1 e = Some pg2" "be_is_leaf pg2" "be_keys pg2 = ks2" "canon (be_data pg2) = vs2"
          "length (be_data pg2) = length ks2"
        using leaf_page[OF x(2) g2(1) x(4)] by metis
      have run: "bte_index_next sz junk st (d, idx) False = Inr (Some (be_data pg2 ! 0), (Some e, 0), st1)"
        using Inr x(1) pg pg2 g(2) cross(1) kv by (simp add: bte_index_next_def)
      have "map (row_dup 0) (be_data pg2 ! 0) = v" using pg2(4,5) kv by (cases "be_data pg2") (auto simp: canon_def)
      moreover have "cursor_at t b 0 (tl es)"
        unfolding cursor_at_def using g(1) es cross(2) kv
        by (intro exI[of _ "xs @ [(a, ks, vs)]"] exI[of _ ks2] exI[of _ vs2] exI[of _ ys']) simp
      ultimately show ?thesis using run es x by auto
    qed
  qed
qed

text \<open>The demo with its first leaf cached as well.\<close>

definition demo_bte2 :: index_bt_enc where
  "demo_bte2 = (case load_child 200 9 demo_bte 0 0 of Inr (_, st) \<Rightarrow> st | _ \<Rightarrow> demo_bte)"

lemma demo_bte2_loaded: "\<exists>d. bte_loaded 200 demo_bte demo_gt 0 d demo_bte2"
proof -
  have at: "bte_at demo_bte 2 0" using bte_root_at[OF demo_bte_ok] by (simp add: demo_gt_def demo_bte_def bte_init_def)
  have clk: "lc_timestamp (bte_cache demo_bte) < UINT64_MAX" by (intro clock_below) (simp add: demo_bte_def bte_init_def lru_init_def)
  have fits: "bte_fits 200 demo_bte 1" by (simp add: bte_fits_def page_max_def demo_bte_def bte_init_def lru_init_def)
  have heap: "bt_heap (bte_outside demo_bte) 2 = Some (demo_node False [5] [] [0, 1] None None 3)" by (simp add: demo_heap)
  have "case load_child 200 9 demo_bte 0 0 of Inl e \<Rightarrow> e = Blocked \<and> \<not> bte_fits 200 demo_bte 1
    | Inr (r, st') \<Rightarrow> \<exists>d. r = Some d \<and> bte_loaded 200 demo_bte demo_gt 0 d st'"
    using load_child_ok[OF demo_bte_ok at heap, of 0 0 200 9] clk by (simp add: demo_node_def demo_gt_def)
  then show ?thesis using fits by (auto simp: demo_bte2_def split: sum.splits)
qed

theorem bte_index_next_logical_witness:
  "\<exists>d. case bte_index_next 200 9 demo_bte2 (d, 0) False of Inl e \<Rightarrow> False
   | Inr (v, _, st') \<Rightarrow> map_option (map (row_dup 0)) v = Some [row_dup 0 demo_row] \<and> bte_logical st' = bte_logical demo_bte"
proof -
  obtain d where l: "bte_ok demo_bte2 demo_gt" "bte_logical demo_bte2 = bte_logical demo_bte" "bte_at demo_bte2 0 d"
      "lc_timestamp (bte_cache demo_bte2) = lc_timestamp (bte_cache demo_bte) + 1" "bte_fits 200 demo_bte 2 \<longrightarrow> bte_fits 200 demo_bte2 1"
    using demo_bte2_loaded by (auto simp: bte_loaded_def numeral_2_eq_2 simp del: One_nat_def)
  have "cursor_at demo_gt 0 0 [(7, [row_dup 0 demo_row])]"
    unfolding cursor_at_def by (intro exI[of _ "[]"] exI[of _ "[1]"] exI[of _ "[[row_dup 0 demo_row]]"]
        exI[of _ "[(1, [7], [[row_dup 0 demo_row]])]"]) (simp add: demo_gt_def)
  moreover have "lc_timestamp (bte_cache demo_bte2) < UINT64_MAX"
    unfolding l(4) by (intro clock_below) (simp add: demo_bte_def bte_init_def lru_init_def)
  moreover have "bte_fits 200 demo_bte 2"
    by (simp add: bte_fits_def page_max_def demo_bte_def bte_init_def lru_init_def)
  ultimately show ?thesis
    using bte_index_next_logical[OF l(1,3), of 0 "[(7, [row_dup 0 demo_row])]" 200 9] l(2,5)
    by (intro exI[of _ d]) (auto split: sum.splits prod.splits)
qed




end
