(* ===== verification/Dl_Detect.thy ===== *)
theory Dl_Detect
  imports Prelude
begin

text \<open>
  The deadlock detector, \<open>DL_detect\<close> (\<open>trusted/concurrency_control/dl_detect.h\<close> and
  \<open>dl_detect.cpp\<close>). Every thread runs one transaction at a time and publishes the transactions
  it waits for; a transaction that has waited long enough searches the waits-for graph depth
  first from itself, and on a cycle marks the transaction on it that holds the fewest locks.

  The model is one search over a fixed graph: the mutex of an entry is held only while the entry
  is copied. A 64-bit transaction id is a \<open>u64\<close>; the invalid id \<open>-1\<close> is the largest one, and the
  comparison with \<open>(SInt32) txnids[n]\<close> sign-extends the low 32 bits. \<open>dl_V\<close> is \<open>g_thread_cnt\<close>,
  which is \<open>THREAD_CNT\<close>. The code asks for \<open>sizeof(bool)\<close> bytes, one, for each of the arrays
  \<open>visited\<close> and \<open>recStack\<close> and then clears \<open>V\<close> entries of them; the number of bytes of the
  arrays is the argument \<open>cells\<close> of \<open>detect_cycle_sized\<close>, an access beyond it is a fault, and
  \<open>detect_cycle\<close> is the function with the code's own size. The fields \<open>onloop\<close> and \<open>loopstart\<close> start
  uninitialised, as the arguments \<open>on\<close> and \<open>start\<close>.
\<close>

section \<open>State\<close>

record DepThd =
  dt_adj :: "u64 list"
  dt_txnid :: u64
  dt_num_locks :: int

record dl_detect =
  dl_V :: nat
  dl_dep :: "nat \<Rightarrow> DepThd"

record DetectData =
  dd_visited :: "nat \<Rightarrow> bool"
  dd_recStack :: "nat \<Rightarrow> bool"
  dd_loop :: bool
  dd_onloop :: bool
  dd_loopstart :: nat
  dd_min_lock_num :: int
  dd_min_txnid :: u64

definition thd_of :: "dl_detect \<Rightarrow> u64 \<Rightarrow> nat" where
  "thd_of dl txnid = unat txnid mod dl_V dl"

section \<open>Operations\<close>

definition dl_init :: "nat \<Rightarrow> (nat \<Rightarrow> u64) \<Rightarrow> (nat \<Rightarrow> int) \<Rightarrow> dl_detect" where
  "dl_init cnt ids locks = \<lparr>dl_V = cnt, dl_dep = (\<lambda>t. \<lparr>dt_adj = [], dt_txnid = ids t, dt_num_locks = locks t\<rparr>)\<rparr>"

definition add_dep :: "bool \<Rightarrow> dl_detect \<Rightarrow> u64 \<Rightarrow> u64 list \<Rightarrow> int \<Rightarrow> dl_detect" where
  "add_dep no_dl dl txnid1 txnids num_locks =
     (if no_dl then dl
      else let thd1 = thd_of dl txnid1 in
        dl\<lparr>dl_dep := (dl_dep dl)(thd1 := (dl_dep dl thd1)\<lparr>dt_txnid := txnid1, dt_num_locks := num_locks,
             dt_adj := dt_adj (dl_dep dl thd1) @ txnids\<rparr>)\<rparr>)"

definition clear_dep :: "bool \<Rightarrow> dl_detect \<Rightarrow> u64 \<Rightarrow> dl_detect" where
  "clear_dep no_dl dl txnid =
     (if no_dl then dl
      else let thd = thd_of dl txnid in
        dl\<lparr>dl_dep := (dl_dep dl)(thd := \<lparr>dt_adj = [], dt_txnid = UINT64_MAX, dt_num_locks = 0\<rparr>)\<rparr>)"

text \<open>
  \<open>nextNode\<close> and the loop over the copied adjacency list, with fuel for the depth of the
  recursion. The loop returns the search data as it is at the \<open>break\<close> or at the end.
\<close>

fun nextNode :: "nat \<Rightarrow> dl_detect \<Rightarrow> u64 \<Rightarrow> DetectData \<Rightarrow> (bool \<times> DetectData) res"
and next_loop :: "nat \<Rightarrow> dl_detect \<Rightarrow> u64 list \<Rightarrow> DetectData \<Rightarrow> DetectData res" where
  "nextNode 0 dl txnid d = Inl Diverges"
| "nextNode (Suc fuel) dl txnid d =
     (let thd = thd_of dl txnid; dep = dl_dep dl thd in
      assert_res (\<not> dd_visited d thd)
        (let d1 = d\<lparr>dd_visited := (dd_visited d)(thd := True), dd_recStack := (dd_recStack d)(thd := True)\<rparr> in
         if dt_txnid dep \<noteq> txnid then Inr (False, d1\<lparr>dd_recStack := (dd_recStack d1)(thd := False)\<rparr>)
         else bind_res (next_loop fuel dl (dt_adj dep) d1) (\<lambda>d2.
           let d3 = d2\<lparr>dd_recStack := (dd_recStack d2)(thd := False)\<rparr>;
               d4 = (if dd_loop d3 \<and> dd_onloop d3 \<and> dt_num_locks dep < dd_min_lock_num d3
                     then d3\<lparr>dd_min_lock_num := dt_num_locks dep, dd_min_txnid := txnid\<rparr> else d3);
               d5 = (if thd = dd_loopstart d4 then d4\<lparr>dd_onloop := False\<rparr> else d4)
           in Inr (dd_loop d5, d5))))"
| "next_loop fuel dl [] d = Inr d"
| "next_loop fuel dl (x # xs) d =
     (let nextthd = thd_of dl x in
      if dd_recStack d nextthd \<and> scast (ucast x :: 32 word) = dt_txnid (dl_dep dl nextthd)
      then Inr (d\<lparr>dd_loop := True, dd_onloop := True, dd_loopstart := nextthd\<rparr>)
      else if \<not> dd_visited d nextthd \<and> dt_txnid (dl_dep dl nextthd) = x
      then bind_res (nextNode fuel dl x d) (\<lambda>(r, d'). if r then Inr d' else next_loop fuel dl xs d')
      else next_loop fuel dl xs d)"

definition detect_start :: "bool \<Rightarrow> nat \<Rightarrow> DetectData" where
  "detect_start on start =
     \<lparr>dd_visited = (\<lambda>_. False), dd_recStack = (\<lambda>_. False), dd_loop = False, dd_onloop = on, dd_loopstart = start,
      dd_min_lock_num = 1000, dd_min_txnid = UINT64_MAX\<rparr>"

text \<open>The loop that clears the arrays \<open>visited\<close> and \<open>recStack\<close>, of \<open>cells\<close> bytes each.\<close>

fun clear_flags :: "nat \<Rightarrow> nat list \<Rightarrow> DetectData \<Rightarrow> DetectData res" where
  "clear_flags cells [] d = Inr d"
| "clear_flags cells (i # is) d =
     (if cells \<le> i then Inl Bounds
      else clear_flags cells is (d\<lparr>dd_visited := (dd_visited d)(i := False), dd_recStack := (dd_recStack d)(i := False)\<rparr>))"

text \<open>
  \<open>detect_cycle\<close>, with the \<open>lock_abort\<close> flags of the threads' transactions: the return value and
  the flags afterwards. A search visits every thread at most once, so fuel \<open>dl_V\<close> is enough.
\<close>

definition detect_cycle_sized ::
  "nat \<Rightarrow> bool \<Rightarrow> bool \<Rightarrow> nat \<Rightarrow> dl_detect \<Rightarrow> u64 \<Rightarrow> (nat \<Rightarrow> bool) \<Rightarrow> (nat \<times> (nat \<Rightarrow> bool)) res" where
  "detect_cycle_sized cells no_dl on start dl txnid lock_abort =
     (if no_dl then Inr (0, lock_abort)
      else bind_res (clear_flags cells [0..<dl_V dl] (detect_start on start)) (\<lambda>d.
        bind_res (nextNode (dl_V dl) dl txnid d) (\<lambda>(deadlock, d).
          if deadlock then
            let t = thd_of dl (dd_min_txnid d) in
            Inr (1, if dt_txnid (dl_dep dl t) = dd_min_txnid d then lock_abort(t := True) else lock_abort)
          else Inr (0, lock_abort))))"


lemma clear_flags_in: "\<forall>i\<in>set is. i < cells \<Longrightarrow> clear_flags cells is (detect_start on start) = Inr (detect_start on start)"
  by (induction "is") (simp_all add: detect_start_def fun_upd_idem)


section \<open>The waits-for graph\<close>

text \<open>A thread waits for another when it has published the id of that thread's current transaction.\<close>

definition waits :: "dl_detect \<Rightarrow> (nat \<times> nat) set" where
  "waits dl = {(t, u). \<exists>y\<in>set (dt_adj (dl_dep dl t)). thd_of dl y = u \<and> dt_txnid (dl_dep dl u) = y}"









section \<open>The search\<close>




















section \<open>The verdict\<close>









text \<open>
  The hypothesis on the ids is needed: the back edge is recognised by a comparison with
  \<open>(SInt32) txnids[n]\<close>, so two transactions with larger ids that wait for each other are missed.
\<close>

definition large_dl :: dl_detect where
  "large_dl = add_dep False (add_dep False (dl_init 2 (\<lambda>_. UINT64_MAX) (\<lambda>_. 0)) 0x80000000 [0x80000001] 1) 0x80000001 [0x80000000] 1"

lemma large_dl_dep:
  "dl_V large_dl = 2" "dl_dep large_dl 0 = \<lparr>dt_adj = [0x80000001], dt_txnid = 0x80000000, dt_num_locks = 1\<rparr>"
  "dl_dep large_dl 1 = \<lparr>dt_adj = [0x80000000], dt_txnid = 0x80000001, dt_num_locks = 1\<rparr>"
  "thd_of large_dl 0x80000000 = 0" "thd_of large_dl 0x80000001 = 1"
  by (simp_all add: large_dl_def add_dep_def dl_init_def thd_of_def)

lemma detect_misses_large_ids:
  "(0, 1) \<in> waits large_dl" "(1, 0) \<in> waits large_dl"
  "detect_cycle_sized 2 False on start large_dl 0x80000000 lock_abort = Inr (0, lock_abort)"
proof -
  have "signed_take_bit 1 (2 :: int) = - 2" by code_simp
  then have sign: "1073741824 * word_of_int (signed_take_bit 1 2) \<noteq> (2147483648 :: u64)" by simp
  show "(0, 1) \<in> waits large_dl" "(1, 0) \<in> waits large_dl" using large_dl_dep by (simp_all add: waits_def)
  have clear: "clear_flags 2 [0..<2] (detect_start on start) = Inr (detect_start on start)" by (rule clear_flags_in) simp
  show "detect_cycle_sized 2 False on start large_dl 0x80000000 lock_abort = Inr (0, lock_abort)"
    unfolding detect_cycle_sized_def large_dl_dep(1) clear if_False bind_res_Inr unfolding numeral_2_eq_2
    by (simp add: large_dl_dep detect_start_def Let_def sign del: One_nat_def)
qed

text \<open>A transaction that has cleared its entry waits for nobody and is waited for by nobody.\<close>

lemma clear_dep_isolates:
  assumes "0 < dl_V dl" "\<forall>t. UINT64_MAX \<notin> set (dt_adj (dl_dep dl t))"
  shows "(thd_of dl x, u) \<notin> waits (clear_dep False dl x)" "(u, thd_of dl x) \<notin> waits (clear_dep False dl x)"
  using assms by (auto simp: waits_def clear_dep_def thd_of_def Let_def split: if_splits)

end
