(* ===== verification/Txn_Log.thy ===== *)
theory Txn_Log
  imports Row_Data Occ
begin

text \<open>
  The transaction log. A transaction that ends writes a log entry in the enclave
  (\<open>txn_man::create_log_entry\<close>, \<open>trusted/system/txn.cpp\<close>, with \<open>LOG_TYPE == LOG_DATA\<close>), which is
  batched for the storage node (\<open>RemoteStorage::send_log\<close>, \<open>untrusted/system/disk.cpp\<close>), taken
  apart there (\<open>RPCThread::run\<close>, \<open>untrusted/system/rpc_thread.cpp\<close>) and replayed into the key-value
  store (\<open>re_ycsb_txn_man::recover_txn\<close>, \<open>untrusted/system/re_ycsb_txn.cpp\<close>).

  Memory is a list of bytes, and \<open>PACK\<close> and \<open>UNPACK\<close> copy numbers least significant byte first.
  \<open>recover_txn\<close> is given the memory from the start of the entry on, which goes on behind the entry:
  the value handed to the store is a \<open>char *\<close> without a length, and the store takes the bytes up to the
  next zero. One \<open>read\<close> of the socket returns one written message.
\<close>

section \<open>Packing\<close>

definition u32_bytes :: "u32 \<Rightarrow> bytes" where
  "u32_bytes v = map (\<lambda>k. ucast (drop_bit (8 * k) v)) [0..<4]"

definition bytes_u32 :: "bytes \<Rightarrow> u32" where
  "bytes_u32 bs = ucast (bytes_u64 bs)"

text \<open>\<open>PACK\<close> at the end of what has been written to a buffer of \<open>max_size\<close> bytes.\<close>

definition pack :: "nat \<Rightarrow> bytes \<Rightarrow> bytes \<Rightarrow> bytes res" where
  "pack max_size buf bs = (if max_size < length buf + length bs then Inl Bounds else Inr (buf @ bs))"

definition unpack :: "nat \<Rightarrow> bytes \<Rightarrow> u32 \<Rightarrow> bytes res" where
  "unpack n buf offset = (if length buf < unat offset + n then Inl Bounds else Inr (take n (drop (unat offset) buf)))"

definition unpack_u32 :: "bytes \<Rightarrow> u32 \<Rightarrow> u32 res" where
  "unpack_u32 buf offset = bind_res (unpack 4 buf offset) (\<lambda>bs. Inr (bytes_u32 bs))"

definition unpack_u64 :: "bytes \<Rightarrow> u32 \<Rightarrow> u64 res" where
  "unpack_u64 buf offset = bind_res (unpack 8 buf offset) (\<lambda>bs. Inr (bytes_u64 bs))"

section \<open>Writing an entry\<close>

datatype idx_struct = IDX_HASH | IDX_BTREE

text \<open>
  What \<open>create_log_entry\<close> reads of an access: its type, the partition and id of the row's page, the
  newest version of the page (hash index only), and the row's offset, key and tuple.
\<close>

record log_access =
  la_type :: access_t
  la_part :: u64
  la_page :: u64
  la_commit_ts :: u64
  la_offset :: u64
  la_key :: u64
  la_tuple_size :: u32
  la_data :: bytes

definition log_record :: "idx_struct \<Rightarrow> log_access \<Rightarrow> bytes" where
  "log_record idx a = u64_bytes (la_part a) @ u64_bytes (la_page a) @
     (if idx = IDX_HASH then u64_bytes (la_commit_ts a) else []) @ u64_bytes (la_offset a) @ u64_bytes (la_key a) @
     u32_bytes (la_tuple_size a) @ take (unat (la_tuple_size a)) (la_data a)"

fun log_records :: "idx_struct \<Rightarrow> nat \<Rightarrow> log_access list \<Rightarrow> bytes \<Rightarrow> u32 \<Rightarrow> (bytes \<times> u32) res" where
  "log_records idx max_size [] buf num_keys = Inr (buf, num_keys)"
| "log_records idx max_size (a # as) buf num_keys =
     (if la_type a \<noteq> WR then log_records idx max_size as buf num_keys
      else assert_res (idx = IDX_HASH \<longrightarrow> la_offset a = 0)
        (if length (la_data a) < unat (la_tuple_size a) then Inl Bounds
         else bind_res (pack max_size buf (log_record idx a)) (\<lambda>buf'.
           log_records idx max_size as buf' (num_keys + 1))))"

definition log_header :: "u32 \<Rightarrow> u32 \<Rightarrow> bytes" where
  "log_header entry_size num_keys = u32_bytes 0xbeef @ u32_bytes entry_size @ u32_bytes num_keys"

definition create_log_entry :: "idx_struct \<Rightarrow> nat \<Rightarrow> log_access list \<Rightarrow> bytes res" where
  "create_log_entry idx max_size accesses =
     bind_res (log_records idx max_size accesses (log_header 0 0) 0) (\<lambda>(buf, num_keys).
       assert_res (length buf < max_size)
         (Inr (log_header (of_nat (length buf)) num_keys @ drop 12 buf)))"

section \<open>Replaying an entry\<close>

text \<open>
  The key of a record in the store, printed into a buffer of 50 characters, and the loop over the
  records. \<open>None\<close>: a record reaches beyond the entry, and nothing of the entry is written.
  \<open>hash_ycsb\<close> is the condition of the compile-time assertion.
\<close>

definition rockskey :: "u64 \<Rightarrow> u64 \<Rightarrow> u64 \<Rightarrow> string" where
  "rockskey part node page_offset = u64_to_string part @ ''_'' @ u64_to_string node @ ''_'' @ u64_to_string page_offset"

definition c_string :: "bytes \<Rightarrow> bytes res" where
  "c_string mem = (if 0 \<in> set mem then Inr (takeWhile (\<lambda>b. b \<noteq> 0) mem) else Inl Bounds)"

fun recover_records :: "bool \<Rightarrow> nat \<Rightarrow> bytes \<Rightarrow> u32 \<Rightarrow> u32 \<Rightarrow> (string \<times> bytes) list \<Rightarrow> (string \<times> bytes) list option res" where
  "recover_records hash_ycsb 0 e entrysize offset batch = Inr (Some batch)"
| "recover_records hash_ycsb (Suc n) e entrysize offset batch =
     bind_res (unpack_u64 e offset) (\<lambda>part_id.
     bind_res (unpack_u64 e (offset + 8)) (\<lambda>node_id.
     bind_res (unpack_u64 e (offset + 16)) (\<lambda>ts.
     bind_res (unpack_u64 e (offset + 24)) (\<lambda>page_offset.
       assert_res (hash_ycsb \<longrightarrow> part_id = 0 \<and> page_offset = 0)
         (if 50 \<le> length (rockskey part_id node_id page_offset) then Inl Bounds
          else bind_res (unpack_u64 e (offset + 32)) (\<lambda>key.
            bind_res (unpack_u32 e (offset + 40)) (\<lambda>data_length.
              let data = offset + 44; offset' = data + data_length in
              if entrysize < offset' then Inr None
              else bind_res (c_string (drop (unat data) e)) (\<lambda>v. recover_records hash_ycsb n e entrysize offset'
                (batch @ [(rockskey part_id node_id page_offset, v)])))))))))"

definition recover_txn :: "bool \<Rightarrow> bytes \<Rightarrow> (string \<times> bytes) list option res" where
  "recover_txn hash_ycsb e =
     bind_res (unpack_u32 e 0) (\<lambda>checksum.
       assert_res (checksum = 0xbeef)
         (bind_res (unpack_u32 e 4) (\<lambda>entrysize.
            bind_res (unpack_u32 e 8) (\<lambda>num_keys.
              recover_records hash_ycsb (unat num_keys) e entrysize 12 []))))"

section \<open>Batching for the storage node\<close>

record remote_storage =
  rs_batch_num :: u32
  rs_buffer :: bytes

definition remote_init :: remote_storage where
  "remote_init = \<lparr>rs_batch_num = 0, rs_buffer = []\<rparr>"

abbreviation LOG_BATCH_SIZE :: u32 where
  "LOG_BATCH_SIZE \<equiv> 10"

abbreviation MAX_LINE :: nat where
  "MAX_LINE \<equiv> 1048576"

definition logs_prefix :: bytes where
  "logs_prefix = [0x4c, 0x4f, 0x47, 0x53]"

text \<open>\<open>send_log\<close>, with what it writes to the socket.\<close>

definition send_log :: "remote_storage \<Rightarrow> bytes \<Rightarrow> (remote_storage \<times> bytes list) res" where
  "send_log rs log_entry =
     (let rs = (if rs_batch_num rs = 0 then rs\<lparr>rs_buffer := logs_prefix @ [0, 0, 0, 0]\<rparr> else rs) in
      if rs_batch_num rs < LOG_BATCH_SIZE
      then bind_res (pack MAX_LINE (rs_buffer rs) (u32_bytes (of_nat (length log_entry)) @ log_entry)) (\<lambda>buf.
        Inr (rs\<lparr>rs_buffer := buf, rs_batch_num := rs_batch_num rs + 1\<rparr>, []))
      else Inr (rs\<lparr>rs_batch_num := 0\<rparr>, [take 4 (rs_buffer rs) @ u32_bytes (rs_batch_num rs) @ drop 8 (rs_buffer rs)]))"

fun send_logs :: "remote_storage \<Rightarrow> bytes list \<Rightarrow> (remote_storage \<times> bytes list) res" where
  "send_logs rs [] = Inr (rs, [])"
| "send_logs rs (e # es) = bind_res (send_log rs e) (\<lambda>(rs1, ms1). bind_res (send_logs rs1 es) (\<lambda>(rs2, ms2). Inr (rs2, ms1 @ ms2)))"

text \<open>The storage node: the entries of a message that starts with \<open>LOGS\<close>.\<close>

fun rpc_entries :: "nat \<Rightarrow> bytes \<Rightarrow> u32 \<Rightarrow> bytes list res" where
  "rpc_entries 0 buff offset = Inr []"
| "rpc_entries (Suc n) buff offset =
     bind_res (unpack_u32 buff offset) (\<lambda>entry_size.
     bind_res (unpack (unat entry_size) buff (offset + 4)) (\<lambda>entry.
     bind_res (rpc_entries n buff (offset + 4 + entry_size)) (\<lambda>es. Inr (entry # es))))"

definition rpc_receive :: "bytes \<Rightarrow> bytes list res" where
  "rpc_receive buff =
     bind_res (unpack 4 buff 0) (\<lambda>prefix.
       if prefix \<noteq> logs_prefix then Inr []
       else bind_res (unpack_u32 buff 4) (\<lambda>batch_size. rpc_entries (unat batch_size) buff 8))"

section \<open>Logging at the end of a transaction\<close>

text \<open>
  \<open>cleanup\<close> under optimistic concurrency control, with the entry it logs. The entry is written
  before the rows are returned, from the rows themselves, whatever the outcome \<open>rc\<close> is. \<open>info\<close>
  is what a row's page and schema contribute.
\<close>

definition occ_log_access :: "(row_ptr \<Rightarrow> log_access) \<Rightarrow> occ_rows \<Rightarrow> access \<Rightarrow> log_access" where
  "occ_log_access info rows a = (info (ac_row a))
     \<lparr>la_type := ac_type a, la_key := or_pkey (rows (ac_row a)), la_data := or_data (rows (ac_row a))\<rparr>"

definition occ_cleanup_log ::
  "idx_struct \<Rightarrow> nat \<Rightarrow> (row_ptr \<Rightarrow> log_access) \<Rightarrow> RC \<Rightarrow> occ_txn \<Rightarrow> occ_rows \<Rightarrow> (bytes \<times> occ_txn \<times> occ_rows) res" where
  "occ_cleanup_log idx max_size info rc txn rows =
     bind_res (create_log_entry idx max_size (map (occ_log_access info rows) (ot_accesses txn))) (\<lambda>e.
       bind_res (occ_cleanup rc txn rows) (\<lambda>(txn', rows'). Inr (e, txn', rows')))"

section \<open>Reading back what was packed\<close>

lemma length_u32_bytes [simp]: "length (u32_bytes v) = 4"
  by (simp add: u32_bytes_def)

lemma bytes_u32_inverse [simp]: "bytes_u32 (u32_bytes v) = v"
proof -
  have high: "32 \<le> m \<Longrightarrow> \<not> bit v (m + n)" for m n using bit_imp_le_length[of v "m + n"] by auto
  have "u64_bytes (ucast v) = u32_bytes v @ [0, 0, 0, 0]"
    by (simp add: u64_bytes_def u32_bytes_def upt_conv_Cons) (auto intro!: bit_word_eqI simp: bit_simps high)
  then have "bytes_u64 (u32_bytes v @ [0, 0, 0, 0]) = ucast v" using bytes_u64_inverse[of "ucast v"] by simp
  then have "bytes_u64 (u32_bytes v) = ucast v" by (simp add: u32_bytes_def upt_conv_Cons)
  moreover have "ucast (ucast v :: u64) = v" by (rule bit_word_eqI) (auto simp: bit_simps dest: bit_imp_le_length)
  ultimately show ?thesis by (simp add: bytes_u32_def)
qed

lemma unpack_at: "unat offset = length pre \<Longrightarrow> length bs = n \<Longrightarrow> unpack n (pre @ bs @ post) offset = Inr bs"
  by (simp add: unpack_def)

lemma length_nat_to_string: "n < 10 ^ Suc k \<Longrightarrow> length (nat_to_string n) \<le> Suc k"
proof (induction k arbitrary: n)
  case (Suc k)
  show ?case
  proof (cases "n < 10")
    case False
    then show ?thesis using Suc.IH[of "n div 10"] Suc.prems by (subst nat_to_string.simps) (simp add: less_mult_imp_div_less)
  qed (subst nat_to_string.simps, simp)
qed (subst nat_to_string.simps, simp)

lemma length_u64_to_string: "length (u64_to_string x) \<le> 20"
proof -
  have "unat x < 2 ^ 64" using unsigned_less[of x] by simp
  then show ?thesis using length_nat_to_string[of "unat x" 19] by (simp add: u64_to_string_def)
qed

lemma length_rockskey: "length (rockskey p n 0) < 50"
  using length_u64_to_string[of p] length_u64_to_string[of n] nat_to_string.simps[of 0]
  by (simp add: rockskey_def u64_to_string_def)

lemma log_records_shape:
  "log_records idx max_size as buf k = Inr (b, n) \<Longrightarrow> length buf \<le> max_size \<Longrightarrow>
   b = buf @ concat (map (log_record idx) (filter (\<lambda>a. la_type a = WR) as)) \<and>
   n = k + of_nat (length (filter (\<lambda>a. la_type a = WR) as)) \<and> length b \<le> max_size \<and>
   (\<forall>a\<in>set as. la_type a = WR \<longrightarrow> unat (la_tuple_size a) \<le> length (la_data a) \<and> (idx = IDX_HASH \<longrightarrow> la_offset a = 0))"
proof (induction as arbitrary: buf k)
  case (Cons a as)
  show ?case
  proof (cases "la_type a = WR")
    case True
    then have a: "idx = IDX_HASH \<longrightarrow> la_offset a = 0" "unat (la_tuple_size a) \<le> length (la_data a)"
        "length (buf @ log_record idx a) \<le> max_size" "log_records idx max_size as (buf @ log_record idx a) (k + 1) = Inr (b, n)"
      using Cons.prems(1) by (auto simp: pack_def assert_res_def split: if_splits)
    show ?thesis using Cons.IH[OF a(4,3)] a True by (auto simp: algebra_simps)
  qed (use Cons.IH[of buf k] Cons.prems in auto)
qed simp

lemma create_log_entry_shape:
  assumes "create_log_entry idx max_size as = Inr e" "12 \<le> max_size" "ws = filter (\<lambda>a. la_type a = WR) as"
  shows "e = log_header (of_nat (length e)) (of_nat (length ws)) @ concat (map (log_record idx) ws)" "length e < max_size"
    "\<forall>a\<in>set ws. unat (la_tuple_size a) \<le> length (la_data a) \<and> (idx = IDX_HASH \<longrightarrow> la_offset a = 0)"
proof -
  obtain b n where b: "log_records idx max_size as (log_header 0 0) 0 = Inr (b, n)" "length b < max_size"
      "e = log_header (of_nat (length b)) n @ drop 12 b"
    using assms(1) by (auto simp: create_log_entry_def res_simps split: prod.splits)
  have h: "length (log_header x y) = 12" for x y by (simp add: log_header_def)
  note sh = log_records_shape[OF b(1)]
  show "e = log_header (of_nat (length e)) (of_nat (length ws)) @ concat (map (log_record idx) ws)" "length e < max_size"
    "\<forall>a\<in>set ws. unat (la_tuple_size a) \<le> length (la_data a) \<and> (idx = IDX_HASH \<longrightarrow> la_offset a = 0)"
    using sh h b(2,3) assms(2,3) by auto
qed

text \<open>The fields that \<open>recover_txn\<close> reads of a record, as blocks of bytes.\<close>

lemma unpack_blocks:
  assumes "unat offset = length pre" "length (pre @ r) < 2 ^ 32"
    and r: "r = a @ b @ c @ d @ k @ l @ data" "length a = 8" "length b = 8" "length c = 8" "length d = 8" "length k = 8" "length l = 4"
  shows "unpack_u64 (pre @ r @ post) offset = Inr (bytes_u64 a)" "unpack_u64 (pre @ r @ post) (offset + 8) = Inr (bytes_u64 b)"
    "unpack_u64 (pre @ r @ post) (offset + 16) = Inr (bytes_u64 c)" "unpack_u64 (pre @ r @ post) (offset + 24) = Inr (bytes_u64 d)"
    "unpack_u64 (pre @ r @ post) (offset + 32) = Inr (bytes_u64 k)" "unpack_u32 (pre @ r @ post) (offset + 40) = Inr (bytes_u32 l)"
    "unat (offset + 44) = length pre + 44" "drop (unat (offset + 44)) (pre @ r @ post) = data @ post"
proof -
  have add: "unat (offset + n) = length pre + unat n" if "unat n \<le> 44" for n
    using assms(1,2) that by (simp add: unat_word_ariths r)
  have at: "unpack m (pre @ r @ post) (offset + n) = Inr (take m (drop (unat n) (r @ post)))" if "unat n \<le> 44" "unat n + m \<le> length r" for m n
    using add[OF that(1)] that by (auto simp: unpack_def)
  show "unpack_u64 (pre @ r @ post) offset = Inr (bytes_u64 a)" "unpack_u64 (pre @ r @ post) (offset + 8) = Inr (bytes_u64 b)"
    "unpack_u64 (pre @ r @ post) (offset + 16) = Inr (bytes_u64 c)" "unpack_u64 (pre @ r @ post) (offset + 24) = Inr (bytes_u64 d)"
    "unpack_u64 (pre @ r @ post) (offset + 32) = Inr (bytes_u64 k)" "unpack_u32 (pre @ r @ post) (offset + 40) = Inr (bytes_u32 l)"
    using at[of 0 8] at[of 8 8] at[of 16 8] at[of 24 8] at[of 32 8] at[of 40 4] r(2-7)
    by (simp_all add: unpack_u64_def unpack_u32_def r(1))
  show len: "unat (offset + 44) = length pre + 44" using add[of 44] by simp
  show "drop (unat (offset + 44)) (pre @ r @ post) = data @ post" by (simp add: len r)
qed

text \<open>
  The value that the store keeps of a record: the tuple up to its first zero byte; a tuple without a
  zero byte is there as a whole, with the bytes that follow it.
\<close>

definition restored :: "bytes \<Rightarrow> bytes \<Rightarrow> bool" where
  "restored tuple v \<longleftrightarrow> (if 0 \<in> set tuple then v = takeWhile (\<lambda>b. b \<noteq> 0) tuple else take (length tuple) v = tuple)"

lemma c_string_restored: "0 \<in> set post \<Longrightarrow> \<exists>v. c_string (tuple @ post) = Inr v \<and> restored tuple v"
  by (cases "0 \<in> set tuple") (auto simp: c_string_def restored_def takeWhile_append)

lemma recover_hash_records:
  assumes "\<forall>a\<in>set ws. unat (la_tuple_size a) \<le> length (la_data a) \<and> la_offset a = 0 \<and> (hash_ycsb \<longrightarrow> la_part a = 0)"
    and "e = pre @ concat (map (log_record IDX_HASH) ws)" "unat offset = length pre" "length e < 2 ^ 32" "0 \<in> set tail"
  shows "\<exists>batch'. recover_records hash_ycsb (length ws) (e @ tail) (of_nat (length e)) offset batch = Inr (Some (batch @ batch')) \<and>
    list_all2 (\<lambda>a (k, d). k = rockskey (la_part a) (la_page a) 0 \<and> restored (take (unat (la_tuple_size a)) (la_data a)) d) ws batch'"
  using assms
proof (induction ws arbitrary: pre offset batch)
  case (Cons a ws)
  let ?sz = "unat (la_tuple_size a)" let ?post = "concat (map (log_record IDX_HASH) ws)"
  let ?r = "log_record IDX_HASH a" let ?o = "offset + 44 + la_tuple_size a"
  let ?k = "rockskey (la_part a) (la_page a) 0"
  have a: "?sz \<le> length (la_data a)" "la_offset a = 0" "hash_ycsb \<longrightarrow> la_part a = 0" using Cons.prems(1) by auto
  have e: "e = pre @ ?r @ ?post" using Cons.prems(2) by simp
  have m: "e @ tail = pre @ ?r @ (?post @ tail)" using e by simp
  have r: "?r = u64_bytes (la_part a) @ u64_bytes (la_page a) @ u64_bytes (la_commit_ts a) @ u64_bytes (la_offset a) @
      u64_bytes (la_key a) @ u32_bytes (la_tuple_size a) @ take ?sz (la_data a)" by (simp add: log_record_def)
  have short: "length (pre @ ?r) < 2 ^ 32" using Cons.prems(4) e by simp
  note f = unpack_blocks(1-6,8)[OF Cons.prems(3) short r, of "?post @ tail", folded m, simplified]
  have o44: "unat (offset + 44) = length pre + 44" using unpack_blocks(7)[OF Cons.prems(3) short r] by simp
  have len: "length ?r = 44 + ?sz" using a(1) r by simp
  have o: "unat ?o = length (pre @ ?r)"
    using o44 Cons.prems(4) len by (simp add: unat_word_ariths e)
  have "unat (of_nat (length e) :: u32) = length e" using Cons.prems(4) by (simp add: unat_of_nat_lt)
  then have fits: "\<not> of_nat (length e) < ?o" using o len by (simp add: word_less_nat_alt e)
  obtain v where v: "c_string (drop (unat (offset + 44)) (e @ tail)) = Inr v" "restored (take ?sz (la_data a)) v"
    using c_string_restored[of "?post @ tail" "take ?sz (la_data a)"] Cons.prems(5) f(7) by auto
  obtain batch' where IH: "recover_records hash_ycsb (length ws) (e @ tail) (of_nat (length e)) ?o (batch @ [(?k, v)]) =
      Inr (Some ((batch @ [(?k, v)]) @ batch'))"
    "list_all2 (\<lambda>a (k, d). k = rockskey (la_part a) (la_page a) 0 \<and> restored (take (unat (la_tuple_size a)) (la_data a)) d) ws batch'"
    using Cons.IH[of "pre @ ?r" ?o "batch @ [(?k, v)]"] Cons.prems(1,4,5) o e by auto
  have "recover_records hash_ycsb (length (a # ws)) (e @ tail) (of_nat (length e)) offset batch =
      recover_records hash_ycsb (length ws) (e @ tail) (of_nat (length e)) ?o (batch @ [(?k, v)])"
    using f(1-6) a(2,3) fits v(1) length_rockskey[of "la_part a" "la_page a"] by (simp add: Let_def)
  then have "recover_records hash_ycsb (length (a # ws)) (e @ tail) (of_nat (length e)) offset batch =
      Inr (Some (batch @ (?k, v) # batch'))" using IH(1) by simp
  then show ?case
    using IH(2) v(2) by (intro exI[of _ "(?k, v) # batch'"]) (simp del: recover_records.simps)
qed simp

lemma length_records: "length ws \<le> length (concat (map (log_record idx) ws))"
  by (induction ws) (auto simp: log_record_def)

lemma unpack_header:
  assumes "e = log_header s n @ rest"
  shows "unpack_u32 (e @ tail) 0 = Inr 0xbeef" "unpack_u32 (e @ tail) 4 = Inr s" "unpack_u32 (e @ tail) 8 = Inr n"
  unfolding assms using unpack_at[of 0 "[]" "u32_bytes 0xbeef"] unpack_at[of 4 "u32_bytes 0xbeef" "u32_bytes s"]
    unpack_at[of 8 "u32_bytes 0xbeef @ u32_bytes s" "u32_bytes n"]
  by (simp_all add: unpack_u32_def log_header_def)

text \<open>
  C26: Replaying a log entry of the hash index, read from memory in which a zero byte follows it:
  whatever the accesses, an entry that \<open>create_log_entry\<close> produces within a buffer of less than
  \<open>2 ^ 32\<close> bytes is accepted by \<open>recover_txn\<close>, which puts one value per written row, in order, under
  the key made of its partition and page. The value is the row's tuple up to its first zero
  byte, or, for a tuple without zero bytes, the whole tuple and the bytes that happen to
  follow it. (With the assertion for YCSB compiled in, the written rows have to be in partition 0.)
\<close>

theorem hash_log_roundtrip:
  assumes "create_log_entry IDX_HASH max_size accesses = Inr e" "12 \<le> max_size" "max_size < 2 ^ 32"
    and "hash_ycsb \<longrightarrow> (\<forall>a\<in>set accesses. la_part a = 0)" "0 \<in> set tail"
  shows "\<exists>batch. recover_txn hash_ycsb (e @ tail) = Inr (Some batch) \<and>
    list_all2 (\<lambda>a (k, d). k = rockskey (la_part a) (la_page a) 0 \<and>
      (let tuple = take (unat (la_tuple_size a)) (la_data a) in
       if 0 \<in> set tuple then d = takeWhile (\<lambda>b. b \<noteq> 0) tuple else take (length tuple) d = tuple))
      (filter (\<lambda>a. la_type a = WR) accesses) batch"
proof -
  let ?ws = "filter (\<lambda>a. la_type a = WR) accesses"
  note sh = create_log_entry_shape[OF assms(1,2) refl]
  obtain s n where s: "s = (of_nat (length e) :: u32)" "n = (of_nat (length ?ws) :: u32)" by blast
  have e: "e = log_header s n @ concat (map (log_record IDX_HASH) ?ws)" using sh(1) unfolding s .
  have len: "length e < 2 ^ 32" using sh(2) assms(3) by simp
  have h: "length (log_header s n) = 12" by (simp add: log_header_def)
  have "length ?ws < 2 ^ 32" using len length_records[of ?ws IDX_HASH] arg_cong[OF e, of length] by simp
  then have n: "unat n = length ?ws" unfolding s by (simp add: unat_of_nat_lt)
  have "\<forall>a\<in>set ?ws. unat (la_tuple_size a) \<le> length (la_data a) \<and> la_offset a = 0 \<and> (hash_ycsb \<longrightarrow> la_part a = 0)"
    using sh(3) assms(4) by auto
  then show ?thesis
    using recover_hash_records[OF _ e _ len assms(5), of hash_ycsb 12 "[]"] unpack_header[OF e, of tail] h n s(1)
    by (simp add: recover_txn_def restored_def Let_def)
qed

definition log_demo :: log_access where
  "log_demo = \<lparr>la_type = WR, la_part = 0, la_page = 7, la_commit_ts = 3, la_offset = 0, la_key = 42,
    la_tuple_size = 10, la_data = [1, 2, 3, 4, 5, 6, 7, 8, 9, 10, 11]\<rparr>"

lemma log_demo_entry:
  "isl (create_log_entry IDX_HASH 16384 [log_demo, log_demo\<lparr>la_type := RD\<rparr>]) = False"
  "isl (create_log_entry IDX_BTREE 16384 [log_demo]) = False"
  by (simp_all add: create_log_entry_def log_demo_def pack_def log_header_def log_record_def)

theorem hash_log_roundtrip_witness:
  "\<exists>e v. create_log_entry IDX_HASH 16384 [log_demo, log_demo\<lparr>la_type := RD\<rparr>] = Inr e \<and>
    recover_txn True (e @ [7, 0, 5]) = Inr (Some [(rockskey 0 7 0, v)]) \<and> take 10 v = [1, 2, 3, 4, 5, 6, 7, 8, 9, 10]"
proof -
  obtain e where e: "create_log_entry IDX_HASH 16384 [log_demo, log_demo\<lparr>la_type := RD\<rparr>] = Inr e"
    using log_demo_entry(1) by (cases "create_log_entry IDX_HASH 16384 [log_demo, log_demo\<lparr>la_type := RD\<rparr>]") auto
  have t: "take 10 v = [1, 2, 3, 4, 5, 6, 7, 8, 9, 10]" if "take (Suc (Suc (Suc (Suc (Suc (Suc (Suc (Suc (Suc (Suc 0)))))))))) v = [1, 2, 3, 4, 5, 6, 7, 8, 9, 10]" for v :: bytes
    using that by (simp only: eval_nat_numeral BitM.simps)
  show ?thesis using hash_log_roundtrip[OF e, of True "[7, 0, 5]"] e
    by (auto simp: log_demo_def list_all2_Cons1 intro: t)
qed

section \<open>The B+tree format\<close>

text \<open>
   Replaying a log entry of the B+tree, the configured index, does not restore it:
  \<open>create_log_entry\<close> writes no timestamp there, but \<open>recover_txn\<close> always reads one. For one written
  row with a tuple of at least eight bytes, the replay either overruns its key buffer, or writes
  nothing, or puts a value that starts at the ninth byte of the tuple (and ends at the next zero byte)
  under a key in which the row's primary key stands in the place of its offset in the page.
\<close>

theorem btree_log_misread:
  assumes "create_log_entry IDX_BTREE max_size [a] = Inr e" "la_type a = WR" "8 \<le> unat (la_tuple_size a)"
    "12 \<le> max_size" "max_size < 2 ^ 32"
  shows "recover_txn False (e @ tail) \<in> {Inl Bounds, Inr None, Inr (Some [(rockskey (la_part a) (la_page a) (la_key a),
    takeWhile (\<lambda>b. b \<noteq> 0) (drop 8 (take (unat (la_tuple_size a)) (la_data a)) @ tail))])}"
proof -
  note sh = create_log_entry_shape[OF assms(1,4) refl]
  let ?d = "take (unat (la_tuple_size a)) (la_data a)"
  obtain s where s: "s = (of_nat (length e) :: u32)" by blast
  have e: "e = log_header s 1 @ log_record IDX_BTREE a" using sh(1) assms(2) unfolding s by simp
  have len: "length e < 2 ^ 32" using sh(2) assms(5) by simp
  let ?x = "take 4 ?d" let ?y = "take 4 (drop 4 ?d)" let ?z = "drop 8 ?d"
  have d: "length ?d \<ge> 8" using sh(3) assms(2,3) by simp
  then have fours: "min (min (length (la_data a)) (unat (la_tuple_size a)) - 4) 4 = 4" by (auto simp: min_def)
  have split: "?d = ?x @ ?y @ ?z" by (metis append_take_drop_id drop_drop numeral_Bit0)
  have r: "log_record IDX_BTREE a = u64_bytes (la_part a) @ u64_bytes (la_page a) @ u64_bytes (la_offset a) @ u64_bytes (la_key a) @
      (u32_bytes (la_tuple_size a) @ ?x) @ ?y @ ?z"
    using split by (simp add: log_record_def)
  have h: "unat (12 :: u32) = length (log_header s 1)" by (simp add: log_header_def)
  have len': "length (log_header s 1 @ log_record IDX_BTREE a) < 2 ^ 32" using len e by simp
  let ?m = "e @ tail"
  have m: "?m = log_header s 1 @ log_record IDX_BTREE a @ tail" using e by simp
  note f = unpack_blocks(1-6)[OF h len' r, of tail, folded m] unpack_blocks(7)[OF h len' r] unpack_blocks(8)[OF h len' r, of tail, folded m]
  have run: "recover_txn False ?m = recover_records False (Suc 0) ?m s 12 []"
    using unpack_header[OF e] by (simp add: recover_txn_def)
  have g: "unpack_u64 ?m 12 = Inr (la_part a)" "unpack_u64 ?m 20 = Inr (la_page a)" "unpack_u64 ?m 28 = Inr (la_offset a)"
    "unpack_u64 ?m 36 = Inr (la_key a)" "\<exists>k. unpack_u64 ?m 44 = Inr k" "\<exists>l. unpack_u32 ?m 52 = Inr l" "drop 56 ?m = ?z @ tail"
    using f d fours by simp_all
  then obtain k l where kl: "unpack_u64 ?m 44 = Inr k" "unpack_u32 ?m 52 = Inr l" by blast
  show ?thesis
    by (cases "50 \<le> length (rockskey (la_part a) (la_page a) (la_key a))"; cases "s < 56 + l"; cases "0 \<in> set (?z @ tail)")
      (simp_all add: run Let_def g kl c_string_def del: drop_append)
qed

theorem btree_log_misread_witness:
  "\<exists>e. create_log_entry IDX_BTREE 16384 [log_demo] = Inr e \<and>
    recover_txn False (e @ [0]) \<in> {Inl Bounds, Inr None, Inr (Some [(rockskey 0 7 42, [9, 10])])}"
proof -
  obtain e where e: "create_log_entry IDX_BTREE 16384 [log_demo] = Inr e"
    using log_demo_entry(2) by (cases "create_log_entry IDX_BTREE 16384 [log_demo]") auto
  show ?thesis using btree_log_misread[OF e, of "[0]"] e by (simp add: log_demo_def)
qed

section \<open>What reaches the storage node\<close>

definition framed :: "bytes \<Rightarrow> bytes" where
  "framed e = u32_bytes (of_nat (length e)) @ e"

lemma length_framed [simp]: "length (framed e) = 4 + length e"
  by (simp add: framed_def)

lemma rpc_entries_framed:
  assumes "unat offset = length pre" "length (pre @ concat (map framed gs)) < 2 ^ 32"
  shows "rpc_entries (length gs) (pre @ concat (map framed gs)) offset = Inr gs"
  using assms
proof (induction gs arbitrary: pre offset)
  case (Cons e gs)
  let ?post = "concat (map framed gs)" let ?b = "pre @ concat (map framed (e # gs))"
  have n: "unat (of_nat (length e) :: u32) = length e" using Cons.prems(2) by (simp add: unat_of_nat_lt)
  have o4: "unat (offset + 4) = length pre + 4" using Cons.prems by (simp add: unat_word_ariths)
  have o: "unat (offset + 4 + of_nat (length e)) = length (pre @ framed e)"
    using o4 n Cons.prems(2) by (simp add: unat_word_ariths)
  have "unpack_u32 ?b offset = Inr (of_nat (length e))"
    using unpack_at[OF Cons.prems(1), of "u32_bytes (of_nat (length e))" 4 "e @ ?post"] by (simp add: unpack_u32_def framed_def)
  moreover have "unpack (length e) ?b (offset + 4) = Inr e"
    using unpack_at[of "offset + 4" "pre @ u32_bytes (of_nat (length e))" e "length e" ?post] o4 by (simp add: framed_def)
  moreover have "rpc_entries (length gs) ?b (offset + 4 + of_nat (length e)) = Inr gs"
    using Cons.IH[OF o] Cons.prems(2) by simp
  ultimately show ?case using n by simp
qed simp

text \<open>The group of entries that a sender has buffered.\<close>

definition buffered :: "remote_storage \<Rightarrow> bytes list \<Rightarrow> bool" where
  "buffered rs gs \<longleftrightarrow> rs_batch_num rs = of_nat (length gs) \<and>
     (gs \<noteq> [] \<longrightarrow> rs_buffer rs = logs_prefix @ [0, 0, 0, 0] @ concat (map framed gs))"

lemma length_group: "\<forall>e\<in>set gs. length e \<le> m \<Longrightarrow> length (concat (map framed gs)) \<le> length gs * (4 + m)"
  by (induction gs) auto

lemma send_log_buffers:
  assumes "buffered rs gs" "length gs < 10" "\<forall>e\<in>set (gs @ [e]). length e \<le> 16384"
  shows "\<exists>rs'. send_log rs e = Inr (rs', []) \<and> buffered rs' (gs @ [e])"
proof -
  have "length (concat (map framed gs)) \<le> 9 * (4 + 16384)"
    using length_group[of gs 16384] assms(2,3) mult_le_mono1[of "length gs" 9 "4 + 16384"] by simp
  moreover have "of_nat (length gs) < (10 :: u32)" using assms(2) by (simp add: word_less_nat_alt unat_of_nat_lt)
  moreover have "of_nat (length gs) = (0 :: u32) \<longleftrightarrow> gs = []"
    using assms(2) unat_of_nat_lt[of "length gs", where 'a = 32] by (auto simp: unat_eq_zero)
  ultimately show ?thesis
    using assms(1,3) by (cases "gs = []") (auto simp: send_log_def buffered_def pack_def logs_prefix_def framed_def Let_def)
qed

lemma send_log_sends:
  assumes "buffered rs gs" "length gs = 10"
  shows "\<exists>rs'. send_log rs e = Inr (rs', [logs_prefix @ u32_bytes 10 @ concat (map framed gs)]) \<and> buffered rs' []"
  using assms by (auto simp: send_log_def buffered_def logs_prefix_def)

lemma rpc_receive_group:
  assumes "length gs = 10" "\<forall>e\<in>set gs. length e \<le> 16384"
  shows "rpc_receive (logs_prefix @ u32_bytes 10 @ concat (map framed gs)) = Inr gs"
proof -
  let ?m = "logs_prefix @ u32_bytes 10 @ concat (map framed gs)"
  have "length ?m < 2 ^ 32" using length_group[OF assms(2)] assms(1) by (simp add: logs_prefix_def)
  then have "rpc_entries 10 ?m 8 = Inr gs"
    using rpc_entries_framed[of 8 "logs_prefix @ u32_bytes 10" gs] assms(1) by (simp add: logs_prefix_def)
  moreover have "unpack 4 ?m 0 = Inr logs_prefix" "unpack_u32 ?m 4 = Inr 10"
    using unpack_at[of 0 "[]" logs_prefix 4] unpack_at[of 4 logs_prefix "u32_bytes 10" 4]
    by (simp_all add: unpack_u32_def logs_prefix_def)
  ultimately show ?thesis by (simp add: rpc_receive_def)
qed

text \<open>The batches of entries that arrive when \<open>es\<close> are sent one after the other.\<close>

fun delivered :: "bytes list \<Rightarrow> bytes list list" where
  "delivered es = (if 10 < length es then take 10 es # delivered (drop 11 es) else [])"

lemma send_logs_delivered:
  "buffered rs gs \<Longrightarrow> length gs \<le> 10 \<Longrightarrow> \<forall>e\<in>set (gs @ es). length e \<le> 16384 \<Longrightarrow>
   \<exists>rs' ms. send_logs rs es = Inr (rs', ms) \<and> map rpc_receive ms = map Inr (delivered (gs @ es))"
proof (induction es arbitrary: rs gs)
  case (Cons e es)
  show ?case
  proof (cases "length gs < 10")
    case True
    obtain rs' where rs': "send_log rs e = Inr (rs', [])" "buffered rs' (gs @ [e])"
      using send_log_buffers[OF Cons.prems(1) True] Cons.prems(3) by auto
    show ?thesis using Cons.IH[OF rs'(2)] True Cons.prems(3) rs'(1) by (auto simp del: delivered.simps)
  next
    case False
    then have ten: "length gs = 10" using Cons.prems(2) by simp
    obtain rs' where rs': "send_log rs e = Inr (rs', [logs_prefix @ u32_bytes 10 @ concat (map framed gs)])" "buffered rs' []"
      using send_log_sends[OF Cons.prems(1) ten] by blast
    have "delivered (gs @ e # es) = gs # delivered es" using ten by simp
    then show ?thesis
      using Cons.IH[OF rs'(2)] Cons.prems(3) rs'(1) rpc_receive_group[OF ten] by (auto simp del: delivered.simps)
  qed
qed simp

text \<open>
   Of the entries that are sent, every eleventh is lost. Entries of at most the configured
  maximum size never overrun the buffer or fail; the first ten of every eleven reach the storage
  node, unchanged, in order and in one batch, when the eleventh is handed to \<open>send_log\<close>, which
  transmits the full buffer and forgets that entry; an incomplete group at the end stays in the
  buffer.
\<close>

theorem send_log_loses_eleventh:
  assumes "\<forall>e\<in>set es. length e \<le> 16384"
  shows "\<exists>rs ms. send_logs remote_init es = Inr (rs, ms) \<and> map rpc_receive ms = map Inr (delivered es)"
  using send_logs_delivered[of remote_init "[]" es] assms by (simp add: buffered_def remote_init_def del: delivered.simps)

theorem send_log_loses_eleventh_witness:
  "\<exists>rs ms. send_logs remote_init (map (\<lambda>k. [of_nat k]) [0..<24]) = Inr (rs, ms) \<and>
    map rpc_receive ms = [Inr (map (\<lambda>k. [of_nat k]) [0..<10]), Inr (map (\<lambda>k. [of_nat k]) [11..<21])]"
  using send_log_loses_eleventh[of "map (\<lambda>k. [of_nat k]) [0..<24]"] by (simp add: upt_conv_Cons)

section \<open>The logged images\<close>

text \<open>
  C27: The entry that a transaction logs when it ends holds the rows as they were before the
  transaction, since \<open>cleanup\<close> writes the entry before it returns the rows. Under optimistic concurrency
  control and for either index, the entry is the header, with the length of the entry and
  the number of writes, followed by one record per write, in order, with the key and the tuple that
  the row has before the write-back. The outcome does not enter: a transaction that commits and one
  that aborts log the same entry.
\<close>

theorem occ_log_before_images:
  assumes "occ_cleanup_log idx max_size info rc txn rows = Inr (e, txn', rows')" "12 \<le> max_size"
  defines "ws \<equiv> filter (\<lambda>a. ac_type a = WR) (ot_accesses txn)"
  shows "e = log_header (of_nat (length e)) (of_nat (length ws)) @
      concat (map (\<lambda>a. log_record idx ((info (ac_row a))\<lparr>la_type := WR, la_key := or_pkey (rows (ac_row a)), la_data := or_data (rows (ac_row a))\<rparr>)) ws) \<and>
    length e < max_size \<and> (\<forall>a\<in>set ws. unat (la_tuple_size (info (ac_row a))) \<le> length (or_data (rows (ac_row a)))) \<and>
    (\<forall>rc' e' txn'' rows''. occ_cleanup_log idx max_size info rc' txn rows = Inr (e', txn'', rows'') \<longrightarrow> e' = e)"
proof -
  have e: "create_log_entry idx max_size (map (occ_log_access info rows) (ot_accesses txn)) = Inr e"
    using assms(1) by (auto simp: occ_cleanup_log_def res_simps)
  have ws: "filter (\<lambda>a. la_type a = WR) (map (occ_log_access info rows) (ot_accesses txn)) = map (occ_log_access info rows) ws"
    by (simp add: filter_map o_def occ_log_access_def ws_def)
  have rec: "map (log_record idx) (map (occ_log_access info rows) ws) =
      map (\<lambda>a. log_record idx ((info (ac_row a))\<lparr>la_type := WR, la_key := or_pkey (rows (ac_row a)), la_data := or_data (rows (ac_row a))\<rparr>)) ws"
    by (simp add: ws_def occ_log_access_def)
  note sh = create_log_entry_shape[OF e assms(2) refl, unfolded ws, unfolded rec length_map]
  show ?thesis
    using sh e by (auto simp: occ_cleanup_log_def res_simps occ_log_access_def)
qed

definition log_demo_rows :: occ_rows where
  "log_demo_rows r = \<lparr>or_table = ''T'', or_pkey = 42, or_data = [1, 2, 3, 4], or_wts = 1, or_latch = None\<rparr>"

definition log_demo_txn :: occ_txn where
  "log_demo_txn = \<lparr>ot_start_ts = 2, ot_end_ts = 3, ot_accesses = [\<lparr>ac_type = WR, ac_row = 0, ac_data = [5, 6, 7, 8]\<rparr>]\<rparr>"

lemma log_demo_cleanup:
  "\<exists>e txn' rows'. occ_cleanup_log IDX_BTREE 16384 (\<lambda>_. log_demo\<lparr>la_tuple_size := 4\<rparr>) RCOK log_demo_txn log_demo_rows = Inr (e, txn', rows') \<and>
     or_data (rows' 0) = [5, 6, 7, 8]"
  by (simp add: occ_cleanup_log_def create_log_entry_def occ_cleanup_def occ_return_row_def row_occ_write_def occ_log_access_def
      log_demo_txn_def log_demo_rows_def log_demo_def pack_def log_header_def log_record_def)

theorem occ_log_before_images_witness:
  "\<exists>e txn' rows'. occ_cleanup_log IDX_BTREE 16384 (\<lambda>_. log_demo\<lparr>la_tuple_size := 4\<rparr>) RCOK log_demo_txn log_demo_rows = Inr (e, txn', rows') \<and>
     or_data (rows' 0) = [5, 6, 7, 8] \<and> drop 48 e = [1, 2, 3, 4]"
proof -
  let ?info = "\<lambda>_ :: row_ptr. log_demo\<lparr>la_tuple_size := 4\<rparr>"
  obtain e txn' rows' where e: "occ_cleanup_log IDX_BTREE 16384 ?info RCOK log_demo_txn log_demo_rows = Inr (e, txn', rows')"
      "or_data (rows' 0) = [5, 6, 7, 8]" using log_demo_cleanup by blast
  let ?r = "\<lambda>a. log_record IDX_BTREE ((?info (ac_row a))\<lparr>la_type := WR, la_key := or_pkey (log_demo_rows (ac_row a)),
    la_data := or_data (log_demo_rows (ac_row a))\<rparr>)"
  have "e = log_header (of_nat (length e)) 1 @ concat (map ?r (ot_accesses log_demo_txn))"
    using occ_log_before_images[OF e(1)] by (simp add: log_demo_txn_def)
  then have "drop 48 e = drop 48 (log_header (of_nat (length e)) 1 @ concat (map ?r (ot_accesses log_demo_txn)))" by (rule arg_cong)
  also have "\<dots> = [1, 2, 3, 4]" by (simp add: log_demo_def log_demo_txn_def log_demo_rows_def log_header_def log_record_def)
  finally show ?thesis using e by blast
qed

end
