(* ===== verification/Log_Buffer.thy ===== *)
theory Log_Buffer
  imports Txn_Log
begin

text \<open>
  The log buffer of the untrusted side, \<open>untrusted/system/logger.cpp\<close> with \<open>log_thread.cpp\<close>: worker
  threads reserve a range of the log (\<open>_lsn\<close>), copy their entry into a circular buffer and publish
  that they are done (\<open>_filled_lsn\<close>); the log thread writes the completed front of the log to the
  file.

  First come the operations as the source has them. Then their memory accesses are the steps of any
  number of worker threads and of the log thread, which interleave freely: the room check, the read
  of \<open>_lsn\<close> and its publication in \<open>_allocate_lsn\<close>, the reservation (one step if it is atomic, two
  if not), the copy, the transmission and the publication of \<open>_filled_lsn\<close>; the read of \<open>_lsn\<close>,
  the two reads per worker, the writes to the file and the update of \<open>_persistent_lsn\<close>.

  Log positions are natural numbers: additions are far below \<open>2 ^ 64\<close>, and the subtractions that
  can be negative wrap explicitly. The flush interval is \<open>UINT64_MAX\<close>, so the clock never makes a
  flush due. A \<open>write\<close> to the file writes all the bytes it is given.

  Shown: with an atomic reservation the file is at all times a front of the log, with no byte of an
  unfinished entry and none overwritten before it is written out; with the reservation used under
  optimistic concurrency control two threads can reserve the same range; and the publication of
  \<open>_allocate_lsn\<close> can bring the log thread to its failing assertion.
\<close>

section \<open>Data\<close>

record log_cfg =
  lc_buffer_size :: nat
  lc_max_entry :: nat
  lc_thread_cnt :: nat
  lc_num_logger :: nat
  lc_logger_id :: nat
  lc_flush_block :: nat

record logger =
  lg_lsn :: nat
  lg_persistent :: nat
  lg_filled :: "nat \<Rightarrow> nat"
  lg_allocate :: "nat \<Rightarrow> nat"
  lg_buffer :: bytes
  lg_remote :: remote_storage
  lg_net :: "bytes list"
  lg_fd_data :: bytes
  lg_fd :: "nat list"

text \<open>Unsigned 64-bit subtraction of positions.\<close>

definition sub64 :: "nat \<Rightarrow> nat \<Rightarrow> nat" where
  "sub64 a b = (if b \<le> a then (a - b) mod 2 ^ 64 else 2 ^ 64 - (b - a) mod 2 ^ 64)"

definition logger_init :: "log_cfg \<Rightarrow> bytes \<Rightarrow> logger" where
  "logger_init cfg junk = \<lparr>lg_lsn = 0, lg_persistent = 0, lg_filled = (\<lambda>_. 0), lg_allocate = (\<lambda>_. 2 ^ 64 - 1),
     lg_buffer = take (lc_buffer_size cfg + lc_max_entry cfg) (junk @ replicate (lc_buffer_size cfg + lc_max_entry cfg) 0),
     lg_remote = remote_init, lg_net = [], lg_fd_data = [], lg_fd = [0]\<rparr>"

section \<open>Appending an entry\<close>

definition log_full :: "log_cfg \<Rightarrow> logger \<Rightarrow> nat \<Rightarrow> bool" where
  "log_full cfg lg n \<longleftrightarrow>
     lg_persistent lg + lc_buffer_size cfg - lc_max_entry cfg * lc_thread_cnt cfg div lc_num_logger cfg \<le> lg_lsn lg + n"

definition size_aligned :: "nat \<Rightarrow> nat" where
  "size_aligned n = (if n mod 64 = 0 then n else n + 64 - n mod 64)"

definition announces :: "bytes \<Rightarrow> bool" where
  "announces log_entry \<longleftrightarrow> hd log_entry \<noteq> 0x7f"

text \<open>\<open>memcpy\<close> into and out of the buffer.\<close>

definition buf_put :: "bytes \<Rightarrow> nat \<Rightarrow> bytes \<Rightarrow> bytes res" where
  "buf_put buf off bs = (if length buf < off + length bs then Inl Bounds else Inr (take off buf @ bs @ drop (off + length bs) buf))"

definition buf_get :: "bytes \<Rightarrow> nat \<Rightarrow> nat \<Rightarrow> bytes res" where
  "buf_get buf off n = (if length buf < off + n then Inl Bounds else Inr (take n (drop off buf)))"

definition log_copy :: "log_cfg \<Rightarrow> nat \<Rightarrow> bytes \<Rightarrow> logger \<Rightarrow> logger res" where
  "log_copy cfg lsn log_entry lg =
     (let n = lc_buffer_size cfg in
      bind_res (if lsn div n < (lsn + length log_entry) div n
        then let tail_size = n - lsn mod n in
          bind_res (buf_put (lg_buffer lg) (lsn mod n) (take tail_size log_entry)) (\<lambda>buf. buf_put buf 0 (drop tail_size log_entry))
        else buf_put (lg_buffer lg) (lsn mod n) log_entry)
      (\<lambda>buf. Inr (lg\<lparr>lg_buffer := buf\<rparr>)))"

definition log_send :: "bytes \<Rightarrow> logger \<Rightarrow> logger res" where
  "log_send log_entry lg = bind_res (send_log (lg_remote lg) log_entry) (\<lambda>(rs, ms). Inr (lg\<lparr>lg_remote := rs, lg_net := lg_net lg @ ms\<rparr>))"

text \<open>\<open>logTxn\<close>; \<open>None\<close> is the result \<open>-1\<close>. Run by one thread alone, \<open>sync\<close> makes no difference.\<close>

definition logTxn :: "log_cfg \<Rightarrow> nat \<Rightarrow> bytes \<Rightarrow> logger \<Rightarrow> (nat option \<times> logger) res" where
  "logTxn cfg thd_id log_entry lg =
     (if log_full cfg lg (length log_entry) then Inr (None, lg)
      else let lg1 = (if announces log_entry then lg\<lparr>lg_allocate := (lg_allocate lg)(thd_id := lg_lsn lg)\<rparr> else lg);
               lsn = lg_lsn lg1;
               lg2 = lg1\<lparr>lg_lsn := lsn + size_aligned (length log_entry)\<rparr> in
        bind_res (log_copy cfg lsn log_entry lg2) (\<lambda>lg3. bind_res (log_send log_entry lg3) (\<lambda>lg4.
          Inr (Some (lsn + length log_entry), lg4\<lparr>lg_filled := (lg_filled lg4)(thd_id := lsn + size_aligned (length log_entry))\<rparr>))))"

section \<open>Flushing\<close>

text \<open>The workers a logger is responsible for, and the largest position that is complete.\<close>

definition scan_ids :: "log_cfg \<Rightarrow> nat list" where
  "scan_ids cfg = filter (\<lambda>i. lc_logger_id cfg \<le> i \<and> (i - lc_logger_id cfg) mod lc_num_logger cfg = 0) [0..<lc_thread_cnt cfg]"

definition lower_ready :: "nat \<Rightarrow> nat \<Rightarrow> nat \<Rightarrow> nat" where
  "lower_ready ready_lsn filledLSN allocateLSN = (if filledLSN \<le> allocateLSN \<and> allocateLSN < ready_lsn then allocateLSN else ready_lsn)"

fun scan_ready :: "logger \<Rightarrow> nat list \<Rightarrow> nat \<Rightarrow> nat" where
  "scan_ready lg [] ready_lsn = ready_lsn"
| "scan_ready lg (i # is) ready_lsn = scan_ready lg is (lower_ready ready_lsn (lg_filled lg i) (lg_allocate lg i))"

definition log_flush :: "log_cfg \<Rightarrow> nat \<Rightarrow> nat \<Rightarrow> logger \<Rightarrow> logger res" where
  "log_flush cfg start_lsn end_lsn lg =
     (if start_lsn = end_lsn then Inr lg
      else let n = lc_buffer_size cfg in assert_res (sub64 end_lsn start_lsn < n)
       (if start_lsn div n < end_lsn div n
        then bind_res (buf_get (lg_buffer lg) (start_lsn mod n) (n - start_lsn mod n)) (\<lambda>bs1.
             bind_res (buf_get (lg_buffer lg) 0 (end_lsn mod n)) (\<lambda>bs2. Inr (lg\<lparr>lg_fd_data := lg_fd_data lg @ bs1 @ bs2\<rparr>)))
        else bind_res (buf_get (lg_buffer lg) (start_lsn mod n) (sub64 end_lsn start_lsn)) (\<lambda>bs.
             Inr (lg\<lparr>lg_fd_data := lg_fd_data lg @ bs\<rparr>))))"

text \<open>
  \<open>tryFlush\<close> from the computed \<open>ready_lsn\<close> to the writes of the file, with the end of the range;
  \<open>None\<close>: not enough is ready. Then the update of the positions.
\<close>

definition flush_ready :: "log_cfg \<Rightarrow> nat \<Rightarrow> logger \<Rightarrow> (nat \<times> logger) option res" where
  "flush_ready cfg ready_lsn lg =
     (if sub64 ready_lsn (lg_persistent lg) < lc_flush_block cfg then Inr None
      else assert_res (lg_persistent lg \<le> ready_lsn)
       (let start_lsn = lg_persistent lg; end_lsn = ready_lsn - ready_lsn mod 512;
            end_lsn = (if lc_flush_block cfg < sub64 end_lsn start_lsn then start_lsn + lc_flush_block cfg else end_lsn) in
        bind_res (log_flush cfg start_lsn end_lsn lg) (\<lambda>lg'. Inr (Some (end_lsn, lg')))))"

definition flush_done :: "log_cfg \<Rightarrow> nat \<Rightarrow> nat \<Rightarrow> logger \<Rightarrow> logger" where
  "flush_done cfg ready_lsn end_lsn lg =
     (let start_lsn = lg_persistent lg; chunk_size = lc_thread_cnt cfg in
      lg\<lparr>lg_persistent := end_lsn,
         lg_fd := (if start_lsn div chunk_size < end_lsn div chunk_size then lg_fd lg @ [ready_lsn] else lg_fd lg)\<rparr>)"

definition tryFlush :: "log_cfg \<Rightarrow> logger \<Rightarrow> (nat \<times> logger) res" where
  "tryFlush cfg lg =
     (let ready_lsn = scan_ready lg (scan_ids cfg) (lg_lsn lg) in
      bind_res (flush_ready cfg ready_lsn lg) (\<lambda>r. case r of
          None \<Rightarrow> Inr (0, lg)
        | Some (end_lsn, lg') \<Rightarrow> Inr (sub64 end_lsn (lg_persistent lg), flush_done cfg ready_lsn end_lsn lg')))"

text \<open>The destructor of the logger.\<close>

definition logger_close :: "log_cfg \<Rightarrow> logger \<Rightarrow> logger res" where
  "logger_close cfg lg =
     (let end_lsn = lg_lsn lg div 512 * 512; start_lsn = lg_persistent lg in
      bind_res (if start_lsn < end_lsn then log_flush cfg start_lsn end_lsn lg else Inr lg) (\<lambda>lg'.
        Inr (lg'\<lparr>lg_fd := lg_fd lg' @ [end_lsn]\<rparr>)))"

section \<open>Interleaving\<close>

text \<open>
  Where a worker is in \<open>logTxn\<close>, and where the log thread is in \<open>tryFlush\<close>. \<open>ls_log\<close> is the
  specification's state, the entries in the order of their reservation.
\<close>

datatype log_pc =
    LIdle
  | LRoom bytes           \<comment> \<open>the room check has passed\<close>
  | LRead bytes nat       \<comment> \<open>\<open>_lsn\<close> is read, to be published\<close>
  | LAnnounced bytes
  | LReserving bytes nat  \<comment> \<open>\<open>_lsn\<close> is read by the reservation that is not atomic\<close>
  | LTaken bytes nat
  | LCopied bytes nat
  | LSent bytes nat

datatype flush_pc =
    FIdle
  | FScan nat "nat list"            \<comment> \<open>\<open>ready_lsn\<close> and the workers still to be read\<close>
  | FFilled nat nat nat "nat list"  \<comment> \<open>\<open>ready_lsn\<close>, the worker being read, its \<open>filledLSN\<close>\<close>
  | FWritten nat nat                \<comment> \<open>\<open>ready_lsn\<close> and \<open>end_lsn\<close>\<close>

record log_sys =
  ls_lg :: logger
  ls_pc :: "nat \<Rightarrow> log_pc"
  ls_flush :: flush_pc
  ls_log :: "bytes list"

text \<open>Entries of the enclave: not empty, not too large, starting with the checksum.\<close>

definition entry_ok :: "log_cfg \<Rightarrow> bytes \<Rightarrow> bool" where
  "entry_ok cfg e \<longleftrightarrow> e \<noteq> [] \<and> length e \<le> lc_max_entry cfg \<and> announces e"

definition log_sys_init :: "log_cfg \<Rightarrow> bytes \<Rightarrow> log_sys" where
  "log_sys_init cfg junk = \<lparr>ls_lg = logger_init cfg junk, ls_pc = (\<lambda>_. LIdle), ls_flush = FIdle, ls_log = []\<rparr>"

definition goto :: "nat \<Rightarrow> log_pc \<Rightarrow> log_sys \<Rightarrow> log_sys" where
  "goto t pc s = s\<lparr>ls_pc := (ls_pc s)(t := pc)\<rparr>"

definition set_lg :: "logger \<Rightarrow> log_sys \<Rightarrow> log_sys" where
  "set_lg lg s = s\<lparr>ls_lg := lg\<rparr>"

inductive log_step :: "log_cfg \<Rightarrow> bool \<Rightarrow> log_sys \<Rightarrow> log_sys \<Rightarrow> bool" for cfg sync where
  room: "\<lbrakk>t < lc_thread_cnt cfg; ls_pc s t = LIdle; entry_ok cfg e; \<not> log_full cfg (ls_lg s) (length e)\<rbrakk>
    \<Longrightarrow> log_step cfg sync s (goto t (LRoom e) s)"
| read_lsn: "\<lbrakk>t < lc_thread_cnt cfg; ls_pc s t = LRoom e\<rbrakk> \<Longrightarrow> log_step cfg sync s (goto t (LRead e (lg_lsn (ls_lg s))) s)"
| announce: "\<lbrakk>t < lc_thread_cnt cfg; ls_pc s t = LRead e x\<rbrakk>
    \<Longrightarrow> log_step cfg sync s (goto t (LAnnounced e) (set_lg ((ls_lg s)\<lparr>lg_allocate := (lg_allocate (ls_lg s))(t := x)\<rparr>) s))"
| take_sync: "\<lbrakk>t < lc_thread_cnt cfg; ls_pc s t = LAnnounced e; sync; l = lg_lsn (ls_lg s)\<rbrakk>
    \<Longrightarrow> log_step cfg sync s (goto t (LTaken e l) (set_lg ((ls_lg s)\<lparr>lg_lsn := l + size_aligned (length e)\<rparr>)
          (s\<lparr>ls_log := ls_log s @ [e]\<rparr>)))"
| take_read: "\<lbrakk>t < lc_thread_cnt cfg; ls_pc s t = LAnnounced e; \<not> sync\<rbrakk>
    \<Longrightarrow> log_step cfg sync s (goto t (LReserving e (lg_lsn (ls_lg s))) s)"
| take_write: "\<lbrakk>t < lc_thread_cnt cfg; ls_pc s t = LReserving e l\<rbrakk>
    \<Longrightarrow> log_step cfg sync s (goto t (LTaken e l) (set_lg ((ls_lg s)\<lparr>lg_lsn := lg_lsn (ls_lg s) + size_aligned (length e)\<rparr>)
          (s\<lparr>ls_log := ls_log s @ [e]\<rparr>)))"
| copy: "\<lbrakk>t < lc_thread_cnt cfg; ls_pc s t = LTaken e l; log_copy cfg l e (ls_lg s) = Inr lg'\<rbrakk>
    \<Longrightarrow> log_step cfg sync s (goto t (LCopied e l) (set_lg lg' s))"
| send: "\<lbrakk>t < lc_thread_cnt cfg; ls_pc s t = LCopied e l; log_send e (ls_lg s) = Inr lg'\<rbrakk>
    \<Longrightarrow> log_step cfg sync s (goto t (LSent e l) (set_lg lg' s))"
| fill: "\<lbrakk>t < lc_thread_cnt cfg; ls_pc s t = LSent e l\<rbrakk>
    \<Longrightarrow> log_step cfg sync s (goto t LIdle (set_lg ((ls_lg s)\<lparr>lg_filled := (lg_filled (ls_lg s))(t := l + size_aligned (length e))\<rparr>) s))"
| flush_start: "ls_flush s = FIdle \<Longrightarrow> log_step cfg sync s (s\<lparr>ls_flush := FScan (lg_lsn (ls_lg s)) (scan_ids cfg)\<rparr>)"
| flush_filled: "ls_flush s = FScan r (i # is) \<Longrightarrow> log_step cfg sync s (s\<lparr>ls_flush := FFilled r i (lg_filled (ls_lg s) i) is\<rparr>)"
| flush_allocate: "ls_flush s = FFilled r i f is
    \<Longrightarrow> log_step cfg sync s (s\<lparr>ls_flush := FScan (lower_ready r f (lg_allocate (ls_lg s) i)) is\<rparr>)"
| flush_skip: "\<lbrakk>ls_flush s = FScan r []; flush_ready cfg r (ls_lg s) = Inr None\<rbrakk> \<Longrightarrow> log_step cfg sync s (s\<lparr>ls_flush := FIdle\<rparr>)"
| flush_write: "\<lbrakk>ls_flush s = FScan r []; flush_ready cfg r (ls_lg s) = Inr (Some (end_lsn, lg'))\<rbrakk>
    \<Longrightarrow> log_step cfg sync s (set_lg lg' (s\<lparr>ls_flush := FWritten r end_lsn\<rparr>))"
| flush_persist: "ls_flush s = FWritten r end_lsn
    \<Longrightarrow> log_step cfg sync s (set_lg (flush_done cfg r end_lsn (ls_lg s)) (s\<lparr>ls_flush := FIdle\<rparr>))"

definition log_reach :: "log_cfg \<Rightarrow> bool \<Rightarrow> bytes \<Rightarrow> log_sys \<Rightarrow> bool" where
  "log_reach cfg sync junk s \<longleftrightarrow> (log_step cfg sync)\<^sup>*\<^sup>* (log_sys_init cfg junk) s"

text \<open>The configurations considered: the sizes fit together, and one logger serves all workers.\<close>

definition log_cfg_ok :: "log_cfg \<Rightarrow> bool" where
  "log_cfg_ok cfg \<longleftrightarrow> lc_num_logger cfg = 1 \<and> lc_logger_id cfg = 0 \<and> lc_max_entry cfg mod 64 = 0 \<and>
     lc_max_entry cfg * lc_thread_cnt cfg < lc_buffer_size cfg \<and> lc_flush_block cfg mod 512 = 0 \<and> 0 < lc_flush_block cfg \<and>
     lc_flush_block cfg < lc_buffer_size cfg \<and> lc_buffer_size cfg < 2 ^ 32"

text \<open>
  The log as a sequence of bytes: the entries in order, each padded to a multiple of 64 bytes with
  bytes that are not specified; and what it means that a file is a front of it.
\<close>

definition entry_image :: "bytes \<Rightarrow> u8 option list" where
  "entry_image e = map Some e @ replicate (size_aligned (length e) - length e) None"

definition log_image :: "bytes list \<Rightarrow> u8 option list" where
  "log_image es = concat (map entry_image es)"

definition front_of :: "bytes \<Rightarrow> u8 option list \<Rightarrow> bool" where
  "front_of file img \<longleftrightarrow> length file \<le> length img \<and> (\<forall>i<length file. img ! i \<in> {None, Some (file ! i)})"

section \<open>The circular buffer\<close>

lemma size_aligned_ge: "n \<le> size_aligned n"
  using mod_less_divisor[of 64 n] by (simp add: size_aligned_def) linarith

lemma size_aligned_le:
  assumes "n \<le> m" "m mod 64 = 0"
  shows "size_aligned n \<le> m"
proof (cases "n mod 64 = 0")
  case False
  obtain k where k: "m = k * 64" using assms(2) by (metis dvd_eq_mod_eq_0 dvdE mult.commute)
  have "n < k * 64" using assms(1) False k by (cases "n = m") auto
  then have "n div 64 < k" by (rule less_mult_imp_div_less)
  moreover have "n + 64 - n mod 64 = n div 64 * 64 + 64"
    using minus_mod_eq_div_mult[of n 64] mod_less_eq_dividend[of n 64] by linarith
  ultimately show ?thesis using False by (simp add: size_aligned_def k)
qed (use assms(1) in \<open>simp add: size_aligned_def\<close>)

lemma buf_put_nth:
  assumes "off + length bs \<le> length buf"
  shows "\<exists>buf'. buf_put buf off bs = Inr buf' \<and> length buf' = length buf \<and>
    (\<forall>k<length buf. buf' ! k = (if off \<le> k \<and> k < off + length bs then bs ! (k - off) else buf ! k))"
  using assms by (auto simp: buf_put_def nth_append)

text \<open>Writing an entry at a position puts its bytes there, modulo the size, and nothing else.\<close>

lemma log_copy_nth:
  assumes "length (lg_buffer lg) = n + m" "n = lc_buffer_size cfg" "length e < n"
  shows "\<exists>buf. log_copy cfg l e lg = Inr (lg\<lparr>lg_buffer := buf\<rparr>) \<and> length buf = n + m \<and>
    (\<forall>d<n. buf ! ((l + d) mod n) = (if d < length e then e ! d else lg_buffer lg ! ((l + d) mod n)))"
proof -
  obtain a t where at: "a = l mod n" "t = n - l mod n" by blast
  have n: "0 < n" using assms(3) by simp
  then have ta: "a + t = n" "0 < t" using at mod_less_divisor[OF n, of l] by auto
  have md: "(l + d) mod n = (if d < t then a + d else d - t)" if "d < n" for d
    using mod_wrap[of "a + d" n] ta that mod_add_left_eq[of l n d] unfolding at(1) by auto
  have "l + length e = (a + length e) + l div n * n" using div_mult_mod_eq[of l n] at(1) by linarith
  then have "(l + length e) div n = l div n + (a + length e) div n" using n by (metis div_mult_self1 not_gr0)
  then have split: "l div n < (l + length e) div n \<longleftrightarrow> t \<le> length e" using n ta by (auto simp: div_greater_zero_iff)
  show ?thesis
  proof (cases "t \<le> length e")
    case True
    obtain b1 where b1: "buf_put (lg_buffer lg) a (take t e) = Inr b1" "length b1 = n + m"
        "\<forall>k<n + m. b1 ! k = (if a \<le> k \<and> k < n then take t e ! (k - a) else lg_buffer lg ! k)"
      using buf_put_nth[of a "take t e" "lg_buffer lg"] assms(1) True ta by auto
    have fits: "0 + length (drop t e) \<le> length b1" using b1(2) assms(3) by simp
    obtain b2 where b2: "buf_put b1 0 (drop t e) = Inr b2" "length b2 = n + m"
        "\<forall>k<n + m. b2 ! k = (if k < length e - t then e ! (t + k) else b1 ! k)"
      using buf_put_nth[OF fits] b1(2) True by (auto simp: nth_drop cong: if_cong)
    have "b2 ! ((l + d) mod n) = (if d < length e then e ! d else lg_buffer lg ! ((l + d) mod n))" if "d < n" for d
      using b1(3) b2(3) md[OF that] that True ta assms(3) by (cases "d < t") auto
    then show ?thesis using True split b1(1) b2(1,2) assms(2) at by (auto simp: log_copy_def Let_def)
  next
    case False
    obtain b where b: "buf_put (lg_buffer lg) a e = Inr b" "length b = n + m"
        "\<forall>k<n + m. b ! k = (if a \<le> k \<and> k < a + length e then e ! (k - a) else lg_buffer lg ! k)"
      using buf_put_nth[of a e "lg_buffer lg"] assms(1) False ta by auto
    have "b ! ((l + d) mod n) = (if d < length e then e ! d else lg_buffer lg ! ((l + d) mod n))" if "d < n" for d
      using b(3) md[OF that] that False ta by (cases "d < t") auto
    then show ?thesis using False split b(1,2) assms(2) at(1) by (auto simp: log_copy_def)
  qed
qed

lemma sub64_le: "b \<le> a \<Longrightarrow> a - b < 2 ^ 64 \<Longrightarrow> sub64 a b = a - b"
  by (simp add: sub64_def)

lemma sub64_wraps: "a < b \<Longrightarrow> b - a < 2 ^ 64 \<Longrightarrow> sub64 a b = 2 ^ 64 - (b - a)"
  by (simp add: sub64_def)

text \<open>Flushing a range appends its bytes to the file.\<close>

lemma log_flush_spec:
  assumes "s \<le> e" "e - s < n" "n = lc_buffer_size cfg" "n \<le> length (lg_buffer lg)" "n < 2 ^ 32"
  shows "log_flush cfg s e lg = Inr (lg\<lparr>lg_fd_data := lg_fd_data lg @ map (\<lambda>i. lg_buffer lg ! (i mod n)) [s..<e]\<rparr>)"
proof -
  let ?b = "lg_buffer lg"
  obtain d where d: "e = s + d" using assms(1) le_Suc_ex by blast
  obtain a t where at: "a = s mod n" "t = n - s mod n" by blast
  have n: "0 < n" using assms(2) by simp
  then have ta: "a + t = n" "0 < t" using at mod_less_divisor[OF n, of s] by auto
  have md: "(s + k) mod n = (if k < t then a + k else k - t)" if "k < n" for k
    using mod_wrap[of "a + k" n] ta that mod_add_left_eq[of s n k] unfolding at(1) by auto
  have "s + d = (a + d) + s div n * n" using div_mult_mod_eq[of s n] at(1) by linarith
  then have "(s + d) div n = s div n + (a + d) div n" using n by (metis div_mult_self1 not_gr0)
  then have split: "s div n < e div n \<longleftrightarrow> t \<le> d" using n ta by (auto simp: div_greater_zero_iff d)
  have sub: "sub64 e s = d" using assms(2,5) d by (simp add: sub64_def)
  have "map (\<lambda>i. ?b ! (i mod n)) [s..<e] = map (\<lambda>k. ?b ! ((s + k) mod n)) [0..<d]"
    by (rule nth_equalityI) (auto simp: d)
  moreover have "map (\<lambda>k. ?b ! ((s + k) mod n)) [0..<d] =
      (if t \<le> d then take t (drop a ?b) @ take (e mod n) (drop 0 ?b) else take d (drop a ?b))"
    using ta md assms(2,4) d by (intro nth_equalityI) (auto simp: nth_append min_def intro!: arg_cong[where f = "(!) ?b"])
  ultimately have res: "map (\<lambda>i. ?b ! (i mod n)) [s..<e] =
      (if t \<le> d then take t (drop a ?b) @ take (e mod n) (drop 0 ?b) else take d (drop a ?b))" by simp
  have "buf_get ?b 0 (e mod n) = Inr (take (e mod n) (drop 0 ?b))"
    using assms(4) less_le_trans[OF mod_less_divisor[OF n, of e]] by (simp add: buf_get_def not_less less_imp_le)
  moreover have "buf_get ?b a t = Inr (take t (drop a ?b))" using ta assms(4) by (simp add: buf_get_def)
  moreover have "\<not> t \<le> d \<Longrightarrow> buf_get ?b a d = Inr (take d (drop a ?b))" using ta assms(4) by (auto simp: buf_get_def)
  moreover have "s = e \<longleftrightarrow> d = 0" "d < n" "n - a = t" using d assms(2) ta by auto
  ultimately show ?thesis
    unfolding log_flush_def Let_def assms(3)[symmetric] at(1)[symmetric] sub res using split ta(2) by (cases "d = 0"; cases "t \<le> d") simp_all
qed

section \<open>The invariant\<close>

fun pending :: "log_pc \<Rightarrow> nat" where
  "pending (LRoom e) = size_aligned (length e)"
| "pending (LRead e x) = size_aligned (length e)"
| "pending (LAnnounced e) = size_aligned (length e)"
| "pending (LReserving e x) = size_aligned (length e)"
| "pending pc = 0"

fun in_flight :: "log_pc \<Rightarrow> (bytes \<times> nat) option" where
  "in_flight (LTaken e l) = Some (e, l)"
| "in_flight (LCopied e l) = Some (e, l)"
| "in_flight (LSent e l) = Some (e, l)"
| "in_flight pc = None"

fun covers :: "log_pc \<Rightarrow> nat \<Rightarrow> bool" where
  "covers (LTaken e l) i \<longleftrightarrow> l \<le> i \<and> i < l + size_aligned (length e)"
| "covers pc i \<longleftrightarrow> False"

definition flight_ok :: "logger \<Rightarrow> u8 option list \<Rightarrow> nat \<Rightarrow> bytes \<Rightarrow> nat \<Rightarrow> bool" where
  "flight_ok lg img t e l \<longleftrightarrow> lg_filled lg t \<le> lg_allocate lg t \<and> lg_allocate lg t \<le> l \<and> lg_persistent lg \<le> l \<and>
     l + size_aligned (length e) \<le> lg_lsn lg \<and> (\<forall>j < size_aligned (length e). img ! (l + j) = entry_image e ! j)"

fun worker_ok :: "logger \<Rightarrow> u8 option list \<Rightarrow> nat \<Rightarrow> log_pc \<Rightarrow> bool" where
  "worker_ok lg img t (LRead e x) \<longleftrightarrow> lg_filled lg t \<le> x \<and> x \<le> lg_lsn lg"
| "worker_ok lg img t (LAnnounced e) \<longleftrightarrow> lg_filled lg t \<le> lg_allocate lg t \<and> lg_allocate lg t \<le> lg_lsn lg"
| "worker_ok lg img t (LReserving e l) \<longleftrightarrow> False"
| "worker_ok lg img t (LTaken e l) \<longleftrightarrow> flight_ok lg img t e l"
| "worker_ok lg img t (LCopied e l) \<longleftrightarrow> flight_ok lg img t e l"
| "worker_ok lg img t (LSent e l) \<longleftrightarrow> flight_ok lg img t e l"
| "worker_ok lg img t pc \<longleftrightarrow> True"

fun pc_entry :: "log_pc \<Rightarrow> bytes option" where
  "pc_entry LIdle = None"
| "pc_entry (LRoom e) = Some e"
| "pc_entry (LRead e x) = Some e"
| "pc_entry (LAnnounced e) = Some e"
| "pc_entry (LReserving e l) = Some e"
| "pc_entry (LTaken e l) = Some e"
| "pc_entry (LCopied e l) = Some e"
| "pc_entry (LSent e l) = Some e"

definition workers_ok :: "log_cfg \<Rightarrow> log_sys \<Rightarrow> bool" where
  "workers_ok cfg s \<longleftrightarrow> (\<forall>t<lc_thread_cnt cfg. lg_filled (ls_lg s) t \<le> lg_lsn (ls_lg s) \<and>
     worker_ok (ls_lg s) (log_image (ls_log s)) t (ls_pc s t) \<and> pred_option (entry_ok cfg) (pc_entry (ls_pc s t)))"

definition room_ok :: "log_cfg \<Rightarrow> log_sys \<Rightarrow> bool" where
  "room_ok cfg s \<longleftrightarrow> lg_lsn (ls_lg s) = length (log_image (ls_log s)) \<and> lg_persistent (ls_lg s) \<le> lg_lsn (ls_lg s) \<and>
     length (lg_buffer (ls_lg s)) = lc_buffer_size cfg + lc_max_entry cfg \<and> lg_persistent (ls_lg s) mod 512 = 0 \<and>
     lg_lsn (ls_lg s) + (\<Sum>t<lc_thread_cnt cfg. pending (ls_pc s t)) \<le> lg_persistent (ls_lg s) + lc_buffer_size cfg"

definition content_ok :: "log_cfg \<Rightarrow> log_sys \<Rightarrow> bool" where
  "content_ok cfg s \<longleftrightarrow> (\<forall>i. lg_persistent (ls_lg s) \<le> i \<longrightarrow> i < lg_lsn (ls_lg s) \<longrightarrow>
     (\<forall>t<lc_thread_cnt cfg. \<not> covers (ls_pc s t) i) \<longrightarrow>
     log_image (ls_log s) ! i \<in> {None, Some (lg_buffer (ls_lg s) ! (i mod lc_buffer_size cfg))})"

text \<open>The log thread: nothing below \<open>ready_lsn\<close> is in flight in a worker it has read.\<close>

fun scan_ok :: "log_cfg \<Rightarrow> log_sys \<Rightarrow> flush_pc \<Rightarrow> bool" where
  "scan_ok cfg s FIdle \<longleftrightarrow> length (lg_fd_data (ls_lg s)) = lg_persistent (ls_lg s)"
| "scan_ok cfg s (FScan r is) \<longleftrightarrow> length (lg_fd_data (ls_lg s)) = lg_persistent (ls_lg s) \<and> r \<le> lg_lsn (ls_lg s) \<and>
     (\<forall>t e l. t < lc_thread_cnt cfg \<longrightarrow> in_flight (ls_pc s t) = Some (e, l) \<longrightarrow> t \<notin> set is \<longrightarrow> r \<le> l)"
| "scan_ok cfg s (FFilled r i f is) \<longleftrightarrow> length (lg_fd_data (ls_lg s)) = lg_persistent (ls_lg s) \<and> r \<le> lg_lsn (ls_lg s) \<and>
     (\<forall>t e l. t < lc_thread_cnt cfg \<longrightarrow> in_flight (ls_pc s t) = Some (e, l) \<longrightarrow> t \<notin> set is \<longrightarrow>
        r \<le> l \<or> t = i \<and> f \<le> lg_allocate (ls_lg s) i)"
| "scan_ok cfg s (FWritten r end_lsn) \<longleftrightarrow> length (lg_fd_data (ls_lg s)) = end_lsn \<and> end_lsn mod 512 = 0 \<and>
     lg_persistent (ls_lg s) \<le> end_lsn \<and> end_lsn \<le> lg_lsn (ls_lg s) \<and>
     (\<forall>t e l. t < lc_thread_cnt cfg \<longrightarrow> in_flight (ls_pc s t) = Some (e, l) \<longrightarrow> end_lsn \<le> l)"

definition log_inv :: "log_cfg \<Rightarrow> log_sys \<Rightarrow> bool" where
  "log_inv cfg s \<longleftrightarrow> room_ok cfg s \<and> workers_ok cfg s \<and> content_ok cfg s \<and> scan_ok cfg s (ls_flush s) \<and>
     front_of (lg_fd_data (ls_lg s)) (log_image (ls_log s))"

lemmas log_inv_defs = log_inv_def room_ok_def workers_ok_def content_ok_def

lemma length_entry_image [simp]: "length (entry_image e) = size_aligned (length e)"
  using size_aligned_ge[of "length e"] by (simp add: entry_image_def)

lemma log_image_snoc [simp]: "log_image (es @ [e]) = log_image es @ entry_image e"
  by (simp add: log_image_def)

lemma log_init_inv: "log_cfg_ok cfg \<Longrightarrow> log_inv cfg (log_sys_init cfg junk)"
  by (auto simp: log_inv_defs log_sys_init_def logger_init_def log_image_def front_of_def log_cfg_ok_def)

lemma scan_ids_all: "log_cfg_ok cfg \<Longrightarrow> set (scan_ids cfg) = {..<lc_thread_cnt cfg}"
  by (auto simp: log_cfg_ok_def scan_ids_def)

lemma sum_pending:
  assumes "t < (T :: nat)"
  shows "(\<Sum>u<T. pending ((pc(t := p)) u)) + pending (pc t) = (\<Sum>u<T. pending (pc u)) + pending p"
proof -
  have "(\<Sum>u<T. pending (q u)) = pending (q t) + (\<Sum>u\<in>{..<T} - {t}. pending (q u))" for q
    using assms by (intro sum.remove) auto
  from this[of pc] this[of "pc(t := p)"] show ?thesis by simp
qed

lemma sum_pending_le:
  assumes "log_cfg_ok cfg" "\<forall>t<lc_thread_cnt cfg. pred_option (entry_ok cfg) (pc_entry (pc t))"
  shows "(\<Sum>u<lc_thread_cnt cfg. pending (pc u)) \<le> lc_max_entry cfg * lc_thread_cnt cfg"
proof -
  have "pending (pc t) \<le> lc_max_entry cfg" if "t < lc_thread_cnt cfg" for t
    using assms that size_aligned_le by (cases "pc t") (auto simp: log_cfg_ok_def entry_ok_def)
  then show ?thesis using sum_bounded_above[of "{..<lc_thread_cnt cfg}" "\<lambda>u. pending (pc u)" "lc_max_entry cfg"] by (simp add: mult.commute)
qed

lemma worker_ok_mono:
  assumes "worker_ok lg img t pc" "lg_lsn lg = length img" "lg_persistent lg' = lg_persistent lg" "lg_filled lg' t = lg_filled lg t"
    "lg_allocate lg' t = lg_allocate lg t" "lg_lsn lg' = lg_lsn lg + length xs"
  shows "worker_ok lg' (img @ xs) t pc"
proof -
  have "flight_ok lg' (img @ xs) t e l" if "flight_ok lg img t e l" for e l
    using that assms(2-) by (auto simp: flight_ok_def nth_append)
  then show ?thesis using assms by (cases pc) auto
qed

text \<open>A step of worker \<open>t\<close>: what it has to establish of itself and leave alone of the rest.\<close>

lemma worker_step_inv:
  assumes inv: "log_inv cfg s" and t: "t < lc_thread_cnt cfg"
    and lg: "lg_persistent lg' = lg_persistent (ls_lg s)" "lg_fd_data lg' = lg_fd_data (ls_lg s)"
      "length (lg_buffer lg') = length (lg_buffer (ls_lg s))"
      "\<And>u. u \<noteq> t \<Longrightarrow> lg_filled lg' u = lg_filled (ls_lg s) u" "\<And>u. u \<noteq> t \<Longrightarrow> lg_allocate lg' u = lg_allocate (ls_lg s) u"
    and img: "log_image log' = log_image (ls_log s) @ xs" "lg_lsn lg' = lg_lsn (ls_lg s) + length xs"
    and self: "lg_filled lg' t \<le> lg_lsn lg'" "worker_ok lg' (log_image log') t pc'" "pred_option (entry_ok cfg) (pc_entry pc')"
    and room: "lg_lsn lg' + (\<Sum>u<lc_thread_cnt cfg. pending (((ls_pc s)(t := pc')) u)) \<le> lg_persistent (ls_lg s) + lc_buffer_size cfg"
    and flight: "\<And>e l. in_flight pc' = Some (e, l) \<Longrightarrow>
      lg_lsn (ls_lg s) \<le> l \<or> in_flight (ls_pc s t) = Some (e, l) \<and> lg_allocate lg' t = lg_allocate (ls_lg s) t"
    and content: "content_ok cfg (goto t pc' (set_lg lg' (s\<lparr>ls_log := log'\<rparr>)))"
  shows "log_inv cfg (goto t pc' (set_lg lg' (s\<lparr>ls_log := log'\<rparr>)))"
proof -
  let ?s = "goto t pc' (set_lg lg' (s\<lparr>ls_log := log'\<rparr>))"
  have len: "lg_lsn (ls_lg s) = length (log_image (ls_log s))" using inv by (simp add: log_inv_defs)
  have "worker_ok lg' (log_image log') u (ls_pc s u)" if "u < lc_thread_cnt cfg" "u \<noteq> t" for u
    using inv that lg(1) lg(4,5)[OF that(2)] img len worker_ok_mono[of "ls_lg s" "log_image (ls_log s)" u "ls_pc s u" lg' xs]
    by (simp add: log_inv_defs)
  then have "workers_ok cfg ?s"
    using inv self lg(4) img(2) by (auto simp: log_inv_defs goto_def set_lg_def intro: trans_le_add1)
  moreover have "room_ok cfg ?s" using inv room lg(1,3) img by (simp add: log_inv_defs goto_def set_lg_def)
  moreover have "front_of (lg_fd_data lg') (log_image log')"
    using inv lg(2) img(1) by (auto simp: log_inv_def front_of_def nth_append)
  moreover have "scan_ok cfg ?s (ls_flush ?s)"
  proof (cases "ls_flush s")
    case FIdle
    then show ?thesis using inv lg(1,2) by (simp add: log_inv_def goto_def set_lg_def)
  next
    case (FScan r js)
    then show ?thesis using inv lg(1,2) img(2) flight by (fastforce simp: log_inv_def goto_def set_lg_def)
  next
    case (FFilled r i f js)
    then show ?thesis using inv lg(1,2,5) img(2) flight by (fastforce simp: log_inv_def goto_def set_lg_def)
  next
    case (FWritten r end_lsn)
    then show ?thesis using inv lg(1,2) img(2) flight by (fastforce simp: log_inv_def goto_def set_lg_def)
  qed
  ultimately show ?thesis using content by (simp add: log_inv_def goto_def set_lg_def)
qed

text \<open>Steps that change neither the log nor the buffer keep the content, if they leave the copied ranges alone.\<close>

lemma quiet_content:
  assumes "content_ok cfg s" "lg_persistent lg' = lg_persistent (ls_lg s)" "lg_lsn lg' = lg_lsn (ls_lg s)" "lg_buffer lg' = lg_buffer (ls_lg s)"
    "\<And>i. covers pc' i \<longleftrightarrow> covers (ls_pc s t) i"
  shows "content_ok cfg (goto t pc' (set_lg lg' s))"
proof -
  have "covers (((ls_pc s)(t := pc')) u) i = covers (ls_pc s u) i" for u i using assms(5) by simp
  then show ?thesis using assms(1-4) by (simp add: content_ok_def goto_def set_lg_def)
qed

lemma quiet_step_inv:
  assumes "log_inv cfg s" "t < lc_thread_cnt cfg" "lg_persistent lg' = lg_persistent (ls_lg s)" "lg_fd_data lg' = lg_fd_data (ls_lg s)"
    "lg_buffer lg' = lg_buffer (ls_lg s)" "lg_lsn lg' = lg_lsn (ls_lg s)"
    "\<And>u. u \<noteq> t \<Longrightarrow> lg_filled lg' u = lg_filled (ls_lg s) u" "\<And>u. u \<noteq> t \<Longrightarrow> lg_allocate lg' u = lg_allocate (ls_lg s) u"
    "lg_filled lg' t \<le> lg_lsn lg'" "worker_ok lg' (log_image (ls_log s)) t pc'" "pred_option (entry_ok cfg) (pc_entry pc')"
    "lg_lsn (ls_lg s) + (\<Sum>u<lc_thread_cnt cfg. pending (((ls_pc s)(t := pc')) u)) \<le> lg_persistent (ls_lg s) + lc_buffer_size cfg"
    "\<And>e l. in_flight pc' = Some (e, l) \<Longrightarrow> in_flight (ls_pc s t) = Some (e, l) \<and> lg_allocate lg' t = lg_allocate (ls_lg s) t"
    "\<And>i. covers pc' i \<longleftrightarrow> covers (ls_pc s t) i"
  shows "log_inv cfg (goto t pc' (set_lg lg' s))"
proof -
  have "content_ok cfg (goto t pc' (set_lg lg' s))" using assms by (intro quiet_content) (auto simp: log_inv_def)
  then show ?thesis using worker_step_inv[of cfg s t lg' "ls_log s" "[]" pc'] assms by simp
qed

lemma pending_same:
  assumes "log_inv cfg s" "t < lc_thread_cnt cfg" "pending pc' \<le> pending (ls_pc s t)"
  shows "lg_lsn (ls_lg s) + (\<Sum>u<lc_thread_cnt cfg. pending (((ls_pc s)(t := pc')) u)) \<le> lg_persistent (ls_lg s) + lc_buffer_size cfg"
  using sum_pending[OF assms(2), of "ls_pc s" pc'] assms(1,3) by (simp add: log_inv_defs)

lemma workerD:
  assumes "log_inv cfg s" "t < lc_thread_cnt cfg"
  shows "lg_filled (ls_lg s) t \<le> lg_lsn (ls_lg s)" "worker_ok (ls_lg s) (log_image (ls_log s)) t (ls_pc s t)"
    "pred_option (entry_ok cfg) (pc_entry (ls_pc s t))"
  using assms by (auto simp: log_inv_defs)

lemma room_inv:
  assumes "log_cfg_ok cfg" "log_inv cfg s" "t < lc_thread_cnt cfg" "ls_pc s t = LIdle" "entry_ok cfg e" "\<not> log_full cfg (ls_lg s) (length e)"
  shows "log_inv cfg (goto t (LRoom e) s)"
proof -
  have "\<forall>u<lc_thread_cnt cfg. pred_option (entry_ok cfg) (pc_entry (((ls_pc s)(t := LRoom e)) u))"
    using assms(2,5) workerD(3) by auto
  from sum_pending_le[OF assms(1) this] have "lg_lsn (ls_lg s) + (\<Sum>u<lc_thread_cnt cfg. pending (((ls_pc s)(t := LRoom e)) u)) \<le>
      lg_persistent (ls_lg s) + lc_buffer_size cfg"
    using assms(1,6) by (auto simp: log_full_def log_cfg_ok_def)
  then show ?thesis
    using quiet_step_inv[OF assms(2,3), of "ls_lg s" "LRoom e"] assms(4,5) workerD[OF assms(2,3)] by (simp add: set_lg_def)
qed

lemma announce_inv:
  assumes "log_inv cfg s" "t < lc_thread_cnt cfg" "ls_pc s t = LRead e x"
  shows "log_inv cfg (goto t (LAnnounced e) (set_lg ((ls_lg s)\<lparr>lg_allocate := (lg_allocate (ls_lg s))(t := x)\<rparr>) s))"
  using assms(3) workerD[OF assms(1,2)] pending_same[OF assms(1,2), of "LAnnounced e"]
  by (intro quiet_step_inv[OF assms(1,2)]) auto

lemma take_inv:
  assumes "log_inv cfg s" "t < lc_thread_cnt cfg" "ls_pc s t = LAnnounced e" "l = lg_lsn (ls_lg s)"
  shows "log_inv cfg (goto t (LTaken e l) (set_lg ((ls_lg s)\<lparr>lg_lsn := l + size_aligned (length e)\<rparr>) (s\<lparr>ls_log := ls_log s @ [e]\<rparr>)))"
proof -
  let ?lg = "(ls_lg s)\<lparr>lg_lsn := l + size_aligned (length e)\<rparr>"
  let ?s = "goto t (LTaken e l) (set_lg ?lg (s\<lparr>ls_log := ls_log s @ [e]\<rparr>))"
  have img: "length (log_image (ls_log s)) = l" "lg_persistent (ls_lg s) \<le> l" using assms(1,4) by (simp_all add: log_inv_defs)
  have "flight_ok ?lg (log_image (ls_log s) @ entry_image e) t e l"
    using workerD[OF assms(1,2)] assms(3,4) img by (auto simp: flight_ok_def nth_append)
  moreover have "\<not> covers (ls_pc s t) i" for i using assms(3) by simp
  then have "content_ok cfg ?s"
    using assms(1,2,4) img(1) unfolding log_inv_def content_ok_def
    by (auto simp: goto_def set_lg_def nth_append split: if_splits) metis
  moreover have "lg_lsn ?lg + (\<Sum>u<lc_thread_cnt cfg. pending (((ls_pc s)(t := LTaken e l)) u)) \<le> lg_persistent (ls_lg s) + lc_buffer_size cfg"
    using sum_pending[OF assms(2), of "ls_pc s" "LTaken e l"] assms(1,3,4) by (auto simp: log_inv_def room_ok_def simp del: fun_upd_apply)
  ultimately show ?thesis
    using worker_step_inv[OF assms(1,2), of ?lg "ls_log s @ [e]" "entry_image e" "LTaken e l"] workerD[OF assms(1,2)] assms(3,4)
    by simp
qed

lemma copy_content:
  assumes "log_cfg_ok cfg" "log_inv cfg s" "t < lc_thread_cnt cfg" "ls_pc s t = LTaken e l" "n = lc_buffer_size cfg"
    "\<forall>d<n. buf ! ((l + d) mod n) = (if d < length e then e ! d else lg_buffer (ls_lg s) ! ((l + d) mod n))"
  shows "content_ok cfg (goto t (LCopied e l) (set_lg ((ls_lg s)\<lparr>lg_buffer := buf\<rparr>) s))"
proof -
  let ?lg = "ls_lg s" let ?img = "log_image (ls_log s)" let ?sa = "size_aligned (length e)"
  have fl: "lg_persistent ?lg \<le> l" "l + ?sa \<le> lg_lsn ?lg" "\<And>j. j < ?sa \<Longrightarrow> ?img ! (l + j) = entry_image e ! j"
    using workerD(2)[OF assms(2,3)] assms(4) by (auto simp: flight_ok_def)
  have win: "lg_lsn ?lg \<le> lg_persistent ?lg + n" using assms(2,5) by (simp add: log_inv_defs)
  have "?img ! i \<in> {None, Some (buf ! (i mod n))}"
    if i: "lg_persistent ?lg \<le> i" "i < lg_lsn ?lg" "\<forall>u<lc_thread_cnt cfg. u \<noteq> t \<longrightarrow> \<not> covers (ls_pc s u) i" for i
  proof (cases "l \<le> i \<and> i < l + ?sa")
    case True
    then obtain j where j: "i = l + j" "j < ?sa" using le_Suc_ex by (metis nat_add_left_cancel_less)
    moreover have "j < n" using j fl win i(2) by linarith
    ultimately show ?thesis using fl(3)[of j] assms(6) by (auto simp: entry_image_def nth_append)
  next
    case False
    then have "\<forall>u<lc_thread_cnt cfg. \<not> covers (ls_pc s u) i" using i(3) assms(4) by (metis covers.simps(1))
    then have old: "?img ! i \<in> {None, Some (lg_buffer ?lg ! (i mod n))}" using assms(2,5) i(1,2) by (simp add: log_inv_def content_ok_def)
    obtain d where d: "(l + d) mod n = i mod n" "d < n" "length e \<le> d"
    proof (cases "l \<le> i")
      case True
      then show ?thesis using that[of "i - l"] False i(2) fl win size_aligned_ge[of "length e"] by auto
    next
      case below: False
      then have "l + (i + n - l) = i + n" using fl win i(1) by linarith
      then show ?thesis using that[of "i + n - l"] below fl win i(1) size_aligned_ge[of "length e"] by auto
    qed
    then have "buf ! (i mod n) = lg_buffer ?lg ! (i mod n)" using assms(6) by (metis linorder_not_less)
    then show ?thesis using old by simp
  qed
  then show ?thesis using assms(5) by (auto simp: content_ok_def goto_def set_lg_def)
qed

lemma entry_fits:
  assumes "log_cfg_ok cfg" "t < lc_thread_cnt cfg" "entry_ok cfg e"
  shows "length e < lc_buffer_size cfg"
proof -
  have "lc_max_entry cfg \<le> lc_max_entry cfg * lc_thread_cnt cfg" using assms(2) by (cases "lc_thread_cnt cfg") auto
  then show ?thesis using assms(1,3) unfolding entry_ok_def log_cfg_ok_def by linarith
qed

lemma copy_inv:
  assumes "log_cfg_ok cfg" "log_inv cfg s" "t < lc_thread_cnt cfg" "ls_pc s t = LTaken e l" "log_copy cfg l e (ls_lg s) = Inr lg'"
  shows "log_inv cfg (goto t (LCopied e l) (set_lg lg' s))"
proof -
  let ?n = "lc_buffer_size cfg"
  have ok: "entry_ok cfg e" "flight_ok (ls_lg s) (log_image (ls_log s)) t e l" using workerD[OF assms(2,3)] assms(4) by auto
  have "length e < ?n" using entry_fits[OF assms(1,3) ok(1)] .
  moreover have len: "length (lg_buffer (ls_lg s)) = ?n + lc_max_entry cfg" using assms(2) by (simp add: log_inv_defs)
  ultimately obtain buf where buf: "lg' = (ls_lg s)\<lparr>lg_buffer := buf\<rparr>" "length buf = ?n + lc_max_entry cfg"
      "\<forall>d<?n. buf ! ((l + d) mod ?n) = (if d < length e then e ! d else lg_buffer (ls_lg s) ! ((l + d) mod ?n))"
    using log_copy_nth[of "ls_lg s" ?n "lc_max_entry cfg" cfg e l] assms(5) by auto
  have "flight_ok lg' (log_image (ls_log s)) t e l" using ok(2) buf(1) by (simp add: flight_ok_def)
  then show ?thesis
    using worker_step_inv[OF assms(2,3), of lg' "ls_log s" "[]" "LCopied e l"] copy_content[OF assms(1-4) refl buf(3)]
      pending_same[OF assms(2,3), of "LCopied e l"] workerD[OF assms(2,3)] assms(4) ok(1) buf(1,2) len
    by simp
qed

lemma send_inv:
  assumes "log_inv cfg s" "t < lc_thread_cnt cfg" "ls_pc s t = LCopied e l" "log_send e (ls_lg s) = Inr lg'"
  shows "log_inv cfg (goto t (LSent e l) (set_lg lg' s))"
proof -
  obtain rs ms where lg': "lg' = (ls_lg s)\<lparr>lg_remote := rs, lg_net := lg_net (ls_lg s) @ ms\<rparr>"
    using assms(4) by (auto simp: log_send_def res_simps split: prod.splits)
  show ?thesis
    using assms(3) workerD[OF assms(1,2)] pending_same[OF assms(1,2), of "LSent e l"] lg'
    by (intro quiet_step_inv[OF assms(1,2)]) (auto simp: flight_ok_def)
qed

lemma fill_inv:
  assumes "log_inv cfg s" "t < lc_thread_cnt cfg" "ls_pc s t = LSent e l"
  shows "log_inv cfg (goto t LIdle (set_lg ((ls_lg s)\<lparr>lg_filled := (lg_filled (ls_lg s))(t := l + size_aligned (length e))\<rparr>) s))"
  using assms(3) workerD[OF assms(1,2)] pending_same[OF assms(1,2), of LIdle]
  by (intro quiet_step_inv[OF assms(1,2)]) (auto simp: flight_ok_def)

lemma flush_ready_spec:
  assumes "log_cfg_ok cfg" "log_inv cfg s" "r \<le> lg_lsn (ls_lg s)" "flush_ready cfg r (ls_lg s) = Inr (Some (e, lg'))"
  shows "lg_persistent (ls_lg s) \<le> e \<and> e \<le> r \<and> e mod 512 = 0 \<and>
    lg' = (ls_lg s)\<lparr>lg_fd_data := lg_fd_data (ls_lg s) @ map (\<lambda>i. lg_buffer (ls_lg s) ! (i mod lc_buffer_size cfg)) [lg_persistent (ls_lg s)..<e]\<rparr>"
proof -
  let ?p = "lg_persistent (ls_lg s)" let ?n = "lc_buffer_size cfg"
  obtain e0 where e0: "e0 = r - r mod 512" by blast
  let ?e = "if lc_flush_block cfg < sub64 e0 ?p then ?p + lc_flush_block cfg else e0"
  have c: "512 dvd lc_flush_block cfg" "lc_flush_block cfg < ?n" "?n < 2 ^ 32" using assms(1) by (auto simp: log_cfg_ok_def)
  have p: "512 dvd ?p" "lg_lsn (ls_lg s) \<le> ?p + ?n" "length (lg_buffer (ls_lg s)) = ?n + lc_max_entry cfg"
    using assms(2) by (auto simp: log_inv_defs)
  have r: "?p \<le> r" "log_flush cfg ?p ?e (ls_lg s) = Inr lg'" "e = ?e"
    using assms(4) by (auto simp: flush_ready_def Let_def res_simps e0 split: if_splits)
  have "?p div 512 * 512 \<le> r div 512 * 512" using r(1) by (intro mult_le_mono1 div_le_mono)
  then have e0: "?p \<le> e0" "512 dvd e0" "e0 \<le> r" using p(1) by (auto simp: e0 minus_mod_eq_div_mult)
  have "sub64 e0 ?p = e0 - ?p" using e0 assms(3) p(2) c(3) by (intro sub64_le) auto
  then have e: "?p \<le> e" "e \<le> r" "512 dvd e" "e - ?p \<le> lc_flush_block cfg" using r(3) e0 p(1) c(1) by (auto split: if_splits)
  then show ?thesis using log_flush_spec[of ?p e ?n cfg "ls_lg s"] r(2,3) c(2,3) p(3) by simp
qed

lemma flush_write_inv:
  assumes "log_cfg_ok cfg" "log_inv cfg s" "ls_flush s = FScan r []" "flush_ready cfg r (ls_lg s) = Inr (Some (e, lg'))"
  shows "log_inv cfg (set_lg lg' (s\<lparr>ls_flush := FWritten r e\<rparr>))"
proof -
  let ?p = "lg_persistent (ls_lg s)" let ?n = "lc_buffer_size cfg" let ?img = "log_image (ls_log s)"
  have sc: "r \<le> lg_lsn (ls_lg s)" "length (lg_fd_data (ls_lg s)) = ?p"
      "\<And>t x l. t < lc_thread_cnt cfg \<Longrightarrow> in_flight (ls_pc s t) = Some (x, l) \<Longrightarrow> r \<le> l"
    using assms(2,3) by (auto simp: log_inv_def)
  note e = flush_ready_spec[OF assms(1,2) sc(1) assms(4)]
  let ?new = "map (\<lambda>i. lg_buffer (ls_lg s) ! (i mod ?n)) [?p..<e]"
  have "?img ! i \<in> {None, Some (lg_buffer (ls_lg s) ! (i mod ?n))}" if "?p \<le> i" "i < e" for i
  proof -
    have "\<not> covers (ls_pc s t) i" if "t < lc_thread_cnt cfg" for t
      using sc(3)[OF that] \<open>i < e\<close> e by (cases "ls_pc s t") auto
    then show ?thesis using assms(2) that e sc(1) by (simp add: log_inv_def content_ok_def)
  qed
  then have "front_of (lg_fd_data (ls_lg s) @ ?new) ?img"
    using assms(2) sc(1,2) e unfolding log_inv_def room_ok_def front_of_def by (auto simp: nth_append not_less) blast
  moreover have "worker_ok lg' ?img t pc \<longleftrightarrow> worker_ok (ls_lg s) ?img t pc" for t pc
    using e by (cases pc) (auto simp: flight_ok_def)
  moreover have "length (lg_fd_data (ls_lg s) @ ?new) = e" using sc(2) e by simp
  ultimately show ?thesis using assms(2) sc(1,3) e by (auto simp: log_inv_defs set_lg_def intro: le_trans)
qed

lemma flush_persist_inv:
  assumes "log_inv cfg s" "ls_flush s = FWritten r e"
  shows "log_inv cfg (set_lg (flush_done cfg r e (ls_lg s)) (s\<lparr>ls_flush := FIdle\<rparr>))"
proof -
  have w: "lg_persistent (ls_lg s) \<le> e" "e \<le> lg_lsn (ls_lg s)" "e mod 512 = 0" "length (lg_fd_data (ls_lg s)) = e"
    "\<And>t x l. t < lc_thread_cnt cfg \<Longrightarrow> in_flight (ls_pc s t) = Some (x, l) \<Longrightarrow> e \<le> l"
    using assms by (auto simp: log_inv_def)
  have "worker_ok (flush_done cfg r e (ls_lg s)) (log_image (ls_log s)) t (ls_pc s t)" if "t < lc_thread_cnt cfg" for t
    using workerD(2)[OF assms(1) that] w(5)[OF that] by (cases "ls_pc s t") (auto simp: flight_ok_def flush_done_def Let_def)
  then show ?thesis using assms(1) w by (auto simp: log_inv_defs set_lg_def flush_done_def Let_def)
qed

lemma in_flightD:
  assumes "log_inv cfg s" "t < lc_thread_cnt cfg" "in_flight (ls_pc s t) = Some (x, l)"
  shows "lg_filled (ls_lg s) t \<le> lg_allocate (ls_lg s) t" "lg_allocate (ls_lg s) t \<le> l" "l \<le> lg_lsn (ls_lg s)"
  using workerD(2)[OF assms(1,2)] assms(3) by (cases "ls_pc s t"; auto simp: flight_ok_def)+

lemma scan_step_inv:
  assumes "log_inv cfg s" "scan_ok cfg s f"
  shows "log_inv cfg (s\<lparr>ls_flush := f\<rparr>)"
proof -
  have "scan_ok cfg (s\<lparr>ls_flush := f\<rparr>) f" using assms(2) by (cases f) auto
  then show ?thesis using assms(1) by (auto simp: log_inv_defs)
qed

lemma log_step_inv:
  assumes "log_cfg_ok cfg" "log_step cfg True s s'" "log_inv cfg s"
  shows "log_inv cfg s'"
  using assms(2)
proof cases
  case (room t e)
  then show ?thesis using room_inv[OF assms(1,3)] by simp
next
  case (read_lsn t e)
  then show ?thesis
    using quiet_step_inv[OF assms(3), of t "ls_lg s" "LRead e (lg_lsn (ls_lg s))"] workerD[OF assms(3), of t]
      pending_same[OF assms(3), of t "LRead e (lg_lsn (ls_lg s))"] by (simp add: set_lg_def)
next
  case (announce t e x)
  then show ?thesis using announce_inv[OF assms(3)] by simp
next
  case (take_sync t e l)
  then show ?thesis using take_inv[OF assms(3)] by simp
next
  case (take_write t e l)
  then show ?thesis using workerD(2)[OF assms(3), of t] by simp
next
  case (copy t e l lg')
  then show ?thesis using copy_inv[OF assms(1,3)] by simp
next
  case (send t e l lg')
  then show ?thesis using send_inv[OF assms(3)] by simp
next
  case (fill t e l)
  then show ?thesis using fill_inv[OF assms(3)] by simp
next
  case flush_start
  then show ?thesis using scan_step_inv[OF assms(3)] assms(1,3) by (simp add: log_inv_def scan_ids_all)
next
  case (flush_filled r i js)
  then have "scan_ok cfg s (FScan r (i # js))" using assms(3) by (simp add: log_inv_def)
  moreover have "r \<le> l \<or> t = i \<and> lg_filled (ls_lg s) i \<le> lg_allocate (ls_lg s) i"
    if "t < lc_thread_cnt cfg" "in_flight (ls_pc s t) = Some (x, l)" "t \<notin> set js" for t x l
    using that in_flightD(1)[OF assms(3) that(1,2)] calculation by (cases "t = i") auto
  ultimately show ?thesis using flush_filled scan_step_inv[OF assms(3), of "FFilled r i (lg_filled (ls_lg s) i) js"] by simp
next
  case (flush_allocate r i f js)
  then have "scan_ok cfg s (FFilled r i f js)" using assms(3) by (simp add: log_inv_def)
  moreover have "lower_ready r f (lg_allocate (ls_lg s) i) \<le> l"
    if "t < lc_thread_cnt cfg" "in_flight (ls_pc s t) = Some (x, l)" "t \<notin> set js" for t x l
    using that in_flightD(2)[OF assms(3) that(1,2)] calculation by (force simp: lower_ready_def)
  moreover have "lower_ready r f (lg_allocate (ls_lg s) i) \<le> r" by (simp add: lower_ready_def)
  ultimately show ?thesis
    using flush_allocate scan_step_inv[OF assms(3), of "FScan (lower_ready r f (lg_allocate (ls_lg s) i)) js"] by simp
next
  case (flush_skip r)
  then show ?thesis using scan_step_inv[OF assms(3), of FIdle] assms(3) by (simp add: log_inv_def)
next
  case (flush_write r e lg')
  then show ?thesis using flush_write_inv[OF assms(1,3)] by simp
next
  case (flush_persist r e)
  then show ?thesis using flush_persist_inv[OF assms(3)] by simp
qed simp

lemma log_reach_inv: "log_cfg_ok cfg \<Longrightarrow> log_reach cfg True junk s \<Longrightarrow> log_inv cfg s"
  unfolding log_reach_def
  by (rotate_tac, induction rule: rtranclp_induct) (auto intro: log_init_inv log_step_inv)

lemma log_reach_file:
  assumes "log_cfg_ok cfg" "log_reach cfg True junk s"
  shows "front_of (lg_fd_data (ls_lg s)) (log_image (ls_log s))" "512 dvd length (lg_fd_data (ls_lg s))"
proof -
  note inv = log_reach_inv[OF assms]
  show "front_of (lg_fd_data (ls_lg s)) (log_image (ls_log s))" using inv by (simp add: log_inv_def)
  show "512 dvd length (lg_fd_data (ls_lg s))" using inv by (cases "ls_flush s") (auto simp: log_inv_def room_ok_def)
qed

section \<open>Theorems\<close>

text \<open>
  C28: With atomic reservations, however the workers and the log thread interleave, the file is a
  front of the log: it holds the bytes of the entries at the positions that were reserved for them,
  in the order of the reservations and without gaps, up to at least \<open>_persistent_lsn\<close>; no byte of
  an entry that is still being copied is in the file, none is overwritten in the buffer before it is
  in the file, and no copy overruns the buffer.
\<close>

theorem log_file_is_front:
  assumes "log_cfg_ok cfg" "log_reach cfg True junk s"
  shows "front_of (lg_fd_data (ls_lg s)) (log_image (ls_log s)) \<and> lg_persistent (ls_lg s) \<le> length (lg_fd_data (ls_lg s)) \<and>
    (\<forall>t<lc_thread_cnt cfg. \<forall>e l. ls_pc s t = LTaken e l \<longrightarrow>
       length (lg_fd_data (ls_lg s)) \<le> l \<and> (\<exists>lg'. log_copy cfg l e (ls_lg s) = Inr lg'))"
proof -
  note inv = log_reach_inv[OF assms]
  have sc: "scan_ok cfg s (ls_flush s)" "front_of (lg_fd_data (ls_lg s)) (log_image (ls_log s))" using inv by (auto simp: log_inv_def)
  have "length (lg_fd_data (ls_lg s)) \<le> l \<and> (\<exists>lg'. log_copy cfg l e (ls_lg s) = Inr lg')"
    if t: "t < lc_thread_cnt cfg" "ls_pc s t = LTaken e l" for t e l
  proof
    have "lg_persistent (ls_lg s) \<le> l" using workerD(2)[OF inv t(1)] t(2) by (auto simp: flight_ok_def)
    then show "length (lg_fd_data (ls_lg s)) \<le> l" using sc(1) t by (cases "ls_flush s") fastforce+
    have "length e < lc_buffer_size cfg" using entry_fits[OF assms(1) t(1), of e] workerD(3)[OF inv t(1)] t(2) by simp
    then show "\<exists>lg'. log_copy cfg l e (ls_lg s) = Inr lg'"
      using log_copy_nth[of "ls_lg s" "lc_buffer_size cfg" "lc_max_entry cfg" cfg e l] inv by (auto simp: log_inv_def room_ok_def)
  qed
  moreover have "lg_persistent (ls_lg s) \<le> length (lg_fd_data (ls_lg s))" using sc(1) by (cases "ls_flush s") auto
  ultimately show ?thesis using sc(2) by blast
qed

text \<open>A scheduler that names the next step.\<close>

datatype log_act = Room nat bytes | Work nat | Flush

fun work_step :: "log_cfg \<Rightarrow> bool \<Rightarrow> nat \<Rightarrow> log_sys \<Rightarrow> log_pc \<Rightarrow> log_sys option" where
  "work_step cfg sync t s LIdle = None"
| "work_step cfg sync t s (LRoom e) = Some (goto t (LRead e (lg_lsn (ls_lg s))) s)"
| "work_step cfg sync t s (LRead e x) =
     Some (goto t (LAnnounced e) (set_lg ((ls_lg s)\<lparr>lg_allocate := (lg_allocate (ls_lg s))(t := x)\<rparr>) s))"
| "work_step cfg sync t s (LAnnounced e) =
     (if sync then Some (goto t (LTaken e (lg_lsn (ls_lg s))) (set_lg ((ls_lg s)\<lparr>lg_lsn := lg_lsn (ls_lg s) + size_aligned (length e)\<rparr>)
          (s\<lparr>ls_log := ls_log s @ [e]\<rparr>)))
      else Some (goto t (LReserving e (lg_lsn (ls_lg s))) s))"
| "work_step cfg sync t s (LReserving e l) =
     Some (goto t (LTaken e l) (set_lg ((ls_lg s)\<lparr>lg_lsn := lg_lsn (ls_lg s) + size_aligned (length e)\<rparr>) (s\<lparr>ls_log := ls_log s @ [e]\<rparr>)))"
| "work_step cfg sync t s (LTaken e l) = (case log_copy cfg l e (ls_lg s) of Inl _ \<Rightarrow> None | Inr lg' \<Rightarrow> Some (goto t (LCopied e l) (set_lg lg' s)))"
| "work_step cfg sync t s (LCopied e l) = (case log_send e (ls_lg s) of Inl _ \<Rightarrow> None | Inr lg' \<Rightarrow> Some (goto t (LSent e l) (set_lg lg' s)))"
| "work_step cfg sync t s (LSent e l) =
     Some (goto t LIdle (set_lg ((ls_lg s)\<lparr>lg_filled := (lg_filled (ls_lg s))(t := l + size_aligned (length e))\<rparr>) s))"

fun flush_step :: "log_cfg \<Rightarrow> log_sys \<Rightarrow> flush_pc \<Rightarrow> log_sys option" where
  "flush_step cfg s FIdle = Some (s\<lparr>ls_flush := FScan (lg_lsn (ls_lg s)) (scan_ids cfg)\<rparr>)"
| "flush_step cfg s (FScan r (i # is)) = Some (s\<lparr>ls_flush := FFilled r i (lg_filled (ls_lg s) i) is\<rparr>)"
| "flush_step cfg s (FFilled r i f is) = Some (s\<lparr>ls_flush := FScan (lower_ready r f (lg_allocate (ls_lg s) i)) is\<rparr>)"
| "flush_step cfg s (FScan r []) = (case flush_ready cfg r (ls_lg s) of Inl _ \<Rightarrow> None | Inr None \<Rightarrow> Some (s\<lparr>ls_flush := FIdle\<rparr>)
     | Inr (Some (end_lsn, lg')) \<Rightarrow> Some (set_lg lg' (s\<lparr>ls_flush := FWritten r end_lsn\<rparr>)))"
| "flush_step cfg s (FWritten r end_lsn) = Some (set_lg (flush_done cfg r end_lsn (ls_lg s)) (s\<lparr>ls_flush := FIdle\<rparr>))"

fun log_run :: "log_cfg \<Rightarrow> bool \<Rightarrow> log_act list \<Rightarrow> log_sys \<Rightarrow> log_sys option" where
  "log_run cfg sync [] s = Some s"
| "log_run cfg sync (Room t e # as) s =
     (if t < lc_thread_cnt cfg \<and> ls_pc s t = LIdle \<and> entry_ok cfg e \<and> \<not> log_full cfg (ls_lg s) (length e)
      then log_run cfg sync as (goto t (LRoom e) s) else None)"
| "log_run cfg sync (Work t # as) s =
     (if t < lc_thread_cnt cfg then Option.bind (work_step cfg sync t s (ls_pc s t)) (log_run cfg sync as) else None)"
| "log_run cfg sync (Flush # as) s = Option.bind (flush_step cfg s (ls_flush s)) (log_run cfg sync as)"

lemma work_step_sound: "work_step cfg sync t s (ls_pc s t) = Some s' \<Longrightarrow> t < lc_thread_cnt cfg \<Longrightarrow> log_step cfg sync s s'"
  by (cases "ls_pc s t") (auto split: if_splits sum.splits intro: log_step.intros)

lemma flush_step_sound: "flush_step cfg s (ls_flush s) = Some s' \<Longrightarrow> log_step cfg sync s s'"
  by (cases "(cfg, s, ls_flush s)" rule: flush_step.cases) (auto split: sum.splits option.splits intro: log_step.intros)

lemma log_run_sound: "log_run cfg sync as s = Some s' \<Longrightarrow> (log_step cfg sync)\<^sup>*\<^sup>* s s'"
  by (induction cfg sync as s rule: log_run.induct)
    (auto split: if_splits bind_splits intro: converse_rtranclp_into_rtranclp log_step.room work_step_sound flush_step_sound)

text \<open>The functions \<open>logTxn\<close> and \<open>tryFlush\<close> are runs of these steps without interruption.\<close>

lemma logTxn_run:
  assumes "logTxn cfg t e (ls_lg s) = Inr (Some lsn, lg')" "t < lc_thread_cnt cfg" "ls_pc s t = LIdle" "entry_ok cfg e"
  shows "\<exists>s'. log_run cfg True [Room t e, Work t, Work t, Work t, Work t, Work t, Work t] s = Some s' \<and> ls_lg s' = lg' \<and>
    ls_pc s' = ls_pc s \<and> ls_log s' = ls_log s @ [e]"
proof -
  let ?lg1 = "(ls_lg s)\<lparr>lg_allocate := (lg_allocate (ls_lg s))(t := lg_lsn (ls_lg s))\<rparr>"
  let ?lg2 = "?lg1\<lparr>lg_lsn := lg_lsn (ls_lg s) + size_aligned (length e)\<rparr>"
  obtain lg3 lg4 where "\<not> log_full cfg (ls_lg s) (length e)" "log_copy cfg (lg_lsn (ls_lg s)) e ?lg2 = Inr lg3" "log_send e lg3 = Inr lg4"
      "lg' = lg4\<lparr>lg_filled := (lg_filled lg4)(t := lg_lsn (ls_lg s) + size_aligned (length e))\<rparr>"
    using assms(1,4) by (auto simp: logTxn_def entry_ok_def Let_def res_simps split: if_splits)
  then show ?thesis using assms(2-4) by (auto simp: goto_def set_lg_def)
qed

lemma scan_run:
  "ls_flush s = FScan r is \<Longrightarrow> log_run cfg sync (replicate (2 * length is) Flush @ as) s =
     log_run cfg sync as (s\<lparr>ls_flush := FScan (scan_ready (ls_lg s) is r) []\<rparr>)"
proof (induction "is" arbitrary: r s)
  case (Cons i "is")
  have "replicate (2 * length (i # is)) Flush = [Flush, Flush] @ replicate (2 * length is) Flush" by (simp add: numeral_2_eq_2)
  then show ?case using Cons.IH[of "s\<lparr>ls_flush := FScan (lower_ready r (lg_filled (ls_lg s) i) (lg_allocate (ls_lg s) i)) is\<rparr>"] Cons.prems by simp
next
  case Nil
  then have "s\<lparr>ls_flush := FScan r []\<rparr> = s" by simp
  then show ?case by simp
qed

lemma tryFlush_run:
  assumes "tryFlush cfg (ls_lg s) = Inr (n, lg')" "ls_flush s = FIdle"
  shows "\<exists>as s'. log_run cfg sync as s = Some s' \<and> ls_lg s' = lg' \<and> ls_flush s' = FIdle \<and> ls_pc s' = ls_pc s \<and> ls_log s' = ls_log s"
proof -
  let ?r = "scan_ready (ls_lg s) (scan_ids cfg) (lg_lsn (ls_lg s))"
  have run: "log_run cfg sync (Flush # replicate (2 * length (scan_ids cfg)) Flush @ as) s = log_run cfg sync as (s\<lparr>ls_flush := FScan ?r []\<rparr>)" for as
    using assms(2) by (simp add: scan_run)
  show ?thesis
  proof (cases "flush_ready cfg ?r (ls_lg s)")
    case (Inr res)
    show ?thesis
    proof (cases res)
      case None
      then show ?thesis using assms Inr run[of "[Flush]"] by (auto simp: tryFlush_def intro!: exI[of _ "Flush # replicate (2 * length (scan_ids cfg)) Flush @ [Flush]"])
    next
      case (Some p)
      then show ?thesis using assms Inr run[of "[Flush, Flush]"]
        by (auto simp: tryFlush_def set_lg_def split: prod.splits intro!: exI[of _ "Flush # replicate (2 * length (scan_ids cfg)) Flush @ [Flush, Flush]"])
    qed
  qed (use assms in \<open>simp add: tryFlush_def\<close>)
qed

definition log_demo_cfg :: log_cfg where
  "log_demo_cfg = \<lparr>lc_buffer_size = 2048, lc_max_entry = 512, lc_thread_cnt = 2, lc_num_logger = 1, lc_logger_id = 0, lc_flush_block = 512\<rparr>"

text \<open>Worker 1 logs an entry of a whole block, and the log thread writes it to the file.\<close>

abbreviation log_demo_run :: "bytes \<Rightarrow> log_act list" where
  "log_demo_run e \<equiv> [Room 1 e, Work 1, Work 1, Work 1, Work 1, Work 1, Work 1, Flush, Flush, Flush, Flush, Flush, Flush, Flush]"

lemma log_demo_ok: "log_cfg_ok log_demo_cfg"
  by (simp add: log_cfg_ok_def log_demo_cfg_def)

lemmas log_exec_simps = log_demo_cfg_def log_sys_init_def logger_init_def goto_def set_lg_def log_full_def size_aligned_def
  entry_ok_def log_copy_def buf_put_def log_send_def send_log_def remote_init_def logs_prefix_def pack_def scan_ids_def upt_conv_Cons lower_ready_def
  flush_ready_def log_flush_def buf_get_def sub64_def flush_done_def Let_def

lemma log_demo_runs:
  assumes "length e = 512" "announces e" "length junk = 2560"
  shows "\<exists>s. log_run log_demo_cfg True (log_demo_run e) (log_sys_init log_demo_cfg junk) = Some s \<and>
    ls_log s = [e] \<and> lg_fd_data (ls_lg s) = e \<and> lg_persistent (ls_lg s) = 512"
  using assms by (cases "e = []") (simp_all add: log_exec_simps)

lemma log_run_reach: "log_run cfg sync as (log_sys_init cfg junk) = Some s \<Longrightarrow> log_reach cfg sync junk s"
  by (simp add: log_reach_def log_run_sound)

theorem log_file_is_front_witness:
  "\<exists>s. log_reach log_demo_cfg True (replicate 2560 7) s \<and> ls_log s = [replicate 512 1] \<and> length (lg_fd_data (ls_lg s)) = 512 \<and>
    front_of (lg_fd_data (ls_lg s)) (log_image (ls_log s))"
proof -
  have "length (replicate 512 (1 :: u8)) = 512" "announces (replicate 512 1)" "length (replicate 2560 (7 :: u8)) = 2560"
    by (simp_all only: length_replicate announces_def hd_replicate) simp
  from log_demo_runs[OF this] obtain s where "log_run log_demo_cfg True (log_demo_run (replicate 512 1)) (log_sys_init log_demo_cfg (replicate 2560 7)) = Some s"
      "ls_log s = [replicate 512 1]" "lg_fd_data (ls_lg s) = replicate 512 1" by blast
  moreover from this(1) have "log_reach log_demo_cfg True (replicate 2560 7) s" by (rule log_run_reach)
  ultimately show ?thesis
    using log_file_is_front[OF log_demo_ok, of "replicate 2560 7" s] length_replicate[of 512 "1 :: u8"] by metis
qed

section \<open>Races\<close>

text \<open>
   Without the atomic reservation, which \<open>serialLogTxn\<close> requests only for \<open>SILO\<close> and
  \<open>NO_WAIT\<close>, two workers can reserve the same range of the log, whatever their entries are: both
  then copy their entry to the same place, and one of them is lost.
\<close>

theorem log_unsync_same_range:
  assumes "log_cfg_ok cfg" "2 \<le> lc_thread_cnt cfg" "entry_ok cfg e" "entry_ok cfg e'"
    "lc_max_entry cfg * (lc_thread_cnt cfg + 1) < lc_buffer_size cfg"
  shows "\<exists>s. log_reach cfg False junk s \<and> ls_log s = [e, e'] \<and> ls_pc s 0 = LTaken e 0 \<and> ls_pc s 1 = LTaken e' 0"
proof -
  have "\<not> log_full cfg (logger_init cfg junk) (length x)" if "entry_ok cfg x" for x
    using that assms(1,5) by (auto simp: log_full_def entry_ok_def logger_init_def log_cfg_ok_def)
  then have "\<exists>s. log_run cfg False [Room 0 e, Room 1 e', Work 0, Work 0, Work 1, Work 1, Work 0, Work 1, Work 0, Work 1] (log_sys_init cfg junk) = Some s \<and>
      ls_log s = [e, e'] \<and> ls_pc s 0 = LTaken e 0 \<and> ls_pc s 1 = LTaken e' 0"
    using assms(2-4) by (simp add: log_sys_init_def goto_def set_lg_def) (simp add: logger_init_def)
  then show ?thesis using log_run_reach by blast
qed

theorem log_unsync_same_range_witness:
  "\<exists>s. log_reach log_demo_cfg False [] s \<and> ls_log s = [[1], [2, 3]] \<and> ls_pc s 0 = LTaken [1] 0 \<and> ls_pc s 1 = LTaken [2, 3] 0"
  using log_unsync_same_range[OF log_demo_ok, of "[1]" "[2, 3]" "[]"] by (simp add: log_demo_cfg_def entry_ok_def announces_def)

text \<open>
   The publication of \<open>_allocate_lsn\<close> is not atomic: when a worker reads \<open>_lsn\<close>, the log thread
  flushes beyond it, and the worker then publishes the value it read, the next \<open>tryFlush\<close> computes
  a \<open>ready_lsn\<close> below \<open>_persistent_lsn\<close>, takes their wrapped difference for a full block, and stops
  at its assertion.
\<close>

theorem flush_assert_reachable:
  "\<exists>junk s r. log_reach log_demo_cfg True junk s \<and> ls_flush s = FScan r [] \<and> r < lg_persistent (ls_lg s) \<and>
     flush_ready log_demo_cfg r (ls_lg s) = Inl Assert_Fail"
proof -
  obtain e junk :: bytes where e: "e = replicate 512 1" and junk: "junk = replicate 2560 0" by blast
  have len: "length e = 512" "announces e" "length junk = 2560"
    unfolding e junk announces_def by (simp_all only: length_replicate hd_replicate) simp
  let ?run = "[Room 0 [1], Work 0] @ log_demo_run e @ [Work 0, Flush, Flush, Flush, Flush, Flush]"
  have "\<exists>s r. log_run log_demo_cfg True ?run (log_sys_init log_demo_cfg junk) = Some s \<and> ls_flush s = FScan r [] \<and>
      r < lg_persistent (ls_lg s) \<and> flush_ready log_demo_cfg r (ls_lg s) = Inl Assert_Fail"
    using len by (cases "e = []") (simp_all add: log_exec_simps announces_def[of "[_]"])
  then show ?thesis using log_run_reach by blast
qed

end
