(* ===== verification/Log_Reader.thy ===== *)
theory Log_Reader
  imports Log_Buffer
begin

text \<open>
  Recovery from the log file: \<open>Logger::tryReadLog\<close>, \<open>get_next_log_entry_non_atom\<close> and
  \<open>set_gc_lsn\<close> of \<open>untrusted/system/logger.cpp\<close>, and the loop of \<open>re_txn_man::recover\<close>
  (\<open>untrusted/system/re_txn.cpp\<close>). The log thread reads the file into the circular buffer, whose first
  bytes are repeated behind its end so that an entry that wraps around can be used in place; the
  recovery thread takes one entry after the other out of it. The two are interleaved at the
  granularity of these calls. A \<open>read\<close> returns what is left of the file, up to the number of bytes
  asked for; a returned entry is the memory from its address on.

  The sizes of the buffer and of the block that one call reads are those that the command line
  parser (\<open>untrusted/system/parser.cpp\<close>) leaves: it enlarges a buffer that is not more than twice as
  large as the block.

  Shown: whatever the order of the calls, no assertion fails and the entries of the log come out
  unchanged and in order, but the last entry of the file never does; if every reading call is followed
  by enough calls that take entries, all the others come out; and \<open>recover\<close> stops at an
  assertion on the first entry it replays.
\<close>

section \<open>Reading the file\<close>

record rd_cfg = log_cfg +
  lc_read_block :: nat

record log_reader =
  lr_disk :: nat
  lr_next :: nat
  lr_gc :: "nat \<Rightarrow> nat"
  lr_buffer :: bytes
  lr_fd_pos :: nat
  lr_eof :: bool

definition reader_init :: "rd_cfg \<Rightarrow> bytes \<Rightarrow> log_reader" where
  "reader_init cfg junk = \<lparr>lr_disk = 0, lr_next = 0, lr_gc = (\<lambda>_. 0),
     lr_buffer = take (lc_buffer_size cfg + lc_max_entry cfg) (junk @ replicate (lc_buffer_size cfg + lc_max_entry cfg) 0),
     lr_fd_pos = 0, lr_eof = False\<rparr>"

fun gc_scan :: "log_reader \<Rightarrow> nat list \<Rightarrow> nat \<Rightarrow> nat" where
  "gc_scan rd [] gc_lsn = gc_lsn"
| "gc_scan rd (i # is) gc_lsn = gc_scan rd is (if lr_gc rd i < gc_lsn \<and> lr_gc rd i \<noteq> 0 then lr_gc rd i else gc_lsn)"

text \<open>\<open>read\<close> from the file into the buffer, and \<open>memcpy\<close> within the buffer.\<close>

definition fd_read :: "bytes \<Rightarrow> nat \<Rightarrow> nat \<Rightarrow> log_reader \<Rightarrow> (nat \<times> log_reader) res" where
  "fd_read file off n rd = (let bs = take n (drop (lr_fd_pos rd) file) in
     bind_res (buf_put (lr_buffer rd) off bs) (\<lambda>buf. Inr (length bs, rd\<lparr>lr_buffer := buf, lr_fd_pos := lr_fd_pos rd + length bs\<rparr>)))"

definition buf_copy :: "nat \<Rightarrow> nat \<Rightarrow> nat \<Rightarrow> log_reader \<Rightarrow> log_reader res" where
  "buf_copy dst src n rd = bind_res (buf_get (lr_buffer rd) src n) (\<lambda>bs.
     bind_res (buf_put (lr_buffer rd) dst bs) (\<lambda>buf. Inr (rd\<lparr>lr_buffer := buf\<rparr>)))"

definition set_eof :: "bool \<Rightarrow> log_reader \<Rightarrow> log_reader" where
  "set_eof b rd = (if b then rd\<lparr>lr_eof := True\<rparr> else rd)"

text \<open>The two branches of \<open>tryReadLog\<close> that read the range of the log, with the number of bytes read.\<close>

definition read_wrapped :: "rd_cfg \<Rightarrow> bytes \<Rightarrow> nat \<Rightarrow> nat \<Rightarrow> log_reader \<Rightarrow> (nat \<times> log_reader) res" where
  "read_wrapped cfg file start_lsn end_lsn rd =
     (let n = lc_buffer_size cfg; m = lc_max_entry cfg; sm = start_lsn mod n; em = end_lsn mod n; tail_size = n - sm in
      bind_res (fd_read file sm tail_size rd) (\<lambda>(bytes, rd).
      bind_res (if sm < m then buf_copy (sm + n) sm (m - sm) rd else Inr rd) (\<lambda>rd.
        if bytes < tail_size then Inr (bytes, set_eof True rd)
        else bind_res (fd_read file 0 em rd) (\<lambda>(bytes2, rd).
          let bytes = bytes + bytes2; rd = set_eof (bytes < sub64 end_lsn start_lsn) rd in
          bind_res (buf_copy n 0 (if em < m then em else m) rd) (\<lambda>rd. Inr (bytes, rd))))))"

definition read_straight :: "rd_cfg \<Rightarrow> bytes \<Rightarrow> nat \<Rightarrow> nat \<Rightarrow> log_reader \<Rightarrow> (nat \<times> log_reader) res" where
  "read_straight cfg file start_lsn end_lsn rd =
     (let n = lc_buffer_size cfg; m = lc_max_entry cfg; sm = start_lsn mod n; em = end_lsn mod n in
      bind_res (fd_read file sm (sub64 end_lsn start_lsn) rd) (\<lambda>(bytes, rd).
        let rd = set_eof (bytes < sub64 end_lsn start_lsn) rd in
        bind_res (if sm < m then buf_copy (sm + n) sm ((if 0 < em \<and> em < m then em else m) - sm) rd else Inr rd) (\<lambda>rd.
          Inr (bytes, rd))))"

definition tryReadLog :: "rd_cfg \<Rightarrow> bytes \<Rightarrow> log_reader \<Rightarrow> (nat \<times> log_reader) res" where
  "tryReadLog cfg file rd =
     (let n = lc_buffer_size cfg; gc_lsn = gc_scan rd (scan_ids (log_cfg.truncate cfg)) (lr_next rd) in
      assert_res (gc_lsn \<le> lr_disk rd)
       (if n div 2 < sub64 (lr_disk rd) gc_lsn then Inr (0, rd)
        else assert_res (lr_disk rd mod 512 = 0)
         (let start_lsn = lr_disk rd; gc_lsn = gc_lsn - gc_lsn mod 512; budget = lc_read_block cfg;
              end_lsn = start_lsn + budget;
              end_lsn = (if n \<le> sub64 end_lsn gc_lsn then gc_lsn + n - 512 else end_lsn) in
          if sub64 end_lsn start_lsn < budget div 2 then Inr (0, rd)
          else if start_lsn = end_lsn then Inr (0, rd)
          else assert_res (sub64 end_lsn start_lsn \<le> n)
           (bind_res (if 0 < end_lsn mod n \<and> end_lsn mod n \<le> start_lsn mod n
              then read_wrapped cfg file start_lsn end_lsn rd else read_straight cfg file start_lsn end_lsn rd) (\<lambda>(bytes, rd).
             Inr (bytes, rd\<lparr>lr_disk := start_lsn + bytes\<rparr>))))))"

section \<open>Taking entries out\<close>

text \<open>\<open>None\<close>: the result \<open>-1\<close> with a null entry. Sizes are 32-bit numbers.\<close>

definition align_u32 :: "u32 \<Rightarrow> u32" where
  "align_u32 n = (if n mod 64 = 0 then n else n + 64 - n mod 64)"

definition get_next_log_entry_non_atom :: "rd_cfg \<Rightarrow> log_reader \<Rightarrow> ((bytes \<times> nat) option \<times> log_reader) res" where
  "get_next_log_entry_non_atom cfg rd =
     (if lr_disk rd \<le> lr_next rd + 8 then Inr (None, rd)
      else let off = lr_next rd mod lc_buffer_size cfg in
        bind_res (buf_get (lr_buffer rd) (off + 4) 4) (\<lambda>bs.
          let sz = unat (align_u32 (bytes_u32 bs)) in
          if lr_disk rd \<le> lr_next rd + sz then Inr (None, rd)
          else Inr (Some (drop off (lr_buffer rd), lr_next rd + sz - 1), rd\<lparr>lr_next := lr_next rd + sz\<rparr>)))"

definition set_gc_lsn :: "nat \<Rightarrow> nat \<Rightarrow> log_reader \<Rightarrow> log_reader" where
  "set_gc_lsn lsn thd_id rd = rd\<lparr>lr_gc := (lr_gc rd)(thd_id := lsn)\<rparr>"

text \<open>
  One round of the loop of \<open>recover\<close> in thread 0; \<open>None\<close>: no entry yet. It hands the entry from its
  ninth byte on to \<open>recover_txn\<close>.
\<close>

definition recover_round :: "rd_cfg \<Rightarrow> bool \<Rightarrow> log_reader \<Rightarrow> ((string \<times> bytes) list option option \<times> log_reader) res" where
  "recover_round cfg hash_ycsb rd =
     bind_res (get_next_log_entry_non_atom cfg rd) (\<lambda>(r, rd). case r of
         None \<Rightarrow> Inr (None, rd)
       | Some (entry, lsn) \<Rightarrow>
           bind_res (unpack_u32 entry 0) (\<lambda>checksum. assert_res (checksum = 0xbeef \<or> hd entry = 0x7f)
             (bind_res (recover_txn hash_ycsb (drop 8 entry)) (\<lambda>batch. Inr (Some batch, set_gc_lsn lsn 0 rd)))))"

text \<open>Calls of the log thread and of a recovery thread that only collects the entries.\<close>

datatype rd_op = Read_Log | Next_Entry

fun rd_run :: "rd_cfg \<Rightarrow> bytes \<Rightarrow> rd_op list \<Rightarrow> log_reader \<Rightarrow> (bytes list \<times> log_reader) res" where
  "rd_run cfg file [] rd = Inr ([], rd)"
| "rd_run cfg file (Read_Log # ops) rd = bind_res (tryReadLog cfg file rd) (\<lambda>(_, rd). rd_run cfg file ops rd)"
| "rd_run cfg file (Next_Entry # ops) rd = bind_res (get_next_log_entry_non_atom cfg rd) (\<lambda>(r, rd). case r of
       None \<Rightarrow> rd_run cfg file ops rd
     | Some (entry, lsn) \<Rightarrow> bind_res (rd_run cfg file ops (set_gc_lsn lsn 0 rd)) (\<lambda>(es, rd). Inr (entry # es, rd)))"

text \<open>
  The end of the command line parser: it fixes the buffer size from the block sizes. With the shipped
  sizes it turns the buffer of 200 MB into one of 1600 MB before recovery.
\<close>

definition parser_buffer_size :: "bool \<Rightarrow> nat \<Rightarrow> nat \<Rightarrow> nat \<Rightarrow> nat res" where
  "parser_buffer_size log_recover flush_blocksize read_blocksize log_buffer_size =
     (let n = (if log_buffer_size div 2 \<le> flush_blocksize then flush_blocksize * 4 mod 2 ^ 64 else log_buffer_size);
          n' = (if log_recover \<and> n div 2 \<le> read_blocksize then read_blocksize * 4 mod 2 ^ 64 else n)
      in assert_res (n' mod 512 = 0) (Inr n'))"

text \<open>
  What recovery needs beside that: one logger, a block of whole sectors, and entries that are small
  against the buffer.
\<close>

definition recovery_sizes :: "rd_cfg \<Rightarrow> bool" where
  "recovery_sizes cfg \<longleftrightarrow> lc_num_logger cfg = 1 \<and> lc_logger_id cfg = 0 \<and> 12 \<le> lc_max_entry cfg \<and>
     lc_max_entry cfg + 1024 \<le> lc_buffer_size cfg div 2 \<and> lc_buffer_size cfg < 2 ^ 32 \<and>
     0 < lc_read_block cfg \<and> lc_read_block cfg mod 512 = 0 \<and> lc_read_block cfg < 2 ^ 32"

definition rd_cfg_ok :: "rd_cfg \<Rightarrow> bool" where
  "rd_cfg_ok cfg \<longleftrightarrow> lc_num_logger cfg = 1 \<and> lc_logger_id cfg = 0 \<and> 12 \<le> lc_max_entry cfg \<and> lc_max_entry cfg \<le> 2 ^ 31 \<and>
     lc_max_entry cfg < lc_buffer_size cfg \<and> lc_buffer_size cfg mod 512 = 0 \<and> 2048 \<le> lc_buffer_size cfg \<and> lc_buffer_size cfg < 2 ^ 32 \<and>
     lc_read_block cfg mod 512 = 0 \<and> lc_read_block cfg < lc_buffer_size cfg div 2"

text \<open>An entry as \<open>create_log_entry\<close> leaves it: it carries its size.\<close>

definition log_format :: "nat \<Rightarrow> bytes \<Rightarrow> bool" where
  "log_format m e \<longleftrightarrow> 12 \<le> length e \<and> length e \<le> m \<and> take 4 (drop 4 e) = u32_bytes (of_nat (length e))"

lemma parsed_sizes_ok:
  assumes "parser_buffer_size True flush (lc_read_block cfg) given = Inr (lc_buffer_size cfg)" "recovery_sizes cfg"
  shows "rd_cfg_ok cfg"
proof -
  have "lc_read_block cfg < lc_buffer_size cfg div 2"
    using assms by (auto simp: parser_buffer_size_def Let_def assert_res_def recovery_sizes_def split: if_splits)
  moreover have "lc_buffer_size cfg mod 512 = 0" using assms(1) by (auto simp: parser_buffer_size_def Let_def assert_res_def split: if_splits)
  ultimately show ?thesis using assms(2) by (auto simp: rd_cfg_ok_def recovery_sizes_def)
qed

lemma shipped_sizes:
  "parser_buffer_size True 1048576 419430400 (1048576 * 200) = Inr 1677721600"
  "recovery_sizes \<lparr>lc_buffer_size = 1677721600, lc_max_entry = 16384, lc_thread_cnt = 1, lc_num_logger = 1, lc_logger_id = 0,
     lc_flush_block = 1048576, lc_read_block = 419430400\<rparr>"
  by (simp_all add: parser_buffer_size_def recovery_sizes_def)

section \<open>What the buffer holds\<close>

definition holds :: "nat \<Rightarrow> nat \<Rightarrow> bytes \<Rightarrow> bytes \<Rightarrow> nat \<Rightarrow> nat \<Rightarrow> bool" where
  "holds n m file buf lo hi \<longleftrightarrow> (\<forall>i. lo \<le> i \<longrightarrow> i < hi \<longrightarrow> buf ! (i mod n) = file ! i \<and> (i mod n < m \<longrightarrow> buf ! (n + i mod n) = file ! i))"

text \<open>A segment of the buffer that is filled from the file and repeated behind the end.\<close>

definition fill_segment :: "nat \<Rightarrow> nat \<Rightarrow> nat \<Rightarrow> nat \<Rightarrow> bytes \<Rightarrow> bytes \<Rightarrow> bytes \<Rightarrow> bool" where
  "fill_segment n m sm L bs buf buf' \<longleftrightarrow> length buf' = n + m \<and>
     (\<forall>j<n. buf' ! j = (if sm \<le> j \<and> j < sm + length bs then bs ! (j - sm) else buf ! j)) \<and>
     (\<forall>j<m. buf' ! (n + j) = (if sm \<le> j \<and> j < sm + L then buf' ! j else buf ! (n + j)))"

lemma lr_buffer_set_eof [simp]: "lr_buffer (set_eof b rd) = lr_buffer rd"
  by (simp add: set_eof_def)

lemma segment_filled:
  assumes "sm + L \<le> n" "m \<le> n" "length (lr_buffer rd) = n + m" "bs = take L (drop (lr_fd_pos rd) file)"
  obtains buf1 buf2 where
    "fd_read file sm L rd = Inr (length bs, rd\<lparr>lr_buffer := buf1, lr_fd_pos := lr_fd_pos rd + length bs\<rparr>)"
    "\<And>rd'. lr_buffer rd' = buf1 \<Longrightarrow> (if sm < m then buf_copy (sm + n) sm (min (sm + L) m - sm) rd' else Inr rd') = Inr (rd'\<lparr>lr_buffer := buf2\<rparr>)"
    "fill_segment n m sm L bs (lr_buffer rd) buf2"
proof -
  have len: "length bs \<le> L" using assms(4) by simp
  obtain buf1 where b1: "buf_put (lr_buffer rd) sm bs = Inr buf1" "length buf1 = n + m"
      "\<forall>k<n + m. buf1 ! k = (if sm \<le> k \<and> k < sm + length bs then bs ! (k - sm) else lr_buffer rd ! k)"
    using buf_put_nth[of sm bs "lr_buffer rd"] len assms(1-3) by auto
  show ?thesis
  proof (cases "sm < m")
    case True
    let ?c = "min (sm + L) m"
    have seg: "buf_get buf1 sm (?c - sm) = Inr (take (?c - sm) (drop sm buf1))" using True b1(2) assms(1,2) by (auto simp: buf_get_def)
    have l: "length (take (?c - sm) (drop sm buf1)) = ?c - sm" using True b1(2) by auto
    obtain buf2 where b2: "buf_put buf1 (sm + n) (take (?c - sm) (drop sm buf1)) = Inr buf2" "length buf2 = n + m"
        "\<forall>k<n + m. buf2 ! k = (if sm + n \<le> k \<and> k < sm + n + (?c - sm) then take (?c - sm) (drop sm buf1) ! (k - (sm + n)) else buf1 ! k)"
      using buf_put_nth[of "sm + n" "take (?c - sm) (drop sm buf1)" buf1] l b1(2) True by auto
    have "fill_segment n m sm L bs (lr_buffer rd) buf2"
      unfolding fill_segment_def using b1(2,3) b2(2,3) assms(1,2) len True by (auto simp: min_def split: if_splits)
    moreover have "buf_copy (sm + n) sm (?c - sm) rd' = Inr (rd'\<lparr>lr_buffer := buf2\<rparr>)" if "lr_buffer rd' = buf1" for rd'
      using that seg b2(1) by (simp add: buf_copy_def)
    ultimately show ?thesis using that[of buf1 buf2] True b1(1) assms(4) by (simp add: fd_read_def)
  next
    case False
    then have "fill_segment n m sm L bs (lr_buffer rd) buf1" using b1(2,3) assms(1) len by (auto simp: fill_segment_def)
    moreover have "rd'\<lparr>lr_buffer := buf1\<rparr> = rd'" if "lr_buffer rd' = buf1" for rd' using that by simp
    ultimately show ?thesis using that[of buf1 buf1] False b1(1) assms(4) by (simp add: fd_read_def)
  qed
qed

lemma holds_segment:
  assumes "holds n m file buf lo s" "fill_segment n m sm L bs buf buf'" "bs = take L (drop s file)" "sm = s mod n" "sm + L \<le> n"
    "s + L \<le> lo + n" "lo \<le> s" "0 < n"
  shows "holds n m file buf' lo (s + length bs)"
  unfolding holds_def
proof (intro allI impI)
  fix i assume i: "lo \<le> i" "i < s + length bs"
  have len: "length bs \<le> L" using assms(3) by simp
  show "buf' ! (i mod n) = file ! i \<and> (i mod n < m \<longrightarrow> buf' ! (n + i mod n) = file ! i)"
  proof (cases "s \<le> i")
    case True
    then obtain d where d: "i = s + d" "d < length bs" using i(2) by (metis le_Suc_ex nat_add_left_cancel_less)
    then have "i mod n = sm + d" using mod_add_left_eq[of s n d] assms(4,5) len by simp
    moreover have "bs ! d = file ! i" using d assms(3) by auto
    ultimately show ?thesis using assms(2,5) d len by (auto simp: fill_segment_def)
  next
    case False
    have "\<not> (sm \<le> i mod n \<and> i mod n < sm + L)"
    proof
      assume "sm \<le> i mod n \<and> i mod n < sm + L"
      then obtain d where d: "i mod n = sm + d" "d < L" by (metis le_Suc_ex nat_add_left_cancel_less)
      then have "(s + d) mod n = i mod n" using mod_add_left_eq[of s n d] assms(4,5) by simp
      then show False using window_inj[of lo i n "s + d"] i False d(2) assms(6,7) by auto
    qed
    moreover have "i mod n < n" using assms(8) by simp
    ultimately show ?thesis using assms(1,2) i(1) False len by (auto simp: holds_def fill_segment_def)
  qed
qed

definition same_but_buffer :: "log_reader \<Rightarrow> log_reader \<Rightarrow> bool" where
  "same_but_buffer rd rd' \<longleftrightarrow> lr_disk rd' = lr_disk rd \<and> lr_next rd' = lr_next rd \<and> lr_gc rd' = lr_gc rd"

text \<open>What a range read has to achieve: the bytes that are left of the file, up to the end of the range.\<close>

definition range_read :: "nat \<Rightarrow> nat \<Rightarrow> bytes \<Rightarrow> nat \<Rightarrow> nat \<Rightarrow> nat \<Rightarrow> log_reader \<Rightarrow> (nat \<times> log_reader) res \<Rightarrow> bool" where
  "range_read n m file lo s e rd r \<longleftrightarrow> (\<exists>rd'. r = Inr (min (e - s) (length file - s), rd') \<and> same_but_buffer rd rd' \<and>
     lr_fd_pos rd' = s + min (e - s) (length file - s) \<and> length (lr_buffer rd') = n + m \<and>
     holds n m file (lr_buffer rd') lo (s + min (e - s) (length file - s)))"

lemma read_straight_ok:
  assumes "n = lc_buffer_size cfg" "m = lc_max_entry cfg" "m \<le> n" "n < 2 ^ 32" "length (lr_buffer rd) = n + m" "lr_fd_pos rd = s"
    "s < e" "e - s < n" "s mod n + (e - s) \<le> n" "e \<le> lo + n" "lo \<le> s" "holds n m file (lr_buffer rd) lo s"
  shows "range_read n m file lo s e rd (read_straight cfg file s e rd)"
proof -
  let ?sm = "s mod n" let ?bs = "take (e - s) (drop s file)"
  have n: "0 < n" using assms(8) by simp
  have sub: "sub64 e s = e - s" using assms(4,7,8) by (intro sub64_le) auto
  have len: "length ?bs = min (e - s) (length file - s)" by simp
  have c: "(if 0 < e mod n \<and> e mod n < m then e mod n else m) = min (?sm + (e - s)) m"
  proof -
    have "e mod n = (?sm + (e - s)) mod n" using mod_add_left_eq[of s n "e - s"] assms(7) by simp
    then have "e mod n = (if ?sm + (e - s) < n then ?sm + (e - s) else 0)" using assms(9) by auto
    then show ?thesis using assms(3,7,9) by (auto simp: min_def)
  qed
  obtain buf1 buf2 where b: "fd_read file ?sm (e - s) rd = Inr (length ?bs, rd\<lparr>lr_buffer := buf1, lr_fd_pos := s + length ?bs\<rparr>)"
    "\<And>rd'. lr_buffer rd' = buf1 \<Longrightarrow> (if ?sm < m then buf_copy (?sm + n) ?sm (min (?sm + (e - s)) m - ?sm) rd' else Inr rd') = Inr (rd'\<lparr>lr_buffer := buf2\<rparr>)"
    "fill_segment n m ?sm (e - s) ?bs (lr_buffer rd) buf2"
    using segment_filled[of ?sm "e - s" n m rd ?bs "file"] assms(3,5,6,9) by auto
  have h: "holds n m file buf2 lo (s + length ?bs)"
    using holds_segment[OF assms(12) b(3)] assms(7,9-11) n by simp
  let ?rd = "set_eof (length ?bs < e - s) (rd\<lparr>lr_buffer := buf1, lr_fd_pos := s + length ?bs\<rparr>)"
  have "read_straight cfg file s e rd = Inr (length ?bs, ?rd\<lparr>lr_buffer := buf2\<rparr>)"
    unfolding read_straight_def Let_def sub assms(1,2)[symmetric] c by (simp only: b(1) bind_res_Inr prod.case) (subst b(2), simp_all)
  moreover have "length buf2 = n + m" using b(3) by (simp add: fill_segment_def)
  ultimately show ?thesis using h len unfolding range_read_def by (auto simp: same_but_buffer_def set_eof_def)
qed

lemma read_wrapped_ok:
  assumes "n = lc_buffer_size cfg" "m = lc_max_entry cfg" "m \<le> n" "n < 2 ^ 32" "length (lr_buffer rd) = n + m" "lr_fd_pos rd = s"
    "s < e" "e - s < n" "n < s mod n + (e - s)" "e \<le> lo + n" "lo \<le> s" "holds n m file (lr_buffer rd) lo s" "0 < m"
  shows "range_read n m file lo s e rd (read_wrapped cfg file s e rd)"
proof -
  let ?sm = "s mod n"
  obtain t where t: "t = n - ?sm" by blast
  have n: "0 < n" using assms(8) by simp
  then have sm: "?sm + t = n" "0 < t" "t < e - s" using t assms(9) mod_less_divisor[OF n, of s] by (auto simp del: mod_less_divisor)
  have em: "e mod n = e - s - t"
    using mod_add_left_eq[of s n "e - s"] mod_wrap[of "?sm + (e - s)" n] assms(7,8) sm by auto
  have s2: "(s + t) mod n = 0" using mod_add_left_eq[of s n t] sm(1) by simp
  have sub: "sub64 e s = e - s" using assms(4,7,8) by (intro sub64_le) auto
  let ?bs = "take t (drop s file)"
  have mt: "min (?sm + t) m = m" using sm(1) assms(3) by simp
  obtain buf1 buf2 where b: "fd_read file ?sm t rd = Inr (length ?bs, rd\<lparr>lr_buffer := buf1, lr_fd_pos := s + length ?bs\<rparr>)"
    "\<And>rd'. lr_buffer rd' = buf1 \<Longrightarrow> (if ?sm < m then buf_copy (?sm + n) ?sm (m - ?sm) rd' else Inr rd') = Inr (rd'\<lparr>lr_buffer := buf2\<rparr>)"
    "fill_segment n m ?sm t ?bs (lr_buffer rd) buf2"
    using segment_filled[of ?sm t n m rd ?bs "file"] assms(3,5,6) sm(1) unfolding mt by auto
  let ?rd1 = "rd\<lparr>lr_fd_pos := s + length ?bs, lr_buffer := buf2\<rparr>"
  have h1: "holds n m file buf2 lo (s + length ?bs)" and l2: "length buf2 = n + m"
    using holds_segment[OF assms(12) b(3)] assms(10,11) n sm b(3) by (auto simp: fill_segment_def)
  have run: "read_wrapped cfg file s e rd = (if length ?bs < t then Inr (length ?bs, set_eof True ?rd1)
      else bind_res (fd_read file 0 (e mod n) ?rd1) (\<lambda>(bytes2, rd).
        let bytes = length ?bs + bytes2; rd = set_eof (bytes < e - s) rd in
        bind_res (buf_copy n 0 (if e mod n < m then e mod n else m) rd) (\<lambda>rd. Inr (bytes, rd))))"
    unfolding read_wrapped_def Let_def sub assms(1,2)[symmetric] t[symmetric]
    by (simp only: b(1) bind_res_Inr prod.case) (subst b(2), simp_all)
  show ?thesis
  proof (cases "length ?bs < t")
    case True
    then have "length ?bs = length file - s" "min (e - s) (length file - s) = length file - s" using sm(3) by auto
    then show ?thesis using run True h1 l2 unfolding range_read_def by (auto simp: same_but_buffer_def set_eof_def)
  next
    case False
    then have bt: "length ?bs = t" by simp
    let ?bs2 = "take (e mod n) (drop (s + t) file)"
    have z: "lr_buffer ?rd1 = buf2" "lr_fd_pos ?rd1 = s + t" using bt by auto
    obtain buf3 buf4 where b2: "fd_read file 0 (e mod n) ?rd1 = Inr (length ?bs2, ?rd1\<lparr>lr_buffer := buf3, lr_fd_pos := s + t + length ?bs2\<rparr>)"
      "\<And>rd'. lr_buffer rd' = buf3 \<Longrightarrow> buf_copy n 0 (min (e mod n) m) rd' = Inr (rd'\<lparr>lr_buffer := buf4\<rparr>)"
      "fill_segment n m 0 (e mod n) ?bs2 buf2 buf4"
      using segment_filled[of 0 "e mod n" n m ?rd1 ?bs2 "file"] assms(3,13) l2 n bt unfolding z by (auto simp: less_imp_le)
    have "s + t + e mod n \<le> lo + n" using em sm(3) assms(7,10) by simp
    then have h2: "holds n m file buf4 lo (s + t + length ?bs2)"
      using holds_segment[OF h1[unfolded bt] b2(3)] assms(11) n s2 by (simp add: less_imp_le)
    have tot: "t + length ?bs2 = min (e - s) (length file - s)" using bt em sm(3) by (auto simp: min_def split: if_splits)
    have c: "(if e mod n < m then e mod n else m) = min (e mod n) m" by simp
    let ?rd3 = "set_eof (t + length ?bs2 < e - s) (?rd1\<lparr>lr_buffer := buf3, lr_fd_pos := s + t + length ?bs2\<rparr>)"
    have "read_wrapped cfg file s e rd = Inr (t + length ?bs2, ?rd3\<lparr>lr_buffer := buf4\<rparr>)"
      unfolding run c Let_def by (simp only: False if_False b2(1) bind_res_Inr prod.case) (subst b2(2), simp_all only: lr_buffer_set_eof bt, simp_all)
    moreover have "length buf4 = n + m" using b2(3) by (simp add: fill_segment_def)
    ultimately show ?thesis using h2[unfolded add.assoc] unfolding range_read_def tot[symmetric] by (auto simp: same_but_buffer_def set_eof_def)
  qed
qed

section \<open>The invariant of recovery\<close>

definition rd_inv :: "rd_cfg \<Rightarrow> bytes \<Rightarrow> bytes list \<Rightarrow> nat \<Rightarrow> log_reader \<Rightarrow> bool" where
  "rd_inv cfg file es k rd \<longleftrightarrow> k \<le> length es \<and> (0 < k \<longrightarrow> lr_next rd < lr_disk rd) \<and> lr_next rd = length (log_image (take k es)) \<and> lr_next rd \<le> lr_disk rd \<and>
     lr_disk rd \<le> length file \<and> lr_disk rd \<le> lr_next rd + lc_buffer_size cfg \<and> lr_fd_pos rd = lr_disk rd \<and> 512 dvd lr_disk rd \<and>
     (\<forall>i. lr_gc rd i \<le> lr_next rd) \<and> length (lr_buffer rd) = lc_buffer_size cfg + lc_max_entry cfg \<and>
     holds (lc_buffer_size cfg) (lc_max_entry cfg) file (lr_buffer rd) (lr_next rd) (lr_disk rd)"

lemma gc_scan_le: "gc_scan rd is g \<le> g"
proof (induction "is" arbitrary: g)
  case (Cons i "is")
  show ?case using Cons.IH[of g] Cons.IH[of "lr_gc rd i"] by auto
qed simp

lemma reader_init_inv: "rd_inv cfg file es 0 (reader_init cfg junk)"
  by (auto simp: rd_inv_def reader_init_def holds_def log_image_def)

text \<open>The range that \<open>tryReadLog\<close> reads.\<close>

lemma read_range:
  fixes n s g b :: nat
  assumes "512 dvd n" "2048 \<le> n" "n < 2 ^ 32" "512 dvd b" "b < n div 2" "512 dvd s" "g \<le> s" "s - g \<le> n div 2"
    and g': "g' = g - g mod 512" and e: "e = (if n \<le> sub64 (s + b) g' then g' + n - 512 else s + b)"
  shows "s \<le> e" "512 dvd e" "e - s < n" "e \<le> g + n" "sub64 e s = e - s"
proof -
  have g1: "g' \<le> g" "g \<le> g' + 511" "512 dvd g'" using g' mod_less_divisor[of 512 g] by (simp_all add: minus_mod_eq_div_mult[symmetric] dvd_minus_mod)
  have "s + b - g' < 2 ^ 64" using assms(3,5,8) g1(2) by simp
  then have sub: "sub64 (s + b) g' = s + b - g'" using assms(7) g1(1) by (intro sub64_le) auto
  have h: "1024 \<le> n div 2" "n div 2 + n div 2 \<le> n" using assms(2) by auto
  show "s \<le> e" using e h assms(8) g1 by auto
  show "512 dvd e" using e assms(1,2,4,6) g1(3) by (auto intro!: dvd_diff_nat)
  show lt: "e - s < n" "e \<le> g + n" using e sub h assms(2,5,7) g1 by auto
  show "sub64 e s = e - s" using \<open>s \<le> e\<close> lt(1) assms(3) by (intro sub64_le) auto
qed

lemma tryReadLog_inv:
  assumes ok: "rd_cfg_ok cfg" and inv: "rd_inv cfg file es k rd" and "512 dvd length file" "length file < 2 ^ 64"
  shows "\<exists>bytes rd'. tryReadLog cfg file rd = Inr (bytes, rd') \<and> rd_inv cfg file es k rd' \<and> lr_next rd' = lr_next rd \<and> lr_gc rd' = lr_gc rd \<and>
    (lr_disk rd - gc_scan rd (scan_ids (log_cfg.truncate cfg)) (lr_next rd) + 512 \<le> lc_buffer_size cfg div 2 \<and> 0 < lc_read_block cfg \<longrightarrow>
      lr_disk rd' = min (lr_disk rd + lc_read_block cfg) (length file))"
proof -
  let ?n = "lc_buffer_size cfg" let ?m = "lc_max_entry cfg" let ?s = "lr_disk rd"
  obtain g where g: "g = gc_scan rd (scan_ids (log_cfg.truncate cfg)) (lr_next rd)" by blast
  obtain g' where g': "g' = g - g mod 512" by blast
  obtain e where e: "e = (if ?n \<le> sub64 (?s + lc_read_block cfg) g' then g' + ?n - 512 else ?s + lc_read_block cfg)" by blast
  have c: "512 dvd ?n" "2048 \<le> ?n" "?n < 2 ^ 32" "512 dvd lc_read_block cfg" "lc_read_block cfg < ?n div 2" "?m \<le> ?n" "0 < ?m"
    using ok by (auto simp: rd_cfg_ok_def)
  have gle: "g \<le> lr_next rd" using gc_scan_le g by simp
  have s: "lr_next rd \<le> ?s" "?s \<le> lr_next rd + ?n" "512 dvd ?s" "lr_fd_pos rd = ?s" "?s \<le> length file"
      "length (lr_buffer rd) = ?n + ?m" "holds ?n ?m file (lr_buffer rd) (lr_next rd) ?s" using inv by (auto simp: rd_inv_def)
  have subs: "sub64 ?s g = ?s - g" using gle s(1,5) assms(4) by (intro sub64_le) auto
  have near: "e = ?s + lc_read_block cfg" if "?s - g + 512 \<le> ?n div 2"
  proof -
    have "g \<le> g' + 511" using g' mod_less_divisor[of 512 g] by linarith
    then have "?s + lc_read_block cfg - g' < ?n" using that c(5) by linarith
    moreover from this have "sub64 (?s + lc_read_block cfg) g' = ?s + lc_read_block cfg - g'"
      using c(3) gle s(1) g' by (intro sub64_le) auto
    ultimately show ?thesis using e by simp
  qed
  show ?thesis
  proof (cases "?n div 2 < sub64 ?s g \<or> sub64 e ?s < lc_read_block cfg div 2 \<or> ?s = e")
    case True
    then have tr: "tryReadLog cfg file rd = Inr (0, rd)"
      unfolding tryReadLog_def Let_def g[symmetric] g'[symmetric] e[symmetric] using gle s(1,3) by auto
    have no: "\<not> (?s - g + 512 \<le> ?n div 2 \<and> 0 < lc_read_block cfg)"
    proof
      assume a: "?s - g + 512 \<le> ?n div 2 \<and> 0 < lc_read_block cfg"
      have "sub64 (?s + lc_read_block cfg) ?s = lc_read_block cfg" using c(3,5) by (subst sub64_le) auto
      then show False using True near a subs by auto
    qed
    show ?thesis
      by (intro exI[of _ 0] exI[of _ rd] conjI impI, rule tr, rule inv, rule refl, rule refl, erule notE[OF no[unfolded g]])
  next
    case False
    have half: "?s - g \<le> ?n div 2" using False subs by simp
    note r = read_range[OF c(1-5) s(3) _ half g' e]
    have r: "?s < e" "512 dvd e" "e - ?s < ?n" "e \<le> lr_next rd + ?n" "sub64 e ?s = e - ?s" using r False gle s(1) by auto
    let ?k = "min (e - ?s) (length file - ?s)"
    have em: "e mod ?n = (if ?s mod ?n + (e - ?s) < ?n then ?s mod ?n + (e - ?s) else ?s mod ?n + (e - ?s) - ?n)"
      using mod_add_wrap[OF r(3), of ?s] r(1) by (metis le_add_diff_inverse less_imp_le)
    have "range_read ?n ?m file (lr_next rd) ?s e rd (if 0 < e mod ?n \<and> e mod ?n \<le> ?s mod ?n
        then read_wrapped cfg file ?s e rd else read_straight cfg file ?s e rd)"
    proof (cases "?s mod ?n + (e - ?s) \<le> ?n")
      case True
      then have "\<not> (0 < e mod ?n \<and> e mod ?n \<le> ?s mod ?n)" using em r(1) by auto
      then show ?thesis using read_straight_ok[OF refl refl c(6,3) s(6,4) r(1,3) True r(4) s(1,7)] by (simp only: if_False)
    next
      case wrap: False
      then have "0 < e mod ?n \<and> e mod ?n \<le> ?s mod ?n" using em r(3) by auto
      then show ?thesis using read_wrapped_ok[OF refl refl c(6,3) s(6,4) r(1,3) _ r(4) s(1,7) c(7)] wrap by (simp only: if_True not_le simp_thms)
    qed
    then obtain rd' where rd': "(if 0 < e mod ?n \<and> e mod ?n \<le> ?s mod ?n
        then read_wrapped cfg file ?s e rd else read_straight cfg file ?s e rd) = Inr (?k, rd')"
        "same_but_buffer rd rd'" "lr_fd_pos rd' = ?s + ?k" "length (lr_buffer rd') = ?n + ?m" "holds ?n ?m file (lr_buffer rd') (lr_next rd) (?s + ?k)"
      unfolding range_read_def by blast
    let ?rd = "rd'\<lparr>lr_disk := ?s + ?k\<rparr>"
    have tr: "tryReadLog cfg file rd = Inr (?k, ?rd)"
      unfolding tryReadLog_def Let_def g[symmetric] g'[symmetric] e[symmetric] using gle s(1,3) False r(3,5) rd'(1) by simp
    have "512 dvd ?s + ?k" using r(2) s(3) assms(3) by (auto simp: min_def intro!: dvd_diff_nat dvd_add)
    moreover have "?s + ?k \<le> length file" "?s + ?k \<le> lr_next rd + ?n" "lr_next rd \<le> ?s + ?k" using s(1,5) r(1,4) by auto
    moreover have "0 < k \<longrightarrow> lr_next rd < ?s + ?k" using inv unfolding rd_inv_def by (blast intro: trans_less_add1)
    moreover have "k \<le> length es" "lr_next rd = length (log_image (take k es))" "\<forall>i. lr_gc rd i \<le> lr_next rd" using inv by (auto simp: rd_inv_def)
    ultimately have inv': "rd_inv cfg file es k ?rd"
      using rd'(2-5) by (simp add: rd_inv_def same_but_buffer_def del: min_less_iff_conj)
    have far: "?s + ?k = min (?s + lc_read_block cfg) (length file)" if "?s - g + 512 \<le> ?n div 2"
      using near[OF that] s(5) by auto
    have "lr_next ?rd = lr_next rd" "lr_gc ?rd = lr_gc rd" using rd'(2) by (simp_all add: same_but_buffer_def)
    moreover have "lr_disk ?rd = min (?s + lc_read_block cfg) (length file)" if "?s - g + 512 \<le> ?n div 2 \<and> 0 < lc_read_block cfg"
      using far that by simp
    ultimately show ?thesis using tr inv' unfolding g by blast
  qed
qed

lemma align_u32_nat:
  assumes "unat x \<le> 2 ^ 31"
  shows "unat (align_u32 x) = size_aligned (unat x)"
proof -
  have m: "unat (x mod 64) = unat x mod 64" by (simp add: unat_mod_distrib)
  have "unat (x + 64) = unat x + 64" using assms by (simp add: unat_word_ariths)
  moreover have "x mod 64 \<le> x + 64"
    using calculation m mod_less_eq_dividend[of "unat x" 64] by (simp add: word_le_nat_alt)
  ultimately have "unat (x + 64 - x mod 64) = unat x + 64 - unat x mod 64" using m by (simp add: unat_sub)
  moreover have "x mod 64 = 0 \<longleftrightarrow> unat x mod 64 = 0" using m by (metis unat_eq_zero unat_0)
  ultimately show ?thesis by (simp add: align_u32_def size_aligned_def)
qed

text \<open>Within a maximal entry from \<open>lr_next\<close> on, the memory is the file.\<close>

lemma holds_linear:
  assumes "holds n m file buf lo hi" "length buf = n + m" "m < n" "lo + j < hi" "j < m"
  shows "buf ! (lo mod n + j) = file ! (lo + j)"
proof -
  have md: "(lo + j) mod n = (if lo mod n + j < n then lo mod n + j else lo mod n + j - n)" using assms(3,5) by (intro mod_add_wrap) simp
  have lt: "lo mod n < n" using assms(3) by (intro mod_less_divisor) simp
  have h: "buf ! ((lo + j) mod n) = file ! (lo + j)" "(lo + j) mod n < m \<Longrightarrow> buf ! (n + (lo + j) mod n) = file ! (lo + j)"
    using assms(1,4) by (auto simp: holds_def)
  show ?thesis
  proof (cases "lo mod n + j < n")
    case False
    then have "(lo + j) mod n < m" "n + (lo + j) mod n = lo mod n + j" using md lt assms(5) by auto
    then show ?thesis using h(2) by simp
  qed (use h(1) md in simp)
qed

lemma log_image_nth:
  assumes "k < length es" "j < size_aligned (length (es ! k))"
  shows "log_image es ! (length (log_image (take k es)) + j) = entry_image (es ! k) ! j"
    "length (log_image (take k es)) + size_aligned (length (es ! k)) = length (log_image (take (Suc k) es))"
    "length (log_image (take k es)) + j < length (log_image es)"
proof -
  have "log_image es = log_image (take k es) @ entry_image (es ! k) @ log_image (drop (Suc k) es)"
    using arg_cong[OF id_take_nth_drop[OF assms(1)], of log_image] by (simp add: log_image_def)
  then show "log_image es ! (length (log_image (take k es)) + j) = entry_image (es ! k) ! j"
      "length (log_image (take k es)) + j < length (log_image es)"
    using assms(2) by (simp_all add: nth_append)
  show "length (log_image (take k es)) + size_aligned (length (es ! k)) = length (log_image (take (Suc k) es))"
    using assms(1) by (simp add: take_Suc_conv_app_nth)
qed

text \<open>The bytes of the next entry that have been read are in the memory from \<open>lr_next\<close> on.\<close>

lemma entry_in_memory:
  assumes "rd_cfg_ok cfg" "rd_inv cfg file es k rd" "front_of file (log_image es)" "k < length es" "j < length (es ! k)"
    "length (es ! k) \<le> lc_max_entry cfg" "lr_next rd + j < lr_disk rd"
  shows "lr_buffer rd ! (lr_next rd mod lc_buffer_size cfg + j) = es ! k ! j"
proof -
  have j: "j < size_aligned (length (es ! k))" using assms(5) size_aligned_ge by (rule less_le_trans)
  have "lr_next rd + j < length file" using assms(2,7) by (simp add: rd_inv_def)
  then have "log_image es ! (lr_next rd + j) \<in> {None, Some (file ! (lr_next rd + j))}" using assms(3) by (simp add: front_of_def)
  then have "file ! (lr_next rd + j) = es ! k ! j"
    using log_image_nth(1)[OF assms(4) j] assms(2,5) by (auto simp: rd_inv_def entry_image_def nth_append)
  moreover have "holds (lc_buffer_size cfg) (lc_max_entry cfg) file (lr_buffer rd) (lr_next rd) (lr_disk rd)"
      "length (lr_buffer rd) = lc_buffer_size cfg + lc_max_entry cfg" "lc_max_entry cfg < lc_buffer_size cfg"
    using assms(1,2) by (auto simp: rd_inv_def rd_cfg_ok_def)
  ultimately show ?thesis using holds_linear[of "lc_buffer_size cfg" "lc_max_entry cfg"] assms(5-7) by simp
qed

definition entry_ready :: "bytes list \<Rightarrow> nat \<Rightarrow> log_reader \<Rightarrow> bool" where
  "entry_ready es k rd \<longleftrightarrow> k < length es \<and> lr_next rd + size_aligned (length (es ! k)) < lr_disk rd"

lemma next_size:
  assumes "rd_cfg_ok cfg" "rd_inv cfg file es k rd" "front_of file (log_image es)" "k < length es" "log_format (lc_max_entry cfg) (es ! k)"
    "lr_next rd + 8 < lr_disk rd"
  shows "\<exists>bs. buf_get (lr_buffer rd) (lr_next rd mod lc_buffer_size cfg + 4) 4 = Inr bs \<and>
    unat (align_u32 (bytes_u32 bs)) = size_aligned (length (es ! k))"
proof -
  let ?e = "es ! k" let ?o = "lr_next rd mod lc_buffer_size cfg"
  have f: "12 \<le> length ?e" "length ?e \<le> lc_max_entry cfg" "take 4 (drop 4 ?e) = u32_bytes (of_nat (length ?e))"
    using assms(5) by (auto simp: log_format_def)
  have c: "12 \<le> lc_max_entry cfg" "lc_max_entry cfg \<le> 2 ^ 31" "?o < lc_buffer_size cfg" using assms(1) by (auto simp: rd_cfg_ok_def)
  have l: "length (lr_buffer rd) = lc_buffer_size cfg + lc_max_entry cfg" using assms(2) by (simp add: rd_inv_def)
  have "take 4 (drop (?o + 4) (lr_buffer rd)) ! i = take 4 (drop 4 ?e) ! i" if "i < 4" for i
    using entry_in_memory[OF assms(1-4), of "4 + i"] that f(1,2) assms(6) l c by (simp add: add.assoc)
  then have "take 4 (drop (?o + 4) (lr_buffer rd)) = take 4 (drop 4 ?e)" using l c f(1) by (intro nth_equalityI) auto
  then have "buf_get (lr_buffer rd) (?o + 4) 4 = Inr (u32_bytes (of_nat (length ?e)))" using l c f(3) by (simp add: buf_get_def)
  moreover have "unat (of_nat (length ?e) :: u32) = length ?e" using f(2) c(2) by (intro unat_of_nat_lt) simp
  ultimately show ?thesis using align_u32_nat[of "of_nat (length ?e)"] f(2) c(2) by simp
qed

lemma get_next_ok:
  assumes "rd_cfg_ok cfg" "rd_inv cfg file es k rd" "front_of file (log_image es)" "\<forall>e\<in>set es. log_format (lc_max_entry cfg) e"
  shows "get_next_log_entry_non_atom cfg rd = Inr (if entry_ready es k rd
    then (Some (drop (lr_next rd mod lc_buffer_size cfg) (lr_buffer rd), lr_next rd + size_aligned (length (es ! k)) - 1),
          rd\<lparr>lr_next := lr_next rd + size_aligned (length (es ! k))\<rparr>) else (None, rd))"
proof (cases "k < length es")
  case True
  then have f: "log_format (lc_max_entry cfg) (es ! k)" using assms(4) by simp
  then have "8 < size_aligned (length (es ! k))" using size_aligned_ge[of "length (es ! k)"] by (simp add: log_format_def)
  then show ?thesis
    using next_size[OF assms(1-3) True f] True
    by (auto simp: get_next_log_entry_non_atom_def entry_ready_def Let_def not_le)
next
  case False
  then have "lr_disk rd \<le> lr_next rd" using assms(2,3) by (auto simp: rd_inv_def front_of_def)
  then show ?thesis using False by (simp add: get_next_log_entry_non_atom_def entry_ready_def)
qed

lemma entry_ready_delivers:
  assumes "rd_cfg_ok cfg" "rd_inv cfg file es k rd" "front_of file (log_image es)" "log_format (lc_max_entry cfg) (es ! k)" "entry_ready es k rd"
  shows "take (length (es ! k)) (drop (lr_next rd mod lc_buffer_size cfg) (lr_buffer rd)) = es ! k"
    "rd_inv cfg file es (Suc k) (set_gc_lsn (lr_next rd + size_aligned (length (es ! k)) - 1) t
       (rd\<lparr>lr_next := lr_next rd + size_aligned (length (es ! k))\<rparr>))"
proof -
  let ?e = "es ! k" let ?n = "lc_buffer_size cfg"
  have f: "12 \<le> length ?e" "length ?e \<le> lc_max_entry cfg" using assms(4) by (auto simp: log_format_def)
  have r: "k < length es" "lr_next rd + size_aligned (length ?e) < lr_disk rd" using assms(5) by (auto simp: entry_ready_def)
  have c: "lr_next rd mod ?n < ?n" using assms(1) by (auto simp: rd_cfg_ok_def)
  have l: "length (lr_buffer rd) = ?n + lc_max_entry cfg" using assms(2) by (simp add: rd_inv_def)
  show "take (length ?e) (drop (lr_next rd mod ?n) (lr_buffer rd)) = ?e"
    using entry_in_memory[OF assms(1-3) r(1) _ f(2)] r(2) size_aligned_ge[of "length ?e"] l c f(2)
    by (intro nth_equalityI) auto
  have "0 < size_aligned (length ?e)" using f(1) size_aligned_ge[of "length ?e"] by simp
  from log_image_nth(2)[OF r(1) this] show "rd_inv cfg file es (Suc k) (set_gc_lsn (lr_next rd + size_aligned (length ?e) - 1) t
       (rd\<lparr>lr_next := lr_next rd + size_aligned (length ?e)\<rparr>))"
    using assms(2) r by (auto simp: rd_inv_def set_gc_lsn_def holds_def intro: le_trans)
qed

section \<open>Theorems\<close>

lemma rd_run_ok:
  assumes "rd_cfg_ok cfg" "front_of file (log_image es)" "\<forall>e\<in>set es. log_format (lc_max_entry cfg) e" "512 dvd length file" "length file < 2 ^ 64"
  shows "rd_inv cfg file es k rd \<Longrightarrow> \<exists>ds rd'. rd_run cfg file ops rd = Inr (ds, rd') \<and> rd_inv cfg file es (k + length ds) rd' \<and>
    list_all2 (\<lambda>e d. take (length e) d = e) (take (length ds) (drop k es)) ds"
proof (induction ops arbitrary: k rd)
  case (Cons op ops)
  show ?case
  proof (cases op)
    case Read_Log
    obtain n rd1 where "tryReadLog cfg file rd = Inr (n, rd1)" "rd_inv cfg file es k rd1"
      using tryReadLog_inv[OF assms(1) Cons.prems assms(4,5)] by auto
    then show ?thesis using Cons.IH[of k rd1] Read_Log by auto
  next
    case Next_Entry
    note nx = get_next_ok[OF assms(1) Cons.prems assms(2,3)]
    show ?thesis
    proof (cases "entry_ready es k rd")
      case True
      let ?sz = "size_aligned (length (es ! k))"
      let ?rd1 = "set_gc_lsn (lr_next rd + ?sz - 1) 0 (rd\<lparr>lr_next := lr_next rd + ?sz\<rparr>)"
      have k: "k < length es" "log_format (lc_max_entry cfg) (es ! k)" using True assms(3) by (auto simp: entry_ready_def)
      note d = entry_ready_delivers[OF assms(1) Cons.prems assms(2) k(2) True]
      obtain ds rd' where "rd_run cfg file ops ?rd1 = Inr (ds, rd')" "rd_inv cfg file es (Suc k + length ds) rd'"
          "list_all2 (\<lambda>e d. take (length e) d = e) (take (length ds) (drop (Suc k) es)) ds" using Cons.IH[OF d(2), of 0] by auto
      then show ?thesis using nx True Next_Entry d(1) Cons_nth_drop_Suc[OF k(1), symmetric] by auto
    next
      case False
      then show ?thesis using nx Next_Entry Cons.IH[OF Cons.prems] by auto
    qed
  qed
qed simp

text \<open>Whatever the order of the calls, the entries handed out are the first of the log, unchanged.\<close>

lemma recovery_in_order:
  assumes "rd_cfg_ok cfg" "front_of file (log_image es)" "\<forall>e\<in>set es. log_format (lc_max_entry cfg) e" "512 dvd length file" "length file < 2 ^ 64"
  shows "\<exists>ds rd. rd_run cfg file ops (reader_init cfg junk) = Inr (ds, rd) \<and> length ds \<le> length es \<and>
    list_all2 (\<lambda>e d. take (length e) d = e) (take (length ds) es) ds \<and>
    (ds \<noteq> [] \<longrightarrow> length (log_image (take (length ds) es)) < length file)"
proof -
  obtain ds rd where "rd_run cfg file ops (reader_init cfg junk) = Inr (ds, rd)" "rd_inv cfg file es (length ds) rd"
      "list_all2 (\<lambda>e d. take (length e) d = e) (take (length ds) es) ds"
    using rd_run_ok[OF assms reader_init_inv[of cfg "file" es junk], of ops] by auto
  then show ?thesis by (auto simp: rd_inv_def intro: less_le_trans)
qed

text \<open>
  Progress. With thread 0 as the only one that takes entries, the collected position is the last byte
  of the last entry taken. When no entry is ready, a reading call advances by a whole block, or to
  the end of the file; after it, enough further calls take all the entries that are ready.
\<close>

definition rd_gc :: "log_reader \<Rightarrow> bool" where
  "rd_gc rd \<longleftrightarrow> lr_gc rd 0 \<in> {0, lr_next rd - 1} \<and> (\<forall>i>0. lr_gc rd i = 0)"

lemma gc_scan_ge: "rd_gc rd \<Longrightarrow> lr_next rd - 1 \<le> g \<Longrightarrow> lr_next rd - 1 \<le> gc_scan rd is g"
proof (induction "is" arbitrary: g)
  case (Cons i "is")
  then have "lr_gc rd i \<in> {0, lr_next rd - 1}" by (cases "i = 0") (auto simp: rd_gc_def)
  then show ?case using Cons.IH[of g] Cons.IH[of "lr_gc rd i"] Cons.prems by auto
qed simp

lemma size_aligned_pad: "size_aligned n \<le> n + 63"
  by (auto simp: size_aligned_def)

lemma read_progress:
  assumes "rd_cfg_ok cfg" "recovery_sizes cfg" "rd_inv cfg file es k rd" "front_of file (log_image es)"
    "\<forall>e\<in>set es. log_format (lc_max_entry cfg) e" "512 dvd length file" "length file < 2 ^ 64" "rd_gc rd" "\<not> entry_ready es k rd"
  shows "\<exists>bytes rd'. tryReadLog cfg file rd = Inr (bytes, rd') \<and> rd_inv cfg file es k rd' \<and> rd_gc rd' \<and>
    lr_disk rd' = min (lr_disk rd + lc_read_block cfg) (length file)"
proof -
  have "lr_disk rd \<le> lr_next rd + lc_max_entry cfg + 63"
  proof (cases "k < length es")
    case True
    then have "length (es ! k) \<le> lc_max_entry cfg" using assms(5) by (simp add: log_format_def)
    then show ?thesis using assms(9) True size_aligned_pad[of "length (es ! k)"] by (simp add: entry_ready_def)
  next
    case False
    then show ?thesis using assms(3,4) by (auto simp: rd_inv_def front_of_def)
  qed
  moreover have "lr_next rd - 1 \<le> gc_scan rd (scan_ids (log_cfg.truncate cfg)) (lr_next rd)" using gc_scan_ge[OF assms(8)] by simp
  moreover have "lc_max_entry cfg + 1024 \<le> lc_buffer_size cfg div 2" "0 < lc_read_block cfg" using assms(2) by (auto simp: recovery_sizes_def)
  ultimately have "lr_disk rd - gc_scan rd (scan_ids (log_cfg.truncate cfg)) (lr_next rd) + 512 \<le> lc_buffer_size cfg div 2 \<and> 0 < lc_read_block cfg"
    by linarith
  then show ?thesis using tryReadLog_inv[OF assms(1,3,6,7)] assms(8) by (auto simp: rd_gc_def)
qed

lemma take_ready:
  assumes "rd_cfg_ok cfg" "front_of file (log_image es)" "\<forall>e\<in>set es. log_format (lc_max_entry cfg) e"
  shows "rd_inv cfg file es k rd \<Longrightarrow> rd_gc rd \<Longrightarrow> \<exists>ds rd'. rd_run cfg file (replicate m Next_Entry) rd = Inr (ds, rd') \<and>
    rd_inv cfg file es (k + length ds) rd' \<and> rd_gc rd' \<and> lr_disk rd' = lr_disk rd \<and>
    (length es \<le> k + m \<longrightarrow> \<not> entry_ready es (k + length ds) rd')"
proof (induction m arbitrary: k rd)
  case (Suc m)
  note nx = get_next_ok[OF assms(1) Suc.prems(1) assms(2,3)]
  show ?case
  proof (cases "entry_ready es k rd")
    case True
    let ?sz = "size_aligned (length (es ! k))"
    let ?rd1 = "set_gc_lsn (lr_next rd + ?sz - 1) 0 (rd\<lparr>lr_next := lr_next rd + ?sz\<rparr>)"
    have k: "k < length es" "log_format (lc_max_entry cfg) (es ! k)" using True assms(3) by (auto simp: entry_ready_def)
    have "rd_gc ?rd1" "lr_disk ?rd1 = lr_disk rd" using Suc.prems(2) by (auto simp: rd_gc_def set_gc_lsn_def)
    then obtain ds rd' where "rd_run cfg file (replicate m Next_Entry) ?rd1 = Inr (ds, rd')" "rd_inv cfg file es (Suc k + length ds) rd'" "rd_gc rd'"
        "lr_disk rd' = lr_disk rd" "length es \<le> Suc k + m \<longrightarrow> \<not> entry_ready es (Suc k + length ds) rd'"
      using Suc.IH[OF entry_ready_delivers(2)[OF assms(1) Suc.prems(1) assms(2) k(2) True], of 0] by auto
    then show ?thesis using nx True by auto
  next
    case False
    have "rd_run cfg file (replicate m' Next_Entry) rd = Inr ([], rd)" for m'
      using nx False by (induction m') auto
    from this[of "Suc m"] show ?thesis using False Suc.prems by auto
  qed
qed (auto simp: entry_ready_def)

lemma rd_run_append:
  "rd_run cfg file (ops @ ops') rd = bind_res (rd_run cfg file ops rd) (\<lambda>(ds, rd'). bind_res (rd_run cfg file ops' rd') (\<lambda>(ds', rd''). Inr (ds @ ds', rd'')))"
proof (induction ops arbitrary: rd)
  case Nil
  then show ?case by (cases "rd_run cfg file ops' rd") auto
next
  case (Cons op ops)
  show ?case
  proof (cases op)
    case Read_Log
    then show ?thesis by (cases "tryReadLog cfg file rd") (auto simp: Cons.IH)
  next
    case Next_Entry
    show ?thesis
    proof (cases "get_next_log_entry_non_atom cfg rd")
      case (Inr p)
      obtain r rd1 where p: "p = (r, rd1)" by (cases p)
      show ?thesis
      proof (cases r)
        case (Some d)
        then show ?thesis
          using Inr p Next_Entry Cons.IH[of "set_gc_lsn (snd d) 0 rd1"]
          by (cases d; cases "rd_run cfg file ops (set_gc_lsn (snd d) 0 rd1)"; cases "rd_run cfg file ops' (snd (projr (rd_run cfg file ops (set_gc_lsn (snd d) 0 rd1))))")
            auto
      qed (use Inr p Next_Entry Cons.IH in simp)
    qed (use Next_Entry in simp)
  qed
qed

text \<open>A schedule in which each of \<open>r\<close> reading calls is followed by \<open>m\<close> calls that take an entry.\<close>

definition drain :: "nat \<Rightarrow> nat \<Rightarrow> rd_op list" where
  "drain r m = concat (replicate r (Read_Log # replicate m Next_Entry))"

lemma drain_reads:
  assumes "rd_cfg_ok cfg" "recovery_sizes cfg" "front_of file (log_image es)" "\<forall>e\<in>set es. log_format (lc_max_entry cfg) e"
    "512 dvd length file" "length file < 2 ^ 64" "length es \<le> m"
  shows "rd_inv cfg file es k rd \<Longrightarrow> rd_gc rd \<Longrightarrow> \<not> entry_ready es k rd \<Longrightarrow> \<exists>ds rd'. rd_run cfg file (drain r m) rd = Inr (ds, rd') \<and>
    rd_inv cfg file es (k + length ds) rd' \<and> \<not> entry_ready es (k + length ds) rd' \<and>
    min (lr_disk rd + r * lc_read_block cfg) (length file) \<le> lr_disk rd'"
proof (induction r arbitrary: k rd)
  case (Suc r)
  obtain b rd1 where rd1: "tryReadLog cfg file rd = Inr (b, rd1)" "rd_inv cfg file es k rd1" "rd_gc rd1"
      "lr_disk rd1 = min (lr_disk rd + lc_read_block cfg) (length file)"
    using read_progress[OF assms(1,2) Suc.prems(1) assms(3-6) Suc.prems(2,3)] by blast
  obtain ds rd2 where rd2: "rd_run cfg file (replicate m Next_Entry) rd1 = Inr (ds, rd2)" "rd_inv cfg file es (k + length ds) rd2" "rd_gc rd2"
      "lr_disk rd2 = lr_disk rd1" "\<not> entry_ready es (k + length ds) rd2"
    using take_ready[OF assms(1,3,4) rd1(2,3), of m] assms(7) by auto
  obtain ds' rd' where "rd_run cfg file (drain r m) rd2 = Inr (ds', rd')" "rd_inv cfg file es (k + length ds + length ds') rd'"
      "\<not> entry_ready es (k + length ds + length ds') rd'" "min (lr_disk rd2 + r * lc_read_block cfg) (length file) \<le> lr_disk rd'"
    using Suc.IH[OF rd2(2,3,5)] by blast
  moreover have "drain (Suc r) m = Read_Log # replicate m Next_Entry @ drain r m" by (simp add: drain_def)
  ultimately show ?case using rd1(1,4) rd2(1,4) by (auto simp: rd_run_append add.assoc min_def split: if_splits)
qed (auto simp: drain_def rd_inv_def)

lemma drain_delivers:
  assumes "rd_cfg_ok cfg" "recovery_sizes cfg" "front_of file (log_image es)" "\<forall>e\<in>set es. log_format (lc_max_entry cfg) e"
    "512 dvd length file" "length file < 2 ^ 64" "length es \<le> m" "length file \<le> r * lc_read_block cfg"
  shows "\<exists>ds rd. rd_run cfg file (drain r m) (reader_init cfg junk) = Inr (ds, rd) \<and>
    (\<forall>k \<le> length es. length (log_image (take k es)) < length file \<longrightarrow> k \<le> length ds)"
proof -
  have "rd_gc (reader_init cfg junk)" "\<not> entry_ready es 0 (reader_init cfg junk)" by (simp_all add: rd_gc_def entry_ready_def reader_init_def)
  from drain_reads[OF assms(1-7) reader_init_inv this, of r] obtain ds rd where
    rd: "rd_run cfg file (drain r m) (reader_init cfg junk) = Inr (ds, rd)" "rd_inv cfg file es (length ds) rd" "\<not> entry_ready es (length ds) rd"
      "min (r * lc_read_block cfg) (length file) \<le> lr_disk rd" by (auto simp: reader_init_def)
  have "k \<le> length ds" if k: "k \<le> length es" "length (log_image (take k es)) < length file" for k
  proof (rule ccontr)
    assume "\<not> k \<le> length ds"
    then have lt: "length ds < k" by simp
    have "size_aligned (length (es ! length ds)) > 0"
      using assms(4) lt k(1) size_aligned_ge[of "length (es ! length ds)"] nth_mem[of "length ds" es] by (fastforce simp: log_format_def)
    from log_image_nth(2)[OF _ this] have "lr_next rd + size_aligned (length (es ! length ds)) = length (log_image (take (Suc (length ds)) es))"
      using rd(2) lt k(1) by (simp add: rd_inv_def)
    moreover have "length (log_image (take (Suc (length ds)) es)) \<le> length (log_image (take k es))"
    proof -
      have "take k es = take (Suc (length ds)) es @ drop (Suc (length ds)) (take k es)" using lt by (metis Suc_leI append_take_drop_id min.absorb1 take_take)
      then show ?thesis by (metis concat_append le_add1 length_append log_image_def map_append)
    qed
    ultimately show False using rd(3,4) k(2) lt k(1) assms(8) by (auto simp: entry_ready_def)
  qed
  then show ?thesis using rd(1) by blast
qed

text \<open>Entries of the enclave have the format, and their number of records is not the checksum.\<close>

lemma created_format:
  assumes "create_log_entry idx m as = Inr e" "12 \<le> m" "m \<le> 16384"
  shows "log_format m e" "take 4 e = u32_bytes 0xbeef" "bytes_u32 (take 4 (drop 8 e)) \<noteq> 0xbeef"
proof -
  let ?ws = "filter (\<lambda>a. la_type a = WR) as"
  note sh = create_log_entry_shape[OF assms(1,2) refl]
  obtain s n where s: "s = (of_nat (length e) :: u32)" "n = (of_nat (length ?ws) :: u32)" by blast
  have e: "e = log_header s n @ concat (map (log_record idx) ?ws)" using sh(1) unfolding s .
  have "length ?ws \<le> length e" using length_records[of ?ws idx] e by simp
  then have n: "unat n \<le> 16384" using sh(2) assms(3) s(2) by (simp add: unat_of_nat_lt)
  then have "n \<noteq> 0xbeef" by auto
  then show "log_format m e" "take 4 e = u32_bytes 0xbeef" "bytes_u32 (take 4 (drop 8 e)) \<noteq> 0xbeef"
    using sh(2) by (simp_all add: log_format_def s(1)[symmetric]) (simp_all add: e log_header_def)
qed

text \<open>
   Recovery from the log never replays anything: for a file that is a front of a log of entries
  that the enclave created, \<open>recover\<close>, whenever an entry is ready, stops at the assertion of
  \<open>recover_txn\<close>, because it passes the entry from its ninth byte on and \<open>recover_txn\<close> expects the
  checksum there, where the number of records is.
\<close>

theorem recover_stops_at_first_entry:
  assumes "rd_cfg_ok cfg" "lc_max_entry cfg \<le> 16384" "front_of file (log_image es)"
    "\<forall>e\<in>set es. \<exists>accesses. create_log_entry idx (lc_max_entry cfg) accesses = Inr e" "512 dvd length file" "length file < 2 ^ 64"
    "rd_run cfg file ops (reader_init cfg junk) = Inr (ds, rd)"
  shows "recover_round cfg hash_ycsb rd = (if entry_ready es (length ds) rd then Inl Assert_Fail else Inr (None, rd))"
proof -
  have "12 \<le> lc_max_entry cfg" using assms(1) by (simp add: rd_cfg_ok_def)
  note cf = created_format[OF _ this assms(2)]
  have fmt: "\<forall>e\<in>set es. log_format (lc_max_entry cfg) e" using assms(4) cf(1) by blast
  have inv: "rd_inv cfg file es (length ds) rd"
    using rd_run_ok[OF assms(1,3) fmt assms(5,6) reader_init_inv[of cfg "file" es junk], of ops] assms(7) by auto
  note nx = get_next_ok[OF assms(1) inv assms(3) fmt]
  show ?thesis
  proof (cases "entry_ready es (length ds) rd")
    case True
    let ?e = "es ! length ds" let ?d = "drop (lr_next rd mod lc_buffer_size cfg) (lr_buffer rd)"
    have "?e \<in> set es" using True by (simp add: entry_ready_def)
    then have e: "12 \<le> length ?e" "take 4 ?e = u32_bytes 0xbeef" "bytes_u32 (take 4 (drop 8 ?e)) \<noteq> 0xbeef" and fe: "log_format (lc_max_entry cfg) ?e"
      using assms(4) cf by (auto simp: log_format_def)
    have t: "take (length ?e) ?d = ?e" using entry_ready_delivers(1)[OF assms(1) inv assms(3) fe True] .
    then have len: "length ?e \<le> length ?d" by (metis length_take min.cobounded1)
    have "take 4 ?d = take 4 ?e" "take 4 (drop 8 ?d) = take 4 (drop 8 ?e)"
      using arg_cong[OF t, of "take 4"] arg_cong[OF t, of "\<lambda>x. take 4 (drop 8 x)"] e(1) by (simp_all add: drop_take min_absorb1)
    then have "unpack_u32 ?d 0 = Inr 0xbeef" "unpack_u32 (drop 8 ?d) 0 = Inr (bytes_u32 (take 4 (drop 8 ?e)))"
      using e(1,2) len by (auto simp: unpack_u32_def unpack_def)
    then show ?thesis using nx True e(3) by (simp add: recover_round_def recover_txn_def)
  next
    case False
    then show ?thesis using nx by (simp add: recover_round_def)
  qed
qed

definition rd_demo_cfg :: rd_cfg where
  "rd_demo_cfg = \<lparr>lc_buffer_size = 4096, lc_max_entry = 512, lc_thread_cnt = 1, lc_num_logger = 1, lc_logger_id = 0, lc_flush_block = 512,
     lc_read_block = 512\<rparr>"

definition rd_demo_entry :: bytes where
  "rd_demo_entry = log_header 64 1 @ log_record IDX_HASH (log_demo\<lparr>la_tuple_size := 8\<rparr>)"

definition rd_demo_log :: "bytes list" where
  "rd_demo_log = replicate 8 rd_demo_entry"

lemma rd_demo_created: "create_log_entry IDX_HASH 512 [log_demo\<lparr>la_tuple_size := 8\<rparr>] = Inr rd_demo_entry"
  by (simp add: create_log_entry_def pack_def log_header_def log_demo_def log_record_def rd_demo_entry_def)

lemma length_rd_demo: "length rd_demo_entry = 64"
  by (simp add: rd_demo_entry_def log_header_def log_record_def log_demo_def)

lemma front_of_aligned: "\<forall>e\<in>set es. length e mod 64 = 0 \<Longrightarrow> log_image es = map Some (concat es)"
  by (induction es) (simp_all add: log_image_def entry_image_def size_aligned_def)

lemma rd_demo_hyps:
  "rd_cfg_ok rd_demo_cfg" "front_of (concat rd_demo_log) (log_image rd_demo_log)" "length (concat rd_demo_log) = 512"
  using front_of_aligned[of rd_demo_log] length_rd_demo
  by (simp_all add: rd_cfg_ok_def rd_demo_cfg_def front_of_def rd_demo_log_def length_concat sum_list_replicate)

lemma rd_demo_read:
  "length file = 512 \<Longrightarrow> length junk = 4608 \<Longrightarrow>
   \<exists>rd. rd_run rd_demo_cfg file [Read_Log] (reader_init rd_demo_cfg junk) = Inr ([], rd) \<and> lr_disk rd = 512 \<and> lr_next rd = 0"
  by (simp add: tryReadLog_def reader_init_def rd_demo_cfg_def scan_ids_def log_cfg.truncate_def Let_def sub64_def read_straight_def fd_read_def
      buf_put_def buf_copy_def buf_get_def set_eof_def)

theorem recover_stops_at_first_entry_witness:
  "\<exists>rd. rd_run rd_demo_cfg (concat rd_demo_log) [Read_Log] (reader_init rd_demo_cfg (replicate 4608 0)) = Inr ([], rd) \<and>
    recover_round rd_demo_cfg True rd = Inl Assert_Fail"
proof -
  have l: "length (replicate 4608 (0 :: u8)) = 4608" by (rule length_replicate)
  obtain rd where rd: "rd_run rd_demo_cfg (concat rd_demo_log) [Read_Log] (reader_init rd_demo_cfg (replicate 4608 0)) = Inr ([], rd)"
      "lr_disk rd = 512" "lr_next rd = 0" using rd_demo_read[OF rd_demo_hyps(3) l] by blast
  have m: "lc_max_entry rd_demo_cfg = 512" by (simp add: rd_demo_cfg_def)
  have "\<forall>e\<in>set rd_demo_log. \<exists>accesses. create_log_entry IDX_HASH (lc_max_entry rd_demo_cfg) accesses = Inr e"
    using rd_demo_created unfolding m rd_demo_log_def by auto
  moreover have "entry_ready rd_demo_log 0 rd"
    using rd(2,3) length_rd_demo by (simp add: entry_ready_def rd_demo_log_def size_aligned_def)
  ultimately show ?thesis
    using recover_stops_at_first_entry[OF rd_demo_hyps(1) _ rd_demo_hyps(2) _ _ _ rd(1), of IDX_HASH True] rd_demo_hyps(3) rd(1) m by auto
qed

end
