(* ===== verification/Row_Ts.thy ===== *)
theory Row_Ts
  imports Prelude
begin

text \<open>
  Timestamp ordering for one row, \<open>trusted/concurrency_control/row_ts.cpp\<close> with \<open>TS_TWR\<close> as a
  parameter. A transaction announces a write (\<open>P_REQ\<close>) and later performs it (\<open>W_REQ\<close>) or takes it
  back (\<open>XP_REQ\<close>); reads (\<open>R_REQ\<close>) that are younger than an announced write wait in a queue, and so
  do writes that are younger than an announced write or a waiting read. Every call holds the row's
  latch throughout. The state holds, beside the row, what the calls leave in the transactions: the
  copy that a read produced and the flag that a waiting transaction spins on.

  Shown: an invariant under which no assertion fails, \<open>update_buffer\<close> ends, and no write is installed
  below a timestamp at which the row was read; and that a write that had to wait for an older one
  is never installed unless a read happens to wait as well.
\<close>

section \<open>Data\<close>

type_synonym txn_ptr = nat

record TsReqEntry =
  rq_txn :: txn_ptr
  rq_row :: "bytes option"
  rq_ts :: ts_t

record row_ts =
  ts_row :: bytes
  ts_wts :: ts_t
  ts_rts :: ts_t
  ts_min_wts :: ts_t
  ts_min_rts :: ts_t
  ts_min_pts :: ts_t
  ts_readreq :: "TsReqEntry list"
  ts_writereq :: "TsReqEntry list"
  ts_prereq :: "TsReqEntry list"
  ts_preq_len :: u64
  ts_cur_row :: "txn_ptr \<Rightarrow> bytes"
  ts_ready :: "txn_ptr \<Rightarrow> bool"

definition row_ts_init :: "bytes \<Rightarrow> (txn_ptr \<Rightarrow> bytes) \<Rightarrow> (txn_ptr \<Rightarrow> bool) \<Rightarrow> row_ts" where
  "row_ts_init data cur ready = \<lparr>ts_row = data, ts_wts = 0, ts_rts = 0, ts_min_wts = UINT64_MAX, ts_min_rts = UINT64_MAX, ts_min_pts = UINT64_MAX,
     ts_readreq = [], ts_writereq = [], ts_prereq = [], ts_preq_len = 0, ts_cur_row = cur, ts_ready = ready\<rparr>"

section \<open>The queues\<close>

definition buffer_read :: "txn_ptr \<Rightarrow> ts_t \<Rightarrow> row_ts \<Rightarrow> row_ts" where
  "buffer_read txn ts r = r\<lparr>ts_readreq := \<lparr>rq_txn = txn, rq_row = None, rq_ts = ts\<rparr> # ts_readreq r,
     ts_min_rts := (if ts < ts_min_rts r then ts else ts_min_rts r)\<rparr>"

definition buffer_write :: "txn_ptr \<Rightarrow> ts_t \<Rightarrow> bytes \<Rightarrow> row_ts \<Rightarrow> row_ts" where
  "buffer_write txn ts row r = r\<lparr>ts_writereq := \<lparr>rq_txn = txn, rq_row = Some row, rq_ts = ts\<rparr> # ts_writereq r,
     ts_min_wts := (if ts < ts_min_wts r then ts else ts_min_wts r)\<rparr>"

definition buffer_prewrite :: "txn_ptr \<Rightarrow> ts_t \<Rightarrow> row_ts \<Rightarrow> row_ts" where
  "buffer_prewrite txn ts r = r\<lparr>ts_preq_len := ts_preq_len r + 1, ts_prereq := \<lparr>rq_txn = txn, rq_row = None, rq_ts = ts\<rparr> # ts_prereq r,
     ts_min_pts := (if ts < ts_min_pts r then ts else ts_min_pts r)\<rparr>"

text \<open>\<open>debuffer_req\<close> by transaction, with the assertion that it is found; and by timestamp.\<close>

fun remove_txn :: "txn_ptr \<Rightarrow> TsReqEntry list \<Rightarrow> TsReqEntry list res" where
  "remove_txn txn [] = Inl Assert_Fail"
| "remove_txn txn (q # qs) = (if rq_txn q = txn then Inr qs else bind_res (remove_txn txn qs) (\<lambda>qs'. Inr (q # qs')))"

definition debuffer_prewrite :: "txn_ptr \<Rightarrow> row_ts \<Rightarrow> row_ts res" where
  "debuffer_prewrite txn r = bind_res (remove_txn txn (ts_prereq r)) (\<lambda>qs. Inr (r\<lparr>ts_prereq := qs, ts_preq_len := ts_preq_len r - 1\<rparr>))"

fun debuffer_ts :: "ts_t \<Rightarrow> TsReqEntry list \<Rightarrow> TsReqEntry list \<Rightarrow> TsReqEntry list \<times> TsReqEntry list" where
  "debuffer_ts ts [] return_queue = ([], return_queue)"
| "debuffer_ts ts (q # qs) return_queue =
     (if rq_ts q \<le> ts then debuffer_ts ts qs (q # return_queue)
      else (let (queue, ret) = debuffer_ts ts qs return_queue in (q # queue, ret)))"

fun cal_min :: "TsReqEntry list \<Rightarrow> ts_t \<Rightarrow> ts_t" where
  "cal_min [] m = m"
| "cal_min (q # qs) m = cal_min qs (if rq_ts q < m then rq_ts q else m)"

section \<open>Draining the queues\<close>

fun perform_reads :: "TsReqEntry list \<Rightarrow> row_ts \<Rightarrow> row_ts" where
  "perform_reads [] r = r"
| "perform_reads (q # qs) r = perform_reads qs (r\<lparr>ts_cur_row := (ts_cur_row r)(rq_txn q := ts_row r),
     ts_rts := (if ts_rts r < rq_ts q then rq_ts q else ts_rts r), ts_ready := (ts_ready r)(rq_txn q := True)\<rparr>)"

text \<open>The loop over the ready writes: their announcements are removed and \<open>young_req\<close> is chosen.\<close>

fun ready_writes :: "TsReqEntry list \<Rightarrow> ts_t \<Rightarrow> TsReqEntry option \<Rightarrow> row_ts \<Rightarrow> (TsReqEntry option \<times> row_ts) res" where
  "ready_writes [] young_ts young_req r = Inr (young_req, r)"
| "ready_writes (q # qs) young_ts young_req r =
     bind_res (debuffer_prewrite (rq_txn q) r) (\<lambda>r.
       if rq_ts q < young_ts then ready_writes qs (rq_ts q) (Some q) r else ready_writes qs young_ts young_req r)"

definition write_young :: "TsReqEntry option \<Rightarrow> row_ts \<Rightarrow> row_ts res" where
  "write_young young_req r = (case young_req of
       None \<Rightarrow> Inl Null_Deref
     | Some q \<Rightarrow> (case rq_row q of
           None \<Rightarrow> Inl Null_Deref
         | Some d \<Rightarrow> Inr (r\<lparr>ts_row := d, ts_wts := (if ts_wts r < rq_ts q then rq_ts q else ts_wts r)\<rparr>)))"

text \<open>One round of \<open>update_buffer\<close>: \<open>Inl\<close> when the loop is left, \<open>Inr\<close> when it goes on.\<close>

definition update_round :: "row_ts \<Rightarrow> (row_ts + row_ts) res" where
  "update_round r =
     (let new_min_pts = cal_min (ts_prereq r) UINT64_MAX in
      assert_res (ts_min_pts r \<le> new_min_pts)
       (if \<not> ts_min_pts r < new_min_pts then Inr (Inl r)
        else let r = r\<lparr>ts_min_pts := new_min_pts\<rparr>; (queue, ready_read) = debuffer_ts (ts_min_pts r) (ts_readreq r) [];
                 r = r\<lparr>ts_readreq := queue\<rparr> in
          if ready_read = [] then Inr (Inl r)
          else let r = perform_reads ready_read r; new_min_rts = cal_min (ts_readreq r) UINT64_MAX in
            if \<not> ts_min_rts r < new_min_rts then Inr (Inl r)
            else let r = r\<lparr>ts_min_rts := new_min_rts\<rparr>; (queue, ready_write) = debuffer_ts (ts_min_rts r) (ts_writereq r) [];
                     r = r\<lparr>ts_writereq := queue\<rparr> in
              if ready_write = [] then Inr (Inl r)
              else bind_res (ready_writes ready_write UINT64_MAX None r) (\<lambda>(young, r). bind_res (write_young young r) (\<lambda>r. Inr (Inr r)))))"

text \<open>Each round that goes on takes a write off its queue, so the rounds are bounded by the queue.\<close>

fun update_loop :: "nat \<Rightarrow> row_ts \<Rightarrow> row_ts res" where
  "update_loop 0 r = Inl Diverges"
| "update_loop (Suc n) r = bind_res (update_round r) (\<lambda>s. case s of Inl r' \<Rightarrow> Inr r' | Inr r' \<Rightarrow> update_loop n r')"

definition update_buffer :: "row_ts \<Rightarrow> row_ts res" where
  "update_buffer r = update_loop (Suc (length (ts_writereq r))) r"

section \<open>Access\<close>

definition ts_read :: "txn_ptr \<Rightarrow> ts_t \<Rightarrow> row_ts \<Rightarrow> RC \<times> row_ts" where
  "ts_read txn ts r =
     (if ts < ts_wts r then (Abort, r)
      else if ts_min_pts r < ts then (WAIT, (buffer_read txn ts r)\<lparr>ts_ready := (ts_ready r)(txn := False)\<rparr>)
      else (RCOK, r\<lparr>ts_cur_row := (ts_cur_row r)(txn := ts_row r), ts_rts := (if ts_rts r < ts then ts else ts_rts r)\<rparr>))"

definition ts_prewrite :: "bool \<Rightarrow> txn_ptr \<Rightarrow> ts_t \<Rightarrow> row_ts \<Rightarrow> RC \<times> row_ts" where
  "ts_prewrite twr txn ts r =
     (if ts < ts_rts r then (Abort, r)
      else if \<not> twr \<and> ts < ts_wts r then (Abort, r)
      else (RCOK, buffer_prewrite txn ts r))"

definition ts_write :: "bool \<Rightarrow> txn_ptr \<Rightarrow> ts_t \<Rightarrow> bytes \<Rightarrow> row_ts \<Rightarrow> (RC \<times> row_ts) res" where
  "ts_write twr txn ts row r =
     (if twr \<and> ts < ts_wts r then bind_res (debuffer_prewrite txn r) (\<lambda>r. bind_res (update_buffer r) (\<lambda>r. Inr (RCOK, r)))
      else if \<not> twr \<and> ts_min_pts r < ts then Inr (RCOK, buffer_write txn ts row r)
      else if ts_min_rts r < ts then Inr (RCOK, buffer_write txn ts row r)
      else let r = r\<lparr>ts_row := row, ts_wts := (if ts_wts r < ts then ts else ts_wts r)\<rparr> in
        bind_res (debuffer_prewrite txn r) (\<lambda>r. bind_res (update_buffer r) (\<lambda>r. Inr (RCOK, r))))"

definition ts_cancel :: "txn_ptr \<Rightarrow> row_ts \<Rightarrow> (RC \<times> row_ts) res" where
  "ts_cancel txn r = bind_res (debuffer_prewrite txn r) (\<lambda>r. bind_res (update_buffer r) (\<lambda>r. Inr (RCOK, r)))"

definition ts_access :: "bool \<Rightarrow> txn_ptr \<Rightarrow> ts_t \<Rightarrow> TsType \<Rightarrow> bytes \<Rightarrow> row_ts \<Rightarrow> (RC \<times> row_ts) res" where
  "ts_access twr txn ts type row r = (case type of
       R_REQ \<Rightarrow> Inr (ts_read txn ts r)
     | P_REQ \<Rightarrow> Inr (ts_prewrite twr txn ts r)
     | W_REQ \<Rightarrow> ts_write twr txn ts row r
     | XP_REQ \<Rightarrow> ts_cancel txn r)"

section \<open>The queue operations\<close>

lemma debuffer_ts_filter: "debuffer_ts ts qs ret = (filter (\<lambda>q. \<not> rq_ts q \<le> ts) qs, rev (filter (\<lambda>q. rq_ts q \<le> ts) qs) @ ret)"
  by (induction qs arbitrary: ret) auto

lemma cal_min_le: "cal_min qs m \<le> m"
proof (induction qs arbitrary: m)
  case (Cons q qs)
  show ?case using Cons.IH[of m] Cons.IH[of "rq_ts q"] by (auto intro: order_trans less_imp_le)
qed simp

lemma cal_min_lower: "x \<le> cal_min qs m \<longleftrightarrow> x \<le> m \<and> (\<forall>q\<in>set qs. x \<le> rq_ts q)"
proof (induction qs arbitrary: m)
  case (Cons q qs)
  show ?case by (simp add: Cons.IH) (auto intro: order_trans less_imp_le simp: not_less)
qed simp

lemma cal_min_mono: "set qs' \<subseteq> set qs \<Longrightarrow> cal_min qs m \<le> cal_min qs' m"
  by (metis cal_min_lower order_refl subset_iff)

lemma cal_min_mem: "q \<in> set qs \<Longrightarrow> cal_min qs m \<le> rq_ts q"
  using cal_min_lower[of "cal_min qs m" qs m] by simp

lemma cal_min_Cons: "cal_min (q # qs) UINT64_MAX = (if rq_ts q < cal_min qs UINT64_MAX then rq_ts q else cal_min qs UINT64_MAX)"
  by (rule order_antisym; auto simp: cal_min_lower not_less intro: cal_min_mem order_trans cal_min_le simp del: cal_min.simps;
      meson cal_min_mem less_le_trans less_imp_le)

lemma remove_txn_ok:
  assumes "txn \<in> rq_txn ` set qs" "distinct (map rq_txn qs)"
  shows "remove_txn txn qs = Inr (filter (\<lambda>q. rq_txn q \<noteq> txn) qs)"
  using assms
proof (induction qs)
  case (Cons q qs)
  have "\<forall>x\<in>set qs. rq_txn x \<noteq> rq_txn q" using Cons.prems(2) by (auto simp: image_iff)
  then have "rq_txn q = txn \<Longrightarrow> filter (\<lambda>q. rq_txn q \<noteq> txn) qs = qs" by (simp add: filter_id_conv)
  then show ?case using Cons by auto
qed simp

lemma perform_reads_frame:
  "ts_row (perform_reads qs r) = ts_row r" "ts_wts (perform_reads qs r) = ts_wts r" "ts_min_rts (perform_reads qs r) = ts_min_rts r"
  "ts_min_pts (perform_reads qs r) = ts_min_pts r" "ts_readreq (perform_reads qs r) = ts_readreq r"
  "ts_writereq (perform_reads qs r) = ts_writereq r" "ts_prereq (perform_reads qs r) = ts_prereq r"
  by (induction qs arbitrary: r) auto

lemma perform_reads_rts: "ts_rts r \<le> x \<Longrightarrow> \<forall>q\<in>set qs. rq_ts q \<le> x \<Longrightarrow> ts_rts (perform_reads qs r) \<le> x"
  by (induction qs arbitrary: r) auto

section \<open>The invariant\<close>

text \<open>
  An announced write is never older than an answered read, and a write that waits is announced.
  \<open>ts_inv\<close> with the flag: the minimum of the announced timestamps may be stale.
\<close>

definition ts_inv :: "bool \<Rightarrow> row_ts \<Rightarrow> bool" where
  "ts_inv stale r \<longleftrightarrow>
     (if stale then ts_min_pts r \<le> cal_min (ts_prereq r) UINT64_MAX else ts_min_pts r = cal_min (ts_prereq r) UINT64_MAX) \<and>
     ts_min_rts r = cal_min (ts_readreq r) UINT64_MAX \<and>
     (\<forall>q\<in>set (ts_prereq r). ts_rts r \<le> rq_ts q \<and> rq_ts q \<noteq> UINT64_MAX) \<and>
     distinct (map rq_txn (ts_prereq r)) \<and> distinct (map rq_txn (ts_writereq r)) \<and>
     (\<forall>w\<in>set (ts_writereq r). rq_row w \<noteq> None \<and> (\<exists>q\<in>set (ts_prereq r). rq_txn q = rq_txn w \<and> rq_ts q = rq_ts w))"

lemma row_ts_init_inv: "ts_inv False (row_ts_init data cur ready)"
  by (simp add: ts_inv_def row_ts_init_def)

lemma debuffer_prewrite_ok:
  assumes "ts_inv st r" "txn \<in> rq_txn ` set (ts_prereq r)"
  shows "debuffer_prewrite txn r = Inr (r\<lparr>ts_prereq := filter (\<lambda>q. rq_txn q \<noteq> txn) (ts_prereq r), ts_preq_len := ts_preq_len r - 1\<rparr>)"
  using assms remove_txn_ok by (simp add: debuffer_prewrite_def ts_inv_def)

lemma debuffer_prewrite_inv:
  assumes "ts_inv st r" "txn \<in> rq_txn ` set (ts_prereq r)" "txn \<notin> rq_txn ` set (ts_writereq r)"
  shows "\<exists>r'. debuffer_prewrite txn r = Inr r' \<and> ts_inv True r' \<and> ts_writereq r' = ts_writereq r"
proof -
  let ?qs = "filter (\<lambda>q. rq_txn q \<noteq> txn) (ts_prereq r)"
  have "ts_min_pts r \<le> cal_min ?qs UINT64_MAX"
    using assms(1) cal_min_mono[of ?qs "ts_prereq r" UINT64_MAX] by (auto simp: ts_inv_def intro: order_trans split: if_splits)
  moreover have "\<exists>q\<in>set ?qs. rq_txn q = rq_txn w \<and> rq_ts q = rq_ts w" if "w \<in> set (ts_writereq r)" for w
    using assms(1,3) that by (fastforce simp: ts_inv_def)
  ultimately show ?thesis
    using debuffer_prewrite_ok[OF assms(1,2)] assms(1) by (auto simp: ts_inv_def distinct_map_filter)
qed

lemma ready_writes_ok:
  assumes "ts_inv True r" "distinct (map rq_txn ws)" "rq_txn ` set ws \<inter> rq_txn ` set (ts_writereq r) = {}"
    "\<forall>w\<in>set ws. rq_row w \<noteq> None \<and> (\<exists>q\<in>set (ts_prereq r). rq_txn q = rq_txn w \<and> rq_ts q = rq_ts w)"
    "young \<noteq> None \<longrightarrow> rq_row (the young) \<noteq> None \<and> ts_rts r \<le> rq_ts (the young)" "ws \<noteq> [] \<and> y = UINT64_MAX \<or> young \<noteq> None"
  shows "\<exists>q r'. ready_writes ws y young r = Inr (Some q, r') \<and> ts_inv True r' \<and> rq_row q \<noteq> None \<and>
    ts_rts r' = ts_rts r \<and> ts_rts r' \<le> rq_ts q \<and> ts_writereq r' = ts_writereq r"
  using assms
proof (induction ws arbitrary: y young r)
  case (Cons w ws)
  obtain p where p: "p \<in> set (ts_prereq r)" "rq_txn p = rq_txn w" "rq_ts p = rq_ts w" using Cons.prems(4) by auto
  then have in_pre: "rq_txn w \<in> rq_txn ` set (ts_prereq r)" by (metis image_eqI)
  have w: "ts_rts r \<le> rq_ts w" "rq_ts w \<noteq> UINT64_MAX" "rq_row w \<noteq> None" using Cons.prems(1,4) p by (auto simp: ts_inv_def)
  let ?r = "r\<lparr>ts_prereq := filter (\<lambda>q. rq_txn q \<noteq> rq_txn w) (ts_prereq r), ts_preq_len := ts_preq_len r - 1\<rparr>"
  have r1: "debuffer_prewrite (rq_txn w) r = Inr ?r" using debuffer_prewrite_ok[OF Cons.prems(1) in_pre] .
  have inv1: "ts_inv True ?r" using debuffer_prewrite_inv[OF Cons.prems(1) in_pre] r1 Cons.prems(3) by auto
  have pres: "\<forall>w'\<in>set ws. rq_row w' \<noteq> None \<and> (\<exists>q\<in>set (ts_prereq ?r). rq_txn q = rq_txn w' \<and> rq_ts q = rq_ts w')"
    using Cons.prems(2,4) by (fastforce simp: image_iff)
  note IH = Cons.IH[OF inv1 _ _ pres]
  have lt: "y = UINT64_MAX \<Longrightarrow> rq_ts w < y" using w(2) by (metis max_word_max order_le_imp_less_or_eq)
  show ?case
  proof (cases "rq_ts w < y")
    case True
    then show ?thesis using IH[of "Some w" "rq_ts w"] Cons.prems(2,3) w r1 by auto
  next
    case False
    then have "young \<noteq> None" using Cons.prems(6) lt by auto
    then show ?thesis using IH[of young y] Cons.prems(2,3,5) False r1 by auto
  qed
qed auto

lemma update_round_ok:
  assumes "ts_inv True r"
  shows "(\<exists>r'. update_round r = Inr (Inl r') \<and> ts_inv False r' \<and> length (ts_writereq r') \<le> length (ts_writereq r)) \<or>
    (\<exists>r'. update_round r = Inr (Inr r') \<and> ts_inv True r' \<and> length (ts_writereq r') < length (ts_writereq r))"
proof -
  let ?m = "cal_min (ts_prereq r) UINT64_MAX"
  let ?r1 = "r\<lparr>ts_min_pts := ?m, ts_readreq := filter (\<lambda>q. \<not> rq_ts q \<le> ?m) (ts_readreq r)\<rparr>"
  let ?rds = "rev (filter (\<lambda>q. rq_ts q \<le> ?m) (ts_readreq r))"
  let ?r2 = "perform_reads ?rds ?r1"
  let ?m2 = "cal_min (ts_readreq ?r1) UINT64_MAX"
  let ?r3 = "?r2\<lparr>ts_min_rts := ?m2, ts_writereq := filter (\<lambda>q. \<not> rq_ts q \<le> ?m2) (ts_writereq r)\<rparr>"
  let ?ws = "rev (filter (\<lambda>q. rq_ts q \<le> ?m2) (ts_writereq r))"
  have le: "ts_min_pts r \<le> ?m" using assms by (simp add: ts_inv_def)
  have run: "update_round r = (if \<not> ts_min_pts r < ?m then Inr (Inl r) else if ?rds = [] then Inr (Inl ?r1)
      else if \<not> ts_min_rts r < ?m2 then Inr (Inl ?r2) else if ?ws = [] then Inr (Inl ?r3)
      else bind_res (ready_writes ?ws UINT64_MAX None ?r3) (\<lambda>(young, r). bind_res (write_young young r) (\<lambda>r. Inr (Inr r))))"
    using le by (simp add: update_round_def Let_def debuffer_ts_filter perform_reads_frame)
  have "ts_rts ?r2 \<le> rq_ts q" if "q \<in> set (ts_prereq r)" for q
    using assms that cal_min_mem[OF that] by (intro perform_reads_rts) (auto simp: ts_inv_def intro: order_trans)
  then have inv2: "ts_inv False (?r2\<lparr>ts_min_rts := ?m2\<rparr>)"
    using assms by (auto simp: ts_inv_def perform_reads_frame)
  have min2: "ts_min_rts r \<le> ?m2" using assms cal_min_mono[of "ts_readreq ?r1" "ts_readreq r" UINT64_MAX] by (auto simp: ts_inv_def)
  consider (stop) "\<not> ts_min_pts r < ?m" | (noread) "ts_min_pts r < ?m" "?rds = []" | (same) "ts_min_pts r < ?m" "?rds \<noteq> []" "\<not> ts_min_rts r < ?m2"
    | (nowrite) "ts_min_pts r < ?m" "?rds \<noteq> []" "ts_min_rts r < ?m2" "?ws = []"
    | (go_on) "ts_min_pts r < ?m" "?rds \<noteq> []" "ts_min_rts r < ?m2" "?ws \<noteq> []" by blast
  then show ?thesis
  proof cases
    case stop
    then show ?thesis using run assms le by (simp add: ts_inv_def)
  next
    case noread
    then have "filter (\<lambda>q. \<not> rq_ts q \<le> ?m) (ts_readreq r) = ts_readreq r" by (simp add: filter_empty_conv filter_id_conv)
    then show ?thesis using run noread assms by (auto simp: ts_inv_def)
  next
    case same
    then have "?r2\<lparr>ts_min_rts := ?m2\<rparr> = ?r2" using min2 by (simp add: perform_reads_frame)
    then show ?thesis using run same inv2 by (simp add: perform_reads_frame)
  next
    case nowrite
    then have "filter (\<lambda>q. \<not> rq_ts q \<le> ?m2) (ts_writereq r) = ts_writereq r" by (simp add: filter_empty_conv filter_id_conv)
    then show ?thesis using run nowrite inv2 by (auto simp: ts_inv_def perform_reads_frame)
  next
    case go_on
    have inv3: "ts_inv True ?r3" using inv2 by (auto simp: ts_inv_def perform_reads_frame distinct_map_filter)
    have d: "distinct (map rq_txn (ts_writereq r))" using assms by (simp add: ts_inv_def)
    then have dw: "distinct (map rq_txn ?ws)" "rq_txn ` set ?ws \<inter> rq_txn ` set (ts_writereq ?r3) = {}"
      by (auto simp: distinct_map intro: inj_on_subset[of rq_txn "set (ts_writereq r)"] dest: inj_onD)
    have pr: "\<forall>w\<in>set ?ws. rq_row w \<noteq> None \<and> (\<exists>q\<in>set (ts_prereq ?r3). rq_txn q = rq_txn w \<and> rq_ts q = rq_ts w)"
      using assms by (auto simp: ts_inv_def perform_reads_frame)
    obtain q r' where q: "ready_writes ?ws UINT64_MAX None ?r3 = Inr (Some q, r')" "ts_inv True r'" "rq_row q \<noteq> None" "ts_writereq r' = ts_writereq ?r3"
      using ready_writes_ok[OF inv3 dw pr, of None UINT64_MAX] go_on(4) by auto
    have "length (ts_writereq ?r3) < length (ts_writereq r)" using go_on(4) by (auto simp: filter_empty_conv intro: length_filter_less)
    moreover obtain dd where "rq_row q = Some dd" using q(3) by auto
    ultimately show ?thesis using run go_on q by (auto simp: write_young_def ts_inv_def)
  qed
qed

lemma update_loop_ok:
  "ts_inv True r \<Longrightarrow> length (ts_writereq r) < n \<Longrightarrow>
   \<exists>r'. update_loop n r = Inr r' \<and> ts_inv False r' \<and> length (ts_writereq r') \<le> length (ts_writereq r)"
proof (induction n arbitrary: r)
  case (Suc n)
  from update_round_ok[OF Suc.prems(1)] show ?case
  proof
    assume "\<exists>r'. update_round r = Inr (Inr r') \<and> ts_inv True r' \<and> length (ts_writereq r') < length (ts_writereq r)"
    then obtain r' where r': "update_round r = Inr (Inr r')" "ts_inv True r'" "length (ts_writereq r') < length (ts_writereq r)" by blast
    then show ?thesis using Suc.IH[OF r'(2)] Suc.prems(2) by auto
  qed auto
qed simp

lemma ts_update_buffer_ok: "ts_inv True r \<Longrightarrow> \<exists>r'. update_buffer r = Inr r' \<and> ts_inv False r'"
  using update_loop_ok[of r "Suc (length (ts_writereq r))"] by (auto simp: update_buffer_def)

text \<open>The requests of a well-behaved transaction with timestamp \<open>ts\<close>.\<close>

definition ts_legal :: "row_ts \<Rightarrow> txn_ptr \<Rightarrow> ts_t \<Rightarrow> TsType \<Rightarrow> bool" where
  "ts_legal r txn ts type \<longleftrightarrow> ts \<noteq> UINT64_MAX \<and> (case type of
       R_REQ \<Rightarrow> True
     | P_REQ \<Rightarrow> txn \<notin> rq_txn ` set (ts_prereq r)
     | _ \<Rightarrow> (\<exists>q\<in>set (ts_prereq r). rq_txn q = txn \<and> rq_ts q = ts) \<and> txn \<notin> rq_txn ` set (ts_writereq r))"

lemma ts_finish_ok:
  assumes "ts_inv False r" "\<exists>q\<in>set (ts_prereq r). rq_txn q = txn" "txn \<notin> rq_txn ` set (ts_writereq r)"
  shows "\<exists>r'. bind_res (debuffer_prewrite txn r) (\<lambda>r. bind_res (update_buffer r) (\<lambda>r. Inr (RCOK, r))) = Inr (RCOK, r') \<and> ts_inv False r'"
proof -
  obtain r1 where "debuffer_prewrite txn r = Inr r1" "ts_inv True r1" using debuffer_prewrite_inv[OF assms(1) _ assms(3)] assms(2) by auto
  then show ?thesis using ts_update_buffer_ok[of r1] by auto
qed

lemma buffer_prewrite_inv:
  assumes "ts_inv False r" "txn \<notin> rq_txn ` set (ts_prereq r)" "ts_rts r \<le> ts" "ts \<noteq> UINT64_MAX"
  shows "ts_inv False (buffer_prewrite txn ts r)"
  using assms cal_min_Cons[of "\<lparr>rq_txn = txn, rq_row = None, rq_ts = ts\<rparr>" "ts_prereq r"]
  by (auto simp: ts_inv_def buffer_prewrite_def simp del: cal_min.simps)

lemma ts_read_inv: "ts_inv False r \<Longrightarrow> ts_inv False (snd (ts_read txn ts r))"
  using cal_min_Cons[of "\<lparr>rq_txn = txn, rq_row = None, rq_ts = ts\<rparr>" "ts_readreq r"]
  by (auto simp: ts_inv_def ts_read_def buffer_read_def not_less simp del: cal_min.simps intro: order_trans cal_min_mem)

text \<open>
  C32: Timestamp ordering keeps its promise to readers: every legal request, in any state the row can
  be in, is answered without a failing assertion or a null pointer and with an end of
  \<open>update_buffer\<close>; afterwards no announced write is older than a read that was answered, and a write
  can only be installed if it is announced. In particular a write that is asked for is never older
  than the last read.
\<close>

theorem ts_access_safe:
  assumes "ts_inv False r" "ts_legal r txn ts type"
  shows "\<exists>rc r'. ts_access twr txn ts type row r = Inr (rc, r') \<and> ts_inv False r' \<and> (type = W_REQ \<longrightarrow> rc = RCOK \<and> ts_rts r \<le> ts) \<and>
    (\<forall>q\<in>set (ts_prereq r'). ts_rts r' \<le> rq_ts q)"
proof -
  have "\<exists>rc r'. ts_access twr txn ts type row r = Inr (rc, r') \<and> ts_inv False r' \<and> (type = W_REQ \<longrightarrow> rc = RCOK \<and> ts_rts r \<le> ts)"
  proof (cases type)
    case R_REQ
    then show ?thesis using ts_read_inv[OF assms(1), of txn ts] by (cases "ts_read txn ts r") (simp add: ts_access_def)
  next
    case P_REQ
    then show ?thesis using assms buffer_prewrite_inv[OF assms(1), of txn ts] by (auto simp: ts_access_def ts_prewrite_def ts_legal_def not_less)
  next
    case W_REQ
    then have l: "\<exists>q\<in>set (ts_prereq r). rq_txn q = txn \<and> rq_ts q = ts" "txn \<notin> rq_txn ` set (ts_writereq r)"
      using assms(2) by (auto simp: ts_legal_def)
    have buf: "ts_inv False (buffer_write txn ts row r)" using assms(1) l by (auto simp: ts_inv_def buffer_write_def)
    let ?r1 = "r\<lparr>ts_row := row, ts_wts := (if ts_wts r < ts then ts else ts_wts r)\<rparr>"
    have pre: "\<exists>q\<in>set (ts_prereq r). rq_txn q = txn" and inv1: "ts_inv False ?r1" using l(1) assms(1) by (auto simp: ts_inv_def)
    have f: "\<exists>r'. bind_res (debuffer_prewrite txn ?r1) (\<lambda>r. bind_res (update_buffer r) (\<lambda>r. Inr (RCOK, r))) = Inr (RCOK, r') \<and> ts_inv False r'"
      using ts_finish_ok[OF inv1, of txn] pre l(2) by simp
    then have "\<exists>r'. ts_write twr txn ts row r = Inr (RCOK, r') \<and> ts_inv False r'"
      using ts_finish_ok[OF assms(1) pre l(2)] buf unfolding ts_write_def Let_def by simp
    moreover have "ts_rts r \<le> ts" using assms(1) l(1) by (auto simp: ts_inv_def)
    ultimately show ?thesis using W_REQ by (auto simp: ts_access_def)
  next
    case XP_REQ
    then show ?thesis using ts_finish_ok[OF assms(1), of txn] assms(2) by (auto simp: ts_access_def ts_cancel_def ts_legal_def)
  qed
  then show ?thesis by (auto simp: ts_inv_def)
qed

definition ts_demo_row :: row_ts where
  "ts_demo_row = snd (ts_prewrite False 2 8 (row_ts_init [0] (\<lambda>_. []) (\<lambda>_. False)))"

lemma ts_demo_inv: "ts_inv False ts_demo_row"
  using buffer_prewrite_inv[OF row_ts_init_inv, of 2 "[0]" "\<lambda>_. []" "\<lambda>_. False" 8]
  by (simp add: ts_demo_row_def ts_prewrite_def row_ts_init_def)

theorem ts_access_safe_witness:
  "\<exists>rc r'. ts_access False 2 8 W_REQ [1] ts_demo_row = Inr (rc, r') \<and> ts_inv False r' \<and> rc = RCOK"
  using ts_access_safe[OF ts_demo_inv, of 2 8 W_REQ False "[1]"]
  by (auto simp: ts_legal_def ts_demo_row_def ts_prewrite_def buffer_prewrite_def row_ts_init_def)

section \<open>Writes that are not installed\<close>

text \<open>Requests one after the other; a request that fails stops the sequence.\<close>

fun ts_run :: "bool \<Rightarrow> (txn_ptr \<times> ts_t \<times> TsType \<times> bytes) list \<Rightarrow> row_ts \<Rightarrow> (RC list \<times> row_ts) res" where
  "ts_run twr [] r = Inr ([], r)"
| "ts_run twr ((txn, ts, type, row) # rqs) r = bind_res (ts_access twr txn ts type row r) (\<lambda>(rc, r).
     bind_res (ts_run twr rqs r) (\<lambda>(rcs, r). Inr (rc # rcs, r)))"

lemma stuck_reads:
  assumes "ts_row r = d" "ts_min_pts r = b" "\<forall>(txn, ts, type, row)\<in>set rqs. type = R_REQ \<and> b < ts" "ts_wts r \<le> b"
  shows "\<exists>r'. ts_run twr rqs r = Inr (replicate (length rqs) WAIT, r') \<and> ts_row r' = d"
  using assms
proof (induction rqs arbitrary: r)
  case (Cons rq rqs)
  obtain txn ts row where rq: "rq = (txn, ts, R_REQ, row)" "b < ts" using Cons.prems(3) by (cases rq) auto
  let ?r = "(buffer_read txn ts r)\<lparr>ts_ready := (ts_ready r)(txn := False)\<rparr>"
  have "ts_access twr txn ts R_REQ row r = Inr (WAIT, ?r)" using rq(2) Cons.prems(2,4) by (auto simp: ts_access_def ts_read_def)
  then show ?case using Cons.IH[of ?r] Cons.prems rq(1) by (auto simp: buffer_read_def)
qed simp

text \<open>
   A write that arrives before an older announced write is never installed if nobody reads in
  between: two transactions announce their writes, the younger one writes first and is told that
  its write was accepted, then the older one writes. \<open>update_buffer\<close> gives up as soon as no read is
  waiting, so the younger write stays in the queue, the row keeps the older value, and every
  transaction that reads later waits.
\<close>

theorem ts_younger_write_stuck:
  assumes "t1 \<noteq> t2" "a < b" "b \<noteq> UINT64_MAX" "\<forall>(txn, ts, type, row)\<in>set rqs. type = R_REQ \<and> b < ts"
  shows "\<exists>r. ts_run False ([(t1, a, P_REQ, d0), (t2, b, P_REQ, d0), (t2, b, W_REQ, d2), (t1, a, W_REQ, d1)] @ rqs)
      (row_ts_init d0 cur ready) = Inr ([RCOK, RCOK, RCOK, RCOK] @ replicate (length rqs) WAIT, r) \<and> ts_row r = d1"
proof -
  have ab: "a < UINT64_MAX" "b < UINT64_MAX" "\<not> b < a" "a \<noteq> b" "a \<le> b"
    using assms(2,3) max_word_max[of a] max_word_max[of b] by (metis order_less_le order_antisym leD order_trans)+
  have "\<exists>r. ts_run False [(t1, a, P_REQ, d0), (t2, b, P_REQ, d0), (t2, b, W_REQ, d2), (t1, a, W_REQ, d1)] (row_ts_init d0 cur ready) =
      Inr ([RCOK, RCOK, RCOK, RCOK], r) \<and> ts_row r = d1 \<and> ts_min_pts r = b \<and> ts_wts r \<le> b"
    using assms(1,2) ab
    by (simp add: ts_access_def ts_prewrite_def row_ts_init_def buffer_prewrite_def ts_write_def buffer_write_def debuffer_prewrite_def
        update_buffer_def update_round_def Let_def)
  then obtain r where r: "ts_run False [(t1, a, P_REQ, d0), (t2, b, P_REQ, d0), (t2, b, W_REQ, d2), (t1, a, W_REQ, d1)] (row_ts_init d0 cur ready) =
      Inr ([RCOK, RCOK, RCOK, RCOK], r)" "ts_row r = d1" "ts_min_pts r = b" "ts_wts r \<le> b" by blast
  have app: "ts_run twr (xs @ ys) s = bind_res (ts_run twr xs s) (\<lambda>(rcs, s). bind_res (ts_run twr ys s) (\<lambda>(rcs', s). Inr (rcs @ rcs', s)))" for twr xs ys s
  proof (induction xs arbitrary: s)
    case (Cons x xs)
    show ?case by (cases x) (auto simp: Cons.IH bind_res_def split: sum.splits)
  qed (auto simp: bind_res_def split: sum.splits)
  show ?thesis using stuck_reads[OF r(2,3) assms(4) r(4), of False] r(1) unfolding app by auto
qed

theorem ts_younger_write_stuck_witness:
  "\<exists>r. ts_run False [(1, 5, P_REQ, [0]), (2, 8, P_REQ, [0]), (2, 8, W_REQ, [2]), (1, 5, W_REQ, [1]), (3, 9, R_REQ, [])]
      (row_ts_init [0] (\<lambda>_. []) (\<lambda>_. False)) = Inr ([RCOK, RCOK, RCOK, RCOK, WAIT], r) \<and> ts_row r = [1]"
  using ts_younger_write_stuck[of 1 2 5 8 "[(3, 9, R_REQ, [])]" "[0]" "[2]" "[1]"] by simp

text \<open>
  When reads do wait, all writes behind them become ready together, and the oldest of them is the
  one that is installed: a younger write that was accepted is thrown away.
\<close>

lemma ts_younger_write_lost:
  "\<exists>r. ts_run False [(1, 5, P_REQ, []), (2, 8, P_REQ, []), (3, 9, P_REQ, []), (4, 7, R_REQ, []), (2, 8, W_REQ, [2]), (3, 9, W_REQ, [3]), (1, 5, W_REQ, [1])]
      (row_ts_init [0] (\<lambda>_. []) (\<lambda>_. False)) = Inr ([RCOK, RCOK, RCOK, WAIT, RCOK, RCOK, RCOK], r) \<and>
      ts_row r = [2] \<and> ts_wts r = 8 \<and> ts_writereq r = [] \<and> ts_prereq r = []"
  by (simp add: ts_access_def ts_prewrite_def ts_read_def row_ts_init_def buffer_prewrite_def buffer_read_def ts_write_def buffer_write_def
      debuffer_prewrite_def update_buffer_def update_round_def write_young_def Let_def)

end
