(* ===== verification/Hekaton.thy ===== *)
theory Hekaton
  imports Prelude
begin

text \<open>
  Multi-version concurrency control with version intervals,
  \<open>trusted/concurrency_control/row_hekaton.cpp\<close> and \<open>hekaton.cpp\<close> (isolation level
  \<open>SERIALIZABLE\<close>). A row keeps its versions in a circular array of entries with a begin and an end
  timestamp; a writer reserves the entry after the newest one, and \<open>post_process\<close> makes it a
  version. The tuples of the versions live in a store of their own, because readers are handed the
  pointer and a recycled entry reuses its tuple. Every call holds the row's latch throughout.
  The manager's answer to \<open>get_min_ts\<close> is an argument: in the program it is
  \<open>ManagerEnc_get_min_ts\<close>, a failed assertion, and the theorems say what happens then and with a
  manager that returns a timestamp.

  Shown: the circular array implements a list of versions with adjacent intervals; a read returns
  the version that is valid at its timestamp; a prewrite loses versions only from the old end; a
  commit appends one version. With the program's own \<open>get_min_ts\<close> no prewrite ever succeeds.
\<close>

section \<open>Data\<close>

type_synonym tuple_ptr = nat

record WriteHisEntry =
  he_begin_txn :: bool
  he_end_txn :: bool
  he_begin :: ts_t
  he_end :: ts_t
  he_row :: "tuple_ptr option"

record row_hekaton =
  hk_his :: "WriteHisEntry list"
  hk_latest :: nat
  hk_oldest :: nat
  hk_prewrite :: bool
  hk_rows :: "tuple_ptr \<Rightarrow> bytes"
  hk_fresh :: tuple_ptr

abbreviation TS_INF :: ts_t where
  "TS_INF \<equiv> UINT64_MAX"

definition hek_init :: "WriteHisEntry \<Rightarrow> tuple_ptr \<Rightarrow> (tuple_ptr \<Rightarrow> bytes) \<Rightarrow> tuple_ptr \<Rightarrow> row_hekaton" where
  "hek_init junk row rows fresh = \<lparr>hk_his = \<lparr>he_begin_txn = False, he_end_txn = False, he_begin = 0, he_end = TS_INF, he_row = Some row\<rparr> #
       replicate 3 (junk\<lparr>he_row := None\<rparr>),
     hk_latest = 0, hk_oldest = 0, hk_prewrite = False, hk_rows = rows, hk_fresh = fresh\<rparr>"

definition hk_entry :: "row_hekaton \<Rightarrow> nat \<Rightarrow> WriteHisEntry" where
  "hk_entry r i = hk_his r ! i"

definition next_idx :: "row_hekaton \<Rightarrow> nat \<Rightarrow> nat" where
  "next_idx r i = (i + 1) mod length (hk_his r)"

definition prev_idx :: "row_hekaton \<Rightarrow> nat \<Rightarrow> nat" where
  "prev_idx r i = (if i = 0 then length (hk_his r) - 1 else i - 1)"

definition upd_entry :: "nat \<Rightarrow> (WriteHisEntry \<Rightarrow> WriteHisEntry) \<Rightarrow> row_hekaton \<Rightarrow> row_hekaton" where
  "upd_entry i f r = r\<lparr>hk_his := (hk_his r)[i := f (hk_his r ! i)]\<rparr>"

section \<open>Reserving an entry\<close>

definition doubleHistory :: "WriteHisEntry \<Rightarrow> row_hekaton \<Rightarrow> row_hekaton" where
  "doubleHistory junk r = (let n = length (hk_his r) in
     r\<lparr>hk_his := map (\<lambda>i. hk_his r ! ((hk_oldest r + i) mod n)) [0..<n] @
          replicate n (junk\<lparr>he_row := None, he_begin_txn := False, he_end_txn := False\<rparr>),
       hk_oldest := 0, hk_latest := n - 1\<rparr>)"

text \<open>The loop of the garbage collection; it moves \<open>_his_oldest\<close> at most once around.\<close>

fun gc_loop :: "nat \<Rightarrow> ts_t \<Rightarrow> row_hekaton \<Rightarrow> row_hekaton res" where
  "gc_loop 0 min_ts r = Inl Diverges"
| "gc_loop (Suc n) min_ts r =
     (if he_end (hk_entry r (hk_oldest r)) < min_ts
      then assert_res (hk_oldest r \<noteq> hk_latest r) (gc_loop n min_ts (r\<lparr>hk_oldest := next_idx r (hk_oldest r)\<rparr>))
      else Inr r)"

text \<open>The choice of the entry, after the garbage collection.\<close>

definition pick_slot :: "WriteHisEntry \<Rightarrow> nat \<Rightarrow> row_hekaton \<Rightarrow> nat \<times> row_hekaton" where
  "pick_slot junk t r = (if next_idx r (hk_latest r) \<noteq> hk_oldest r then (next_idx r (hk_latest r), r)
     else if length (hk_his r) < t then let r = doubleHistory junk r in (next_idx r (hk_latest r), r)
     else (hk_oldest r, r\<lparr>hk_oldest := next_idx r (hk_oldest r)\<rparr>))"

definition reserve_tuple :: "nat \<Rightarrow> row_hekaton \<Rightarrow> row_hekaton" where
  "reserve_tuple idx r = (if he_row (hk_entry r idx) = None
     then (upd_entry idx (he_row_update (\<lambda>_. Some (hk_fresh r))) r)\<lparr>hk_fresh := hk_fresh r + 1\<rparr> else r)"

definition reserveRow :: "WriteHisEntry \<Rightarrow> nat \<Rightarrow> ts_t res \<Rightarrow> row_hekaton \<Rightarrow> (nat \<times> row_hekaton) res" where
  "reserveRow junk thread_cnt get_min_ts r =
     bind_res get_min_ts (\<lambda>min_ts.
     bind_res (if next_idx r (hk_latest r) = hk_oldest r \<and> he_end (hk_entry r (hk_oldest r)) < min_ts
               then gc_loop (length (hk_his r)) min_ts r else Inr r) (\<lambda>r.
       let (idx, r) = pick_slot junk thread_cnt r in
       Inr (idx, reserve_tuple idx r)))"

section \<open>Access\<close>

text \<open>The search for the version of a read, backwards from the newest; \<open>None\<close>: not found.\<close>

fun find_version :: "nat \<Rightarrow> ts_t \<Rightarrow> nat \<Rightarrow> row_hekaton \<Rightarrow> tuple_ptr option res" where
  "find_version 0 ts i r = Inl Diverges"
| "find_version (Suc n) ts i r =
     (let i = prev_idx r i in
      if he_begin (hk_entry r i) < ts then assert_res (ts < he_end (hk_entry r i)) (Inr (he_row (hk_entry r i)))
      else if i = hk_oldest r then Inl Assert_Fail
      else find_version n ts i r)"

text \<open>The assertion at the start of every access; reads, with \<open>None\<close> for \<open>Abort\<close>; prewrites.\<close>

definition latest_open :: "row_hekaton \<Rightarrow> bool" where
  "latest_open r \<longleftrightarrow> he_end (hk_entry r (hk_latest r)) = TS_INF \<or> he_end_txn (hk_entry r (hk_latest r))"

definition hek_read :: "ts_t \<Rightarrow> row_hekaton \<Rightarrow> tuple_ptr option option res" where
  "hek_read ts r = assert_res (latest_open r)
     (if ts < he_begin (hk_entry r (hk_oldest r)) then Inr None
      else if he_begin (hk_entry r (hk_latest r)) < ts then Inr (Some (he_row (hk_entry r (hk_latest r))))
      else bind_res (find_version (length (hk_his r)) ts (hk_latest r) r) (\<lambda>p. Inr (Some p)))"

definition hek_prewrite :: "WriteHisEntry \<Rightarrow> nat \<Rightarrow> ts_t res \<Rightarrow> txnid_t \<Rightarrow> ts_t \<Rightarrow> row_hekaton \<Rightarrow> (tuple_ptr option \<times> row_hekaton) res" where
  "hek_prewrite junk thread_cnt get_min_ts txn_id ts r = assert_res (latest_open r)
     (if hk_prewrite r \<or> ts < he_begin (hk_entry r (hk_latest r)) then Inr (None, r)
      else bind_res (reserveRow junk thread_cnt get_min_ts (r\<lparr>hk_prewrite := True\<rparr>)) (\<lambda>(idx, r).
        let r = upd_entry idx (\<lambda>e. e\<lparr>he_begin_txn := True, he_begin := txn_id\<rparr>) r;
            r = upd_entry (prev_idx r idx) (\<lambda>e. e\<lparr>he_end_txn := True, he_end := txn_id\<rparr>) r in
        case he_row (hk_entry r idx) of None \<Rightarrow> Inl Assert_Fail
        | Some p \<Rightarrow> (case he_row (hk_entry r (hk_latest r)) of None \<Rightarrow> Inl Null_Deref
            | Some q \<Rightarrow> Inr (Some p, r\<lparr>hk_rows := (hk_rows r)(p := hk_rows r q)\<rparr>))))"

section \<open>Validation\<close>

fun prepare_scan :: "nat \<Rightarrow> ts_t \<Rightarrow> tuple_ptr \<Rightarrow> ts_t \<Rightarrow> nat \<Rightarrow> row_hekaton \<Rightarrow> RC res" where
  "prepare_scan 0 ts row commit_ts idx r = Inl Diverges"
| "prepare_scan (Suc n) ts row commit_ts idx r =
     (let e = hk_entry r idx in
      if he_row e = Some row
      then Inr (if ts < he_begin e then Abort else if \<not> he_end_txn e \<and> commit_ts < he_end e then RCOK
                else if \<not> he_end_txn e \<and> he_end e < commit_ts then Abort else RCOK)
      else if idx = hk_oldest r then Inr Abort
      else prepare_scan n ts row commit_ts (prev_idx r idx) r)"

definition prepare_read :: "ts_t \<Rightarrow> tuple_ptr \<Rightarrow> ts_t \<Rightarrow> row_hekaton \<Rightarrow> RC res" where
  "prepare_read ts row commit_ts r = prepare_scan (length (hk_his r)) ts row commit_ts (hk_latest r) r"

definition post_process :: "txnid_t \<Rightarrow> ts_t \<Rightarrow> RC \<Rightarrow> row_hekaton \<Rightarrow> row_hekaton res" where
  "post_process txn_id commit_ts rc r =
     (let e = next_idx r (hk_latest r) in
      assert_res (he_begin_txn (hk_entry r e) \<and> he_begin (hk_entry r e) = txn_id)
       (let r = (upd_entry (hk_latest r) (he_end_txn_update (\<lambda>_. False)) r)\<lparr>hk_prewrite := False\<rparr> in
        if rc = RCOK
        then assert_res (he_begin (hk_entry r (hk_latest r)) < commit_ts)
          (let r = upd_entry (hk_latest r) (he_end_update (\<lambda>_. commit_ts)) r;
               r = upd_entry e (\<lambda>x. x\<lparr>he_begin := commit_ts, he_end := TS_INF\<rparr>) r;
               r = r\<lparr>hk_latest := e\<rparr> in
           assert_res (hk_latest r \<noteq> hk_oldest r) (Inr r))
        else Inr (upd_entry (hk_latest r) (he_end_update (\<lambda>_. TS_INF)) r)))"

text \<open>\<open>validate_hekaton\<close> over the rows of a transaction, with its access types and the tuples it read.\<close>

type_synonym hek_access = "access_t \<times> nat \<times> tuple_ptr"

fun validate_reads :: "ts_t \<Rightarrow> ts_t \<Rightarrow> hek_access list \<Rightarrow> (nat \<Rightarrow> row_hekaton) \<Rightarrow> RC res" where
  "validate_reads ts commit_ts [] rows = Inr RCOK"
| "validate_reads ts commit_ts ((type, row, data) # as) rows =
     (if type = WR then validate_reads ts commit_ts as rows
      else bind_res (prepare_read ts data commit_ts (rows row)) (\<lambda>rc.
        if rc = Abort then Inr Abort else validate_reads ts commit_ts as rows))"

fun post_writes :: "txnid_t \<Rightarrow> ts_t \<Rightarrow> RC \<Rightarrow> hek_access list \<Rightarrow> (nat \<Rightarrow> row_hekaton) \<Rightarrow> (nat \<Rightarrow> row_hekaton) res" where
  "post_writes txn_id commit_ts rc [] rows = Inr rows"
| "post_writes txn_id commit_ts rc ((type, row, data) # as) rows =
     (if type = RD then post_writes txn_id commit_ts rc as rows
      else bind_res (post_process txn_id commit_ts rc (rows row)) (\<lambda>r. post_writes txn_id commit_ts rc as (rows(row := r))))"

definition validate_hekaton ::
  "txnid_t \<Rightarrow> ts_t \<Rightarrow> ts_t \<Rightarrow> hek_access list \<Rightarrow> RC \<Rightarrow> (nat \<Rightarrow> row_hekaton) \<Rightarrow> (RC \<times> (nat \<Rightarrow> row_hekaton)) res" where
  "validate_hekaton txn_id ts commit_ts as rc rows =
     bind_res (if rc = RCOK then validate_reads ts commit_ts as rows else Inr rc) (\<lambda>rc.
       bind_res (post_writes txn_id commit_ts rc as rows) (\<lambda>rows. Inr (rc, rows)))"

section \<open>The versions as a list\<close>

text \<open>The entries from the oldest version on, and the positions of the array.\<close>

definition ring :: "row_hekaton \<Rightarrow> nat \<Rightarrow> WriteHisEntry" where
  "ring r k = hk_his r ! ((hk_oldest r + k) mod length (hk_his r))"

definition versions :: "nat \<Rightarrow> row_hekaton \<Rightarrow> (ts_t \<times> bytes) list" where
  "versions c r = map (\<lambda>k. (he_begin (ring r k), hk_rows r (the (he_row (ring r k))))) [0..<Suc c]"

definition shape_ok :: "nat \<Rightarrow> row_hekaton \<Rightarrow> bool" where
  "shape_ok c r \<longleftrightarrow> 2 \<le> length (hk_his r) \<and> hk_oldest r < length (hk_his r) \<and> c < length (hk_his r) \<and>
     hk_latest r = (hk_oldest r + c) mod length (hk_his r)"

definition intervals_ok :: "nat \<Rightarrow> row_hekaton \<Rightarrow> bool" where
  "intervals_ok c r \<longleftrightarrow> (\<forall>k<c. he_begin (ring r k) < he_begin (ring r (Suc k)) \<and> he_end (ring r k) = he_begin (ring r (Suc k)) \<and>
     \<not> he_end_txn (ring r k)) \<and> (\<forall>k\<le>c. he_row (ring r k) \<noteq> None)"

definition newest_ok :: "nat \<Rightarrow> row_hekaton \<Rightarrow> bool" where
  "newest_ok c r \<longleftrightarrow> (if hk_prewrite r
     then he_end_txn (ring r c) \<and> c + 1 < length (hk_his r) \<and> he_begin_txn (ring r (c + 1)) \<and> he_row (ring r (c + 1)) \<noteq> None
     else he_end (ring r c) = TS_INF)"

definition tuples_ok :: "row_hekaton \<Rightarrow> bool" where
  "tuples_ok r \<longleftrightarrow> (\<forall>i<length (hk_his r). \<forall>p. he_row (hk_his r ! i) = Some p \<longrightarrow> p < hk_fresh r \<and>
     (\<forall>j<length (hk_his r). he_row (hk_his r ! j) = Some p \<longrightarrow> j = i))"

definition hek_inv :: "nat \<Rightarrow> row_hekaton \<Rightarrow> bool" where
  "hek_inv c r \<longleftrightarrow> shape_ok c r \<and> intervals_ok c r \<and> newest_ok c r \<and> tuples_ok r"

lemmas hek_inv_defs = hek_inv_def shape_ok_def intervals_ok_def newest_ok_def

lemma hek_init_inv: "row < fresh \<Longrightarrow> hek_inv 0 (hek_init junk row rows fresh)"
proof -
  assume "row < fresh"
  moreover have "\<And>i. i < 4 \<Longrightarrow> he_row (hk_his (hek_init junk row rows fresh) ! i) = (if i = 0 then Some row else None)"
    by (auto simp: hek_init_def nth_Cons' less_Suc_eq numeral_eq_Suc)
  ultimately show ?thesis by (auto simp: hek_inv_defs tuples_ok_def ring_def) (auto simp: hek_init_def split: if_splits)
qed

lemma latest_entry: "shape_ok c r \<Longrightarrow> hk_entry r (hk_latest r) = ring r c"
  by (simp add: shape_ok_def hk_entry_def ring_def)

lemma oldest_entry: "shape_ok c r \<Longrightarrow> hk_entry r (hk_oldest r) = ring r 0"
  by (simp add: shape_ok_def hk_entry_def ring_def)

lemma next_latest: "shape_ok c r \<Longrightarrow> next_idx r (hk_latest r) = (hk_oldest r + (c + 1)) mod length (hk_his r)"
  by (simp add: shape_ok_def next_idx_def mod_Suc_eq)

lemma prev_ring:
  assumes "0 < length (hk_his r)"
  shows "prev_idx r ((hk_oldest r + Suc k) mod length (hk_his r)) = (hk_oldest r + k) mod length (hk_his r)"
  using assms mod_Suc[of "hk_oldest r + k" "length (hk_his r)"] by (auto simp: prev_idx_def)

lemma ring_full: "shape_ok c r \<Longrightarrow> next_idx r (hk_latest r) = hk_oldest r \<longleftrightarrow> c + 1 = length (hk_his r)"
proof -
  assume s: "shape_ok c r"
  let ?n = "length (hk_his r)" let ?o = "hk_oldest r"
  have o: "?o < ?n" "c + 1 \<le> ?n" using s by (auto simp: shape_ok_def)
  show ?thesis
  proof (cases "c + 1 = ?n")
    case False
    have "(?o + (c + 1)) mod ?n \<noteq> ?o"
      using window_inj[of ?o "?o + (c + 1)" ?n ?o] o False mod_less[OF o(1)] by linarith
    then show ?thesis using next_latest[OF s] False by simp
  qed (use next_latest[OF s] o in simp)
qed

lemma ring_upd:
  assumes "j < length (hk_his r)" "k < length (hk_his r)"
  shows "ring (upd_entry ((hk_oldest r + j) mod length (hk_his r)) f r) k = (if k = j then f (ring r j) else ring r k)"
proof -
  let ?n = "length (hk_his r)" let ?o = "hk_oldest r"
  have "(?o + k) mod ?n = (?o + j) mod ?n \<longleftrightarrow> k = j" using window_inj[of ?o "?o + k" ?n "?o + j"] assms by auto
  moreover have "(?o + j) mod ?n < ?n" using assms by (intro mod_less_divisor) auto
  ultimately show ?thesis by (auto simp: ring_def upd_entry_def)
qed

lemma ring_tuple_inj:
  assumes "tuples_ok r" "he_row (ring r j) = Some p" "he_row (ring r k) = Some p" "j < length (hk_his r)" "k < length (hk_his r)"
  shows "j = k"
proof -
  let ?n = "length (hk_his r)" let ?o = "hk_oldest r"
  have "(?o + j) mod ?n < ?n" "(?o + k) mod ?n < ?n" using assms(4) by (auto intro!: mod_less_divisor)
  then have "(?o + j) mod ?n = (?o + k) mod ?n" using assms(1-3) unfolding tuples_ok_def ring_def by blast
  then show ?thesis using window_inj[of ?o "?o + j" ?n "?o + k"] assms(4,5) by auto
qed

section \<open>Reading\<close>

lemma begin_mono:
  assumes "intervals_ok c r" "i \<le> j" "j \<le> c"
  shows "he_begin (ring r i) \<le> he_begin (ring r j)"
  using assms(2,3)
proof (induction j)
  case (Suc j)
  show ?case
  proof (cases "i = Suc j")
    case False
    then have "he_begin (ring r i) \<le> he_begin (ring r j)" using Suc by simp
    also have "\<dots> < he_begin (ring r (Suc j))" using assms(1) Suc.prems by (simp add: intervals_ok_def)
    finally show ?thesis by simp
  qed simp
qed simp

text \<open>The newest version that begins before a timestamp.\<close>

definition version_at :: "ts_t \<Rightarrow> (ts_t \<times> bytes) list \<Rightarrow> bytes option" where
  "version_at ts vs = (let ws = filter (\<lambda>v. fst v < ts) vs in if ws = [] then None else Some (snd (last ws)))"

lemma version_at_last:
  assumes "intervals_ok c r" "k \<le> c" "he_begin (ring r k) < ts" "k < c \<Longrightarrow> ts \<le> he_begin (ring r (Suc k))"
  shows "version_at ts (versions c r) = Some (hk_rows r (the (he_row (ring r k))))"
proof -
  let ?v = "\<lambda>k. (he_begin (ring r k), hk_rows r (the (he_row (ring r k))))"
  have split: "[0..<Suc c] = [0..<k] @ k # [Suc k..<Suc c]"
    using upt_add_eq_append[of 0 k "Suc c - k"] upt_conv_Cons[of k "Suc c"] assms(2) by simp
  have "\<not> he_begin (ring r j) < ts" if "Suc k \<le> j" "j \<le> c" for j
    using begin_mono[OF assms(1) that] assms(4) that by (meson Suc_le_lessD leD le_less_trans not_less order_trans)
  then have "filter (\<lambda>v. fst v < ts) (map ?v [Suc k..<Suc c]) = []" by (auto simp: filter_empty_conv)
  then have "filter (\<lambda>v. fst v < ts) (versions c r) = filter (\<lambda>v. fst v < ts) (map ?v [0..<k]) @ [?v k]"
    unfolding versions_def split map_append using assms(3) by simp
  then show ?thesis by (simp add: version_at_def)
qed

lemma find_version_ok:
  assumes "shape_ok c r" "intervals_ok c r" "k \<le> c" "k < n" "ts \<le> he_begin (ring r k)" "he_begin (ring r 0) < ts" "\<forall>j\<le>c. he_begin (ring r j) \<noteq> ts"
  shows "\<exists>j<k. find_version n ts ((hk_oldest r + k) mod length (hk_his r)) r = Inr (he_row (ring r j)) \<and>
    he_begin (ring r j) < ts \<and> ts \<le> he_begin (ring r (Suc j))"
  using assms(3-5)
proof (induction n arbitrary: k)
  case (Suc n)
  have "k \<noteq> 0" using Suc.prems(3) assms(6) by (metis leD)
  then obtain m where m: "k = Suc m" using not0_implies_Suc by blast
  have n0: "0 < length (hk_his r)" using assms(1) by (auto simp: shape_ok_def)
  let ?i = "(hk_oldest r + m) mod length (hk_his r)"
  have e: "hk_entry r ?i = ring r m" by (simp add: hk_entry_def ring_def)
  show ?case
  proof (cases "he_begin (ring r m) < ts")
    case True
    have "he_end (ring r m) = he_begin (ring r k)" using assms(2) Suc.prems(1) m by (simp add: intervals_ok_def)
    moreover have "ts < he_begin (ring r k)" using Suc.prems(1,3) assms(7) by (metis order_less_le)
    ultimately show ?thesis using True m e prev_ring[OF n0, of m] Suc.prems(3) by (intro exI[of _ m]) simp
  next
    case False
    then have "m \<noteq> 0" using assms(6) by metis
    then have "?i \<noteq> hk_oldest r"
      using window_inj[of "hk_oldest r" "hk_oldest r + m" "length (hk_his r)" "hk_oldest r"] assms(1) Suc.prems(1) m
        mod_less[of "hk_oldest r" "length (hk_his r)"] unfolding shape_ok_def by linarith
    moreover obtain j where "j < m" "find_version n ts ?i r = Inr (he_row (ring r j))" "he_begin (ring r j) < ts" "ts \<le> he_begin (ring r (Suc j))"
      using Suc.IH[of m] Suc.prems(1,2) m False by (auto simp: not_less)
    ultimately show ?thesis using m False e prev_ring[OF n0, of m] by (intro exI[of _ j]) (simp add: Let_def)
  qed
qed simp

text \<open>
  C34: A multi-version read is correct: in every state of the row, a read whose timestamp is not a
  version's own begin ends, never fails an assertion, aborts exactly when it is older than the
  oldest version kept, and otherwise returns the tuple of the newest version that begins before it.
\<close>

theorem hek_read_version:
  assumes "hek_inv c r" "\<forall>v\<in>set (versions c r). fst v \<noteq> ts"
  shows "hek_read ts r = Inr None \<and> version_at ts (versions c r) = None \<or>
    (\<exists>p. hek_read ts r = Inr (Some (Some p)) \<and> version_at ts (versions c r) = Some (hk_rows r p))"
proof -
  have s: "shape_ok c r" and iv: "intervals_ok c r" and nw: "newest_ok c r" using assms(1) by (auto simp: hek_inv_def)
  have ne: "\<forall>j\<le>c. he_begin (ring r j) \<noteq> ts" using assms(2) by (fastforce simp: versions_def)
  have op: "latest_open r" using nw by (auto simp: newest_ok_def latest_open_def latest_entry[OF s] split: if_splits)
  have row: "\<exists>p. he_row (ring r j) = Some p" if "j \<le> c" for j using iv that by (auto simp: intervals_ok_def)
  consider "ts < he_begin (ring r 0)" | "\<not> ts < he_begin (ring r 0)" "he_begin (ring r c) < ts"
    | "\<not> ts < he_begin (ring r 0)" "\<not> he_begin (ring r c) < ts" by blast
  then show ?thesis
  proof cases
    case 1
    have "\<not> he_begin (ring r j) < ts" if "j \<le> c" for j using begin_mono[OF iv _ that, of 0] 1 by (meson le0 less_asym less_le_trans not_less order_trans)
    then have "filter (\<lambda>v. fst v < ts) (versions c r) = []" by (auto simp: versions_def filter_empty_conv)
    then show ?thesis using 1 op by (simp add: hek_read_def oldest_entry[OF s] version_at_def)
  next
    case 2
    then show ?thesis using op row[of c] version_at_last[OF iv, of c ts]
      by (auto simp: hek_read_def oldest_entry[OF s] latest_entry[OF s])
  next
    case 3
    have l: "he_begin (ring r 0) < ts" "ts \<le> he_begin (ring r c)" using 3 ne by (auto simp: not_less order_less_le)
    have c: "c < length (hk_his r)" "hk_latest r = (hk_oldest r + c) mod length (hk_his r)" using s by (auto simp: shape_ok_def)
    obtain j where j: "j < c" "find_version (length (hk_his r)) ts (hk_latest r) r = Inr (he_row (ring r j))"
        "he_begin (ring r j) < ts" "ts \<le> he_begin (ring r (Suc j))"
      using find_version_ok[OF s iv _ c(1) l(2,1) ne] c(2) by auto
    then show ?thesis using 3 op row[of j] version_at_last[OF iv, of j ts]
      by (auto simp: hek_read_def oldest_entry[OF s] latest_entry[OF s])
  qed
qed

section \<open>Recycling versions\<close>

lemma ring_drop: "ring (r\<lparr>hk_oldest := (hk_oldest r + d) mod length (hk_his r)\<rparr>) k = ring r (d + k)"
  by (simp add: ring_def mod_add_left_eq add.assoc)

lemma versions_cong:
  assumes "\<And>k. k \<le> c \<Longrightarrow> he_begin (ring r' k) = he_begin (ring r k) \<and> he_row (ring r' k) = he_row (ring r k)"
    "\<And>k. k \<le> c \<Longrightarrow> hk_rows r' (the (he_row (ring r k))) = hk_rows r (the (he_row (ring r k)))"
  shows "versions c r' = versions c r"
  using assms by (auto simp: versions_def)

text \<open>The state inside \<open>reserveRow\<close>: the row is marked, but no entry is reserved yet.\<close>

definition idle_inv :: "nat \<Rightarrow> row_hekaton \<Rightarrow> bool" where
  "idle_inv c r \<longleftrightarrow> shape_ok c r \<and> intervals_ok c r \<and> he_end (ring r c) = TS_INF \<and> tuples_ok r"

lemma idle_inv_mark: "hek_inv c r \<Longrightarrow> \<not> hk_prewrite r \<Longrightarrow> idle_inv c (r\<lparr>hk_prewrite := b\<rparr>)"
proof -
  assume a: "hek_inv c r" "\<not> hk_prewrite r"
  have "shape_ok c (r\<lparr>hk_prewrite := b\<rparr>) = shape_ok c r" "intervals_ok c (r\<lparr>hk_prewrite := b\<rparr>) = intervals_ok c r"
    "tuples_ok (r\<lparr>hk_prewrite := b\<rparr>) = tuples_ok r" "ring (r\<lparr>hk_prewrite := b\<rparr>) c = ring r c"
    by (simp_all add: shape_ok_def intervals_ok_def tuples_ok_def ring_def)
  then show ?thesis using a by (simp add: hek_inv_def idle_inv_def newest_ok_def)
qed

lemma versions_mark: "versions c (r\<lparr>hk_prewrite := b\<rparr>) = versions c r"
  by (simp add: versions_def ring_def)

lemma mod_shift:
  assumes "d \<le> (c::nat)"
  shows "((a + d) mod n + (c - d)) mod n = (a + c) mod n"
proof -
  have "a + d + (c - d) = a + c" using assms by simp
  then show ?thesis using mod_add_left_eq[of "a + d" n "c - d"] by metis
qed

lemma hek_drop:
  assumes "idle_inv c r" "d \<le> c" "r' = r\<lparr>hk_oldest := (hk_oldest r + d) mod length (hk_his r)\<rparr>"
  shows "idle_inv (c - d) r'" "versions (c - d) r' = drop d (versions c r)"
proof -
  have n: "0 < length (hk_his r)" using assms(1) by (auto simp: idle_inv_def shape_ok_def)
  have rg: "ring r' k = ring r (d + k)" for k unfolding assms(3) ring_drop ..
  have "hk_oldest r' < length (hk_his r')" unfolding assms(3) using n by (simp add: mod_less_divisor)
  moreover have "hk_latest r' = (hk_oldest r' + (c - d)) mod length (hk_his r')"
    using assms(1,3) mod_shift[OF assms(2), of "hk_oldest r" "length (hk_his r)"] by (simp add: idle_inv_def shape_ok_def)
  moreover have "c - d < length (hk_his r')" "2 \<le> length (hk_his r')" using assms(1,3) by (auto simp: idle_inv_def shape_ok_def)
  ultimately have "shape_ok (c - d) r'" by (simp only: shape_ok_def simp_thms)
  moreover have "intervals_ok (c - d) r'"
    using assms(1,2) unfolding idle_inv_def intervals_ok_def rg by simp
  moreover have "he_end (ring r' (c - d)) = TS_INF"
    using assms(1,2) unfolding idle_inv_def rg by simp
  moreover have "tuples_ok r' \<longleftrightarrow> tuples_ok r" unfolding tuples_ok_def assms(3) by simp
  ultimately show "idle_inv (c - d) r'" using assms(1) by (simp only: idle_inv_def simp_thms)
  have "hk_rows r' = hk_rows r" unfolding assms(3) by simp
  then show "versions (c - d) r' = drop d (versions c r)"
    using assms(2) by (intro nth_equalityI) (simp_all add: versions_def rg drop_map Suc_diff_le del: upt_Suc)
qed

lemma gc_loop_ok:
  assumes "idle_inv c r" "c < n"
  shows "\<exists>d\<le>c. gc_loop n m r = Inr (r\<lparr>hk_oldest := (hk_oldest r + d) mod length (hk_his r)\<rparr>)"
  using assms
proof (induction n arbitrary: c r)
  case (Suc n)
  let ?l = "length (hk_his r)" let ?o = "hk_oldest r"
  have s: "shape_ok c r" using Suc.prems(1) by (simp add: idle_inv_def)
  show ?case
  proof (cases "he_end (ring r 0) < m")
    case True
    have "c \<noteq> 0"
    proof
      assume "c = 0"
      then have "he_end (ring r 0) = TS_INF" using Suc.prems(1) by (simp add: idle_inv_def)
      then show False using True by (simp add: leD[OF max_word_max])
    qed
    then have ne: "?o \<noteq> hk_latest r"
      using window_inj[of ?o ?o ?l "?o + c"] s mod_less[of ?o ?l] unfolding shape_ok_def by linarith
    let ?r = "r\<lparr>hk_oldest := (?o + 1) mod ?l\<rparr>"
    have inv: "idle_inv (c - 1) ?r" using hek_drop(1)[OF Suc.prems(1), of 1 ?r] \<open>c \<noteq> 0\<close> by simp
    have less: "c - 1 < n" using Suc.prems(2) \<open>c \<noteq> 0\<close> by simp
    obtain d where d: "d \<le> c - 1" "gc_loop n m ?r = Inr (?r\<lparr>hk_oldest := ((?o + 1) mod ?l + d) mod ?l\<rparr>)"
      using Suc.IH[OF inv less] by auto
    then show ?thesis using True ne \<open>c \<noteq> 0\<close>
      by (intro exI[of _ "d + 1"]) (auto simp: oldest_entry[OF s] next_idx_def mod_add_left_eq mod_Suc_eq)
  next
    case False
    have "r\<lparr>hk_oldest := (?o + 0) mod ?l\<rparr> = r" using s by (simp add: shape_ok_def)
    then show ?thesis using False by (intro exI[of _ 0]) (simp add: oldest_entry[OF s])
  qed
qed simp

lemma double_ok:
  assumes "idle_inv c r" "c + 1 = length (hk_his r)" "r' = doubleHistory junk r"
  shows "idle_inv c r'" "versions c r' = versions c r" "length (hk_his r') = 2 * length (hk_his r)" "hk_prewrite r' = hk_prewrite r"
proof -
  let ?n = "length (hk_his r)"
  have n: "2 \<le> ?n" using assms(1) by (simp add: idle_inv_def shape_ok_def)
  show len: "length (hk_his r') = 2 * ?n" and "hk_prewrite r' = hk_prewrite r" using assms(3) by (simp_all add: doubleHistory_def Let_def)
  have rg: "ring r' k = ring r k" if "k < ?n" for k
    using assms(3) len that by (simp add: ring_def doubleHistory_def Let_def nth_append)
  have "shape_ok c r'" using assms(2,3) n len by (auto simp: shape_ok_def doubleHistory_def Let_def)
  moreover have "intervals_ok c r'" "he_end (ring r' c) = TS_INF"
    using assms(1,2) rg n unfolding idle_inv_def intervals_ok_def by auto
  moreover have "tuples_ok r'"
  proof -
    have nth: "he_row (hk_his r' ! i) = (if i < ?n then he_row (hk_his r ! ((hk_oldest r + i) mod ?n)) else None)" if "i < 2 * ?n" for i
      using assms(3) that by (auto simp: doubleHistory_def Let_def nth_append)
    have idx: "(hk_oldest r + i) mod ?n < ?n" for i using n by (intro mod_less_divisor) linarith
    show ?thesis unfolding tuples_ok_def len
    proof (intro allI impI conjI)
      fix i p assume i: "i < 2 * ?n" "he_row (hk_his r' ! i) = Some p"
      then have ip: "i < ?n" "he_row (ring r i) = Some p" using nth[OF i(1)] by (auto simp: ring_def split: if_splits)
      then show "p < hk_fresh r'" using assms(1,3) idx[of i] by (auto simp: idle_inv_def tuples_ok_def ring_def doubleHistory_def Let_def)
      fix j assume j: "j < 2 * ?n" "he_row (hk_his r' ! j) = Some p"
      then have "j < ?n" "he_row (ring r j) = Some p" using nth[OF j(1)] by (auto simp: ring_def split: if_splits)
      then show "j = i" using ring_tuple_inj[of r j p i] ip assms(1) by (simp add: idle_inv_def)
    qed
  qed
  ultimately show "idle_inv c r'" by (simp add: idle_inv_def)
  show "versions c r' = versions c r" using rg assms(2,3) by (intro versions_cong) (auto simp: doubleHistory_def Let_def)
qed

section \<open>Writing\<close>

lemma upd_ring_same: "hk_oldest (upd_entry i f r) = hk_oldest r" "length (hk_his (upd_entry i f r)) = length (hk_his r)"
  "hk_latest (upd_entry i f r) = hk_latest r" "hk_rows (upd_entry i f r) = hk_rows r" "hk_prewrite (upd_entry i f r) = hk_prewrite r"
  "hk_fresh (upd_entry i f r) = hk_fresh r"
  by (simp_all add: upd_entry_def)

lemma upd_tuples:
  assumes "tuples_ok r" "\<And>e. he_row (f e) = he_row e"
  shows "tuples_ok (upd_entry i f r)"
proof -
  have "he_row (hk_his (upd_entry i f r) ! j) = he_row (hk_his r ! j)" for j
    using assms(2) by (cases "i < length (hk_his r)"; cases "i = j") (auto simp: upd_entry_def list_update_beyond)
  then show ?thesis using assms(1) by (simp only: tuples_ok_def upd_ring_same)
qed

lemma shape_upd: "shape_ok c (upd_entry i f r) = shape_ok c r"
  by (simp add: shape_ok_def upd_ring_same)

text \<open>The state in which the entry after the newest version is free and has a tuple.\<close>

definition slot_free :: "nat \<Rightarrow> row_hekaton \<Rightarrow> bool" where
  "slot_free c r \<longleftrightarrow> idle_inv c r \<and> c + 1 < length (hk_his r) \<and> he_row (ring r (c + 1)) \<noteq> None"

lemma reserve_tuple_ok:
  assumes "idle_inv c r" "c + 1 < length (hk_his r)" "r' = reserve_tuple ((hk_oldest r + (c + 1)) mod length (hk_his r)) r"
  shows "slot_free c r'" "versions c r' = versions c r" "hk_prewrite r' = hk_prewrite r" "length (hk_his r') = length (hk_his r)"
    "hk_oldest r' = hk_oldest r"
proof -
  let ?n = "length (hk_his r)" let ?i = "(hk_oldest r + (c + 1)) mod ?n"
  have e: "hk_entry r ?i = ring r (c + 1)" by (simp add: hk_entry_def ring_def)
  show "hk_prewrite r' = hk_prewrite r" "length (hk_his r') = ?n" "hk_oldest r' = hk_oldest r"
    using assms(3) by (auto simp: reserve_tuple_def upd_ring_same)
  have "slot_free c r' \<and> versions c r' = versions c r"
  proof (cases "he_row (ring r (c + 1))")
    case (Some p)
    then have "r' = r" using assms(3) e by (simp add: reserve_tuple_def)
    then show ?thesis using assms(1,2) Some by (simp add: slot_free_def)
  next
    case None
    let ?u = "upd_entry ?i (he_row_update (\<lambda>_. Some (hk_fresh r))) r"
    have r': "r' = ?u\<lparr>hk_fresh := hk_fresh r + 1\<rparr>" using assms(3) e None by (simp add: reserve_tuple_def)
    have rg: "ring r' k = (if k = c + 1 then (ring r k)\<lparr>he_row := Some (hk_fresh r)\<rparr> else ring r k)" if "k < ?n" for k
      using ring_upd[OF assms(2) that] unfolding r' by (simp add: ring_def)
    have sh: "shape_ok c r'" using assms(1) shape_upd[of c] unfolding r' by (simp add: idle_inv_def shape_ok_def)
    have "intervals_ok c r'" "he_end (ring r' c) = TS_INF"
      using assms(1,2) rg unfolding idle_inv_def intervals_ok_def by auto
    moreover have "tuples_ok r'"
    proof -
      have i: "?i < ?n" using assms(2) by (intro mod_less_divisor) auto
      have row: "he_row (hk_his r' ! j) = (if j = ?i then Some (hk_fresh r) else he_row (hk_his r ! j))" if "j < ?n" for j
        using that i unfolding r' by (auto simp: upd_entry_def)
      have old: "he_row (hk_his r ! j) = Some p \<Longrightarrow> p < hk_fresh r" "he_row (hk_his r ! j) = Some p \<Longrightarrow> he_row (hk_his r ! k) = Some p \<Longrightarrow> k = j"
        if "j < ?n" "k < ?n" for j k p
        using assms(1) that unfolding idle_inv_def tuples_ok_def by blast+
      show ?thesis unfolding tuples_ok_def
      proof (intro allI impI conjI)
        fix j p assume j: "j < length (hk_his r')" "he_row (hk_his r' ! j) = Some p"
        then have jn: "j < ?n" using assms(3) by (simp add: r' upd_ring_same)
        have "p \<le> hk_fresh r" using row[OF jn] j(2) old(1)[OF jn jn, of p] by (cases "j = ?i") simp_all
        then show "p < hk_fresh r'" by (simp add: r')
        fix k assume k: "k < length (hk_his r')" "he_row (hk_his r' ! k) = Some p"
        then have kn: "k < ?n" by (simp add: r' upd_ring_same)
        have "j = ?i \<longleftrightarrow> p = hk_fresh r" "k = ?i \<longleftrightarrow> p = hk_fresh r"
          using row[OF jn] row[OF kn] j(2) k(2) old(1)[OF jn jn, of p] old(1)[OF kn kn, of p] less_irrefl by (metis option.inject)+
        then show "k = j" using row[OF jn] row[OF kn] j(2) k(2) old(2)[OF jn kn, of p] by metis
      qed
    qed
    moreover have "versions c r' = versions c r" using rg assms(2) by (intro versions_cong) (auto simp: r' upd_ring_same)
    moreover have "he_row (ring r' (c + 1)) \<noteq> None" "length (hk_his r') = ?n" using rg[OF assms(2)] by (auto simp: r' upd_ring_same)
    ultimately show ?thesis using sh assms(2) by (simp add: slot_free_def idle_inv_def)
  qed
  then show "slot_free c r'" "versions c r' = versions c r" by auto
qed

lemma pick_slot_ok:
  assumes "idle_inv c r"
  shows "\<exists>d c' r'. pick_slot junk t r = ((hk_oldest r' + (c' + 1)) mod length (hk_his r'), r') \<and> idle_inv c' r' \<and>
    c' + 1 < length (hk_his r') \<and> d \<le> c \<and> versions c' r' = drop d (versions c r) \<and> hk_prewrite r' = hk_prewrite r \<and>
    (c + 1 < length (hk_his r) \<longrightarrow> d = 0)" (is "\<exists>d c' r'. ?P d c' r'")
proof -
  let ?n = "length (hk_his r)" let ?o = "hk_oldest r"
  have s: "shape_ok c r" using assms by (simp add: idle_inv_def)
  then have c: "c + 1 \<le> ?n" "2 \<le> ?n" "?o < ?n" by (auto simp: shape_ok_def)
  consider "c + 1 < ?n" | "c + 1 = ?n" "?n < t" | "c + 1 = ?n" "\<not> ?n < t" using c by linarith
  then show ?thesis
  proof cases
    case 1
    then have "?P 0 c r" using assms ring_full[OF s] next_latest[OF s] by (simp add: pick_slot_def)
    then show ?thesis by blast
  next
    case 2
    let ?r = "doubleHistory junk r"
    note dbl = double_ok[OF assms 2(1) refl, of junk]
    have "next_idx ?r (hk_latest ?r) = (hk_oldest ?r + (c + 1)) mod length (hk_his ?r)"
      using dbl(1) by (intro next_latest) (simp add: idle_inv_def)
    then have "pick_slot junk t r = ((hk_oldest ?r + (c + 1)) mod length (hk_his ?r), ?r)"
      using 2 ring_full[OF s] by (simp only: pick_slot_def Let_def if_True if_False simp_thms)
    moreover have "c + 1 < length (hk_his ?r)" using 2(1) dbl(3) c(2) by linarith
    ultimately have "?P 0 c ?r" using dbl by simp
    then show ?thesis by blast
  next
    case 3
    let ?r = "r\<lparr>hk_oldest := next_idx r ?o\<rparr>"
    have nx: "next_idx r ?o = (?o + 1) mod ?n" by (simp add: next_idx_def)
    have d1: "1 \<le> c" using 3 c by simp
    note dr = hek_drop[OF assms d1, of ?r]
    have "(next_idx r ?o + (c - 1 + 1)) mod ?n = (?o + (c + 1)) mod ?n"
      unfolding nx mod_add_left_eq using d1 by (simp add: add.assoc)
    moreover have "(?o + (c + 1)) mod ?n = ?o" unfolding 3(1) using c(3) by simp
    ultimately have "?o = (hk_oldest ?r + (c - 1 + 1)) mod length (hk_his ?r)" by simp
    then have "pick_slot junk t r = ((hk_oldest ?r + (c - 1 + 1)) mod length (hk_his ?r), ?r)"
      using 3 ring_full[OF s] by (simp only: pick_slot_def if_True if_False simp_thms)
    moreover have "idle_inv (c - 1) ?r" "versions (c - 1) ?r = drop 1 (versions c r)" using dr nx by simp_all
    moreover have "c - 1 + 1 < length (hk_his ?r)" "hk_prewrite ?r = hk_prewrite r" "\<not> c + 1 < ?n" using 3 d1 by simp_all
    ultimately have "?P 1 (c - 1) ?r" using d1 by blast
    then show ?thesis by blast
  qed
qed

lemma reserveRow_ok:
  assumes "idle_inv c r"
  shows "\<exists>d c' r'. reserveRow junk t (Inr m) r = Inr ((hk_oldest r' + (c' + 1)) mod length (hk_his r'), r') \<and> slot_free c' r' \<and>
    versions c' r' = drop d (versions c r) \<and> d \<le> c \<and> hk_prewrite r' = hk_prewrite r \<and> (c + 1 < length (hk_his r) \<longrightarrow> d = 0)"
    (is "\<exists>d c' r'. ?P d c' r'")
proof -
  let ?n = "length (hk_his r)"
  have s: "shape_ok c r" "c < ?n" "hk_oldest r < ?n" using assms by (auto simp: idle_inv_def shape_ok_def)
  let ?gc = "if next_idx r (hk_latest r) = hk_oldest r \<and> he_end (hk_entry r (hk_oldest r)) < m then gc_loop ?n m r else Inr r"
  have "r\<lparr>hk_oldest := (hk_oldest r + 0) mod ?n\<rparr> = r" using s(3) by simp
  then obtain d where d: "d \<le> c" "?gc = Inr (r\<lparr>hk_oldest := (hk_oldest r + d) mod ?n\<rparr>)" "c + 1 < ?n \<longrightarrow> d = 0"
    using gc_loop_ok[OF assms s(2), of m] ring_full[OF s(1)] by (metis le0 less_irrefl)
  let ?r = "r\<lparr>hk_oldest := (hk_oldest r + d) mod ?n\<rparr>"
  note dr = hek_drop[OF assms d(1) refl]
  obtain d' c' r' where p: "pick_slot junk t ?r = ((hk_oldest r' + (c' + 1)) mod length (hk_his r'), r')" "idle_inv c' r'"
    "c' + 1 < length (hk_his r')" "d' \<le> c - d" "versions c' r' = drop d' (versions (c - d) ?r)" "hk_prewrite r' = hk_prewrite r"
    "c - d + 1 < ?n \<longrightarrow> d' = 0"
    using pick_slot_ok[OF dr(1), of junk t] by auto
  let ?s = "reserve_tuple ((hk_oldest r' + (c' + 1)) mod length (hk_his r')) r'"
  note rt = reserve_tuple_ok[OF p(2,3) refl]
  have "reserveRow junk t (Inr m) r = Inr ((hk_oldest r' + (c' + 1)) mod length (hk_his r'), ?s)"
    using d(2) p(1) unfolding reserveRow_def by (simp add: Let_def)
  moreover have "versions c' ?s = drop (d' + d) (versions c r)" using rt(2) p(5) dr(2) by simp
  moreover have "d' + d \<le> c" "c + 1 < ?n \<longrightarrow> d' + d = 0" using p(4,7) d(1,3) by auto
  ultimately have "?P (d' + d) c' ?s" using rt(1,3-5) p(6) by simp
  then show ?thesis by blast
qed

text \<open>Marking the reserved entry and the newest version, and copying the newest tuple.\<close>

lemma tuples_rows: "tuples_ok (r\<lparr>hk_rows := x\<rparr>) = tuples_ok r" "tuples_ok (r\<lparr>hk_prewrite := b\<rparr>) = tuples_ok r"
  "tuples_ok (r\<lparr>hk_latest := i\<rparr>) = tuples_ok r"
  by (simp_all add: tuples_ok_def)

lemma mark_slot_ok:
  assumes "slot_free c r" "hk_prewrite r" "he_row (ring r (c + 1)) = Some p"
    "i = (hk_oldest r + (c + 1)) mod length (hk_his r)" "j = (hk_oldest r + c) mod length (hk_his r)"
    "r1 = upd_entry j (\<lambda>e. e\<lparr>he_end_txn := True, he_end := txn\<rparr>) (upd_entry i (\<lambda>e. e\<lparr>he_begin_txn := True, he_begin := txn\<rparr>) r)"
    "r' = r1\<lparr>hk_rows := (hk_rows r1)(p := d)\<rparr>"
  shows "hek_inv c r'" "versions c r' = versions c r" "he_begin (ring r' (c + 1)) = txn" "k < length (hk_his r) \<Longrightarrow> he_row (ring r' k) = he_row (ring r k)"
proof -
  let ?n = "length (hk_his r)"
  have id: "idle_inv c r" and c: "c < ?n" "c + 1 < ?n" using assms(1) by (auto simp: slot_free_def)
  let ?u = "upd_entry i (\<lambda>e. e\<lparr>he_begin_txn := True, he_begin := txn\<rparr>) r"
  have ru: "ring ?u k = (if k = c + 1 then (ring r k)\<lparr>he_begin_txn := True, he_begin := txn\<rparr> else ring r k)" if "k < ?n" for k
    using ring_upd[OF c(2) that] assms(4) by simp
  have rg: "ring r' k = (if k = c then (ring r k)\<lparr>he_end_txn := True, he_end := txn\<rparr>
      else if k = c + 1 then (ring r k)\<lparr>he_begin_txn := True, he_begin := txn\<rparr> else ring r k)" if "k < ?n" for k
  proof -
    have "ring r' k = ring r1 k" by (simp add: assms(7) ring_def)
    also have "\<dots> = (if k = c then (ring ?u c)\<lparr>he_end_txn := True, he_end := txn\<rparr> else ring ?u k)"
      using ring_upd[of c ?u k "\<lambda>e. e\<lparr>he_end_txn := True, he_end := txn\<rparr>"] c(1) that unfolding assms(5,6) upd_ring_same by simp
    finally show ?thesis using ru[OF that] ru[OF c(1)] by simp
  qed
  have same: "hk_prewrite r'" "length (hk_his r') = ?n" using assms(2) by (simp_all add: assms(6,7) upd_ring_same)
  have "shape_ok c r'" using id shape_upd[of c] unfolding assms(6,7) by (simp add: idle_inv_def shape_ok_def)
  moreover have "intervals_ok c r'" using id rg c unfolding idle_inv_def intervals_ok_def by auto
  moreover have "newest_ok c r'" using rg[OF c(1)] rg[OF c(2)] same c assms(3) by (simp add: newest_ok_def)
  moreover have "tuples_ok r1" using id unfolding assms(6) by (intro upd_tuples) (simp_all add: idle_inv_def)
  then have "tuples_ok r'" unfolding assms(7) by (simp add: tuples_rows)
  ultimately show "hek_inv c r'" by (simp add: hek_inv_def)
  show "he_begin (ring r' (c + 1)) = txn" using rg[OF c(2)] assms(3) by simp
  show "k < length (hk_his r) \<Longrightarrow> he_row (ring r' k) = he_row (ring r k)" using rg[of k] by simp
  have "the (he_row (ring r k)) \<noteq> p" if "k \<le> c" for k
    using ring_tuple_inj[of r k p "c + 1"] id assms(3) c that unfolding idle_inv_def intervals_ok_def by auto
  then show "versions c r' = versions c r" using rg c by (intro versions_cong) (auto simp: assms(6,7) upd_ring_same)
qed

lemma versions_last: "snd (last (versions c r)) = hk_rows r (the (he_row (ring r c)))"
  by (simp add: versions_def)

lemma hek_prewrite_ok:
  assumes "hek_inv c r" "\<not> hk_prewrite r" "\<not> ts < he_begin (ring r c)"
  shows "\<exists>d c' p r'. hek_prewrite junk t (Inr m) txn ts r = Inr (Some p, r') \<and> hek_inv c' r' \<and> hk_prewrite r' \<and> d \<le> c \<and>
    versions c' r' = drop d (versions c r) \<and> he_begin (ring r' (c' + 1)) = txn \<and> he_row (ring r' (c' + 1)) = Some p \<and>
    hk_rows r' p = snd (last (versions c r)) \<and> (c + 1 < length (hk_his r) \<longrightarrow> d = 0)" (is "\<exists>d c' p r'. ?P d c' p r'")
proof -
  have s: "shape_ok c r" using assms(1) by (simp add: hek_inv_def)
  have op: "latest_open r" using assms(1,2) by (auto simp: hek_inv_def newest_ok_def latest_open_def latest_entry[OF s])
  obtain d c' r1 where r1: "reserveRow junk t (Inr m) (r\<lparr>hk_prewrite := True\<rparr>) = Inr ((hk_oldest r1 + (c' + 1)) mod length (hk_his r1), r1)"
      "slot_free c' r1" "versions c' r1 = drop d (versions c r)" "d \<le> c" "hk_prewrite r1" "c + 1 < length (hk_his r) \<longrightarrow> d = 0"
    using reserveRow_ok[OF idle_inv_mark[OF assms(1,2)], of junk t m True] by (auto simp: versions_mark)
  let ?n = "length (hk_his r1)"
  obtain i j where i: "i = (hk_oldest r1 + (c' + 1)) mod ?n" and j: "j = (hk_oldest r1 + c') mod ?n" by blast
  obtain p where p: "he_row (ring r1 (c' + 1)) = Some p" using r1(2) by (auto simp: slot_free_def)
  have c': "c' < ?n" "c' + 1 < ?n" "shape_ok c' r1" using r1(2) by (auto simp: slot_free_def idle_inv_def)
  have pi: "prev_idx (upd_entry i f r1) i = j" for f
    using prev_ring[of r1 c'] c'(1) unfolding prev_idx_def upd_ring_same i j by force
  obtain q where q: "he_row (ring r1 c') = Some q" using r1(2) by (auto simp: slot_free_def idle_inv_def intervals_ok_def)
  define u where "u = upd_entry j (\<lambda>e. e\<lparr>he_end_txn := True, he_end := txn\<rparr>) (upd_entry i (\<lambda>e. e\<lparr>he_begin_txn := True, he_begin := txn\<rparr>) r1)"
  note mk = mark_slot_ok[OF r1(2,5) p i j u_def refl]
  have us: "hk_oldest u = hk_oldest r1" "length (hk_his u) = ?n" "hk_latest u = j" "hk_rows u = hk_rows r1"
    using c'(3) by (simp_all add: u_def upd_ring_same shape_ok_def j)
  let ?r = "u\<lparr>hk_rows := (hk_rows u)(p := hk_rows u q)\<rparr>"
  have e: "he_row (hk_entry u i) = he_row (ring ?r (c' + 1))" "he_row (hk_entry u (hk_latest u)) = he_row (ring ?r c')"
    by (simp_all add: hk_entry_def ring_def us i j)
  have pq: "he_row (ring ?r (c' + 1)) = Some p" "he_row (ring ?r c') = Some q" using mk(4) c' p q by simp_all
  have "hek_prewrite junk t (Inr m) txn ts r = Inr (Some p, ?r)"
    using r1(1) op assms(2,3) e pq unfolding i[symmetric]
    by (simp add: hek_prewrite_def latest_entry[OF s] pi u_def[symmetric] Let_def)
  moreover have "hk_rows ?r p = snd (last (versions c' r1))" using q by (simp add: us versions_last)
  then have "hk_rows ?r p = snd (last (versions c r))" using r1(3,4) by (simp add: last_drop versions_def)
  moreover have "hk_prewrite ?r" using r1(5) by (simp add: u_def upd_ring_same)
  ultimately have "?P d c' p ?r" using mk(1-3) pq(1) r1(3,4,6) by simp
  then show ?thesis by blast
qed

lemma post_process_ring:
  assumes "c + 1 < length (hk_his r)" "shape_ok c r"
    "r' = upd_entry (next_idx r (hk_latest r)) g (upd_entry (hk_latest r) f r)"
    "k < length (hk_his r)"
  shows "ring r' k = (if k = c then f (ring r c) else if k = c + 1 then g (ring r (c + 1)) else ring r k)"
proof -
  let ?n = "length (hk_his r)" let ?u = "upd_entry ((hk_oldest r + c) mod ?n) f r"
  have u: "ring ?u j = (if j = c then f (ring r c) else ring r j)" if "j < ?n" for j
    using ring_upd[of c r j f] assms(1) that by simp
  have "r' = upd_entry ((hk_oldest ?u + (c + 1)) mod length (hk_his ?u)) g ?u"
    using assms(2,3) next_latest[OF assms(2)] by (simp add: upd_ring_same shape_ok_def)
  then show ?thesis using ring_upd[of "c + 1" ?u k g] assms(1,4) u[of k] u[of "c + 1"] u[of c] by (simp add: upd_ring_same)
qed

lemma upd_twice: "upd_entry i f (upd_entry i g r) = upd_entry i (\<lambda>e. f (g e)) r"
  by (cases "i < length (hk_his r)") (simp_all add: upd_entry_def list_update_beyond)

lemma upd_mark: "upd_entry i f (r\<lparr>hk_prewrite := b\<rparr>) = (upd_entry i f r)\<lparr>hk_prewrite := b\<rparr>"
  by (simp add: upd_entry_def)

lemma upd_entry_same: "i < length (hk_his r) \<Longrightarrow> hk_entry ((upd_entry i f r)\<lparr>hk_prewrite := b\<rparr>) i = f (hk_entry r i)"
  by (simp add: upd_entry_def hk_entry_def)

lemma post_commit_ok:
  assumes "hek_inv c r" "hk_prewrite r" "he_begin (ring r (c + 1)) = txn" "he_row (ring r (c + 1)) = Some p" "he_begin (ring r c) < commit_ts"
  shows "\<exists>r'. post_process txn commit_ts RCOK r = Inr r' \<and> hek_inv (c + 1) r' \<and> \<not> hk_prewrite r' \<and>
    versions (c + 1) r' = versions c r @ [(commit_ts, hk_rows r p)]"
proof -
  let ?n = "length (hk_his r)"
  define l e where "l = hk_latest r" and "e = next_idx r (hk_latest r)"
  have s: "shape_ok c r" and iv: "intervals_ok c r" and tu: "tuples_ok r" using assms(1) by (auto simp: hek_inv_def)
  have nw: "c + 1 < ?n" "he_begin_txn (ring r (c + 1))" using assms(1,2) by (auto simp: hek_inv_def newest_ok_def)
  have e: "e = (hk_oldest r + (c + 1)) mod ?n" "l = (hk_oldest r + c) mod ?n" "hk_entry r e = ring r (c + 1)" "hk_entry r l = ring r c"
    using next_latest[OF s] latest_entry[OF s] s by (simp_all add: e_def l_def hk_entry_def ring_def shape_ok_def)
  define f g where "f = (\<lambda>x :: WriteHisEntry. x\<lparr>he_end_txn := False, he_end := commit_ts\<rparr>)" and "g = (\<lambda>x :: WriteHisEntry. x\<lparr>he_begin := commit_ts, he_end := TS_INF\<rparr>)"
  define u where "u = upd_entry e g (upd_entry l f r)"
  define r' where "r' = u\<lparr>hk_prewrite := False, hk_latest := e\<rparr>"
  have us: "hk_oldest u = hk_oldest r" "length (hk_his u) = ?n" "hk_rows u = hk_rows r" by (simp_all add: u_def upd_ring_same)
  have rg: "ring r' k = (if k = c then f (ring r c) else if k = c + 1 then g (ring r (c + 1)) else ring r k)" if "k < ?n" for k
    using post_process_ring[OF nw(1) s _ that, of u g f] by (simp add: r'_def ring_def us u_def e_def l_def)
  have ln: "l < ?n" using nw(1) unfolding e(2) by (intro mod_less_divisor) auto
  have enx: "next_idx r l = e" by (simp add: l_def e_def)
  have ne: "e \<noteq> hk_oldest r" using ring_full[OF s] nw(1) e_def by auto
  have "shape_ok (c + 1) r'" using s nw(1) by (simp add: r'_def shape_ok_def us e(1))
  moreover have "intervals_ok (c + 1) r'"
    using iv rg nw(1) assms(4,5) unfolding intervals_ok_def by (auto simp: f_def g_def less_Suc_eq le_Suc_eq)
  moreover have "newest_ok (c + 1) r'" using rg[OF nw(1)] by (simp add: newest_ok_def r'_def g_def)
  moreover have "tuples_ok u" unfolding u_def by (intro upd_tuples tu) (simp_all add: f_def g_def)
  then have "tuples_ok r'" by (simp add: r'_def tuples_rows)
  ultimately have "hek_inv (c + 1) r'" by (simp add: hek_inv_def)
  moreover have "versions (c + 1) r' = versions c r' @ [(commit_ts, hk_rows r p)]"
    using rg[OF nw(1)] assms(4) by (simp add: versions_def g_def r'_def us)
  moreover have "versions c r' = versions c r" using rg nw(1) by (intro versions_cong) (auto simp: r'_def us f_def)
  moreover have "post_process txn commit_ts RCOK r = Inr r'"
    using e(3,4) nw(2) assms(3,5) ln ne enx
    by (simp add: post_process_def Let_def l_def[symmetric] upd_twice upd_mark upd_entry_same upd_ring_same
        r'_def u_def f_def g_def)
  ultimately show ?thesis by (auto simp: r'_def)
qed

lemma post_abort_ok:
  assumes "hek_inv c r" "hk_prewrite r" "he_begin (ring r (c + 1)) = txn" "rc \<noteq> RCOK"
  shows "\<exists>r'. post_process txn commit_ts rc r = Inr r' \<and> hek_inv c r' \<and> \<not> hk_prewrite r' \<and> versions c r' = versions c r"
proof -
  let ?n = "length (hk_his r)"
  define f where "f = (\<lambda>x :: WriteHisEntry. x\<lparr>he_end_txn := False, he_end := TS_INF\<rparr>)"
  define u where "u = upd_entry (hk_latest r) f r"
  define r' where "r' = u\<lparr>hk_prewrite := False\<rparr>"
  have s: "shape_ok c r" and iv: "intervals_ok c r" and tu: "tuples_ok r" and c: "c < ?n"
    using assms(1) by (auto simp: hek_inv_def shape_ok_def)
  have "he_begin_txn (ring r (c + 1))" using assms(1,2) by (auto simp: hek_inv_def newest_ok_def)
  then have e: "he_begin_txn (hk_entry r (next_idx r (hk_latest r)))" "he_begin (hk_entry r (next_idx r (hk_latest r))) = txn"
    using next_latest[OF s] assms(3) by (simp_all add: hk_entry_def ring_def)
  have rg: "ring r' k = (if k = c then f (ring r c) else ring r k)" if "k < ?n" for k
    using ring_upd[OF c that, of f] s by (simp add: r'_def u_def ring_def shape_ok_def)
  have "shape_ok c r'" using s shape_upd[of c] by (simp add: r'_def u_def shape_ok_def)
  moreover have "intervals_ok c r'" using iv rg c unfolding intervals_ok_def by (auto simp: f_def)
  moreover have "newest_ok c r'" using rg[OF c] by (simp add: newest_ok_def r'_def f_def)
  moreover have "tuples_ok u" unfolding u_def by (intro upd_tuples tu) (simp add: f_def)
  then have "tuples_ok r'" by (simp add: r'_def tuples_rows)
  ultimately have "hek_inv c r'" by (simp add: hek_inv_def)
  moreover have "versions c r' = versions c r" using rg c by (intro versions_cong) (auto simp: r'_def u_def upd_ring_same f_def)
  moreover have "post_process txn commit_ts rc r = Inr r'"
    using e assms(4) by (simp add: post_process_def Let_def upd_twice upd_mark upd_ring_same r'_def u_def f_def)
  ultimately show ?thesis by (auto simp: r'_def)
qed

text \<open>A transaction's write to the tuple a prewrite handed it.\<close>

definition write_tuple :: "tuple_ptr \<Rightarrow> bytes \<Rightarrow> row_hekaton \<Rightarrow> row_hekaton" where
  "write_tuple p d r = r\<lparr>hk_rows := (hk_rows r)(p := d)\<rparr>"

lemma write_tuple_ok:
  assumes "hek_inv c r" "hk_prewrite r" "he_row (ring r (c + 1)) = Some p"
  shows "hek_inv c (write_tuple p d r)" "versions c (write_tuple p d r) = versions c r" "ring (write_tuple p d r) k = ring r k"
    "hk_prewrite (write_tuple p d r)" "hk_rows (write_tuple p d r) p = d"
proof -
  show rg: "ring (write_tuple p d r) k = ring r k" for k by (simp add: write_tuple_def ring_def)
  show "hk_prewrite (write_tuple p d r)" "hk_rows (write_tuple p d r) p = d" using assms(2) by (simp_all add: write_tuple_def)
  have "tuples_ok (write_tuple p d r) = tuples_ok r" "shape_ok c (write_tuple p d r) = shape_ok c r"
    by (simp_all add: write_tuple_def tuples_rows shape_ok_def)
  moreover have "newest_ok c (write_tuple p d r) = newest_ok c r"
    unfolding newest_ok_def rg by (simp add: write_tuple_def)
  ultimately show "hek_inv c (write_tuple p d r)" using assms(1) unfolding hek_inv_def intervals_ok_def rg by simp
  have "the (he_row (ring r k)) \<noteq> p" if "k \<le> c" for k
    using ring_tuple_inj[of r k p "c + 1"] assms that unfolding hek_inv_def intervals_ok_def newest_ok_def by auto
  then show "versions c (write_tuple p d r) = versions c r" 
    by (intro versions_cong) (simp_all add: rg, simp add: write_tuple_def)
qed

text \<open>
  An update by a prewrite that a manager with a minimum timestamp lets pass: its tuple is private and
  holds the newest data; whatever the transaction writes there, \<open>post_process\<close> at a later commit
  timestamp appends exactly that version, and an abort adds none. Versions are lost only from the
  old end and only when the history was full.
\<close>

lemma hek_update_with_min:
  assumes "hek_inv c r" "\<not> hk_prewrite r" "fst (last (versions c r)) \<le> ts" "fst (last (versions c r)) < commit_ts"
  shows "\<exists>d c' p r1. hek_prewrite junk thread_cnt (Inr min_ts) txn ts r = Inr (Some p, r1) \<and> hk_rows r1 p = snd (last (versions c r)) \<and>
    (d = 0 \<or> length (versions c r) = length (hk_his r)) \<and> d < length (versions c r) \<and>
    (\<exists>r2. post_process txn commit_ts RCOK (write_tuple p new r1) = Inr r2 \<and> hek_inv (c' + 1) r2 \<and> \<not> hk_prewrite r2 \<and>
       versions (c' + 1) r2 = drop d (versions c r) @ [(commit_ts, new)]) \<and>
    (\<exists>r2. post_process txn commit_ts Abort (write_tuple p new r1) = Inr r2 \<and> hek_inv c' r2 \<and> \<not> hk_prewrite r2 \<and>
       versions c' r2 = drop d (versions c r))"
proof -
  have lb: "fst (last (versions c r)) = he_begin (ring r c)" by (simp add: versions_def)
  have lv: "length (versions c r) = c + 1" "c + 1 \<le> length (hk_his r)" using assms(1) by (auto simp: versions_def hek_inv_def shape_ok_def)
  have ts: "\<not> ts < he_begin (ring r c)" using assms(3) lb by (simp add: not_less)
  obtain d c' p r1 where p: "hek_prewrite junk thread_cnt (Inr min_ts) txn ts r = Inr (Some p, r1)" "hek_inv c' r1" "hk_prewrite r1" "d \<le> c"
      "versions c' r1 = drop d (versions c r)" "he_begin (ring r1 (c' + 1)) = txn" "he_row (ring r1 (c' + 1)) = Some p"
      "hk_rows r1 p = snd (last (versions c r))" "c + 1 < length (hk_his r) \<longrightarrow> d = 0"
    using hek_prewrite_ok[OF assms(1,2) ts, of junk thread_cnt min_ts txn] by auto
  have "he_begin (ring r1 c') = fst (last (versions c' r1))" by (simp add: versions_def)
  also have "\<dots> = fst (last (versions c r))" using p(4,5) lv(1) by (simp add: last_drop)
  finally have b: "he_begin (ring r1 c') < commit_ts" using assms(4) by simp
  note w = write_tuple_ok[OF p(2,3,7), of new]
  have w3: "he_begin (ring (write_tuple p new r1) (c' + 1)) = txn" "he_row (ring (write_tuple p new r1) (c' + 1)) = Some p"
    "he_begin (ring (write_tuple p new r1) c') < commit_ts" using p(6,7) b by (simp_all add: w(3))
  have "\<exists>r2. post_process txn commit_ts RCOK (write_tuple p new r1) = Inr r2 \<and> hek_inv (c' + 1) r2 \<and> \<not> hk_prewrite r2 \<and>
       versions (c' + 1) r2 = drop d (versions c r) @ [(commit_ts, new)]"
    using post_commit_ok[OF w(1,4) w3] p(5) w(2,5) by simp
  moreover have "\<exists>r2. post_process txn commit_ts Abort (write_tuple p new r1) = Inr r2 \<and> hek_inv c' r2 \<and> \<not> hk_prewrite r2 \<and>
       versions c' r2 = drop d (versions c r)"
    using post_abort_ok[OF w(1,4) w3(1), of Abort commit_ts] p(5) w(2) by simp
  moreover have "d = 0 \<or> length (versions c r) = length (hk_his r)" using p(9) lv by linarith
  ultimately show ?thesis using p(1,4,8) lv(1) by (metis add.commute le_imp_less_Suc plus_1_eq_Suc)
qed

text \<open>
  C31: What a prewrite of a multi-version row does, in every state of the invariant. If another prewrite
  is pending or the timestamp is below the newest version, it aborts and changes nothing. Otherwise,
  with the program's \<open>get_min_ts\<close>, which is \<open>assert(false)\<close>, it fails that assertion: no update ever gets
  through. With a manager that returns any minimum timestamp, the update is atomic: the prewrite ends
  and returns a private tuple holding the newest data; whatever the transaction writes there,
  \<open>post_process\<close> at a later commit timestamp appends exactly that version, and an abort adds none;
  versions are lost only from the old end and only when the history was full, and the
  invariant holds again.
\<close>

theorem hek_update_atomic:
  assumes "hek_inv c r"
  shows "if hk_prewrite r \<or> ts < fst (last (versions c r))
    then \<forall>get_min_ts. hek_prewrite junk thread_cnt get_min_ts txn ts r = Inr (None, r)
    else hek_prewrite junk thread_cnt ManagerEnc_get_min_ts txn ts r = Inl Assert_Fail \<and>
     (\<forall>min_ts commit_ts new. fst (last (versions c r)) < commit_ts \<longrightarrow>
      (\<exists>d c' p r1. hek_prewrite junk thread_cnt (Inr min_ts) txn ts r = Inr (Some p, r1) \<and> hk_rows r1 p = snd (last (versions c r)) \<and>
        (d = 0 \<or> length (versions c r) = length (hk_his r)) \<and> d < length (versions c r) \<and>
        (\<exists>r2. post_process txn commit_ts RCOK (write_tuple p new r1) = Inr r2 \<and> hek_inv (c' + 1) r2 \<and> \<not> hk_prewrite r2 \<and>
           versions (c' + 1) r2 = drop d (versions c r) @ [(commit_ts, new)]) \<and>
        (\<exists>r2. post_process txn commit_ts Abort (write_tuple p new r1) = Inr r2 \<and> hek_inv c' r2 \<and> \<not> hk_prewrite r2 \<and>
           versions c' r2 = drop d (versions c r))))"
proof -
  have s: "shape_ok c r" and nw: "newest_ok c r" using assms by (simp_all add: hek_inv_def)
  have op: "latest_open r" using nw by (auto simp: newest_ok_def latest_open_def latest_entry[OF s] split: if_splits)
  have lb: "fst (last (versions c r)) = he_begin (hk_entry r (hk_latest r))" by (simp add: versions_def latest_entry[OF s])
  show ?thesis
  proof (cases "hk_prewrite r \<or> ts < fst (last (versions c r))")
    case True
    then show ?thesis using op lb by (simp add: hek_prewrite_def)
  next
    case False
    then have fail: "hek_prewrite junk thread_cnt ManagerEnc_get_min_ts txn ts r = Inl Assert_Fail"
      using op lb by (simp add: hek_prewrite_def reserveRow_def ManagerEnc_get_min_ts_def)
    have "\<not> hk_prewrite r" "fst (last (versions c r)) \<le> ts" using False by auto
    from hek_update_with_min[OF assms this] fail show ?thesis unfolding if_not_P[OF False] by blast
  qed
qed

lemma hek_init_versions: "versions 0 (hek_init junk row rows fresh) = [(0, rows row)]"
  by (simp add: versions_def ring_def hek_init_def)

lemma hek_init_idle: "\<not> hk_prewrite (hek_init junk row rows fresh)"
  by (simp add: hek_init_def)

abbreviation hek_junk :: WriteHisEntry where
  "hek_junk \<equiv> \<lparr>he_begin_txn = True, he_end_txn = True, he_begin = 3, he_end = 1, he_row = Some 5\<rparr>"

theorem hek_update_atomic_witness:
  "hek_prewrite hek_junk 4 ManagerEnc_get_min_ts 9 5 (hek_init hek_junk 0 (\<lambda>_. [1]) 1) = Inl Assert_Fail \<and>
   (\<exists>d c' p r1. hek_prewrite hek_junk 4 (Inr 0) 9 5 (hek_init hek_junk 0 (\<lambda>_. [1]) 1) = Inr (Some p, r1) \<and> hk_rows r1 p = [1] \<and>
    d = 0 \<and> (\<exists>r2. post_process 9 6 RCOK (write_tuple p [2] r1) = Inr r2 \<and> versions (c' + 1) r2 = [(0, [1]), (6, [2])]))"
proof -
  let ?r = "hek_init hek_junk 0 (\<lambda>_. [1]) 1"
  have no: "\<not> (hk_prewrite ?r \<or> 5 < fst (last (versions 0 ?r)))" "fst (last (versions 0 ?r)) < 6"
    by (simp_all add: hek_init_versions hek_init_idle)
  have inv: "hek_inv 0 ?r" by (rule hek_init_inv) simp
  note th = hek_update_atomic[OF inv, of 5 hek_junk 4 9, unfolded if_not_P[OF no(1)]]
  from th[THEN conjunct2, rule_format, OF no(2), of 0 "[2]"] th[THEN conjunct1]
  show ?thesis unfolding hek_init_versions by fastforce
qed

theorem hek_read_version_witness:
  "hek_read 7 (hek_init hek_junk 0 (\<lambda>_. [1]) 1) = Inr (Some (Some 0)) \<and> version_at 7 [(0, [1])] = Some [1] \<and>
    (\<exists>p. hek_read 7 (hek_init hek_junk 0 (\<lambda>_. [1]) 1) = Inr (Some (Some p)) \<and> version_at 7 [(0, [1])] = Some [1])"
proof -
  let ?r = "hek_init hek_junk 0 (\<lambda>_. [1]) 1"
  have "\<forall>v\<in>set (versions 0 ?r). fst v \<noteq> 7" by (simp add: hek_init_versions)
  from hek_read_version[OF hek_init_inv[OF zero_less_one] this]
  have "\<exists>p. hek_read 7 ?r = Inr (Some (Some p)) \<and> version_at 7 [(0, [1])] = Some [1]"
    unfolding hek_init_versions by (auto simp: version_at_def)
  moreover have "hek_read 7 ?r = Inr (Some (Some 0))" by (simp add: hek_read_def hek_init_def hk_entry_def latest_open_def)
  ultimately show ?thesis by auto
qed

end
