(* ===== verification/Row_Mvcc.thy ===== *)
theory Row_Mvcc
  imports Prelude "HOL-Library.Multiset"
begin

text \<open>
  Multi-version timestamp ordering for one row, \<open>trusted/concurrency_control/row_mvcc.cpp\<close>. A row
  keeps its oldest version in \<open>_row\<close> and the later ones in \<open>_write_history\<close>, in no order; a writer
  reserves an entry (\<open>P_REQ\<close>), fills its tuple and makes it a version (\<open>W_REQ\<close>) or gives it back
  (\<open>XP_REQ\<close>). Requests younger than a reserved write wait in \<open>_requests\<close>. Tuples live in a store of
  their own, since readers are handed pointers and entries exchange theirs. Every call holds the
  row's latch. The manager's answer to \<open>get_min_ts\<close> is an argument of the operations: in the program it
  is \<open>ManagerEnc_get_min_ts\<close>, a failed assertion, and the theorems say what happens then and with a
  manager that returns a timestamp. Memory from the allocator is an arbitrary entry.

  Shown: an invariant under which no assertion fails, no request waits without a writer that will
  wake it, and the versions change only by commits at the young end and recycling at the old end;
  reads find the right version as long as timestamps fit the 32-bit variable of the search.
\<close>

section \<open>Data\<close>

type_synonym mv_ptr = nat
type_synonym mv_txn = nat

record MvHisEntry =
  mh_valid :: bool
  mh_reserved :: bool
  mh_ts :: ts_t
  mh_row :: "mv_ptr option"

record ReqEntry =
  mq_valid :: bool
  mq_type :: TsType
  mq_ts :: ts_t
  mq_txn :: mv_txn
  mq_time :: ts_t

record row_mvcc =
  mv_row :: mv_ptr
  mv_latest_row :: mv_ptr
  mv_latest_wts :: ts_t
  mv_oldest_wts :: ts_t
  mv_his :: "MvHisEntry list"
  mv_exists_prewrite :: bool
  mv_prewrite_ts :: ts_t
  mv_prewrite_his_id :: nat
  mv_max_served_rts :: ts_t
  mv_requests :: "ReqEntry list"
  mv_num_versions :: nat
  mv_rows :: "mv_ptr \<Rightarrow> bytes"
  mv_fresh :: mv_ptr
  mv_cur_row :: "mv_txn \<Rightarrow> mv_ptr option"
  mv_ts_ready :: "mv_txn \<Rightarrow> bool"

definition mvcc_init :: "MvHisEntry \<Rightarrow> ReqEntry \<Rightarrow> row_mvcc \<Rightarrow> mv_ptr \<Rightarrow> row_mvcc" where
  "mvcc_init junk junkq r row = r\<lparr>mv_row := row, mv_latest_row := row, mv_latest_wts := 0, mv_oldest_wts := 0,
     mv_his := replicate 4 (junk\<lparr>mh_valid := False, mh_reserved := False, mh_row := None\<rparr>),
     mv_requests := replicate 4 (junkq\<lparr>mq_valid := False\<rparr>),
     mv_num_versions := 0, mv_exists_prewrite := False, mv_max_served_rts := 0\<rparr>"

text \<open>\<open>double_list(0)\<close> and \<open>double_list(1)\<close>.\<close>

definition double_history :: "MvHisEntry \<Rightarrow> row_mvcc \<Rightarrow> row_mvcc" where
  "double_history junk r = r\<lparr>mv_his := mv_his r @
     replicate (length (mv_his r)) (junk\<lparr>mh_valid := False, mh_reserved := False, mh_row := None\<rparr>)\<rparr>"

definition double_requests :: "ReqEntry \<Rightarrow> row_mvcc \<Rightarrow> row_mvcc" where
  "double_requests junkq r = r\<lparr>mv_requests := mv_requests r @ replicate (length (mv_requests r)) (junkq\<lparr>mq_valid := False\<rparr>)\<rparr>"

section \<open>Waiting requests\<close>

text \<open>The search for a free entry of \<open>_requests\<close>; \<open>None\<close> when there is none.\<close>

fun req_put :: "TsType \<Rightarrow> ts_t \<Rightarrow> mv_txn \<Rightarrow> ReqEntry list \<Rightarrow> ReqEntry list option" where
  "req_put type ts txn [] = None"
| "req_put type ts txn (q # qs) =
     (if \<not> mq_valid q then Some (q\<lparr>mq_valid := True, mq_type := type, mq_ts := ts, mq_txn := txn\<rparr> # qs)
      else map_option (Cons q) (req_put type ts txn qs))"

definition mv_buffer_req :: "ReqEntry \<Rightarrow> TsType \<Rightarrow> ts_t \<Rightarrow> mv_txn \<Rightarrow> row_mvcc \<Rightarrow> row_mvcc res" where
  "mv_buffer_req junkq type ts txn r = (case req_put type ts txn (mv_requests r) of
       Some qs \<Rightarrow> Inr (r\<lparr>mv_requests := qs\<rparr>)
     | None \<Rightarrow> let r = double_requests junkq r in
         (case req_put type ts txn (mv_requests r) of Some qs \<Rightarrow> Inr (r\<lparr>mv_requests := qs\<rparr>) | None \<Rightarrow> Inl Assert_Fail))"

section \<open>Reserving an entry\<close>

text \<open>The newest entry older than \<open>min_ts\<close>, with its index; then the entries up to it are freed.\<close>

fun recycle_scan :: "ts_t \<Rightarrow> nat \<Rightarrow> ts_t \<Rightarrow> nat option \<Rightarrow> MvHisEntry list \<Rightarrow> ts_t \<times> nat option" where
  "recycle_scan min_ts i max_ts idx [] = (max_ts, idx)"
| "recycle_scan min_ts i max_ts idx (e # es) =
     (if mh_valid e \<and> mh_ts e < min_ts \<and> max_ts < mh_ts e then recycle_scan min_ts (i + 1) (mh_ts e) (Some i) es
      else recycle_scan min_ts (i + 1) max_ts idx es)"

fun recycle_free :: "ts_t \<Rightarrow> MvHisEntry list \<Rightarrow> nat \<Rightarrow> (MvHisEntry list \<times> nat) res" where
  "recycle_free max_ts [] n = Inr ([], n)"
| "recycle_free max_ts (e # es) n =
     (if mh_valid e \<and> mh_ts e \<le> max_ts
      then assert_res (mh_row e \<noteq> None) (bind_res (recycle_free max_ts es (n - 1)) (\<lambda>(es, n).
             Inr (e\<lparr>mh_valid := False, mh_reserved := False\<rparr> # es, n)))
      else bind_res (recycle_free max_ts es n) (\<lambda>(es, n). Inr (e # es, n)))"

text \<open>The tuple of an entry and \<open>_row\<close> change places.\<close>

definition swap_row :: "nat \<Rightarrow> row_mvcc \<Rightarrow> row_mvcc res" where
  "swap_row i r = (case mh_row (mv_his r ! i) of
       None \<Rightarrow> Inl Null_Deref
     | Some p \<Rightarrow> Inr (r\<lparr>mv_row := p, mv_his := (mv_his r)[i := (mv_his r ! i)\<lparr>mh_row := Some (mv_row r)\<rparr>]\<rparr>))"

definition mv_gc :: "ts_t \<Rightarrow> row_mvcc \<Rightarrow> row_mvcc res" where
  "mv_gc min_ts r =
     (if mv_oldest_wts r < min_ts \<and> mv_num_versions r = length (mv_his r)
      then (case recycle_scan min_ts 0 0 None (mv_his r) of
          (max_ts, None) \<Rightarrow> Inr r
        | (max_ts, Some i) \<Rightarrow> bind_res (swap_row i r) (\<lambda>r.
            bind_res (recycle_free max_ts (mv_his r) (mv_num_versions r)) (\<lambda>(es, n).
              Inr (r\<lparr>mv_oldest_wts := max_ts, mv_his := es, mv_num_versions := n\<rparr>))))
      else Inr r)"

fun free_slot :: "nat \<Rightarrow> nat option \<Rightarrow> MvHisEntry list \<Rightarrow> nat option" where
  "free_slot i idx [] = idx"
| "free_slot i idx (e # es) =
     (if \<not> mh_valid e \<and> \<not> mh_reserved e \<and> mh_row e \<noteq> None then Some i
      else if \<not> mh_valid e \<and> \<not> mh_reserved e then free_slot (i + 1) (Some i) es
      else free_slot (i + 1) idx es)"

fun oldest_slot :: "nat \<Rightarrow> ts_t \<Rightarrow> nat option \<Rightarrow> MvHisEntry list \<Rightarrow> ts_t \<times> nat option" where
  "oldest_slot i min_ts idx [] = (min_ts, idx)"
| "oldest_slot i min_ts idx (e # es) =
     (if mh_valid e \<and> mh_ts e < min_ts then oldest_slot (i + 1) (mh_ts e) (Some i) es else oldest_slot (i + 1) min_ts idx es)"

definition mv_pick :: "MvHisEntry \<Rightarrow> nat \<Rightarrow> ts_t \<Rightarrow> row_mvcc \<Rightarrow> (nat \<times> row_mvcc) res" where
  "mv_pick junk thread_cnt ts r =
     (if mv_num_versions r < length (mv_his r)
      then (case free_slot 0 None (mv_his r) of None \<Rightarrow> Inl Assert_Fail | Some i \<Rightarrow> Inr (i, r))
      else if thread_cnt \<le> length (mv_his r)
      then (case oldest_slot 0 UINT64_MAX None (mv_his r) of
          (min_ts, None) \<Rightarrow> assert_res (mv_oldest_wts r < min_ts) (Inl Bounds)
        | (min_ts, Some i) \<Rightarrow> assert_res (mv_oldest_wts r < min_ts) (assert_res (mh_row (mv_his r ! i) \<noteq> None)
            (bind_res (swap_row i r) (\<lambda>r. Inr (i, r\<lparr>mv_oldest_wts := min_ts, mv_num_versions := mv_num_versions r - 1\<rparr>)))))
      else let r = (double_history junk r)\<lparr>mv_prewrite_ts := ts\<rparr> in Inr (length (mv_his r) div 2, r))"

definition mv_alloc :: "nat \<Rightarrow> row_mvcc \<Rightarrow> mv_ptr \<times> row_mvcc" where
  "mv_alloc i r = (case mh_row (mv_his r ! i) of
       Some p \<Rightarrow> (p, r)
     | None \<Rightarrow> (mv_fresh r, r\<lparr>mv_his := (mv_his r)[i := (mv_his r ! i)\<lparr>mh_row := Some (mv_fresh r)\<rparr>], mv_fresh := mv_fresh r + 1\<rparr>))"

definition mv_mark :: "nat \<Rightarrow> ts_t \<Rightarrow> row_mvcc \<Rightarrow> row_mvcc" where
  "mv_mark i ts r = r\<lparr>mv_his := (mv_his r)[i := (mv_his r ! i)\<lparr>mh_valid := False, mh_reserved := True, mh_ts := ts\<rparr>],
     mv_exists_prewrite := True, mv_prewrite_his_id := i, mv_prewrite_ts := ts\<rparr>"

definition mv_reserveRow :: "MvHisEntry \<Rightarrow> nat \<Rightarrow> ts_t res \<Rightarrow> ts_t \<Rightarrow> row_mvcc \<Rightarrow> (mv_ptr \<times> row_mvcc) res" where
  "mv_reserveRow junk thread_cnt get_min_ts ts r = assert_res (\<not> mv_exists_prewrite r)
     (bind_res get_min_ts (\<lambda>min_ts. bind_res (mv_gc min_ts r) (\<lambda>r. bind_res (mv_pick junk thread_cnt ts r) (\<lambda>(i, r).
        let (p, r) = mv_alloc i r in Inr (p, mv_mark i ts r)))))"

text \<open>\<open>res_row->copy(_latest_row)\<close>.\<close>

definition mv_copy_latest :: "mv_ptr \<Rightarrow> row_mvcc \<Rightarrow> row_mvcc" where
  "mv_copy_latest p r = r\<lparr>mv_rows := (mv_rows r)(p := mv_rows r (mv_latest_row r))\<rparr>"

section \<open>Waking requests\<close>

fun next_prewrite :: "ts_t \<Rightarrow> ts_t \<Rightarrow> ReqEntry list \<Rightarrow> ts_t" where
  "next_prewrite ts next [] = next"
| "next_prewrite ts next (q # qs) =
     next_prewrite ts (if mq_valid q \<and> mq_type q = P_REQ \<and> ts < mq_ts q \<and> mq_ts q < next then mq_ts q else next) qs"

definition serve_read :: "ReqEntry \<Rightarrow> row_mvcc \<Rightarrow> row_mvcc" where
  "serve_read q r = r\<lparr>mv_max_served_rts := (if mv_max_served_rts r < mq_ts q then mq_ts q else mv_max_served_rts r),
     mv_cur_row := (mv_cur_row r)(mq_txn q := Some (mv_latest_row r)), mv_ts_ready := (mv_ts_ready r)(mq_txn q := True)\<rparr>"

fun wake_requests :: "MvHisEntry \<Rightarrow> nat \<Rightarrow> ts_t res \<Rightarrow> ts_t \<Rightarrow> ts_t \<Rightarrow> ReqEntry list \<Rightarrow> row_mvcc \<Rightarrow> (ReqEntry list \<times> row_mvcc) res" where
  "wake_requests junk thread_cnt get_min_ts ts next [] r = Inr ([], r)"
| "wake_requests junk thread_cnt get_min_ts ts next (q # qs) r = assert_res (mq_valid q \<longrightarrow> ts < mq_ts q)
     (bind_res
       (if mq_valid q \<and> mq_type q = R_REQ \<and> mq_ts q < next then Inr (q\<lparr>mq_valid := False\<rparr>, serve_read q r)
        else if mq_valid q \<and> mq_ts q = next
        then assert_res (mq_type q = P_REQ) (bind_res (mv_reserveRow junk thread_cnt get_min_ts (mq_ts q) r) (\<lambda>(p, r).
          let r = mv_copy_latest p r in
          Inr (q\<lparr>mq_valid := False\<rparr>, r\<lparr>mv_cur_row := (mv_cur_row r)(mq_txn q := Some p), mv_ts_ready := (mv_ts_ready r)(mq_txn q := True)\<rparr>)))
        else Inr (q, r))
       (\<lambda>(q, r). bind_res (wake_requests junk thread_cnt get_min_ts ts next qs r) (\<lambda>(qs, r). Inr (q # qs, r))))"

definition mv_update_buffer :: "MvHisEntry \<Rightarrow> nat \<Rightarrow> ts_t res \<Rightarrow> ts_t \<Rightarrow> row_mvcc \<Rightarrow> row_mvcc res" where
  "mv_update_buffer junk thread_cnt get_min_ts ts r =
     bind_res (wake_requests junk thread_cnt get_min_ts ts (next_prewrite ts UINT64_MAX (mv_requests r)) (mv_requests r) r)
       (\<lambda>(qs, r). Inr (r\<lparr>mv_requests := qs\<rparr>))"

section \<open>Access\<close>

text \<open>The search for the version of a read, with the 32-bit \<open>the_ts\<close> of the source.\<close>

fun version_scan :: "ts_t \<Rightarrow> u32 \<Rightarrow> MvHisEntry option \<Rightarrow> MvHisEntry list \<Rightarrow> MvHisEntry option" where
  "version_scan ts the_ts the_i [] = the_i"
| "version_scan ts the_ts the_i (e # es) =
     (if mh_valid e \<and> mh_ts e < ts \<and> ucast the_ts < mh_ts e then version_scan ts (ucast (mh_ts e)) (Some e) es
      else version_scan ts the_ts the_i es)"

definition mv_read :: "ReqEntry \<Rightarrow> mv_txn \<Rightarrow> ts_t \<Rightarrow> row_mvcc \<Rightarrow> (RC \<times> row_mvcc) res" where
  "mv_read junkq txn ts r =
     (if ts < mv_oldest_wts r then Inr (Abort, r)
      else if mv_latest_wts r < ts
      then if mv_exists_prewrite r \<and> mv_prewrite_ts r < ts
           then bind_res (mv_buffer_req junkq R_REQ ts txn r) (\<lambda>r. Inr (WAIT, r\<lparr>mv_ts_ready := (mv_ts_ready r)(txn := False)\<rparr>))
           else Inr (RCOK, r\<lparr>mv_cur_row := (mv_cur_row r)(txn := Some (mv_latest_row r)),
                  mv_max_served_rts := (if mv_max_served_rts r < ts then ts else mv_max_served_rts r)\<rparr>)
      else Inr (RCOK, r\<lparr>mv_cur_row := (mv_cur_row r)(txn := (case version_scan ts 0 None (mv_his r) of None \<Rightarrow> Some (mv_row r) | Some e \<Rightarrow> mh_row e))\<rparr>))"

definition mv_prewrite :: "MvHisEntry \<Rightarrow> ReqEntry \<Rightarrow> nat \<Rightarrow> ts_t res \<Rightarrow> mv_txn \<Rightarrow> ts_t \<Rightarrow> row_mvcc \<Rightarrow> (RC \<times> row_mvcc) res" where
  "mv_prewrite junk junkq thread_cnt get_min_ts txn ts r =
     (if ts < mv_latest_wts r \<or> ts < mv_max_served_rts r \<or> mv_exists_prewrite r \<and> ts < mv_prewrite_ts r then Inr (Abort, r)
      else if mv_exists_prewrite r
      then bind_res (mv_buffer_req junkq P_REQ ts txn r) (\<lambda>r. Inr (WAIT, r\<lparr>mv_ts_ready := (mv_ts_ready r)(txn := False)\<rparr>))
      else bind_res (mv_reserveRow junk thread_cnt get_min_ts ts r) (\<lambda>(p, r).
        let r = mv_copy_latest p r in Inr (RCOK, r\<lparr>mv_cur_row := (mv_cur_row r)(txn := Some p)\<rparr>)))"

text \<open>\<open>W_REQ\<close> and \<open>XP_REQ\<close>: \<open>row\<close> is the tuple that the prewrite handed out.\<close>

definition mv_write :: "MvHisEntry \<Rightarrow> nat \<Rightarrow> ts_t res \<Rightarrow> ts_t \<Rightarrow> mv_ptr \<Rightarrow> row_mvcc \<Rightarrow> (RC \<times> row_mvcc) res" where
  "mv_write junk thread_cnt get_min_ts ts row r =
     (let i = mv_prewrite_his_id r in
      assert_res (mv_latest_wts r < ts)
       (if \<not> i < length (mv_his r) then Inl Bounds
        else assert_res (mh_row (mv_his r ! i) = Some row)
         (bind_res (mv_update_buffer junk thread_cnt get_min_ts ts
            (r\<lparr>mv_his := (mv_his r)[i := (mv_his r ! i)\<lparr>mh_valid := True, mh_ts := ts\<rparr>],
               mv_latest_wts := ts, mv_latest_row := row, mv_exists_prewrite := False, mv_num_versions := mv_num_versions r + 1\<rparr>))
            (\<lambda>r. Inr (RCOK, r)))))"

definition mv_cancel :: "MvHisEntry \<Rightarrow> nat \<Rightarrow> ts_t res \<Rightarrow> ts_t \<Rightarrow> mv_ptr \<Rightarrow> row_mvcc \<Rightarrow> (RC \<times> row_mvcc) res" where
  "mv_cancel junk thread_cnt get_min_ts ts row r =
     (let i = mv_prewrite_his_id r in
      if \<not> i < length (mv_his r) then Inl Bounds
      else assert_res (mh_row (mv_his r ! i) = Some row)
       (bind_res (mv_update_buffer junk thread_cnt get_min_ts ts
          (r\<lparr>mv_his := (mv_his r)[i := (mv_his r ! i)\<lparr>mh_valid := False, mh_reserved := False\<rparr>], mv_exists_prewrite := False\<rparr>))
          (\<lambda>r. Inr (RCOK, r))))"

definition mvcc_access :: "MvHisEntry \<Rightarrow> ReqEntry \<Rightarrow> nat \<Rightarrow> ts_t res \<Rightarrow> mv_txn \<Rightarrow> ts_t \<Rightarrow> TsType \<Rightarrow> mv_ptr \<Rightarrow> row_mvcc \<Rightarrow> (RC \<times> row_mvcc) res" where
  "mvcc_access junk junkq thread_cnt get_min_ts txn ts type row r = (case type of
       R_REQ \<Rightarrow> mv_read junkq txn ts r
     | P_REQ \<Rightarrow> mv_prewrite junk junkq thread_cnt get_min_ts txn ts r
     | W_REQ \<Rightarrow> mv_write junk thread_cnt get_min_ts ts row r
     | XP_REQ \<Rightarrow> mv_cancel junk thread_cnt get_min_ts ts row r)"

section \<open>The versions of a row\<close>

abbreviation mv_len :: "row_mvcc \<Rightarrow> nat" where
  "mv_len r \<equiv> length (mv_his r)"

definition mv_vers :: "row_mvcc \<Rightarrow> (ts_t \<times> mv_ptr) set" where
  "mv_vers r = insert (mv_oldest_wts r, mv_row r)
     {(mh_ts (mv_his r ! i), p) | i p. i < mv_len r \<and> mh_valid (mv_his r ! i) \<and> mh_row (mv_his r ! i) = Some p}"

definition tuples_inj :: "row_mvcc \<Rightarrow> bool" where
  "tuples_inj r \<longleftrightarrow> mv_row r < mv_fresh r \<and> (\<forall>i p. i < mv_len r \<longrightarrow> mh_row (mv_his r ! i) = Some p \<longrightarrow> p < mv_fresh r \<and> p \<noteq> mv_row r) \<and>
     (\<forall>i j p. i < mv_len r \<longrightarrow> j < mv_len r \<longrightarrow> mh_row (mv_his r ! i) = Some p \<longrightarrow> mh_row (mv_his r ! j) = Some p \<longrightarrow> i = j)"

definition entries_ok :: "row_mvcc \<Rightarrow> bool" where
  "entries_ok r \<longleftrightarrow> 0 < mv_len r \<and> mv_num_versions r = card {i. i < mv_len r \<and> mh_valid (mv_his r ! i)} \<and>
     (\<forall>i<mv_len r. mh_valid (mv_his r ! i) \<longrightarrow> mv_oldest_wts r < mh_ts (mv_his r ! i) \<and> mh_ts (mv_his r ! i) \<le> mv_latest_wts r \<and>
        mh_row (mv_his r ! i) \<noteq> None) \<and>
     (\<forall>i j. i < mv_len r \<longrightarrow> j < mv_len r \<longrightarrow> mh_valid (mv_his r ! i) \<longrightarrow> mh_valid (mv_his r ! j) \<longrightarrow>
        mh_ts (mv_his r ! i) = mh_ts (mv_his r ! j) \<longrightarrow> i = j)"

definition mv_core :: "row_mvcc \<Rightarrow> bool" where
  "mv_core r \<longleftrightarrow> entries_ok r \<and> tuples_inj r \<and> (mv_latest_wts r, mv_latest_row r) \<in> mv_vers r"

text \<open>No entry is reserved; and what the handling of the entries leaves alone.\<close>

definition none_reserved :: "row_mvcc \<Rightarrow> bool" where
  "none_reserved r \<longleftrightarrow> (\<forall>i<mv_len r. \<not> mh_valid (mv_his r ! i) \<longrightarrow> \<not> mh_reserved (mv_his r ! i))"

definition mv_frame :: "row_mvcc \<Rightarrow> row_mvcc \<Rightarrow> bool" where
  "mv_frame r r' \<longleftrightarrow> mv_latest_wts r' = mv_latest_wts r \<and> mv_latest_row r' = mv_latest_row r \<and> mv_max_served_rts r' = mv_max_served_rts r \<and>
     mv_requests r' = mv_requests r \<and> mv_rows r' = mv_rows r \<and> mv_cur_row r' = mv_cur_row r \<and> mv_ts_ready r' = mv_ts_ready r"

lemma mv_frame_refl: "mv_frame r r"
  by (simp add: mv_frame_def)

lemma mv_frame_trans: "mv_frame r s \<Longrightarrow> mv_frame s t \<Longrightarrow> mv_frame r t"
  by (simp add: mv_frame_def)

lemma mv_vers_cong:
  assumes "mv_oldest_wts r' = mv_oldest_wts r" "mv_row r' = mv_row r"
    "\<And>i p t. (i < mv_len r' \<and> mh_valid (mv_his r' ! i) \<and> mh_row (mv_his r' ! i) = Some p \<and> t = mh_ts (mv_his r' ! i)) =
       (i < mv_len r \<and> mh_valid (mv_his r ! i) \<and> mh_row (mv_his r ! i) = Some p \<and> t = mh_ts (mv_his r ! i))"
  shows "mv_vers r' = mv_vers r"
  unfolding mv_vers_def assms(1,2) using assms(3) by (intro arg_cong[of _ _ "insert _"] Collect_cong) metis

lemma mv_versI: "i < mv_len r \<Longrightarrow> mh_valid (mv_his r ! i) \<Longrightarrow> mh_row (mv_his r ! i) = Some p \<Longrightarrow> (mh_ts (mv_his r ! i), p) \<in> mv_vers r"
  by (auto simp: mv_vers_def)

lemma mv_vers_unique:
  assumes "entries_ok r" "tuples_inj r" "(t, p) \<in> mv_vers r" "(t, q) \<in> mv_vers r"
  shows "p = q"
  using assms unfolding mv_vers_def entries_ok_def by auto

lemma mv_vers_bounds: "entries_ok r \<Longrightarrow> (mv_latest_wts r, mv_latest_row r) \<in> mv_vers r \<Longrightarrow> v \<in> mv_vers r \<Longrightarrow>
    mv_oldest_wts r \<le> fst v \<and> fst v \<le> mv_latest_wts r"
  unfolding mv_vers_def entries_ok_def by (auto intro: less_imp_le)

section \<open>Garbage collection\<close>

lemma recycle_scan_spec:
  assumes "recycle_scan m i mx idx es = (mx', idx')"
  shows "mx \<le> mx' \<and> (\<forall>e\<in>set es. mh_valid e \<and> mh_ts e < m \<longrightarrow> mh_ts e \<le> mx') \<and>
    (mx' = mx \<and> idx' = idx \<or> (\<exists>k<length es. idx' = Some (i + k) \<and> mh_valid (es ! k) \<and> mh_ts (es ! k) = mx' \<and> mx' < m))"
  using assms
proof (induction es arbitrary: i mx idx)
  case (Cons e es)
  show ?case
  proof (cases "mh_valid e \<and> mh_ts e < m \<and> mx < mh_ts e")
    case True
    then have rec: "recycle_scan m (i + 1) (mh_ts e) (Some i) es = (mx', idx')" using Cons.prems by simp
    note ih = Cons.IH[OF rec]
    from ih consider "mx' = mh_ts e" "idx' = Some i" | k where "k < length es" "idx' = Some (i + 1 + k)" "mh_valid (es ! k)" "mh_ts (es ! k) = mx'" "mx' < m"
      by auto
    then have "\<exists>k<length (e # es). idx' = Some (i + k) \<and> mh_valid ((e # es) ! k) \<and> mh_ts ((e # es) ! k) = mx' \<and> mx' < m"
    proof cases
      case 1 then show ?thesis using True by (intro exI[of _ 0]) simp
    next
      case (2 k) then show ?thesis by (intro exI[of _ "Suc k"]) simp
    qed
    moreover have "mx \<le> mx'" using ih True by (meson less_imp_le less_le_trans)
    moreover have "\<forall>e\<in>set (e # es). mh_valid e \<and> mh_ts e < m \<longrightarrow> mh_ts e \<le> mx'" using ih by auto
    ultimately show ?thesis by blast
  next
    case False
    then have rec: "recycle_scan m (i + 1) mx idx es = (mx', idx')" using Cons.prems by auto
    note ih = Cons.IH[OF rec]
    have "mh_valid e \<and> mh_ts e < m \<longrightarrow> mh_ts e \<le> mx'" using False ih by (meson not_less order_trans)
    moreover have "\<exists>k<length (e # es). idx' = Some (i + k) \<and> mh_valid ((e # es) ! k) \<and> mh_ts ((e # es) ! k) = mx' \<and> mx' < m"
      if "k < length es" "idx' = Some (i + 1 + k)" "mh_valid (es ! k)" "mh_ts (es ! k) = mx'" "mx' < m" for k
      using that by (intro exI[of _ "Suc k"]) simp
    ultimately show ?thesis using ih by auto
  qed
qed simp

definition clear_upto :: "ts_t \<Rightarrow> MvHisEntry \<Rightarrow> MvHisEntry" where
  "clear_upto mx e = (if mh_valid e \<and> mh_ts e \<le> mx then e\<lparr>mh_valid := False, mh_reserved := False\<rparr> else e)"

lemma recycle_free_map:
  assumes "\<forall>e\<in>set es. mh_valid e \<longrightarrow> mh_row e \<noteq> None"
  shows "recycle_free mx es n = Inr (map (clear_upto mx) es, n - length (filter (\<lambda>e. mh_valid e \<and> mh_ts e \<le> mx) es))"
  using assms by (induction es arbitrary: n) (auto simp: clear_upto_def)

lemma tuples_swap:
  assumes "tuples_inj r" "i < mv_len r" "mh_row (mv_his r ! i) = Some p"
    "length es = mv_len r" "\<And>k. k < mv_len r \<Longrightarrow> mh_row (es ! k) = (if k = i then Some (mv_row r) else mh_row (mv_his r ! k))"
    "mv_row r' = p" "mv_fresh r' = mv_fresh r" "mv_his r' = es"
  shows "tuples_inj r'"
proof -
  have q: "mv_row r < mv_fresh r" "\<And>k s. k < mv_len r \<Longrightarrow> mh_row (mv_his r ! k) = Some s \<Longrightarrow> s < mv_fresh r \<and> s \<noteq> mv_row r"
    and inj: "\<And>k j s. k < mv_len r \<Longrightarrow> j < mv_len r \<Longrightarrow> mh_row (mv_his r ! k) = Some s \<Longrightarrow> mh_row (mv_his r ! j) = Some s \<Longrightarrow> k = j"
    using assms(1) unfolding tuples_inj_def by blast+
  show ?thesis unfolding tuples_inj_def assms(4,6-8)
  proof (intro conjI allI impI)
    show "p < mv_fresh r" using q(2)[OF assms(2,3)] by simp
    fix k s assume k: "k < mv_len r" "mh_row (es ! k) = Some s"
    show "s < mv_fresh r" "s \<noteq> p" using assms(5)[OF k(1)] k q(1) q(2)[OF k(1)] q(2)[OF assms(2,3)] inj[OF k(1) assms(2) _ assms(3)]
      by (metis option.inject)+
  next
    fix k j s assume kj: "k < mv_len r" "j < mv_len r" "mh_row (es ! k) = Some s" "mh_row (es ! j) = Some s"
    then show "k = j" using assms(5)[OF kj(1)] assms(5)[OF kj(2)] q(2)[OF kj(1)] q(2)[OF kj(2)] inj[OF kj(1,2)] by (metis option.inject)
  qed
qed

text \<open>
  Making the version at index \<open>i\<close> the oldest one: the state in which exactly the entries younger than
  it stay valid.
\<close>

lemma core_recycle:
  assumes "mv_core r" "i < mv_len r" "mh_valid (mv_his r ! i)" "mh_ts (mv_his r ! i) = mx" "mh_row (mv_his r ! i) = Some p"
    "length es = mv_len r" "\<And>k. k < mv_len r \<Longrightarrow> mh_row (es ! k) = (if k = i then Some (mv_row r) else mh_row (mv_his r ! k))"
    "\<And>k. k < mv_len r \<Longrightarrow> mh_ts (es ! k) = mh_ts (mv_his r ! k)"
    "\<And>k. k < mv_len r \<Longrightarrow> mh_valid (es ! k) \<longleftrightarrow> mh_valid (mv_his r ! k) \<and> mx < mh_ts (mv_his r ! k)"
    "r' = r\<lparr>mv_row := p, mv_oldest_wts := mx, mv_his := es, mv_num_versions := n\<rparr>"
    "n = card {k. k < mv_len r \<and> mh_valid (mv_his r ! k) \<and> mx < mh_ts (mv_his r ! k)}"
  shows "mv_core r'" "mv_vers r' = {v \<in> mv_vers r. mx \<le> fst v}"
proof -
  have e: "entries_ok r" and t: "tuples_inj r" and l: "(mv_latest_wts r, mv_latest_row r) \<in> mv_vers r" using assms(1) by (auto simp: mv_core_def)
  have i: "k = i" if "k < mv_len r" "mh_valid (mv_his r ! k)" "mh_ts (mv_his r ! k) = mx" for k
    using e that assms(2-4) unfolding entries_ok_def by blast
  have o: "mv_oldest_wts r < mx" "mx \<le> mv_latest_wts r" using e assms(2-4) unfolding entries_ok_def by auto
  show v: "mv_vers r' = {v \<in> mv_vers r. mx \<le> fst v}" (is "_ = ?V")
  proof
    show "mv_vers r' \<subseteq> ?V"
    proof
      fix v assume "v \<in> mv_vers r'"
      then consider "v = (mx, p)" | k s where "v = (mh_ts (mv_his r ! k), s)" "k < mv_len r" "mh_valid (mv_his r ! k)" "mx < mh_ts (mv_his r ! k)" "mh_row (es ! k) = Some s"
        using assms(6,8,9) unfolding assms(10) by (auto simp: mv_vers_def)
      then show "v \<in> ?V"
      proof cases
        case 1 then show ?thesis using assms(2-5) by (auto simp: mv_vers_def)
      next
        case (2 k s)
        then have "mh_row (mv_his r ! k) = Some s" using assms(4,7) by (metis less_irrefl)
        then show ?thesis using 2 by (auto simp: mv_vers_def intro: less_imp_le)
      qed
    qed
    show "?V \<subseteq> mv_vers r'"
    proof
      fix v assume "v \<in> ?V"
      then obtain k s where k: "v = (mh_ts (mv_his r ! k), s)" "k < mv_len r" "mh_valid (mv_his r ! k)" "mh_row (mv_his r ! k) = Some s" "mx \<le> mh_ts (mv_his r ! k)"
        using o(1) by (auto simp: mv_vers_def)
      show "v \<in> mv_vers r'"
      proof (cases "k = i")
        case True
        then show ?thesis using k assms(4,5,10) by (simp add: mv_vers_def)
      next
        case False
        then have "mx < mh_ts (mv_his r ! k)" using i[OF k(2,3)] k(5) by (metis order_less_le)
        then show ?thesis using mv_versI[of k r' s] k(1-4) False assms(6) assms(7-9)[OF k(2)] by (simp add: assms(10))
      qed
    qed
  qed
  have "tuples_inj r'" using tuples_swap[OF t assms(2,5,6,7), of r'] assms(10) by simp
  moreover have "entries_ok r'"
  proof -
    have "{k. k < mv_len r' \<and> mh_valid (mv_his r' ! k)} = {k. k < mv_len r \<and> mh_valid (mv_his r ! k) \<and> mx < mh_ts (mv_his r ! k)}"
      using assms(6,9,10) by auto
    moreover have "mx < mh_ts (es ! k) \<and> mh_ts (es ! k) \<le> mv_latest_wts r \<and> mh_row (es ! k) \<noteq> None" if "k < mv_len r" "mh_valid (es ! k)" for k
      using e that assms(7-9)[OF that(1)] unfolding entries_ok_def by auto
    moreover have "k = j" if "k < mv_len r" "j < mv_len r" "mh_valid (es ! k)" "mh_valid (es ! j)" "mh_ts (es ! k) = mh_ts (es ! j)" for k j
      using e that assms(8,9)[OF that(1)] assms(8,9)[OF that(2)] unfolding entries_ok_def by metis
    ultimately show ?thesis using e assms(6,10,11) unfolding entries_ok_def by simp
  qed
  moreover have "(mv_latest_wts r', mv_latest_row r') \<in> mv_vers r'" unfolding v using l o(2) assms(10) by simp
  ultimately show "mv_core r'" by (simp add: mv_core_def)
qed

lemma mv_gc_ok:
  assumes "mv_core r" "none_reserved r"
  shows "\<exists>r'. mv_gc m r = Inr r' \<and> mv_core r' \<and> none_reserved r' \<and> mv_frame r r' \<and> mv_exists_prewrite r' = mv_exists_prewrite r \<and>
    mv_vers r' = {v \<in> mv_vers r. mv_oldest_wts r' \<le> fst v} \<and>
    (r' \<noteq> r \<longrightarrow> mv_num_versions r = mv_len r \<and> mv_oldest_wts r' < m)" (is "\<exists>r'. ?P r'")
proof -
  have e: "entries_ok r" and l: "(mv_latest_wts r, mv_latest_row r) \<in> mv_vers r" using assms(1) by (auto simp: mv_core_def)
  have same: "?P r" if "mv_gc m r = Inr r"
    using that assms mv_vers_bounds[OF e l] by (auto simp: mv_frame_refl)
  show ?thesis
  proof (cases "mv_oldest_wts r < m \<and> mv_num_versions r = mv_len r")
    case False
    then have "mv_gc m r = Inr r" unfolding mv_gc_def by (rule if_not_P)
    then show ?thesis using same by blast
  next
    case True
    obtain mx idx where sc: "recycle_scan m 0 0 None (mv_his r) = (mx, idx)" by fastforce
    show ?thesis
    proof (cases idx)
      case None
      then have "mv_gc m r = Inr r" using True sc by (simp add: mv_gc_def)
      then show ?thesis using same by blast
    next
      case (Some i)
      then have i: "i < mv_len r" "mh_valid (mv_his r ! i)" "mh_ts (mv_his r ! i) = mx" "mx < m" using recycle_scan_spec[OF sc] by auto
      obtain p where p: "mh_row (mv_his r ! i) = Some p" using e i(1,2) unfolding entries_ok_def by auto
      define hs where "hs = (mv_his r)[i := (mv_his r ! i)\<lparr>mh_row := Some (mv_row r)\<rparr>]"
      define es where "es = map (clear_upto mx) hs"
      have hs: "hs ! k = (if k = i then (mv_his r ! k)\<lparr>mh_row := Some (mv_row r)\<rparr> else mv_his r ! k)" if "k < mv_len r" for k
        using that i(1) by (simp add: hs_def)
      have vt: "mh_valid (hs ! k) = mh_valid (mv_his r ! k) \<and> mh_ts (hs ! k) = mh_ts (mv_his r ! k)" if "k < mv_len r" for k
        using hs[OF that] by simp
      have len: "length hs = mv_len r" "length es = mv_len r" by (simp_all add: hs_def es_def)
      have es: "es ! k = clear_upto mx (hs ! k)" if "k < mv_len r" for k using that len by (simp add: es_def)
      have rows: "\<forall>x\<in>set hs. mh_valid x \<longrightarrow> mh_row x \<noteq> None"
        using e hs len unfolding entries_ok_def by (auto simp: in_set_conv_nth)
      define n where "n = mv_num_versions r - length (filter (\<lambda>x. mh_valid x \<and> mh_ts x \<le> mx) hs)"
      define r' where "r' = r\<lparr>mv_row := p, mv_oldest_wts := mx, mv_his := es, mv_num_versions := n\<rparr>"
      have gc: "mv_gc m r = Inr r'"
        using True sc Some p recycle_free_map[OF rows, of mx] by (simp add: mv_gc_def swap_row_def hs_def es_def n_def r'_def)
      let ?V = "{k. k < mv_len r \<and> mh_valid (mv_his r ! k)}" let ?L = "{k. k < mv_len r \<and> mh_valid (mv_his r ! k) \<and> mh_ts (mv_his r ! k) \<le> mx}"
      let ?G = "{k. k < mv_len r \<and> mh_valid (mv_his r ! k) \<and> mx < mh_ts (mv_his r ! k)}"
      have "length (filter (\<lambda>x. mh_valid x \<and> mh_ts x \<le> mx) hs) = card ?L"
        unfolding length_filter_conv_card len(1) using vt by (intro arg_cong[of _ _ card] Collect_cong) auto
      moreover have "card ?V = card ?L + card ?G"
        by (subst card_Un_disjoint[symmetric]) (auto intro!: arg_cong[of _ _ card])
      ultimately have n: "n = card ?G" using e unfolding n_def entries_ok_def by simp
      note cr = core_recycle[OF assms(1) i(1-3) p len(2) _ _ _ r'_def n]
      have core: "mv_core r'" "mv_vers r' = {v \<in> mv_vers r. mx \<le> fst v}"
        by (rule cr; use es hs in \<open>auto simp: clear_upto_def\<close>)+
      have "none_reserved r'" using assms(2) es hs unfolding none_reserved_def by (auto simp: r'_def len clear_upto_def)
      then have "?P r'" using gc core True i(4) by (simp add: mv_frame_def r'_def)
      then show ?thesis by blast
    qed
  qed
qed

section \<open>Reservation\<close>

lemma free_slot_spec:
  "(\<forall>i<length es. \<not> mh_valid (es ! i) \<longrightarrow> mh_reserved (es ! i)) \<and> free_slot n idx es = idx \<or>
    (\<exists>k<length es. free_slot n idx es = Some (n + k) \<and> \<not> mh_valid (es ! k) \<and> \<not> mh_reserved (es ! k))" (is "?A es n idx \<or> ?B es n idx")
proof (induction es arbitrary: n idx)
  case (Cons e es)
  have shift: "?B (e # es) n idx" if h: "free_slot n idx (e # es) = free_slot (n + 1) j es" "?B es (n + 1) j" for j
  proof -
    obtain k where "k < length es" "free_slot (n + 1) j es = Some (n + 1 + k)" "\<not> mh_valid (es ! k)" "\<not> mh_reserved (es ! k)" using h(2) by blast
    then show ?thesis using h(1) by (intro exI[of _ "Suc k"]) simp
  qed
  consider "\<not> mh_valid e" "\<not> mh_reserved e" "mh_row e \<noteq> None" | "\<not> mh_valid e" "\<not> mh_reserved e" "mh_row e = None"
    | "\<not> (\<not> mh_valid e \<and> \<not> mh_reserved e)" by blast
  then show ?case
  proof cases
    case 1
    then have "?B (e # es) n idx" by (intro exI[of _ 0]) simp
    then show ?thesis by blast
  next
    case 2
    then have st: "free_slot n idx (e # es) = free_slot (n + 1) (Some n) es" by simp
    from Cons.IH[of "n + 1" "Some n"] have "?B (e # es) n idx"
    proof
      assume "?A es (n + 1) (Some n)"
      then show ?thesis using st 2 by (intro exI[of _ 0]) simp
    qed (rule shift[OF st])
    then show ?thesis by blast
  next
    case 3
    then have st: "free_slot n idx (e # es) = free_slot (n + 1) idx es" by auto
    from Cons.IH[of "n + 1" idx] show ?thesis
    proof
      assume "?A es (n + 1) idx"
      then have "?A (e # es) n idx" using st 3 by (auto simp: nth_Cons split: nat.splits)
      then show ?thesis by blast
    qed (use shift[OF st] in blast)
  qed
qed simp

lemma oldest_slot_spec:
  assumes "oldest_slot n mn idx es = (mn', idx')"
  shows "mn' \<le> mn \<and> (\<forall>e\<in>set es. mh_valid e \<longrightarrow> mn' \<le> mh_ts e) \<and>
    (mn' = mn \<and> idx' = idx \<or> (\<exists>k<length es. idx' = Some (n + k) \<and> mh_valid (es ! k) \<and> mh_ts (es ! k) = mn'))"
  using assms
proof (induction es arbitrary: n mn idx)
  case (Cons e es)
  have shift: "\<exists>k<length (e # es). idx' = Some (n + k) \<and> mh_valid ((e # es) ! k) \<and> mh_ts ((e # es) ! k) = mn'"
    if h: "\<exists>k<length es. idx' = Some (n + 1 + k) \<and> mh_valid (es ! k) \<and> mh_ts (es ! k) = mn'"
  proof -
    obtain k where "k < length es" "idx' = Some (n + 1 + k)" "mh_valid (es ! k)" "mh_ts (es ! k) = mn'" using h by blast
    then show ?thesis by (intro exI[of _ "Suc k"]) simp
  qed
  show ?case
  proof (cases "mh_valid e \<and> mh_ts e < mn")
    case True
    then have "oldest_slot (n + 1) (mh_ts e) (Some n) es = (mn', idx')" using Cons.prems by simp
    note ih = Cons.IH[OF this]
    have "\<exists>k<length (e # es). idx' = Some (n + k) \<and> mh_valid ((e # es) ! k) \<and> mh_ts ((e # es) ! k) = mn'"
      using ih shift True by (cases "mn' = mh_ts e \<and> idx' = Some n") (auto intro: exI[of _ 0])
    moreover have "mn' \<le> mn" using ih True by (meson le_less_trans less_imp_le)
    ultimately show ?thesis using ih by auto
  next
    case False
    then have "oldest_slot (n + 1) mn idx es = (mn', idx')" using Cons.prems by auto
    note ih = Cons.IH[OF this]
    have "mh_valid e \<longrightarrow> mn' \<le> mh_ts e" using False ih by (meson not_less order_trans)
    then show ?thesis using ih shift by auto
  qed
qed simp

definition free_at :: "nat \<Rightarrow> row_mvcc \<Rightarrow> row_mvcc" where
  "free_at i r = r\<lparr>mv_his := (mv_his r)[i := (mv_his r ! i)\<lparr>mh_valid := False, mh_reserved := False\<rparr>]\<rparr>"

lemma free_at_idle: "\<not> mh_valid (mv_his r ! i) \<Longrightarrow> \<not> mh_reserved (mv_his r ! i) \<Longrightarrow> free_at i r = r"
proof -
  assume "\<not> mh_valid (mv_his r ! i)" "\<not> mh_reserved (mv_his r ! i)"
  then have "(mv_his r ! i)\<lparr>mh_valid := False, mh_reserved := False\<rparr> = mv_his r ! i" by (cases "mv_his r ! i") simp
  then show ?thesis by (simp add: free_at_def)
qed

lemma core_double:
  assumes "mv_core r" "none_reserved r" "r' = (double_history junk r)\<lparr>mv_prewrite_ts := ts\<rparr>"
  shows "mv_core r'" "none_reserved r'" "mv_vers r' = mv_vers r" "mv_len r' = 2 * mv_len r" "\<not> mh_valid (mv_his r' ! mv_len r)"
    "\<not> mh_reserved (mv_his r' ! mv_len r)" "mv_frame r r'"
proof -
  show len: "mv_len r' = 2 * mv_len r" by (simp add: assms(3) double_history_def)
  have pos: "0 < mv_len r" using assms(1) by (simp add: mv_core_def entries_ok_def)
  have nth: "mv_his r' ! k = (if k < mv_len r then mv_his r ! k else junk\<lparr>mh_valid := False, mh_reserved := False, mh_row := None\<rparr>)" if "k < mv_len r'" for k
    using that len by (auto simp: assms(3) double_history_def nth_append)
  have v: "{k. k < mv_len r' \<and> mh_valid (mv_his r' ! k)} = {k. k < mv_len r \<and> mh_valid (mv_his r ! k)}" using nth len by (auto split: if_splits)
  show vs: "mv_vers r' = mv_vers r"
  proof -
    have "(i < mv_len r' \<and> mh_valid (mv_his r' ! i) \<and> mh_row (mv_his r' ! i) = Some p \<and> t = mh_ts (mv_his r' ! i)) =
        (i < mv_len r \<and> mh_valid (mv_his r ! i) \<and> mh_row (mv_his r ! i) = Some p \<and> t = mh_ts (mv_his r ! i))" for i p t
      using nth[of i] len by (cases "i < mv_len r") auto
    then show ?thesis by (intro mv_vers_cong) (simp_all add: assms(3) double_history_def)
  qed
  have "entries_ok r'" using assms(1) nth v len unfolding mv_core_def entries_ok_def
    by (auto simp: assms(3) double_history_def split: if_splits)
  moreover have "tuples_inj r'"
  proof -
    have "mv_row r' = mv_row r" "mv_fresh r' = mv_fresh r" by (simp_all add: assms(3) double_history_def)
    moreover have "k < mv_len r \<and> mh_row (mv_his r ! k) = Some p" if "k < mv_len r'" "mh_row (mv_his r' ! k) = Some p" for k p
      using nth[OF that(1)] that(2) by (auto split: if_splits)
    ultimately show ?thesis using assms(1) unfolding mv_core_def tuples_inj_def by metis
  qed
  moreover have "(mv_latest_wts r', mv_latest_row r') \<in> mv_vers r'" unfolding vs using assms(1) by (simp add: mv_core_def assms(3) double_history_def)
  ultimately show "mv_core r'" by (simp add: mv_core_def)
  show "none_reserved r'" using assms(2) nth unfolding none_reserved_def by (auto split: if_splits)
  show "\<not> mh_valid (mv_his r' ! mv_len r)" "\<not> mh_reserved (mv_his r' ! mv_len r)" using nth[of "mv_len r"] len pos by auto
  show "mv_frame r r'" by (simp add: mv_frame_def assms(3) double_history_def)
qed

lemma core_full:
  assumes "mv_core r" "\<not> mv_num_versions r < mv_len r" "i < mv_len r"
  shows "mh_valid (mv_his r ! i)"
proof -
  let ?V = "{i. i < mv_len r \<and> mh_valid (mv_his r ! i)}"
  have "card ?V = mv_num_versions r" using assms(1) by (simp add: mv_core_def entries_ok_def)
  moreover have "?V \<subseteq> {i. i < mv_len r}" by auto
  moreover from this have "card ?V \<le> mv_len r" using card_mono[of "{i. i < mv_len r}" ?V] by simp
  ultimately have "?V = {i. i < mv_len r}" using assms(2) by (intro card_subset_eq) auto
  then show ?thesis using assms(3) by blast
qed

lemma core_room:
  assumes "mv_core r" "none_reserved r" "mv_num_versions r < mv_len r"
  shows "\<exists>i<mv_len r. free_slot 0 None (mv_his r) = Some i \<and> \<not> mh_valid (mv_his r ! i) \<and> \<not> mh_reserved (mv_his r ! i)"
proof -
  let ?V = "{i. i < mv_len r \<and> mh_valid (mv_his r ! i)}"
  have "card ?V < mv_len r" using assms(1,3) by (simp add: mv_core_def entries_ok_def)
  then have "?V \<noteq> {i. i < mv_len r}" by (metis card_Collect_less_nat less_irrefl)
  then obtain i where "i < mv_len r" "\<not> mh_valid (mv_his r ! i)" by blast
  then show ?thesis using free_slot_spec[of "mv_his r" 0 None] assms(2) unfolding none_reserved_def by auto
qed

definition pick_post :: "row_mvcc \<Rightarrow> nat \<Rightarrow> row_mvcc \<Rightarrow> bool" where
  "pick_post r i r1 \<longleftrightarrow> i < mv_len r1 \<and> mv_core (free_at i r1) \<and> none_reserved (free_at i r1) \<and> mv_frame r r1 \<and>
     mv_vers (free_at i r1) = {v \<in> mv_vers r. mv_oldest_wts r1 \<le> fst v} \<and> (mv_oldest_wts r1 \<noteq> mv_oldest_wts r \<longrightarrow> mv_num_versions r = mv_len r)"

lemma pick_oldest_ok:
  assumes "mv_core r" "none_reserved r" "\<not> mv_num_versions r < mv_len r" "mv_latest_wts r < UINT64_MAX"
  shows "\<exists>i mn p. oldest_slot 0 UINT64_MAX None (mv_his r) = (mn, Some i) \<and> mv_oldest_wts r < mn \<and> mh_row (mv_his r ! i) = Some p \<and>
    pick_post r i (r\<lparr>mv_row := p, mv_his := (mv_his r)[i := (mv_his r ! i)\<lparr>mh_row := Some (mv_row r)\<rparr>], mv_oldest_wts := mn,
      mv_num_versions := mv_num_versions r - 1\<rparr>)"
proof -
  have e: "entries_ok r" using assms(1) by (simp add: mv_core_def)
  have val: "mh_valid (mv_his r ! k)" if "k < mv_len r" for k using core_full[OF assms(1,3) that] .
  obtain mn idx where sl: "oldest_slot 0 UINT64_MAX None (mv_his r) = (mn, idx)" by fastforce
  note sp = oldest_slot_spec[OF sl]
  have "0 < mv_len r" using e by (simp add: entries_ok_def)
  then have "mn \<le> mh_ts (mv_his r ! 0)" "mh_ts (mv_his r ! 0) \<le> mv_latest_wts r" using sp val[of 0] e by (auto simp: entries_ok_def)
  then have "mn \<noteq> UINT64_MAX" using assms(4) by (metis leD order_trans)
  then obtain i where i: "i < mv_len r" "idx = Some i" "mh_valid (mv_his r ! i)" "mh_ts (mv_his r ! i) = mn" using sp by auto
  obtain p where p: "mh_row (mv_his r ! i) = Some p" using e i(1,3) unfolding entries_ok_def by auto
  have old: "mv_oldest_wts r < mn" using e i unfolding entries_ok_def by auto
  have young: "mh_valid (mv_his r ! k) \<and> mn < mh_ts (mv_his r ! k) \<longleftrightarrow> k \<noteq> i" if "k < mv_len r" for k
  proof -
    have "mn \<le> mh_ts (mv_his r ! k)" using sp val[OF that] that by auto
    moreover have "mh_ts (mv_his r ! k) = mn \<longleftrightarrow> k = i" using e val[OF that] i that unfolding entries_ok_def by metis
    ultimately show ?thesis using val[OF that] by (metis order_less_le)
  qed
  let ?r = "r\<lparr>mv_row := p, mv_his := (mv_his r)[i := (mv_his r ! i)\<lparr>mh_row := Some (mv_row r)\<rparr>], mv_oldest_wts := mn,
      mv_num_versions := mv_num_versions r - 1\<rparr>"
  define es where "es = (mv_his r)[i := (mv_his r ! i)\<lparr>mh_row := Some (mv_row r), mh_valid := False, mh_reserved := False\<rparr>]"
  have es: "es ! k = (if k = i then (mv_his r ! k)\<lparr>mh_row := Some (mv_row r), mh_valid := False, mh_reserved := False\<rparr> else mv_his r ! k)"
    if "k < mv_len r" for k using that i(1) by (simp add: es_def)
  have num: "mv_num_versions r = mv_len r"
  proof -
    have "{k. k < mv_len r \<and> mh_valid (mv_his r ! k)} = {k. k < mv_len r}" using val by auto
    then show ?thesis using e by (simp add: entries_ok_def)
  qed
  have "{k. k < mv_len r \<and> mh_valid (mv_his r ! k) \<and> mn < mh_ts (mv_his r ! k)} = {k. k < mv_len r} - {i}" using young by auto
  then have card: "mv_num_versions r - 1 = card {k. k < mv_len r \<and> mh_valid (mv_his r ! k) \<and> mn < mh_ts (mv_his r ! k)}"
    using i(1) num by simp
  have f: "free_at i ?r = r\<lparr>mv_row := p, mv_oldest_wts := mn, mv_his := es, mv_num_versions := mv_num_versions r - 1\<rparr>"
    using i(1) by (simp add: free_at_def es_def)
  have len: "length es = mv_len r" by (simp add: es_def)
  have c1: "mh_row (es ! k) = (if k = i then Some (mv_row r) else mh_row (mv_his r ! k))" "mh_ts (es ! k) = mh_ts (mv_his r ! k)"
    "mh_valid (es ! k) \<longleftrightarrow> mh_valid (mv_his r ! k) \<and> mn < mh_ts (mv_his r ! k)" if "k < mv_len r" for k
    using es[OF that] young[OF that] val[OF that] by auto
  note core = core_recycle[OF assms(1) i(1,3,4) p len c1 f card]
  have "none_reserved (free_at i ?r)" using assms(2) es val unfolding none_reserved_def f by (auto simp: len)
  moreover have "mv_frame r ?r" by (simp add: mv_frame_def)
  ultimately have "pick_post r i ?r" using core i(1) num by (simp add: pick_post_def)
  then show ?thesis using sl i(2) old p by blast
qed

lemma mv_pick_ok:
  assumes "mv_core r" "none_reserved r" "mv_latest_wts r < UINT64_MAX"
  shows "\<exists>i r1. mv_pick junk thread_cnt ts r = Inr (i, r1) \<and> pick_post r i r1"
proof -
  have e: "entries_ok r" and l: "(mv_latest_wts r, mv_latest_row r) \<in> mv_vers r" using assms(1) by (auto simp: mv_core_def)
  have all: "mv_vers r = {v \<in> mv_vers r. mv_oldest_wts r \<le> fst v}" using mv_vers_bounds[OF e l] by auto
  consider "mv_num_versions r < mv_len r" | "\<not> mv_num_versions r < mv_len r" "thread_cnt \<le> mv_len r"
    | "\<not> mv_num_versions r < mv_len r" "\<not> thread_cnt \<le> mv_len r" by blast
  then show ?thesis
  proof cases
    case 1
    obtain i where i: "i < mv_len r" "free_slot 0 None (mv_his r) = Some i" "\<not> mh_valid (mv_his r ! i)" "\<not> mh_reserved (mv_his r ! i)"
      using core_room[OF assms(1,2) 1] by blast
    have "pick_post r i r" using assms i all free_at_idle[OF i(3,4)] by (simp add: pick_post_def mv_frame_refl)
    moreover have "mv_pick junk thread_cnt ts r = Inr (i, r)" using 1 i(2) by (simp add: mv_pick_def)
    ultimately show ?thesis by blast
  next
    case 2
    obtain i mn p where p: "oldest_slot 0 UINT64_MAX None (mv_his r) = (mn, Some i)" "mv_oldest_wts r < mn" "mh_row (mv_his r ! i) = Some p"
      "pick_post r i (r\<lparr>mv_row := p, mv_his := (mv_his r)[i := (mv_his r ! i)\<lparr>mh_row := Some (mv_row r)\<rparr>], mv_oldest_wts := mn,
        mv_num_versions := mv_num_versions r - 1\<rparr>)" (is "pick_post r i ?r")
      using pick_oldest_ok[OF assms(1,2) 2(1) assms(3)] by blast
    have "mv_pick junk thread_cnt ts r = Inr (i, ?r)" using 2 p(1-3) by (simp add: mv_pick_def swap_row_def)
    then show ?thesis using p(4) by blast
  next
    case 3
    let ?r = "(double_history junk r)\<lparr>mv_prewrite_ts := ts\<rparr>"
    note d = core_double[OF assms(1,2) refl, of ts junk]
    have "mv_oldest_wts ?r = mv_oldest_wts r" by (simp add: double_history_def)
    then have "pick_post r (mv_len r) ?r" using d all free_at_idle[OF d(5,6)] e by (simp add: pick_post_def entries_ok_def)
    moreover have "mv_pick junk thread_cnt ts r = Inr (mv_len r, ?r)" using 3 d(4) by (simp add: mv_pick_def Let_def)
    ultimately show ?thesis by blast
  qed
qed

text \<open>The entry that is reserved while a prewrite is pending.\<close>

definition slots_ok :: "row_mvcc \<Rightarrow> bool" where
  "slots_ok r \<longleftrightarrow> (\<forall>i<mv_len r. \<not> mh_valid (mv_his r ! i) \<longrightarrow> mh_reserved (mv_his r ! i) \<longrightarrow> mv_exists_prewrite r \<and> i = mv_prewrite_his_id r) \<and>
     (mv_exists_prewrite r \<longrightarrow> mv_prewrite_his_id r < mv_len r \<and> \<not> mh_valid (mv_his r ! mv_prewrite_his_id r) \<and>
        mh_row (mv_his r ! mv_prewrite_his_id r) \<noteq> None \<and> mv_latest_wts r < mv_prewrite_ts r \<and> mv_max_served_rts r \<le> mv_prewrite_ts r)"

text \<open>Changing an entry that is not a version, and reserving a fresh tuple, keep the versions.\<close>

lemma core_idle_upd:
  assumes "mv_core r" "i < mv_len r" "\<not> mh_valid (mv_his r ! i)" "\<not> mh_valid e" "mh_row e = mh_row (mv_his r ! i) \<or> mh_row e = Some (mv_fresh r) \<and> mv_fresh r < mv_fresh r'"
    "mv_his r' = (mv_his r)[i := e]" "mv_row r' = mv_row r" "mv_oldest_wts r' = mv_oldest_wts r" "mv_latest_wts r' = mv_latest_wts r"
    "mv_latest_row r' = mv_latest_row r" "mv_num_versions r' = mv_num_versions r" "mv_fresh r \<le> mv_fresh r'"
  shows "mv_core r'" "mv_vers r' = mv_vers r"
proof -
  have nth: "mv_his r' ! k = (if k = i then e else mv_his r ! k)" if "k < mv_len r" for k using that assms(2,6) by simp
  have len: "mv_len r' = mv_len r" using assms(6) by simp
  have val: "mh_valid (mv_his r' ! k) = mh_valid (mv_his r ! k)" if "k < mv_len r" for k using nth[OF that] assms(3,4) by auto
  have old: "mv_his r' ! k = mv_his r ! k" if "k < mv_len r" "mh_valid (mv_his r ! k)" for k using nth[OF that(1)] that(2) assms(3) by auto
  show vs: "mv_vers r' = mv_vers r" using val old by (intro mv_vers_cong assms(7,8)) (metis len)
  have "{k. k < mv_len r' \<and> mh_valid (mv_his r' ! k)} = {k. k < mv_len r \<and> mh_valid (mv_his r ! k)}" using val len by auto
  then have "entries_ok r'" using assms(1) val old unfolding mv_core_def entries_ok_def len assms(8,9,11) by simp
  moreover have "tuples_inj r'"
  proof -
    have t: "mv_row r < mv_fresh r" "\<And>k s. k < mv_len r \<Longrightarrow> mh_row (mv_his r ! k) = Some s \<Longrightarrow> s < mv_fresh r \<and> s \<noteq> mv_row r"
      and inj: "\<And>k j s. k < mv_len r \<Longrightarrow> j < mv_len r \<Longrightarrow> mh_row (mv_his r ! k) = Some s \<Longrightarrow> mh_row (mv_his r ! j) = Some s \<Longrightarrow> k = j"
      using assms(1) unfolding mv_core_def tuples_inj_def by blast+
    have row: "k = i \<and> s = mv_fresh r \<and> mv_fresh r < mv_fresh r' \<or> mh_row (mv_his r ! k) = Some s \<and> s < mv_fresh r"
      if "k < mv_len r" "mh_row (mv_his r' ! k) = Some s" for k s
      using nth[OF that(1)] that assms(5) t(2)[OF that(1)] by (metis option.inject)
    show ?thesis unfolding tuples_inj_def len assms(7)
    proof (intro conjI allI impI)
      show "mv_row r < mv_fresh r'" using t(1) assms(12) by linarith
      fix k s assume k: "k < mv_len r" "mh_row (mv_his r' ! k) = Some s"
      show "s < mv_fresh r'" using row[OF k] assms(12) by linarith
      show "s \<noteq> mv_row r" using row[OF k] t(1) t(2)[OF k(1)] by (metis less_irrefl)
    next
      fix k j s assume kj: "k < mv_len r" "j < mv_len r" "mh_row (mv_his r' ! k) = Some s" "mh_row (mv_his r' ! j) = Some s"
      show "k = j" using row[OF kj(1,3)] row[OF kj(2,4)] inj[OF kj(1,2)] by (metis less_irrefl)
    qed
  qed
  ultimately show "mv_core r'" using assms(1,9,10) vs unfolding mv_core_def by simp
qed

lemma alloc_mark:
  assumes "mv_alloc i r1 = (p, r2)" "i < mv_len r1"
  shows "mv_his (mv_mark i ts r2) = (mv_his r1)[i := (mv_his r1 ! i)\<lparr>mh_row := Some p, mh_valid := False, mh_reserved := True, mh_ts := ts\<rparr>]"
    "mh_row (mv_his r1 ! i) = Some p \<and> mv_fresh (mv_mark i ts r2) = mv_fresh r1 \<or>
     p = mv_fresh r1 \<and> mv_fresh (mv_mark i ts r2) = mv_fresh r1 + 1"
proof -
  have eq: "(mv_his r1 ! i)\<lparr>mh_row := Some q, mh_valid := False, mh_reserved := True, mh_ts := ts\<rparr> =
      (mv_his r1 ! i)\<lparr>mh_valid := False, mh_reserved := True, mh_ts := ts\<rparr>" if "mh_row (mv_his r1 ! i) = Some q" for q
    using that by (cases "mv_his r1 ! i") simp
  show "mv_his (mv_mark i ts r2) = (mv_his r1)[i := (mv_his r1 ! i)\<lparr>mh_row := Some p, mh_valid := False, mh_reserved := True, mh_ts := ts\<rparr>]"
  proof (cases "mh_row (mv_his r1 ! i)")
    case None
    then show ?thesis using assms by (auto simp: mv_alloc_def mv_mark_def)
  next
    case (Some q)
    then have "q = p" "r2 = r1" using assms(1) by (simp_all add: mv_alloc_def)
    then show ?thesis unfolding eq[OF Some[unfolded \<open>q = p\<close>]] by (simp add: mv_mark_def)
  qed
  show "mh_row (mv_his r1 ! i) = Some p \<and> mv_fresh (mv_mark i ts r2) = mv_fresh r1 \<or>
     p = mv_fresh r1 \<and> mv_fresh (mv_mark i ts r2) = mv_fresh r1 + 1"
    using assms by (cases "mh_row (mv_his r1 ! i)") (auto simp: mv_alloc_def mv_mark_def)
qed

lemma mv_reserveRow_ok:
  assumes "mv_core r" "slots_ok r" "\<not> mv_exists_prewrite r" "mv_latest_wts r < ts" "mv_max_served_rts r \<le> ts"
  shows "\<exists>p r'. mv_reserveRow junk thread_cnt (Inr m) ts r = Inr (p, r') \<and> mv_core r' \<and> slots_ok r' \<and> mv_frame r r' \<and> mv_exists_prewrite r' \<and>
    mv_prewrite_ts r' = ts \<and> mh_row (mv_his r' ! mv_prewrite_his_id r') = Some p \<and>
    mv_vers r' = {v \<in> mv_vers r. mv_oldest_wts r' \<le> fst v} \<and> (mv_oldest_wts r' \<noteq> mv_oldest_wts r \<longrightarrow> mv_num_versions r = mv_len r)"
    (is "\<exists>p r'. ?P p r'")
proof -
  have nr: "none_reserved r" using assms(2,3) unfolding slots_ok_def none_reserved_def by blast
  have "mv_latest_wts r < UINT64_MAX" using assms(4) max_word_max by (rule less_le_trans)
  obtain r0 where r0: "mv_gc m r = Inr r0" "mv_core r0" "none_reserved r0" "mv_frame r r0" "mv_vers r0 = {v \<in> mv_vers r. mv_oldest_wts r0 \<le> fst v}"
      "r0 \<noteq> r \<longrightarrow> mv_num_versions r = mv_len r"
    using mv_gc_ok[OF assms(1) nr, of m] by blast
  then have "mv_latest_wts r0 < UINT64_MAX" using \<open>mv_latest_wts r < UINT64_MAX\<close> by (simp add: mv_frame_def)
  then obtain i r1 where r1: "mv_pick junk thread_cnt ts r0 = Inr (i, r1)" "pick_post r0 i r1"
    using mv_pick_ok[OF r0(2,3), of junk thread_cnt ts] by blast
  define f where "f = free_at i r1"
  have f: "i < mv_len f" "mv_core f" "none_reserved f" "mv_vers f = {v \<in> mv_vers r0. mv_oldest_wts f \<le> fst v}" "\<not> mh_valid (mv_his f ! i)"
    "mh_row (mv_his f ! i) = mh_row (mv_his r1 ! i)"
    using r1(2) by (auto simp: pick_post_def f_def free_at_def)
  obtain p r2 where al: "mv_alloc i r1 = (p, r2)" by fastforce
  define r' where "r' = mv_mark i ts r2"
  define e where "e = (mv_his r1 ! i)\<lparr>mh_row := Some p, mh_valid := False, mh_reserved := True, mh_ts := ts\<rparr>"
  have i1: "i < mv_len r1" using r1(2) by (simp add: pick_post_def)
  note am = alloc_mark[OF al i1, of ts]
  have e: "mv_his r' = (mv_his f)[i := e]" "\<not> mh_valid e" "mh_row e = Some p" "mv_fresh f \<le> mv_fresh r'"
      "mh_row e = mh_row (mv_his f ! i) \<or> mh_row e = Some (mv_fresh f) \<and> mv_fresh f < mv_fresh r'"
    using am f(6) by (auto simp: e_def r'_def f_def free_at_def)
  have same: "mv_row r' = mv_row f" "mv_oldest_wts r' = mv_oldest_wts f" "mv_latest_wts r' = mv_latest_wts f" "mv_latest_row r' = mv_latest_row f"
      "mv_num_versions r' = mv_num_versions f" "mv_exists_prewrite r'" "mv_prewrite_ts r' = ts" "mv_prewrite_his_id r' = i" "mv_frame r r'"
    using al r0(4) r1(2) unfolding mv_alloc_def r'_def mv_mark_def f_def free_at_def pick_post_def mv_frame_def
    by (auto split: option.splits)
  note core = core_idle_upd[OF f(2,1,5) e(2,5,1) same(1-5) e(4)]
  have "(mv_oldest_wts f, mv_row f) \<in> mv_vers r0" using f(4) by (auto simp: mv_vers_def[of f])
  then have "mv_oldest_wts r0 \<le> mv_oldest_wts f" using mv_vers_bounds[of r0 "(mv_oldest_wts f, mv_row f)"] r0(2) by (simp add: mv_core_def)
  then have "mv_vers r' = {v \<in> mv_vers r. mv_oldest_wts r' \<le> fst v}" unfolding core(2) f(4) r0(5) same(2) by auto
  moreover have "slots_ok r'"
  proof -
    have "mh_reserved (mv_his r' ! k) \<longrightarrow> k = i" if "k < mv_len r'" "\<not> mh_valid (mv_his r' ! k)" for k
      using f(1,3) that e(1) unfolding none_reserved_def by (metis length_list_update nth_list_update_neq)
    moreover have "mv_his r' ! i = e" "mv_len r' = mv_len f" using e(1) f(1) by simp_all
    moreover have "mv_latest_wts r' < ts" "mv_max_served_rts r' \<le> ts" using assms(4,5) same(9) by (simp_all add: mv_frame_def)
    ultimately show ?thesis using e(2,3) f(1) same(6) unfolding slots_ok_def same(7,8) by (metis option.distinct(1))
  qed
  moreover have "mh_row (mv_his r' ! mv_prewrite_his_id r') = Some p" using e(1,3) f(1) same(8) by simp
  moreover have "mv_oldest_wts r' \<noteq> mv_oldest_wts r \<longrightarrow> mv_num_versions r = mv_len r"
    using r0(6) r1(2) unfolding same(2) by (auto simp: pick_post_def f_def free_at_def)
  moreover have "mv_reserveRow junk thread_cnt (Inr m) ts r = Inr (p, r')"
    using assms(3) r0(1) r1(1) al by (simp add: mv_reserveRow_def r'_def)
  ultimately have "?P p r'" using core(1) same(6,7,9) by simp
  then show ?thesis by blast
qed

section \<open>Waking the requests that wait\<close>

definition mv_data :: "row_mvcc \<Rightarrow> (ts_t \<times> bytes) set" where
  "mv_data r = (\<lambda>(t, p). (t, mv_rows r p)) ` mv_vers r"

definition same_ts :: "ts_t \<Rightarrow> ReqEntry list \<Rightarrow> nat" where
  "same_ts t qs = length (filter (\<lambda>q. mq_valid q \<and> mq_ts q = t) qs)"

lemma same_ts_simps [simp]: "same_ts t [] = 0"
  "same_ts t (q # qs) = (if mq_valid q \<and> mq_ts q = t then 1 else 0) + same_ts t qs"
  by (simp_all add: same_ts_def)

lemma same_ts_zero: "same_ts t qs = 0 \<longleftrightarrow> (\<forall>q\<in>set qs. mq_valid q \<longrightarrow> mq_ts q \<noteq> t)"
  by (induction qs) auto

lemma next_prewrite_spec:
  "next_prewrite ts nx qs \<le> nx \<and> (\<forall>q\<in>set qs. mq_valid q \<and> mq_type q = P_REQ \<and> ts < mq_ts q \<longrightarrow> next_prewrite ts nx qs \<le> mq_ts q) \<and>
    (next_prewrite ts nx qs = nx \<or> (\<exists>q\<in>set qs. mq_valid q \<and> mq_type q = P_REQ \<and> ts < mq_ts q \<and> mq_ts q = next_prewrite ts nx qs))"
proof (induction qs arbitrary: nx)
  case (Cons q qs)
  show ?case
  proof (cases "mq_valid q \<and> mq_type q = P_REQ \<and> ts < mq_ts q \<and> mq_ts q < nx")
    case True
    then show ?thesis using Cons.IH[of "mq_ts q"] by (auto intro: order_trans less_imp_le)
  next
    case False
    have "next_prewrite ts nx (q # qs) = next_prewrite ts nx qs" using False by auto
    moreover have "mq_valid q \<and> mq_type q = P_REQ \<and> ts < mq_ts q \<longrightarrow> next_prewrite ts nx qs \<le> mq_ts q"
      using False Cons.IH[of nx] by (meson not_less order_trans)
    ultimately show ?thesis using Cons.IH[of nx] by auto
  qed
qed simp

text \<open>The tuple of a reserved entry is not the tuple of a version.\<close>

lemma reserved_private:
  assumes "mv_core r" "i < mv_len r" "\<not> mh_valid (mv_his r ! i)" "mh_row (mv_his r ! i) = Some p" "(t, q) \<in> mv_vers r"
  shows "q \<noteq> p"
proof
  assume "q = p"
  then consider "p = mv_row r" | j where "j < mv_len r" "mh_valid (mv_his r ! j)" "mh_row (mv_his r ! j) = Some p"
    using assms(5) by (auto simp: mv_vers_def)
  then show False using assms(1-4) unfolding mv_core_def tuples_inj_def by cases blast+
qed

lemma latest_vers: "mv_core r \<Longrightarrow> (mv_latest_wts r, mv_latest_row r) \<in> mv_vers r"
  by (simp add: mv_core_def)

text \<open>A reservation with the copy of the newest tuple, as both callers of \<open>reserveRow\<close> use it.\<close>

lemma reserve_copy:
  assumes "mv_core r" "slots_ok r" "\<not> mv_exists_prewrite r" "mv_latest_wts r < ts" "mv_max_served_rts r \<le> ts"
  shows "\<exists>p r1. mv_reserveRow junk thread_cnt (Inr m) ts r = Inr (p, r1) \<and> (let r' = mv_copy_latest p r1 in
    mv_core r' \<and> slots_ok r' \<and> mv_exists_prewrite r' \<and> mv_prewrite_ts r' = ts \<and> mh_row (mv_his r' ! mv_prewrite_his_id r') = Some p \<and>
    mv_rows r' p = mv_rows r (mv_latest_row r) \<and> mv_data r' = {v \<in> mv_data r. mv_oldest_wts r' \<le> fst v} \<and>
    (mv_oldest_wts r' \<noteq> mv_oldest_wts r \<longrightarrow> mv_num_versions r = mv_len r) \<and>
    mv_latest_wts r' = mv_latest_wts r \<and> mv_latest_row r' = mv_latest_row r \<and> mv_max_served_rts r' = mv_max_served_rts r \<and>
    mv_requests r' = mv_requests r \<and> mv_cur_row r' = mv_cur_row r \<and> mv_ts_ready r' = mv_ts_ready r)"
proof -
  obtain p r1 where r1: "mv_reserveRow junk thread_cnt (Inr m) ts r = Inr (p, r1)" "mv_core r1" "slots_ok r1" "mv_frame r r1" "mv_exists_prewrite r1"
      "mv_prewrite_ts r1 = ts" "mh_row (mv_his r1 ! mv_prewrite_his_id r1) = Some p" "mv_vers r1 = {v \<in> mv_vers r. mv_oldest_wts r1 \<le> fst v}"
      "mv_oldest_wts r1 \<noteq> mv_oldest_wts r \<longrightarrow> mv_num_versions r = mv_len r"
    using mv_reserveRow_ok[OF assms, of junk thread_cnt m] by blast
  let ?r = "mv_copy_latest p r1"
  have i: "mv_prewrite_his_id r1 < mv_len r1" "\<not> mh_valid (mv_his r1 ! mv_prewrite_his_id r1)" using r1(3,5) by (auto simp: slots_ok_def)
  have pv: "q \<noteq> p" if "(t, q) \<in> mv_vers r1" for t q using reserved_private[OF r1(2) i r1(7) that] .
  have vs: "mv_vers ?r = mv_vers r1" by (simp add: mv_copy_latest_def mv_vers_def)
  have core: "mv_core ?r" using r1(2) vs unfolding mv_core_def entries_ok_def tuples_inj_def by (simp add: mv_copy_latest_def)
  have sl: "slots_ok ?r" using r1(3) unfolding slots_ok_def by (simp add: mv_copy_latest_def)
  have "mv_rows ?r q = mv_rows r q" if "(t, q) \<in> mv_vers r1" for t q
    using pv[OF that] r1(4) by (simp add: mv_copy_latest_def mv_frame_def)
  then have "mv_data ?r = (\<lambda>(t, p). (t, mv_rows r p)) ` mv_vers r1" unfolding mv_data_def vs by (intro image_cong) auto
  also have "\<dots> = {v \<in> mv_data r. mv_oldest_wts r1 \<le> fst v}" unfolding r1(8) mv_data_def by auto
  finally have d: "mv_data ?r = {v \<in> mv_data r. mv_oldest_wts r1 \<le> fst v}" .
  have c: "mv_rows ?r p = mv_rows r (mv_latest_row r)" using r1(4) by (simp add: mv_copy_latest_def mv_frame_def)
  show ?thesis using r1(1,4-7,9) core sl d c unfolding Let_def mv_frame_def by (simp add: mv_copy_latest_def)
qed

text \<open>The state of the loop of \<open>update_buffer\<close>, and what a transaction's own fields leave alone.\<close>

definition wake_inv :: "ts_t \<Rightarrow> row_mvcc \<Rightarrow> bool" where
  "wake_inv next r \<longleftrightarrow> mv_core r \<and> slots_ok r \<and> mv_latest_wts r < next \<and> mv_max_served_rts r \<le> next \<and> (mv_exists_prewrite r \<longrightarrow> mv_prewrite_ts r = next)"

lemma txn_fields:
  "mv_core (r\<lparr>mv_cur_row := a\<rparr>) = mv_core r" "slots_ok (r\<lparr>mv_cur_row := a\<rparr>) = slots_ok r" "mv_data (r\<lparr>mv_cur_row := a\<rparr>) = mv_data r"
  "mv_core (r\<lparr>mv_ts_ready := b\<rparr>) = mv_core r" "slots_ok (r\<lparr>mv_ts_ready := b\<rparr>) = slots_ok r" "mv_data (r\<lparr>mv_ts_ready := b\<rparr>) = mv_data r"
  "mv_core (r\<lparr>mv_max_served_rts := t\<rparr>) = mv_core r" "mv_data (r\<lparr>mv_max_served_rts := t\<rparr>) = mv_data r"
  "mv_core (r\<lparr>mv_requests := qs\<rparr>) = mv_core r" "slots_ok (r\<lparr>mv_requests := qs\<rparr>) = slots_ok r" "mv_data (r\<lparr>mv_requests := qs\<rparr>) = mv_data r"
  by (simp_all add: mv_core_def entries_ok_def tuples_inj_def mv_vers_def slots_ok_def mv_data_def)

lemma serve_read_ok:
  assumes "wake_inv next r" "mq_ts q < next"
  shows "wake_inv next (serve_read q r)" "mv_data (serve_read q r) = mv_data r"
proof -
  have e: "serve_read q r = r\<lparr>mv_max_served_rts := (if mv_max_served_rts r < mq_ts q then mq_ts q else mv_max_served_rts r),
     mv_cur_row := (mv_cur_row r)(mq_txn q := Some (mv_latest_row r)), mv_ts_ready := (mv_ts_ready r)(mq_txn q := True)\<rparr>" by (simp add: serve_read_def)
  show "mv_data (serve_read q r) = mv_data r" unfolding e txn_fields by simp
  have "slots_ok (serve_read q r)" using assms unfolding wake_inv_def slots_ok_def e by (auto intro: less_imp_le)
  then show "wake_inv next (serve_read q r)" using assms unfolding wake_inv_def e txn_fields by (auto intro: less_imp_le)
qed

definition wake_post :: "ts_t \<Rightarrow> ReqEntry list \<Rightarrow> row_mvcc \<Rightarrow> ReqEntry list \<Rightarrow> row_mvcc \<Rightarrow> bool" where
  "wake_post next qs r qs' r' \<longleftrightarrow> wake_inv next r' \<and> length qs' = length qs \<and> (\<forall>q\<in>set qs'. mq_valid q \<longrightarrow> q \<in> set qs \<and> next < mq_ts q) \<and>
     (\<forall>t. same_ts t qs' \<le> same_ts t qs) \<and> mv_data r' = {v \<in> mv_data r. mv_oldest_wts r' \<le> fst v} \<and> mv_oldest_wts r \<le> mv_oldest_wts r' \<and>
     mv_latest_wts r' = mv_latest_wts r \<and> mv_latest_row r' = mv_latest_row r \<and> (mv_exists_prewrite r' \<longleftrightarrow> mv_exists_prewrite r \<or> same_ts next qs \<noteq> 0)"

lemma data_bounds: "mv_core r \<Longrightarrow> v \<in> mv_data r \<Longrightarrow> mv_oldest_wts r \<le> fst v \<and> fst v \<le> mv_latest_wts r"
  using mv_vers_bounds[of r] by (force simp: mv_data_def mv_core_def)

lemma data_oldest: "\<exists>d. (mv_oldest_wts r, d) \<in> mv_data r"
  by (force simp: mv_data_def mv_vers_def)

lemma wake_requests_ok:
  assumes "wake_inv next r" "\<forall>q\<in>set qs. mq_valid q \<longrightarrow> ts < mq_ts q \<and> (mq_type q = R_REQ \<and> mq_ts q \<noteq> next \<or> mq_type q = P_REQ \<and> next \<le> mq_ts q)"
    "same_ts next qs + (if mv_exists_prewrite r then 1 else 0) \<le> 1"
  shows "\<exists>qs' r'. wake_requests junk thread_cnt (Inr m) ts next qs r = Inr (qs', r') \<and> wake_post next qs r qs' r'"
  using assms
proof (induction qs arbitrary: r)
  case Nil
  then show ?case using data_bounds[of r] by (auto simp: wake_post_def wake_inv_def)
next
  case (Cons q qs)
  have step: "\<exists>qs' r'. wake_requests junk thread_cnt (Inr m) ts next (q # qs) r = Inr (qs', r') \<and> wake_post next (q # qs) r qs' r'"
    if one: "wake_requests junk thread_cnt (Inr m) ts next (q # qs) r =
         bind_res (wake_requests junk thread_cnt (Inr m) ts next qs r1) (\<lambda>(qs, r). Inr (q1 # qs, r))"
      "wake_inv next r1" "mv_data r1 = {v \<in> mv_data r. mv_oldest_wts r1 \<le> fst v}" "mv_oldest_wts r \<le> mv_oldest_wts r1"
      "mv_latest_wts r1 = mv_latest_wts r" "mv_latest_row r1 = mv_latest_row r" "mq_valid q1 \<Longrightarrow> q1 = q \<and> next < mq_ts q"
      "mv_exists_prewrite r1 \<longleftrightarrow> mv_exists_prewrite r \<or> mq_valid q \<and> mq_ts q = next" for q1 r1
  proof -
    have "same_ts next qs + (if mv_exists_prewrite r1 then 1 else 0) \<le> 1" using Cons.prems(3) one(8) by (auto split: if_splits)
    then obtain qs' r' where w: "wake_requests junk thread_cnt (Inr m) ts next qs r1 = Inr (qs', r')" "wake_post next qs r1 qs' r'"
      using Cons.IH[OF one(2)] Cons.prems(2) by auto
    have "{v \<in> {v \<in> mv_data r. mv_oldest_wts r1 \<le> fst v}. mv_oldest_wts r' \<le> fst v} = {v \<in> mv_data r. mv_oldest_wts r' \<le> fst v}"
      using w(2) unfolding wake_post_def by (auto intro: order_trans)
    moreover have "\<forall>t. same_ts t (q1 # qs') \<le> same_ts t (q # qs)" using w(2) one(7) unfolding wake_post_def by (auto intro: le_SucI)
    moreover have "mv_oldest_wts r \<le> mv_oldest_wts r'" using w(2) one(4) unfolding wake_post_def by (meson order_trans)
    ultimately have "wake_post next (q # qs) r (q1 # qs') r'" using w(2) one(3,5-8) unfolding wake_post_def by (auto split: if_splits)
    then show ?thesis using one(1) w(1) by simp
  qed
  have core: "mv_core r" "slots_ok r" using Cons.prems(1) by (simp_all add: wake_inv_def)
  have as: "mq_valid q \<longrightarrow> ts < mq_ts q" using Cons.prems(2) by simp
  have all: "mv_data r = {v \<in> mv_data r. mv_oldest_wts r \<le> fst v}" using data_bounds[OF core(1)] by auto
  consider "mq_valid q" "mq_type q = R_REQ" "mq_ts q < next" | "mq_valid q" "mq_type q = P_REQ" "mq_ts q = next"
    | "mq_valid q \<Longrightarrow> next < mq_ts q"
    using Cons.prems(2) linorder_less_linear[of "mq_ts q" "next"] by (metis leD list.set_intros(1))
  then show ?case
  proof cases
    case 1
    note sv = serve_read_ok[OF Cons.prems(1) 1(3)]
    show ?thesis by (rule step[of "serve_read q r" "q\<lparr>mq_valid := False\<rparr>"])
        (use 1 as sv all in \<open>auto simp: serve_read_def\<close>)
  next
    case 2
    then have ne: "\<not> mv_exists_prewrite r" using Cons.prems(3) by auto
    have b: "mv_latest_wts r < mq_ts q" "mv_max_served_rts r \<le> mq_ts q" using Cons.prems(1) 2(3) by (simp_all add: wake_inv_def)
    obtain p r1 where rs: "mv_reserveRow junk thread_cnt (Inr m) (mq_ts q) r = Inr (p, r1)"
      and rest: "let r' = mv_copy_latest p r1 in
    mv_core r' \<and> slots_ok r' \<and> mv_exists_prewrite r' \<and> mv_prewrite_ts r' = mq_ts q \<and> mh_row (mv_his r' ! mv_prewrite_his_id r') = Some p \<and>
    mv_rows r' p = mv_rows r (mv_latest_row r) \<and> mv_data r' = {v \<in> mv_data r. mv_oldest_wts r' \<le> fst v} \<and>
    (mv_oldest_wts r' \<noteq> mv_oldest_wts r \<longrightarrow> mv_num_versions r = mv_len r) \<and>
    mv_latest_wts r' = mv_latest_wts r \<and> mv_latest_row r' = mv_latest_row r \<and> mv_max_served_rts r' = mv_max_served_rts r \<and>
    mv_requests r' = mv_requests r \<and> mv_cur_row r' = mv_cur_row r \<and> mv_ts_ready r' = mv_ts_ready r"
      using reserve_copy[OF core ne b, of junk thread_cnt m] by blast
    define u where "u = mv_copy_latest p r1"
    have u: "mv_core u" "slots_ok u" "mv_exists_prewrite u" "mv_prewrite_ts u = next" "mv_data u = {v \<in> mv_data r. mv_oldest_wts u \<le> fst v}"
      "mv_latest_wts u = mv_latest_wts r" "mv_latest_row u = mv_latest_row r" "mv_max_served_rts u = mv_max_served_rts r"
      using rest 2(3) unfolding Let_def u_def[symmetric] by simp_all
    let ?u = "u\<lparr>mv_cur_row := (mv_cur_row u)(mq_txn q := Some p), mv_ts_ready := (mv_ts_ready u)(mq_txn q := True)\<rparr>"
    have "mv_oldest_wts r \<le> mv_oldest_wts u" using data_oldest[of u] data_bounds[OF core(1)] u(5) by fastforce
    moreover have "wake_inv next ?u" using u Cons.prems(1) unfolding wake_inv_def txn_fields by simp
    moreover have "wake_requests junk thread_cnt (Inr m) ts next (q # qs) r =
        bind_res (wake_requests junk thread_cnt (Inr m) ts next qs ?u) (\<lambda>(qs, r). Inr (q\<lparr>mq_valid := False\<rparr> # qs, r))"
      using 2 as rs by (simp add: Let_def u_def)
    ultimately show ?thesis using u 2 ne by (intro step[of ?u "q\<lparr>mq_valid := False\<rparr>"]) (simp_all add: txn_fields)
  next
    case 3
    show ?thesis by (rule step[of r q]) (use 3 as Cons.prems(1) all in \<open>auto\<close>)
  qed
qed

section \<open>The invariant\<close>

definition reqs_ok :: "row_mvcc \<Rightarrow> bool" where
  "reqs_ok r \<longleftrightarrow> mv_requests r \<noteq> [] \<and> (\<forall>q\<in>set (mv_requests r). mq_valid q \<longrightarrow> mv_exists_prewrite r \<and> mv_prewrite_ts r < mq_ts q \<and>
     mq_ts q \<noteq> UINT64_MAX \<and> (mq_type q = R_REQ \<or> mq_type q = P_REQ)) \<and> (\<forall>t. same_ts t (mv_requests r) \<le> 1)"

definition mvcc_inv :: "row_mvcc \<Rightarrow> bool" where
  "mvcc_inv r \<longleftrightarrow> mv_core r \<and> slots_ok r \<and> reqs_ok r"

lemma same_ts_unique:
  assumes "same_ts t qs \<le> 1" "q \<in> set qs" "q' \<in> set qs" "mq_valid q" "mq_valid q'" "mq_ts q = t" "mq_ts q' = t"
  shows "q = q'"
  using assms same_ts_zero by (induction qs) (auto split: if_splits)

lemma update_buffer_ok:
  assumes "mv_core r" "slots_ok r" "\<not> mv_exists_prewrite r" "mv_latest_wts r \<le> ts" "mv_max_served_rts r \<le> ts" "ts < UINT64_MAX"
    "mv_requests r \<noteq> []" "\<forall>t. same_ts t (mv_requests r) \<le> 1"
    "\<forall>q\<in>set (mv_requests r). mq_valid q \<longrightarrow> ts < mq_ts q \<and> mq_ts q \<noteq> UINT64_MAX \<and> (mq_type q = R_REQ \<or> mq_type q = P_REQ)"
  shows "\<exists>r'. mv_update_buffer junk thread_cnt (Inr m) ts r = Inr r' \<and> mvcc_inv r' \<and> mv_data r' = {v \<in> mv_data r. mv_oldest_wts r' \<le> fst v} \<and>
    mv_latest_wts r' = mv_latest_wts r \<and> mv_latest_row r' = mv_latest_row r"
proof -
  let ?qs = "mv_requests r"
  obtain n where n: "n = next_prewrite ts UINT64_MAX ?qs" by blast
  have sp: "\<forall>q\<in>set ?qs. mq_valid q \<and> mq_type q = P_REQ \<and> ts < mq_ts q \<longrightarrow> n \<le> mq_ts q"
      "n = UINT64_MAX \<or> (\<exists>q\<in>set ?qs. mq_valid q \<and> mq_type q = P_REQ \<and> ts < mq_ts q \<and> mq_ts q = n)"
    using next_prewrite_spec[of ts UINT64_MAX ?qs] n by auto
  have tn: "ts < n" using sp(2) assms(6) by auto
  have "wake_inv n r" using assms(1-5) tn unfolding wake_inv_def by (auto intro: le_less_trans order_trans less_imp_le)
  moreover have "mq_ts q \<noteq> n" if "q \<in> set ?qs" "mq_valid q" "mq_type q = R_REQ" for q
    using sp(2) assms(8,9) that same_ts_unique[of n ?qs q] by (metis TsType.distinct(3))
  then have "\<forall>q\<in>set ?qs. mq_valid q \<longrightarrow> ts < mq_ts q \<and> (mq_type q = R_REQ \<and> mq_ts q \<noteq> n \<or> mq_type q = P_REQ \<and> n \<le> mq_ts q)"
    using sp(1) assms(9) by blast
  ultimately obtain qs' r1 where w: "wake_requests junk thread_cnt (Inr m) ts n ?qs r = Inr (qs', r1)" "wake_post n ?qs r qs' r1"
    using wake_requests_ok[of n r ?qs ts junk thread_cnt m] assms(3,8) by auto
  define r' where "r' = r1\<lparr>mv_requests := qs'\<rparr>"
  have "mv_exists_prewrite r1 \<and> mv_prewrite_ts r1 < mq_ts q \<and> mq_ts q \<noteq> UINT64_MAX \<and> (mq_type q = R_REQ \<or> mq_type q = P_REQ)"
    if "q \<in> set qs'" "mq_valid q" for q
  proof -
    have q: "q \<in> set ?qs" "n < mq_ts q" using w(2) that unfolding wake_post_def by auto
    then have "n \<noteq> UINT64_MAX" using max_word_max[of "mq_ts q"] by (metis leD)
    then have "same_ts n ?qs \<noteq> 0" using sp(2) by (auto simp: same_ts_zero)
    then have "mv_exists_prewrite r1" "mv_prewrite_ts r1 = n" using w(2) unfolding wake_post_def wake_inv_def by auto
    then show ?thesis using q assms(9) that(2) by auto
  qed
  moreover have "\<forall>t. same_ts t qs' \<le> 1" using w(2) assms(8) unfolding wake_post_def by (meson order_trans)
  moreover have "qs' \<noteq> []" using w(2) assms(7) unfolding wake_post_def by auto
  ultimately have "reqs_ok r'" unfolding reqs_ok_def r'_def by simp
  then have "mvcc_inv r'" using w(2) unfolding mvcc_inv_def wake_post_def wake_inv_def r'_def txn_fields by simp
  moreover have "mv_update_buffer junk thread_cnt (Inr m) ts r = Inr r'" using w(1) n by (simp add: mv_update_buffer_def r'_def)
  moreover have "mv_data r' = mv_data r1" "mv_oldest_wts r' = mv_oldest_wts r1" "mv_latest_wts r' = mv_latest_wts r1" "mv_latest_row r' = mv_latest_row r1"
    by (simp_all add: r'_def txn_fields)
  ultimately show ?thesis using w(2) unfolding wake_post_def by (intro exI[of _ r']) simp
qed

lemma req_put_spec:
  assumes "\<exists>q\<in>set qs. \<not> mq_valid q"
  shows "\<exists>qs'. req_put type ts txn qs = Some qs' \<and> qs' \<noteq> [] \<and> (\<forall>t. same_ts t qs' = same_ts t qs + (if t = ts then 1 else 0)) \<and>
    (\<forall>q\<in>set qs'. mq_valid q \<longrightarrow> q \<in> set qs \<or> mq_ts q = ts \<and> mq_type q = type)"
  using assms
proof (induction qs)
  case (Cons q qs)
  show ?case
  proof (cases "mq_valid q")
    case True
    then obtain qs' where "req_put type ts txn qs = Some qs'" "\<forall>t. same_ts t qs' = same_ts t qs + (if t = ts then 1 else 0)"
      "\<forall>q\<in>set qs'. mq_valid q \<longrightarrow> q \<in> set qs \<or> mq_ts q = ts \<and> mq_type q = type" using Cons by auto
    then show ?thesis using True by auto
  qed auto
qed simp

lemma mv_buffer_req_ok:
  assumes "mvcc_inv r" "mv_exists_prewrite r" "mv_prewrite_ts r < ts" "ts \<noteq> UINT64_MAX" "same_ts ts (mv_requests r) = 0" "type = R_REQ \<or> type = P_REQ"
  shows "\<exists>r'. mv_buffer_req junkq type ts txn r = Inr r' \<and>
    (\<forall>b. mvcc_inv (r'\<lparr>mv_ts_ready := b\<rparr>) \<and> mv_data (r'\<lparr>mv_ts_ready := b\<rparr>) = mv_data r) \<and>
    mv_oldest_wts r' = mv_oldest_wts r \<and> mv_latest_wts r' = mv_latest_wts r \<and> mv_latest_row r' = mv_latest_row r"
proof -
  have post: "mvcc_inv (r\<lparr>mv_requests := qs', mv_ts_ready := b\<rparr>)"
    if "qs' \<noteq> []" "\<forall>t. same_ts t qs' = same_ts t (mv_requests r) + (if t = ts then 1 else 0)"
      "\<forall>q\<in>set qs'. mq_valid q \<longrightarrow> q \<in> set (mv_requests r) \<or> mq_ts q = ts \<and> mq_type q = type" for qs' b
  proof -
    have "\<forall>t. same_ts t qs' \<le> 1" using that(2) assms(1,5) unfolding mvcc_inv_def reqs_ok_def by simp
    then have "reqs_ok (r\<lparr>mv_requests := qs', mv_ts_ready := b\<rparr>)" using that(1,3) assms unfolding mvcc_inv_def reqs_ok_def by auto
    moreover have "mv_core (r\<lparr>mv_requests := qs', mv_ts_ready := b\<rparr>)" "slots_ok (r\<lparr>mv_requests := qs', mv_ts_ready := b\<rparr>)"
      using assms(1) by (simp_all add: mvcc_inv_def txn_fields)
    ultimately show ?thesis by (simp add: mvcc_inv_def)
  qed
  have dat: "mv_data (r\<lparr>mv_requests := qs', mv_ts_ready := b\<rparr>) = mv_data r" for qs' b
    by (simp add: txn_fields)
  show ?thesis
  proof (cases "req_put type ts txn (mv_requests r)")
    case (Some qs')
    have "\<exists>q\<in>set qs. \<not> mq_valid q" if "req_put type ts txn qs = Some qs'" for qs qs' using that by (induction qs arbitrary: qs') (auto split: if_splits)
    then have "\<exists>q\<in>set (mv_requests r). \<not> mq_valid q" using Some by blast
    then show ?thesis using req_put_spec[of "mv_requests r" type ts txn] Some post dat by (auto simp: mv_buffer_req_def)
  next
    case None
    let ?d = "mv_requests r @ replicate (length (mv_requests r)) (junkq\<lparr>mq_valid := False\<rparr>)"
    have inv: "\<exists>q\<in>set ?d. \<not> mq_valid q" using assms(1) by (auto simp: mvcc_inv_def reqs_ok_def)
    have "same_ts t ?d = same_ts t (mv_requests r)" for t by (simp add: same_ts_def)
    then obtain qs' where q: "req_put type ts txn ?d = Some qs'" "qs' \<noteq> []" "\<forall>t. same_ts t qs' = same_ts t (mv_requests r) + (if t = ts then 1 else 0)"
        "\<forall>q\<in>set qs'. mq_valid q \<longrightarrow> q \<in> set (mv_requests r) \<or> mq_ts q = ts \<and> mq_type q = type"
      using req_put_spec[OF inv, of type ts txn] by (fastforce simp: Un_iff)
    then show ?thesis using post[OF q(2-4)] dat None by (simp add: mv_buffer_req_def double_requests_def Let_def)
  qed
qed

text \<open>The state that a \<open>W_REQ\<close> and an \<open>XP_REQ\<close> hand to \<open>update_buffer\<close>.\<close>

lemma slots_idle: "none_reserved r \<Longrightarrow> \<not> mv_exists_prewrite r \<Longrightarrow> slots_ok r"
  by (simp add: slots_ok_def none_reserved_def)

lemma slots_release:
  assumes "slots_ok r" "i = mv_prewrite_his_id r" "i < mv_len r" "mv_his r' = (mv_his r)[i := e]" "mh_valid e \<or> \<not> mh_reserved e" "\<not> mv_exists_prewrite r'"
  shows "slots_ok r'"
proof -
  have "\<not> mh_reserved (mv_his r' ! k)" if "k < mv_len r'" "\<not> mh_valid (mv_his r' ! k)" for k
    using assms(1-5) that unfolding slots_ok_def by (metis length_list_update nth_list_update_eq nth_list_update_neq)
  then show ?thesis using assms(6) by (intro slots_idle) (simp_all add: none_reserved_def)
qed

lemma core_commit:
  assumes "mvcc_inv r" "mv_exists_prewrite r" "i = mv_prewrite_his_id r" "mh_row (mv_his r ! i) = Some p" "mv_prewrite_ts r = ts"
    "r' = r\<lparr>mv_his := (mv_his r)[i := (mv_his r ! i)\<lparr>mh_valid := True, mh_ts := ts\<rparr>],
      mv_latest_wts := ts, mv_latest_row := p, mv_exists_prewrite := False, mv_num_versions := mv_num_versions r + 1\<rparr>"
  shows "mv_core r'" "slots_ok r'" "mv_data r' = insert (ts, mv_rows r p) (mv_data r)"
proof -
  have i: "i < mv_len r" "\<not> mh_valid (mv_his r ! i)" "mv_latest_wts r < ts" using assms(1-3,5) by (auto simp: mvcc_inv_def slots_ok_def)
  have e: "entries_ok r" and t: "tuples_inj r" and l: "(mv_latest_wts r, mv_latest_row r) \<in> mv_vers r" using assms(1) by (auto simp: mvcc_inv_def mv_core_def)
  have nth: "mv_his r' ! k = (if k = i then (mv_his r ! i)\<lparr>mh_valid := True, mh_ts := ts\<rparr> else mv_his r ! k)" if "k < mv_len r" for k
    using that i(1) by (simp add: assms(6))
  have len: "mv_len r' = mv_len r" by (simp add: assms(6))
  have old: "mv_oldest_wts r \<le> mv_latest_wts r" using mv_vers_bounds[OF e l l] by simp
  have vs: "mv_vers r' = insert (ts, p) (mv_vers r)"
  proof -
    have "(k < mv_len r' \<and> mh_valid (mv_his r' ! k) \<and> mh_row (mv_his r' ! k) = Some q \<and> u = mh_ts (mv_his r' ! k)) \<longleftrightarrow>
        k = i \<and> u = ts \<and> q = p \<or> (k < mv_len r \<and> mh_valid (mv_his r ! k) \<and> mh_row (mv_his r ! k) = Some q \<and> u = mh_ts (mv_his r ! k))" for k q u
      using nth[of k] len i assms(4) by (cases "k = i") auto
    then have "{(mh_ts (mv_his r' ! k), q) | k q. k < mv_len r' \<and> mh_valid (mv_his r' ! k) \<and> mh_row (mv_his r' ! k) = Some q} =
        insert (ts, p) {(mh_ts (mv_his r ! k), q) | k q. k < mv_len r \<and> mh_valid (mv_his r ! k) \<and> mh_row (mv_his r ! k) = Some q}"
      by (intro set_eqI iffI) blast+
    moreover have "mv_oldest_wts r' = mv_oldest_wts r" "mv_row r' = mv_row r" by (simp_all add: assms(6))
    ultimately show ?thesis unfolding mv_vers_def by auto
  qed
  have "{k. k < mv_len r' \<and> mh_valid (mv_his r' ! k)} = insert i {k. k < mv_len r \<and> mh_valid (mv_his r ! k)}"
    using nth len i(1) by auto
  then have card: "mv_num_versions r' = card {k. k < mv_len r' \<and> mh_valid (mv_his r' ! k)}"
    using i(2) e by (simp add: entries_ok_def assms(6))
  have each: "mv_oldest_wts r < mh_ts (mv_his r' ! k) \<and> mh_ts (mv_his r' ! k) \<le> ts \<and> mh_row (mv_his r' ! k) \<noteq> None \<and> (mh_ts (mv_his r' ! k) = ts \<longleftrightarrow> k = i)"
    if "k < mv_len r" "mh_valid (mv_his r' ! k)" for k
  proof (cases "k = i")
    case True
    then show ?thesis using nth[OF that(1)] old i(3) assms(4) by (simp add: le_less_trans)
  next
    case False
    then have "mv_oldest_wts r < mh_ts (mv_his r ! k)" "mh_ts (mv_his r ! k) \<le> mv_latest_wts r" "mh_row (mv_his r ! k) \<noteq> None"
      using e that nth[OF that(1)] unfolding entries_ok_def by auto
    then show ?thesis using False nth[OF that(1)] i(3) by (auto intro: order_trans less_imp_le)
  qed
  have others: "k = j" if "k < mv_len r" "j < mv_len r" "k \<noteq> i" "j \<noteq> i" "mh_valid (mv_his r' ! k)" "mh_valid (mv_his r' ! j)" "mh_ts (mv_his r' ! k) = mh_ts (mv_his r' ! j)" for k j
    using e that nth[OF that(1)] nth[OF that(2)] unfolding entries_ok_def by auto
  have inj: "k = j" if "k < mv_len r" "j < mv_len r" "mh_valid (mv_his r' ! k)" "mh_valid (mv_his r' ! j)" "mh_ts (mv_his r' ! k) = mh_ts (mv_his r' ! j)" for k j
    using each[OF that(1,3)] each[OF that(2,4)] others[OF that(1,2) _ _ that(3-5)] that(5) by metis
  have lo: "mv_latest_wts r' = ts" "mv_oldest_wts r' = mv_oldest_wts r" "0 < mv_len r" using e by (simp_all add: assms(6) entries_ok_def)
  have "entries_ok r'" unfolding entries_ok_def card lo(1,2) len
    by (intro conjI allI impI refl lo(3) inj) (use each in blast)+
  moreover have "tuples_inj r'"
  proof -
    have "mh_row (mv_his r' ! k) = mh_row (mv_his r ! k)" if "k < mv_len r" for k using nth[OF that] by simp
    then show ?thesis using t unfolding tuples_inj_def len by (simp add: assms(6))
  qed
  ultimately show "mv_core r'" using vs unfolding mv_core_def by (simp add: assms(6))
  show "slots_ok r'" using assms(1) i(1) by (intro slots_release[of r i r' "(mv_his r ! i)\<lparr>mh_valid := True, mh_ts := ts\<rparr>"] assms(3)) (simp_all add: mvcc_inv_def assms(6))
  have "mv_rows r' = mv_rows r" by (simp add: assms(6))
  then show "mv_data r' = insert (ts, mv_rows r p) (mv_data r)" unfolding mv_data_def vs by simp
qed

lemma core_cancel:
  assumes "mvcc_inv r" "mv_exists_prewrite r" "i = mv_prewrite_his_id r"
    "r' = r\<lparr>mv_his := (mv_his r)[i := (mv_his r ! i)\<lparr>mh_valid := False, mh_reserved := False\<rparr>], mv_exists_prewrite := False\<rparr>"
  shows "mv_core r'" "slots_ok r'" "mv_data r' = mv_data r"
proof -
  have i: "i < mv_len r" "\<not> mh_valid (mv_his r ! i)" using assms(1-3) by (auto simp: mvcc_inv_def slots_ok_def)
  have core: "mv_core r" using assms(1) by (simp add: mvcc_inv_def)
  note u = core_idle_upd[OF core i, of "(mv_his r ! i)\<lparr>mh_valid := False, mh_reserved := False\<rparr>" r']
  show "mv_core r'" by (rule u(1)) (simp_all add: assms(4))
  have "mv_vers r' = mv_vers r" by (rule u(2)) (simp_all add: assms(4))
  then show "mv_data r' = mv_data r" by (simp add: mv_data_def assms(4))
  show "slots_ok r'" using assms(1) i(1)
    by (intro slots_release[of r i r' "(mv_his r ! i)\<lparr>mh_valid := False, mh_reserved := False\<rparr>"] assms(3)) (simp_all add: mvcc_inv_def assms(4))
qed

section \<open>Access\<close>

text \<open>Timestamps are unique, below \<open>UINT64_MAX\<close>, and only the owner of the prewrite ends it.\<close>

definition mv_legal :: "row_mvcc \<Rightarrow> ts_t \<Rightarrow> TsType \<Rightarrow> mv_ptr \<Rightarrow> bool" where
  "mv_legal r ts type row \<longleftrightarrow> ts \<noteq> UINT64_MAX \<and>
     (if type = R_REQ \<or> type = P_REQ
      then same_ts ts (mv_requests r) = 0 \<and> ts \<notin> fst ` mv_vers r \<and> (mv_exists_prewrite r \<longrightarrow> mv_prewrite_ts r \<noteq> ts)
      else mv_exists_prewrite r \<and> mv_prewrite_ts r = ts \<and> mh_row (mv_his r ! mv_prewrite_his_id r) = Some row)"

lemma all_data: "mv_core r \<Longrightarrow> mv_data r = {v \<in> mv_data r. mv_oldest_wts r \<le> fst v}"
  using data_bounds[of r] by auto

lemma latest_used: "mv_core r \<Longrightarrow> ts \<notin> fst ` mv_vers r \<Longrightarrow> ts \<noteq> mv_latest_wts r"
  using latest_vers[of r] by force

lemma mv_read_ok:
  assumes "mvcc_inv r" "mv_legal r ts R_REQ row"
  shows "\<exists>rc r'. mv_read junkq txn ts r = Inr (rc, r') \<and> mvcc_inv r' \<and> mv_data r' = mv_data r \<and> mv_oldest_wts r' = mv_oldest_wts r"
proof -
  have core: "mv_core r" using assms(1) by (simp add: mvcc_inv_def)
  have lg: "ts \<noteq> UINT64_MAX" "same_ts ts (mv_requests r) = 0" "ts \<notin> fst ` mv_vers r" "mv_exists_prewrite r \<longrightarrow> mv_prewrite_ts r \<noteq> ts"
    using assms(2) by (simp_all add: mv_legal_def)
  consider "ts < mv_oldest_wts r" | "\<not> ts < mv_oldest_wts r" "mv_latest_wts r < ts" "mv_exists_prewrite r \<and> mv_prewrite_ts r < ts"
    | "\<not> ts < mv_oldest_wts r" "mv_latest_wts r < ts" "\<not> (mv_exists_prewrite r \<and> mv_prewrite_ts r < ts)"
    | "\<not> ts < mv_oldest_wts r" "\<not> mv_latest_wts r < ts" by blast
  then show ?thesis
  proof cases
    case 1
    then show ?thesis using assms(1) by (simp add: mv_read_def)
  next
    case 2
    then show ?thesis using mv_buffer_req_ok[OF assms(1) _ _ lg(1,2), of R_REQ junkq txn] by (auto simp: mv_read_def)
  next
    case 3
    let ?r = "r\<lparr>mv_cur_row := (mv_cur_row r)(txn := Some (mv_latest_row r)), mv_max_served_rts := (if mv_max_served_rts r < ts then ts else mv_max_served_rts r)\<rparr>"
    have "slots_ok ?r" using assms(1) 3(3) unfolding mvcc_inv_def slots_ok_def by (auto simp: not_less)
    moreover have "reqs_ok ?r" using assms(1) unfolding mvcc_inv_def reqs_ok_def by simp
    ultimately have "mvcc_inv ?r" using core by (simp add: mvcc_inv_def txn_fields)
    then show ?thesis using 3 by (auto simp: mv_read_def txn_fields)
  next
    case 4
    have "reqs_ok (r\<lparr>mv_cur_row := c\<rparr>)" for c using assms(1) unfolding mvcc_inv_def reqs_ok_def by simp
    then show ?thesis using 4 assms(1) by (auto simp: mv_read_def mvcc_inv_def txn_fields)
  qed
qed

lemma mv_prewrite_ok:
  assumes "mvcc_inv r" "mv_legal r ts P_REQ row"
  shows "\<exists>rc r'. mv_prewrite junk junkq thread_cnt (Inr m) txn ts r = Inr (rc, r') \<and> mvcc_inv r' \<and> mv_data r' = {v \<in> mv_data r. mv_oldest_wts r' \<le> fst v} \<and>
    (rc = RCOK \<longrightarrow> (\<exists>p. mv_cur_row r' txn = Some p \<and> mv_legal r' ts W_REQ p \<and> mv_rows r' p = mv_rows r (mv_latest_row r)))"
proof -
  have core: "mv_core r" "slots_ok r" using assms(1) by (simp_all add: mvcc_inv_def)
  have lg: "ts \<noteq> UINT64_MAX" "same_ts ts (mv_requests r) = 0" "ts \<notin> fst ` mv_vers r" "mv_exists_prewrite r \<longrightarrow> mv_prewrite_ts r \<noteq> ts"
    using assms(2) by (simp_all add: mv_legal_def)
  let ?bad = "ts < mv_latest_wts r \<or> ts < mv_max_served_rts r \<or> mv_exists_prewrite r \<and> ts < mv_prewrite_ts r"
  consider ?bad | "\<not> ?bad" "mv_exists_prewrite r" | "\<not> ?bad" "\<not> mv_exists_prewrite r" by blast
  then show ?thesis
  proof cases
    case 1
    then have "mv_prewrite junk junkq thread_cnt (Inr m) txn ts r = Inr (Abort, r)" unfolding mv_prewrite_def by (rule if_P)
    then show ?thesis using assms(1) all_data[OF core(1)] by simp
  next
    case 2
    then have "mv_prewrite_ts r < ts" using lg(4) by (metis linorder_less_linear)
    then obtain r' where b: "mv_buffer_req junkq P_REQ ts txn r = Inr r'"
        "\<forall>b. mvcc_inv (r'\<lparr>mv_ts_ready := b\<rparr>) \<and> mv_data (r'\<lparr>mv_ts_ready := b\<rparr>) = mv_data r" "mv_oldest_wts r' = mv_oldest_wts r"
      using mv_buffer_req_ok[OF assms(1) 2(2) _ lg(1,2), of P_REQ junkq txn] by blast
    then show ?thesis using 2 all_data[OF core(1)] by (simp add: mv_prewrite_def)
  next
    case 3
    have "mv_latest_wts r < ts" "mv_max_served_rts r \<le> ts" using 3(1) latest_used[OF core(1) lg(3)] by (auto simp: not_less order_less_le)
    then obtain p r1 where rs: "mv_reserveRow junk thread_cnt (Inr m) ts r = Inr (p, r1)"
      and rest: "let r' = mv_copy_latest p r1 in
    mv_core r' \<and> slots_ok r' \<and> mv_exists_prewrite r' \<and> mv_prewrite_ts r' = ts \<and> mh_row (mv_his r' ! mv_prewrite_his_id r') = Some p \<and>
    mv_rows r' p = mv_rows r (mv_latest_row r) \<and> mv_data r' = {v \<in> mv_data r. mv_oldest_wts r' \<le> fst v} \<and>
    (mv_oldest_wts r' \<noteq> mv_oldest_wts r \<longrightarrow> mv_num_versions r = mv_len r) \<and>
    mv_latest_wts r' = mv_latest_wts r \<and> mv_latest_row r' = mv_latest_row r \<and> mv_max_served_rts r' = mv_max_served_rts r \<and>
    mv_requests r' = mv_requests r \<and> mv_cur_row r' = mv_cur_row r \<and> mv_ts_ready r' = mv_ts_ready r"
      using reserve_copy[OF core 3(2), of ts junk thread_cnt m] by blast
    define u where "u = mv_copy_latest p r1"
    have u: "mv_core u" "slots_ok u" "mv_exists_prewrite u" "mv_prewrite_ts u = ts" "mh_row (mv_his u ! mv_prewrite_his_id u) = Some p"
      "mv_rows u p = mv_rows r (mv_latest_row r)" "mv_data u = {v \<in> mv_data r. mv_oldest_wts u \<le> fst v}" "mv_requests u = mv_requests r"
      using rest unfolding Let_def u_def[symmetric] by simp_all
    let ?u = "u\<lparr>mv_cur_row := (mv_cur_row u)(txn := Some p)\<rparr>"
    have "\<forall>q\<in>set (mv_requests r). \<not> mq_valid q" using assms(1) 3(2) unfolding mvcc_inv_def reqs_ok_def by blast
    then have "reqs_ok ?u" using assms(1) u(8) unfolding mvcc_inv_def reqs_ok_def by simp
    then have "mvcc_inv ?u" using u(1,2) by (simp add: mvcc_inv_def txn_fields)
    moreover have "mv_prewrite junk junkq thread_cnt (Inr m) txn ts r = Inr (RCOK, ?u)" using 3 rs by (auto simp: mv_prewrite_def u_def Let_def)
    moreover have "mv_legal ?u ts W_REQ p" using u(3-5) lg(1) by (simp add: mv_legal_def)
    ultimately show ?thesis using u(6,7) by (simp add: txn_fields)
  qed
qed

lemma mv_finish_ok:
  assumes "mvcc_inv r" "mv_legal r ts type row" "type = W_REQ \<or> type = XP_REQ"
  shows "\<exists>r'. mvcc_access junk junkq thread_cnt (Inr m) txn ts type row r = Inr (RCOK, r') \<and> mvcc_inv r' \<and>
    mv_data r' = {v \<in> (if type = W_REQ then insert (ts, mv_rows r row) (mv_data r) else mv_data r). mv_oldest_wts r' \<le> fst v}"
proof -
  have lg: "ts \<noteq> UINT64_MAX" "mv_exists_prewrite r" "mv_prewrite_ts r = ts" "mh_row (mv_his r ! mv_prewrite_his_id r) = Some row"
    using assms(2,3) by (auto simp: mv_legal_def)
  obtain i where i: "i = mv_prewrite_his_id r" by blast
  have sl: "i < mv_len r" "mv_latest_wts r < ts" "mv_max_served_rts r \<le> ts" using assms(1) lg(2,3) i by (simp_all add: mvcc_inv_def slots_ok_def)
  have ts: "ts < UINT64_MAX" using lg(1) max_word_max[of ts] by (simp add: order_less_le)
  have rq: "mv_requests r \<noteq> []" "\<forall>t. same_ts t (mv_requests r) \<le> 1"
    "\<forall>q\<in>set (mv_requests r). mq_valid q \<longrightarrow> ts < mq_ts q \<and> mq_ts q \<noteq> UINT64_MAX \<and> (mq_type q = R_REQ \<or> mq_type q = P_REQ)"
    using assms(1) lg(3) unfolding mvcc_inv_def reqs_ok_def by auto
  show ?thesis
  proof (cases "type = W_REQ")
    case True
    define u where "u = r\<lparr>mv_his := (mv_his r)[i := (mv_his r ! i)\<lparr>mh_valid := True, mh_ts := ts\<rparr>],
      mv_latest_wts := ts, mv_latest_row := row, mv_exists_prewrite := False, mv_num_versions := mv_num_versions r + 1\<rparr>"
    note c = core_commit[OF assms(1) lg(2) i lg(4)[folded i] lg(3) u_def]
    have "\<exists>r'. mv_update_buffer junk thread_cnt (Inr m) ts u = Inr r' \<and> mvcc_inv r' \<and> mv_data r' = {v \<in> mv_data u. mv_oldest_wts r' \<le> fst v} \<and>
        mv_latest_wts r' = mv_latest_wts u \<and> mv_latest_row r' = mv_latest_row u"
      by (rule update_buffer_ok[OF c(1,2)]) (use sl ts rq in \<open>simp_all add: u_def\<close>)
    then show ?thesis using True sl(1,2) lg(4) c(3) by (auto simp: mvcc_access_def mv_write_def Let_def i u_def)
  next
    case False
    define u where "u = r\<lparr>mv_his := (mv_his r)[i := (mv_his r ! i)\<lparr>mh_valid := False, mh_reserved := False\<rparr>], mv_exists_prewrite := False\<rparr>"
    note c = core_cancel[OF assms(1) lg(2) i u_def]
    have "\<exists>r'. mv_update_buffer junk thread_cnt (Inr m) ts u = Inr r' \<and> mvcc_inv r' \<and> mv_data r' = {v \<in> mv_data u. mv_oldest_wts r' \<le> fst v} \<and>
        mv_latest_wts r' = mv_latest_wts u \<and> mv_latest_row r' = mv_latest_row u"
      by (rule update_buffer_ok[OF c(1,2)]) (use sl ts rq in \<open>simp_all add: u_def less_imp_le\<close>)
    then show ?thesis using False assms(3) sl(1) lg(4) c(3) by (auto simp: mvcc_access_def mv_cancel_def Let_def i u_def)
  qed
qed

text \<open>
  When an access reserves an entry: a prewrite that is granted at once, and the end of a write
  behind which another prewrite waits. Only then is the manager asked for its minimum timestamp.
\<close>

definition mv_reserves :: "row_mvcc \<Rightarrow> ts_t \<Rightarrow> TsType \<Rightarrow> bool" where
  "mv_reserves r ts type = (case type of
       R_REQ \<Rightarrow> False
     | P_REQ \<Rightarrow> \<not> (ts < mv_latest_wts r \<or> ts < mv_max_served_rts r) \<and> \<not> mv_exists_prewrite r
     | _ \<Rightarrow> \<exists>q\<in>set (mv_requests r). mq_valid q \<and> mq_type q = P_REQ)"

lemma wake_requests_no_prewrite:
  "\<forall>q\<in>set qs. mq_valid q \<longrightarrow> mq_type q \<noteq> P_REQ \<Longrightarrow>
     wake_requests junk thread_cnt g ts next qs r = wake_requests junk thread_cnt g' ts next qs r"
proof (induction qs arbitrary: r)
  case (Cons q qs)
  then have IH: "wake_requests junk thread_cnt g ts next qs r = wake_requests junk thread_cnt g' ts next qs r" for r by simp
  show ?case using Cons.prems by (cases "mq_type q = P_REQ") (simp_all add: IH assert_res_def)
qed simp

lemma wake_requests_assert:
  "\<exists>q\<in>set qs. mq_valid q \<and> mq_type q = P_REQ \<and> mq_ts q = next \<Longrightarrow>
     wake_requests junk thread_cnt (Inl Assert_Fail) ts next qs r = Inl Assert_Fail"
proof (induction qs arbitrary: r)
  case (Cons q qs)
  have rs: "mv_reserveRow junk thread_cnt (Inl Assert_Fail) t r = Inl Assert_Fail" for t r
    by (simp add: mv_reserveRow_def assert_res_def)
  show ?case
  proof (cases "mq_valid q \<and> mq_type q = P_REQ \<and> mq_ts q = next")
    case False
    then have "wake_requests junk thread_cnt (Inl Assert_Fail) ts next qs r = Inl Assert_Fail" for r using Cons by auto
    then show ?thesis by (auto simp: rs assert_res_def)
  qed (simp add: rs assert_res_def)
qed simp

lemma mvcc_access_no_reserve:
  "\<not> mv_reserves r ts type \<Longrightarrow>
     mvcc_access junk junkq thread_cnt g txn ts type row r = mvcc_access junk junkq thread_cnt g' txn ts type row r"
  using wake_requests_no_prewrite[of "mv_requests r" junk thread_cnt g ts _ _ g']
  by (cases type) (auto simp: mvcc_access_def mv_prewrite_def mv_write_def mv_cancel_def mv_update_buffer_def mv_reserves_def Let_def)

lemma mvcc_access_reserve_assert:
  assumes "mvcc_inv r" "mv_legal r ts type row" "mv_reserves r ts type"
  shows "mvcc_access junk junkq thread_cnt ManagerEnc_get_min_ts txn ts type row r = Inl Assert_Fail"
proof (cases "type = P_REQ")
  case True
  then show ?thesis
    using assms(3) by (auto simp: mvcc_access_def mv_prewrite_def mv_reserveRow_def mv_reserves_def ManagerEnc_get_min_ts_def assert_res_def)
next
  case False
  then have ty: "type = W_REQ \<or> type = XP_REQ" using assms(3) by (cases type) (auto simp: mv_reserves_def)
  let ?n = "next_prewrite ts UINT64_MAX (mv_requests r)"
  obtain q where q: "q \<in> set (mv_requests r)" "mq_valid q" "mq_type q = P_REQ" using assms(3) ty by (auto simp: mv_reserves_def)
  have "mv_prewrite_ts r = ts" using assms(2) ty by (auto simp: mv_legal_def)
  then have "ts < mq_ts q" "mq_ts q \<noteq> UINT64_MAX" using assms(1) q unfolding mvcc_inv_def reqs_ok_def by auto
  then have "?n \<noteq> UINT64_MAX" using next_prewrite_spec[of ts UINT64_MAX "mv_requests r"] q max_word_max[of "mq_ts q"]
    by (metis order_antisym)
  then have "\<exists>q\<in>set (mv_requests r). mq_valid q \<and> mq_type q = P_REQ \<and> mq_ts q = ?n"
    using next_prewrite_spec[of ts UINT64_MAX "mv_requests r"] by blast
  then have "wake_requests junk thread_cnt (Inl Assert_Fail) ts ?n (mv_requests r) u = Inl Assert_Fail" for u
    by (rule wake_requests_assert)
  moreover have "mv_prewrite_his_id r < mv_len r"
    using assms(1,2) ty by (auto simp: mvcc_inv_def slots_ok_def mv_legal_def)
  ultimately show ?thesis
    using ty by (auto simp: mvcc_access_def mv_write_def mv_cancel_def mv_update_buffer_def ManagerEnc_get_min_ts_def Let_def assert_res_def)
qed

text \<open>
  What a good access achieves: it ends; the invariant holds again, so whoever still waits does so
  behind a pending older write whose end will wake it; a write adds exactly one version, with the data
  its transaction put into the tuple it was handed, and nothing else adds, changes or reorders
  versions: they only disappear from the old end; and a granted prewrite is handed a copy of the
  newest version, which it may commit.
\<close>

definition mv_safe_result :: "row_mvcc \<Rightarrow> mv_txn \<Rightarrow> ts_t \<Rightarrow> TsType \<Rightarrow> mv_ptr \<Rightarrow> (RC \<times> row_mvcc) res \<Rightarrow> bool" where
  "mv_safe_result r txn ts type row res \<longleftrightarrow> (\<exists>rc r'. res = Inr (rc, r') \<and> mvcc_inv r' \<and>
    (\<forall>q\<in>set (mv_requests r'). mq_valid q \<longrightarrow> mv_exists_prewrite r' \<and> mv_prewrite_ts r' < mq_ts q) \<and>
    mv_data r' = {v \<in> (if type = W_REQ then insert (ts, mv_rows r row) (mv_data r) else mv_data r). mv_oldest_wts r' \<le> fst v} \<and>
    (type = P_REQ \<and> rc = RCOK \<longrightarrow> (\<exists>p. mv_cur_row r' txn = Some p \<and> mv_legal r' ts W_REQ p \<and> mv_rows r' p = mv_rows r (mv_latest_row r))))"

lemma mvcc_access_result:
  assumes "mvcc_inv r" "mv_legal r ts type row"
  shows "mv_safe_result r txn ts type row (mvcc_access junk junkq thread_cnt (Inr min_ts) txn ts type row r)"
proof -
  have wait: "\<forall>q\<in>set (mv_requests r'). mq_valid q \<longrightarrow> mv_exists_prewrite r' \<and> mv_prewrite_ts r' < mq_ts q" if "mvcc_inv r'" for r'
    using that unfolding mvcc_inv_def reqs_ok_def by blast
  have core: "mv_core r" using assms(1) by (simp add: mvcc_inv_def)
  show ?thesis
    unfolding mv_safe_result_def
  proof (cases type)
    case R_REQ
    obtain rc r' where "mv_read junkq txn ts r = Inr (rc, r')" "mvcc_inv r'" "mv_data r' = mv_data r" "mv_oldest_wts r' = mv_oldest_wts r"
      using mv_read_ok[OF assms(1), of ts row junkq txn] assms(2) R_REQ by auto
    then show "\<exists>rc r'. mvcc_access junk junkq thread_cnt (Inr min_ts) txn ts type row r = Inr (rc, r') \<and> mvcc_inv r' \<and>
        (\<forall>q\<in>set (mv_requests r'). mq_valid q \<longrightarrow> mv_exists_prewrite r' \<and> mv_prewrite_ts r' < mq_ts q) \<and>
        mv_data r' = {v \<in> (if type = W_REQ then insert (ts, mv_rows r row) (mv_data r) else mv_data r). mv_oldest_wts r' \<le> fst v} \<and>
        (type = P_REQ \<and> rc = RCOK \<longrightarrow> (\<exists>p. mv_cur_row r' txn = Some p \<and> mv_legal r' ts W_REQ p \<and> mv_rows r' p = mv_rows r (mv_latest_row r)))"
      using R_REQ wait all_data[OF core] by (simp add: mvcc_access_def)
  next
    case P_REQ
    obtain rc r' where "mv_prewrite junk junkq thread_cnt (Inr min_ts) txn ts r = Inr (rc, r')" "mvcc_inv r'" "mv_data r' = {v \<in> mv_data r. mv_oldest_wts r' \<le> fst v}"
        "rc = RCOK \<longrightarrow> (\<exists>p. mv_cur_row r' txn = Some p \<and> mv_legal r' ts W_REQ p \<and> mv_rows r' p = mv_rows r (mv_latest_row r))"
      using mv_prewrite_ok[OF assms(1), of ts row junk junkq thread_cnt min_ts txn] assms(2) P_REQ by auto
    then show "\<exists>rc r'. mvcc_access junk junkq thread_cnt (Inr min_ts) txn ts type row r = Inr (rc, r') \<and> mvcc_inv r' \<and>
        (\<forall>q\<in>set (mv_requests r'). mq_valid q \<longrightarrow> mv_exists_prewrite r' \<and> mv_prewrite_ts r' < mq_ts q) \<and>
        mv_data r' = {v \<in> (if type = W_REQ then insert (ts, mv_rows r row) (mv_data r) else mv_data r). mv_oldest_wts r' \<le> fst v} \<and>
        (type = P_REQ \<and> rc = RCOK \<longrightarrow> (\<exists>p. mv_cur_row r' txn = Some p \<and> mv_legal r' ts W_REQ p \<and> mv_rows r' p = mv_rows r (mv_latest_row r)))"
      using P_REQ wait by (simp add: mvcc_access_def)
  qed (use mv_finish_ok[OF assms, of junk junkq thread_cnt min_ts txn] wait in fastforce)+
qed

text \<open>
  C30: Multi-version timestamp ordering fails only at the manager's missing minimum timestamp, and is
  safe and loses no wake-up otherwise. In every state of the invariant and for every legal access: with
  the program's \<open>get_min_ts\<close>, which is \<open>assert(false)\<close>, the call fails that assertion if it reserves an entry
  for a write (a prewrite that is granted, or the end of a write behind which a prewrite waits), and
  otherwise ends, with the invariant again, no request left waiting without an older pending
  write, and the versions changed only by the commit of a write and by recycling at the old end
  (\<open>mv_safe_result\<close>). With a manager that returns any minimum timestamp, every access ends like that, and
  a granted prewrite is handed a copy of the newest version.
\<close>

theorem mvcc_access_safe:
  assumes "mvcc_inv r" "mv_legal r ts type row"
  shows "(if mv_reserves r ts type
      then mvcc_access junk junkq thread_cnt ManagerEnc_get_min_ts txn ts type row r = Inl Assert_Fail
      else mv_safe_result r txn ts type row (mvcc_access junk junkq thread_cnt ManagerEnc_get_min_ts txn ts type row r)) \<and>
    mv_safe_result r txn ts type row (mvcc_access junk junkq thread_cnt (Inr min_ts) txn ts type row r)"
proof (cases "mv_reserves r ts type")
  case True
  then show ?thesis using mvcc_access_reserve_assert[OF assms True] mvcc_access_result[OF assms] by simp
next
  case False
  have "mvcc_access junk junkq thread_cnt ManagerEnc_get_min_ts txn ts type row r = mvcc_access junk junkq thread_cnt (Inr min_ts) txn ts type row r"
    by (rule mvcc_access_no_reserve[OF False])
  then show ?thesis using False mvcc_access_result[OF assms] by simp
qed

lemma mvcc_init_core: "row < mv_fresh r \<Longrightarrow> mv_core (mvcc_init junk junkq r row)"
  by (simp add: mv_core_def entries_ok_def tuples_inj_def mv_vers_def mvcc_init_def)

lemma mvcc_init_inv:
  assumes "row < mv_fresh r"
  shows "mvcc_inv (mvcc_init junk junkq r row)"
proof -
  have "slots_ok (mvcc_init junk junkq r row)" by (rule slots_idle) (simp_all add: none_reserved_def mvcc_init_def)
  moreover have "reqs_ok (mvcc_init junk junkq r row)" by (simp add: reqs_ok_def mvcc_init_def same_ts_def)
  ultimately show ?thesis using mvcc_init_core[OF assms] by (simp add: mvcc_inv_def)
qed

lemma mvcc_init_vers: "mv_vers (mvcc_init junk junkq r row) = {(0, row)}"
  by (auto simp: mv_vers_def mvcc_init_def)

abbreviation mv_junk :: MvHisEntry where
  "mv_junk \<equiv> \<lparr>mh_valid = True, mh_reserved = True, mh_ts = 7, mh_row = Some 3\<rparr>"

abbreviation mv_junkq :: ReqEntry where
  "mv_junkq \<equiv> \<lparr>mq_valid = True, mq_type = W_REQ, mq_ts = 7, mq_txn = 0, mq_time = 0\<rparr>"

abbreviation mv_demo :: row_mvcc where
  "mv_demo \<equiv> mvcc_init mv_junk mv_junkq \<lparr>mv_row = 0, mv_latest_row = 0, mv_latest_wts = 5, mv_oldest_wts = 5, mv_his = [], mv_exists_prewrite = True,
     mv_prewrite_ts = 5, mv_prewrite_his_id = 5, mv_max_served_rts = 5, mv_requests = [], mv_num_versions = 5, mv_rows = (\<lambda>_. [1]), mv_fresh = 1,
     mv_cur_row = (\<lambda>_. None), mv_ts_ready = (\<lambda>_. True)\<rparr> 0"

lemma mv_demo_inv: "mvcc_inv mv_demo"
  by (rule mvcc_init_inv) simp

theorem mvcc_access_safe_witness:
  "mvcc_access mv_junk mv_junkq 4 ManagerEnc_get_min_ts 2 5 P_REQ 0 mv_demo = Inl Assert_Fail \<and>
   (\<exists>rc r'. mvcc_access mv_junk mv_junkq 4 ManagerEnc_get_min_ts 2 5 R_REQ 0 mv_demo = Inr (rc, r') \<and> mvcc_inv r') \<and>
   (\<exists>rc r'. mvcc_access mv_junk mv_junkq 4 (Inr 0) 2 5 P_REQ 0 mv_demo = Inr (rc, r') \<and> mvcc_inv r' \<and> mv_data r' = {v \<in> {(0, [1])}. mv_oldest_wts r' \<le> fst v})"
proof -
  have lg: "mv_legal mv_demo 5 P_REQ 0" "mv_legal mv_demo 5 R_REQ 0"
    by (simp_all add: mv_legal_def mvcc_init_vers) (simp_all add: mvcc_init_def same_ts_def)
  have rs: "mv_reserves mv_demo 5 P_REQ" "\<not> mv_reserves mv_demo 5 R_REQ" by (simp_all add: mv_reserves_def mvcc_init_def)
  have d: "mv_data mv_demo = {(0, [1])}" unfolding mv_data_def mvcc_init_vers by (simp add: mvcc_init_def)
  note p = mvcc_access_safe[OF mv_demo_inv lg(1), of mv_junk mv_junkq 4 2 0]
  note q = mvcc_access_safe[OF mv_demo_inv lg(2), of mv_junk mv_junkq 4 2 0]
  have "mvcc_access mv_junk mv_junkq 4 ManagerEnc_get_min_ts 2 5 P_REQ 0 mv_demo = Inl Assert_Fail" using p rs(1) by argo
  moreover have "mv_safe_result mv_demo 2 5 R_REQ 0 (mvcc_access mv_junk mv_junkq 4 ManagerEnc_get_min_ts 2 5 R_REQ 0 mv_demo)" using q rs(2) by argo
  moreover have "mv_safe_result mv_demo 2 5 P_REQ 0 (mvcc_access mv_junk mv_junkq 4 (Inr 0) 2 5 P_REQ 0 mv_demo)" using p by argo
  ultimately show ?thesis unfolding mv_safe_result_def d by (auto simp del: mvcc_access_def)
qed

section \<open>Reads\<close>

lemma ucast_small: "t < 2 ^ 32 \<Longrightarrow> ucast (ucast (t :: ts_t) :: u32) = t"
  using small_bit[of t 32] by (intro bit_word_eqI) (auto simp: bit_unsigned_iff)

lemma version_scan_spec:
  assumes "\<forall>e\<in>set es. mh_valid e \<longrightarrow> mh_ts e < 2 ^ 32"
  shows "(\<forall>e\<in>set es. mh_valid e \<and> mh_ts e < ts \<longrightarrow> mh_ts e \<le> ucast th) \<and> version_scan ts th b es = b \<or>
    (\<exists>e\<in>set es. version_scan ts th b es = Some e \<and> mh_valid e \<and> mh_ts e < ts \<and> ucast th < mh_ts e \<and>
      (\<forall>e'\<in>set es. mh_valid e' \<and> mh_ts e' < ts \<longrightarrow> mh_ts e' \<le> mh_ts e))"
  using assms
proof (induction es arbitrary: th b)
  case (Cons e es)
  show ?case
  proof (cases "mh_valid e \<and> mh_ts e < ts \<and> ucast th < mh_ts e")
    case True
    have u: "ucast (ucast (mh_ts e) :: u32) = mh_ts e" using True Cons.prems by (intro ucast_small) simp
    have st: "version_scan ts th b (e # es) = version_scan ts (ucast (mh_ts e)) (Some e) es" using True by simp
    from Cons.IH[of "ucast (mh_ts e)" "Some e"] Cons.prems show ?thesis
      unfolding st u using True by (auto intro: less_trans less_imp_le)
  next
    case False
    have st: "version_scan ts th b (e # es) = version_scan ts th b es" using False by auto
    have e: "mh_valid e \<and> mh_ts e < ts \<longrightarrow> mh_ts e \<le> ucast th" using False by (meson not_less)
    from Cons.IH[of th b] Cons.prems show ?thesis unfolding st using e by (auto intro: order_trans less_imp_le)
  qed
qed simp

text \<open>
  C33: A multi-version read returns the version it should see: with all version timestamps below
  \<open>2 ^ 32\<close>, a read with a timestamp of its own is refused exactly when it is older than the oldest
  version kept, waits only behind a pending write with a smaller timestamp, and is otherwise handed
  the tuple of the newest version older than itself.
\<close>

theorem mvcc_read_newest:
  assumes "mvcc_inv r" "ts \<notin> fst ` mv_vers r" "mv_latest_wts r < 2 ^ 32" "same_ts ts (mv_requests r) = 0" "ts \<noteq> UINT64_MAX"
  shows "ts < mv_oldest_wts r \<and> mv_read junkq txn ts r = Inr (Abort, r) \<or>
    mv_exists_prewrite r \<and> mv_prewrite_ts r < ts \<and> (\<exists>r'. mv_read junkq txn ts r = Inr (WAIT, r')) \<or>
    (\<exists>r' t p. mv_read junkq txn ts r = Inr (RCOK, r') \<and> (t, p) \<in> mv_vers r \<and> t < ts \<and> (\<forall>v\<in>mv_vers r. fst v < ts \<longrightarrow> fst v \<le> t) \<and>
       mv_cur_row r' txn = Some p)"
proof -
  have e: "entries_ok r" and l: "(mv_latest_wts r, mv_latest_row r) \<in> mv_vers r" using assms(1) by (auto simp: mvcc_inv_def mv_core_def)
  have b: "\<forall>v\<in>mv_vers r. fst v \<le> mv_latest_wts r" using mv_vers_bounds[OF e l] by blast
  consider "ts < mv_oldest_wts r" | "\<not> ts < mv_oldest_wts r" "mv_latest_wts r < ts" "mv_exists_prewrite r \<and> mv_prewrite_ts r < ts"
    | "\<not> ts < mv_oldest_wts r" "mv_latest_wts r < ts" "\<not> (mv_exists_prewrite r \<and> mv_prewrite_ts r < ts)"
    | "\<not> ts < mv_oldest_wts r" "\<not> mv_latest_wts r < ts" by blast
  then show ?thesis
  proof cases
    case 1
    then show ?thesis by (simp add: mv_read_def)
  next
    case 2
    then obtain r' where "mv_buffer_req junkq R_REQ ts txn r = Inr r'" using mv_buffer_req_ok[OF assms(1) _ _ assms(5,4), of R_REQ junkq txn] by blast
    then show ?thesis using 2 by (simp add: mv_read_def)
  next
    case 3
    then show ?thesis using l b by (simp add: mv_read_def) blast
  next
    case 4
    have o: "(mv_oldest_wts r, mv_row r) \<in> mv_vers r" by (simp add: mv_vers_def)
    then have ot: "mv_oldest_wts r < ts" using 4(1) assms(2) by (metis fst_conv image_eqI linorder_less_linear)
    have small: "\<forall>e\<in>set (mv_his r). mh_valid e \<longrightarrow> mh_ts e < 2 ^ 32"
    proof
      fix x assume "x \<in> set (mv_his r)"
      then obtain i where "x = mv_his r ! i" "i < mv_len r" by (metis in_set_conv_nth)
      then show "mh_valid x \<longrightarrow> mh_ts x < 2 ^ 32" using e assms(3) unfolding entries_ok_def by (metis le_less_trans)
    qed
    have rd: "\<exists>r'. mv_read junkq txn ts r = Inr (RCOK, r') \<and>
        mv_cur_row r' txn = (case version_scan ts 0 None (mv_his r) of None \<Rightarrow> Some (mv_row r) | Some e \<Rightarrow> mh_row e)"
      using 4 by (simp add: mv_read_def)
    from version_scan_spec[OF small, of ts 0 None] show ?thesis
    proof
      assume a: "(\<forall>e\<in>set (mv_his r). mh_valid e \<and> mh_ts e < ts \<longrightarrow> mh_ts e \<le> ucast (0 :: u32)) \<and> version_scan ts 0 None (mv_his r) = None"
      have "fst v \<le> mv_oldest_wts r" if "v \<in> mv_vers r" "fst v < ts" for v
      proof -
        have "\<not> (i < mv_len r \<and> mh_valid (mv_his r ! i) \<and> mh_ts (mv_his r ! i) < ts)" for i
        proof
          assume i: "i < mv_len r \<and> mh_valid (mv_his r ! i) \<and> mh_ts (mv_his r ! i) < ts"
          then have "mh_ts (mv_his r ! i) \<le> ucast (0 :: u32)" using a nth_mem by blast
          moreover have "mv_oldest_wts r < mh_ts (mv_his r ! i)" using e i unfolding entries_ok_def by blast
          ultimately show False by simp
        qed
        then show ?thesis using that by (auto simp: mv_vers_def)
      qed
      moreover obtain r' where "mv_read junkq txn ts r = Inr (RCOK, r')" "mv_cur_row r' txn = Some (mv_row r)" using rd a by auto
      ultimately show ?thesis using o ot by blast
    next
      assume "\<exists>e\<in>set (mv_his r). version_scan ts 0 None (mv_his r) = Some e \<and> mh_valid e \<and> mh_ts e < ts \<and> ucast (0 :: u32) < mh_ts e \<and>
        (\<forall>e'\<in>set (mv_his r). mh_valid e' \<and> mh_ts e' < ts \<longrightarrow> mh_ts e' \<le> mh_ts e)"
      then obtain i where i: "i < mv_len r" "version_scan ts 0 None (mv_his r) = Some (mv_his r ! i)" "mh_valid (mv_his r ! i)" "mh_ts (mv_his r ! i) < ts"
          "\<forall>e'\<in>set (mv_his r). mh_valid e' \<and> mh_ts e' < ts \<longrightarrow> mh_ts e' \<le> mh_ts (mv_his r ! i)" by (auto simp: in_set_conv_nth)
      obtain p where p: "mh_row (mv_his r ! i) = Some p" "mv_oldest_wts r < mh_ts (mv_his r ! i)" using e i(1,3) unfolding entries_ok_def by auto
      have "fst v \<le> mh_ts (mv_his r ! i)" if "v \<in> mv_vers r" "fst v < ts" for v
        using that i(5) p(2) by (auto simp: mv_vers_def intro: less_imp_le)
      moreover obtain r' where "mv_read junkq txn ts r = Inr (RCOK, r')" "mv_cur_row r' txn = Some p" using rd i(2) p(1) by auto
      ultimately show ?thesis using i(4) mv_versI[OF i(1,3) p(1)] by blast
    qed
  qed
qed

theorem mvcc_read_newest_witness:
  "\<exists>r' t p. mv_read mv_junkq 2 5 mv_demo = Inr (RCOK, r') \<and> (t, p) \<in> {(0, 0)} \<and> t < (5 :: ts_t) \<and> mv_cur_row r' 2 = Some p"
proof -
  have st: "mv_latest_wts mv_demo = 0" "mv_oldest_wts mv_demo = 0" "\<not> mv_exists_prewrite mv_demo" "same_ts 5 (mv_requests mv_demo) = 0"
    by (simp_all add: mvcc_init_def same_ts_def)
  have "5 \<notin> fst ` mv_vers mv_demo" by (simp add: mvcc_init_vers)
  moreover have "mv_latest_wts mv_demo < 2 ^ 32" "(5 :: ts_t) \<noteq> UINT64_MAX" unfolding st(1) by simp_all
  ultimately have "5 < mv_oldest_wts mv_demo \<and> mv_read mv_junkq 2 5 mv_demo = Inr (Abort, mv_demo) \<or>
    mv_exists_prewrite mv_demo \<and> mv_prewrite_ts mv_demo < 5 \<and> (\<exists>r'. mv_read mv_junkq 2 5 mv_demo = Inr (WAIT, r')) \<or>
    (\<exists>r' t p. mv_read mv_junkq 2 5 mv_demo = Inr (RCOK, r') \<and> (t, p) \<in> mv_vers mv_demo \<and> t < 5 \<and>
       (\<forall>v\<in>mv_vers mv_demo. fst v < 5 \<longrightarrow> fst v \<le> t) \<and> mv_cur_row r' 2 = Some p)"
    using mvcc_read_newest[OF mv_demo_inv _ _ st(4), of mv_junkq 2] by blast
  then have "\<exists>r' t p. mv_read mv_junkq 2 5 mv_demo = Inr (RCOK, r') \<and> (t, p) \<in> mv_vers mv_demo \<and> t < 5 \<and> mv_cur_row r' 2 = Some p"
    using st(2,3) by auto
  then show ?thesis unfolding mvcc_init_vers .
qed

text \<open>
  Beyond \<open>2 ^ 32\<close> the search compares with a truncated timestamp and can return a version that is
  not the newest: here the one written at 3 instead of the one at \<open>2 ^ 32 + 1\<close>.
\<close>

lemma version_scan_truncates:
  "version_scan (2 ^ 32 + 2) 0 None
     [\<lparr>mh_valid = True, mh_reserved = True, mh_ts = 2 ^ 32 + 1, mh_row = Some 1\<rparr>, \<lparr>mh_valid = True, mh_reserved = True, mh_ts = 3, mh_row = Some 2\<rparr>] =
   Some \<lparr>mh_valid = True, mh_reserved = True, mh_ts = 3, mh_row = Some 2\<rparr>"
  by (simp add: unsigned_ucast_eq)

end
