(* ===== verification/Tpcc.thy ===== *)
theory Tpcc
  imports Prelude
begin

text \<open>
  The TPC-C workload (\<open>trusted/system/tpcc_txn.cpp\<close>, \<open>common/tpcc_helper.h\<close>; \<open>FULL_TPCC\<close>, not
  \<open>TPCC_SMALL\<close>, not \<open>TPCC_ACCESS_ALL\<close>) and the parts of \<open>txn_man\<close> it runs on: \<open>index_read\<close>, \<open>get_row\<close>,
  \<open>insert_row\<close>, \<open>finish\<close>. The database is its logical content: rows with a primary key, 64-bit columns
  and string columns (up to their terminator), and for every index the chain of rows of a key.
  \<open>get_row\<close> hands out a copy that \<open>finish\<close> writes back, as under OCC. Parameters: which accesses the
  concurrency control grants, whether it lets the transaction commit, which pages changed version,
  floating point arithmetic on the bit patterns of doubles, and what \<open>snprintf\<close> prints.

  Shown: key functions, the effect of a payment, the range of the stock quantity, the count of the
  stock level query; and what aborted orders leave behind and which transactions never return.
\<close>

section \<open>Keys\<close>

definition DIST_PER_WARE :: u64 where "DIST_PER_WARE = 10"

definition distKey :: "u64 \<Rightarrow> u64 \<Rightarrow> u64" where
  "distKey d_id d_w_id = d_w_id * DIST_PER_WARE + d_id"

definition custKey :: "u64 \<Rightarrow> u64 \<Rightarrow> u64 \<Rightarrow> u64" where
  "custKey c_id c_d_id c_w_id = distKey c_d_id c_w_id * 3000 + c_id"

definition neworderKey :: "u64 \<Rightarrow> u64 \<Rightarrow> u64 \<Rightarrow> u64" where
  "neworderKey o_id o_d_id o_w_id = (let g_max_orderline = 2 ^ 32 in distKey o_d_id o_w_id * g_max_orderline + (g_max_orderline - o_id))"

definition orderlineKey :: "u64 \<Rightarrow> u64 \<Rightarrow> u64 \<Rightarrow> u64" where
  "orderlineKey w_id d_id o_id = distKey d_id w_id * 3000 + o_id"

definition orderPrimaryKey :: "u64 \<Rightarrow> u64 \<Rightarrow> u64 \<Rightarrow> u64" where
  "orderPrimaryKey w_id d_id o_id = orderlineKey w_id d_id o_id"

text \<open>\<open>c_last\<close> is given by its characters before the terminator; \<open>char\<close> is signed.\<close>

fun np_hash :: "u64 \<Rightarrow> bytes \<Rightarrow> u64" where
  "np_hash key [] = key"
| "np_hash key (c # cs) = np_hash (push_bit 2 key + (scast c - 65)) cs"

definition custNPKey :: "bytes \<Rightarrow> u64 \<Rightarrow> u64 \<Rightarrow> u64" where
  "custNPKey c_last c_d_id c_w_id = push_bit 3 (np_hash 0 c_last) + (c_w_id * DIST_PER_WARE + c_d_id)"

definition stockKey :: "u64 \<Rightarrow> u64 \<Rightarrow> u64" where
  "stockKey s_i_id s_w_id = s_w_id * 100000 + s_i_id"

section \<open>Tables, queries and the transaction\<close>

datatype tpcc_idx = WAREHOUSE_IDX | DISTRICT_IDX | CUSTOMER_ID_IDX | CUSTOMER_LAST_IDX | ITEM_IDX | STOCK_IDX | ORDER_IDX | NEW_ORDER_IDX | ORDER_LINE_IDX

datatype tpcc_tab = HISTORY | ORDER | NEW_ORDER | ORDER_LINE

text \<open>Columns, by their position in the enumerations of \<open>tpcc_const.h\<close>.\<close>

abbreviation (input) W_NAME :: nat where "W_NAME \<equiv> 1"
abbreviation (input) W_TAX :: nat where "W_TAX \<equiv> 7"
abbreviation (input) W_YTD :: nat where "W_YTD \<equiv> 8"
abbreviation (input) D_NAME :: nat where "D_NAME \<equiv> 2"
abbreviation (input) D_YTD :: nat where "D_YTD \<equiv> 9"
abbreviation (input) D_NEXT_O_ID :: nat where "D_NEXT_O_ID \<equiv> 10"
abbreviation (input) C_ID :: nat where "C_ID \<equiv> 0"
abbreviation (input) C_CREDIT :: nat where "C_CREDIT \<equiv> 13"
abbreviation (input) C_DISCOUNT :: nat where "C_DISCOUNT \<equiv> 15"
abbreviation (input) C_BALANCE :: nat where "C_BALANCE \<equiv> 16"
abbreviation (input) C_YTD_PAYMENT :: nat where "C_YTD_PAYMENT \<equiv> 17"
abbreviation (input) C_PAYMENT_CNT :: nat where "C_PAYMENT_CNT \<equiv> 18"
abbreviation (input) C_DATA :: nat where "C_DATA \<equiv> 20"
abbreviation (input) H_C_ID :: nat where "H_C_ID \<equiv> 0"
abbreviation (input) H_C_D_ID :: nat where "H_C_D_ID \<equiv> 1"
abbreviation (input) H_C_W_ID :: nat where "H_C_W_ID \<equiv> 2"
abbreviation (input) H_D_ID :: nat where "H_D_ID \<equiv> 3"
abbreviation (input) H_W_ID :: nat where "H_W_ID \<equiv> 4"
abbreviation (input) H_DATE :: nat where "H_DATE \<equiv> 5"
abbreviation (input) H_AMOUNT :: nat where "H_AMOUNT \<equiv> 6"
abbreviation (input) H_DATA :: nat where "H_DATA \<equiv> 7"
abbreviation (input) O_ID :: nat where "O_ID \<equiv> 0"
abbreviation (input) O_C_ID :: nat where "O_C_ID \<equiv> 1"
abbreviation (input) O_D_ID :: nat where "O_D_ID \<equiv> 2"
abbreviation (input) O_W_ID :: nat where "O_W_ID \<equiv> 3"
abbreviation (input) O_ENTRY_D :: nat where "O_ENTRY_D \<equiv> 4"
abbreviation (input) O_CARRIER_ID :: nat where "O_CARRIER_ID \<equiv> 5"
abbreviation (input) O_OL_CNT :: nat where "O_OL_CNT \<equiv> 6"
abbreviation (input) O_ALL_LOCAL :: nat where "O_ALL_LOCAL \<equiv> 7"
abbreviation (input) OL_O_ID :: nat where "OL_O_ID \<equiv> 0"
abbreviation (input) OL_D_ID :: nat where "OL_D_ID \<equiv> 1"
abbreviation (input) OL_W_ID :: nat where "OL_W_ID \<equiv> 2"
abbreviation (input) OL_NUMBER :: nat where "OL_NUMBER \<equiv> 3"
abbreviation (input) OL_I_ID :: nat where "OL_I_ID \<equiv> 4"
abbreviation (input) OL_SUPPLY_W_ID :: nat where "OL_SUPPLY_W_ID \<equiv> 5"
abbreviation (input) OL_QUANTITY :: nat where "OL_QUANTITY \<equiv> 7"
abbreviation (input) OL_AMOUNT :: nat where "OL_AMOUNT \<equiv> 8"
abbreviation (input) I_PRICE :: nat where "I_PRICE \<equiv> 3"
abbreviation (input) S_QUANTITY :: nat where "S_QUANTITY \<equiv> 2"
abbreviation (input) S_YTD :: nat where "S_YTD \<equiv> 13"
abbreviation (input) S_ORDER_CNT :: nat where "S_ORDER_CNT \<equiv> 14"
abbreviation (input) S_REMOTE_CNT :: nat where "S_REMOTE_CNT \<equiv> 15"

type_synonym row_ptr = nat

record trow =
  tr_key :: u64
  tr_col :: "nat \<Rightarrow> u64"
  tr_str :: "nat \<Rightarrow> bytes"

record tdb =
  db_row :: "row_ptr \<Rightarrow> trow"
  db_idx :: "tpcc_idx \<Rightarrow> u64 \<Rightarrow> row_ptr list"
  db_fresh :: row_ptr
  db_size :: "tpcc_tab \<Rightarrow> nat"
  db_delivering :: "u64 \<Rightarrow> bool"

record Item_no =
  ol_i_id :: u64
  ol_supply_w_id :: u64
  ol_quantity :: u64

record tpcc_query =
  q_w_id :: u64
  q_d_id :: u64
  q_c_id :: u64
  q_d_w_id :: u64
  q_c_w_id :: u64
  q_c_d_id :: u64
  q_c_last :: bytes
  q_h_amount :: u64
  q_by_last_name :: bool
  q_items :: "Item_no list"
  q_remote :: bool
  q_o_entry_d :: u64
  q_o_carrier_id :: u64
  q_threshold :: u64

record tpcc_env =
  en_grant :: "nat \<Rightarrow> bool"
  en_commit :: bool
  en_stale :: "row_ptr \<Rightarrow> bool"
  en_dadd :: "u64 \<Rightarrow> u64 \<Rightarrow> u64"
  en_dsub :: "u64 \<Rightarrow> u64 \<Rightarrow> u64"
  en_done :: u64
  en_fmt :: "u64 \<Rightarrow> tpcc_query \<Rightarrow> bytes"
  en_row :: trow
  en_key :: "nat \<Rightarrow> u64"
  en_wh_update :: bool

record ttxn =
  tx_db :: tdb
  tx_acc :: "(access_t \<times> row_ptr \<times> trow) list"

datatype 'a tpcc_out = Fail fault | Done RC ttxn | Next 'a ttxn

type_synonym 'a tp = "ttxn \<Rightarrow> 'a tpcc_out"

definition tp_bind :: "'a tp \<Rightarrow> ('a \<Rightarrow> 'b tp) \<Rightarrow> 'b tp" where
  "tp_bind m f s = (case m s of Fail e \<Rightarrow> Fail e | Done rc s \<Rightarrow> Done rc s | Next x s \<Rightarrow> f x s)"

section \<open>The transaction manager\<close>

definition acc_row :: "access_t \<times> row_ptr \<times> trow \<Rightarrow> row_ptr" where
  "acc_row a = fst (snd a)"

fun write_back :: "(access_t \<times> row_ptr \<times> trow) list \<Rightarrow> tdb \<Rightarrow> tdb" where
  "write_back [] db = db"
| "write_back ((type, p, row) # as) db = write_back as (if type = WR
     then db\<lparr>db_row := (db_row db)(p := (db_row db p)\<lparr>tr_col := tr_col row, tr_str := tr_str row\<rparr>)\<rparr> else db)"

text \<open>
  \<open>cleanup\<close> returns the rows from the last access to the first.
  \<open>finish\<close> calls itself with \<open>Abort\<close> while a page of the transaction has another version.
\<close>

fun finish_rec :: "nat \<Rightarrow> tpcc_env \<Rightarrow> RC \<Rightarrow> 'a tp" where
  "finish_rec 0 en rc s = Fail Diverges"
| "finish_rec (Suc n) en rc s =
     (if \<exists>a\<in>set (tx_acc s). en_stale en (acc_row a) then finish_rec n en Abort s
      else if rc = RCOK \<and> en_commit en then Done RCOK (s\<lparr>tx_db := write_back (rev (tx_acc s)) (tx_db s), tx_acc := []\<rparr>)
      else Done (if rc = RCOK then Abort else rc) (s\<lparr>tx_acc := []\<rparr>))"

definition finish :: "tpcc_env \<Rightarrow> RC \<Rightarrow> 'a tp" where
  "finish en rc = finish_rec 2 en rc"

definition index_read :: "tpcc_idx \<Rightarrow> u64 \<Rightarrow> row_ptr list tp" where
  "index_read idx key s = Next (db_idx (tx_db s) idx key) s"

text \<open>\<open>index_read\<close> followed by the test for a null result that ends the transaction.\<close>

definition read_or_abort :: "tpcc_env \<Rightarrow> tpcc_idx \<Rightarrow> u64 \<Rightarrow> row_ptr list tp" where
  "read_or_abort en idx key = tp_bind (index_read idx key) (\<lambda>c. if c = [] then finish en Abort else Next c)"

text \<open>
  \<open>get_row\<close>: the number of the access; \<open>None\<close> when the concurrency control refuses it. The copy has the
  row's data but not its primary key, which \<open>copy\<close> leaves uninitialised.
\<close>

definition get_row :: "tpcc_env \<Rightarrow> row_ptr \<Rightarrow> access_t \<Rightarrow> nat option tp" where
  "get_row en p type s = (if en_grant en (length (tx_acc s))
     then Next (Some (length (tx_acc s))) (s\<lparr>tx_acc := tx_acc s @ [(type, p, (db_row (tx_db s) p)\<lparr>tr_key := en_key en (length (tx_acc s))\<rparr>)]\<rparr>)
     else Next None s)"

definition get_or_abort :: "tpcc_env \<Rightarrow> row_ptr \<Rightarrow> access_t \<Rightarrow> nat tp" where
  "get_or_abort en p type = tp_bind (get_row en p type) (\<lambda>r. case r of None \<Rightarrow> finish en Abort | Some k \<Rightarrow> Next k)"

definition local_get :: "nat \<Rightarrow> nat \<Rightarrow> u64 tp" where
  "local_get k col s = (if k < length (tx_acc s) then Next (tr_col (snd (snd (tx_acc s ! k))) col) s else Fail Bounds)"

definition local_str :: "nat \<Rightarrow> nat \<Rightarrow> bytes tp" where
  "local_str k col s = (if k < length (tx_acc s) then Next (tr_str (snd (snd (tx_acc s ! k))) col) s else Fail Bounds)"

definition local_set :: "nat \<Rightarrow> nat \<Rightarrow> u64 \<Rightarrow> unit tp" where
  "local_set k col v s = (if k < length (tx_acc s)
     then Next () (s\<lparr>tx_acc := (tx_acc s)[k := (fst (tx_acc s ! k), fst (snd (tx_acc s ! k)),
       (snd (snd (tx_acc s ! k)))\<lparr>tr_col := (tr_col (snd (snd (tx_acc s ! k))))(col := v)\<rparr>)]\<rparr>) else Fail Bounds)"

text \<open>Direct access to the shared row.\<close>

definition shared_get :: "row_ptr \<Rightarrow> nat \<Rightarrow> u64 tp" where
  "shared_get p col s = Next (tr_col (db_row (tx_db s) p) col) s"

definition shared_str :: "row_ptr \<Rightarrow> nat \<Rightarrow> bytes tp" where
  "shared_str p col s = Next (tr_str (db_row (tx_db s) p) col) s"

definition shared_upd :: "row_ptr \<Rightarrow> (trow \<Rightarrow> trow) \<Rightarrow> unit tp" where
  "shared_upd p f s = Next () (s\<lparr>tx_db := (tx_db s)\<lparr>db_row := (db_row (tx_db s))(p := f (db_row (tx_db s) p))\<rparr>\<rparr>)"

definition set_col :: "nat \<Rightarrow> u64 \<Rightarrow> trow \<Rightarrow> trow" where
  "set_col col v r = r\<lparr>tr_col := (tr_col r)(col := v)\<rparr>"

definition set_str :: "nat \<Rightarrow> bytes \<Rightarrow> trow \<Rightarrow> trow" where
  "set_str col v r = r\<lparr>tr_str := (tr_str r)(col := v)\<rparr>"

definition get_new_row :: "tpcc_env \<Rightarrow> tpcc_tab \<Rightarrow> row_ptr tp" where
  "get_new_row en tab s = (let db = tx_db s in
     Next (db_fresh db) (s\<lparr>tx_db := db\<lparr>db_size := (db_size db)(tab := db_size db tab + 1), db_row := (db_row db)(db_fresh db := en_row en),
       db_fresh := db_fresh db + 1\<rparr>\<rparr>))"

text \<open>
  \<open>insert_row\<close> puts the row into the index at once (B+tree and \<open>FULL_TPCC\<close>), and returns \<open>Abort\<close>, which
  its callers do not look at. The index is its logical content here, so \<open>index_insert\<close> always succeeds
  and adds the row to the chain of its key: what it does in the tree, and when it could fail there, is
  not part of this theory.
\<close>

definition insert_row :: "row_ptr \<Rightarrow> tpcc_idx \<Rightarrow> unit tp" where
  "insert_row p idx s = (let db = tx_db s; key = tr_key (db_row db p) in
     Next () (s\<lparr>tx_db := db\<lparr>db_idx := (db_idx db)(idx := (db_idx db idx)(key := p # db_idx db idx key))\<rparr>\<rparr>))"

section \<open>Payment\<close>

text \<open>The loop that looks for the middle of a chain of customers with the same name.\<close>

fun mid_loop :: "nat \<Rightarrow> row_ptr list \<Rightarrow> row_ptr list \<Rightarrow> row_ptr list" where
  "mid_loop cnt [] mid = mid"
| "mid_loop cnt (i # it) mid = mid_loop (cnt + 1) it (if (cnt + 1) mod 2 = 0 then tl mid else mid)"

definition mid_customer :: "row_ptr list \<Rightarrow> row_ptr tp" where
  "mid_customer item s = (case mid_loop 0 item item of [] \<Rightarrow> Fail Null_Deref | p # _ \<Rightarrow> Next p s)"

text \<open>The customer of a query: the middle one of a name, found again by its id, or the last of an id.\<close>

definition payment_customer :: "tpcc_env \<Rightarrow> tpcc_query \<Rightarrow> (u64 \<times> row_ptr) tp" where
  "payment_customer en q =
     (if q_by_last_name q
      then tp_bind (read_or_abort en CUSTOMER_LAST_IDX (custNPKey (q_c_last q) (q_c_d_id q) (q_c_w_id q))) (\<lambda>item.
           tp_bind (mid_customer item) (\<lambda>r_cust.
           tp_bind (shared_get r_cust C_ID) (\<lambda>c_id.
           tp_bind (read_or_abort en CUSTOMER_ID_IDX (custKey c_id (q_c_d_id q) (q_c_w_id q))) (\<lambda>item_tmp.
             Next (c_id, hd item_tmp)))))
      else tp_bind (read_or_abort en CUSTOMER_ID_IDX (custKey (q_c_id q) (q_c_d_id q) (q_c_w_id q))) (\<lambda>item.
             Next (q_c_id q, last item)))"

definition is_infix :: "bytes \<Rightarrow> bytes \<Rightarrow> bool" where
  "is_infix xs ys \<longleftrightarrow> (\<exists>i\<in>set [0..<Suc (length ys)]. take (length xs) (drop i ys) = xs)"

definition pay_warehouse :: "tpcc_env \<Rightarrow> tpcc_query \<Rightarrow> bytes tp" where
  "pay_warehouse en q =
     tp_bind (read_or_abort en WAREHOUSE_IDX (q_w_id q)) (\<lambda>item.
     tp_bind (get_or_abort en (hd item) (if en_wh_update en then WR else RD)) (\<lambda>k.
     tp_bind (local_get k W_YTD) (\<lambda>w_ytd.
     tp_bind (if en_wh_update en then local_set k W_YTD (en_dadd en w_ytd (q_h_amount q)) else Next ()) (\<lambda>_.
     tp_bind (local_str k W_NAME) (\<lambda>name. Next (take 10 name))))))"

definition pay_district :: "tpcc_env \<Rightarrow> tpcc_query \<Rightarrow> bytes tp" where
  "pay_district en q =
     tp_bind (read_or_abort en DISTRICT_IDX (distKey (q_d_id q) (q_d_w_id q))) (\<lambda>item.
     tp_bind (get_or_abort en (hd item) WR) (\<lambda>k.
     tp_bind (local_get k D_YTD) (\<lambda>d_ytd.
     tp_bind (local_set k D_YTD (en_dadd en d_ytd (q_h_amount q))) (\<lambda>_.
     tp_bind (local_str k D_NAME) (\<lambda>name. Next (take 10 name))))))"

text \<open>A bad credit's \<open>C_DATA\<close> is changed in the shared row, not in the transaction's copy.\<close>

definition pay_customer :: "tpcc_env \<Rightarrow> tpcc_query \<Rightarrow> u64 \<Rightarrow> row_ptr \<Rightarrow> unit tp" where
  "pay_customer en q c_id r_cust =
     tp_bind (get_or_abort en r_cust WR) (\<lambda>k.
     tp_bind (local_get k C_BALANCE) (\<lambda>c_balance.
     tp_bind (local_set k C_BALANCE (en_dsub en c_balance (q_h_amount q))) (\<lambda>_.
     tp_bind (local_get k C_YTD_PAYMENT) (\<lambda>c_ytd_payment.
     tp_bind (local_set k C_YTD_PAYMENT (en_dadd en c_ytd_payment (q_h_amount q))) (\<lambda>_.
     tp_bind (local_get k C_PAYMENT_CNT) (\<lambda>c_payment_cnt.
     tp_bind (local_set k C_PAYMENT_CNT (en_dadd en c_payment_cnt (en_done en))) (\<lambda>_.
     tp_bind (local_str k C_CREDIT) (\<lambda>c_credit.
       if is_infix [66, 67] c_credit
       then tp_bind (shared_str r_cust C_DATA) (\<lambda>c_data.
            let c_new_data = en_fmt en c_id q in
            shared_upd r_cust (set_str C_DATA (c_new_data @ take (500 - length c_new_data) c_data)))
       else Next ()))))))))"

text \<open>The history row; it is put into no index.\<close>

definition pay_history :: "tpcc_env \<Rightarrow> tpcc_query \<Rightarrow> u64 \<Rightarrow> bytes \<Rightarrow> bytes \<Rightarrow> unit tp" where
  "pay_history en q c_id w_name d_name =
     tp_bind (get_new_row en HISTORY) (\<lambda>r_hist. shared_upd r_hist
       (set_str H_DATA (w_name @ replicate 4 32 @ d_name) \<circ> set_col H_AMOUNT (q_h_amount q) \<circ> set_col H_DATE 2013 \<circ> set_col H_W_ID (q_w_id q) \<circ>
        set_col H_D_ID (q_d_id q) \<circ> set_col H_C_W_ID (q_c_w_id q) \<circ> set_col H_C_D_ID (q_c_d_id q) \<circ> set_col H_C_ID c_id))"

definition run_payment :: "tpcc_env \<Rightarrow> tpcc_query \<Rightarrow> unit tp" where
  "run_payment en q =
     tp_bind (pay_warehouse en q) (\<lambda>w_name.
     tp_bind (pay_district en q) (\<lambda>d_name.
     tp_bind (payment_customer en q) (\<lambda>(c_id, r_cust).
     tp_bind (pay_customer en q c_id r_cust) (\<lambda>_.
     tp_bind (pay_history en q c_id w_name d_name) (\<lambda>_. finish en RCOK)))))"

section \<open>New order\<close>

definition new_quantity :: "u64 \<Rightarrow> u64 \<Rightarrow> u64" where
  "new_quantity s_quantity n = (if n + 10 < s_quantity then s_quantity - n else s_quantity - n + 91)"

text \<open>
  One order line. \<open>OL_NUMBER\<close> is set through a pointer to a 32-bit variable, so its upper half is
  what lies behind the variable: \<open>pad\<close>. A stock row that is not found leaves an uninitialised pointer.
\<close>

definition order_stock :: "tpcc_env \<Rightarrow> bool \<Rightarrow> Item_no \<Rightarrow> unit tp" where
  "order_stock en remote it =
     tp_bind (index_read STOCK_IDX (stockKey (ol_i_id it) (ol_supply_w_id it))) (\<lambda>item.
     if item = [] then (\<lambda>s. Fail Null_Deref) else
     tp_bind (get_or_abort en (hd item) WR) (\<lambda>k.
     tp_bind (local_get k S_QUANTITY) (\<lambda>s_quantity.
     tp_bind (local_get k S_YTD) (\<lambda>s_ytd.
     tp_bind (local_set k S_YTD (s_ytd + ol_quantity it)) (\<lambda>_.
     tp_bind (local_get k S_ORDER_CNT) (\<lambda>s_order_cnt.
     tp_bind (local_set k S_ORDER_CNT (s_order_cnt + 1)) (\<lambda>_.
     tp_bind (if remote then tp_bind (local_get k S_REMOTE_CNT) (\<lambda>s_remote_cnt. local_set k S_REMOTE_CNT (s_remote_cnt + 1)) else Next ()) (\<lambda>_.
       local_set k S_QUANTITY (new_quantity s_quantity (ol_quantity it))))))))))"

definition order_line :: "tpcc_env \<Rightarrow> tpcc_query \<Rightarrow> u32 \<Rightarrow> u64 \<Rightarrow> u64 \<Rightarrow> u64 \<Rightarrow> Item_no \<Rightarrow> u64 \<Rightarrow> unit tp" where
  "order_line en q pad o_id c_discount ol_number it i_price =
     tp_bind (get_new_row en ORDER_LINE) (\<lambda>r_ol.
     tp_bind (shared_upd r_ol
       (set_col OL_AMOUNT (ol_quantity it * i_price * (1 + 1 + 1) * (1 - c_discount)) \<circ> set_col OL_QUANTITY (ol_quantity it) \<circ>
        set_col OL_SUPPLY_W_ID (ol_supply_w_id it) \<circ> (\<lambda>r. r\<lparr>tr_key := orderlineKey (q_w_id q) (q_d_id q) o_id\<rparr>) \<circ>
        set_col OL_I_ID (ol_i_id it) \<circ> set_col OL_NUMBER (ol_number + push_bit 32 (ucast pad)) \<circ> set_col OL_W_ID (q_w_id q) \<circ>
        set_col OL_D_ID (q_d_id q) \<circ> set_col OL_O_ID o_id)) (\<lambda>_.
       insert_row r_ol ORDER_LINE_IDX))"

fun order_lines :: "tpcc_env \<Rightarrow> tpcc_query \<Rightarrow> u32 \<Rightarrow> u64 \<Rightarrow> u64 \<Rightarrow> u64 \<Rightarrow> Item_no list \<Rightarrow> unit tp" where
  "order_lines en q pad o_id c_discount ol_number [] = Next ()"
| "order_lines en q pad o_id c_discount ol_number (it # its) =
     tp_bind (read_or_abort en ITEM_IDX (ol_i_id it)) (\<lambda>item.
     tp_bind (get_or_abort en (hd item) RD) (\<lambda>k.
     tp_bind (local_get k I_PRICE) (\<lambda>i_price.
     tp_bind (order_stock en (q_remote q) it) (\<lambda>_.
     tp_bind (order_line en q pad o_id c_discount ol_number it i_price) (\<lambda>_.
       order_lines en q pad o_id c_discount (ol_number + 1) its)))))"

definition order_rows :: "tpcc_env \<Rightarrow> tpcc_query \<Rightarrow> u64 \<Rightarrow> unit tp" where
  "order_rows en q o_id =
     tp_bind (get_new_row en ORDER) (\<lambda>r_order.
     tp_bind (shared_upd r_order
       (set_col O_ALL_LOCAL (if q_remote q then 0 else 1) \<circ> (\<lambda>r. r\<lparr>tr_key := orderPrimaryKey (q_w_id q) (q_d_id q) o_id\<rparr>) \<circ>
        set_col O_OL_CNT (of_nat (length (q_items q))) \<circ> set_col O_ENTRY_D (q_o_entry_d q) \<circ> set_col O_W_ID (q_w_id q) \<circ>
        set_col O_D_ID (q_d_id q) \<circ> set_col O_C_ID (q_c_id q) \<circ> set_col O_ID o_id)) (\<lambda>_.
     tp_bind (insert_row r_order ORDER_IDX) (\<lambda>_.
     tp_bind (get_new_row en NEW_ORDER) (\<lambda>r_no.
     tp_bind (shared_upd r_no (set_col 2 (q_w_id q) \<circ> set_col 1 (q_d_id q) \<circ> set_col 0 o_id \<circ> (\<lambda>r. r\<lparr>tr_key := neworderKey o_id (q_d_id q) (q_w_id q)\<rparr>))) (\<lambda>_.
       insert_row r_no NEW_ORDER_IDX)))))"

definition run_new_order :: "tpcc_env \<Rightarrow> u32 \<Rightarrow> tpcc_query \<Rightarrow> unit tp" where
  "run_new_order en pad q =
     tp_bind (read_or_abort en WAREHOUSE_IDX (q_w_id q)) (\<lambda>item.
     tp_bind (get_or_abort en (hd item) RD) (\<lambda>k.
     tp_bind (local_get k W_TAX) (\<lambda>w_tax.
     tp_bind (read_or_abort en CUSTOMER_ID_IDX (custKey (q_c_id q) (q_d_id q) (q_w_id q))) (\<lambda>item.
     tp_bind (get_or_abort en (hd item) RD) (\<lambda>k.
     tp_bind (local_get k C_DISCOUNT) (\<lambda>c_discount.
     tp_bind (read_or_abort en DISTRICT_IDX (distKey (q_d_id q) (q_w_id q))) (\<lambda>item.
     tp_bind (get_or_abort en (hd item) WR) (\<lambda>k.
     tp_bind (local_get k D_NEXT_O_ID) (\<lambda>o_id.
     tp_bind (local_set k D_NEXT_O_ID (o_id + 1)) (\<lambda>_.
     tp_bind (order_rows en q (o_id + 1)) (\<lambda>_.
     tp_bind (order_lines en q pad (o_id + 1) c_discount 0 (q_items q)) (\<lambda>_. finish en RCOK))))))))))))"

section \<open>Order status, delivery and stock level\<close>

text \<open>The reads whose null result is dereferenced.\<close>

definition read_or_crash :: "tpcc_idx \<Rightarrow> u64 \<Rightarrow> row_ptr list tp" where
  "read_or_crash idx key = tp_bind (index_read idx key) (\<lambda>c s. if c = [] then Fail Null_Deref else Next c s)"

definition leave :: "RC \<Rightarrow> 'a tp" where
  "leave rc s = Done rc s"

definition status_customer :: "tpcc_env \<Rightarrow> tpcc_query \<Rightarrow> u64 tp" where
  "status_customer en q =
     (if q_by_last_name q
      then tp_bind (index_read CUSTOMER_LAST_IDX (custNPKey (q_c_last q) (q_c_d_id q) (q_c_w_id q))) (\<lambda>item.
           if item = [] then leave Abort else
           tp_bind (mid_customer item) (\<lambda>r_cust.
           tp_bind (shared_get r_cust C_ID) (\<lambda>c_id.
           tp_bind (read_or_abort en CUSTOMER_ID_IDX (custKey c_id (q_c_d_id q) (q_c_w_id q))) (\<lambda>_. Next c_id))))
      else tp_bind (read_or_crash CUSTOMER_ID_IDX (custKey (q_c_id q) (q_c_d_id q) (q_c_w_id q))) (\<lambda>_. Next (q_c_id q)))"

definition run_order_status :: "tpcc_env \<Rightarrow> tpcc_query \<Rightarrow> unit tp" where
  "run_order_status en q =
     tp_bind (status_customer en q) (\<lambda>c_id.
     tp_bind (read_or_crash ORDER_IDX (custKey c_id (q_c_d_id q) (q_c_w_id q))) (\<lambda>item.
     tp_bind (get_or_abort en (hd item) RD) (\<lambda>k.
     tp_bind (local_get k O_ID) (\<lambda>o_id.
     tp_bind (index_read ORDER_LINE_IDX (orderlineKey (q_w_id q) (q_d_id q) o_id)) (\<lambda>_. finish en RCOK)))))"

text \<open>The loop over the lines of an order never moves on to the next line.\<close>

fun deliver_lines :: "nat \<Rightarrow> row_ptr list \<Rightarrow> unit tp" where
  "deliver_lines 0 item s = Fail Diverges"
| "deliver_lines (Suc n) item s = (if item \<noteq> [] then deliver_lines n item s else Next () s)"

definition deliver_district :: "tpcc_env \<Rightarrow> tpcc_query \<Rightarrow> u64 \<Rightarrow> unit tp" where
  "deliver_district en q d_id =
     tp_bind (index_read ORDER_LINE_IDX (distKey d_id (q_w_id q))) (\<lambda>item.
     if item = [] then leave Abort else
     tp_bind (shared_get (last item) OL_O_ID) (\<lambda>no_o_id.
     tp_bind (read_or_crash ORDER_IDX (orderPrimaryKey (q_w_id q) d_id no_o_id)) (\<lambda>item.
     tp_bind (get_row en (hd item) WR) (\<lambda>r. case r of None \<Rightarrow> (\<lambda>s. Fail Null_Deref) | Some k \<Rightarrow>
     tp_bind (local_get k O_C_ID) (\<lambda>o_c_id.
     tp_bind (local_set k O_CARRIER_ID (q_o_carrier_id q)) (\<lambda>_.
     tp_bind (index_read ORDER_LINE_IDX (orderlineKey (q_w_id q) d_id no_o_id)) (\<lambda>item.
     tp_bind (deliver_lines (Suc (length item)) item) (\<lambda>_.
     tp_bind (read_or_crash CUSTOMER_ID_IDX (custKey o_c_id d_id (q_w_id q))) (\<lambda>_. Next ())))))))))"

fun deliver_districts :: "tpcc_env \<Rightarrow> tpcc_query \<Rightarrow> u64 list \<Rightarrow> unit tp" where
  "deliver_districts en q [] = leave RCOK"
| "deliver_districts en q (d # ds) = tp_bind (deliver_district en q d) (\<lambda>_. deliver_districts en q ds)"

text \<open>The claim of the warehouse is set and never cleared.\<close>

definition run_delivery :: "tpcc_env \<Rightarrow> tpcc_query \<Rightarrow> unit tp" where
  "run_delivery en q s =
     (if db_delivering (tx_db s) (q_w_id q) then finish en RCOK s
      else deliver_districts en q [1, 2, 3, 4, 5, 6, 7, 8, 9, 10]
        (s\<lparr>tx_db := (tx_db s)\<lparr>db_delivering := (db_delivering (tx_db s))(q_w_id q := True)\<rparr>\<rparr>))"

text \<open>
  The order lines of a stock level query: \<open>next_item\<close> is \<open>index_next\<close>, which moves a row's cursor to
  the following key; \<open>supply\<close> is the uninitialised \<open>ol_supply_w_id\<close>.
\<close>

fun level_lines :: "nat \<Rightarrow> tpcc_env \<Rightarrow> (row_ptr \<Rightarrow> row_ptr list) \<Rightarrow> u64 \<Rightarrow> u64 \<Rightarrow> u64 \<Rightarrow> row_ptr list \<Rightarrow> u64 list \<Rightarrow> u64 list tp" where
  "level_lines 0 en next_item key supply s_w_id cur ids = Next ids"
| "level_lines (Suc n) en next_item key supply s_w_id cur ids =
     (if cur = [] then Next ids
      else tp_bind (get_row en (hd cur) RD) (\<lambda>r. case r of None \<Rightarrow> (\<lambda>s. Fail Null_Deref) | Some k \<Rightarrow> (\<lambda>s.
        if key < tr_key (snd (snd (tx_acc s ! k))) then Next ids s
        else if supply \<noteq> s_w_id then level_lines n en next_item key supply s_w_id cur ids s
        else tp_bind (shared_get (hd cur) OL_I_ID) (\<lambda>ol_i_id s.
          if \<not> length ids < 301 then Fail Assert_Fail
          else if next_item (hd cur) = [] then Fail Null_Deref
          else level_lines n en next_item key supply s_w_id (next_item (hd cur)) (ids @ [ol_i_id]) s) s)))"

fun count_low :: "u64 \<Rightarrow> u64 \<Rightarrow> u64 list \<Rightarrow> u64 list \<Rightarrow> u64 \<Rightarrow> u64 option tp" where
  "count_low s_w_id threshold [] seen result = Next (Some result)"
| "count_low s_w_id threshold (i # is) seen result =
     (if i \<in> set seen then count_low s_w_id threshold is seen result
      else tp_bind (index_read STOCK_IDX (stockKey i s_w_id)) (\<lambda>item.
        if item = [] then Next None
        else tp_bind (shared_get (hd item) S_QUANTITY) (\<lambda>s_quantity.
          count_low s_w_id threshold is (seen @ [i]) (if s_quantity < threshold then result + 1 else result))))"

definition getStockCount :: "tpcc_env \<Rightarrow> (row_ptr \<Rightarrow> row_ptr list) \<Rightarrow> u64 \<Rightarrow> u64 \<Rightarrow> u64 \<Rightarrow> u64 \<Rightarrow> u64 \<Rightarrow> u64 \<Rightarrow> u64 option tp" where
  "getStockCount en next_item supply ol_w_id ol_d_id ol_o_id s_w_id threshold =
     (let key = orderlineKey ol_w_id ol_d_id (ol_o_id - 1) in
      tp_bind (index_read ORDER_LINE_IDX key) (\<lambda>cur.
      if cur = [] then Next None
      else tp_bind (level_lines 301 en next_item key supply s_w_id cur []) (\<lambda>ids s.
        if \<not> length ids \<le> 300 then Fail Assert_Fail else count_low s_w_id threshold ids [] 0 s)))"

definition run_stock_level :: "tpcc_env \<Rightarrow> (row_ptr \<Rightarrow> row_ptr list) \<Rightarrow> u64 \<Rightarrow> tpcc_query \<Rightarrow> unit tp" where
  "run_stock_level en next_item supply q =
     tp_bind (index_read DISTRICT_IDX (distKey (q_d_id q) (q_w_id q))) (\<lambda>item.
     if item = [] then (\<lambda>s. Fail Assert_Fail) else
     tp_bind (shared_get (hd item) D_NEXT_O_ID) (\<lambda>o_id.
     tp_bind (getStockCount en next_item supply (q_w_id q) (q_d_id q) o_id (q_w_id q) (q_threshold q)) (\<lambda>_. finish en RCOK)))"

text \<open>The dispatch on the type of the query.\<close>

datatype TPCCTxnType = TPCC_ALL | TPCC_PAYMENT | TPCC_NEW_ORDER | TPCC_ORDER_STATUS | TPCC_DELIVERY | TPCC_STOCK_LEVEL

definition tpcc_run_txn :: "tpcc_env \<Rightarrow> u32 \<Rightarrow> (row_ptr \<Rightarrow> row_ptr list) \<Rightarrow> u64 \<Rightarrow> TPCCTxnType \<Rightarrow> tpcc_query \<Rightarrow> unit tp" where
  "tpcc_run_txn en pad next_item supply type q = (case type of
       TPCC_PAYMENT \<Rightarrow> run_payment en q
     | TPCC_NEW_ORDER \<Rightarrow> run_new_order en pad q
     | TPCC_ORDER_STATUS \<Rightarrow> run_order_status en q
     | TPCC_DELIVERY \<Rightarrow> run_delivery en q
     | TPCC_STOCK_LEVEL \<Rightarrow> run_stock_level en next_item supply q
     | TPCC_ALL \<Rightarrow> (\<lambda>s. Fail Assert_Fail))"

section \<open>Stepping through a transaction\<close>

lemma tp_bind_simps [simp]: "m s = Next x s' \<Longrightarrow> tp_bind m f s = f x s'" "m s = Done rc s' \<Longrightarrow> tp_bind m f s = Done rc s'"
  "m s = Fail e \<Longrightarrow> tp_bind m f s = Fail e"
  by (simp_all add: tp_bind_def)

lemmas tp_ops = index_read_def read_or_abort_def get_row_def get_or_abort_def local_get_def local_str_def local_set_def shared_get_def
  shared_str_def shared_upd_def get_new_row_def insert_row_def read_or_crash_def leave_def Let_def

lemma mid_loop_half: "mid_loop (2 * c) it mid = drop (length it div 2) mid"
proof (induction it arbitrary: c mid rule: induct_list012)
  case (3 x y zs)
  have "mid_loop (2 * c) (x # y # zs) mid = mid_loop (2 * (c + 1)) zs (tl mid)" by simp
  also have "\<dots> = drop (length zs div 2) (tl mid)" using 3(1)[of "c + 1"] by simp
  finally show ?case by (simp add: drop_Suc)
qed simp_all

lemma mid_customer_half:
  assumes "item \<noteq> []"
  shows "mid_customer item s = Next (item ! (length item div 2)) s"
proof -
  have "length item div 2 < length item" using assms by (cases item) auto
  then show ?thesis using mid_loop_half[of 0 item item] by (simp add: mid_customer_def Cons_nth_drop_Suc[symmetric])
qed

text \<open>The customer a payment is for.\<close>

definition customer_of :: "tdb \<Rightarrow> tpcc_query \<Rightarrow> (u64 \<times> row_ptr) option" where
  "customer_of db q =
     (if q_by_last_name q
      then let item = db_idx db CUSTOMER_LAST_IDX (custNPKey (q_c_last q) (q_c_d_id q) (q_c_w_id q)); c_id = tr_col (db_row db (item ! (length item div 2))) C_ID;
             ids = db_idx db CUSTOMER_ID_IDX (custKey c_id (q_c_d_id q) (q_c_w_id q)) in
           if item = [] \<or> ids = [] then None else Some (c_id, hd ids)
      else let ids = db_idx db CUSTOMER_ID_IDX (custKey (q_c_id q) (q_c_d_id q) (q_c_w_id q)) in
           if ids = [] then None else Some (q_c_id q, last ids))"

lemma payment_customer_finds:
  assumes "customer_of (tx_db s) q = Some x"
  shows "payment_customer en q s = Next x s"
  using assms by (auto simp: payment_customer_def customer_of_def tp_ops mid_customer_half split: if_splits)

text \<open>A query that meets no obstacle: its rows exist, every access is granted, no page changed.\<close>

definition pay_finds :: "tpcc_env \<Rightarrow> tdb \<Rightarrow> tpcc_query \<Rightarrow> row_ptr \<Rightarrow> row_ptr \<Rightarrow> u64 \<Rightarrow> row_ptr \<Rightarrow> bool" where
  "pay_finds en db q w d c_id c \<longleftrightarrow> take 1 (db_idx db WAREHOUSE_IDX (q_w_id q)) = [w] \<and> take 1 (db_idx db DISTRICT_IDX (distKey (q_d_id q) (q_d_w_id q))) = [d] \<and>
     customer_of db q = Some (c_id, c) \<and> distinct [w, d, c, db_fresh db] \<and> (\<forall>k<3. en_grant en k) \<and> \<not> en_stale en w \<and> \<not> en_stale en d \<and> \<not> en_stale en c \<and>
     en_wh_update en"

definition history_row :: "tpcc_env \<Rightarrow> tdb \<Rightarrow> tpcc_query \<Rightarrow> row_ptr \<Rightarrow> row_ptr \<Rightarrow> u64 \<Rightarrow> trow" where
  "history_row en db q w d c_id =
     (set_str H_DATA (take 10 (tr_str (db_row db w) W_NAME) @ replicate 4 32 @ take 10 (tr_str (db_row db d) D_NAME)) \<circ> set_col H_AMOUNT (q_h_amount q) \<circ>
      set_col H_DATE 2013 \<circ> set_col H_W_ID (q_w_id q) \<circ> set_col H_D_ID (q_d_id q) \<circ> set_col H_C_W_ID (q_c_w_id q) \<circ> set_col H_C_D_ID (q_c_d_id q) \<circ>
      set_col H_C_ID c_id) (en_row en)"

text \<open>The state at the call of \<open>finish\<close>.\<close>

definition pay_data :: "tpcc_env \<Rightarrow> tpcc_query \<Rightarrow> u64 \<Rightarrow> trow \<Rightarrow> trow" where
  "pay_data en q c_id r = (if is_infix [66, 67] (tr_str r C_CREDIT)
     then set_str C_DATA (en_fmt en c_id q @ take (500 - length (en_fmt en c_id q)) (tr_str r C_DATA)) r else r)"

definition pay_cust_row :: "tpcc_env \<Rightarrow> tpcc_query \<Rightarrow> trow \<Rightarrow> trow" where
  "pay_cust_row en q r = (set_col C_PAYMENT_CNT (en_dadd en (tr_col r C_PAYMENT_CNT) (en_done en)) \<circ>
     set_col C_YTD_PAYMENT (en_dadd en (tr_col r C_YTD_PAYMENT) (q_h_amount q)) \<circ> set_col C_BALANCE (en_dsub en (tr_col r C_BALANCE) (q_h_amount q))) r"

lemma take1: "take 1 xs = [x] \<Longrightarrow> \<exists>ys. xs = x # ys"
  by (cases xs) auto

lemma pay_warehouse_step:
  assumes "db_idx (tx_db s) WAREHOUSE_IDX (q_w_id q) = w # ws" "en_grant en (length (tx_acc s))" "en_wh_update en"
  shows "pay_warehouse en q s = Next (take 10 (tr_str (db_row (tx_db s) w) W_NAME)) (s\<lparr>tx_acc := tx_acc s @ [(WR, w,
    set_col W_YTD (en_dadd en (tr_col (db_row (tx_db s) w) W_YTD) (q_h_amount q)) ((db_row (tx_db s) w)\<lparr>tr_key := en_key en (length (tx_acc s))\<rparr>))]\<rparr>)"
  using assms by (simp add: pay_warehouse_def tp_ops set_col_def)

lemma pay_district_step:
  assumes "db_idx (tx_db s) DISTRICT_IDX (distKey (q_d_id q) (q_d_w_id q)) = d # ds" "en_grant en (length (tx_acc s))"
  shows "pay_district en q s = Next (take 10 (tr_str (db_row (tx_db s) d) D_NAME)) (s\<lparr>tx_acc := tx_acc s @ [(WR, d,
    set_col D_YTD (en_dadd en (tr_col (db_row (tx_db s) d) D_YTD) (q_h_amount q)) ((db_row (tx_db s) d)\<lparr>tr_key := en_key en (length (tx_acc s))\<rparr>))]\<rparr>)"
  using assms by (simp add: pay_district_def tp_ops set_col_def)

lemma pay_customer_step:
  assumes "en_grant en (length (tx_acc s))"
  shows "pay_customer en q c_id c s = Next () (s\<lparr>tx_db := (tx_db s)\<lparr>db_row := (db_row (tx_db s))(c := pay_data en q c_id (db_row (tx_db s) c))\<rparr>,
    tx_acc := tx_acc s @ [(WR, c, pay_cust_row en q ((db_row (tx_db s) c)\<lparr>tr_key := en_key en (length (tx_acc s))\<rparr>))]\<rparr>)"
  using assms by (simp add: pay_customer_def tp_ops set_col_def pay_data_def pay_cust_row_def)

lemma pay_history_step:
  "pay_history en q c_id wn dn s = Next () (s\<lparr>tx_db := (tx_db s)\<lparr>db_size := (db_size (tx_db s))(HISTORY := db_size (tx_db s) HISTORY + 1),
     db_row := (db_row (tx_db s))(db_fresh (tx_db s) := (set_str H_DATA (wn @ replicate 4 32 @ dn) \<circ> set_col H_AMOUNT (q_h_amount q) \<circ> set_col H_DATE 2013 \<circ>
       set_col H_W_ID (q_w_id q) \<circ> set_col H_D_ID (q_d_id q) \<circ> set_col H_C_W_ID (q_c_w_id q) \<circ> set_col H_C_D_ID (q_c_d_id q) \<circ> set_col H_C_ID c_id) (en_row en)),
     db_fresh := db_fresh (tx_db s) + 1\<rparr>\<rparr>)"
  by (simp add: pay_history_def tp_ops)

abbreviation start :: "tdb \<Rightarrow> ttxn" where
  "start db \<equiv> \<lparr>tx_db = db, tx_acc = []\<rparr>"

definition pay_acc :: "tpcc_env \<Rightarrow> tdb \<Rightarrow> tpcc_query \<Rightarrow> row_ptr \<Rightarrow> row_ptr \<Rightarrow> row_ptr \<Rightarrow> (access_t \<times> row_ptr \<times> trow) list" where
  "pay_acc en db q w d c =
     [(WR, w, set_col W_YTD (en_dadd en (tr_col (db_row db w) W_YTD) (q_h_amount q)) ((db_row db w)\<lparr>tr_key := en_key en 0\<rparr>)),
      (WR, d, set_col D_YTD (en_dadd en (tr_col (db_row db d) D_YTD) (q_h_amount q)) ((db_row db d)\<lparr>tr_key := en_key en 1\<rparr>)),
      (WR, c, pay_cust_row en q ((db_row db c)\<lparr>tr_key := en_key en 2\<rparr>))]"

lemma pay_steps:
  assumes "pay_finds en db q w d c_id c"
  shows "\<exists>db'. run_payment en q (start db) = finish en RCOK \<lparr>tx_db = db', tx_acc = pay_acc en db q w d c\<rparr> \<and>
    db_row db' = (db_row db)(c := pay_data en q c_id (db_row db c), db_fresh db := history_row en db q w d c_id) \<and> db_idx db' = db_idx db"
proof -
  obtain ws ds where i: "db_idx db WAREHOUSE_IDX (q_w_id q) = w # ws" "db_idx db DISTRICT_IDX (distKey (q_d_id q) (q_d_w_id q)) = d # ds"
    using assms take1[of _ w] take1[of _ d] unfolding pay_finds_def by meson
  have g: "en_grant en 0" "en_grant en (Suc 0)" "en_grant en (Suc (Suc 0))" "en_wh_update en" "customer_of db q = Some (c_id, c)"
    using assms by (simp_all add: pay_finds_def)
  let ?s1 = "\<lparr>tx_db = db, tx_acc = take 1 (pay_acc en db q w d c)\<rparr>" and ?s2 = "\<lparr>tx_db = db, tx_acc = take 2 (pay_acc en db q w d c)\<rparr>"
  have 1: "pay_warehouse en q (start db) = Next (take 10 (tr_str (db_row db w) W_NAME)) ?s1" using pay_warehouse_step[of "start db" q w ws en] i g by (simp add: pay_acc_def)
  have 2: "pay_district en q ?s1 = Next (take 10 (tr_str (db_row db d) D_NAME)) ?s2" using pay_district_step[of ?s1 q d ds en] i g by (simp add: pay_acc_def)
  have 3: "payment_customer en q ?s2 = Next (c_id, c) ?s2" using g by (intro payment_customer_finds) simp
  let ?s3 = "\<lparr>tx_db = db\<lparr>db_row := (db_row db)(c := pay_data en q c_id (db_row db c))\<rparr>, tx_acc = pay_acc en db q w d c\<rparr>"
  have 4: "pay_customer en q c_id c ?s2 = Next () ?s3" using pay_customer_step[of en ?s2 q c_id c] g by (simp add: pay_acc_def numeral_2_eq_2)
  have "run_payment en q (start db) = tp_bind (pay_history en q c_id (take 10 (tr_str (db_row db w) W_NAME)) (take 10 (tr_str (db_row db d) D_NAME))) (\<lambda>_. finish en RCOK) ?s3"
    using 1 2 3 4 unfolding run_payment_def by simp
  also have "\<dots> = finish en RCOK \<lparr>tx_db = (tx_db ?s3)\<lparr>db_size := (db_size db)(HISTORY := db_size db HISTORY + 1),
      db_row := (db_row (tx_db ?s3))(db_fresh db := history_row en db q w d c_id), db_fresh := db_fresh db + 1\<rparr>, tx_acc = pay_acc en db q w d c\<rparr>"
    unfolding tp_bind_def pay_history_step history_row_def by simp
  finally show ?thesis
    by (intro exI[of _ "(tx_db ?s3)\<lparr>db_size := (db_size db)(HISTORY := db_size db HISTORY + 1),
      db_row := (db_row (tx_db ?s3))(db_fresh db := history_row en db q w d c_id), db_fresh := db_fresh db + 1\<rparr>"]) simp
qed

lemma finish_fresh: "\<forall>a\<in>set (tx_acc s). \<not> en_stale en (acc_row a) \<Longrightarrow>
    finish en rc s = (if rc = RCOK \<and> en_commit en then Done RCOK (s\<lparr>tx_db := write_back (rev (tx_acc s)) (tx_db s), tx_acc := []\<rparr>)
      else Done (if rc = RCOK then Abort else rc) (s\<lparr>tx_acc := []\<rparr>))"
  by (auto simp: finish_def numeral_2_eq_2)

lemma pay_finish:
  assumes "pay_finds en db q w d c_id c" "tx_acc s = pay_acc en db q w d c"
  shows "\<forall>a\<in>set (tx_acc s). \<not> en_stale en (acc_row a)"
  using assms by (simp add: pay_finds_def acc_row_def pay_acc_def)

text \<open>
  C35: The effect of a committed payment: it adds the amount to the year-to-date sums of its warehouse
  and district, takes it from the balance of its customer, whose payment sum and count grow, and
  makes one history row; no other row, no other column, no index and no string changes. In
  particular a bad credit's \<open>C_DATA\<close>, which the transaction changed in the shared row, is overwritten
  with the old value by the write-back of the copy.
\<close>

theorem payment_commits:
  assumes "pay_finds en db q w d c_id c" "en_commit en"
  shows "\<exists>s'. run_payment en q (start db) = Done RCOK s' \<and> tx_acc s' = [] \<and> db_idx (tx_db s') = db_idx db \<and>
    db_row (tx_db s') = (db_row db)(
      w := set_col W_YTD (en_dadd en (tr_col (db_row db w) W_YTD) (q_h_amount q)) (db_row db w),
      d := set_col D_YTD (en_dadd en (tr_col (db_row db d) D_YTD) (q_h_amount q)) (db_row db d),
      c := pay_cust_row en q (db_row db c),
      db_fresh db := history_row en db q w d c_id)"
proof -
  obtain db' where r: "run_payment en q (start db) = finish en RCOK \<lparr>tx_db = db', tx_acc = pay_acc en db q w d c\<rparr>"
      "db_row db' = (db_row db)(c := pay_data en q c_id (db_row db c), db_fresh db := history_row en db q w d c_id)" "db_idx db' = db_idx db"
    using pay_steps[OF assms(1)] by blast
  have ne: "w \<noteq> d" "w \<noteq> c" "d \<noteq> c" "c \<noteq> db_fresh db" "w \<noteq> db_fresh db" "d \<noteq> db_fresh db" using assms(1) by (auto simp: pay_finds_def)
  have k: "tr_key (pay_data en q c_id r) = tr_key r" for r by (simp add: pay_data_def set_str_def)
  have f: "finish en RCOK \<lparr>tx_db = db', tx_acc = pay_acc en db q w d c\<rparr> = Done RCOK \<lparr>tx_db = write_back (rev (pay_acc en db q w d c)) db', tx_acc = []\<rparr>"
    using finish_fresh[OF pay_finish[OF assms(1)], of "\<lparr>tx_db = db', tx_acc = pay_acc en db q w d c\<rparr>" RCOK] assms(2) by simp
  have "db_row (write_back (rev (pay_acc en db q w d c)) db') = (db_row db)(
      w := set_col W_YTD (en_dadd en (tr_col (db_row db w) W_YTD) (q_h_amount q)) (db_row db w),
      d := set_col D_YTD (en_dadd en (tr_col (db_row db d) D_YTD) (q_h_amount q)) (db_row db d),
      c := pay_cust_row en q (db_row db c), db_fresh db := history_row en db q w d c_id)"
    using ne k r(2) by (intro ext) (auto simp: set_col_def pay_cust_row_def pay_acc_def)
  moreover have "db_idx (write_back (rev (pay_acc en db q w d c)) db') = db_idx db" using r(3) by (simp add: pay_acc_def)
  ultimately show ?thesis using r(1) f by (intro exI[of _ "start (write_back (rev (pay_acc en db q w d c)) db')"]) simp
qed

text \<open>
   An aborted payment is not without effect: when validation fails, the customer's \<open>C_DATA\<close> (for
  a bad credit) stays changed and the history row stays allocated; nothing else changes.
\<close>

theorem payment_abort_leaves:
  assumes "pay_finds en db q w d c_id c" "\<not> en_commit en"
  shows "\<exists>s'. run_payment en q (start db) = Done Abort s' \<and> tx_acc s' = [] \<and> db_idx (tx_db s') = db_idx db \<and>
    db_row (tx_db s') = (db_row db)(c := pay_data en q c_id (db_row db c), db_fresh db := history_row en db q w d c_id)"
proof -
  obtain db' where r: "run_payment en q (start db) = finish en RCOK \<lparr>tx_db = db', tx_acc = pay_acc en db q w d c\<rparr>"
      "db_row db' = (db_row db)(c := pay_data en q c_id (db_row db c), db_fresh db := history_row en db q w d c_id)" "db_idx db' = db_idx db"
    using pay_steps[OF assms(1)] by blast
  then show ?thesis
    using finish_fresh[OF pay_finish[OF assms(1)], of "\<lparr>tx_db = db', tx_acc = pay_acc en db q w d c\<rparr>" RCOK] assms(2)
    by (intro exI[of _ "start db'"]) simp
qed

section \<open>New orders\<close>

text \<open>
  C36: The stock of an item stays in range: if the quantity is between 10 and 101 and between 1 and
  10 are ordered, the new quantity is the old one less the order, plus 91 exactly when at most 10
  would be left, and lies between 11 and 101; the unsigned subtraction that may wrap does no harm.
\<close>

theorem stock_quantity_range:
  assumes "10 \<le> unat s" "unat s \<le> 101" "1 \<le> unat n" "unat n \<le> 10"
  shows "unat (new_quantity s n) = (if unat n + 10 < unat s then unat s - unat n else unat s + 91 - unat n) \<and>
    11 \<le> unat (new_quantity s n) \<and> unat (new_quantity s n) \<le> 101"
proof -
  have a: "unat (n + 10) = unat n + 10" using assms(4) by (subst unat_add_lem[THEN iffD1]) simp_all
  have less: "n + 10 < s \<longleftrightarrow> unat n + 10 < unat s" by (simp add: word_less_nat_alt a)
  have 1: "unat (s - n) = unat s - unat n" if "unat n + 10 < unat s" using that by (intro unat_sub) (simp add: word_le_nat_alt)
  have 2: "unat (s - n + 91) = unat s + 91 - unat n"
  proof -
    have "unat (s + 91) = unat s + 91" using assms(2) by (subst unat_add_lem[THEN iffD1]) simp_all
    moreover have "unat (s + 91 - n) = unat (s + 91) - unat n" using calculation assms(1,4) by (intro unat_sub) (simp add: word_le_nat_alt)
    moreover have "s - n + 91 = s + 91 - n" by simp
    ultimately show ?thesis by metis
  qed
  have eq: "unat (new_quantity s n) = (if unat n + 10 < unat s then unat s - unat n else unat s + 91 - unat n)"
    unfolding new_quantity_def less using 1 2 by simp
  show ?thesis unfolding eq using assms by auto
qed

theorem stock_quantity_range_witness: "unat (new_quantity 12 10) = 93 \<and> 11 \<le> unat (new_quantity 12 10) \<and> unat (new_quantity 12 10) \<le> 101"
  using stock_quantity_range[of 12 10] by simp

lemma unat_key:
  assumes "unat w < 2 ^ 32" "unat d < 2 ^ 32" "unat x < 2 ^ 32"
  shows "unat (distKey d w * 3000 + x) = (unat w * 10 + unat d) * 3000 + unat x"
proof -
  have "unat (w * 10) = unat w * 10" using assms(1) by (subst unat_mult_lem[THEN iffD1]) simp_all
  moreover have "unat (w * 10 + d) = unat (w * 10) + unat d" using calculation assms by (subst unat_add_lem[THEN iffD1]) simp_all
  ultimately have d: "unat (distKey d w) = unat w * 10 + unat d" by (simp add: distKey_def DIST_PER_WARE_def)
  have "unat (distKey d w * 3000) = unat (distKey d w) * 3000" using d assms by (subst unat_mult_lem[THEN iffD1]) simp_all
  moreover have "unat (distKey d w * 3000 + x) = unat (distKey d w * 3000) + unat x" using calculation d assms by (subst unat_add_lem[THEN iffD1]) simp_all
  ultimately show ?thesis using d by simp
qed

lemma key_nat_inj:
  fixes w d x :: nat
  assumes "(w * 10 + d) * 3000 + x = (w' * 10 + d') * 3000 + x'" "1 \<le> d" "d \<le> 10" "1 \<le> d'" "d' \<le> 10" "1 \<le> x" "x \<le> 3000" "1 \<le> x'" "x' \<le> 3000"
  shows "w = w' \<and> d = d' \<and> x = x'"
proof -
  have "a = b" if "a * 3000 + x = b * 3000 + x'" for a b
    using that assms(6-9) by (cases "a < b"; cases "b < a") linarith+
  then have "w * 10 + d = w' * 10 + d'" using assms(1) by blast
  moreover from this have "w = w'" using assms(2-5) by (cases "w < w'"; cases "w' < w") linarith+
  ultimately show ?thesis using assms(1) by auto
qed

text \<open>
  C38: The primary keys of orders are unique for the 3000 orders that are loaded per district, but not
  beyond: order \<open>o + 3000\<close> of a district has the key of order \<open>o\<close> of the next district, and since a
  district starts with the next order number 3001, already the first new order has the key of the
  next district's order 2. The key used to look up a customer's orders is the key of the order
  whose number is the customer's.
\<close>

theorem order_keys_overlap:
  assumes a: "unat w < 2 ^ 32" "unat w' < 2 ^ 32" "{unat d, unat d'} \<subseteq> {1..10}" "{unat x, unat x'} \<subseteq> {1..3000}"
  shows "(orderPrimaryKey w d x = orderPrimaryKey w' d' x' \<longleftrightarrow> w = w' \<and> d = d' \<and> x = x') \<and>
    orderPrimaryKey w d (x + 3000) = orderPrimaryKey w (d + 1) x \<and> custKey c d w = orderPrimaryKey w d c"
proof -
  have "orderPrimaryKey w d (x + 3000) = orderPrimaryKey w (d + 1) x" "custKey c d w = orderPrimaryKey w d c"
    by (simp_all add: orderPrimaryKey_def orderlineKey_def distKey_def custKey_def algebra_simps)
  moreover have "unat (orderPrimaryKey w d x) = (unat w * 10 + unat d) * 3000 + unat x" "unat (orderPrimaryKey w' d' x') = (unat w' * 10 + unat d') * 3000 + unat x'"
    unfolding orderPrimaryKey_def orderlineKey_def using a unat_key[of w d x] unat_key[of w' d' x'] by simp_all
  then have "orderPrimaryKey w d x = orderPrimaryKey w' d' x' \<longleftrightarrow> w = w' \<and> d = d' \<and> x = x'"
    using key_nat_inj[of "unat w" "unat d" "unat x" "unat w'" "unat d'" "unat x'"] a by (auto simp: word_unat_eq_iff)
  ultimately show ?thesis by blast
qed

theorem order_keys_overlap_witness:
  "orderPrimaryKey 1 1 3002 = orderPrimaryKey 1 2 2 \<and> orderPrimaryKey 1 1 2 \<noteq> orderPrimaryKey 1 2 1 \<and> custKey 5 1 1 = orderPrimaryKey 1 1 5"
  using order_keys_overlap[of 1 1 1 2 2 1 5] by simp

lemma tx_db_inject: "s\<lparr>tx_db := a\<rparr> = s\<lparr>tx_db := b\<rparr> \<longleftrightarrow> a = b"
  by (cases s) simp

text \<open>The rows of a new order, at the addresses the allocator gives out next.\<close>

lemma order_rows_step:
  "\<exists>db'. order_rows en q o_id s = Next () (s\<lparr>tx_db := db'\<rparr>) \<and> (\<forall>p<db_fresh (tx_db s). db_row db' p = db_row (tx_db s) p) \<and>
    db_idx db' ORDER_IDX = (db_idx (tx_db s) ORDER_IDX)(orderPrimaryKey (q_w_id q) (q_d_id q) o_id :=
      db_fresh (tx_db s) # db_idx (tx_db s) ORDER_IDX (orderPrimaryKey (q_w_id q) (q_d_id q) o_id)) \<and>
    db_idx db' ITEM_IDX = db_idx (tx_db s) ITEM_IDX \<and> tr_col (db_row db' (db_fresh (tx_db s))) O_ID = o_id"
  by (cases "q_remote q") (simp_all add: order_rows_def tp_ops set_col_def tx_db_inject)

lemma new_order_steps:
  assumes "take 1 (db_idx db WAREHOUSE_IDX (q_w_id q)) = [w]" "take 1 (db_idx db CUSTOMER_ID_IDX (custKey (q_c_id q) (q_d_id q) (q_w_id q))) = [c]"
    "take 1 (db_idx db DISTRICT_IDX (distKey (q_d_id q) (q_w_id q))) = [d]" "en_grant en 0" "en_grant en 1" "en_grant en 2"
  shows "\<exists>a. map acc_row a = [w, c, d] \<and> run_new_order en pad q (start db) =
    tp_bind (order_rows en q (tr_col (db_row db d) D_NEXT_O_ID + 1)) (\<lambda>_.
      tp_bind (order_lines en q pad (tr_col (db_row db d) D_NEXT_O_ID + 1) (tr_col (db_row db c) C_DISCOUNT) 0 (q_items q)) (\<lambda>_. finish en RCOK))
      \<lparr>tx_db = db, tx_acc = a\<rparr>"
proof -
  obtain ws cs ds where i: "db_idx db WAREHOUSE_IDX (q_w_id q) = w # ws" "db_idx db CUSTOMER_ID_IDX (custKey (q_c_id q) (q_d_id q) (q_w_id q)) = c # cs"
      "db_idx db DISTRICT_IDX (distKey (q_d_id q) (q_w_id q)) = d # ds"
    using take1[OF assms(1)] take1[OF assms(2)] take1[OF assms(3)] by blast
  have g: "en_grant en (Suc 0)" "en_grant en (Suc (Suc 0))" using assms(5,6) by (simp_all add: numeral_2_eq_2)
  let ?a = "[(RD, w, (db_row db w)\<lparr>tr_key := en_key en 0\<rparr>), (RD, c, (db_row db c)\<lparr>tr_key := en_key en 1\<rparr>),
     (WR, d, set_col D_NEXT_O_ID (tr_col (db_row db d) D_NEXT_O_ID + 1) ((db_row db d)\<lparr>tr_key := en_key en 2\<rparr>))]"
  show ?thesis using i g assms(4)
    by (intro exI[of _ ?a]) (simp add: run_new_order_def tp_ops set_col_def acc_row_def numeral_2_eq_2)
qed

text \<open>
  C39: A rolled back order leaves its rows behind. When the first item of a new order does not exist,
  the transaction aborts and the district's next order number stays what it was, but the order is
  in the order index under its number, ahead of what was there: the next order of the district gets
  the same number and a second entry under the same key.
\<close>

theorem new_order_abort_leaves:
  assumes "take 1 (db_idx db WAREHOUSE_IDX (q_w_id q)) = [w]" "take 1 (db_idx db CUSTOMER_ID_IDX (custKey (q_c_id q) (q_d_id q) (q_w_id q))) = [c]"
    "take 1 (db_idx db DISTRICT_IDX (distKey (q_d_id q) (q_w_id q))) = [d]" "en_grant en 0" "en_grant en 1" "en_grant en 2"
    "\<not> en_stale en w" "\<not> en_stale en c" "\<not> en_stale en d" "d < db_fresh db" "q_items q = it # its" "db_idx db ITEM_IDX (ol_i_id it) = []"
  shows "\<exists>s'. run_new_order en pad q (start db) = Done Abort s' \<and> db_row (tx_db s') d = db_row db d \<and>
    (let o_id = tr_col (db_row db d) D_NEXT_O_ID + 1; key = orderPrimaryKey (q_w_id q) (q_d_id q) o_id in
      db_idx (tx_db s') ORDER_IDX key = db_fresh db # db_idx db ORDER_IDX key \<and> tr_col (db_row (tx_db s') (db_fresh db)) O_ID = o_id)"
proof -
  let ?o = "tr_col (db_row db d) D_NEXT_O_ID + 1"
  obtain a where a: "map acc_row a = [w, c, d]" "run_new_order en pad q (start db) = tp_bind (order_rows en q ?o) (\<lambda>_.
      tp_bind (order_lines en q pad ?o (tr_col (db_row db c) C_DISCOUNT) 0 (q_items q)) (\<lambda>_. finish en RCOK)) \<lparr>tx_db = db, tx_acc = a\<rparr>"
    using new_order_steps[OF assms(1-6), of pad] by (elim exE conjE)
  let ?s = "\<lparr>tx_db = db, tx_acc = a\<rparr>"
  obtain db' where r: "order_rows en q ?o ?s = Next () (?s\<lparr>tx_db := db'\<rparr>)" "\<forall>p<db_fresh db. db_row db' p = db_row db p"
      "db_idx db' ORDER_IDX = (db_idx db ORDER_IDX)(orderPrimaryKey (q_w_id q) (q_d_id q) ?o := db_fresh db # db_idx db ORDER_IDX (orderPrimaryKey (q_w_id q) (q_d_id q) ?o))"
      "db_idx db' ITEM_IDX = db_idx db ITEM_IDX" "tr_col (db_row db' (db_fresh db)) O_ID = ?o"
    using order_rows_step[of en q ?o ?s] by auto
  have "acc_row ` set a = {w, c, d}" using a(1) by (metis list.set_map list.simps(15) list.set(1))
  then have st: "\<forall>x\<in>set a. \<not> en_stale en (acc_row x)" using assms(7-9) by auto
  have "order_lines en q pad ?o (tr_col (db_row db c) C_DISCOUNT) 0 (q_items q) \<lparr>tx_db = db', tx_acc = a\<rparr> = Done Abort (start db')"
    using assms(11,12) r(4) st by (simp add: tp_ops finish_fresh)
  then have "run_new_order en pad q (start db) = Done Abort (start db')" using a(2) r(1) by simp
  then show ?thesis using r(2,3,5) assms(10) by (intro exI[of _ "start db'"]) (simp add: Let_def)
qed

section \<open>Transactions that do not return\<close>

text \<open>
  C40: A transaction one of whose pages changed its version after it was read never returns from
  \<open>finish\<close>, whatever its outcome was to be: the check calls \<open>finish\<close> again before anything changed.
\<close>

theorem finish_stale_diverges:
  assumes "a \<in> set (tx_acc s)" "en_stale en (acc_row a)"
  shows "finish_rec n en rc s = Fail Diverges"
  using assms by (induction n arbitrary: rc) auto

lemma deliver_lines_loop: "item \<noteq> [] \<Longrightarrow> deliver_lines n item s = Fail Diverges"
  by (induction n) auto

text \<open>
   A delivery never returns once it finds lines of an order: if the first district has order
  lines and the order they name has a line under its own key, the loop over those lines runs
  forever, for any number of steps.
\<close>

theorem delivery_diverges:
  assumes "\<not> db_delivering db (q_w_id q)" "db_idx db ORDER_LINE_IDX (distKey 1 (q_w_id q)) \<noteq> []"
    "no_o_id = tr_col (db_row db (last (db_idx db ORDER_LINE_IDX (distKey 1 (q_w_id q))))) OL_O_ID"
    "db_idx db ORDER_IDX (orderPrimaryKey (q_w_id q) 1 no_o_id) \<noteq> []" "en_grant en 0"
    "db_idx db ORDER_LINE_IDX (orderlineKey (q_w_id q) 1 no_o_id) \<noteq> []"
  shows "run_delivery en q (start db) = Fail Diverges \<and> deliver_lines n (db_idx db ORDER_LINE_IDX (orderlineKey (q_w_id q) 1 no_o_id)) s = Fail Diverges"
  using assms by (simp add: run_delivery_def deliver_district_def tp_ops deliver_lines_loop del: deliver_lines.simps)

section \<open>The stock level query\<close>

text \<open>The items below the threshold, as the query counts them.\<close>

definition low_stock :: "tdb \<Rightarrow> u64 \<Rightarrow> u64 \<Rightarrow> u64 \<Rightarrow> bool" where
  "low_stock db s_w_id threshold i \<longleftrightarrow> tr_col (db_row db (hd (db_idx db STOCK_IDX (stockKey i s_w_id)))) S_QUANTITY < threshold"

lemma count_low_acc:
  assumes "\<forall>i\<in>set is. db_idx (tx_db s) STOCK_IDX (stockKey i s_w_id) \<noteq> []"
  shows "count_low s_w_id threshold is seen r s =
    Next (Some (r + of_nat (card {i \<in> set is - set seen. low_stock (tx_db s) s_w_id threshold i}))) s"
  using assms
proof (induction "is" arbitrary: seen r)
  case (Cons i "is")
  let ?L = "low_stock (tx_db s) s_w_id threshold"
  show ?case
  proof (cases "i \<in> set seen")
    case True
    then have "{j \<in> set (i # is) - set seen. ?L j} = {j \<in> set is - set seen. ?L j}" by auto
    then show ?thesis using True Cons by simp
  next
    case False
    have st: "count_low s_w_id threshold (i # is) seen r s = count_low s_w_id threshold is (seen @ [i]) (if ?L i then r + 1 else r) s"
      using False Cons.prems by (simp add: tp_ops low_stock_def)
    let ?A = "{j \<in> set is - set (seen @ [i]). ?L j}"
    have "{j \<in> set (i # is) - set seen. ?L j} = (if ?L i then insert i ?A else ?A)" using False by auto
    moreover have "i \<notin> ?A" "finite ?A" by auto
    ultimately have "card {j \<in> set (i # is) - set seen. ?L j} = (if ?L i then 1 + card ?A else card ?A)" by simp
    then show ?thesis unfolding st using Cons.IH[of "seen @ [i]" "if ?L i then r + 1 else r"] Cons.prems by simp
  qed
qed simp

text \<open>
  C37: The stock level query counts correctly: whatever the order lines list, with repetitions, its
  result is the number of distinct items among them whose stock is below the threshold.
\<close>

theorem stock_count_distinct:
  assumes "\<forall>i\<in>set is. db_idx (tx_db s) STOCK_IDX (stockKey i s_w_id) \<noteq> []"
  shows "count_low s_w_id threshold is [] 0 s = Next (Some (of_nat (card {i \<in> set is. low_stock (tx_db s) s_w_id threshold i}))) s"
  using count_low_acc[OF assms, of threshold "[]" 0] by simp

section \<open>Examples\<close>

text \<open>A database with one warehouse, district, customer and order line, and a query on it.\<close>

abbreviation demo_row :: trow where
  "demo_row \<equiv> \<lparr>tr_key = 0, tr_col = (\<lambda>_. 1), tr_str = (\<lambda>_. [66, 67])\<rparr>"

abbreviation demo_db :: tdb where
  "demo_db \<equiv> \<lparr>db_row = (\<lambda>_. demo_row), db_idx = (\<lambda>i _. case i of WAREHOUSE_IDX \<Rightarrow> [0] | DISTRICT_IDX \<Rightarrow> [1] | CUSTOMER_ID_IDX \<Rightarrow> [2] |
     ORDER_IDX \<Rightarrow> [3] | ORDER_LINE_IDX \<Rightarrow> [4] | STOCK_IDX \<Rightarrow> [5] | _ \<Rightarrow> []), db_fresh = 9, db_size = (\<lambda>_. 0), db_delivering = (\<lambda>_. False)\<rparr>"

abbreviation demo_query :: tpcc_query where
  "demo_query \<equiv> \<lparr>q_w_id = 1, q_d_id = 1, q_c_id = 1, q_d_w_id = 1, q_c_w_id = 1, q_c_d_id = 1, q_c_last = [], q_h_amount = 5, q_by_last_name = False,
     q_items = [\<lparr>ol_i_id = 1, ol_supply_w_id = 1, ol_quantity = 1\<rparr>], q_remote = False, q_o_entry_d = 0, q_o_carrier_id = 1, q_threshold = 10\<rparr>"

abbreviation demo_env :: "bool \<Rightarrow> tpcc_env" where
  "demo_env ok \<equiv> \<lparr>en_grant = (\<lambda>_. True), en_commit = ok, en_stale = (\<lambda>p. p = 8), en_dadd = (+), en_dsub = (-), en_done = 1, en_fmt = (\<lambda>_ _. [124]),
     en_row = demo_row, en_key = (\<lambda>_. 0), en_wh_update = True\<rparr>"

lemma demo_pay: "pay_finds (demo_env ok) demo_db demo_query 0 1 1 2"
  by (simp add: pay_finds_def customer_of_def)

theorem payment_commits_witness:
  "\<exists>s'. run_payment (demo_env True) demo_query (start demo_db) = Done RCOK s' \<and> tr_col (db_row (tx_db s') 0) W_YTD = 6 \<and>
    tr_col (db_row (tx_db s') 2) C_BALANCE = - 4 \<and> tr_str (db_row (tx_db s') 2) C_DATA = [66, 67]"
  using payment_commits[OF demo_pay[of True]] by (auto simp: set_col_def pay_cust_row_def)

theorem payment_abort_leaves_witness:
  "\<exists>s'. run_payment (demo_env False) demo_query (start demo_db) = Done Abort s' \<and> tr_col (db_row (tx_db s') 0) W_YTD = 1 \<and>
    tr_str (db_row (tx_db s') 2) C_DATA = [124, 66, 67]"
  using payment_abort_leaves[OF demo_pay[of False]] by (auto simp: pay_data_def set_str_def is_infix_def)

theorem new_order_abort_leaves_witness:
  "\<exists>s'. run_new_order (demo_env True) 0 demo_query (start demo_db) = Done Abort s' \<and> tr_col (db_row (tx_db s') 1) D_NEXT_O_ID = 1 \<and>
    db_idx (tx_db s') ORDER_IDX (orderPrimaryKey 1 1 2) = [9, 3]"
  using new_order_abort_leaves[of demo_db demo_query 0 2 1 "demo_env True" "\<lparr>ol_i_id = 1, ol_supply_w_id = 1, ol_quantity = 1\<rparr>" "[]" 0]
  by (auto simp: Let_def)

theorem finish_stale_diverges_witness:
  "finish (demo_env True) RCOK \<lparr>tx_db = demo_db, tx_acc = [(RD, 8, demo_row)]\<rparr> = (Fail Diverges :: unit tpcc_out)"
  unfolding finish_def by (rule finish_stale_diverges[of "(RD, 8, demo_row)"]) (simp_all add: acc_row_def)

theorem delivery_diverges_witness: "run_delivery (demo_env True) demo_query (start demo_db) = Fail Diverges"
  using delivery_diverges[of demo_db demo_query 1 "demo_env True"] by simp

theorem stock_count_distinct_witness: "count_low 1 10 [7, 7, 8] [] 0 (start demo_db) = Next (Some 2) (start demo_db)"
proof -
  have "{i \<in> set [7, 7, 8 :: u64]. low_stock demo_db 1 10 i} = {7, 8}" by (auto simp: low_stock_def)
  then show ?thesis using stock_count_distinct[of "[7, 7, 8]" "start demo_db" 1 10] by simp
qed

end
