(* ===== verification/Spec2Isabelle.thy ===== *)
theory Spec2Isabelle
  imports Prelude Bubble_Sort Wait_Order Hash_Chain Lru_Cache Row_Lock Part_Lock Occ Silo Tictoc
    Coder Row_Data Latch Index_Hash Verify Index_Enc Btree_Index Index_Bt_Enc Dl_Detect Txn_Log Log_Buffer Log_Reader Row_Ts Hekaton Row_Mvcc Tpcc
begin

text \<open>
  VeriTxn in Isabelle/HOL: a verification development of the trusted part of the database.
\<close>

section \<open>Logging and recovery\<close>

text \<open>
  C29: What is logged can be read back. Whatever the interleaving of the workers and the log thread
  was when the program stopped (with atomic reservations, and a file of less than \<open>2 ^ 64\<close> bytes),
  and in whatever order the log thread and the
  recovery thread call the logger afterwards, reading the file that was left never fails, and
  the entries it hands out are the first entries of the log in the order of their reservation, byte
  for byte. They end strictly before the end of the file, so the last complete entry of a file
  that ends with it is not recovered. Every entry that does end before the end of the file is handed
  out when each reading call is followed by enough calls that take entries, and there are enough of
  them. The buffer of the recovering process has the size that the command line parser computes from
  its block sizes, which makes it more than twice as large as a block; the largest entry and 1024
  bytes fit in half of it, it is smaller than \<open>2 ^ 32\<close> bytes, and the blocks are whole sectors.
  The shipped sizes are such a configuration (\<open>shipped_sizes\<close>).
\<close>

theorem log_recovers_front:
  assumes "log_cfg_ok cfg" "log_reach cfg True junk s"
    and "parser_buffer_size True flush (lc_read_block rcfg) given = Inr (lc_buffer_size rcfg)" "recovery_sizes rcfg"
    and "\<forall>e\<in>set (ls_log s). log_format (lc_max_entry rcfg) e" "length (lg_fd_data (ls_lg s)) < 2 ^ 64"
  shows "(\<forall>ops. \<exists>ds rd. rd_run rcfg (lg_fd_data (ls_lg s)) ops (reader_init rcfg junk') = Inr (ds, rd) \<and>
      length ds \<le> length (ls_log s) \<and> list_all2 (\<lambda>e d. take (length e) d = e) (take (length ds) (ls_log s)) ds \<and>
      (ds \<noteq> [] \<longrightarrow> length (log_image (take (length ds) (ls_log s))) < length (lg_fd_data (ls_lg s)))) \<and>
    (\<forall>r m. length (ls_log s) \<le> m \<and> length (lg_fd_data (ls_lg s)) \<le> r * lc_read_block rcfg \<longrightarrow>
      (\<exists>ds rd. rd_run rcfg (lg_fd_data (ls_lg s)) (drain r m) (reader_init rcfg junk') = Inr (ds, rd) \<and>
        (\<forall>k \<le> length (ls_log s). length (log_image (take k (ls_log s))) < length (lg_fd_data (ls_lg s)) \<longrightarrow> k \<le> length ds)))"
proof -
  note ok = parsed_sizes_ok[OF assms(3,4)]
  note fl = log_reach_file[OF assms(1,2)]
  show ?thesis
    using recovery_in_order[OF ok fl(1) assms(5) fl(2) assms(6)] drain_delivers[OF ok assms(4) fl(1) assms(5) fl(2) assms(6)]
    by blast
qed

text \<open>Worker 1 logs two entries of half a block, and the log thread writes the block to the file.\<close>

lemma log_demo_two:
  assumes "length e = 256" "announces e" "length junk = 2560"
  shows "\<exists>s. log_run log_demo_cfg True ([Room 1 e, Work 1, Work 1, Work 1, Work 1, Work 1, Work 1] @ log_demo_run e) (log_sys_init log_demo_cfg junk) = Some s \<and>
    ls_log s = [e, e] \<and> lg_fd_data (ls_lg s) = e @ e"
  using assms by (cases "e = []") (simp_all add: log_exec_simps)

theorem log_recovers_front_witness:
  "\<exists>s ds rd. log_reach log_demo_cfg True (replicate 2560 7) s \<and> length (lg_fd_data (ls_lg s)) = 512 \<and>
    rd_run rd_demo_cfg (lg_fd_data (ls_lg s)) (drain 1 2) (reader_init rd_demo_cfg []) = Inr (ds, rd) \<and>
    length ds = 1 \<and> length (ls_log s) = 2 \<and> take 256 (hd ds) = hd (ls_log s)"
proof -
  obtain z :: bytes where z: "z = replicate 244 0" by blast
  have lz: "length z = 244" unfolding z by (rule length_replicate)
  obtain e where e: "length e = 256" "announces e" "log_format 512 e"
    using that[of "log_header 256 0 @ z"] lz by (simp add: log_header_def announces_def log_format_def u32_bytes_def upt_conv_Cons)
  have l: "length (replicate 2560 (7 :: u8)) = 2560" by (rule length_replicate)
  obtain s where s: "log_run log_demo_cfg True ([Room 1 e, Work 1, Work 1, Work 1, Work 1, Work 1, Work 1] @ log_demo_run e) (log_sys_init log_demo_cfg (replicate 2560 7)) = Some s"
      "ls_log s = [e, e]" "lg_fd_data (ls_lg s) = e @ e" using log_demo_two[OF e(1,2) l] by blast
  note reach = log_run_reach[OF s(1)]
  have cfg: "lc_max_entry rd_demo_cfg = 512" "lc_read_block rd_demo_cfg = 512"
      "parser_buffer_size True 512 (lc_read_block rd_demo_cfg) 4096 = Inr (lc_buffer_size rd_demo_cfg)" "recovery_sizes rd_demo_cfg"
    by (simp_all add: rd_demo_cfg_def parser_buffer_size_def recovery_sizes_def)
  have fmt: "\<forall>e\<in>set (ls_log s). log_format (lc_max_entry rd_demo_cfg) e" using s(2) e(3) cfg(1) by simp
  have len: "length (lg_fd_data (ls_lg s)) = 512" using s(3) e(1) by simp
  have lt: "length (lg_fd_data (ls_lg s)) < 2 ^ 64" unfolding len by simp
  note th = log_recovers_front[OF log_demo_ok reach cfg(3,4) fmt lt, of "[]", unfolded len s(2) cfg(2)]
  have im: "length (log_image [e]) = 256" "length (log_image [e, e]) = 512" using e(1) by (simp_all add: log_image_def entry_image_def size_aligned_def)
  obtain ds rd where ds: "rd_run rd_demo_cfg (lg_fd_data (ls_lg s)) (drain 1 2) (reader_init rd_demo_cfg []) = Inr (ds, rd)"
      "\<forall>k \<le> length [e, e]. length (log_image (take k [e, e])) < 512 \<longrightarrow> k \<le> length ds"
    using th[THEN conjunct2, THEN spec[of _ 1], THEN spec[of _ 2]] by auto
  have "1 \<le> length ds" using ds(2)[rule_format, of 1] im(1) by simp
  moreover have out: "length ds \<le> 2" "list_all2 (\<lambda>e d. take (length e) d = e) (take (length ds) [e, e]) ds"
      "ds \<noteq> [] \<longrightarrow> length (log_image (take (length ds) [e, e])) < 512"
    using th[THEN conjunct1, THEN spec[of _ "drain 1 2"]] ds(1) by auto
  moreover have "length ds \<noteq> 2" using out(3) im(2) by auto
  ultimately have one: "length ds = 1" by linarith
  then obtain d where "ds = [d]" by (cases ds) auto
  then have "take 256 (hd ds) = hd (ls_log s)" "length (ls_log s) = 2" using out(2) e(1) s(2) by simp_all
  then show ?thesis using reach len ds(1) one by blast
qed

end
